(* ===== verification/Nyks_Prelude.thy ===== *)
theory Nyks_Prelude
  imports Main "HOL-Library.Word" "HOL-Library.Multiset" "HOL-Library.Char_ord"
begin

text \<open>
  The shared vocabulary of the development: the machine integers of the Rust sources, the ways in
  which a Rust function stops early, the generic facts on lists, multisets and words that the
  components share, and the collections of simplification rules they extend.

  Conventions. The sources are read as the \<^verbatim>\<open>release\<close> profile of \<^verbatim>\<open>Cargo.toml\<close> builds them: the
  operators \<open>+\<close>, \<open>-\<close>, \<open>*\<close> and \<open><<\<close> on machine integers wrap around, and \<^verbatim>\<open>debug_assert!\<close> is
  not executed; \<^verbatim>\<open>assert!\<close>, \<^verbatim>\<open>unwrap\<close>, \<^verbatim>\<open>expect\<close>, an index out of bounds and a division by
  zero are panics in every profile. An unsigned integer is a word of its width. A signed integer is
  an \<open>int\<close> together with the wrap-around of its width, written out where an operation can leave
  the range. A panic is the left summand of \<open>panic + 'a\<close>.
\<close>

unbundle bit_operations_syntax

section \<open>Machine integers and panics\<close>

type_synonym u8 = "8 word"
type_synonym u32 = "32 word"
type_synonym u64 = "64 word"
type_synonym u128 = "128 word"

datatype panic =
    AssertFailed      \<comment> \<open>\<^verbatim>\<open>assert!\<close>, \<^verbatim>\<open>assert_eq!\<close>, \<^verbatim>\<open>assert_ne!\<close>\<close>
  | UnwrapFailed      \<comment> \<open>\<^verbatim>\<open>unwrap\<close> or \<^verbatim>\<open>expect\<close> of a \<^verbatim>\<open>None\<close> or an \<^verbatim>\<open>Err\<close>\<close>
  | IndexOutOfBounds
  | DivisionByZero
  | ExplicitPanic     \<comment> \<open>\<^verbatim>\<open>panic!\<close>\<close>
  | StackOverflow     \<comment> \<open>a recursion that does not end\<close>

text \<open>The result of a Rust function that may panic.\<close>

type_synonym 'a res = "panic + 'a"

definition bind_res :: "'e + 'a \<Rightarrow> ('a \<Rightarrow> 'e + 'b) \<Rightarrow> 'e + 'b" where
  "bind_res r f = (case r of Inl e \<Rightarrow> Inl e | Inr a \<Rightarrow> f a)"

text \<open>\<^verbatim>\<open>assert!(b)\<close> followed by the rest of the function.\<close>

definition assert_then :: "bool \<Rightarrow> 'a res \<Rightarrow> 'a res" where
  "assert_then b r = (if b then r else Inl AssertFailed)"

text \<open>Indexing a vector, \<^verbatim>\<open>v[i]\<close>.\<close>

definition index_res :: "'a list \<Rightarrow> nat \<Rightarrow> 'a res" where
  "index_res xs i = (if i < length xs then Inr (xs ! i) else Inl IndexOutOfBounds)"

text \<open>A function that returns a \<^verbatim>\<open>Result\<close> and may panic has two layers: \<open>Inl\<close> is a panic, \<open>Inr (Inl e)\<close> is
  \<^verbatim>\<open>Err(e)\<close>. \<open>reject_if\<close> is an early return of an error, \<open>try_then\<close> is the operator \<^verbatim>\<open>?\<close>.\<close>

definition reject_if :: "bool \<Rightarrow> 'e \<Rightarrow> ('e + 'a) res \<Rightarrow> ('e + 'a) res" where
  "reject_if b e rest = (if b then Inr (Inl e) else rest)"

definition try_then :: "('e + 'a) res \<Rightarrow> ('a \<Rightarrow> ('e + 'b) res) \<Rightarrow> ('e + 'b) res" where
  "try_then r f = bind_res r (\<lambda>x. case x of Inl e \<Rightarrow> Inr (Inl e) | Inr a \<Rightarrow> f a)"

text \<open>Mapping a function that may fail over a list, in order: \<^verbatim>\<open>iter().map(f).collect()\<close>.\<close>

fun traverse :: "('a \<Rightarrow> 'e + 'b) \<Rightarrow> 'a list \<Rightarrow> 'e + 'b list" where
  "traverse f [] = Inr []"
| "traverse f (x # xs) = bind_res (f x) (\<lambda>y. bind_res (traverse f xs) (\<lambda>ys. Inr (y # ys)))"

text \<open>Signed integers of \<open>n + 1\<close> bits in two's complement: the wrap-around of an operation.\<close>

definition wrap_i64 :: "int \<Rightarrow> int" where
  "wrap_i64 x = signed_take_bit 63 x"

definition wrap_i128 :: "int \<Rightarrow> int" where
  "wrap_i128 x = signed_take_bit 127 x"

definition is_i64 :: "int \<Rightarrow> bool" where
  "is_i64 x \<longleftrightarrow> - (2 ^ 63) \<le> x \<and> x < 2 ^ 63"

definition is_i128 :: "int \<Rightarrow> bool" where
  "is_i128 x \<longleftrightarrow> - (2 ^ 127) \<le> x \<and> x < 2 ^ 127"

text \<open>Rust's division and remainder of signed integers truncate towards zero.\<close>

definition tdiv :: "int \<Rightarrow> int \<Rightarrow> int" where
  "tdiv a b = sgn a * sgn b * (\<bar>a\<bar> div \<bar>b\<bar>)"

definition trem :: "int \<Rightarrow> int \<Rightarrow> int" where
  "trem a b = a - b * tdiv a b"

text \<open>\<^verbatim>\<open>checked_add\<close>, \<^verbatim>\<open>checked_sub\<close>, \<^verbatim>\<open>checked_mul\<close> and the saturating operations of the
  unsigned integers.\<close>

definition checked_add_w :: "'a::len word \<Rightarrow> 'a word \<Rightarrow> 'a word option" where
  "checked_add_w a b = (if unat a + unat b < 2 ^ LENGTH('a) then Some (a + b) else None)"

definition checked_sub_w :: "'a::len word \<Rightarrow> 'a word \<Rightarrow> 'a word option" where
  "checked_sub_w a b = (if b \<le> a then Some (a - b) else None)"

definition checked_mul_w :: "'a::len word \<Rightarrow> 'a word \<Rightarrow> 'a word option" where
  "checked_mul_w a b = (if unat a * unat b < 2 ^ LENGTH('a) then Some (a * b) else None)"

definition saturating_add_w :: "'a::len word \<Rightarrow> 'a word \<Rightarrow> 'a word" where
  "saturating_add_w a b = (if unat a + unat b < 2 ^ LENGTH('a) then a + b else - 1)"

definition saturating_sub_w :: "'a::len word \<Rightarrow> 'a word \<Rightarrow> 'a word" where
  "saturating_sub_w a b = (if b \<le> a then a - b else 0)"

section \<open>Rule collections\<close>

named_theorems res_simps "unfolding of the result combinators"
named_theorems wrap_simps "wrap-around that does not happen"
named_theorems unat_simps "machine operations read as natural numbers"

declare bind_res_def [res_simps] assert_then_def [res_simps] index_res_def [res_simps]

section \<open>Results\<close>

lemma bind_res_Inr: "bind_res r f = Inr x \<longleftrightarrow> (\<exists>a. r = Inr a \<and> f a = Inr x)"
  by (auto simp: bind_res_def split: sum.splits)

lemma reject_if_ok: "reject_if b e r = Inr (Inr x) \<longleftrightarrow> \<not> b \<and> r = Inr (Inr x)"
  by (simp add: reject_if_def)

lemma try_then_ok: "try_then r f = Inr (Inr x) \<longleftrightarrow> (\<exists>a. r = Inr (Inr a) \<and> f a = Inr (Inr x))"
  unfolding try_then_def bind_res_def by (auto split: sum.splits)

lemma unit_result_ok: "(case r of Inl _ \<Rightarrow> True | Inr _ \<Rightarrow> False) \<longleftrightarrow> r \<noteq> Inr ()" for r :: "'e + unit"
  by (cases r) auto

lemmas accept_simps = bind_res_Inr reject_if_ok try_then_ok unit_result_ok

lemma traverse_Inr: "traverse f xs = Inr ys \<longleftrightarrow> list_all2 (\<lambda>x y. f x = Inr y) xs ys"
  by (induction xs arbitrary: ys) (auto simp: bind_res_Inr list_all2_Cons1)

lemma traverse_map: "(\<And>x. x \<in> set xs \<Longrightarrow> f x = Inr (g x)) \<Longrightarrow> traverse f xs = Inr (map g xs)"
  by (induction xs) (auto simp: bind_res_def)

section \<open>Signed wrap-around\<close>

lemma wrap_i64_id [wrap_simps]: "is_i64 x \<Longrightarrow> wrap_i64 x = x"
  by (simp add: wrap_i64_def is_i64_def signed_take_bit_int_eq_self)

lemma wrap_i128_id [wrap_simps]: "is_i128 x \<Longrightarrow> wrap_i128 x = x"
  by (simp add: wrap_i128_def is_i128_def signed_take_bit_int_eq_self)

lemma is_i128_wrap: "is_i128 (wrap_i128 x)"
  using signed_take_bit_int_less_exp [of 127 x] signed_take_bit_int_greater_eq_minus_exp [of 127 x]
  by (simp add: wrap_i128_def is_i128_def)

lemma is_i64_wrap: "is_i64 (wrap_i64 x)"
  using signed_take_bit_int_less_exp [of 63 x] signed_take_bit_int_greater_eq_minus_exp [of 63 x]
  by (simp add: wrap_i64_def is_i64_def)

lemma tdiv_nonneg [simp]: "0 \<le> a \<Longrightarrow> 0 < b \<Longrightarrow> tdiv a b = a div b"
  by (cases "a = 0") (auto simp: tdiv_def)

lemma trem_nonneg [simp]: "0 \<le> a \<Longrightarrow> 0 < b \<Longrightarrow> trem a b = a mod b"
  by (simp add: trem_def minus_mult_div_eq_mod)

section \<open>Words read as natural numbers\<close>

lemma unat_lt_exp [simp]: "unat (w :: 'a::len word) < 2 ^ LENGTH('a)"
  by (rule unsigned_less)

lemma word_eq_unatI: "unat a = unat b \<Longrightarrow> a = b"
  by (simp add: word_unat_eq_iff)

lemma nat_sub_mod:
  assumes "int a = (int b - int c) mod int p" "c \<le> b" "b < p"
  shows "a = b - c"
proof -
  have "(int b - int c) mod int p = int (b - c)"
    using assms(2,3) by (simp add: of_nat_diff)
  with assms(1) show ?thesis by simp
qed

lemma base_split_unique:
  assumes "(a::nat) < B" "b < B"
  shows "a + B * m = b + B * n \<longleftrightarrow> a = b \<and> m = n"
proof
  assume eq: "a + B * m = b + B * n"
  then have "(a + B * m) mod B = (b + B * n) mod B" "(a + B * m) div B = (b + B * n) div B"
    by simp_all
  with assms show "a = b \<and> m = n" by simp
qed simp

lemma add_div_carry:
  assumes "n < (B::nat)"
  shows "(n + s) div B = s div B + of_bool (B \<le> n + s mod B)"
proof -
  have "(n + s mod B) div B = of_bool (B \<le> n + s mod B)"
  proof (cases "B \<le> n + s mod B")
    case True
    moreover have "n + s mod B - B < B" using assms mod_less_divisor [of B s] by linarith
    ultimately show ?thesis using assms by (simp add: le_div_geq)
  qed simp
  moreover have "(n + s) div B = s div B + (n + s mod B) div B"
    using div_add1_eq [of n s B] assms by simp
  ultimately show ?thesis by simp
qed

lemma unat_u32_lt: "unat (w :: u32) < 4294967296"
  using unsigned_less [of w] by simp

lemma unat_u64_lt: "unat (w :: u64) < 18446744073709551616"
  using unsigned_less [of w] by simp

lemma unat_u128_lt: "unat (w :: u128) < 340282366920938463463374607431768211456"
  using unsigned_less [of w] by simp

lemma wrap_i64_uint [wrap_simps]:
  assumes "unat (w :: u64) < 2 ^ 63"
  shows "wrap_i64 (uint w) = uint w"
proof -
  have "int (unat w) < int (2 ^ 63)" using assms by (simp only: of_nat_less_iff)
  then have "uint w < 2 ^ 63" by simp
  then show ?thesis by (intro wrap_i64_id) (simp add: is_i64_def order_trans [OF _ uint_ge_0])
qed

lemma unat_ucast_up [unat_simps]:
  "LENGTH('a) \<le> LENGTH('b) \<Longrightarrow> unat (ucast (w :: 'a::len word) :: 'b::len word) = unat w"
  by (simp add: unsigned_ucast_eq take_bit_nat_eq_self
      order_less_le_trans [OF unsigned_less power_increasing])

lemma unat_ucast_mod [unat_simps]:
  "unat (ucast (w :: 'a::len word) :: 'b::len word) = unat w mod 2 ^ LENGTH('b)"
  by (simp add: unsigned_ucast_eq take_bit_eq_mod)

lemma unat_add_no_overflow:
  "unat (a :: 'a::len word) + unat b < 2 ^ LENGTH('a) \<Longrightarrow> unat (a + b) = unat a + unat b"
  by (simp add: unat_word_ariths)

lemma unat_mult_no_overflow:
  "unat (a :: 'a::len word) * unat b < 2 ^ LENGTH('a) \<Longrightarrow> unat (a * b) = unat a * unat b"
  by (simp add: unat_word_ariths)

lemma unat_sub_le: "b \<le> (a :: 'a::len word) \<Longrightarrow> unat (a - b) = unat a - unat b"
  by (rule unat_sub)

lemma unat_drop_bit: "unat (drop_bit n (w :: 'a::len word)) = unat w div 2 ^ n"
  by (simp only: unat_drop_bit_eq) (simp add: drop_bit_eq_div)

lemma or_eq_plus_word:
  assumes "(a :: 'a::len word) AND b = 0"
  shows "a OR b = a + b"
proof -
  have "uint a AND uint b = 0" using assms by (metis unsigned_0 unsigned_and_eq)
  then have "uint (a OR b) = uint a + uint b"
    using plus_and_or [of "uint a" "uint b"] by (simp add: unsigned_or_eq)
  then show ?thesis by (metis word_of_int_uint wi_hom_add)
qed

lemma unat_push_bit:
  assumes "unat (a :: 'a::len word) * 2 ^ k < 2 ^ LENGTH('a)"
  shows "unat (push_bit k a) = unat a * 2 ^ k"
  using assms by (subst unsigned_push_bit_eq) (simp add: push_bit_eq_mult take_bit_nat_eq_self)

lemma unat_take_bit: "unat (take_bit k (a :: 'a::len word)) = unat a mod 2 ^ k"
  by (simp only: unsigned_take_bit_eq) (simp add: take_bit_eq_mod)

lemma unat_push_or:
  assumes "unat (b :: 'a::len word) < 2 ^ k" "unat a * 2 ^ k + unat b < 2 ^ LENGTH('a)"
  shows "unat (push_bit k a OR b) = unat a * 2 ^ k + unat b"
proof -
  have "take_bit k b = b"
    using assms(1) by (intro word_eq_unatI) (simp add: unat_take_bit)
  then have bits: "\<not> bit b n" if "k \<le> n" for n
    using that by (metis bit_take_bit_iff not_le)
  have "push_bit k a AND b = 0"
    by (intro bit_eqI) (auto simp: bit_simps bits)
  then show ?thesis
    using assms unat_push_bit [of a k] by (simp add: or_eq_plus_word unat_add_no_overflow)
qed

lemma and_exp_minus_one: "(a :: 'a::len word) AND (push_bit k 1 - 1) = take_bit k a"
  by (simp add: take_bit_eq_mask mask_eq_exp_minus_1 push_bit_eq_mult)

lemma checked_add_w_Some [unat_simps]:
  "checked_add_w a b = Some c \<longleftrightarrow>
     unat a + unat b < 2 ^ LENGTH('a) \<and> unat (c :: 'a::len word) = unat a + unat b"
  by (auto simp: checked_add_w_def unat_add_no_overflow)
     (metis unat_add_no_overflow unsigned_word_eqI)

lemma checked_mul_w_Some [unat_simps]:
  "checked_mul_w a b = Some c \<longleftrightarrow>
     unat a * unat b < 2 ^ LENGTH('a) \<and> unat (c :: 'a::len word) = unat a * unat b"
  by (auto simp: checked_mul_w_def unat_mult_no_overflow)
     (metis unat_mult_no_overflow unsigned_word_eqI)

lemma checked_sub_w_Some [unat_simps]:
  "checked_sub_w a b = Some c \<longleftrightarrow> b \<le> a \<and> unat (c :: 'a::len word) = unat a - unat b"
  by (auto simp: checked_sub_w_def unat_sub_le) (metis unat_sub_le unsigned_word_eqI)

section \<open>Vectors\<close>

text \<open>\<^verbatim>\<open>Vec::remove\<close> at an index within bounds, and the loop that scans a whole vector for the
  last position at which an element occurs.\<close>

definition remove_nth :: "nat \<Rightarrow> 'a list \<Rightarrow> 'a list" where
  "remove_nth i xs = take i xs @ drop (Suc i) xs"

definition last_position :: "'a \<Rightarrow> 'a list \<Rightarrow> nat option" where
  "last_position x xs = foldl (\<lambda>found i. if xs ! i = x then Some i else found) None [0..<length xs]"

text \<open>\<^verbatim>\<open>Itertools::find_position\<close>: the first position whose element satisfies a predicate.\<close>

fun find_position :: "('a \<Rightarrow> bool) \<Rightarrow> 'a list \<Rightarrow> nat option" where
  "find_position P [] = None"
| "find_position P (x # xs) = (if P x then Some 0 else map_option Suc (find_position P xs))"

lemma find_position_Some:
  "find_position P xs = Some i \<Longrightarrow> i < length xs \<and> P (xs ! i) \<and> (\<forall>j<i. \<not> P (xs ! j))"
  by (induction xs arbitrary: i) (auto split: if_splits simp: less_Suc_eq_0_disj)

lemma find_position_None: "find_position P xs = None \<longleftrightarrow> (\<forall>x\<in>set xs. \<not> P x)"
  by (induction xs) auto

lemma last_position_snoc:
  "last_position x (xs @ [y]) = (if y = x then Some (length xs) else last_position x xs)"
proof -
  have "foldl (\<lambda>found i. if (xs @ [y]) ! i = x then Some i else found) a is =
      foldl (\<lambda>found i. if xs ! i = x then Some i else found) a is"
    if "\<forall>i\<in>set is. i < length xs" for a and "is" :: "nat list"
    using that by (induction "is" arbitrary: a) (auto simp: nth_append)
  then show ?thesis by (simp add: last_position_def)
qed

lemma last_position_Some:
  "last_position x xs = Some i \<Longrightarrow> i < length xs \<and> xs ! i = x"
proof (induction xs arbitrary: i rule: rev_induct)
  case (snoc y xs)
  then show ?case by (auto simp: last_position_snoc nth_append split: if_splits)
qed (simp add: last_position_def)

lemma last_position_None: "last_position x xs = None \<longleftrightarrow> x \<notin> set xs"
proof (induction xs rule: rev_induct)
  case (snoc y xs)
  then show ?case by (auto simp: last_position_snoc)
qed (simp add: last_position_def)

lemma mset_remove_nth:
  assumes "i < length xs"
  shows "mset (remove_nth i xs) = mset xs - {#xs ! i#}"
proof -
  have "mset xs = mset (take i xs) + {#xs ! i#} + mset (drop (Suc i) xs)"
    using id_take_nth_drop [OF assms] by (metis mset_append mset.simps(2) union_assoc add_mset_add_single
        union_mset_add_mset_left union_mset_add_mset_right)
  then show ?thesis by (simp add: remove_nth_def)
qed

lemma set_remove_nth: "set (remove_nth i xs) \<subseteq> set xs"
  by (auto simp: remove_nth_def dest: in_set_takeD in_set_dropD)

lemma sorted_remove_nth:
  assumes "sorted xs"
  shows "sorted (remove_nth i xs)"
proof -
  have "set (drop (Suc i) xs) \<subseteq> set (drop i xs)" by (simp add: set_drop_subset_set_drop)
  moreover have "sorted (take i xs @ drop i xs)" using assms by simp
  ultimately show ?thesis
    using assms unfolding remove_nth_def sorted_append
    by (auto simp: sorted_wrt_drop)
qed

lemma sorted_mset_unique: "sorted xs \<Longrightarrow> sorted ys \<Longrightarrow> mset xs = mset ys \<Longrightarrow> xs = (ys :: 'a::linorder list)"
  by (metis properties_for_sort sorted_sort_id)

section \<open>Decimal numerals\<close>

text \<open>The text that \<^verbatim>\<open>{}\<close> prints for an unsigned integer, and what \<^verbatim>\<open>from_str\<close> of a non-empty
  string of digits reads.\<close>

definition is_digit :: "char \<Rightarrow> bool" where
  "is_digit c \<longleftrightarrow> CHR ''0'' \<le> c \<and> c \<le> CHR ''9''"

definition digit_char :: "nat \<Rightarrow> char" where
  "digit_char d = char_of (48 + d)"

definition char_digit :: "char \<Rightarrow> nat" where
  "char_digit c = of_char c - 48"

fun show_nat :: "nat \<Rightarrow> string" where
  "show_nat n = (if n < 10 then [digit_char n] else show_nat (n div 10) @ [digit_char (n mod 10)])"

definition read_nat :: "string \<Rightarrow> nat" where
  "read_nat s = foldl (\<lambda>v c. v * 10 + char_digit c) 0 s"

declare show_nat.simps [simp del]

lemma digit_char_is_digit [simp]: "d < 10 \<Longrightarrow> is_digit (digit_char d)"
  by (simp add: is_digit_def digit_char_def less_eq_char_def)

lemma char_digit_digit_char [simp]: "d < 10 \<Longrightarrow> char_digit (digit_char d) = d"
  by (simp add: char_digit_def digit_char_def)

lemma read_nat_append: "read_nat (s @ t) = read_nat s * 10 ^ length t + read_nat t"
proof (induction t rule: rev_induct)
  case (snoc c t)
  then show ?case by (simp add: read_nat_def algebra_simps)
qed (simp add: read_nat_def)

lemma read_nat_digit: "d < 10 \<Longrightarrow> read_nat [digit_char d] = d"
  by (simp add: read_nat_def)

lemma read_show_nat [simp]: "read_nat (show_nat n) = n"
proof (induction n rule: show_nat.induct)
  case (1 n)
  then show ?case
    by (subst show_nat.simps) (auto simp: read_nat_append read_nat_digit)
qed

lemma show_nat_digits: "c \<in> set (show_nat n) \<Longrightarrow> is_digit c"
proof (induction n arbitrary: c rule: show_nat.induct)
  case (1 n)
  then show ?case
    by (subst (asm) show_nat.simps) (auto split: if_splits)
qed

lemma show_nat_digit: "d < 10 \<Longrightarrow> show_nat d = [digit_char d]"
  by (subst show_nat.simps) simp

lemma digit_char_01: "digit_char 0 = CHR ''0''" "digit_char (Suc 0) = CHR ''1''"
  by (simp_all add: digit_char_def, code_simp+)

lemma show_nat_nonempty [simp]: "show_nat n \<noteq> []"
  by (subst show_nat.simps) simp

end
