(* ===== verification/Limbs.thy ===== *)
theory Limbs
  imports Nyks_Prelude
begin

text \<open>
  Little-endian numbers with 32-bit limbs, the representation that \<^verbatim>\<open>Difficulty\<close> and
  \<^verbatim>\<open>ProofOfWork\<close> of \<^verbatim>\<open>consensus/src/block/difficulty_control.rs\<close> share: the value of a list of
  limbs, the conversion from and to big integers, and the comparison, with the lemmas that make the
  limb loops of that file statements about natural numbers. \<^verbatim>\<open>BigUint\<close> is \<open>nat\<close>.
\<close>

section \<open>Definitions\<close>

fun limbs_val :: "u32 list \<Rightarrow> nat" where
  "limbs_val [] = 0"
| "limbs_val (d # ds) = unat d + 4294967296 * limbs_val ds"

text \<open>\<^verbatim>\<open>BigUint::iter_u32_digits\<close>: least significant digit first, none for zero.\<close>

fun u32_digits :: "nat \<Rightarrow> u32 list" where
  "u32_digits n = (if n = 0 then [] else of_nat (n mod 4294967296) # u32_digits (n div 4294967296))"

declare u32_digits.simps [simp del]

lemma u32_digits_0 [simp]: "u32_digits 0 = []"
  by (simp add: u32_digits.simps)

text \<open>\<^verbatim>\<open>Itertools::pad_using\<close>: extend an iterator to a length.\<close>

definition pad_using :: "nat \<Rightarrow> u32 list \<Rightarrow> u32 list" where
  "pad_using n ds = ds @ replicate (n - length ds) 0"

text \<open>The loop of \<^verbatim>\<open>From<Difficulty> for BigUint\<close> and \<^verbatim>\<open>From<ProofOfWork> for BigUint\<close>.\<close>

definition biguint_of_limbs :: "u32 list \<Rightarrow> nat" where
  "biguint_of_limbs limbs = foldl (\<lambda>bi limb. push_bit 32 bi + unat limb) 0 (rev limbs)"

datatype ordering = Less | Equal | Greater

definition cmp_word :: "'a::len word \<Rightarrow> 'a word \<Rightarrow> ordering" where
  "cmp_word a b = (if a < b then Less else if a = b then Equal else Greater)"

definition cmp_nat :: "nat \<Rightarrow> nat \<Rightarrow> ordering" where
  "cmp_nat a b = (if a < b then Less else if a = b then Equal else Greater)"

text \<open>The loop of both \<^verbatim>\<open>Ord\<close> implementations: the most significant difference decides.\<close>

definition limbs_cmp :: "u32 list \<Rightarrow> u32 list \<Rightarrow> ordering" where
  "limbs_cmp xs ys =
     foldl (\<lambda>acc new. case acc of Less \<Rightarrow> acc | Equal \<Rightarrow> new | Greater \<Rightarrow> acc) Equal
       (map (\<lambda>(lhs, rhs). cmp_word lhs rhs) (zip (rev xs) (rev ys)))"

section \<open>The value of limbs\<close>

lemma limbs_val_append: "limbs_val (xs @ ys) = limbs_val xs + 2 ^ (32 * length xs) * limbs_val ys"
  by (induction xs) (auto simp: algebra_simps power_add)

lemma limbs_val_lt: "limbs_val xs < 2 ^ (32 * length xs)"
proof (induction xs)
  case (Cons d ds)
  then have "limbs_val ds + 1 \<le> 2 ^ (32 * length ds)" by simp
  moreover have "unat d < 4294967296" by (rule unat_u32_lt)
  ultimately have "limbs_val (d # ds) < 4294967296 * 2 ^ (32 * length ds)"
    by (simp add: algebra_simps)
  then show ?case by (simp add: power_add)
qed simp

lemma limbs_val_lt_ge:
  assumes "length xs \<le> n"
  shows "limbs_val xs < 2 ^ (32 * n)"
proof -
  have "(2::nat) ^ (32 * length xs) \<le> 2 ^ (32 * n)"
    using assms by (intro power_increasing) auto
  with limbs_val_lt [of xs] show ?thesis by (rule less_le_trans)
qed

lemma limbs_val_replicate_zero [simp]: "limbs_val (replicate n 0) = 0"
  by (induction n) auto

lemma limbs_val_replicate_max: "limbs_val (replicate n (- 1)) + 1 = 2 ^ (32 * n)"
proof (induction n)
  case (Suc n)
  have "unat (- 1 :: u32) = 4294967295" by (simp add: unsigned_minus_1_eq_mask mask_eq_exp_minus_1)
  moreover have "(2::nat) ^ (32 * Suc n) = 4294967296 * 2 ^ (32 * n)" by (simp add: power_add)
  ultimately show ?case using Suc by simp
qed simp

lemma limbs_val_pad [simp]: "limbs_val (pad_using n ds) = limbs_val ds"
  by (simp add: pad_using_def limbs_val_append)

lemma length_pad [simp]: "length (pad_using n ds) = max n (length ds)"
  by (simp add: pad_using_def)

lemma limbs_val_inj:
  "length xs = length ys \<Longrightarrow> limbs_val xs = limbs_val ys \<longleftrightarrow> xs = ys"
proof (induction xs ys rule: list_induct2)
  case (Cons x xs y ys)
  have "limbs_val (x # xs) = limbs_val (y # ys) \<longleftrightarrow> unat x = unat y \<and> limbs_val xs = limbs_val ys"
    using unat_u32_lt [of x] unat_u32_lt [of y] by (simp add: base_split_unique)
  with Cons show ?case by (auto dest: word_eq_unatI)
qed simp

lemma biguint_of_limbs_eq: "biguint_of_limbs limbs = limbs_val limbs"
proof -
  have "foldl (\<lambda>bi limb. push_bit 32 bi + unat limb) v (rev limbs) =
      v * 2 ^ (32 * length limbs) + limbs_val limbs" for v
    by (induction limbs arbitrary: v) (auto simp: push_bit_eq_mult power_add algebra_simps)
  then show ?thesis by (simp add: biguint_of_limbs_def)
qed

lemma limbs_val_u32_digits [simp]: "limbs_val (u32_digits n) = n"
proof (induction n rule: u32_digits.induct)
  case (1 n)
  then show ?case
    by (subst u32_digits.simps)
       (auto simp: unsigned_of_nat take_bit_eq_mod mod_mod_trivial)
qed

lemma limbs_val_pos: "ds \<noteq> [] \<Longrightarrow> last ds \<noteq> 0 \<Longrightarrow> 2 ^ (32 * (length ds - 1)) \<le> limbs_val ds"
proof (induction ds)
  case (Cons d ds)
  show ?case
  proof (cases "ds = []")
    case True
    with Cons.prems have "unat d \<noteq> 0" by (simp add: unat_eq_zero)
    with True show ?thesis by simp
  next
    case False
    with Cons have "2 ^ (32 * (length ds - 1)) \<le> limbs_val ds" by auto
    with False have "2 ^ (32 * length ds) \<le> 4294967296 * limbs_val ds"
      by (cases ds) (auto simp: power_add)
    then show ?thesis by simp
  qed
qed simp

lemma u32_digits_last: "n \<noteq> 0 \<Longrightarrow> u32_digits n \<noteq> [] \<and> last (u32_digits n) \<noteq> 0"
proof (induction n rule: u32_digits.induct)
  case (1 n)
  show ?case
  proof (cases "n div 4294967296 = 0")
    case True
    then have small: "n < 4294967296" by (simp add: div_eq_0_iff)
    then have "(of_nat n :: u32) \<noteq> 0"
      using 1 by (simp add: word_unat_eq_iff unsigned_of_nat take_bit_nat_eq_self)
    with 1 True small show ?thesis
      by (subst (1 2) u32_digits.simps) simp
  next
    case False
    with 1 show ?thesis by (subst (1 2) u32_digits.simps) simp
  qed
qed

text \<open>A big integer has more than \<open>k\<close> digits exactly when it is at least \<open>2 ^ (32 * k)\<close>.\<close>

lemma length_u32_digits_le: "length (u32_digits n) \<le> k \<longleftrightarrow> n < 2 ^ (32 * k)"
proof
  assume "length (u32_digits n) \<le> k"
  then show "n < 2 ^ (32 * k)" using limbs_val_lt_ge [of "u32_digits n" k] by simp
next
  assume lt: "n < 2 ^ (32 * k)"
  show "length (u32_digits n) \<le> k"
  proof (rule ccontr)
    assume "\<not> length (u32_digits n) \<le> k"
    moreover from this have "n \<noteq> 0" by (intro notI) simp
    ultimately have "2 ^ (32 * (length (u32_digits n) - 1)) \<le> n"
      and "(2::nat) ^ (32 * k) \<le> 2 ^ (32 * (length (u32_digits n) - 1))"
      using limbs_val_pos [of "u32_digits n"] u32_digits_last [of n]
      by (auto intro: power_increasing)
    with lt show False by simp
  qed
qed

lemma limbs_val_take: "limbs_val (take n ds) = limbs_val ds mod 2 ^ (32 * n)"
proof (cases "n \<le> length ds")
  case True
  have "limbs_val ds = limbs_val (take n ds) + 2 ^ (32 * n) * limbs_val (drop n ds)"
    using True limbs_val_append [of "take n ds" "drop n ds"] by (simp add: min_absorb2)
  moreover have "limbs_val (take n ds) < 2 ^ (32 * n)"
    using limbs_val_lt [of "take n ds"] True by (simp add: min_absorb2)
  ultimately show ?thesis by simp
next
  case False
  then have "limbs_val ds < 2 ^ (32 * n)"
    by (intro limbs_val_lt_ge) simp
  with False show ?thesis by simp
qed

lemma limbs_val_drop: "limbs_val (drop n ds) = limbs_val ds div 2 ^ (32 * n)"
proof (cases "n \<le> length ds")
  case True
  have "limbs_val ds = limbs_val (take n ds) + 2 ^ (32 * n) * limbs_val (drop n ds)"
    using True limbs_val_append [of "take n ds" "drop n ds"] by (simp add: min_absorb2)
  moreover have "limbs_val (take n ds) < 2 ^ (32 * n)"
    using limbs_val_lt [of "take n ds"] True by (simp add: min_absorb2)
  ultimately show ?thesis by simp
next
  case False
  then have "limbs_val ds < 2 ^ (32 * n)"
    by (intro limbs_val_lt_ge) simp
  with False show ?thesis by simp
qed

section \<open>Comparison\<close>

abbreviation (input) cmp_then :: "ordering \<Rightarrow> ordering \<Rightarrow> ordering" where
  "cmp_then acc new \<equiv> (case acc of Less \<Rightarrow> acc | Equal \<Rightarrow> new | Greater \<Rightarrow> acc)"

lemma foldl_cmp_decided:
  "acc \<noteq> Equal \<Longrightarrow> foldl (\<lambda>acc new. cmp_then acc new) acc os = acc"
  by (induction os arbitrary: acc) (auto split: ordering.splits)

lemma limbs_cmp_snoc:
  "limbs_cmp (xs @ [x]) (ys @ [y]) = cmp_then (cmp_word x y) (limbs_cmp xs ys)"
  by (auto simp: limbs_cmp_def foldl_cmp_decided split: ordering.splits)

text \<open>Comparing limbs is comparing the numbers.\<close>

lemma limbs_cmp_val:
  "length xs = length ys \<Longrightarrow> limbs_cmp xs ys = cmp_nat (limbs_val xs) (limbs_val ys)"
proof (induction xs arbitrary: ys rule: rev_induct)
  case Nil
  then show ?case by (simp add: limbs_cmp_def cmp_nat_def)
next
  case (snoc x xs)
  then obtain y ys' where ys: "ys = ys' @ [y]" "length xs = length ys'"
    by (cases ys rule: rev_cases) auto
  let ?B = "2 ^ (32 * length xs) :: nat"
  have lt: "limbs_val xs < ?B" "limbs_val ys' < ?B"
    using limbs_val_lt [of xs] limbs_val_lt [of ys'] ys(2) by simp_all
  have less: "a + ?B * m < b + ?B * n" if "a < ?B" "m < n" for a b m n :: nat
  proof -
    have "a + ?B * m < ?B * (m + 1)" using that by simp
    also have "\<dots> \<le> ?B * n" using that by (intro mult_le_mono2) simp
    finally show ?thesis by simp
  qed
  show ?case
  proof (cases "x = y")
    case True
    with snoc.IH [OF ys(2)] ys show ?thesis
      by (simp add: limbs_cmp_snoc cmp_word_def cmp_nat_def limbs_val_append)
  next
    case False
    then have "unat x < unat y \<or> unat y < unat x"
      by (metis linorder_neqE_nat word_eq_unatI)
    with False lt ys(2) show ?thesis
      using less [of "limbs_val xs" "unat x" "unat y" "limbs_val ys'"]
        less [of "limbs_val ys'" "unat y" "unat x" "limbs_val xs"]
      by (auto simp: ys(1) limbs_cmp_snoc cmp_word_def cmp_nat_def limbs_val_append word_less_nat_alt)
  qed
qed

end
