(* ===== verification/Time_Height.thy ===== *)
theory Time_Height
  imports Nyks_Prelude
begin

text \<open>
  \<^verbatim>\<open>consensus/src/proof_abstractions/timestamp.rs\<close> and \<^verbatim>\<open>consensus/src/block/block_height.rs\<close>:
  timestamps and block heights, both a wrapped \<^verbatim>\<open>BFieldElement\<close>.

  \<^verbatim>\<open>BFieldElement\<close> belongs to the crate \<^verbatim>\<open>twenty-first\<close> and is a parameter: a record of the
  operations the two files call. The locale \<open>bfield_laws\<close> states what they rely on: elements are
  the residues modulo \<open>P = 2 ^ 64 - 2 ^ 32 + 1\<close> (the number both files quote), \<^verbatim>\<open>value\<close> is the
  canonical representative, and addition and subtraction are modular. The type \<open>bfe\<close> is a concrete
  field that satisfies the laws.
\<close>

section \<open>The base field, as a parameter\<close>

definition bfe_P :: nat where
  "bfe_P = 18446744069414584321"

definition bfe_MAX :: u64 where
  "bfe_MAX = 18446744069414584320"

record 'f bfield =
  bf_new :: "u64 \<Rightarrow> 'f"
  bf_value :: "'f \<Rightarrow> u64"
  bf_add :: "'f \<Rightarrow> 'f \<Rightarrow> 'f"
  bf_sub :: "'f \<Rightarrow> 'f \<Rightarrow> 'f"
  bf_zero :: 'f
  bf_one :: 'f

locale bfield_laws =
  fixes F :: "'f bfield"
  assumes value_lt: "unat (bf_value F x) < bfe_P"
    and value_inj: "bf_value F x = bf_value F y \<Longrightarrow> x = y"
    and value_new: "unat (bf_value F (bf_new F v)) = unat v mod bfe_P"
    and value_add: "unat (bf_value F (bf_add F x y)) = (unat (bf_value F x) + unat (bf_value F y)) mod bfe_P"
    and value_sub: "uint (bf_value F (bf_sub F x y)) = (uint (bf_value F x) - uint (bf_value F y)) mod int bfe_P"
    and value_zero: "bf_value F (bf_zero F) = 0"
    and value_one: "bf_value F (bf_one F) = 1"

section \<open>Timestamps\<close>

datatype 'f timestamp = Timestamp (ts_bfe: 'f)

definition to_millis :: "'f bfield \<Rightarrow> 'f timestamp \<Rightarrow> u64" where
  "to_millis F t = bf_value F (ts_bfe t)"

text \<open>\<^verbatim>\<open>Ord::cmp\<close> as the relation \<open>\<le>\<close> it induces.\<close>

definition timestamp_le :: "'f bfield \<Rightarrow> 'f timestamp \<Rightarrow> 'f timestamp \<Rightarrow> bool" where
  "timestamp_le F a b \<longleftrightarrow> bf_value F (ts_bfe a) \<le> bf_value F (ts_bfe b)"

definition timestamp_zero :: "'f bfield \<Rightarrow> 'f timestamp" where
  "timestamp_zero F = Timestamp (bf_new F 0)"

definition timestamp_add :: "'f bfield \<Rightarrow> 'f timestamp \<Rightarrow> 'f timestamp \<Rightarrow> 'f timestamp" where
  "timestamp_add F a b = Timestamp (bf_add F (ts_bfe a) (ts_bfe b))"

definition timestamp_sub :: "'f bfield \<Rightarrow> 'f timestamp \<Rightarrow> 'f timestamp \<Rightarrow> 'f timestamp" where
  "timestamp_sub F a b = Timestamp (bf_sub F (ts_bfe a) (ts_bfe b))"

definition timestamp_mul :: "'f bfield \<Rightarrow> 'f timestamp \<Rightarrow> u64 \<Rightarrow> 'f timestamp res" where
  "timestamp_mul F t rhs =
     (let value = (ucast (bf_value F (ts_bfe t)) * ucast rhs :: u128)
      in assert_then (unat value < bfe_P) (Inr (Timestamp (bf_new F (ucast value)))))"

definition ts_years :: "'f bfield \<Rightarrow> u64 \<Rightarrow> 'f timestamp" where
  "ts_years F num = Timestamp (bf_new F (num * 365240 * 2 * 60 * 60 * 12))"

definition ts_months :: "'f bfield \<Rightarrow> u64 \<Rightarrow> 'f timestamp" where
  "ts_months F num = Timestamp (bf_new F (num * 365240 * 2 * 60 * 60))"

definition ts_days :: "'f bfield \<Rightarrow> u64 \<Rightarrow> 'f timestamp" where
  "ts_days F num = Timestamp (bf_new F (num * 24 * 60 * 60 * 1000))"

definition ts_hours :: "'f bfield \<Rightarrow> u64 \<Rightarrow> 'f timestamp" where
  "ts_hours F num = Timestamp (bf_new F (num * 60 * 60 * 1000))"

definition ts_minutes :: "'f bfield \<Rightarrow> u64 \<Rightarrow> 'f timestamp" where
  "ts_minutes F num = Timestamp (bf_new F (num * 60 * 1000))"

definition ts_seconds :: "'f bfield \<Rightarrow> u64 \<Rightarrow> 'f timestamp" where
  "ts_seconds F num = Timestamp (bf_new F (num * 1000))"

definition ts_millis :: "'f bfield \<Rightarrow> u64 \<Rightarrow> 'f timestamp" where
  "ts_millis F num = Timestamp (bf_new F num)"

text \<open>\<^verbatim>\<open>format_human_duration\<close>: the split of the seconds into units, and the text.\<close>

definition human_units :: "nat \<Rightarrow> nat \<times> nat \<times> nat \<times> nat \<times> nat" where
  "human_units secs =
     (let (weeks, secs) = (secs div 604800, secs mod 604800);
          (days, secs) = (secs div 86400, secs mod 86400);
          (hours, secs) = (secs div 3600, secs mod 3600);
          (mins, secs) = (secs div 60, secs mod 60)
      in (weeks, days, hours, mins, secs))"

definition human_part :: "nat \<Rightarrow> string \<Rightarrow> string" where
  "human_part i unit = show_nat i @ '' '' @ unit @ (if i = 1 then '''' else ''s'')"

fun join_with :: "string \<Rightarrow> string list \<Rightarrow> string" where
  "join_with sep [] = ''''"
| "join_with sep [p] = p"
| "join_with sep (p # q # ps) = p @ sep @ join_with sep (q # ps)"

definition format_human_duration :: "'f bfield \<Rightarrow> 'f timestamp \<Rightarrow> string" where
  "format_human_duration F t =
     (let (weeks, days, hours, mins, secs) = human_units (unat (to_millis F t) div 1000);
          parts = [];
          parts = (if 0 < weeks then parts @ [human_part weeks ''week''] else parts);
          parts = (if 0 < days then parts @ [human_part days ''day''] else parts);
          parts = (if 0 < hours then parts @ [human_part hours ''hour''] else parts);
          parts = (if 0 < mins then parts @ [human_part mins ''minute''] else parts);
          parts = (if 0 < secs \<or> parts = [] then parts @ [human_part secs ''second''] else parts)
      in join_with '', '' parts)"

section \<open>Block heights\<close>

datatype 'f block_height = BlockHeight (height_bfe: 'f)

definition BLOCKS_PER_GENERATION :: u64 where
  "BLOCKS_PER_GENERATION = 6750"

definition height_value :: "'f bfield \<Rightarrow> 'f block_height \<Rightarrow> u64" where
  "height_value F h = bf_value F (height_bfe h)"

definition get_generation :: "'f bfield \<Rightarrow> 'f block_height \<Rightarrow> u64" where
  "get_generation F h = bf_value F (height_bfe h) div BLOCKS_PER_GENERATION"

definition height_next :: "'f bfield \<Rightarrow> 'f block_height \<Rightarrow> 'f block_height" where
  "height_next F h = BlockHeight (bf_add F (height_bfe h) (bf_one F))"

definition height_genesis :: "'f bfield \<Rightarrow> 'f block_height" where
  "height_genesis F = BlockHeight (bf_zero F)"

definition is_genesis :: "'f bfield \<Rightarrow> 'f block_height \<Rightarrow> bool" where
  "is_genesis F h \<longleftrightarrow> height_bfe h = bf_zero F"

definition height_previous :: "'f bfield \<Rightarrow> 'f block_height \<Rightarrow> 'f block_height option" where
  "height_previous F h =
     (if is_genesis F h then None else Some (BlockHeight (bf_sub F (height_bfe h) (bf_one F))))"

definition arithmetic_mean ::
  "'f bfield \<Rightarrow> 'f block_height \<Rightarrow> 'f block_height \<Rightarrow> 'f block_height" where
  "arithmetic_mean F left right =
     (let left = bf_value F (height_bfe left);
          right = bf_value F (height_bfe right);
          ret = left div 2 + right div 2 + (left mod 2 + right mod 2) div 2
      in BlockHeight (bf_new F ret))"

definition height_from_u64 :: "'f bfield \<Rightarrow> u64 \<Rightarrow> 'f block_height" where
  "height_from_u64 F val = BlockHeight (bf_new F (min bfe_MAX val))"

definition height_checked_sub :: "'f bfield \<Rightarrow> 'f block_height \<Rightarrow> u64 \<Rightarrow> 'f block_height option" where
  "height_checked_sub F h v =
     map_option (height_from_u64 F) (checked_sub_w (bf_value F (height_bfe h)) v)"

definition height_add :: "'f bfield \<Rightarrow> 'f block_height \<Rightarrow> u64 \<Rightarrow> 'f block_height" where
  "height_add F h rhs = BlockHeight (bf_new F (bf_value F (height_bfe h) + rhs))"

definition height_sub :: "'f bfield \<Rightarrow> 'f block_height \<Rightarrow> 'f block_height \<Rightarrow> int" where
  "height_sub F a b = wrap_i128 (uint (bf_value F (height_bfe a)) - uint (bf_value F (height_bfe b)))"

definition height_le :: "'f bfield \<Rightarrow> 'f block_height \<Rightarrow> 'f block_height \<Rightarrow> bool" where
  "height_le F a b \<longleftrightarrow> bf_value F (height_bfe a) \<le> bf_value F (height_bfe b)"

section \<open>A field that satisfies the laws\<close>

typedef bfe = "{n. n < bfe_P}"
  by (rule exI [of _ 0]) (simp add: bfe_P_def)

setup_lifting type_definition_bfe

definition bfe_ops :: "bfe bfield" where
  "bfe_ops = \<lparr>bf_new = (\<lambda>v. Abs_bfe (unat v mod bfe_P)),
     bf_value = (\<lambda>x. of_nat (Rep_bfe x)),
     bf_add = (\<lambda>x y. Abs_bfe ((Rep_bfe x + Rep_bfe y) mod bfe_P)),
     bf_sub = (\<lambda>x y. Abs_bfe ((Rep_bfe x + bfe_P - Rep_bfe y) mod bfe_P)),
     bf_zero = Abs_bfe 0, bf_one = Abs_bfe 1\<rparr>"

lemma Rep_bfe_lt: "Rep_bfe x < bfe_P"
  using Rep_bfe [of x] by simp

lemma Rep_Abs_bfe [simp]: "n < bfe_P \<Longrightarrow> Rep_bfe (Abs_bfe n) = n"
  by (simp add: Abs_bfe_inverse)

lemma unat_of_Rep_bfe [simp]: "unat (of_nat (Rep_bfe x) :: u64) = Rep_bfe x"
  using Rep_bfe_lt [of x] by (simp add: bfe_P_def unsigned_of_nat take_bit_nat_eq_self)

lemma unat_of_nat_mod_P [simp]: "unat (of_nat (n mod bfe_P) :: u64) = n mod bfe_P"
  using unat_of_Rep_bfe [of "Abs_bfe (n mod bfe_P)"] by (simp add: bfe_P_def)

interpretation goldilocks: bfield_laws bfe_ops
proof unfold_locales
  fix x y :: bfe and v :: u64
  have mod_lt: "n mod bfe_P < bfe_P" for n by (simp add: bfe_P_def)
  show "unat (bf_value bfe_ops x) < bfe_P" by (simp add: bfe_ops_def Rep_bfe_lt)
  show "bf_value bfe_ops x = bf_value bfe_ops y \<Longrightarrow> x = y"
    by (metis bfe_ops_def bfield.select_convs(2) unat_of_Rep_bfe Rep_bfe_inject)
  show "unat (bf_value bfe_ops (bf_new bfe_ops v)) = unat v mod bfe_P"
    by (simp add: bfe_ops_def mod_lt)
  show "unat (bf_value bfe_ops (bf_add bfe_ops x y)) =
      (unat (bf_value bfe_ops x) + unat (bf_value bfe_ops y)) mod bfe_P"
    by (simp add: bfe_ops_def mod_lt)
  have "int (Rep_bfe x + bfe_P - Rep_bfe y) mod int bfe_P = (int (Rep_bfe x) - int (Rep_bfe y)) mod int bfe_P"
    using Rep_bfe_lt [of y] by (simp add: of_nat_diff diff_add_eq [symmetric])
  then show "uint (bf_value bfe_ops (bf_sub bfe_ops x y)) =
      (uint (bf_value bfe_ops x) - uint (bf_value bfe_ops y)) mod int bfe_P"
    by (simp add: bfe_ops_def mod_lt uint_nat zmod_int)
  show "bf_value bfe_ops (bf_zero bfe_ops) = 0" "bf_value bfe_ops (bf_one bfe_ops) = 1"
    by (simp_all add: bfe_ops_def bfe_P_def)
qed

section \<open>Laws of timestamps and heights\<close>

context bfield_laws
begin

lemma value_small: "unat v < bfe_P \<Longrightarrow> bf_value F (bf_new F v) = v"
  by (rule word_eq_unatI) (simp add: value_new)

lemma new_value [simp]: "bf_new F (bf_value F x) = x"
  by (rule value_inj) (simp add: value_small value_lt)

lemma value_bound: "unat (bf_value F x) \<le> unat bfe_MAX"
  using value_lt [of x] by (simp add: bfe_P_def bfe_MAX_def)

lemma sub_value_le:
  assumes "bf_value F y \<le> bf_value F x"
  shows "bf_value F (bf_sub F x y) = bf_value F x - bf_value F y"
proof (rule word_eq_unatI)
  have "unat (bf_value F y) \<le> unat (bf_value F x)" using assms by (simp add: word_le_nat_alt)
  moreover have "int (unat (bf_value F (bf_sub F x y))) =
      (int (unat (bf_value F x)) - int (unat (bf_value F y))) mod int bfe_P"
    using value_sub [of x y] by (simp only: uint_nat)
  ultimately have "unat (bf_value F (bf_sub F x y)) = unat (bf_value F x) - unat (bf_value F y)"
    using value_lt [of x] by (intro nat_sub_mod)
  then show "unat (bf_value F (bf_sub F x y)) = unat (bf_value F x - bf_value F y)"
    using assms by (simp only: unat_sub_le)
qed

lemma is_genesis_iff: "is_genesis F h \<longleftrightarrow> height_value F h = 0"
  using value_inj [of "height_bfe h" "bf_zero F"]
  by (auto simp: is_genesis_def height_value_def value_zero)

lemma height_eqI: "height_value F a = height_value F b \<Longrightarrow> a = b"
  by (cases a; cases b) (auto simp: height_value_def dest: value_inj)

lemma height_next_value:
  "unat (height_value F (height_next F h)) = (unat (height_value F h) + 1) mod bfe_P"
  by (simp add: height_next_def height_value_def value_add value_one)

lemma height_previous_next:
  assumes "height_value F h < bfe_MAX"
  shows "height_previous F (height_next F h) = Some h"
proof -
  let ?n = "bf_add F (height_bfe h) (bf_one F)"
  have v: "unat (bf_value F ?n) = unat (bf_value F (height_bfe h)) + 1"
    using assms by (simp add: value_add value_one height_value_def bfe_MAX_def bfe_P_def word_less_nat_alt)
  then have "bf_value F (bf_one F) \<le> bf_value F ?n" "bf_value F ?n \<noteq> 0"
    by (auto simp: value_one word_le_nat_alt)
  moreover from this have "bf_value F (bf_sub F ?n (bf_one F)) = bf_value F (height_bfe h)"
    using v by (intro word_eq_unatI) (simp add: sub_value_le unat_sub_le value_one)
  ultimately show ?thesis
    using value_inj [of "bf_sub F ?n (bf_one F)"]
    by (auto simp: height_previous_def height_next_def is_genesis_iff height_value_def)
qed

lemma arithmetic_mean_value:
  "unat (height_value F (arithmetic_mean F a b)) =
     (unat (height_value F a) + unat (height_value F b)) div 2"
proof -
  let ?l = "bf_value F (height_bfe a)" and ?r = "bf_value F (height_bfe b)"
  have l: "unat ?l < bfe_P" and r: "unat ?r < bfe_P" by (rule value_lt)+
  have half: "(unat ?l + unat ?r) div 2 < bfe_P" using l r by (simp add: bfe_P_def)
  have "unat (?l div 2 + ?r div 2) = unat ?l div 2 + unat ?r div 2"
    using l r by (subst unat_add_no_overflow) (auto simp: unat_div bfe_P_def)
  moreover have "unat ((?l mod 2 + ?r mod 2) div 2) = (unat ?l mod 2 + unat ?r mod 2) div 2"
    by (simp add: unat_div) (subst unat_add_no_overflow, auto simp: unat_mod)
  moreover have "unat ?l div 2 + unat ?r div 2 + (unat ?l mod 2 + unat ?r mod 2) div 2 =
      (unat ?l + unat ?r) div 2"
    by (rule div_add1_eq [symmetric])
  ultimately have "unat (?l div 2 + ?r div 2 + (?l mod 2 + ?r mod 2) div 2) = (unat ?l + unat ?r) div 2"
    using half by (subst unat_add_no_overflow) (simp_all add: bfe_P_def)
  with half show ?thesis
    by (simp add: arithmetic_mean_def height_value_def value_new Let_def)
qed

lemma height_checked_sub_value:
  "(case height_checked_sub F h v of
      None \<Rightarrow> height_value F h < v
    | Some d \<Rightarrow> v \<le> height_value F h \<and> height_value F d = height_value F h - v)"
proof (cases "v \<le> height_value F h")
  case True
  then have "height_value F h - v \<le> height_value F h" by (rule word_sub_le)
  then have "unat (height_value F h - v) < bfe_P" "height_value F h - v \<le> bfe_MAX"
    using value_lt [of "height_bfe h"] value_bound [of "height_bfe h"]
    by (auto simp: height_value_def word_le_nat_alt)
  with True show ?thesis
    by (simp add: height_checked_sub_def checked_sub_w_def height_from_u64_def height_value_def
        min_absorb2 value_small)
next
  case False
  then show ?thesis by (simp add: height_checked_sub_def checked_sub_w_def height_value_def)
qed

end

text \<open>Block heights compute exactly on the field they live in: the mean of two heights is the rounded
  down average without an overflow, \<^verbatim>\<open>checked_sub\<close> returns the difference exactly when it is not
  negative, the genesis block is the one of height zero, and \<^verbatim>\<open>previous\<close> undoes \<^verbatim>\<open>next\<close> below the largest
  height.\<close>

theorem block_height_arithmetic:
  assumes "bfield_laws F"
  shows "unat (height_value F (arithmetic_mean F a b)) =
      (unat (height_value F a) + unat (height_value F b)) div 2 \<and>
    (case height_checked_sub F a v of
       None \<Rightarrow> height_value F a < v
     | Some d \<Rightarrow> v \<le> height_value F a \<and> height_value F d = height_value F a - v) \<and>
    (is_genesis F a \<longleftrightarrow> height_value F a = 0) \<and>
    (height_value F a < bfe_MAX \<longrightarrow> height_previous F (height_next F a) = Some a)"
  using bfield_laws.arithmetic_mean_value [OF assms] bfield_laws.height_checked_sub_value [OF assms]
    bfield_laws.is_genesis_iff [OF assms] bfield_laws.height_previous_next [OF assms]
  by blast

theorem block_height_arithmetic_witness:
  "height_previous bfe_ops (height_next bfe_ops (height_from_u64 bfe_ops 7)) = Some (height_from_u64 bfe_ops 7)"
proof -
  have "height_value bfe_ops (height_from_u64 bfe_ops 7) < bfe_MAX"
    by (simp add: height_value_def height_from_u64_def goldilocks.value_small bfe_P_def bfe_MAX_def)
  with block_height_arithmetic [OF goldilocks.bfield_laws_axioms, of "height_from_u64 bfe_ops 7"]
  show ?thesis by blast
qed

end
