(* ===== verification/Difficulty_Control.thy ===== *)
theory Difficulty_Control
  imports Limbs Time_Height
begin

text \<open>
  \<^verbatim>\<open>consensus/src/block/difficulty_control.rs\<close>: the proof-of-work difficulty (a 160-bit number in
  five limbs), the cumulative proof-of-work (192 bits in six limbs) and the controller that sets the
  difficulty of a block. The limb loops are modelled as they are written, with 64-bit sums and
  32-bit carries; the lemmas show that they compute on the numbers the limbs stand for.

  \<^verbatim>\<open>Digest\<close> is a parameter of \<open>difficulty_target\<close>. Not modelled: the \<^verbatim>\<open>f64\<close> conversions
  (\<^verbatim>\<open>TryFrom<f64>\<close>, \<^verbatim>\<open>max_cumulative_pow_after\<close>) and random sampling.
\<close>

section \<open>Difficulty\<close>

datatype difficulty = Difficulty (d_limbs: "u32 list")

definition DIFFICULTY_NUM_LIMBS :: nat where
  "DIFFICULTY_NUM_LIMBS = 5"

definition LIMBS_FOR_MINIMUM :: "u32 list" where
  "LIMBS_FOR_MINIMUM = [6000, 0, 0, 0, 0]"

text \<open>\<^verbatim>\<open>Difficulty::new\<close>: the loop compares limb by limb with the minimum.\<close>

fun lte_minimum :: "u32 list \<Rightarrow> u32 list \<Rightarrow> bool" where
  "lte_minimum (d # ds) (m # ms) = (if m < d then False else lte_minimum ds ms)"
| "lte_minimum _ _ = True"

definition difficulty_new :: "u32 list \<Rightarrow> difficulty" where
  "difficulty_new limbs =
     (if lte_minimum limbs LIMBS_FOR_MINIMUM then Difficulty LIMBS_FOR_MINIMUM
      else Difficulty limbs)"

definition difficulty_MINIMUM :: difficulty where
  "difficulty_MINIMUM = difficulty_new LIMBS_FOR_MINIMUM"

definition difficulty_MAXIMUM :: difficulty where
  "difficulty_MAXIMUM = difficulty_new (replicate DIFFICULTY_NUM_LIMBS (- 1))"

definition difficulty_to_biguint :: "difficulty \<Rightarrow> nat" where
  "difficulty_to_biguint d = biguint_of_limbs (d_limbs d)"

definition difficulty_target ::
  "('d \<Rightarrow> nat) \<Rightarrow> (nat \<Rightarrow> 'd option) \<Rightarrow> 'd \<Rightarrow> difficulty \<Rightarrow> 'd res" where
  "difficulty_target digest_to_biguint biguint_to_digest max_digest d =
     (let difficulty_as_bui = difficulty_to_biguint d;
          max_threshold_as_bui = digest_to_biguint max_digest
      in if difficulty_as_bui = 0 then Inl DivisionByZero
         else case biguint_to_digest (max_threshold_as_bui div difficulty_as_bui) of
                None \<Rightarrow> Inl UnwrapFailed
              | Some t \<Rightarrow> Inr t)"

text \<open>The two loops of \<^verbatim>\<open>safe_mul_fixed_point_rational\<close>.\<close>

fun mul_lo_loop :: "u32 \<Rightarrow> u32 list \<Rightarrow> u32 \<Rightarrow> u32 list \<times> u32" where
  "mul_lo_loop lo [] carry = ([], carry)"
| "mul_lo_loop lo (d # ds) carry =
     (let sum = (ucast carry + ucast d * ucast lo :: u64);
          (digits, c) = mul_lo_loop lo ds (ucast (drop_bit 32 sum))
      in (ucast sum # digits, c))"

fun mul_hi_loop :: "u32 \<Rightarrow> u32 list \<Rightarrow> u32 list \<Rightarrow> u32 \<Rightarrow> u32 list \<times> u32" where
  "mul_hi_loop hi (d # ds) (n # ns) carry =
     (let sum = (ucast carry + ucast d * ucast hi :: u64);
          digit = n + ucast sum;
          carry_bit = (2 ^ 32 \<le> unat n + unat (ucast sum :: u32));
          (digits, c) = mul_hi_loop hi ds ns (ucast (drop_bit 32 sum) + of_bool carry_bit)
      in (digit # digits, c))"
| "mul_hi_loop hi _ ns carry = (ns, carry)"

definition safe_mul_fixed_point_rational :: "difficulty \<Rightarrow> u32 \<Rightarrow> u32 \<Rightarrow> difficulty \<times> u32" where
  "safe_mul_fixed_point_rational d lo hi =
     (let (digits, carry) = mul_lo_loop lo (d_limbs d) 0;
          new_difficulty = digits @ [carry];
          (digits, carry) = mul_hi_loop hi (d_limbs d) (drop 1 new_difficulty) 0
      in (difficulty_new digits, carry))"

definition difficulty_from_biguint :: "nat \<Rightarrow> difficulty option" where
  "difficulty_from_biguint big =
     (if DIFFICULTY_NUM_LIMBS < length (u32_digits big) then None
      else Some (Difficulty
             (pad_using DIFFICULTY_NUM_LIMBS (take DIFFICULTY_NUM_LIMBS (u32_digits big)))))"

definition difficulty_cmp :: "difficulty \<Rightarrow> difficulty \<Rightarrow> ordering" where
  "difficulty_cmp a b = limbs_cmp (d_limbs a) (d_limbs b)"

definition difficulty_from_u32 :: "u32 \<Rightarrow> difficulty" where
  "difficulty_from_u32 value = Difficulty ((replicate DIFFICULTY_NUM_LIMBS 0)[0 := value])"

text \<open>The loop of \<^verbatim>\<open>Shr\<close> runs from the most significant limb down.\<close>

fun shr_loop :: "nat \<Rightarrow> u32 \<Rightarrow> u32 list \<Rightarrow> u32 list" where
  "shr_loop remainder borrow [] = []"
| "shr_loop remainder borrow (a # as) =
     (let new_borrow = a AND (push_bit remainder 1 - 1)
      in (drop_bit remainder a OR push_bit (32 - remainder) borrow)
           # shr_loop remainder new_borrow as)"

definition difficulty_shr :: "difficulty \<Rightarrow> nat \<Rightarrow> difficulty" where
  "difficulty_shr d rhs =
     (let limb_offset = rhs div 32;
          array = pad_using DIFFICULTY_NUM_LIMBS (drop limb_offset (d_limbs d));
          remainder = rhs mod 32
      in if remainder = 0 then difficulty_new array
         else difficulty_new (rev (shr_loop remainder 0 (rev array))))"

section \<open>Proof of work\<close>

datatype proof_of_work = ProofOfWork (pow_limbs: "u32 list")

definition POW_NUM_LIMBS :: nat where
  "POW_NUM_LIMBS = 6"

definition pow_MAXIMUM :: proof_of_work where
  "pow_MAXIMUM = ProofOfWork (replicate POW_NUM_LIMBS (- 1))"

definition pow_MINIMUM :: proof_of_work where
  "pow_MINIMUM = ProofOfWork (replicate POW_NUM_LIMBS 0)"

definition pow_to_biguint :: "proof_of_work \<Rightarrow> nat" where
  "pow_to_biguint p = biguint_of_limbs (pow_limbs p)"

text \<open>\<^verbatim>\<open>Add\<close>: a loop over the common limbs, then a loop that carries on.\<close>

fun pow_carry_loop :: "u32 list \<Rightarrow> u32 \<Rightarrow> u32 list" where
  "pow_carry_loop [] carry = []"
| "pow_carry_loop (p # ps) carry =
     (let sum = (ucast carry + ucast p :: u64)
      in ucast sum # pow_carry_loop ps (ucast (drop_bit 32 sum)))"

fun pow_add_loop :: "u32 list \<Rightarrow> u32 list \<Rightarrow> u32 \<Rightarrow> u32 list" where
  "pow_add_loop (d # ds) (p # ps) carry =
     (let sum = (ucast carry + ucast d + ucast p :: u64)
      in ucast sum # pow_add_loop ds ps (ucast (drop_bit 32 sum)))"
| "pow_add_loop [] ps carry = pow_carry_loop ps carry"
| "pow_add_loop (d # ds) [] carry = []"

definition pow_add :: "proof_of_work \<Rightarrow> u32 list \<Rightarrow> proof_of_work" where
  "pow_add p rhs = ProofOfWork (pow_add_loop rhs (pow_limbs p) 0)"

definition pow_cmp :: "proof_of_work \<Rightarrow> proof_of_work \<Rightarrow> ordering" where
  "pow_cmp a b = limbs_cmp (pow_limbs a) (pow_limbs b)"

datatype pow_error = ExceedsMaximum

text \<open>\<^verbatim>\<open>TryFrom<BigUint>\<close>. In \<^verbatim>\<open>!big.iter_u32_digits().count() > Self::NUM_LIMBS\<close> the operator
  \<^verbatim>\<open>!\<close> binds tighter than \<^verbatim>\<open>>\<close> and complements the bits of the count.\<close>

definition pow_try_from_biguint :: "nat \<Rightarrow> pow_error + proof_of_work" where
  "pow_try_from_biguint big =
     (if of_nat POW_NUM_LIMBS < NOT (of_nat (length (u32_digits big)) :: u64)
      then Inr (ProofOfWork (pad_using POW_NUM_LIMBS (take POW_NUM_LIMBS (u32_digits big))))
      else Inl ExceedsMaximum)"

section \<open>The controller\<close>

definition adjustment_factor :: "u64 \<Rightarrow> u64 \<Rightarrow> int" where
  "adjustment_factor delta_t target_block_interval =
     (let absolute_error = wrap_i64 (wrap_i64 (uint delta_t) - wrap_i64 (uint target_block_interval));
          relative_error = wrap_i128 (absolute_error * tdiv (2 ^ 32) (uint target_block_interval));
          clamped_error = max (- (2 ^ 32)) (min (4 * 2 ^ 32) relative_error)
      in 2 ^ 32 + drop_bit 4 (- clamped_error))"

definition difficulty_control ::
  "'f bfield \<Rightarrow> 'f timestamp \<Rightarrow> 'f timestamp \<Rightarrow> difficulty \<Rightarrow> 'f timestamp \<Rightarrow> 'f block_height
     \<Rightarrow> difficulty res" where
  "difficulty_control F new_timestamp old_timestamp old_difficulty target_block_interval
       previous_block_height =
     (if is_genesis F previous_block_height then Inr old_difficulty
      else let delta_t = timestamp_sub F new_timestamp old_timestamp
           in if to_millis F target_block_interval = 0 then Inl DivisionByZero
              else let one_plus_p_times_error =
                         adjustment_factor (to_millis F delta_t) (to_millis F target_block_interval);
                       lo = word_of_int one_plus_p_times_error;
                       hi = word_of_int (drop_bit 32 one_plus_p_times_error);
                       (new_difficulty, overflow) = safe_mul_fixed_point_rational old_difficulty lo hi
                   in if 0 < overflow then Inr difficulty_MAXIMUM else Inr new_difficulty)"

section \<open>Well-formed values\<close>

definition wf_difficulty :: "difficulty \<Rightarrow> bool" where
  "wf_difficulty d \<longleftrightarrow> length (d_limbs d) = DIFFICULTY_NUM_LIMBS"

definition wf_pow :: "proof_of_work \<Rightarrow> bool" where
  "wf_pow p \<longleftrightarrow> length (pow_limbs p) = POW_NUM_LIMBS"

abbreviation d_val :: "difficulty \<Rightarrow> nat" where
  "d_val d \<equiv> limbs_val (d_limbs d)"

abbreviation pow_val :: "proof_of_work \<Rightarrow> nat" where
  "pow_val p \<equiv> limbs_val (pow_limbs p)"

lemma difficulty_to_biguint_val [simp]: "difficulty_to_biguint d = d_val d"
  by (simp add: difficulty_to_biguint_def biguint_of_limbs_eq)

lemma pow_to_biguint_val [simp]: "pow_to_biguint p = pow_val p"
  by (simp add: pow_to_biguint_def biguint_of_limbs_eq)

lemma d_val_from_u32 [simp]: "d_val (difficulty_from_u32 v) = unat v"
proof -
  have "replicate DIFFICULTY_NUM_LIMBS (0::u32) = 0 # replicate 4 0"
    using replicate_Suc [of 4 "0::u32"] by (simp add: DIFFICULTY_NUM_LIMBS_def)
  then show ?thesis by (simp add: difficulty_from_u32_def)
qed

section \<open>Sums of a limb and a carry\<close>

lemma unat_lo32: "unat (ucast (w :: u64) :: u32) = unat w mod 4294967296"
  by (simp add: unat_ucast_mod)

lemma unat_hi32: "unat (ucast (drop_bit 32 (w :: u64)) :: u32) = unat w div 4294967296"
  using unat_u64_lt [of w] by (simp only: unat_ucast_mod unat_drop_bit) simp

lemma limb_product_lt:
  assumes "(a::nat) < 4294967296" "b < 4294967296" "c < 4294967296"
  shows "c + a * b \<le> 18446744069414584320"
proof -
  have "a * b \<le> 4294967295 * 4294967295" using assms by (intro mult_le_mono) auto
  with assms show ?thesis by simp
qed

lemma unat_mul_sum:
  "unat (ucast (c :: u32) + ucast (d :: u32) * ucast (f :: u32) :: u64) = unat c + unat d * unat f"
proof -
  have "unat (ucast d * ucast f :: u64) = unat d * unat f"
    using limb_product_lt [OF unat_u32_lt [of d] unat_u32_lt [of f] unat_u32_lt [of c]]
    by (subst unat_mult_no_overflow) (simp_all add: unat_ucast_up)
  then show ?thesis
    using limb_product_lt [OF unat_u32_lt [of d] unat_u32_lt [of f] unat_u32_lt [of c]]
    by (subst unat_add_no_overflow) (simp_all add: unat_ucast_up)
qed

lemma unat_add_sum:
  "unat (ucast (c :: u32) + ucast (d :: u32) + ucast (p :: u32) :: u64) = unat c + unat d + unat p"
  using unat_u32_lt [of c] unat_u32_lt [of d] unat_u32_lt [of p]
  by (subst unat_add_no_overflow; (subst unat_add_no_overflow)?) (simp_all add: unat_ucast_up)

lemma unat_carry_sum:
  "unat (ucast (c :: u32) + ucast (p :: u32) :: u64) = unat c + unat p"
  using unat_u32_lt [of c] unat_u32_lt [of p]
  by (subst unat_add_no_overflow) (simp_all add: unat_ucast_up)

lemmas limb_sums = unat_mul_sum unat_add_sum unat_carry_sum unat_lo32 unat_hi32

text \<open>One step of a carrying loop: the digit and the carry of a sum, and what the rest computes.\<close>

lemma carry_step:
  fixes s x y b m :: nat
  assumes "x + 2 ^ k * y = m + s div 4294967296"
  shows "s mod 4294967296 + 4294967296 * x + 2 ^ (32 + k) * y = s + 4294967296 * m"
proof -
  have "4294967296 * (x + 2 ^ k * y) = 4294967296 * m + 4294967296 * (s div 4294967296)"
    using assms by simp
  moreover have "4294967296 * (s div 4294967296) + s mod 4294967296 = s" by simp
  moreover have "(2::nat) ^ (32 + k) = 4294967296 * 2 ^ k" by (simp add: power_add)
  ultimately show ?thesis by (simp only: distrib_left mult.assoc)
qed

section \<open>The multiplication\<close>

lemma mul_lo_loop_val:
  "mul_lo_loop lo ds c = (out, c') \<Longrightarrow> length out = length ds \<and>
     limbs_val out + 2 ^ (32 * length ds) * unat c' = limbs_val ds * unat lo + unat c"
proof (induction ds arbitrary: c out c')
  case (Cons d ds)
  let ?s = "ucast c + ucast d * ucast lo :: u64"
  obtain out' where out: "mul_lo_loop lo ds (ucast (drop_bit 32 ?s)) = (out', c')"
      "out = ucast ?s # out'"
    using Cons.prems by (auto simp: Let_def split: prod.splits)
  have IH: "length out' = length ds"
      "limbs_val out' + 2 ^ (32 * length ds) * unat c' = limbs_val ds * unat lo + unat ?s div 4294967296"
    using Cons.IH [OF out(1)] by (simp_all only: unat_hi32)
  show ?case
    using carry_step [OF IH(2)] IH(1) by (simp add: out(2) limb_sums algebra_simps)
qed simp

lemma no_double_carry:
  assumes "(s::nat) \<le> 18446744069414584320" "n < 4294967296" "4294967296 \<le> n + s mod 4294967296"
  shows "s div 4294967296 < 4294967295"
proof (rule ccontr)
  assume "\<not> ?thesis"
  moreover have "4294967296 * (s div 4294967296) + s mod 4294967296 = s" by simp
  ultimately have "s mod 4294967296 = 0" using assms(1) by linarith
  with assms show False by simp
qed

lemma mul_hi_loop_val:
  "mul_hi_loop hi ds ns c = (out, c') \<Longrightarrow> length ns = length ds \<Longrightarrow> length out = length ds \<and>
     limbs_val out + 2 ^ (32 * length ds) * unat c' = limbs_val ns + limbs_val ds * unat hi + unat c"
proof (induction ds arbitrary: ns c out c')
  case (Cons d ds)
  then obtain n ns' where ns: "ns = n # ns'" "length ns' = length ds" by (cases ns) auto
  let ?s = "ucast c + ucast d * ucast hi :: u64"
  let ?l = "unat ?s mod 4294967296"
  let ?b = "2 ^ 32 \<le> unat n + unat (ucast ?s :: u32)"
  let ?c = "ucast (drop_bit 32 ?s) + of_bool ?b :: u32"
  obtain out' where out: "mul_hi_loop hi ds ns' ?c = (out', c')" "out = (n + ucast ?s) # out'"
    using Cons.prems by (auto simp: ns Let_def split: prod.splits)
  have s_le: "unat ?s \<le> 18446744069414584320"
    using limb_product_lt [OF unat_u32_lt [of d] unat_u32_lt [of hi] unat_u32_lt [of c]]
    by (simp add: limb_sums)
  have carry: "unat ?c = (unat n + unat ?s) div 4294967296"
  proof -
    have "unat ?s div 4294967296 + of_bool ?b < 4294967296"
      using no_double_carry [OF s_le unat_u32_lt [of n]] s_le by (auto simp: unat_lo32)
    then have "unat ?c = unat ?s div 4294967296 + of_bool ?b"
      by (subst unat_add_no_overflow) (simp_all only: unat_hi32, auto)
    also have "\<dots> = (unat n + unat ?s) div 4294967296"
      using add_div_carry [OF unat_u32_lt [of n]] by (simp add: unat_lo32)
    finally show ?thesis .
  qed
  have digit: "unat (n + ucast ?s) = (unat n + unat ?s) mod 4294967296"
    by (simp add: unat_word_ariths limb_sums mod_add_right_eq)
  have IH: "length out' = length ds" "limbs_val out' + 2 ^ (32 * length ds) * unat c' =
      (limbs_val ns' + limbs_val ds * unat hi) + (unat n + unat ?s) div 4294967296"
    using Cons.IH [OF out(1) ns(2)] carry by (simp_all add: algebra_simps)
  show ?case
    using carry_step [OF IH(2)] IH(1) digit by (simp add: out(2) ns(1) limb_sums algebra_simps)
qed simp

text \<open>\<^verbatim>\<open>Difficulty::new\<close> is the maximum of the number and the minimum difficulty.\<close>

lemma limbs5: "length ds = 5 \<Longrightarrow> \<exists>a b c d e. ds = [a, b, c, d, e]"
  by (auto simp: length_Suc_conv numeral_eq_Suc)

lemma difficulty_new_val:
  assumes "length ds = 5"
  shows "d_val (difficulty_new ds) = max 6000 (limbs_val ds)"
proof -
  obtain a b c d e where ds: "ds = [a, b, c, d, e]" using limbs5 [OF assms] by blast
  have "lte_minimum ds LIMBS_FOR_MINIMUM \<longleftrightarrow> limbs_val ds \<le> 6000"
    by (auto simp: ds LIMBS_FOR_MINIMUM_def word_less_nat_alt not_less unat_eq_zero)
  then show ?thesis
    by (auto simp: difficulty_new_def LIMBS_FOR_MINIMUM_def)
qed

lemma wf_difficulty_new [simp]: "length ds = 5 \<Longrightarrow> wf_difficulty (difficulty_new ds)"
  by (simp add: wf_difficulty_def difficulty_new_def DIFFICULTY_NUM_LIMBS_def LIMBS_FOR_MINIMUM_def)

lemma difficulty_MAXIMUM_val [simp]:
  "d_val difficulty_MAXIMUM = 2 ^ 160 - 1" "wf_difficulty difficulty_MAXIMUM"
  using limbs_val_replicate_max [of 5]
  by (simp_all add: difficulty_MAXIMUM_def DIFFICULTY_NUM_LIMBS_def difficulty_new_val)

lemma d_val_lt: "wf_difficulty d \<Longrightarrow> d_val d < 2 ^ 160"
  using limbs_val_lt [of "d_limbs d"] by (simp add: wf_difficulty_def DIFFICULTY_NUM_LIMBS_def)

lemma safe_mul_val:
  assumes "wf_difficulty d" "safe_mul_fixed_point_rational d lo hi = (d', overflow)"
  obtains q where "q + 2 ^ 160 * unat overflow = (d_val d * (unat lo + 2 ^ 32 * unat hi)) div 2 ^ 32"
    and "q < 2 ^ 160" "d_val d' = max 6000 q" "wf_difficulty d'"
proof -
  have len: "length (d_limbs d) = 5" using assms(1) by (simp add: wf_difficulty_def DIFFICULTY_NUM_LIMBS_def)
  obtain ls c where lo: "mul_lo_loop lo (d_limbs d) 0 = (ls, c)" by fastforce
  obtain hs c' where hi: "mul_hi_loop hi (d_limbs d) (drop 1 (ls @ [c])) 0 = (hs, c')" by fastforce
  have l: "length ls = 5" "limbs_val (ls @ [c]) = d_val d * unat lo"
    using mul_lo_loop_val [OF lo] len by (simp_all add: limbs_val_append)
  have h: "length hs = 5" "limbs_val hs + 2 ^ 160 * unat c' =
      limbs_val (drop 1 (ls @ [c])) + d_val d * unat hi"
    using mul_hi_loop_val [OF hi] len l(1) by simp_all
  have "limbs_val (drop 1 (ls @ [c])) = (d_val d * unat lo) div 2 ^ 32"
    using l(2) by (simp only: limbs_val_drop) simp
  then have "limbs_val hs + 2 ^ 160 * unat c' = (d_val d * (unat lo + 2 ^ 32 * unat hi)) div 2 ^ 32"
    using h(2) by (simp add: distrib_left mult.left_commute)
  moreover have "d' = difficulty_new hs" "overflow = c'"
    using assms(2) lo hi by (simp_all add: safe_mul_fixed_point_rational_def)
  ultimately show ?thesis
    using that [of "limbs_val hs"] h(1) limbs_val_lt [of hs] by (simp add: difficulty_new_val)
qed

section \<open>The controller\<close>

lemma adjustment_factor_range:
  "3221225472 \<le> adjustment_factor dt t \<and> adjustment_factor dt t \<le> 4563402752"
proof -
  have "- 4294967296 \<le> max (- (2 ^ 32)) (min (4 * 2 ^ 32) x) \<and>
      max (- (2 ^ 32)) (min (4 * 2 ^ 32) x) \<le> 17179869184" for x :: int
    by auto
  then show ?thesis
    by (auto simp: adjustment_factor_def Let_def drop_bit_eq_div)
qed

lemma quotient_range:
  assumes "0 < t"
  shows "0 \<le> tdiv (2 ^ 32) t" "tdiv (2 ^ 32) t \<le> 4294967296"
  using assms zdiv_mono2 [of 4294967296 1 t] by (auto simp: pos_imp_zdiv_nonneg_iff)

text \<open>The sign of the correction is the sign of the error of the block time.\<close>

lemma adjustment_factor_direction:
  assumes "unat dt < 2 ^ 63" "0 < unat t" "unat t < 2 ^ 63"
  shows "dt \<le> t \<Longrightarrow> 4294967296 \<le> adjustment_factor dt t"
    and "t \<le> dt \<Longrightarrow> adjustment_factor dt t \<le> 4294967296"
proof -
  define e where "e = int (unat dt) - int (unat t)"
  define q where "q = tdiv (2 ^ 32) (int (unat t))"
  have "0 < int (unat t)" using assms(2) by (simp only: of_nat_0_less_iff)
  then have q: "0 \<le> q" "q \<le> 4294967296"
    using quotient_range [of "int (unat t)"] by (simp_all only: q_def)
  have "unat dt < 9223372036854775808" "unat t < 9223372036854775808" using assms by simp_all
  then have "\<bar>e\<bar> < 9223372036854775808" unfolding e_def by linarith
  then have e: "\<bar>e\<bar> < 2 ^ 63" by simp
  have eq: "\<bar>e * q\<bar> \<le> 2 ^ 63 * 4294967296"
    unfolding abs_mult using e q by (intro mult_mono) auto
  have "wrap_i64 (uint dt) = uint dt" "wrap_i64 (uint t) = uint t"
    using assms by (simp_all only: wrap_i64_uint)
  moreover have "wrap_i64 e = e" using e by (intro wrap_i64_id) (auto simp: is_i64_def)
  moreover have "wrap_i128 (e * q) = e * q" using eq by (intro wrap_i128_id) (simp add: is_i128_def abs_le_iff)
  ultimately have f: "adjustment_factor dt t =
      2 ^ 32 + drop_bit 4 (- max (- (2 ^ 32)) (min (4 * 2 ^ 32) (e * q)))"
    by (simp add: adjustment_factor_def Let_def e_def q_def)
  show "4294967296 \<le> adjustment_factor dt t" if "dt \<le> t"
  proof -
    have "e \<le> 0" using that unfolding e_def word_le_nat_alt by linarith
    then have "e * q \<le> 0" using q(1) by (simp add: mult_nonpos_nonneg)
    then show ?thesis by (simp add: f drop_bit_eq_div)
  qed
  show "adjustment_factor dt t \<le> 4294967296" if "t \<le> dt"
  proof -
    have "0 \<le> e" using that unfolding e_def word_le_nat_alt by linarith
    then have "0 \<le> e * q" using q(1) by simp
    then show ?thesis by (simp add: f drop_bit_eq_div)
  qed
qed

lemma factor_words:
  assumes "0 \<le> f" "f < 2 ^ 64"
  shows "unat (word_of_int f :: u32) + 2 ^ 32 * unat (word_of_int (drop_bit 32 f) :: u32) = nat f"
proof -
  obtain n where n: "f = int n" using assms(1) nonneg_int_cases by blast
  have "n < 2 ^ 64" using assms(2) by (simp add: n)
  then have "n div 2 ^ 32 < 2 ^ 32" by simp
  moreover have "drop_bit 32 f = int (n div 2 ^ 32)" by (simp add: n drop_bit_eq_div zdiv_int)
  ultimately show ?thesis
    by (simp add: n unsigned_of_nat take_bit_eq_mod)
qed

text \<open>What the controller computes: the old difficulty times the fixed-point factor, between the
  minimum and the maximum difficulty.\<close>

definition controlled :: "nat \<Rightarrow> nat \<Rightarrow> nat" where
  "controlled v f = (let q = v * f div 2 ^ 32 in if 2 ^ 160 \<le> q then 2 ^ 160 - 1 else max 6000 q)"

lemma difficulty_control_val:
  assumes "wf_difficulty d" "\<not> is_genesis F h" "to_millis F t \<noteq> 0"
  obtains d' where "difficulty_control F new old d t h = Inr d'" "wf_difficulty d'"
    "d_val d' = controlled (d_val d)
       (nat (adjustment_factor (to_millis F (timestamp_sub F new old)) (to_millis F t)))"
proof -
  define f where "f = adjustment_factor (to_millis F (timestamp_sub F new old)) (to_millis F t)"
  have f: "0 \<le> f" "f < 2 ^ 64"
    using adjustment_factor_range [of "to_millis F (timestamp_sub F new old)" "to_millis F t"]
    by (simp_all add: f_def)
  obtain r ov where mul: "safe_mul_fixed_point_rational d (word_of_int f) (word_of_int (drop_bit 32 f)) = (r, ov)"
    by fastforce
  obtain q where q: "q + 2 ^ 160 * unat ov = d_val d * nat f div 2 ^ 32" "q < 2 ^ 160"
      "d_val r = max 6000 q" "wf_difficulty r"
    using safe_mul_val [OF assms(1) mul] factor_words [OF f] by metis
  have ctl: "difficulty_control F new old d t h = Inr (if 0 < ov then difficulty_MAXIMUM else r)"
    using assms mul by (simp add: difficulty_control_def f_def Let_def)
  show ?thesis
  proof (cases "ov = 0")
    case True
    with that [OF ctl] q show ?thesis by (simp add: controlled_def f_def)
  next
    case False
    then have "1 \<le> unat ov" by (simp add: Suc_le_eq unat_gt_0)
    then have "2 ^ 160 * 1 \<le> 2 ^ 160 * unat ov" by (intro mult_le_mono2)
    then have "2 ^ 160 \<le> d_val d * nat f div 2 ^ 32" using q(1) by simp
    with that [OF ctl] False show ?thesis by (simp add: controlled_def f_def word_gt_0)
  qed
qed

lemma controlled_mono: "f \<le> g \<Longrightarrow> controlled v f \<le> controlled v g"
proof -
  assume "f \<le> g"
  then have "v * f div 2 ^ 32 \<le> v * g div 2 ^ 32" by (intro div_le_mono mult_le_mono2)
  then show ?thesis unfolding controlled_def Let_def by (auto simp: le_max_iff_disj)
qed

lemma controlled_one: "v < 2 ^ 160 \<Longrightarrow> controlled v 4294967296 = max 6000 v"
  by (simp add: controlled_def)

lemma controlled_bounds:
  assumes "v < 2 ^ 160" "3221225472 \<le> f" "f \<le> 4563402752"
  shows "3 * v div 4 \<le> controlled v f" "controlled v f \<le> max 6000 (17 * v div 16)"
proof -
  have "v * 3221225472 div 4294967296 = v * 3 div 4" "v * 4563402752 div 4294967296 = v * 17 div 16"
    using div_mult_mult1 [of 1073741824 "v * 3" 4] div_mult_mult1 [of 268435456 "v * 17" 16]
    by (simp_all add: ac_simps)
  then have "3 * v div 4 \<le> controlled v 3221225472" "controlled v 4563402752 \<le> max 6000 (17 * v div 16)"
    using assms(1) by (auto simp: controlled_def Let_def mult.commute)
  with controlled_mono assms(2,3) show "3 * v div 4 \<le> controlled v f"
      "controlled v f \<le> max 6000 (17 * v div 16)"
    by (meson le_trans)+
qed

text \<open>(C25) One block changes the difficulty by a bounded factor: whatever the timestamps are, the
  controller returns, and the new difficulty lies between three quarters of the old one and
  seventeen sixteenths of it, except that it is never below the minimum difficulty.\<close>

theorem difficulty_control_bounded:
  assumes "wf_difficulty d" "to_millis F t \<noteq> 0"
  shows "\<exists>d'. difficulty_control F new old d t h = Inr d' \<and> wf_difficulty d' \<and>
    3 * difficulty_to_biguint d div 4 \<le> difficulty_to_biguint d' \<and>
    difficulty_to_biguint d' \<le> max 6000 (17 * difficulty_to_biguint d div 16)"
proof (cases "is_genesis F h")
  case True
  then have "difficulty_control F new old d t h = Inr d" by (simp add: difficulty_control_def)
  with assms(1) show ?thesis by auto
next
  case False
  let ?f = "adjustment_factor (to_millis F (timestamp_sub F new old)) (to_millis F t)"
  have "3221225472 \<le> nat ?f" "nat ?f \<le> 4563402752"
    using adjustment_factor_range [of "to_millis F (timestamp_sub F new old)" "to_millis F t"] by auto
  with difficulty_control_val [OF assms(1) False assms(2), of new old] show ?thesis
    using controlled_bounds [OF d_val_lt [OF assms(1)]] by (metis difficulty_to_biguint_val)
qed

theorem difficulty_control_bounded_witness:
  "\<exists>d'. difficulty_control bfe_ops (ts_millis bfe_ops 9000) (ts_millis bfe_ops 1000)
      (difficulty_from_u32 100000) (ts_millis bfe_ops 384000) (height_from_u64 bfe_ops 5) = Inr d' \<and>
    wf_difficulty d' \<and> 75000 \<le> difficulty_to_biguint d' \<and> difficulty_to_biguint d' \<le> 106250"
proof -
  have "wf_difficulty (difficulty_from_u32 100000)"
    by (simp add: wf_difficulty_def difficulty_from_u32_def)
  moreover have "to_millis bfe_ops (ts_millis bfe_ops 384000) \<noteq> 0"
    by (simp add: to_millis_def ts_millis_def goldilocks.value_small bfe_P_def)
  ultimately show ?thesis
    using difficulty_control_bounded [of "difficulty_from_u32 100000" bfe_ops "ts_millis bfe_ops 384000"
        "ts_millis bfe_ops 9000" "ts_millis bfe_ops 1000" "height_from_u64 bfe_ops 5"]
    by simp
qed

text \<open>(C26) The controller reacts in the right direction: for a block after the first one, with
  timestamps in order and within \<open>2 ^ 63\<close> milliseconds, a block time of at most the target interval
  does not lower the difficulty, and a block time of at least the target interval does not raise it
  above the old difficulty (or the minimum difficulty).\<close>

theorem difficulty_control_direction:
  assumes "bfield_laws F" "wf_difficulty d" "\<not> is_genesis F h"
    and "to_millis F old \<le> to_millis F new" "unat (to_millis F new) < 2 ^ 63"
    and "0 < unat (to_millis F t)" "unat (to_millis F t) < 2 ^ 63"
  shows "\<exists>d'. difficulty_control F new old d t h = Inr d' \<and>
    (to_millis F new - to_millis F old \<le> to_millis F t \<longrightarrow>
       difficulty_to_biguint d \<le> difficulty_to_biguint d') \<and>
    (to_millis F t \<le> to_millis F new - to_millis F old \<longrightarrow>
       difficulty_to_biguint d' \<le> max 6000 (difficulty_to_biguint d))"
proof -
  define dt where "dt = to_millis F new - to_millis F old"
  define f where "f = nat (adjustment_factor dt (to_millis F t))"
  have dt: "to_millis F (timestamp_sub F new old) = dt"
    using bfield_laws.sub_value_le [OF assms(1)] assms(4)
    by (simp add: to_millis_def timestamp_sub_def dt_def)
  have "unat dt < 2 ^ 63"
    using assms(4,5) by (simp add: dt_def unat_sub_le)
  note dir = adjustment_factor_direction [OF this assms(6,7)]
  have up: "4294967296 \<le> f" if "dt \<le> to_millis F t" using dir(1) [OF that] by (simp add: f_def)
  have down: "f \<le> 4294967296" if "to_millis F t \<le> dt" using dir(2) [OF that] by (simp add: f_def)
  have "to_millis F t \<noteq> 0" using assms(6) by auto
  then obtain d' where d': "difficulty_control F new old d t h = Inr d'"
      "d_val d' = controlled (d_val d) f"
    using difficulty_control_val [OF assms(2,3)] dt f_def by metis
  have one: "controlled (d_val d) 4294967296 = max 6000 (d_val d)"
    by (rule controlled_one [OF d_val_lt [OF assms(2)]])
  have "d_val d \<le> d_val d'" if "dt \<le> to_millis F t"
    using controlled_mono [OF up [OF that], of "d_val d"] one d'(2) by simp
  moreover have "d_val d' \<le> max 6000 (d_val d)" if "to_millis F t \<le> dt"
    using controlled_mono [OF down [OF that], of "d_val d"] one d'(2) by simp
  ultimately show ?thesis using d'(1) by (auto simp: dt_def)
qed

theorem difficulty_control_direction_witness:
  "\<exists>d'. difficulty_control bfe_ops (ts_millis bfe_ops 9000) (ts_millis bfe_ops 1000)
      (difficulty_from_u32 100000) (ts_millis bfe_ops 384000) (height_from_u64 bfe_ops 5) = Inr d' \<and>
    100000 \<le> difficulty_to_biguint d'"
proof -
  have ms: "to_millis bfe_ops (ts_millis bfe_ops v) = v" if "unat v < bfe_P" for v
    using that by (simp add: to_millis_def ts_millis_def goldilocks.value_small)
  have "height_value bfe_ops (height_from_u64 bfe_ops 5) = 5"
    by (simp add: height_value_def height_from_u64_def goldilocks.value_small bfe_P_def bfe_MAX_def)
  then have "\<not> is_genesis bfe_ops (height_from_u64 bfe_ops 5)"
    by (simp add: goldilocks.is_genesis_iff)
  moreover have "wf_difficulty (difficulty_from_u32 100000)"
    by (simp add: wf_difficulty_def difficulty_from_u32_def)
  ultimately show ?thesis
    using difficulty_control_direction [of bfe_ops "difficulty_from_u32 100000"
        "height_from_u64 bfe_ops 5" "ts_millis bfe_ops 1000" "ts_millis bfe_ops 9000"
        "ts_millis bfe_ops 384000"] goldilocks.bfield_laws_axioms
    by (auto simp: ms bfe_P_def)
qed

section \<open>Order, conversions, shift, and cumulative work\<close>

lemma difficulty_from_biguint_val:
  "difficulty_from_biguint n = Some d \<longleftrightarrow> wf_difficulty d \<and> d_val d = n"
proof (cases "n < 2 ^ 160")
  case True
  then have short: "length (u32_digits n) \<le> 5" using length_u32_digits_le [of n 5] by simp
  let ?ds = "pad_using 5 (u32_digits n)"
  have len: "length ?ds = 5" and val: "limbs_val ?ds = n" using short by simp_all
  have "wf_difficulty d \<and> d_val d = n \<longleftrightarrow> d_limbs d = ?ds"
    using limbs_val_inj [of "d_limbs d" ?ds] len val
    by (auto simp: wf_difficulty_def DIFFICULTY_NUM_LIMBS_def)
  with short show ?thesis
    by (auto simp: difficulty_from_biguint_def DIFFICULTY_NUM_LIMBS_def difficulty.expand)
next
  case False
  then have "\<not> length (u32_digits n) \<le> 5" using length_u32_digits_le [of n 5] by simp
  with False show ?thesis
    using d_val_lt [of d] by (auto simp: difficulty_from_biguint_def DIFFICULTY_NUM_LIMBS_def)
qed

text \<open>\<^verbatim>\<open>Difficulty\<close> and \<^verbatim>\<open>ProofOfWork\<close> are ordered as the numbers they represent, and a big
  integer becomes a difficulty exactly when it has at most 160 bits, without changing its value.\<close>

theorem difficulty_represents_number:
  assumes "wf_difficulty a" "wf_difficulty b" "wf_pow p" "wf_pow q"
  shows "difficulty_cmp a b = cmp_nat (difficulty_to_biguint a) (difficulty_to_biguint b) \<and>
    pow_cmp p q = cmp_nat (pow_to_biguint p) (pow_to_biguint q) \<and>
    (difficulty_from_biguint n = Some d \<longleftrightarrow> wf_difficulty d \<and> difficulty_to_biguint d = n)"
  using assms difficulty_from_biguint_val
  by (simp add: difficulty_cmp_def pow_cmp_def limbs_cmp_val wf_difficulty_def wf_pow_def)

theorem difficulty_represents_number_witness:
  "difficulty_cmp (difficulty_from_u32 7) (difficulty_from_u32 9) = Less \<and>
   pow_cmp pow_MAXIMUM pow_MINIMUM = Greater \<and>
   (difficulty_from_biguint 7 = Some (difficulty_from_u32 7))"
proof -
  have wf: "wf_difficulty (difficulty_from_u32 v)" "wf_pow pow_MAXIMUM" "wf_pow pow_MINIMUM" for v
    by (simp_all add: wf_difficulty_def difficulty_from_u32_def wf_pow_def pow_MAXIMUM_def pow_MINIMUM_def)
  have "pow_val pow_MAXIMUM + 1 = 2 ^ 192" "pow_val pow_MINIMUM = 0"
    using limbs_val_replicate_max [of 6] by (simp_all add: pow_MAXIMUM_def pow_MINIMUM_def POW_NUM_LIMBS_def)
  then have "cmp_nat (pow_val pow_MAXIMUM) (pow_val pow_MINIMUM) = Greater" by (simp add: cmp_nat_def)
  then show ?thesis
    using difficulty_represents_number [of "difficulty_from_u32 7" "difficulty_from_u32 9"
        pow_MAXIMUM pow_MINIMUM 7 "difficulty_from_u32 7"] wf
    by (simp add: cmp_nat_def)
qed

lemma unat_shr_digit:
  assumes "0 < r" "r < 32" "unat b < 2 ^ r"
  shows "unat (drop_bit r (a :: u32) OR push_bit (32 - r) b) = unat a div 2 ^ r + 2 ^ (32 - r) * unat b"
proof -
  have pow: "(2::nat) ^ r * 2 ^ (32 - r) = 4294967296"
    using assms by (simp flip: power_add)
  have push: "unat (push_bit (32 - r) b) = 2 ^ (32 - r) * unat b"
  proof -
    have "2 ^ (32 - r) * unat b < 2 ^ (32 - r) * 2 ^ r" using assms(3) by simp
    then have "2 ^ (32 - r) * unat b < 4294967296" using pow by (simp add: mult.commute)
    then show ?thesis
      by (subst unsigned_push_bit_eq) (simp add: push_bit_eq_mult take_bit_nat_eq_self mult.commute)
  qed
  have high: "unat a div 2 ^ r < 2 ^ (32 - r)"
    using pow unat_u32_lt [of a] by (simp add: div_less_iff_less_mult mult.commute)
  have "drop_bit r a AND push_bit (32 - r) b = 0"
    using assms(2) by (intro bit_eqI) (auto simp: bit_simps dest: bit_imp_le_length)
  then have "drop_bit r a OR push_bit (32 - r) b = drop_bit r a + push_bit (32 - r) b"
    by (rule or_eq_plus_word)
  moreover have "unat (drop_bit r a) + unat (push_bit (32 - r) b) < 2 ^ 32"
  proof -
    have "unat a div 2 ^ r + 2 ^ (32 - r) * unat b < 2 ^ (32 - r) * (unat b + 1)"
      using high by simp
    also have "\<dots> \<le> 2 ^ (32 - r) * 2 ^ r" using assms(3) by (intro mult_le_mono2) simp
    finally show ?thesis using pow push by (simp only: unat_drop_bit) (simp add: mult.commute)
  qed
  ultimately show ?thesis
    using push unat_drop_bit [of r a] unat_add_no_overflow [of "drop_bit r a" "push_bit (32 - r) b"]
    by simp
qed

lemma shr_loop_val:
  assumes "0 < r" "r < 32" "unat b < 2 ^ r"
  shows "limbs_val (rev (shr_loop r b as)) = (unat b * 2 ^ (32 * length as) + limbs_val (rev as)) div 2 ^ r"
  using assms(3)
proof (induction as arbitrary: b)
  case (Cons a as)
  let ?B = "2 ^ (32 * length as) :: nat" and ?b = "a AND (push_bit r 1 - 1)"
  have mask: "unat ?b = unat a mod 2 ^ r"
  proof -
    have "?b = take_bit r a" by (simp add: take_bit_eq_mask mask_eq_exp_minus_1 push_bit_eq_mult)
    then show ?thesis by (simp only: unsigned_take_bit_eq) (simp add: take_bit_eq_mod)
  qed
  have IH: "limbs_val (rev (shr_loop r ?b as)) = (unat a mod 2 ^ r * ?B + limbs_val (rev as)) div 2 ^ r"
  proof -
    have "unat ?b < 2 ^ r" by (simp only: mask) simp
    from Cons.IH [OF this] show ?thesis by (simp only: mask)
  qed
  have len: "length (shr_loop r c as) = length as" for c
    by (induction as arbitrary: c) (simp_all add: Let_def)
  have B: "(2::nat) ^ (32 * length (a # as)) = 2 ^ r * (2 ^ (32 - r) * ?B)"
    using assms by (simp add: power_add flip: power_add)
  have "unat b * 2 ^ (32 * length (a # as)) + limbs_val (rev (a # as)) =
      2 ^ r * (?B * (unat a div 2 ^ r + 2 ^ (32 - r) * unat b)) + (unat a mod 2 ^ r * ?B + limbs_val (rev as))"
  proof -
    have "unat a * ?B = 2 ^ r * (unat a div 2 ^ r) * ?B + unat a mod 2 ^ r * ?B"
      by (simp flip: distrib_right)
    then show ?thesis unfolding B by (simp add: limbs_val_append distrib_left ac_simps)
  qed
  then have "(unat b * 2 ^ (32 * length (a # as)) + limbs_val (rev (a # as))) div 2 ^ r =
      ?B * (unat a div 2 ^ r + 2 ^ (32 - r) * unat b) + limbs_val (rev (shr_loop r ?b as))"
    by (simp only: IH) simp
  then show ?case
    using len unat_shr_digit [OF assms(1,2) Cons.prems, of a]
    by (simp add: Let_def limbs_val_append)
qed simp

lemma length_shr_loop [simp]: "length (shr_loop r b as) = length as"
  by (induction as arbitrary: b) (simp_all add: Let_def)

text \<open>The right shift of a difficulty divides its number by a power of two, rounding down, and
  never goes below the minimum difficulty; every shift distance is allowed.\<close>

theorem difficulty_shr_divides:
  assumes "wf_difficulty d"
  shows "difficulty_to_biguint (difficulty_shr d k) = max 6000 (difficulty_to_biguint d div 2 ^ k)"
proof -
  let ?array = "pad_using 5 (drop (k div 32) (d_limbs d))"
  have len: "length ?array = 5"
    using assms by (simp add: wf_difficulty_def DIFFICULTY_NUM_LIMBS_def)
  have "(2::nat) ^ k = 2 ^ (32 * (k div 32)) * 2 ^ (k mod 32)"
    by (simp flip: power_add)
  then have split: "d_val d div 2 ^ k = limbs_val ?array div 2 ^ (k mod 32)"
    by (simp add: limbs_val_drop div_mult2_eq)
  show ?thesis
  proof (cases "k mod 32 = 0")
    case True
    with len split show ?thesis
      by (simp add: difficulty_shr_def DIFFICULTY_NUM_LIMBS_def difficulty_new_val)
  next
    case False
    with shr_loop_val [of "k mod 32" 0 "rev ?array"] len split show ?thesis
      by (simp add: difficulty_shr_def DIFFICULTY_NUM_LIMBS_def difficulty_new_val)
  qed
qed

theorem difficulty_shr_divides_witness:
  "difficulty_to_biguint (difficulty_shr (difficulty_from_u32 1000000) 3) = 125000"
proof -
  have "wf_difficulty (difficulty_from_u32 1000000)"
    by (simp add: wf_difficulty_def difficulty_from_u32_def)
  from difficulty_shr_divides [OF this, of 3] show ?thesis by simp
qed

lemma pow_carry_loop_val:
  "length (pow_carry_loop ps c) = length ps \<and>
   (\<exists>k. limbs_val (pow_carry_loop ps c) + 2 ^ (32 * length ps) * k = limbs_val ps + unat c)"
proof (induction ps arbitrary: c)
  case Nil
  show ?case by simp
next
  case (Cons p ps)
  let ?s = "ucast c + ucast p :: u64"
  obtain k where k: "limbs_val (pow_carry_loop ps (ucast (drop_bit 32 ?s))) + 2 ^ (32 * length ps) * k =
      limbs_val ps + unat ?s div 4294967296"
    using Cons [of "ucast (drop_bit 32 ?s)"] by (auto simp only: unat_hi32)
  have "limbs_val (pow_carry_loop (p # ps) c) + 2 ^ (32 * length (p # ps)) * k =
      limbs_val (p # ps) + unat c"
    using carry_step [OF k] by (simp add: Let_def limb_sums)
  moreover have "length (pow_carry_loop (p # ps) c) = length (p # ps)" using Cons by (simp add: Let_def)
  ultimately show ?case by blast
qed

lemma pow_add_loop_val:
  "length ds \<le> length ps \<Longrightarrow> length (pow_add_loop ds ps c) = length ps \<and>
   (\<exists>k. limbs_val (pow_add_loop ds ps c) + 2 ^ (32 * length ps) * k =
      limbs_val ds + limbs_val ps + unat c)"
proof (induction ds ps c rule: pow_add_loop.induct)
  case (1 d ds p ps c)
  let ?s = "ucast c + ucast d + ucast p :: u64"
  have IH: "length (pow_add_loop ds ps (ucast (drop_bit 32 ?s))) = length ps"
      "\<exists>k. limbs_val (pow_add_loop ds ps (ucast (drop_bit 32 ?s))) + 2 ^ (32 * length ps) * k =
        limbs_val ds + limbs_val ps + unat ?s div 4294967296"
    using 1 by (simp_all only: unat_hi32 list.size)
  then obtain k where k: "limbs_val (pow_add_loop ds ps (ucast (drop_bit 32 ?s))) +
      2 ^ (32 * length ps) * k = limbs_val ds + limbs_val ps + unat ?s div 4294967296" by blast
  have "limbs_val (pow_add_loop (d # ds) (p # ps) c) + 2 ^ (32 * length (p # ps)) * k =
      limbs_val (d # ds) + limbs_val (p # ps) + unat c"
    using carry_step [OF k] by (simp add: Let_def limb_sums)
  moreover have "length (pow_add_loop (d # ds) (p # ps) c) = length (p # ps)"
    using IH(1) by (simp add: Let_def)
  ultimately show ?case by blast
next
  case (2 ps c)
  then show ?case using pow_carry_loop_val [of ps c] by simp
qed simp

text \<open>Adding a difficulty, or any number of at most six limbs, to the cumulative proof-of-work
  adds the numbers, modulo \<open>2 ^ 192\<close>: the carries of both loops are complete, and what leaves the
  sixth limb is lost without an error.\<close>

theorem pow_add_adds:
  assumes "wf_pow p" "length rhs \<le> POW_NUM_LIMBS"
  shows "wf_pow (pow_add p rhs) \<and>
    pow_to_biguint (pow_add p rhs) = (pow_to_biguint p + limbs_val rhs) mod 2 ^ 192"
proof -
  have len: "length (pow_limbs p) = 6" using assms(1) by (simp add: wf_pow_def POW_NUM_LIMBS_def)
  then obtain k where k: "limbs_val (pow_limbs (pow_add p rhs)) + 2 ^ 192 * k =
      limbs_val rhs + pow_val p" and wf: "wf_pow (pow_add p rhs)"
    using pow_add_loop_val [of rhs "pow_limbs p" 0] assms
    by (auto simp: pow_add_def wf_pow_def POW_NUM_LIMBS_def)
  have "pow_val (pow_add p rhs) < 2 ^ 192"
    using limbs_val_lt [of "pow_limbs (pow_add p rhs)"] wf by (simp add: wf_pow_def POW_NUM_LIMBS_def)
  then have "pow_val (pow_add p rhs) = (pow_val (pow_add p rhs) + 2 ^ 192 * k) mod 2 ^ 192" by simp
  with k wf show ?thesis by (simp add: add.commute)
qed

theorem pow_add_adds_witness:
  "pow_to_biguint (pow_add pow_MINIMUM (d_limbs (difficulty_from_u32 77))) = 77"
proof -
  have "wf_pow pow_MINIMUM" "length (d_limbs (difficulty_from_u32 77)) \<le> POW_NUM_LIMBS"
    by (simp_all add: wf_pow_def pow_MINIMUM_def difficulty_from_u32_def DIFFICULTY_NUM_LIMBS_def
        POW_NUM_LIMBS_def)
  from pow_add_adds [OF this] show ?thesis by (simp add: pow_MINIMUM_def)
qed

text \<open>The conversion of a big integer to a cumulative proof-of-work accepts every number of
  fewer than \<open>2 ^ 63\<close> digits and keeps it modulo \<open>2 ^ 192\<close>: the error for numbers above the
  maximum is never returned, since the comparison complements the digit count instead of negating
  the condition.\<close>

theorem pow_try_from_biguint_truncates:
  assumes "length (u32_digits n) < 2 ^ 63"
  shows "\<exists>p. pow_try_from_biguint n = Inr p \<and> wf_pow p \<and> pow_to_biguint p = n mod 2 ^ 192"
proof -
  let ?c = "of_nat (length (u32_digits n)) :: u64"
  let ?p = "ProofOfWork (pad_using 6 (take 6 (u32_digits n)))"
  have c: "unat ?c = length (u32_digits n)"
    using assms by (simp add: unsigned_of_nat take_bit_nat_eq_self)
  have "NOT ?c = - 1 - ?c" by (simp add: not_eq_complement)
  moreover have "unat (- 1 :: u64) = 18446744073709551615"
    by (simp add: unsigned_minus_1_eq_mask mask_eq_exp_minus_1)
  ultimately have "unat (NOT ?c) = 18446744073709551615 - unat ?c"
    using unat_sub_le [of ?c "- 1"] by (simp add: word_order.extremum)
  then have "of_nat POW_NUM_LIMBS < NOT ?c"
    using c assms by (simp add: word_less_nat_alt POW_NUM_LIMBS_def)
  then have "pow_try_from_biguint n = Inr ?p"
    by (simp add: pow_try_from_biguint_def POW_NUM_LIMBS_def)
  moreover have "wf_pow ?p" by (simp add: wf_pow_def POW_NUM_LIMBS_def)
  moreover have "pow_to_biguint ?p = n mod 2 ^ 192" by (simp add: limbs_val_take)
  ultimately show ?thesis by blast
qed

theorem pow_try_from_biguint_truncates_witness:
  "\<exists>p. pow_try_from_biguint (2 ^ 192 + 5) = Inr p \<and> pow_to_biguint p = 5"
proof -
  have "length (u32_digits (2 ^ 192 + 5)) \<le> 7"
    by (subst length_u32_digits_le) simp
  then have "length (u32_digits (2 ^ 192 + 5)) < 2 ^ 63" by (rule order_le_less_trans) simp
  from pow_try_from_biguint_truncates [OF this] show ?thesis by auto
qed

text \<open>The target of a difficulty is the largest digest divided by the difficulty, rounded
  down. Whenever the conversions between digests and big integers are inverse up to the largest
  digest, it exists for every positive difficulty, and a higher difficulty never has an easier
  target.\<close>

theorem difficulty_target_antitone:
  assumes "\<And>n. n \<le> to_big max_digest \<Longrightarrow> \<exists>t. of_big n = Some t \<and> to_big t = n"
    and "0 < difficulty_to_biguint d" "difficulty_to_biguint d \<le> difficulty_to_biguint e"
  shows "\<exists>t u. difficulty_target to_big of_big max_digest d = Inr t \<and>
    difficulty_target to_big of_big max_digest e = Inr u \<and>
    to_big t = to_big max_digest div difficulty_to_biguint d \<and> to_big u \<le> to_big t"
proof -
  let ?M = "to_big max_digest"
  have "?M div d_val d \<le> ?M" "?M div d_val e \<le> ?M" by (simp_all add: div_le_dividend)
  then obtain t u where "of_big (?M div d_val d) = Some t" "to_big t = ?M div d_val d"
      "of_big (?M div d_val e) = Some u" "to_big u = ?M div d_val e"
    using assms(1) by metis
  with assms(2,3) show ?thesis by (auto simp: difficulty_target_def Let_def div_le_mono2)
qed

theorem difficulty_target_antitone_witness:
  "\<exists>t u. difficulty_target id (\<lambda>n. if n \<le> 10000000 then Some n else None) 10000000
      (difficulty_from_u32 1000) = Inr t \<and>
    difficulty_target id (\<lambda>n. if n \<le> 10000000 then Some n else None) 10000000
      (difficulty_from_u32 3000) = Inr u \<and> t = 10000 \<and> u \<le> t"
  using difficulty_target_antitone [of id "10000000::nat" "\<lambda>n. if n \<le> 10000000 then Some n else None"
      "difficulty_from_u32 1000" "difficulty_from_u32 3000"]
  by simp

end
