(* ===== verification/Sync_Mask.thy ===== *)
theory Sync_Mask
  imports Nyks_Prelude
begin

text \<open>
  \<^verbatim>\<open>p2p/src/peer/synchronization_bit_mask.rs\<close>: the set of block heights a node has, as a run of ones
  below \<open>lower_bound\<close>, explicit bits in 32-bit limbs up to \<open>upper_bound\<close>, and zeros from there. Two
  syncing peers compare such masks to find the blocks they can serve.

  Heights and limb indices (\<^verbatim>\<open>u64\<close>, \<^verbatim>\<open>usize\<close>) are \<open>nat\<close>: no operation adds more than 32 to a bound, so
  bounds below \<open>2 ^ 64 - 32\<close> do not wrap. A subtraction of limb indices that would go below zero wraps in
  the code and then fails the bounds check; it is the panic \<open>IndexOutOfBounds\<close>. Sampling is not modelled:
  it draws from the random number generator of the library \<^verbatim>\<open>rand\<close>.
\<close>

section \<open>Definitions\<close>

record sync_mask =
  lower_bound :: nat
  upper_bound :: nat
  mask_limbs :: "u32 list"

text \<open>Indexing with \<^verbatim>\<open>limbs[i - offset]\<close>.\<close>

definition limb_at :: "sync_mask \<Rightarrow> nat \<Rightarrow> u32 res" where
  "limb_at m i =
     (let offset = lower_bound m div 32
      in if i < offset then Inl IndexOutOfBounds else index_res (mask_limbs m) (i - offset))"

definition mask_contains :: "sync_mask \<Rightarrow> nat \<Rightarrow> bool res" where
  "mask_contains m index =
     (if index < lower_bound m then Inr True
      else if upper_bound m \<le> index then Inr False
      else bind_res (limb_at m (index div 32))
             (\<lambda>limb. Inr (limb AND push_bit (index mod 32) 1 \<noteq> 0)))"

definition mask_advance :: "sync_mask \<Rightarrow> sync_mask" where
  "mask_advance m =
     (let m = m\<lparr>lower_bound := lower_bound m + 1\<rparr>
      in if lower_bound m mod 32 = 0 then m\<lparr>mask_limbs := tl (mask_limbs m)\<rparr> else m)"

function canonize_loop :: "sync_mask \<Rightarrow> sync_mask res" where
  "canonize_loop m =
     (if mask_contains m (lower_bound m) = Inr True then canonize_loop (mask_advance m)
      else bind_res (mask_contains m (lower_bound m)) (\<lambda>_. Inr m))"
  by pat_completeness auto
termination
  by (relation "measure (\<lambda>m. upper_bound m - lower_bound m)")
     (auto simp: mask_contains_def mask_advance_def Let_def split: if_splits)

definition canonize :: "sync_mask \<Rightarrow> sync_mask res" where
  "canonize m =
     bind_res (canonize_loop m)
       (\<lambda>m. Inr (if lower_bound m = upper_bound m then m\<lparr>mask_limbs := []\<rparr> else m))"

definition mask_limb :: "sync_mask \<Rightarrow> nat \<Rightarrow> u32 res" where
  "mask_limb m index =
     (let offset = lower_bound m div 32 in
      if index < offset then Inr (- 1)
      else let onset = (upper_bound m - 1) div 32 in
      if index \<le> onset \<and> mask_limbs m \<noteq> [] then index_res (mask_limbs m) (index - offset)
      else Inr 0)"

definition mask_new :: "nat \<Rightarrow> nat \<Rightarrow> sync_mask res" where
  "mask_new lower upper =
     assert_then (lower < upper)
       (let offset = lower div 32;
            onset = (upper - 1) div 32;
            num_limbs = (if lower = upper then 0 else 1 + (onset - offset));
            limbs = replicate num_limbs 0;
            limbs = (case limbs of
                       [] \<Rightarrow> []
                     | first # rest \<Rightarrow> foldl (\<lambda>first i. first OR push_bit i 1) first [0..<lower mod 32] # rest)
        in Inr \<lparr>lower_bound = lower, upper_bound = upper, mask_limbs = limbs\<rparr>)"

text \<open>Collecting the limbs of a range; the first panic stops.\<close>

fun collect_limbs :: "(nat \<Rightarrow> u32 res) \<Rightarrow> nat list \<Rightarrow> u32 list res" where
  "collect_limbs f [] = Inr []"
| "collect_limbs f (i # is) = bind_res (f i) (\<lambda>l. bind_res (collect_limbs f is) (\<lambda>ls. Inr (l # ls)))"

definition mask_reconcile :: "sync_mask \<Rightarrow> sync_mask \<Rightarrow> sync_mask res" where
  "mask_reconcile m other =
     (let offset = lower_bound m div 32;
          onset = (upper_bound m - 1) div 32
      in bind_res
           (collect_limbs (\<lambda>i. bind_res (mask_limb m i) (\<lambda>l. bind_res (mask_limb other i) (\<lambda>r. Inr (l OR NOT r))))
              [offset..<Suc onset])
           (\<lambda>limbs. canonize \<lparr>lower_bound = lower_bound m, upper_bound = upper_bound m, mask_limbs = limbs\<rparr>))"

definition mask_bitor :: "sync_mask \<Rightarrow> sync_mask \<Rightarrow> sync_mask res" where
  "mask_bitor m rhs =
     (let upper = max (upper_bound m) (upper_bound rhs) in
      if upper = 0 then Inr \<lparr>lower_bound = 0, upper_bound = upper, mask_limbs = []\<rparr>
      else let lower = max (lower_bound m) (lower_bound rhs) in
      if lower = upper then Inr \<lparr>lower_bound = lower, upper_bound = upper, mask_limbs = []\<rparr>
      else bind_res
             (collect_limbs (\<lambda>i. bind_res (mask_limb m i) (\<lambda>l. bind_res (mask_limb rhs i) (\<lambda>r. Inr (l OR r))))
                [lower div 32..<Suc ((upper - 1) div 32)])
             (\<lambda>limbs. canonize \<lparr>lower_bound = lower, upper_bound = upper, mask_limbs = limbs\<rparr>))"

definition mask_not :: "sync_mask \<Rightarrow> sync_mask res" where
  "mask_not m =
     (let limbs = map (\<lambda>limb. NOT limb) (mask_limbs m);
          bound = upper_bound m mod 32;
          limbs = (if limbs = [] then limbs
                   else if bound \<noteq> 0
                   then butlast limbs @ [foldl (\<lambda>limb i. limb AND NOT (push_bit i 1)) (last limbs) [bound..<32]]
                   else limbs)
      in canonize \<lparr>lower_bound = lower_bound m, upper_bound = upper_bound m, mask_limbs = limbs\<rparr>)"

definition mask_expand :: "sync_mask \<Rightarrow> nat \<Rightarrow> sync_mask res" where
  "mask_expand m new_upper_bound =
     assert_then (upper_bound m \<le> new_upper_bound)
       (let offset = lower_bound m div 32;
            onset = (new_upper_bound - 1) div 32;
            num_limbs = (if lower_bound m = new_upper_bound then 0 else 1 + (onset - offset));
            extra_limbs = num_limbs - length (mask_limbs m)
        in Inr \<lparr>lower_bound = lower_bound m, upper_bound = new_upper_bound,
                mask_limbs = mask_limbs m @ replicate extra_limbs 0\<rparr>)"

definition mask_set :: "sync_mask \<Rightarrow> nat \<Rightarrow> sync_mask res" where
  "mask_set m index =
     (if index < lower_bound m then Inr m
      else assert_then (index < upper_bound m)
       (if lower_bound m = upper_bound m then Inr m
        else let limb_index = index div 32;
                 offset = lower_bound m div 32
        in if limb_index < offset then Inr m
           else if limb_index - offset < length (mask_limbs m)
           then canonize (m\<lparr>mask_limbs := (mask_limbs m)[limb_index - offset :=
                  mask_limbs m ! (limb_index - offset) OR push_bit (index mod 32) 1]\<rparr>)
           else Inl IndexOutOfBounds))"

fun filter_missing :: "sync_mask \<Rightarrow> nat list \<Rightarrow> nat list res" where
  "filter_missing m [] = Inr []"
| "filter_missing m (i # is) =
     bind_res (mask_contains m i) (\<lambda>c. bind_res (filter_missing m is) (\<lambda>js. Inr (if c then js else i # js)))"

definition to_vec_complement :: "sync_mask \<Rightarrow> nat list res" where
  "to_vec_complement m = filter_missing m [lower_bound m..<upper_bound m]"

definition mask_is_complete :: "sync_mask \<Rightarrow> bool" where
  "mask_is_complete m \<longleftrightarrow> lower_bound m = upper_bound m"

definition count_ones :: "u32 \<Rightarrow> nat" where
  "count_ones l = length (filter (bit l) [0..<32])"

definition pop_count_limb :: "sync_mask \<Rightarrow> nat \<Rightarrow> u32 \<Rightarrow> nat" where
  "pop_count_limb m i limb =
     (if limb = 0 then 0
      else if i = 0 \<and> lower_bound m mod 32 \<noteq> 0
      then count_ones (limb AND NOT (push_bit (lower_bound m mod 32) 1 - 1))
      else if i = length (mask_limbs m) - 1 \<and> upper_bound m mod 32 \<noteq> 0
      then count_ones (limb AND (push_bit (upper_bound m mod 32) 1 - 1))
      else count_ones limb)"

definition pop_count :: "sync_mask \<Rightarrow> nat" where
  "pop_count m = sum_list (map (\<lambda>(i, limb). pop_count_limb m i limb) (enumerate 0 (mask_limbs m)))"

text \<open>\<^verbatim>\<open>set_range\<close>: whole limbs first, then the bits at both ends.\<close>

fun set_full_limbs :: "sync_mask \<Rightarrow> nat list \<Rightarrow> sync_mask res" where
  "set_full_limbs m [] = Inr m"
| "set_full_limbs m (i # is) =
     (if i < lower_bound m div 32 \<or> length (mask_limbs m) \<le> i - lower_bound m div 32 then Inl IndexOutOfBounds
      else set_full_limbs (m\<lparr>mask_limbs := (mask_limbs m)[i - lower_bound m div 32 := - 1]\<rparr>) is)"

fun set_each :: "sync_mask \<Rightarrow> nat list \<Rightarrow> sync_mask res" where
  "set_each m [] = Inr m"
| "set_each m (i # is) = bind_res (mask_set m i) (\<lambda>m. set_each m is)"

definition set_range :: "sync_mask \<Rightarrow> nat \<Rightarrow> nat \<Rightarrow> sync_mask res" where
  "set_range m min' max' =
     assert_then (max' < upper_bound m) (assert_then (min' < upper_bound m) (assert_then (min' \<le> max')
       (let first_full_limb = (min' + 31) div 32;
            first_index_in_full_limb = first_full_limb * 32;
            successor_of_last_full_limb = max' div 32;
            first_index_after_last_full_limb = successor_of_last_full_limb * 32
        in bind_res (set_full_limbs m [first_full_limb..<successor_of_last_full_limb])
             (\<lambda>m. bind_res (set_each m [min'..<min max' first_index_in_full_limb])
                (\<lambda>m. set_each m [max min' first_index_after_last_full_limb..<Suc max'])))))"

text \<open>\<^verbatim>\<open>PartialEq\<close>.\<close>

definition mask_eq :: "sync_mask \<Rightarrow> sync_mask \<Rightarrow> bool res" where
  "mask_eq m other =
     (if lower_bound m \<noteq> lower_bound other \<or> upper_bound m \<noteq> upper_bound other then Inr False
      else if lower_bound m = upper_bound m then Inr True
      else if upper_bound m mod 32 = 0 then Inr (mask_limbs m = mask_limbs other)
      else let last' = upper_bound m div 32 in
      if last' \<noteq> 0 \<and> list_ex (\<lambda>(l, r). l \<noteq> r) (take (last' - 1) (zip (mask_limbs m) (mask_limbs other)))
      then Inr False
      else let shamt = upper_bound m mod 32;
               mask = push_bit shamt 1 - 1
      in bind_res (limb_at m last') (\<lambda>l.
         bind_res (limb_at (other\<lparr>lower_bound := lower_bound m\<rparr>) last') (\<lambda>r.
           Inr ((l XOR r) AND mask = 0))))"

declare canonize_loop.simps [simp del]

section \<open>The set a mask stands for\<close>

text \<open>Enough limbs for the explicit bits; in canonical form, the lower bound is the first height that is
  missing and a complete mask has no limbs.\<close>

definition mask_shape :: "sync_mask \<Rightarrow> bool" where
  "mask_shape m \<longleftrightarrow> lower_bound m \<le> upper_bound m \<and> (lower_bound m < upper_bound m \<longrightarrow>
     length (mask_limbs m) = Suc ((upper_bound m - 1) div 32) - lower_bound m div 32)"

definition holds :: "sync_mask \<Rightarrow> nat \<Rightarrow> bool" where
  "holds m i \<longleftrightarrow> i < lower_bound m \<or>
     (i < upper_bound m \<and> bit (mask_limbs m ! (i div 32 - lower_bound m div 32)) (i mod 32))"

definition wf_mask :: "sync_mask \<Rightarrow> bool" where
  "wf_mask m \<longleftrightarrow> mask_shape m \<and> \<not> holds m (lower_bound m) \<and>
     (lower_bound m = upper_bound m \<longrightarrow> mask_limbs m = [])"

lemma limb_index_lt:
  assumes "mask_shape m" "lower_bound m \<le> i" "i < upper_bound m"
  shows "lower_bound m div 32 \<le> i div 32" "i div 32 - lower_bound m div 32 < length (mask_limbs m)"
proof -
  show le: "lower_bound m div 32 \<le> i div 32" using assms(2) by (rule div_le_mono)
  have "i div 32 \<le> (upper_bound m - 1) div 32" using assms(3) by (intro div_le_mono) simp
  moreover have "length (mask_limbs m) = Suc ((upper_bound m - 1) div 32) - lower_bound m div 32"
    using assms by (simp add: mask_shape_def)
  ultimately show "i div 32 - lower_bound m div 32 < length (mask_limbs m)" using le by linarith
qed

lemma mask_contains_holds: "mask_shape m \<Longrightarrow> mask_contains m i = Inr (holds m i)"
  using limb_index_lt [of m i]
  by (auto simp: mask_contains_def limb_at_def holds_def res_simps not_less Let_def and_exp_eq_0_iff_not_bit)

lemma holds_bounds: "holds m i \<Longrightarrow> lower_bound m \<le> upper_bound m \<Longrightarrow> i < upper_bound m"
  by (auto simp: holds_def)

lemma mask_advance_keeps:
  assumes "mask_shape m" "holds m (lower_bound m)"
  shows "mask_shape (mask_advance m)" "holds (mask_advance m) = holds m"
    "upper_bound (mask_advance m) = upper_bound m" "lower_bound (mask_advance m) = Suc (lower_bound m)"
proof -
  let ?l = "lower_bound m" and ?m = "mask_advance m"
  have lt: "?l < upper_bound m" using assms(2) by (simp add: holds_def)
  show up: "upper_bound ?m = upper_bound m" and lo: "lower_bound ?m = Suc ?l"
    by (simp_all add: mask_advance_def Let_def)
  have limbs: "mask_limbs ?m = (if (Suc ?l) mod 32 = 0 then tl (mask_limbs m) else mask_limbs m)"
    by (simp add: mask_advance_def Let_def)
  have off: "(Suc ?l) div 32 = ?l div 32 + (if (Suc ?l) mod 32 = 0 then 1 else 0)"
    by (subst div_Suc) simp
  have len: "length (mask_limbs m) = Suc ((upper_bound m - 1) div 32) - ?l div 32"
    using assms(1) lt by (simp add: mask_shape_def)
  moreover have "?l div 32 \<le> (upper_bound m - 1) div 32" using lt by (intro div_le_mono) simp
  ultimately show shape: "mask_shape ?m"
    using lt unfolding mask_shape_def up lo limbs off by (auto simp: Suc_diff_le)
  have nth: "mask_limbs ?m ! (i div 32 - (Suc ?l) div 32) = mask_limbs m ! (i div 32 - ?l div 32)"
    if "Suc ?l \<le> i" "i < upper_bound m" for i
  proof (cases "(Suc ?l) mod 32 = 0")
    case True
    have "(Suc ?l) div 32 \<le> i div 32" using that(1) by (rule div_le_mono)
    moreover have "i div 32 - (Suc ?l) div 32 < length (tl (mask_limbs m))"
      using limb_index_lt(2) [OF shape, of i] that by (simp add: up lo limbs True)
    ultimately show ?thesis using True off by (simp add: limbs nth_tl Suc_le_eq Suc_diff_Suc)
  next
    case False
    then show ?thesis by (simp add: limbs off)
  qed
  show "holds ?m = holds m"
  proof
    fix i
    show "holds ?m i = holds m i"
      using assms(2) nth [of i] lt unfolding holds_def up lo by (cases "i = ?l") auto
  qed
qed

lemma canonize_loop_keeps:
  "mask_shape m \<Longrightarrow> \<exists>m'. canonize_loop m = Inr m' \<and> mask_shape m' \<and> holds m' = holds m \<and>
     upper_bound m' = upper_bound m \<and> \<not> holds m' (lower_bound m')"
proof (induction m rule: canonize_loop.induct)
  case (1 m)
  show ?case
  proof (cases "holds m (lower_bound m)")
    case True
    then have c: "mask_contains m (lower_bound m) = Inr True" using 1(2) by (simp add: mask_contains_holds)
    have "canonize_loop m = canonize_loop (mask_advance m)"
      by (subst canonize_loop.simps) (simp add: c)
    with 1(1) [OF c] mask_advance_keeps [OF 1(2) True] show ?thesis by auto
  next
    case False
    then have "canonize_loop m = Inr m"
      using 1(2) by (subst canonize_loop.simps) (simp add: mask_contains_holds bind_res_def)
    with False 1(2) show ?thesis by simp
  qed
qed

lemma canonize_keeps:
  assumes "mask_shape m"
  shows "\<exists>m'. canonize m = Inr m' \<and> wf_mask m' \<and> holds m' = holds m \<and> upper_bound m' = upper_bound m"
proof -
  obtain m' where m': "canonize_loop m = Inr m'" "mask_shape m'" "holds m' = holds m"
      "upper_bound m' = upper_bound m" "\<not> holds m' (lower_bound m')"
    using canonize_loop_keeps [OF assms] by blast
  show ?thesis
  proof (cases "lower_bound m' = upper_bound m'")
    case True
    let ?m = "m'\<lparr>mask_limbs := []\<rparr>"
    have "holds ?m = holds m'" using True by (auto simp: holds_def fun_eq_iff)
    moreover have "wf_mask ?m" using True by (simp add: wf_mask_def mask_shape_def holds_def)
    ultimately show ?thesis using m' True by (intro exI [of _ ?m]) (simp add: canonize_def bind_res_def)
  next
    case False
    with m' show ?thesis by (intro exI [of _ m']) (simp add: canonize_def bind_res_def wf_mask_def)
  qed
qed

section \<open>Setting bits\<close>

lemma set_bit_holds:
  assumes "mask_shape m" "lower_bound m \<le> i" "i < upper_bound m"
  defines "k \<equiv> i div 32 - lower_bound m div 32"
  defines "m' \<equiv> m\<lparr>mask_limbs := (mask_limbs m)[k := mask_limbs m ! k OR push_bit (i mod 32) 1]\<rparr>"
  shows "mask_shape m'" "holds m' = (holds m)(i := True)"
proof -
  note idx = limb_index_lt [OF assms(1-3)]
  show "mask_shape m'" using assms(1) by (simp add: mask_shape_def m'_def)
  show "holds m' = (holds m)(i := True)"
  proof
    fix j
    show "holds m' j = ((holds m)(i := True)) j"
    proof (cases "lower_bound m \<le> j \<and> j < upper_bound m")
      case True
      note jdx = limb_index_lt [OF assms(1) True [THEN conjunct1] True [THEN conjunct2]]
      have same: "j div 32 - lower_bound m div 32 = k \<longleftrightarrow> j div 32 = i div 32"
        using idx(1) jdx(1) unfolding k_def by linarith
      have "j = i \<longleftrightarrow> j div 32 = i div 32 \<and> j mod 32 = i mod 32"
        by (metis div_mult_mod_eq)
      with True idx jdx same show ?thesis
        by (cases "j div 32 = i div 32") (auto simp: holds_def m'_def k_def bit_simps)
    next
      case False
      with assms(2,3) show ?thesis by (auto simp: holds_def m'_def)
    qed
  qed
qed

text \<open>(C33) Setting a height below the upper bound returns, sets exactly that height, and leaves the mask in
  canonical form: the lower bound is the first missing height. Setting a height at or above the upper
  bound panics.\<close>

theorem mask_set_sets:
  assumes "wf_mask m"
  shows "if i < upper_bound m
    then \<exists>m'. mask_set m i = Inr m' \<and> wf_mask m' \<and> upper_bound m' = upper_bound m \<and>
      (\<forall>j. mask_contains m' j = Inr (j = i \<or> holds m j)) \<and> \<not> holds m' (lower_bound m')
    else mask_set m i = Inl AssertFailed"
proof (cases "lower_bound m \<le> i \<and> i < upper_bound m")
  case True
  have shape: "mask_shape m" using assms by (simp add: wf_mask_def)
  let ?k = "i div 32 - lower_bound m div 32"
  let ?m = "m\<lparr>mask_limbs := (mask_limbs m)[?k := mask_limbs m ! ?k OR push_bit (i mod 32) 1]\<rparr>"
  note upd = set_bit_holds [OF shape True [THEN conjunct1] True [THEN conjunct2]]
  note idx = limb_index_lt [OF shape True [THEN conjunct1] True [THEN conjunct2]]
  obtain m' where m': "canonize ?m = Inr m'" "wf_mask m'" "holds m' = holds ?m" "upper_bound m' = upper_bound m"
    using canonize_keeps [OF upd(1)] by auto
  have "mask_set m i = canonize ?m" using True idx by (simp add: mask_set_def assert_then_def Let_def)
  with m' upd(2) True show ?thesis
    by (auto simp: wf_mask_def mask_contains_holds)
next
  case False
  have "holds m i" if "i < lower_bound m" using that by (simp add: holds_def)
  with False assms show ?thesis
    by (auto simp: mask_set_def assert_then_def wf_mask_def mask_shape_def mask_contains_holds)
qed

theorem mask_set_sets_witness:
  "\<exists>m'. mask_set \<lparr>lower_bound = 0, upper_bound = 40, mask_limbs = [2, 0]\<rparr> 0 = Inr m' \<and>
     mask_contains m' 1 = Inr True \<and> mask_contains m' 2 = Inr False"
proof -
  have "wf_mask \<lparr>lower_bound = 0, upper_bound = 40, mask_limbs = [2, 0]\<rparr>"
    by (simp add: wf_mask_def mask_shape_def holds_def bit_numeral_simps)
  from mask_set_sets [OF this, of 0] show ?thesis
    by (auto simp: holds_def bit_numeral_simps numeral_2_eq_2)
qed

section \<open>Combining masks\<close>

text \<open>The bits of a whole limb, as \<^verbatim>\<open>limb\<close> returns it: right for every height that the mask does not
  leave implicit inside a stored limb.\<close>

definition limb_exact :: "sync_mask \<Rightarrow> nat \<Rightarrow> bool" where
  "limb_exact m i \<longleftrightarrow> (\<exists>l. mask_limb m (i div 32) = Inr l \<and> (bit l (i mod 32) \<longleftrightarrow> holds m i))"

lemma mask_limb_returns:
  assumes "wf_mask m"
  shows "\<exists>l. mask_limb m k = Inr l"
proof (cases "lower_bound m < upper_bound m")
  case True
  with assms show ?thesis
    by (auto simp: mask_limb_def wf_mask_def mask_shape_def Let_def index_res_def)
next
  case False
  with assms show ?thesis
    by (auto simp: mask_limb_def wf_mask_def mask_shape_def Let_def)
qed

lemma limb_exact_explicit:
  assumes "wf_mask m" "lower_bound m \<le> i" "i < upper_bound m"
  shows "limb_exact m i"
proof -
  have "i div 32 \<le> (upper_bound m - 1) div 32" using assms(3) by (intro div_le_mono) simp
  moreover have "mask_shape m" using assms(1) by (simp add: wf_mask_def)
  note idx = limb_index_lt [OF this assms(2,3)]
  then have "mask_limbs m \<noteq> []" by auto
  ultimately show ?thesis
    using idx assms by (auto simp: limb_exact_def mask_limb_def holds_def index_res_def Let_def)
qed

lemma limb_exact_below:
  assumes "i div 32 < lower_bound m div 32"
  shows "limb_exact m i"
proof -
  have "i < lower_bound m" using assms by (meson div_le_mono not_less)
  with assms show ?thesis by (simp add: limb_exact_def mask_limb_def holds_def bit_simps)
qed

lemma limb_exact_above:
  assumes "wf_mask m" "(upper_bound m - 1) div 32 < i div 32"
  shows "limb_exact m i"
proof -
  have up: "upper_bound m \<le> i"
  proof (rule ccontr)
    assume "\<not> upper_bound m \<le> i"
    then have "i div 32 \<le> (upper_bound m - 1) div 32" by (intro div_le_mono) simp
    with assms(2) show False by simp
  qed
  with assms have "\<not> holds m i" by (auto simp: holds_def wf_mask_def mask_shape_def)
  moreover have "\<not> i div 32 < lower_bound m div 32"
    using up assms(1) by (auto simp: wf_mask_def mask_shape_def not_less intro!: div_le_mono)
  ultimately show ?thesis using assms(2) by (simp add: limb_exact_def mask_limb_def Let_def)
qed

lemma collect_limbs_map:
  "(\<And>i. i \<in> set is \<Longrightarrow> f i = Inr (g i)) \<Longrightarrow> collect_limbs f is = Inr (map g is)"
  by (induction "is") (auto simp: bind_res_def)

text \<open>A mask built from limbs: its bits are the bits of the limbs.\<close>

lemma built_mask:
  fixes g :: "nat \<Rightarrow> u32"
  assumes "l < u"
  defines "m \<equiv> \<lparr>lower_bound = l, upper_bound = u, mask_limbs = map g [l div 32..<Suc ((u - 1) div 32)]\<rparr>"
  shows "mask_shape m" "holds m i \<longleftrightarrow> i < l \<or> (i < u \<and> bit (g (i div 32)) (i mod 32))"
proof -
  have le: "l div 32 \<le> (u - 1) div 32" using assms(1) by (intro div_le_mono) simp
  then show shape: "mask_shape m" using assms(1) by (simp add: mask_shape_def m_def Suc_diff_le)
  show "holds m i \<longleftrightarrow> i < l \<or> (i < u \<and> bit (g (i div 32)) (i mod 32))"
  proof (cases "l \<le> i \<and> i < u")
    case True
    have "l div 32 \<le> i div 32" "i div 32 \<le> (u - 1) div 32"
      using True by (auto intro: div_le_mono)
    moreover from this have "i div 32 - l div 32 < Suc ((u - 1) div 32) - l div 32" by linarith
    note nth_map_upt [OF this, of g]
    ultimately have "mask_limbs m ! (i div 32 - l div 32) = g (i div 32)"
      unfolding m_def by (simp del: upt_Suc)
    with True show ?thesis by (simp add: holds_def m_def)
  next
    case False
    then show ?thesis by (auto simp: holds_def m_def)
  qed
qed

text \<open>Both combinations collect a limb for every limb index of the range and put the result in canonical
  form.\<close>

lemma canonize_built:
  fixes g :: "nat \<Rightarrow> u32"
  assumes "l < u" "\<And>k. f k = Inr (g k)"
  shows "\<exists>m'. bind_res (collect_limbs f [l div 32..<Suc ((u - 1) div 32)])
      (\<lambda>limbs. canonize \<lparr>lower_bound = l, upper_bound = u, mask_limbs = limbs\<rparr>) = Inr m' \<and>
    wf_mask m' \<and> upper_bound m' = u \<and>
    (\<forall>i. holds m' i \<longleftrightarrow> i < l \<or> (i < u \<and> bit (g (i div 32)) (i mod 32)))"
proof -
  let ?m = "\<lparr>lower_bound = l, upper_bound = u, mask_limbs = map g [l div 32..<Suc ((u - 1) div 32)]\<rparr>"
  have "collect_limbs f [l div 32..<Suc ((u - 1) div 32)] = Inr (map g [l div 32..<Suc ((u - 1) div 32)])"
    using assms(2) by (intro collect_limbs_map)
  moreover obtain m' where "canonize ?m = Inr m'" "wf_mask m'" "holds m' = holds ?m" "upper_bound m' = u"
    using canonize_keeps [OF built_mask(1) [OF assms(1)], of g] by auto
  ultimately show ?thesis
    using built_mask(2) [OF assms(1), of g] by (auto simp: bind_res_def simp del: upt_Suc)
qed

definition the_limb :: "sync_mask \<Rightarrow> nat \<Rightarrow> u32" where
  "the_limb m k = (case mask_limb m k of Inr l \<Rightarrow> l | Inl _ \<Rightarrow> 0)"

lemma mask_limb_the_limb: "wf_mask m \<Longrightarrow> mask_limb m k = Inr (the_limb m k)"
  using mask_limb_returns [of m k] by (auto simp: the_limb_def)

lemma bit_the_limb: "limb_exact m i \<Longrightarrow> bit (the_limb m (i div 32)) (i mod 32) \<longleftrightarrow> holds m i"
  by (auto simp: limb_exact_def the_limb_def)

lemma bit_not_limb: "bit (NOT (l :: u32)) (i mod 32) \<longleftrightarrow> \<not> bit l (i mod 32)"
  by (simp add: bit_simps)

lemma filter_missing_filter: "mask_shape m \<Longrightarrow> filter_missing m is = Inr (filter (\<lambda>i. \<not> holds m i) is)"
  by (induction "is") (auto simp: mask_contains_holds bind_res_def)

lemma to_vec_complement_missing:
  "mask_shape m \<Longrightarrow> \<exists>v. to_vec_complement m = Inr v \<and> set v = {i. i < upper_bound m \<and> \<not> holds m i}"
  by (auto simp: to_vec_complement_def filter_missing_filter holds_def)

text \<open>Reconciling with a peer: when the peer's limbs are exact on our explicit range, the zeros of the
  result are the heights that the peer has and we do not. The call returns, in canonical form.\<close>

theorem mask_reconcile_correct:
  assumes "wf_mask m" "wf_mask other" "lower_bound m < upper_bound m"
    "\<forall>i. lower_bound m \<le> i \<and> i < upper_bound m \<longrightarrow> limb_exact other i"
  shows "\<exists>m'. mask_reconcile m other = Inr m' \<and> wf_mask m' \<and> upper_bound m' = upper_bound m \<and>
    (\<exists>v. to_vec_complement m' = Inr v \<and> set v = {i. i < upper_bound m \<and> holds other i \<and> \<not> holds m i})"
proof -
  let ?f = "\<lambda>i. bind_res (mask_limb m i) (\<lambda>l. bind_res (mask_limb other i) (\<lambda>r. Inr (l OR NOT r)))"
  let ?g = "\<lambda>k. the_limb m k OR NOT (the_limb other k)"
  have f: "?f k = Inr (?g k)" for k
    using assms(1,2) by (simp add: mask_limb_the_limb bind_res_def)
  obtain m' where m': "mask_reconcile m other = Inr m'" "wf_mask m'" "upper_bound m' = upper_bound m"
      "\<forall>i. holds m' i \<longleftrightarrow> i < lower_bound m \<or> (i < upper_bound m \<and> bit (?g (i div 32)) (i mod 32))"
    using canonize_built [of _ _ ?f ?g, OF assms(3) f] unfolding mask_reconcile_def Let_def by blast
  have eq: "holds m' i \<longleftrightarrow> i < lower_bound m \<or> (i < upper_bound m \<and> (holds m i \<or> \<not> holds other i))" for i
  proof (cases "lower_bound m \<le> i \<and> i < upper_bound m")
    case True
    with assms have "limb_exact m i" "limb_exact other i" by (simp_all add: limb_exact_explicit)
    then have "bit (?g (i div 32)) (i mod 32) \<longleftrightarrow> holds m i \<or> \<not> holds other i"
      by (simp only: bit_or_iff bit_not_limb bit_the_limb)
    with m'(4) [rule_format, of i] show ?thesis by (simp only:)
  next
    case False
    with m'(4) [rule_format, of i] show ?thesis by (metis not_le)
  qed
  have low: "holds m i" if "i < lower_bound m" for i using that by (simp add: holds_def)
  obtain v where "to_vec_complement m' = Inr v" "set v = {i. i < upper_bound m' \<and> \<not> holds m' i}"
    using m'(2) to_vec_complement_missing by (auto simp: wf_mask_def)
  moreover have "{i. i < upper_bound m \<and> \<not> holds m' i} = {i. i < upper_bound m \<and> holds other i \<and> \<not> holds m i}"
    using eq low by blast
  ultimately show ?thesis using m'(1-3) by auto
qed

theorem mask_reconcile_correct_witness:
  "\<exists>m'. mask_reconcile \<lparr>lower_bound = 0, upper_bound = 40, mask_limbs = [2, 0]\<rparr>
       \<lparr>lower_bound = 2, upper_bound = 40, mask_limbs = [3, 1]\<rparr> = Inr m' \<and>
     (\<exists>v. to_vec_complement m' = Inr v \<and> set v = {0, 32})"
proof -
  let ?m = "\<lparr>lower_bound = 0, upper_bound = 40, mask_limbs = [2, 0]\<rparr>"
  let ?o = "\<lparr>lower_bound = 2, upper_bound = 40, mask_limbs = [3, 1]\<rparr>"
  have wf: "wf_mask ?m" "wf_mask ?o"
    by (simp_all add: wf_mask_def mask_shape_def holds_def bit_numeral_simps numeral_2_eq_2)
  have "limb_exact ?o i" if "i < 40" for i
    using that by (cases "2 \<le> i") (auto simp: wf limb_exact_explicit limb_exact_def mask_limb_def index_res_def
      holds_def numeral_2_eq_2 less_Suc_eq)
  with mask_reconcile_correct [OF wf] have "\<exists>m'. mask_reconcile ?m ?o = Inr m' \<and>
     (\<exists>v. to_vec_complement m' = Inr v \<and> set v = {i. i < 40 \<and> holds ?o i \<and> \<not> holds ?m i})" by auto
  moreover have "{i. i < 40 \<and> holds ?o i \<and> \<not> holds ?m i} = set (filter (\<lambda>i. holds ?o i \<and> \<not> holds ?m i) [0..<40])"
    by auto
  moreover have "filter (\<lambda>i. holds ?o i \<and> \<not> holds ?m i) [0..<40] = [0, 32]" by code_simp
  ultimately show ?thesis by simp
qed

text \<open>The union of two masks: when the limbs of both are exact on the explicit range of the result, the
  result has exactly the heights that one of them has, up to the larger upper bound.\<close>

theorem mask_bitor_union:
  assumes "wf_mask m" "wf_mask rhs"
    "\<forall>i. max (lower_bound m) (lower_bound rhs) \<le> i \<and> i < max (upper_bound m) (upper_bound rhs)
       \<longrightarrow> limb_exact m i \<and> limb_exact rhs i"
  shows "\<exists>m'. mask_bitor m rhs = Inr m' \<and> wf_mask m' \<and>
    upper_bound m' = max (upper_bound m) (upper_bound rhs) \<and>
    (\<forall>i. mask_contains m' i = Inr (holds m i \<or> holds rhs i))"
proof -
  let ?l = "max (lower_bound m) (lower_bound rhs)" and ?u = "max (upper_bound m) (upper_bound rhs)"
  let ?f = "\<lambda>i. bind_res (mask_limb m i) (\<lambda>l. bind_res (mask_limb rhs i) (\<lambda>r. Inr (l OR r)))"
  let ?g = "\<lambda>k. the_limb m k OR the_limb rhs k"
  have le: "lower_bound m \<le> upper_bound m" "lower_bound rhs \<le> upper_bound rhs"
    using assms(1,2) by (auto simp: wf_mask_def mask_shape_def)
  have low: "holds m i \<or> holds rhs i" if "i < ?l" for i using that by (auto simp: holds_def)
  have up: "i < ?u" if "holds m i \<or> holds rhs i" for i
    using that holds_bounds [OF _ le(1), of i] holds_bounds [OF _ le(2), of i] by auto
  show ?thesis
  proof (cases "?l < ?u")
    case True
    have f: "?f k = Inr (?g k)" for k
      using assms(1,2) by (simp add: mask_limb_the_limb bind_res_def)
    have "mask_bitor m rhs = bind_res (collect_limbs ?f [?l div 32..<Suc ((?u - 1) div 32)])
        (\<lambda>limbs. canonize \<lparr>lower_bound = ?l, upper_bound = ?u, mask_limbs = limbs\<rparr>)"
    proof -
      from True have "?u \<noteq> 0" "?l \<noteq> ?u" by linarith+
      then show ?thesis unfolding mask_bitor_def Let_def by (simp only: if_False)
    qed
    then obtain m' where m': "mask_bitor m rhs = Inr m'" "wf_mask m'" "upper_bound m' = ?u"
        "\<forall>i. holds m' i \<longleftrightarrow> i < ?l \<or> (i < ?u \<and> bit (?g (i div 32)) (i mod 32))"
      using canonize_built [of ?l ?u ?f ?g, OF True f] by auto
    have "holds m' i \<longleftrightarrow> holds m i \<or> holds rhs i" for i
    proof (cases "?l \<le> i \<and> i < ?u")
      case True
      with assms(3) have "limb_exact m i" "limb_exact rhs i" by simp_all
      then have "bit (?g (i div 32)) (i mod 32) \<longleftrightarrow> holds m i \<or> holds rhs i"
        by (simp only: bit_or_iff bit_the_limb)
      with m'(4) [rule_format, of i] True show ?thesis by (metis not_le)
    next
      case False
      with m'(4) [rule_format, of i] low [of i] up [of i] show ?thesis by (metis not_le)
    qed
    with m' show ?thesis by (auto simp: mask_contains_holds wf_mask_def)
  next
    case False
    then have eq: "?l = ?u" using le by auto
    let ?m = "\<lparr>lower_bound = ?l, upper_bound = ?u, mask_limbs = []\<rparr>"
    have "mask_bitor m rhs = Inr ?m" using eq by (auto simp: mask_bitor_def Let_def)
    moreover have "wf_mask ?m" using eq by (simp add: wf_mask_def mask_shape_def holds_def)
    moreover have "holds ?m i \<longleftrightarrow> holds m i \<or> holds rhs i" for i
      using low [of i] up [of i] eq by (auto simp: holds_def)
    ultimately show ?thesis using eq by (auto simp: mask_contains_holds wf_mask_def)
  qed
qed

theorem mask_bitor_union_witness:
  "\<exists>m'. mask_bitor \<lparr>lower_bound = 0, upper_bound = 40, mask_limbs = [2, 0]\<rparr>
       \<lparr>lower_bound = 0, upper_bound = 40, mask_limbs = [0, 4]\<rparr> = Inr m' \<and>
     mask_contains m' 1 = Inr True \<and> mask_contains m' 34 = Inr True \<and> mask_contains m' 35 = Inr False"
proof -
  let ?m = "\<lparr>lower_bound = 0, upper_bound = 40, mask_limbs = [2, 0]\<rparr>"
  let ?o = "\<lparr>lower_bound = 0, upper_bound = 40, mask_limbs = [0, 4]\<rparr>"
  have wf: "wf_mask ?m" "wf_mask ?o"
    by (simp_all add: wf_mask_def mask_shape_def holds_def bit_numeral_simps)
  from mask_bitor_union [OF wf] wf have "\<exists>m'. mask_bitor ?m ?o = Inr m' \<and>
      (\<forall>i. mask_contains m' i = Inr (holds ?m i \<or> holds ?o i))"
    by (auto simp: limb_exact_explicit)
  moreover have "holds ?m 1" "holds ?o 34" "\<not> holds ?m 35" "\<not> holds ?o 35" by code_simp+
  ultimately show ?thesis by auto
qed

text \<open>A complete mask stores no limbs, and its last partial limb then reads as zero: reconciling with a
  peer that has all the heights 0 to 39 reports only the heights 0 to 31 as available from it.\<close>

theorem reconcile_misses_last_limb:
  "\<exists>ours theirs peer result. mask_new 0 100 = Inr ours \<and> mask_new 0 40 = Inr theirs \<and>
     set_range theirs 0 39 = Inr peer \<and> mask_is_complete peer \<and> mask_contains peer 32 = Inr True \<and>
     mask_reconcile ours peer = Inr result \<and> to_vec_complement result = Inr [0..<32]"
proof -
  let ?ours = "\<lparr>lower_bound = 0, upper_bound = 100, mask_limbs = [0, 0, 0, 0]\<rparr>"
  let ?theirs = "\<lparr>lower_bound = 0, upper_bound = 40, mask_limbs = [0, 0]\<rparr>"
  let ?peer = "\<lparr>lower_bound = 40, upper_bound = 40, mask_limbs = []\<rparr>"
  let ?result = "\<lparr>lower_bound = 0, upper_bound = 100, mask_limbs = [0, - 1, - 1, - 1]\<rparr>"
  have "mask_new 0 100 = Inr ?ours" "mask_new 0 40 = Inr ?theirs" by code_simp+
  moreover have "set_range ?theirs 0 39 = Inr ?peer" by code_simp
  moreover have "mask_is_complete ?peer" "mask_contains ?peer 32 = Inr True" by code_simp+
  moreover have "mask_reconcile ?ours ?peer = Inr ?result" by code_simp
  moreover have "to_vec_complement ?result = Inr [0..<32]" by code_simp
  ultimately show ?thesis by blast
qed

text \<open>The equality of masks compares one limb too few: a mask with height 40 set and one without are
  equal.\<close>

theorem mask_eq_ignores_a_limb:
  "\<exists>m m'. mask_new 0 70 = Inr m \<and> mask_set m 40 = Inr m' \<and> mask_eq m m' = Inr True \<and>
     mask_contains m 40 = Inr False \<and> mask_contains m' 40 = Inr True"
proof -
  let ?m = "\<lparr>lower_bound = 0, upper_bound = 70, mask_limbs = [0, 0, 0]\<rparr>"
  let ?m' = "\<lparr>lower_bound = 0, upper_bound = 70, mask_limbs = [0, 256, 0]\<rparr>"
  have "mask_new 0 70 = Inr ?m" "mask_set ?m 40 = Inr ?m'" "mask_eq ?m ?m' = Inr True"
    "mask_contains ?m 40 = Inr False" "mask_contains ?m' 40 = Inr True"
    by code_simp+
  then show ?thesis by blast
qed

end
