(* ===== verification/Storage.thy ===== *)
theory Storage
  imports Nyks_Prelude
begin

text \<open>
  \<^verbatim>\<open>database/src/storage\<close>: persistent vectors, singletons and maps over one key-value store. A
  table answers reads from its cache, or else from the database, and records its writes as pending
  operations that it shares with every other table of the schema; \<^verbatim>\<open>persist\<close> writes all of them as one
  batch.

  The locks and \<^verbatim>\<open>async\<close> are left out: a call holds its table exclusively, and the shared state (the
  pending writes and the database) is passed explicitly as \<open>rusty_storage\<close>. LevelDB and \<^verbatim>\<open>bincode\<close> are
  libraries: they are the parameters \<open>store_env\<close> and \<open>codec\<close>. A \<^verbatim>\<open>HashMap\<close> is a map; its iteration
  order is never observed. \<^verbatim>\<open>usize\<close> counters are \<open>nat\<close>.
\<close>

section \<open>Keys, values and pending writes\<close>

type_synonym bytes = "u8 list"

datatype write_operation = Write bytes bytes | Delete bytes

record pending_writes =
  write_ops :: "write_operation list"
  pw_persist_count :: nat

text \<open>\<^verbatim>\<open>RustyValue::from_any\<close> and \<^verbatim>\<open>into_any\<close>; a value that does not deserialize is a panic.\<close>

record 'v codec =
  enc :: "'v \<Rightarrow> bytes"
  dec :: "bytes \<Rightarrow> 'v option"

record 'db store_env =
  db_get :: "'db \<Rightarrow> bytes \<Rightarrow> bytes option"
  db_batch_write :: "'db \<Rightarrow> write_operation list \<Rightarrow> 'db"
  u64_codec :: "u64 codec"

record 'db rusty_storage =
  pending :: pending_writes
  table_count :: u8
  storage_db :: 'db

definition into_any :: "'v codec \<Rightarrow> bytes \<Rightarrow> 'v res" where
  "into_any K b = (case dec K b of None \<Rightarrow> Inl UnwrapFailed | Some v \<Rightarrow> Inr v)"

text \<open>\<^verbatim>\<open>u64::to_be_bytes\<close>.\<close>

definition to_be_bytes :: "u64 \<Rightarrow> bytes" where
  "to_be_bytes w = map (\<lambda>k. ucast (drop_bit (56 - 8 * k) w)) [0..<8]"

definition reader_get :: "'db store_env \<Rightarrow> 'db rusty_storage \<Rightarrow> bytes \<Rightarrow> bytes option" where
  "reader_get E s key = db_get E (storage_db s) key"

definition reader_get_many :: "'db store_env \<Rightarrow> 'db rusty_storage \<Rightarrow> bytes list \<Rightarrow> bytes option list" where
  "reader_get_many E s keys = map (reader_get E s) keys"

definition push_ops :: "'db rusty_storage \<Rightarrow> write_operation list \<Rightarrow> 'db rusty_storage" where
  "push_ops s ops = s\<lparr>pending := (pending s)\<lparr>write_ops := write_ops (pending s) @ ops\<rparr>\<rparr>"

abbreviation persist_count_of :: "'db rusty_storage \<Rightarrow> nat" where
  "persist_count_of s \<equiv> pw_persist_count (pending s)"

section \<open>Storage and schema\<close>

text \<open>\<^verbatim>\<open>SimpleRustyStorage\<close>: creating it, writing the batch, dropping the batch, and forgetting the
  schema.\<close>

definition storage_new :: "'db \<Rightarrow> 'db rusty_storage" where
  "storage_new database = \<lparr>pending = \<lparr>write_ops = [], pw_persist_count = 0\<rparr>, table_count = 0, storage_db = database\<rparr>"

definition reset_schema :: "'db rusty_storage \<Rightarrow> 'db rusty_storage" where
  "reset_schema s = storage_new (storage_db s)"

definition persist :: "'db store_env \<Rightarrow> 'db rusty_storage \<Rightarrow> 'db rusty_storage" where
  "persist E s =
     (let batch = foldl (\<lambda>batch op. case op of Write k v \<Rightarrow> batch @ [Write k v] | Delete k \<Rightarrow> batch @ [Delete k])
                    [] (write_ops (pending s));
          s = s\<lparr>pending := \<lparr>write_ops = [], pw_persist_count = persist_count_of s + 1\<rparr>\<rparr>
      in s\<lparr>storage_db := db_batch_write E (storage_db s) batch\<rparr>)"

definition drop_unpersisted :: "'db rusty_storage \<Rightarrow> 'db rusty_storage" where
  "drop_unpersisted s = s\<lparr>pending := (pending s)\<lparr>write_ops := []\<rparr>\<rparr>"

section \<open>Vectors\<close>

record 'v dbt_vec =
  current_length :: "u64 option"
  key_prefix :: u8
  cache :: "u64 \<Rightarrow> 'v option"
  vec_persist_count :: nat

definition get_length_key :: "u8 \<Rightarrow> bytes" where
  "get_length_key prefix = [prefix] @ [0]"

definition get_index_key :: "u8 \<Rightarrow> u64 \<Rightarrow> bytes" where
  "get_index_key prefix index = [prefix] @ to_be_bytes index"

definition persisted_length :: "'db store_env \<Rightarrow> 'db rusty_storage \<Rightarrow> 'v dbt_vec \<Rightarrow> u64 option res" where
  "persisted_length E s v =
     (case reader_get E s (get_length_key (key_prefix v)) of
        None \<Rightarrow> Inr None
      | Some b \<Rightarrow> bind_res (into_any (u64_codec E) b) (\<lambda>n. Inr (Some n)))"

definition vec_new :: "'db rusty_storage \<Rightarrow> u8 \<Rightarrow> 'v dbt_vec" where
  "vec_new s prefix =
     \<lparr>current_length = None, key_prefix = prefix, cache = Map.empty, vec_persist_count = persist_count_of s\<rparr>"

definition vec_restore_or_new :: "'db store_env \<Rightarrow> 'db rusty_storage \<Rightarrow> 'v dbt_vec \<Rightarrow> 'v dbt_vec res" where
  "vec_restore_or_new E s v =
     (case reader_get E s (get_length_key (key_prefix v)) of
        Some b \<Rightarrow> bind_res (into_any (u64_codec E) b) (\<lambda>n. Inr (v\<lparr>current_length := Some n\<rparr>))
      | None \<Rightarrow> Inr (v\<lparr>current_length := Some 0\<rparr>))"

definition new_vec :: "'db store_env \<Rightarrow> 'db rusty_storage \<Rightarrow> ('db rusty_storage \<times> 'v dbt_vec) res" where
  "new_vec E s =
     (let key_prefix = table_count s;
          s = s\<lparr>table_count := table_count s + 1\<rparr>
      in bind_res (vec_restore_or_new E s (vec_new s key_prefix)) (\<lambda>v. Inr (s, v)))"

definition vec_len :: "'db store_env \<Rightarrow> 'db rusty_storage \<Rightarrow> 'v dbt_vec \<Rightarrow> u64 res" where
  "vec_len E s v =
     (case current_length v of
        Some l \<Rightarrow> Inr l
      | None \<Rightarrow> bind_res (persisted_length E s v) (\<lambda>l. Inr (case l of None \<Rightarrow> 0 | Some n \<Rightarrow> n)))"

definition vec_is_empty :: "'db store_env \<Rightarrow> 'db rusty_storage \<Rightarrow> 'v dbt_vec \<Rightarrow> bool res" where
  "vec_is_empty E s v = bind_res (vec_len E s v) (\<lambda>l. Inr (l = 0))"

definition process_persist_count :: "'v dbt_vec \<Rightarrow> nat \<Rightarrow> 'v dbt_vec" where
  "process_persist_count v n =
     (let v = (if vec_persist_count v < n then v\<lparr>cache := Map.empty\<rparr> else v)
      in v\<lparr>vec_persist_count := n\<rparr>)"

definition write_op_overwrite ::
  "'v codec \<Rightarrow> 'db rusty_storage \<Rightarrow> 'v dbt_vec \<Rightarrow> u64 \<Rightarrow> 'v \<Rightarrow> 'db rusty_storage \<times> 'v dbt_vec" where
  "write_op_overwrite K s v index value =
     (let s = push_ops s [Write (get_index_key (key_prefix v) index) (enc K value)];
          v = process_persist_count v (persist_count_of s)
      in (s, v\<lparr>cache := (cache v)(index \<mapsto> value)\<rparr>))"

definition vec_get ::
  "'db store_env \<Rightarrow> 'v codec \<Rightarrow> 'db rusty_storage \<Rightarrow> 'v dbt_vec \<Rightarrow> u64 \<Rightarrow> 'v res" where
  "vec_get E K s v index =
     bind_res (vec_len E s v) (\<lambda>l. assert_then (index < l)
       (case cache v index of
          Some x \<Rightarrow> Inr x
        | None \<Rightarrow> (case reader_get E s (get_index_key (key_prefix v) index) of
            None \<Rightarrow> Inl ExplicitPanic
          | Some b \<Rightarrow> into_any K b)))"

definition vec_set ::
  "'db store_env \<Rightarrow> 'v codec \<Rightarrow> 'db rusty_storage \<Rightarrow> 'v dbt_vec \<Rightarrow> u64 \<Rightarrow> 'v
     \<Rightarrow> ('db rusty_storage \<times> 'v dbt_vec) res" where
  "vec_set E K s v index value =
     bind_res (vec_len E s v) (\<lambda>l. assert_then (index < l) (Inr (write_op_overwrite K s v index value)))"

text \<open>\<^verbatim>\<open>set_many\<close> checks against the length that it read at the start.\<close>

fun set_many_loop ::
  "'v codec \<Rightarrow> u64 \<Rightarrow> 'db rusty_storage \<times> 'v dbt_vec \<Rightarrow> (u64 \<times> 'v) list
     \<Rightarrow> ('db rusty_storage \<times> 'v dbt_vec) res" where
  "set_many_loop K l sv [] = Inr sv"
| "set_many_loop K l (s, v) ((index, value) # rest) =
     assert_then (index < l) (set_many_loop K l (write_op_overwrite K s v index value) rest)"

definition vec_set_many ::
  "'db store_env \<Rightarrow> 'v codec \<Rightarrow> 'db rusty_storage \<Rightarrow> 'v dbt_vec \<Rightarrow> (u64 \<times> 'v) list
     \<Rightarrow> ('db rusty_storage \<times> 'v dbt_vec) res" where
  "vec_set_many E K s v key_vals = bind_res (vec_len E s v) (\<lambda>l. set_many_loop K l (s, v) key_vals)"

text \<open>\<^verbatim>\<open>map(|x| x.expect(..).into_any())\<close>: the first value that is absent or malformed stops.\<close>

fun decode_all :: "'v codec \<Rightarrow> bytes option list \<Rightarrow> 'v list res" where
  "decode_all K [] = Inr []"
| "decode_all K (None # bs) = Inl UnwrapFailed"
| "decode_all K (Some b # bs) = bind_res (into_any K b) (\<lambda>x. bind_res (decode_all K bs) (\<lambda>xs. Inr (x # xs)))"

text \<open>\<^verbatim>\<open>get_many\<close> fetches the cached elements and the others separately and puts them back into the
  order of the request by their position.\<close>

definition vec_get_many ::
  "'db store_env \<Rightarrow> 'v codec \<Rightarrow> 'db rusty_storage \<Rightarrow> 'v dbt_vec \<Rightarrow> u64 list \<Rightarrow> 'v list res" where
  "vec_get_many E K s v indices =
     (if indices = [] then Inr []
      else bind_res (vec_len E s v) (\<lambda>l. assert_then (foldl max (hd indices) (tl indices) < l)
       (let (in_cache, not_in_cache) = partition (\<lambda>(_, index). cache v index \<noteq> None) (enumerate 0 indices);
            fetched_elements = map (\<lambda>(index_position, index). (index_position, the (cache v index))) in_cache
        in if not_in_cache = [] then Inr (map snd (sort_key fst fetched_elements))
           else bind_res (decode_all K (reader_get_many E s
                    (map (\<lambda>(_, index). get_index_key (key_prefix v) index) not_in_cache)))
             (\<lambda>elements_fetched_from_db.
               Inr (map snd (sort_key fst (fetched_elements @ zip (map fst not_in_cache) elements_fetched_from_db)))))))"

text \<open>\<^verbatim>\<open>get_all\<close> fills an array of options.\<close>

fun expect_all :: "'v option list \<Rightarrow> 'v list res" where
  "expect_all [] = Inr []"
| "expect_all (None # xs) = Inl UnwrapFailed"
| "expect_all (Some x # xs) = bind_res (expect_all xs) (\<lambda>ys. Inr (x # ys))"

definition fill_in :: "'v option list \<Rightarrow> (u64 \<times> 'v) list \<Rightarrow> 'v option list" where
  "fill_in = foldl (\<lambda>xs (index, x). xs[unat index := Some x])"

definition vec_get_all ::
  "'db store_env \<Rightarrow> 'v codec \<Rightarrow> 'db rusty_storage \<Rightarrow> 'v dbt_vec \<Rightarrow> 'v list res" where
  "vec_get_all E K s v =
     bind_res (vec_len E s v) (\<lambda>l.
       let (in_cache, not_in_cache) = partition (\<lambda>index. cache v index \<noteq> None) (map of_nat [0..<unat l]);
           fetched_elements = fill_in (replicate (unat l) None) (map (\<lambda>index. (index, the (cache v index))) in_cache)
       in if not_in_cache = [] then expect_all fetched_elements
          else bind_res (decode_all K (reader_get_many E s (map (get_index_key (key_prefix v)) not_in_cache)))
            (\<lambda>elements_fetched_from_db.
              expect_all (fill_in fetched_elements (zip not_in_cache elements_fetched_from_db))))"

definition vec_delete_cache :: "'db store_env \<Rightarrow> 'db rusty_storage \<Rightarrow> 'v dbt_vec \<Rightarrow> 'v dbt_vec res" where
  "vec_delete_cache E s v =
     bind_res (persisted_length E s v) (\<lambda>l. Inr (v\<lparr>cache := Map.empty, current_length := l\<rparr>))"

definition vec_pop ::
  "'db store_env \<Rightarrow> 'v codec \<Rightarrow> 'db rusty_storage \<Rightarrow> 'v dbt_vec
     \<Rightarrow> ('db rusty_storage \<times> 'v dbt_vec \<times> 'v option) res" where
  "vec_pop E K s v =
     bind_res (vec_is_empty E s v) (\<lambda>empty.
       if empty then Inr (s, v, None)
       else (case current_length v of
          None \<Rightarrow> Inl UnwrapFailed
        | Some l \<Rightarrow>
            let new_length = l - 1;
                v = v\<lparr>current_length := Some new_length\<rparr>;
                index_key = get_index_key (key_prefix v) new_length;
                s = push_ops s [Delete index_key,
                      Write (get_length_key (key_prefix v)) (enc (u64_codec E) new_length)];
                v = process_persist_count v (persist_count_of s)
            in (case cache v new_length of
                  Some x \<Rightarrow> Inr (s, v\<lparr>cache := (cache v)(new_length := None)\<rparr>, Some x)
                | None \<Rightarrow> (case reader_get E s index_key of
                      None \<Rightarrow> Inr (s, v, None)
                    | Some b \<Rightarrow> bind_res (into_any K b) (\<lambda>x. Inr (s, v, Some x))))))"

definition vec_push ::
  "'db store_env \<Rightarrow> 'v codec \<Rightarrow> 'db rusty_storage \<Rightarrow> 'v dbt_vec \<Rightarrow> 'v
     \<Rightarrow> ('db rusty_storage \<times> 'v dbt_vec) res" where
  "vec_push E K s v value =
     bind_res (vec_len E s v) (\<lambda>l.
       let new_length = l + 1;
           s = push_ops s [Write (get_index_key (key_prefix v) l) (enc K value),
                 Write (get_length_key (key_prefix v)) (enc (u64_codec E) new_length)];
           v = process_persist_count v (persist_count_of s)
       in Inr (s, v\<lparr>cache := (cache v)(l \<mapsto> value), current_length := Some new_length\<rparr>))"

text \<open>\<^verbatim>\<open>clear\<close> pops until the vector is empty; every pop that returns shortens it.\<close>

definition vec_measure :: "'db store_env \<Rightarrow> 'db rusty_storage \<Rightarrow> 'v dbt_vec \<Rightarrow> nat" where
  "vec_measure E s v = (case vec_len E s v of Inl _ \<Rightarrow> 0 | Inr l \<Rightarrow> unat l)"

lemma vec_pop_shorter:
  assumes "vec_is_empty E s v = Inr False" "vec_pop E K s v = Inr (s', v', x)"
  shows "vec_measure E s' v' < vec_measure E s v"
proof -
  obtain l where l: "current_length v = Some l"
    using assms by (auto simp: vec_pop_def bind_res_def split: option.splits)
  then have "l \<noteq> 0" using assms(1) by (simp add: vec_is_empty_def vec_len_def bind_res_def)
  then have "unat (l - 1) < unat l"
    by (simp add: unat_minus_one) (simp add: unat_gt_0)
  moreover have "current_length v' = Some (l - 1)"
    using assms l by (auto simp: vec_pop_def bind_res_def Let_def process_persist_count_def
        split: option.splits sum.splits if_splits)
  ultimately show ?thesis using l by (simp add: vec_measure_def vec_len_def)
qed

function vec_clear ::
  "'db store_env \<Rightarrow> 'v codec \<Rightarrow> 'db rusty_storage \<Rightarrow> 'v dbt_vec \<Rightarrow> ('db rusty_storage \<times> 'v dbt_vec) res" where
  "vec_clear E K s v =
     (case vec_is_empty E s v of
        Inl e \<Rightarrow> Inl e
      | Inr True \<Rightarrow> Inr (s, v)
      | Inr False \<Rightarrow> (case vec_pop E K s v of
            Inl e \<Rightarrow> Inl e
          | Inr (s', v', _) \<Rightarrow> vec_clear E K s' v'))"
  by pat_completeness auto
termination
  by (relation "measure (\<lambda>(E, K, s, v). vec_measure E s v)") (auto dest: vec_pop_shorter)

declare vec_clear.simps [simp del]

section \<open>What the code relies on\<close>

text \<open>A batch is applied in order, atomically; serialization round-trips.\<close>

fun apply_op :: "write_operation \<Rightarrow> (bytes \<Rightarrow> bytes option) \<Rightarrow> bytes \<Rightarrow> bytes option" where
  "apply_op (Write k v) m = m(k \<mapsto> v)"
| "apply_op (Delete k) m = m(k := None)"

definition apply_ops :: "write_operation list \<Rightarrow> (bytes \<Rightarrow> bytes option) \<Rightarrow> bytes \<Rightarrow> bytes option" where
  "apply_ops ops m = foldl (\<lambda>m op. apply_op op m) m ops"

definition codec_ok :: "'v codec \<Rightarrow> bool" where
  "codec_ok K \<longleftrightarrow> (\<forall>v. dec K (enc K v) = Some v)"

locale storage_laws =
  fixes E :: "'db store_env"
  assumes get_batch: "db_get E (db_batch_write E d ops) = apply_ops ops (db_get E d)"
    and u64_codec_ok: "codec_ok (u64_codec E)"

lemma into_any_enc [simp]: "codec_ok K \<Longrightarrow> into_any K (enc K v) = Inr v"
  by (simp add: codec_ok_def into_any_def)

lemma apply_ops_simps [simp]:
  "apply_ops [] m = m" "apply_ops (op # ops) m = apply_ops ops (apply_op op m)"
  "apply_ops (ops @ ops') m = apply_ops ops' (apply_ops ops m)"
  by (simp_all add: apply_ops_def)

section \<open>Keys\<close>

lemma byte_bit:
  fixes w :: u64
  assumes "n < 64"
  shows "bit (ucast (drop_bit (56 - 8 * (7 - n div 8)) w) :: u8) (n mod 8) = bit w n"
proof -
  have "n div 8 \<le> 7" using assms by simp
  then have "56 - 8 * (7 - n div 8) = 8 * (n div 8)" by linarith
  then show ?thesis by (simp add: bit_simps)
qed

lemma to_be_bytes_inj: "to_be_bytes a = to_be_bytes b \<longleftrightarrow> a = b"
proof
  assume eq: "to_be_bytes a = to_be_bytes b"
  show "a = b"
  proof (rule bit_word_eqI)
    fix n assume n: "n < LENGTH(64)"
    then have "7 - n div 8 \<in> set [0..<8]" by simp
    with eq have "(ucast (drop_bit (56 - 8 * (7 - n div 8)) a) :: u8) = ucast (drop_bit (56 - 8 * (7 - n div 8)) b)"
      unfolding to_be_bytes_def map_eq_conv by blast
    with n byte_bit [of n a] byte_bit [of n b] show "bit a n = bit b n" by simp
  qed
qed simp

lemma key_simps [simp]:
  "get_index_key p i = get_index_key p j \<longleftrightarrow> i = j"
  "get_index_key p i \<noteq> get_length_key q" "get_length_key q \<noteq> get_index_key p i"
proof -
  show "get_index_key p i = get_index_key p j \<longleftrightarrow> i = j"
    by (simp add: get_index_key_def to_be_bytes_inj)
  have "length (get_index_key p i) = 9" by (simp add: get_index_key_def to_be_bytes_def)
  moreover have "length (get_length_key q) = 2" by (simp add: get_length_key_def)
  ultimately show "get_index_key p i \<noteq> get_length_key q" "get_length_key q \<noteq> get_index_key p i"
    by (metis numeral_eq_iff num.distinct(5) semiring_norm(88))+
qed

lemma key_prefixes: "\<exists>k. get_index_key p i = p # k" "\<exists>k. get_length_key p = p # k"
  by (simp_all add: get_index_key_def get_length_key_def)

fun op_key :: "write_operation \<Rightarrow> bytes" where
  "op_key (Write k v) = k"
| "op_key (Delete k) = k"

definition foreign :: "u8 \<Rightarrow> write_operation list \<Rightarrow> bool" where
  "foreign p ops \<longleftrightarrow> (\<forall>op\<in>set ops. \<forall>k. op_key op \<noteq> p # k)"

lemma apply_ops_foreign: "foreign p ops \<Longrightarrow> apply_ops ops m (p # k) = m (p # k)"
proof (induction ops arbitrary: m)
  case (Cons op ops)
  then have "apply_ops ops (apply_op op m) (p # k) = apply_op op m (p # k)" by (simp add: foreign_def)
  also have "\<dots> = m (p # k)" using Cons.prems by (cases op) (auto simp: foreign_def)
  finally show ?case by simp
qed simp

section \<open>The list a vector stands for\<close>

text \<open>The database as it will be after the pending writes.\<close>

definition view :: "'db store_env \<Rightarrow> 'db rusty_storage \<Rightarrow> bytes \<Rightarrow> bytes option" where
  "view E s = apply_ops (write_ops (pending s)) (reader_get E s)"

definition length_stored :: "'db store_env \<Rightarrow> u8 \<Rightarrow> (bytes \<Rightarrow> bytes option) \<Rightarrow> nat \<Rightarrow> bool" where
  "length_stored E p m n \<longleftrightarrow>
     m (get_length_key p) = Some (enc (u64_codec E) (of_nat n)) \<or> (n = 0 \<and> m (get_length_key p) = None)"

definition stored :: "'db store_env \<Rightarrow> 'v codec \<Rightarrow> u8 \<Rightarrow> (bytes \<Rightarrow> bytes option) \<Rightarrow> 'v list \<Rightarrow> bool" where
  "stored E K p m xs \<longleftrightarrow> length xs < 2 ^ 64 \<and> length_stored E p m (length xs) \<and>
     (\<forall>i<length xs. m (get_index_key p (of_nat i)) = Some (enc K (xs ! i)))"

text \<open>The representation: the pending writes lead to the list; a cached element is right, an element
  that is not cached is in the database; and when the table has not noticed the last persist yet, none of
  its own writes is pending.\<close>

definition vec_repr :: "'db store_env \<Rightarrow> 'v codec \<Rightarrow> 'db rusty_storage \<Rightarrow> 'v dbt_vec \<Rightarrow> 'v list \<Rightarrow> bool" where
  "vec_repr E K s v xs \<longleftrightarrow>
     stored E K (key_prefix v) (view E s) xs \<and>
     (case current_length v of
        Some l \<Rightarrow> l = of_nat (length xs)
      | None \<Rightarrow> length_stored E (key_prefix v) (reader_get E s) (length xs)) \<and>
     (\<forall>i x. cache v i = Some x \<longrightarrow> unat i < length xs \<and> x = xs ! unat i) \<and>
     (\<forall>i<length xs. cache v (of_nat i) = None \<longrightarrow>
        reader_get E s (get_index_key (key_prefix v) (of_nat i)) = Some (enc K (xs ! i))) \<and>
     vec_persist_count v \<le> persist_count_of s \<and>
     (vec_persist_count v < persist_count_of s \<longrightarrow>
        (\<forall>k. reader_get E s (key_prefix v # k) = view E s (key_prefix v # k)))"

lemma push_ops_simps [simp]:
  "persist_count_of (push_ops s ops) = persist_count_of s" "storage_db (push_ops s ops) = storage_db s"
  "table_count (push_ops s ops) = table_count s" "reader_get E (push_ops s ops) = reader_get E s"
  by (simp_all add: push_ops_def reader_get_def fun_eq_iff)

lemma view_push_ops [simp]: "view E (push_ops s ops) = apply_ops ops (view E s)"
  by (simp add: view_def) (simp add: push_ops_def)

lemma process_simps [simp]:
  "key_prefix (process_persist_count v n) = key_prefix v"
  "current_length (process_persist_count v n) = current_length v"
  "vec_persist_count (process_persist_count v n) = n"
  by (simp_all add: process_persist_count_def Let_def)

lemma process_length:
  "process_persist_count (v\<lparr>current_length := l\<rparr>) n = (process_persist_count v n)\<lparr>current_length := l\<rparr>"
  by (simp add: process_persist_count_def Let_def)

lemma repr_process:
  assumes "vec_repr E K s v xs"
  shows "vec_repr E K s (process_persist_count v (persist_count_of s)) xs"
proof (cases "vec_persist_count v < persist_count_of s")
  case True
  then have same: "reader_get E s (key_prefix v # k) = view E s (key_prefix v # k)" for k
    using assms by (simp add: vec_repr_def)
  have "reader_get E s (get_index_key (key_prefix v) i) = view E s (get_index_key (key_prefix v) i)" for i
    using same by (simp add: get_index_key_def)
  with True assms show ?thesis
    by (auto simp: vec_repr_def process_persist_count_def stored_def Let_def split: option.splits)
next
  case False
  with assms show ?thesis
    by (auto simp: vec_repr_def process_persist_count_def Let_def split: option.splits)
qed

lemma unat_u64_eq: "unat (i :: u64) = unat j \<longleftrightarrow> i = j"
  by (simp add: word_unat_eq_iff)

lemma unat_of_nat_u64: "n < 2 ^ 64 \<Longrightarrow> unat (of_nat n :: u64) = n"
  by (simp add: unat_of_nat)

lemma of_nat_u64_eq: "m < 2 ^ 64 \<Longrightarrow> n < 2 ^ 64 \<Longrightarrow> (of_nat m :: u64) = of_nat n \<longleftrightarrow> m = n"
  by (metis unat_of_nat_u64)

lemma stored_length: "stored E K p m xs \<Longrightarrow> length xs < 2 ^ 64"
  by (simp add: stored_def)

lemma repr_stored: "vec_repr E K s v xs \<Longrightarrow> stored E K (key_prefix v) (view E s) xs"
  by (simp add: vec_repr_def)

lemma repr_length: "vec_repr E K s v xs \<Longrightarrow> length xs < 2 ^ 64"
  by (simp add: vec_repr_def stored_def)

lemma length_stored_other:
  "length_stored E p (m(get_index_key p i := b)) n = length_stored E p m n"
  by (simp add: length_stored_def)

lemma stored_overwrite:
  assumes "stored E K p m xs" "unat i < length xs"
  shows "stored E K p (m(get_index_key p i \<mapsto> enc K x)) (xs[unat i := x])"
proof -
  have "(of_nat j = i) = (j = unat i)" if "j < length xs" for j
    using that stored_length [OF assms(1)] by (auto simp: unat_of_nat_u64)
  with assms show ?thesis
    by (auto simp: stored_def length_stored_other nth_list_update)
qed

lemma stored_push:
  assumes "stored E K p m xs" "length xs + 1 < 2 ^ 64"
  shows "stored E K p (m(get_index_key p (of_nat (length xs)) \<mapsto> enc K x,
    get_length_key p \<mapsto> enc (u64_codec E) (of_nat (length xs) + 1))) (xs @ [x])"
proof -
  have "of_nat j \<noteq> (of_nat (length xs) :: u64)" if "j < length xs" for j
    using that stored_length [OF assms(1)] by (simp add: of_nat_u64_eq)
  with assms show ?thesis
    by (auto simp: stored_def length_stored_def nth_append less_Suc_eq add.commute)
qed

lemma stored_pop:
  assumes "stored E K p m xs" "xs \<noteq> []"
  shows "stored E K p (m(get_index_key p (of_nat (length xs) - 1) := None,
    get_length_key p \<mapsto> enc (u64_codec E) (of_nat (length xs) - 1))) (butlast xs)"
proof -
  have len: "(of_nat (length xs) :: u64) - 1 = of_nat (length xs - 1)"
    using assms(2) by (simp add: of_nat_diff Suc_leI)
  have "of_nat j \<noteq> (of_nat (length xs - 1) :: u64)" if "j < length xs - 1" for j
    using that stored_length [OF assms(1)] by (simp add: of_nat_u64_eq del: of_nat_diff)
  with assms show ?thesis
    unfolding len by (auto simp: stored_def length_stored_def nth_butlast simp del: of_nat_diff)
qed

lemma repr_update:
  assumes "vec_repr E K s v xs" "vec_persist_count v = persist_count_of s"
    and "stored E K (key_prefix v) (apply_ops ops (view E s)) ys"
    and "case cl of Some l \<Rightarrow> l = of_nat (length ys)
      | None \<Rightarrow> length_stored E (key_prefix v) (reader_get E s) (length ys)"
    and "\<And>i x. c i = Some x \<Longrightarrow> unat i < length ys \<and> x = ys ! unat i"
    and "\<And>i. i < length ys \<Longrightarrow> c (of_nat i) = None \<Longrightarrow>
      i < length xs \<and> ys ! i = xs ! i \<and> cache v (of_nat i) = None"
  shows "vec_repr E K (push_ops s ops) (v\<lparr>current_length := cl, cache := c\<rparr>) ys"
  using assms by (cases cl) (auto simp: vec_repr_def)

section \<open>The operations refine those of lists\<close>

text \<open>A vector whose length field is set, or that is empty, can be popped.\<close>

definition poppable :: "'v dbt_vec \<Rightarrow> 'v list \<Rightarrow> bool" where
  "poppable v xs \<longleftrightarrow> current_length v \<noteq> None \<or> xs = []"

lemma less_of_nat_u64: "n < 2 ^ 64 \<Longrightarrow> (i :: u64) < of_nat n \<longleftrightarrow> unat i < n"
  by (simp add: word_less_nat_alt unat_of_nat_u64)

locale vec_laws = storage_laws E for E :: "'db store_env" +
  fixes K :: "'v codec"
  assumes codec: "codec_ok K"
begin

lemma persisted_length_ok:
  assumes "length_stored E (key_prefix v) (reader_get E s) n"
  shows "\<exists>l. persisted_length E s v = Inr l \<and> (case l of Some m \<Rightarrow> m = of_nat n | None \<Rightarrow> n = 0)"
  using assms u64_codec_ok by (auto simp: length_stored_def persisted_length_def bind_res_def)

lemma len_ok:
  assumes "vec_repr E K s v xs"
  shows "vec_len E s v = Inr (of_nat (length xs))"
proof (cases "current_length v")
  case None
  with assms persisted_length_ok [of v s "length xs"] show ?thesis
    by (auto simp: vec_repr_def vec_len_def bind_res_def split: option.splits)
next
  case (Some l)
  with assms show ?thesis by (simp add: vec_repr_def vec_len_def)
qed

lemma is_empty_ok:
  assumes "vec_repr E K s v xs"
  shows "vec_is_empty E s v = Inr (xs = [])"
proof -
  have "(of_nat (length xs) :: u64) = 0 \<longleftrightarrow> length xs = 0"
    using of_nat_u64_eq [of "length xs" 0] repr_length [OF assms] by simp
  then show ?thesis by (simp add: vec_is_empty_def len_ok [OF assms] bind_res_def)
qed

lemma cached_or_stored:
  assumes "vec_repr E K s v xs" "unat i < length xs"
  shows "cache v i = Some (xs ! unat i) \<or>
    (cache v i = None \<and> reader_get E s (get_index_key (key_prefix v) i) = Some (enc K (xs ! unat i)))"
proof (cases "cache v i")
  case None
  have "cache v (of_nat (unat i)) = None" using None by simp
  then have "reader_get E s (get_index_key (key_prefix v) (of_nat (unat i))) = Some (enc K (xs ! unat i))"
    using assms unfolding vec_repr_def by blast
  with None show ?thesis by simp
next
  case (Some x)
  with assms show ?thesis by (simp add: vec_repr_def)
qed

lemma get_ok:
  assumes "vec_repr E K s v xs"
  shows "vec_get E K s v i = (if unat i < length xs then Inr (xs ! unat i) else Inl AssertFailed)"
  using cached_or_stored [OF assms, of i] codec
  by (auto simp: vec_get_def len_ok [OF assms] res_simps less_of_nat_u64 [OF repr_length [OF assms]])

lemma overwrite_ok:
  assumes repr: "vec_repr E K s v xs" and i: "unat i < length xs"
  shows "case write_op_overwrite K s v i x of (s', v') \<Rightarrow>
    vec_repr E K s' v' (xs[unat i := x]) \<and> (poppable v' (xs[unat i := x]) \<longleftrightarrow> poppable v xs)"
proof -
  let ?v = "process_persist_count v (persist_count_of s)" and ?ys = "xs[unat i := x]"
  let ?ops = "[Write (get_index_key (key_prefix v) i) (enc K x)]"
  note pr = repr_process [OF repr]
  have key: "(of_nat j = i) = (j = unat i)" if "j < length xs" for j
    using that repr_length [OF repr] by (auto simp: unat_of_nat_u64)
  have "vec_repr E K (push_ops s ?ops)
      (?v\<lparr>current_length := current_length v, cache := (cache ?v)(i \<mapsto> x)\<rparr>) ?ys"
  proof (rule repr_update [OF pr])
    show "stored E K (key_prefix ?v) (apply_ops ?ops (view E s)) ?ys"
      using stored_overwrite [OF repr_stored [OF repr] i] by simp
    show "case current_length v of Some l \<Rightarrow> l = of_nat (length ?ys)
      | None \<Rightarrow> length_stored E (key_prefix ?v) (reader_get E s) (length ?ys)"
      using repr by (cases "current_length v") (simp_all add: vec_repr_def)
    show "unat j < length ?ys \<and> y = ?ys ! unat j" if "((cache ?v)(i \<mapsto> x)) j = Some y" for j y
      using that pr i by (auto simp: vec_repr_def nth_list_update unat_u64_eq split: if_splits)
    show "j < length xs \<and> ?ys ! j = xs ! j \<and> cache ?v (of_nat j) = None"
      if "j < length ?ys" "((cache ?v)(i \<mapsto> x)) (of_nat j) = None" for j
      using that key by (auto split: if_splits)
  qed simp
  moreover have "?v\<lparr>current_length := current_length v, cache := (cache ?v)(i \<mapsto> x)\<rparr> = ?v\<lparr>cache := (cache ?v)(i \<mapsto> x)\<rparr>"
    by simp
  ultimately show ?thesis by (simp add: write_op_overwrite_def Let_def poppable_def)
qed

lemma push_ok:
  assumes repr: "vec_repr E K s v xs" and len: "length xs + 1 < 2 ^ 64"
  shows "\<exists>s' v'. vec_push E K s v x = Inr (s', v') \<and> vec_repr E K s' v' (xs @ [x]) \<and> poppable v' (xs @ [x])"
proof -
  let ?v = "process_persist_count v (persist_count_of s)" and ?l = "of_nat (length xs) :: u64"
  let ?ops = "[Write (get_index_key (key_prefix v) ?l) (enc K x),
    Write (get_length_key (key_prefix v)) (enc (u64_codec E) (?l + 1))]"
  let ?v' = "?v\<lparr>current_length := Some (?l + 1), cache := (cache ?v)(?l \<mapsto> x)\<rparr>"
  note pr = repr_process [OF repr]
  have ul: "unat ?l = length xs" using len by (simp add: unat_of_nat_u64)
  have "vec_repr E K (push_ops s ?ops) ?v' (xs @ [x])"
  proof (rule repr_update [OF pr])
    show "stored E K (key_prefix ?v) (apply_ops ?ops (view E s)) (xs @ [x])"
      using stored_push [OF repr_stored [OF repr] len] by simp
    show "unat j < length (xs @ [x]) \<and> y = (xs @ [x]) ! unat j" if "((cache ?v)(?l \<mapsto> x)) j = Some y" for j y
      using that pr ul by (auto simp: vec_repr_def nth_append split: if_splits)
    show "j < length xs \<and> (xs @ [x]) ! j = xs ! j \<and> cache ?v (of_nat j) = None"
      if "j < length (xs @ [x])" "((cache ?v)(?l \<mapsto> x)) (of_nat j) = None" for j
      using that by (auto simp: nth_append less_Suc_eq split: if_splits)
  qed simp_all
  moreover have "vec_push E K s v x = Inr (push_ops s ?ops, ?v')"
    by (simp add: vec_push_def len_ok [OF repr] bind_res_def Let_def)
  ultimately show ?thesis by (simp add: poppable_def)
qed

lemma pop_ok:
  assumes repr: "vec_repr E K s v xs" and ready: "poppable v xs"
  shows "if xs = [] then vec_pop E K s v = Inr (s, v, None)
    else \<exists>s' v'. vec_pop E K s v = Inr (s', v', Some (last xs)) \<and> vec_repr E K s' v' (butlast xs) \<and>
      poppable v' (butlast xs)"
proof (cases "xs = []")
  case True
  then show ?thesis by (simp add: vec_pop_def is_empty_ok [OF repr] bind_res_def)
next
  case False
  let ?v = "process_persist_count v (persist_count_of s)" and ?l = "of_nat (length xs) - 1 :: u64"
  let ?ops = "[Delete (get_index_key (key_prefix v) ?l),
    Write (get_length_key (key_prefix v)) (enc (u64_codec E) ?l)]"
  let ?c = "(cache ?v)(?l := None)"
  let ?v' = "?v\<lparr>current_length := Some ?l, cache := ?c\<rparr>"
  note pr = repr_process [OF repr]
  have l: "?l = of_nat (length xs - 1)" using False by (simp add: Suc_leI of_nat_diff)
  then have ul: "unat ?l = length xs - 1"
    using repr_length [OF repr] by (simp add: unat_of_nat_u64 del: of_nat_diff)
  have cur: "current_length v = Some (of_nat (length xs))"
    using ready repr False by (auto simp: poppable_def vec_repr_def)
  have new: "vec_repr E K (push_ops s ?ops) ?v' (butlast xs)"
  proof (rule repr_update [OF pr])
    show "stored E K (key_prefix ?v) (apply_ops ?ops (view E s)) (butlast xs)"
      using stored_pop [OF repr_stored [OF repr] False] by simp
    show "unat j < length (butlast xs) \<and> y = butlast xs ! unat j" if "?c j = Some y" for j y
    proof -
      have "j \<noteq> ?l" "cache ?v j = Some y" using that by (auto split: if_splits)
      then have "unat j \<noteq> unat ?l" "unat j < length xs \<and> y = xs ! unat j"
        using pr by (simp_all add: unat_u64_eq vec_repr_def)
      moreover from this have "unat j < length xs - 1" using ul by linarith
      ultimately show ?thesis by (simp add: nth_butlast)
    qed
    show "j < length xs \<and> butlast xs ! j = xs ! j \<and> cache ?v (of_nat j) = None"
      if "j < length (butlast xs)" "?c (of_nat j) = None" for j
      using that repr_length [OF repr] unfolding l
      by (auto simp: nth_butlast of_nat_u64_eq simp del: of_nat_diff split: if_splits)
  qed (use l in simp_all)
  have "unat ?l < length xs" using ul False by simp
  from cached_or_stored [OF pr this]
  have "cache ?v ?l = Some (last xs) \<or> (cache ?v ?l = None \<and>
      reader_get E s (get_index_key (key_prefix v) ?l) = Some (enc K (last xs)))"
    by (simp add: ul last_conv_nth False)
  then have "vec_pop E K s v = Inr (push_ops s ?ops, ?v', Some (last xs))"
  proof (elim disjE conjE)
    assume "cache ?v ?l = Some (last xs)"
    then show ?thesis
      using cur False by (simp add: vec_pop_def is_empty_ok [OF repr] bind_res_def Let_def process_length)
  next
    assume none: "cache ?v ?l = None" and st: "reader_get E s (get_index_key (key_prefix v) ?l) = Some (enc K (last xs))"
    then have "?c = cache ?v" by auto
    with none st show ?thesis
      using cur False codec by (simp add: vec_pop_def is_empty_ok [OF repr] bind_res_def Let_def process_length)
  qed
  with new False show ?thesis by (simp add: poppable_def)
qed

end

section \<open>Reading many elements\<close>

lemma foldl_max_less: "foldl max (a :: 'a :: linorder) l < c \<longleftrightarrow> a < c \<and> (\<forall>x\<in>set l. x < c)"
  by (induction l arbitrary: a) auto

lemma decode_all_enc: "codec_ok K \<Longrightarrow> decode_all K (map (\<lambda>x. Some (enc K (f x))) is) = Inr (map f is)"
  by (induction "is") (auto simp: bind_res_def)

lemma expect_all_Some: "expect_all (map Some xs) = Inr xs"
  by (induction xs) (auto simp: bind_res_def)

text \<open>Elements fetched in two groups and sorted by their position come out in the order of the request.\<close>

lemma sort_by_position:
  fixes f :: "'i \<Rightarrow> 'v" and P :: "nat \<times> 'i \<Rightarrow> bool"
  defines "g \<equiv> map_prod id f"
  shows "map snd (sort_key fst (map g (filter P (enumerate 0 is)) @ map g (filter (Not \<circ> P) (enumerate 0 is)))) = map f is"
proof -
  let ?en = "enumerate 0 is" and ?F = "map g (filter P (enumerate 0 is)) @ map g (filter (Not \<circ> P) (enumerate 0 is))"
  have fst_g: "map fst (map g l) = map fst l" for l by (simp add: g_def fst_comp_map_prod)
  have "mset (filter P l) + mset (filter (Not \<circ> P) l) = mset l" for l :: "(nat \<times> 'i) list"
    by (induction l) auto
  then have ms: "mset ?F = mset (map g ?en)" by (simp flip: image_mset_union)
  then have "mset (map fst (sort_key fst ?F)) = mset (map fst (map g ?en))" by (simp only: mset_map mset_sort)
  moreover have "distinct (map fst (map g ?en))" by (simp only: fst_g) simp
  ultimately have "distinct (map fst (sort_key fst ?F))" using mset_eq_imp_distinct_iff by blast
  moreover have "set (sort_key fst ?F) = set (map g ?en)" using ms by (metis set_mset_mset set_sort)
  moreover have "sorted (map fst (map g ?en))" "distinct (map fst (map g ?en))" by (simp_all only: fst_g, simp_all)
  moreover have "inj_on fst (set (sort_key fst ?F) \<union> set (map g ?en))"
    using calculation by (simp add: distinct_map)
  ultimately have "sort_key fst ?F = map g ?en"
    by (intro map_sorted_distinct_set_unique [of fst]) simp_all
  moreover have "map snd (map g l) = map f (map snd l)" for l by (induction l) (auto simp: g_def)
  ultimately show ?thesis by (simp only: map_snd_enumerate)
qed

lemma fill_in_nth:
  assumes "\<forall>(i, x)\<in>set ivs. x = xs ! unat i" "j < length os"
  shows "fill_in os ivs ! j = (if j \<in> (\<lambda>(i, x). unat i) ` set ivs then Some (xs ! j) else os ! j)"
  using assms
  by (induction ivs arbitrary: os) (auto simp: fill_in_def nth_list_update)

lemma fill_in_length [simp]: "length (fill_in os ivs) = length os"
  by (induction ivs arbitrary: os) (auto simp: fill_in_def split: prod.splits)

context vec_laws
begin

lemma get_many_ok:
  assumes repr: "vec_repr E K s v xs"
  shows "vec_get_many E K s v is =
    (if \<forall>i\<in>set is. unat i < length xs then Inr (map (\<lambda>i. xs ! unat i) is) else Inl AssertFailed)"
proof (cases "is = [] \<or> \<not> (\<forall>i\<in>set is. unat i < length xs)")
  case True
  then show ?thesis
    by (cases "is") (auto simp: vec_get_many_def len_ok [OF repr] res_simps foldl_max_less
        less_of_nat_u64 [OF repr_length [OF repr]])
next
  case False
  let ?f = "\<lambda>i. xs ! unat i" and ?P = "\<lambda>(_ :: nat, i). cache v i \<noteq> None"
  let ?g = "map_prod id ?f" and ?en = "enumerate 0 is"
  have bound: "unat i < length xs" if "(p, i) \<in> set ?en" for p i
    using that False in_set_enumerate_eq [of "(p, i)" 0 "is"] by (auto simp: nth_mem)
  have cached: "map (\<lambda>(p, i). (p, the (cache v i))) (filter ?P ?en) = map ?g (filter ?P ?en)"
    using cached_or_stored [OF repr] bound by (fastforce intro!: map_cong)
  have "reader_get_many E s (map (\<lambda>(_, i). get_index_key (key_prefix v) i) (filter (Not \<circ> ?P) ?en)) =
      map (\<lambda>pi. Some (enc K (?f (snd pi)))) (filter (Not \<circ> ?P) ?en)"
    using cached_or_stored [OF repr] bound by (fastforce simp: reader_get_many_def)
  then have fetched: "decode_all K (reader_get_many E s
      (map (\<lambda>(_, i). get_index_key (key_prefix v) i) (filter (Not \<circ> ?P) ?en))) =
      Inr (map (\<lambda>pi. ?f (snd pi)) (filter (Not \<circ> ?P) ?en))"
    by (simp only: decode_all_enc [OF codec])
  have zips: "zip (map fst l) (map (\<lambda>pi. ?f (snd pi)) l) = map ?g l" for l
    by (induction l) auto
  have max_ok: "foldl max (hd is) (tl is) < of_nat (length xs)"
    unfolding foldl_max_less using False
    by (cases "is") (auto simp: less_of_nat_u64 [OF repr_length [OF repr]])
  have "vec_get_many E K s v is = Inr (map snd (sort_key fst
      (map ?g (filter ?P ?en) @ map ?g (filter (Not \<circ> ?P) ?en))))"
    using False by (simp add: vec_get_many_def len_ok [OF repr] res_simps max_ok partition_filter_conv
        cached fetched zips Let_def del: not_None_eq)
  with False show ?thesis by (simp add: sort_by_position)
qed

lemma get_all_ok:
  assumes repr: "vec_repr E K s v xs"
  shows "vec_get_all E K s v = Inr xs"
proof -
  let ?f = "\<lambda>i. xs ! unat i" and ?P = "\<lambda>i. cache v i \<noteq> None"
  let ?is = "map of_nat [0..<length xs] :: u64 list"
  let ?os = "fill_in (replicate (length xs) None) (map (\<lambda>i. (i, ?f i)) (filter ?P ?is))"
  let ?all = "fill_in ?os (map (\<lambda>i. (i, ?f i)) (filter (Not \<circ> ?P) ?is))"
  note len = repr_length [OF repr]
  have bound: "unat i < length xs" if "i \<in> set ?is" for i
    using that len by (auto simp: unat_of_nat_u64)
  have index: "of_nat j \<in> set ?is \<and> unat (of_nat j :: u64) = j" if "j < length xs" for j
    using that len by (auto simp: unat_of_nat_u64)
  have cached: "map (\<lambda>i. (i, the (cache v i))) (filter ?P ?is) = map (\<lambda>i. (i, ?f i)) (filter ?P ?is)"
    using cached_or_stored [OF repr] bound by (fastforce intro!: map_cong)
  have "reader_get_many E s (map (get_index_key (key_prefix v)) (filter (Not \<circ> ?P) ?is)) =
      map (\<lambda>i. Some (enc K (?f i))) (filter (Not \<circ> ?P) ?is)"
    using cached_or_stored [OF repr] bound by (fastforce simp: reader_get_many_def)
  then have fetched: "decode_all K (reader_get_many E s (map (get_index_key (key_prefix v)) (filter (Not \<circ> ?P) ?is))) =
      Inr (map ?f (filter (Not \<circ> ?P) ?is))"
    by (simp only: decode_all_enc [OF codec])
  have zips: "zip l (map ?f l) = map (\<lambda>i. (i, ?f i)) l" for l by (induction l) auto
  have "?all = map Some xs"
  proof (rule nth_equalityI)
    fix j assume "j < length ?all"
    then have j: "j < length xs" by simp
    have "j \<in> unat ` set (filter ?P ?is) \<or> j \<in> unat ` set (filter (Not \<circ> ?P) ?is)"
    proof (cases "?P (of_nat j)")
      case True
      with index [OF j] have "of_nat j \<in> set (filter ?P ?is)" by simp
      then have "unat (of_nat j :: u64) \<in> unat ` set (filter ?P ?is)" by (rule imageI)
      with index [OF j] show ?thesis by simp
    next
      case False
      with index [OF j] have "of_nat j \<in> set (filter (Not \<circ> ?P) ?is)" by simp
      then have "unat (of_nat j :: u64) \<in> unat ` set (filter (Not \<circ> ?P) ?is)" by (rule imageI)
      with index [OF j] show ?thesis by simp
    qed
    with j show "?all ! j = map Some xs ! j"
      by (auto simp: fill_in_nth [where xs = xs] image_image)
  qed simp
  then have "expect_all ?all = Inr xs" by (simp add: expect_all_Some)
  moreover have "filter (Not \<circ> ?P) ?is = [] \<Longrightarrow> ?all = ?os" by (simp add: fill_in_def)
  moreover have "vec_get_all E K s v = (if filter (Not \<circ> ?P) ?is = [] then expect_all ?os else expect_all ?all)"
    unfolding vec_get_all_def len_ok [OF repr] bind_res_def sum.case Let_def partition_filter_conv prod.case
      unat_of_nat_u64 [OF len] cached
    using fetched by (simp add: bind_res_def zips)
  ultimately show ?thesis by (cases "filter (Not \<circ> ?P) ?is = []") (simp_all only: if_True if_False simp_thms)
qed

lemma set_ok:
  assumes repr: "vec_repr E K s v xs"
  shows "if unat i < length xs
    then \<exists>s' v'. vec_set E K s v i x = Inr (s', v') \<and> vec_repr E K s' v' (xs[unat i := x]) \<and>
      (poppable v' (xs[unat i := x]) \<longleftrightarrow> poppable v xs)
    else vec_set E K s v i x = Inl AssertFailed"
  using overwrite_ok [OF repr, of i x]
  by (auto simp: vec_set_def len_ok [OF repr] res_simps less_of_nat_u64 [OF repr_length [OF repr]])

lemma set_many_loop_ok:
  assumes "vec_repr E K s v xs" "\<forall>(i, x)\<in>set kvs. unat i < length xs"
  shows "\<exists>s' v'. set_many_loop K (of_nat (length xs)) (s, v) kvs = Inr (s', v') \<and>
    vec_repr E K s' v' (foldl (\<lambda>xs (i, x). xs[unat i := x]) xs kvs) \<and>
    (poppable v' (foldl (\<lambda>xs (i, x). xs[unat i := x]) xs kvs) \<longleftrightarrow> poppable v xs)"
  using assms
proof (induction kvs arbitrary: s v xs)
  case (Cons kv kvs)
  obtain i x where kv: "kv = (i, x)" by fastforce
  obtain s1 v1 where w: "write_op_overwrite K s v i x = (s1, v1)" by fastforce
  have i: "unat i < length xs" using Cons.prems kv by simp
  have one: "vec_repr E K s1 v1 (xs[unat i := x])" "poppable v1 (xs[unat i := x]) \<longleftrightarrow> poppable v xs"
    using overwrite_ok [OF Cons.prems(1) i, of x] w by simp_all
  have "\<forall>(i, y)\<in>set kvs. unat i < length (xs[unat i := x])" for i using Cons.prems(2) by auto
  with Cons.IH [OF one(1)] one(2) kv w i show ?case
    by (simp add: assert_then_def less_of_nat_u64 [OF repr_length [OF Cons.prems(1)]])
qed simp

lemma set_many_ok:
  assumes "vec_repr E K s v xs" "\<forall>(i, x)\<in>set kvs. unat i < length xs"
  shows "\<exists>s' v'. vec_set_many E K s v kvs = Inr (s', v') \<and>
    vec_repr E K s' v' (foldl (\<lambda>xs (i, x). xs[unat i := x]) xs kvs) \<and>
    (poppable v' (foldl (\<lambda>xs (i, x). xs[unat i := x]) xs kvs) \<longleftrightarrow> poppable v xs)"
  using set_many_loop_ok [OF assms] by (simp add: vec_set_many_def len_ok [OF assms(1)] bind_res_def)

lemma clear_ok:
  assumes "vec_repr E K s v xs" "poppable v xs"
  shows "\<exists>s' v'. vec_clear E K s v = Inr (s', v') \<and> vec_repr E K s' v' [] \<and> poppable v' []"
  using assms
proof (induction xs arbitrary: s v rule: rev_induct)
  case Nil
  then show ?case by (subst vec_clear.simps) (simp add: is_empty_ok)
next
  case (snoc x xs)
  obtain s1 v1 where pop: "vec_pop E K s v = Inr (s1, v1, Some x)" "vec_repr E K s1 v1 xs" "poppable v1 xs"
    using pop_ok [OF snoc.prems] by auto
  show ?case
    using snoc.IH [OF pop(2,3)] pop(1)
    by (subst vec_clear.simps) (simp add: is_empty_ok [OF snoc.prems(1)])
qed

end

section \<open>Persisting, reopening, rolling back\<close>

lemma persist_batch:
  "foldl (\<lambda>batch op. case op of Write k v \<Rightarrow> batch @ [Write k v] | Delete k \<Rightarrow> batch @ [Delete k]) acc ops = acc @ ops"
  by (induction ops arbitrary: acc) (auto split: write_operation.splits)

lemma stored_cong: "stored E K p m xs \<Longrightarrow> (\<And>k. m' (p # k) = m (p # k)) \<Longrightarrow> stored E K p m' xs"
  by (simp add: stored_def length_stored_def get_index_key_def get_length_key_def)

lemma length_stored_cong: "length_stored E p m n \<Longrightarrow> (\<And>k. m' (p # k) = m (p # k)) \<Longrightarrow> length_stored E p m' n"
  by (simp add: length_stored_def get_length_key_def)

text \<open>The writes of other tables do not touch a vector: their keys begin with another prefix.\<close>

lemma repr_foreign:
  assumes "vec_repr E K s v xs" "foreign (key_prefix v) ops"
  shows "vec_repr E K (push_ops s ops) v xs"
proof -
  have "stored E K (key_prefix v) (apply_ops ops (view E s)) xs"
    using repr_stored [OF assms(1)] by (rule stored_cong) (simp add: apply_ops_foreign assms(2))
  with assms show ?thesis by (auto simp: vec_repr_def apply_ops_foreign split: option.splits)
qed

lemma reader_get_db: "reader_get E s = db_get E (storage_db s)"
  by (simp add: reader_get_def fun_eq_iff)

context storage_laws
begin

lemma reader_persist: "reader_get E (persist E s) = view E s"
  by (simp add: persist_def Let_def persist_batch reader_get_db get_batch view_def)

lemma persist_simps [simp]:
  "view E (persist E s) = view E s" "write_ops (pending (persist E s)) = []"
  "persist_count_of (persist E s) = persist_count_of s + 1" "table_count (persist E s) = table_count s"
proof -
  show none: "write_ops (pending (persist E s)) = []" by (simp add: persist_def Let_def)
  show "view E (persist E s) = view E s" by (simp add: view_def none reader_persist)
qed (simp_all add: persist_def Let_def)

end

context vec_laws
begin

lemma persist_ok:
  assumes repr: "vec_repr E K s v xs"
  shows "vec_repr E K (persist E s) v xs" "stored E K (key_prefix v) (reader_get E (persist E s)) xs"
proof -
  have st: "stored E K (key_prefix v) (view E s) xs" using repr by (rule repr_stored)
  then show "stored E K (key_prefix v) (reader_get E (persist E s)) xs" by (simp add: reader_persist)
  show "vec_repr E K (persist E s) v xs"
    using repr st by (auto simp: vec_repr_def reader_persist stored_def split: option.splits)
qed

lemma restore_ok:
  assumes st: "stored E K p (reader_get E s) xs" and no: "foreign p (write_ops (pending s))"
  shows "\<exists>v. vec_restore_or_new E s (vec_new s p) = Inr v \<and> vec_repr E K s v xs \<and> poppable v xs \<and> key_prefix v = p"
proof -
  let ?v = "(vec_new s p)\<lparr>current_length := Some (of_nat (length xs))\<rparr> :: 'v dbt_vec"
  have same: "view E s (p # k) = reader_get E s (p # k)" for k
    by (simp add: view_def apply_ops_foreign [OF no])
  have "vec_repr E K s ?v xs"
    using st stored_cong [OF st same] by (auto simp: vec_repr_def vec_new_def stored_def)
  moreover have "vec_restore_or_new E s (vec_new s p :: 'v dbt_vec) = Inr ?v"
    using st u64_codec_ok by (auto simp: vec_restore_or_new_def vec_new_def stored_def length_stored_def bind_res_def)
  ultimately show ?thesis by (intro exI [of _ ?v]) (simp add: poppable_def vec_new_def)
qed

lemma rollback_ok:
  assumes repr: "vec_repr E K s v xs" and st: "stored E K (key_prefix v) (reader_get E s) ys"
  shows "\<exists>v'. vec_delete_cache E (drop_unpersisted s) v = Inr v' \<and>
    vec_repr E K (drop_unpersisted s) v' ys \<and> poppable v' ys \<and> key_prefix v' = key_prefix v"
proof -
  have same: "reader_get E (drop_unpersisted s) = reader_get E s" "view E (drop_unpersisted s) = reader_get E s"
    by (simp_all add: fun_eq_iff drop_unpersisted_def reader_get_def view_def)
  obtain l where l: "persisted_length E (drop_unpersisted s) v = Inr l"
      "case l of Some m \<Rightarrow> m = of_nat (length ys) | None \<Rightarrow> length ys = 0"
    using persisted_length_ok [of v "drop_unpersisted s" "length ys"] st by (auto simp: same stored_def)
  let ?v = "v\<lparr>cache := Map.empty, current_length := l\<rparr>"
  have "vec_persist_count v \<le> persist_count_of (drop_unpersisted s)"
    using repr by (simp add: vec_repr_def drop_unpersisted_def)
  then have "vec_repr E K (drop_unpersisted s) ?v ys"
    using st l(2) by (cases l) (auto simp: vec_repr_def same stored_def)
  moreover have "poppable ?v ys" using l(2) by (auto simp: poppable_def split: option.splits)
  ultimately show ?thesis using l(1) by (intro exI [of _ ?v]) (simp add: vec_delete_cache_def bind_res_def)
qed

end

section \<open>An instance\<close>

text \<open>A database in memory, with 64-bit integers stored bit by bit.\<close>

definition bits_codec :: "u64 codec" where
  "bits_codec = \<lparr>enc = (\<lambda>w. map (\<lambda>n. of_bool (bit w n)) [0..<64]),
     dec = (\<lambda>b. Some (horner_sum of_bool 2 (map (\<lambda>x. x = 1) b)))\<rparr>"

definition mem_env :: "(bytes \<Rightarrow> bytes option) store_env" where
  "mem_env = \<lparr>db_get = (\<lambda>d. d), db_batch_write = (\<lambda>d ops. apply_ops ops d), u64_codec = bits_codec\<rparr>"

lemma bits_codec_ok: "codec_ok bits_codec"
proof -
  have "horner_sum of_bool 2 (map (\<lambda>x. x = 1) (map (\<lambda>n. of_bool (bit w n) :: u8) [0..<64])) = w" for w :: u64
  proof -
    have "map (\<lambda>x. x = 1) (map (\<lambda>n. of_bool (bit w n) :: u8) [0..<64]) = map (bit w) [0..<64]" by simp
    then show ?thesis by (simp only: horner_sum_bit_eq_take_bit) (simp add: take_bit_word_eq_self)
  qed
  then show ?thesis unfolding codec_ok_def bits_codec_def codec.simps by simp
qed

interpretation mem: vec_laws mem_env bits_codec
  by unfold_locales (simp_all add: mem_env_def bits_codec_ok)

end
