(* ===== verification/Storage_Vec.thy ===== *)
theory Storage_Vec
  imports Storage
begin

text \<open>
  The trait \<^verbatim>\<open>StorageVecBase\<close> (\<^verbatim>\<open>storage_vec/traits.rs\<close>) as an interface: its default methods are
  definitions over the operations that an implementation passes in, its documented contract is the locale
  \<open>storage_vec\<close>, and both implementations fulfil it, the in-memory \<^verbatim>\<open>OrdinaryVec\<close> and the persistent
  \<^verbatim>\<open>DbtVec\<close>. A persistent vector under any sequence of operations, persists, roll-backs and restarts
  behaves like a list with a saved copy.
\<close>

section \<open>Default methods\<close>

fun map_res :: "('a \<Rightarrow> 'b res) \<Rightarrow> 'a list \<Rightarrow> 'b list res" where
  "map_res f [] = Inr []"
| "map_res f (x # xs) = bind_res (f x) (\<lambda>y. bind_res (map_res f xs) (\<lambda>ys. Inr (y # ys)))"

definition trait_get_all ::
  "('s \<Rightarrow> u64 res) \<Rightarrow> ('s \<Rightarrow> u64 list \<Rightarrow> 'v list res) \<Rightarrow> 's \<Rightarrow> 'v list res" where
  "trait_get_all len get_many s = bind_res (len s) (\<lambda>l. get_many s (map of_nat [0..<unat l]))"

definition set_first_n :: "('s \<Rightarrow> (u64 \<times> 'v) list \<Rightarrow> 's res) \<Rightarrow> 's \<Rightarrow> 'v list \<Rightarrow> 's res" where
  "set_first_n set_many s vals = set_many s (zip (map of_nat [0..<length vals]) vals)"

definition set_all ::
  "('s \<Rightarrow> u64 res) \<Rightarrow> ('s \<Rightarrow> (u64 \<times> 'v) list \<Rightarrow> 's res) \<Rightarrow> 's \<Rightarrow> 'v list \<Rightarrow> 's res" where
  "set_all len set_many s vals =
     bind_res (len s) (\<lambda>l. assert_then (of_nat (length vals) = l) (set_first_n set_many s vals))"

text \<open>The streams, read to their end.\<close>

definition stream_many :: "('s \<Rightarrow> u64 \<Rightarrow> 'v res) \<Rightarrow> 's \<Rightarrow> u64 list \<Rightarrow> (u64 \<times> 'v) list res" where
  "stream_many get s indices = map_res (\<lambda>i. bind_res (get s i) (\<lambda>x. Inr (i, x))) indices"

definition stream_many_values :: "('s \<Rightarrow> u64 \<Rightarrow> 'v res) \<Rightarrow> 's \<Rightarrow> u64 list \<Rightarrow> 'v list res" where
  "stream_many_values get s indices = map_res (get s) indices"

definition stream :: "('s \<Rightarrow> u64 res) \<Rightarrow> ('s \<Rightarrow> u64 \<Rightarrow> 'v res) \<Rightarrow> 's \<Rightarrow> (u64 \<times> 'v) list res" where
  "stream len get s = bind_res (len s) (\<lambda>l. stream_many get s (map of_nat [0..<unat l]))"

definition stream_values :: "('s \<Rightarrow> u64 res) \<Rightarrow> ('s \<Rightarrow> u64 \<Rightarrow> 'v res) \<Rightarrow> 's \<Rightarrow> 'v list res" where
  "stream_values len get s = bind_res (len s) (\<lambda>l. stream_many_values get s (map of_nat [0..<unat l]))"

section \<open>The in-memory vector\<close>

type_synonym 'v ordinary_vec = "'v list"

definition ord_get :: "'v ordinary_vec \<Rightarrow> u64 \<Rightarrow> 'v res" where
  "ord_get xs index = (if unat index < length xs then Inr (xs ! unat index) else Inl ExplicitPanic)"

definition ord_get_many :: "'v ordinary_vec \<Rightarrow> u64 list \<Rightarrow> 'v list res" where
  "ord_get_many xs indices = map_res (ord_get xs) indices"

definition ord_get_all :: "'v ordinary_vec \<Rightarrow> 'v list res" where
  "ord_get_all xs = Inr xs"

definition ord_set :: "'v ordinary_vec \<Rightarrow> u64 \<Rightarrow> 'v \<Rightarrow> 'v ordinary_vec res" where
  "ord_set xs index value = (if unat index < length xs then Inr (xs[unat index := value]) else Inl IndexOutOfBounds)"

definition ord_is_empty :: "'v ordinary_vec \<Rightarrow> bool" where
  "ord_is_empty xs \<longleftrightarrow> xs = []"

definition ord_len :: "'v ordinary_vec \<Rightarrow> u64 res" where
  "ord_len xs = Inr (of_nat (length xs))"

fun ord_set_many :: "'v ordinary_vec \<Rightarrow> (u64 \<times> 'v) list \<Rightarrow> 'v ordinary_vec res" where
  "ord_set_many xs [] = Inr xs"
| "ord_set_many xs ((key, val) # rest) = bind_res (ord_set xs key val) (\<lambda>xs. ord_set_many xs rest)"

definition ord_pop :: "'v ordinary_vec \<Rightarrow> ('v ordinary_vec \<times> 'v option) res" where
  "ord_pop xs = Inr (if xs = [] then (xs, None) else (butlast xs, Some (last xs)))"

definition ord_push :: "'v ordinary_vec \<Rightarrow> 'v \<Rightarrow> 'v ordinary_vec res" where
  "ord_push xs value = Inr (xs @ [value])"

definition ord_clear :: "'v ordinary_vec \<Rightarrow> 'v ordinary_vec res" where
  "ord_clear xs = Inr []"

section \<open>The contract\<close>

abbreviation set_each_index :: "'v list \<Rightarrow> (u64 \<times> 'v) list \<Rightarrow> 'v list" where
  "set_each_index xs kvs \<equiv> foldl (\<lambda>xs (i, x). xs[unat i := x]) xs kvs"

locale storage_vec =
  fixes repr :: "'s \<Rightarrow> 'v list \<Rightarrow> bool"
    and len :: "'s \<Rightarrow> u64 res"
    and get :: "'s \<Rightarrow> u64 \<Rightarrow> 'v res"
    and get_many :: "'s \<Rightarrow> u64 list \<Rightarrow> 'v list res"
    and get_all :: "'s \<Rightarrow> 'v list res"
    and set_at :: "'s \<Rightarrow> u64 \<Rightarrow> 'v \<Rightarrow> 's res"
    and set_many :: "'s \<Rightarrow> (u64 \<times> 'v) list \<Rightarrow> 's res"
    and pop :: "'s \<Rightarrow> ('s \<times> 'v option) res"
    and push :: "'s \<Rightarrow> 'v \<Rightarrow> 's res"
    and clear :: "'s \<Rightarrow> 's res"
  assumes repr_bound: "repr s xs \<Longrightarrow> length xs < 2 ^ 64"
    and len_repr: "repr s xs \<Longrightarrow> len s = Inr (of_nat (length xs))"
    and get_repr: "repr s xs \<Longrightarrow> unat i < length xs \<Longrightarrow> get s i = Inr (xs ! unat i)"
    and get_outside: "repr s xs \<Longrightarrow> length xs \<le> unat i \<Longrightarrow> \<exists>e. get s i = Inl e"
    and get_many_repr: "repr s xs \<Longrightarrow> \<forall>i\<in>set is. unat i < length xs \<Longrightarrow>
      get_many s is = Inr (map (\<lambda>i. xs ! unat i) is)"
    and get_all_repr: "repr s xs \<Longrightarrow> get_all s = Inr xs"
    and set_repr: "repr s xs \<Longrightarrow> unat i < length xs \<Longrightarrow>
      \<exists>s'. set_at s i x = Inr s' \<and> repr s' (xs[unat i := x])"
    and set_outside: "repr s xs \<Longrightarrow> length xs \<le> unat i \<Longrightarrow> \<exists>e. set_at s i x = Inl e"
    and set_many_repr: "repr s xs \<Longrightarrow> \<forall>(i, x)\<in>set kvs. unat i < length xs \<Longrightarrow>
      \<exists>s'. set_many s kvs = Inr s' \<and> repr s' (set_each_index xs kvs)"
    and pop_repr: "repr s xs \<Longrightarrow>
      \<exists>s'. pop s = Inr (s', if xs = [] then None else Some (last xs)) \<and> repr s' (butlast xs)"
    and push_repr: "repr s xs \<Longrightarrow> length xs + 1 < 2 ^ 64 \<Longrightarrow> \<exists>s'. push s x = Inr s' \<and> repr s' (xs @ [x])"
    and clear_repr: "repr s xs \<Longrightarrow> \<exists>s'. clear s = Inr s' \<and> repr s' []"

lemma map_res_Inr: "(\<And>x. x \<in> set xs \<Longrightarrow> f x = Inr (g x)) \<Longrightarrow> map_res f xs = Inr (map g xs)"
  by (induction xs) (auto simp: bind_res_def)

lemma nth_of_nat_indices:
  "length xs < 2 ^ 64 \<Longrightarrow> map (\<lambda>i. xs ! unat i) (map of_nat [0..<length xs] :: u64 list) = xs"
  by (auto simp: unat_of_nat_u64 intro!: nth_equalityI)

lemma indices_bound: "n < 2 ^ 64 \<Longrightarrow> i \<in> set (map of_nat [0..<n] :: u64 list) \<Longrightarrow> unat i < n"
  by (auto simp: unat_of_nat_u64)

lemma set_each_index_zip:
  assumes "n + length vals \<le> length xs" "length xs < 2 ^ 64"
  shows "set_each_index xs (zip (map of_nat [n..<n + length vals]) vals) = take n xs @ vals @ drop (n + length vals) xs"
  using assms
proof (induction vals arbitrary: n xs)
  case (Cons v vals)
  have upt: "[n..<n + length (v # vals)] = n # [Suc n..<Suc n + length vals]" by (simp add: upt_conv_Cons del: upt_Suc)
  have u: "unat (of_nat n :: u64) = n" using Cons.prems by (simp add: unat_of_nat_u64)
  have "set_each_index xs (zip (map of_nat [n..<n + length (v # vals)]) (v # vals)) =
      set_each_index (xs[n := v]) (zip (map of_nat [Suc n..<Suc n + length vals]) vals)"
    unfolding upt using u by simp
  also have "\<dots> = take (Suc n) (xs[n := v]) @ vals @ drop (Suc n + length vals) (xs[n := v])"
    using Cons.prems by (intro Cons.IH) simp_all
  also have "take (Suc n) (xs[n := v]) = take n xs @ [v]"
    using Cons.prems by (simp add: take_Suc_conv_app_nth)
  finally show ?case using Cons.prems by simp
qed simp

context storage_vec
begin

lemma set_all_repr:
  assumes "repr s xs" "length vals = length xs"
  shows "\<exists>s'. set_all len set_many s vals = Inr s' \<and> repr s' vals"
proof -
  let ?kvs = "zip (map of_nat [0..<length vals]) vals :: (u64 \<times> 'v) list"
  have "\<forall>(i, x)\<in>set ?kvs. unat i < length xs"
    using indices_bound [OF repr_bound [OF assms(1)]] assms(2) by (auto dest: set_zip_leftD)
  from set_many_repr [OF assms(1) this] obtain s' where "set_many s ?kvs = Inr s'" "repr s' (set_each_index xs ?kvs)"
    by blast
  moreover have "set_each_index xs ?kvs = vals"
    using set_each_index_zip [of 0 vals xs] repr_bound [OF assms(1)] assms(2) by simp
  ultimately show ?thesis
    using assms(2) by (simp add: set_all_def set_first_n_def len_repr [OF assms(1)] res_simps)
qed

lemma set_all_mismatch:
  assumes "repr s xs" "length vals \<noteq> length xs" "length vals < 2 ^ 64"
  shows "set_all len set_many s vals = Inl AssertFailed"
  using assms(2,3) of_nat_u64_eq [OF assms(3) repr_bound [OF assms(1)]]
  by (simp add: set_all_def len_repr [OF assms(1)] res_simps)

lemma stream_repr:
  assumes "repr s xs"
  shows "stream_values len get s = Inr xs" "stream len get s = Inr (zip (map of_nat [0..<length xs]) xs)"
    "trait_get_all len get_many s = Inr xs"
proof -
  let ?is = "map of_nat [0..<length xs] :: u64 list"
  note bound = repr_bound [OF assms]
  have u: "unat (of_nat (length xs) :: u64) = length xs" using bound by (simp add: unat_of_nat_u64)
  have g: "get s i = Inr (xs ! unat i)" if "i \<in> set ?is" for i
    using get_repr [OF assms] indices_bound [OF bound that] by simp
  have "map_res (get s) ?is = Inr xs"
    using map_res_Inr [of ?is "get s" "\<lambda>i. xs ! unat i"] g nth_of_nat_indices [OF bound] by simp
  then show "stream_values len get s = Inr xs"
    by (simp add: stream_values_def stream_many_values_def len_repr [OF assms] bind_res_def u)
  have "map_res (\<lambda>i. bind_res (get s i) (\<lambda>x. Inr (i, x))) ?is = Inr (map (\<lambda>i. (i, xs ! unat i)) ?is)"
    using g by (intro map_res_Inr) (simp add: bind_res_def)
  moreover have "map (\<lambda>i. (i, f i)) l = zip l (map f l)" for f :: "u64 \<Rightarrow> 'v" and l by (induction l) auto
  note this [of "\<lambda>i. xs ! unat i" ?is, unfolded nth_of_nat_indices [OF bound]]
  ultimately show "stream len get s = Inr (zip ?is xs)"
    by (simp only: stream_def stream_many_def len_repr [OF assms] bind_res_def u sum.case)
  show "trait_get_all len get_many s = Inr xs"
    using get_many_repr [OF assms, of ?is] indices_bound [OF bound] nth_of_nat_indices [OF bound]
    by (simp add: trait_get_all_def len_repr [OF assms] bind_res_def u)
qed

end

section \<open>Both implementations\<close>

lemma ord_set_many_all:
  "\<forall>(i, x)\<in>set kvs. unat i < length xs \<Longrightarrow> ord_set_many xs kvs = Inr (set_each_index xs kvs)"
  by (induction xs kvs rule: ord_set_many.induct) (auto simp: ord_set_def bind_res_def)

interpretation ordinary: storage_vec "\<lambda>v xs. v = xs \<and> length xs < 2 ^ 64"
  ord_len ord_get ord_get_many ord_get_all ord_set ord_set_many ord_pop ord_push ord_clear
proof (unfold_locales, goal_cases)
  case (9 s xs kvs)
  have "length (set_each_index ys kvs) = length ys" for ys :: "'a list"
    by (induction kvs arbitrary: ys) auto
  with 9 ord_set_many_all [of kvs xs] show ?case by auto
qed (auto simp: ord_len_def ord_get_def ord_get_many_def ord_get_all_def ord_set_def ord_pop_def ord_push_def
    ord_clear_def map_res_Inr)

text \<open>The persistent vector, with the shared storage as part of its state.\<close>

type_synonym ('db, 'v) dbt_state = "'db rusty_storage \<times> 'v dbt_vec"

definition dbt_repr :: "'db store_env \<Rightarrow> 'v codec \<Rightarrow> ('db, 'v) dbt_state \<Rightarrow> 'v list \<Rightarrow> bool" where
  "dbt_repr E K sv xs \<longleftrightarrow> vec_repr E K (fst sv) (snd sv) xs \<and> poppable (snd sv) xs"

definition dbt_len :: "'db store_env \<Rightarrow> ('db, 'v) dbt_state \<Rightarrow> u64 res" where
  "dbt_len E sv = vec_len E (fst sv) (snd sv)"

definition dbt_get :: "'db store_env \<Rightarrow> 'v codec \<Rightarrow> ('db, 'v) dbt_state \<Rightarrow> u64 \<Rightarrow> 'v res" where
  "dbt_get E K sv i = vec_get E K (fst sv) (snd sv) i"

definition dbt_get_many :: "'db store_env \<Rightarrow> 'v codec \<Rightarrow> ('db, 'v) dbt_state \<Rightarrow> u64 list \<Rightarrow> 'v list res" where
  "dbt_get_many E K sv is = vec_get_many E K (fst sv) (snd sv) is"

definition dbt_get_all :: "'db store_env \<Rightarrow> 'v codec \<Rightarrow> ('db, 'v) dbt_state \<Rightarrow> 'v list res" where
  "dbt_get_all E K sv = vec_get_all E K (fst sv) (snd sv)"

definition dbt_set :: "'db store_env \<Rightarrow> 'v codec \<Rightarrow> ('db, 'v) dbt_state \<Rightarrow> u64 \<Rightarrow> 'v \<Rightarrow> ('db, 'v) dbt_state res" where
  "dbt_set E K sv i x = vec_set E K (fst sv) (snd sv) i x"

definition dbt_set_many ::
  "'db store_env \<Rightarrow> 'v codec \<Rightarrow> ('db, 'v) dbt_state \<Rightarrow> (u64 \<times> 'v) list \<Rightarrow> ('db, 'v) dbt_state res" where
  "dbt_set_many E K sv kvs = vec_set_many E K (fst sv) (snd sv) kvs"

definition dbt_pop ::
  "'db store_env \<Rightarrow> 'v codec \<Rightarrow> ('db, 'v) dbt_state \<Rightarrow> (('db, 'v) dbt_state \<times> 'v option) res" where
  "dbt_pop E K sv = bind_res (vec_pop E K (fst sv) (snd sv)) (\<lambda>(s, v, x). Inr ((s, v), x))"

definition dbt_push :: "'db store_env \<Rightarrow> 'v codec \<Rightarrow> ('db, 'v) dbt_state \<Rightarrow> 'v \<Rightarrow> ('db, 'v) dbt_state res" where
  "dbt_push E K sv x = vec_push E K (fst sv) (snd sv) x"

definition dbt_clear :: "'db store_env \<Rightarrow> 'v codec \<Rightarrow> ('db, 'v) dbt_state \<Rightarrow> ('db, 'v) dbt_state res" where
  "dbt_clear E K sv = vec_clear E K (fst sv) (snd sv)"

lemmas dbt_defs = dbt_repr_def dbt_len_def dbt_get_def dbt_get_many_def dbt_get_all_def dbt_set_def
  dbt_set_many_def dbt_pop_def dbt_push_def dbt_clear_def

lemma length_set_each_index [simp]: "length (set_each_index xs kvs) = length xs"
  by (induction kvs arbitrary: xs) auto

sublocale vec_laws \<subseteq> dbt: storage_vec "dbt_repr E K" "dbt_len E" "dbt_get E K" "dbt_get_many E K"
  "dbt_get_all E K" "dbt_set E K" "dbt_set_many E K" "dbt_pop E K" "dbt_push E K" "dbt_clear E K"
proof (unfold_locales, goal_cases)
  case (7 sv xs i x)
  then show ?case using set_ok [of "fst sv" "snd sv" xs i x] by (auto simp: dbt_defs)
next
  case (8 sv xs i x)
  then show ?case using set_ok [of "fst sv" "snd sv" xs i x] by (auto simp: dbt_defs)
next
  case (9 sv xs kvs)
  then show ?case using set_many_ok [of "fst sv" "snd sv" xs kvs] by (auto simp: dbt_defs)
next
  case (10 sv xs)
  then show ?case
    using pop_ok [of "fst sv" "snd sv" xs] by (cases "xs = []") (auto simp: dbt_defs bind_res_def)
next
  case (11 sv xs x)
  then show ?case using push_ok [of "fst sv" "snd sv" xs x] by (auto simp: dbt_defs)
next
  case (12 sv xs)
  then show ?case using clear_ok [of "fst sv" "snd sv" xs] by (auto simp: dbt_defs)
qed (auto simp: dbt_defs len_ok get_ok get_many_ok get_all_ok dest: repr_length)

section \<open>A persistent vector is a list with a saved copy\<close>

text \<open>The operations of a client, and what it observes. \<open>CRollback\<close> is \<^verbatim>\<open>drop_unpersisted\<close> followed by
  \<^verbatim>\<open>delete_cache\<close>, as \<^verbatim>\<open>RustyArchivalMutatorSet\<close> does; \<open>CReopen\<close> drops all in-memory state and opens
  the database anew.\<close>

datatype 'v vec_cmd =
    CPush 'v | CPop | CSet u64 'v | CSetMany "(u64 \<times> 'v) list" | CGet u64 | CGetMany "u64 list" | CGetAll | CLen
  | CClear | CPersist | CRollback | CReopen

datatype 'v vec_out = ODone | OValue 'v | OOption "'v option" | OList "'v list" | OLen u64

fun step_dbt ::
  "'db store_env \<Rightarrow> 'v codec \<Rightarrow> 'v vec_cmd \<Rightarrow> ('db, 'v) dbt_state \<Rightarrow> (('db, 'v) dbt_state \<times> 'v vec_out) res" where
  "step_dbt E K (CPush x) sv = bind_res (dbt_push E K sv x) (\<lambda>sv. Inr (sv, ODone))"
| "step_dbt E K CPop sv = bind_res (dbt_pop E K sv) (\<lambda>(sv, x). Inr (sv, OOption x))"
| "step_dbt E K (CSet i x) sv = bind_res (dbt_set E K sv i x) (\<lambda>sv. Inr (sv, ODone))"
| "step_dbt E K (CSetMany kvs) sv = bind_res (dbt_set_many E K sv kvs) (\<lambda>sv. Inr (sv, ODone))"
| "step_dbt E K (CGet i) sv = bind_res (dbt_get E K sv i) (\<lambda>x. Inr (sv, OValue x))"
| "step_dbt E K (CGetMany is) sv = bind_res (dbt_get_many E K sv is) (\<lambda>xs. Inr (sv, OList xs))"
| "step_dbt E K CGetAll sv = bind_res (dbt_get_all E K sv) (\<lambda>xs. Inr (sv, OList xs))"
| "step_dbt E K CLen sv = bind_res (dbt_len E sv) (\<lambda>l. Inr (sv, OLen l))"
| "step_dbt E K CClear sv = bind_res (dbt_clear E K sv) (\<lambda>sv. Inr (sv, ODone))"
| "step_dbt E K CPersist sv = Inr ((persist E (fst sv), snd sv), ODone)"
| "step_dbt E K CRollback sv =
     (let s = drop_unpersisted (fst sv) in bind_res (vec_delete_cache E s (snd sv)) (\<lambda>v. Inr ((s, v), ODone)))"
| "step_dbt E K CReopen sv = bind_res (new_vec E (storage_new (storage_db (fst sv)))) (\<lambda>sv. Inr (sv, ODone))"

text \<open>The reference: the current list and the saved list.\<close>

fun step_list :: "'v vec_cmd \<Rightarrow> 'v list \<times> 'v list \<Rightarrow> (('v list \<times> 'v list) \<times> 'v vec_out) res" where
  "step_list (CPush x) (xs, saved) = Inr ((xs @ [x], saved), ODone)"
| "step_list CPop (xs, saved) = Inr ((butlast xs, saved), OOption (if xs = [] then None else Some (last xs)))"
| "step_list (CSet i x) (xs, saved) =
     (if unat i < length xs then Inr ((xs[unat i := x], saved), ODone) else Inl AssertFailed)"
| "step_list (CSetMany kvs) (xs, saved) =
     (if \<forall>(i, x)\<in>set kvs. unat i < length xs then Inr ((set_each_index xs kvs, saved), ODone) else Inl AssertFailed)"
| "step_list (CGet i) (xs, saved) = (if unat i < length xs then Inr ((xs, saved), OValue (xs ! unat i)) else Inl AssertFailed)"
| "step_list (CGetMany is) (xs, saved) =
     (if \<forall>i\<in>set is. unat i < length xs then Inr ((xs, saved), OList (map (\<lambda>i. xs ! unat i) is)) else Inl AssertFailed)"
| "step_list CGetAll (xs, saved) = Inr ((xs, saved), OList xs)"
| "step_list CLen (xs, saved) = Inr ((xs, saved), OLen (of_nat (length xs)))"
| "step_list CClear (xs, saved) = Inr (([], saved), ODone)"
| "step_list CPersist (xs, saved) = Inr ((xs, xs), ODone)"
| "step_list CRollback (xs, saved) = Inr ((saved, saved), ODone)"
| "step_list CReopen (xs, saved) = Inr ((saved, saved), ODone)"

text \<open>Running a sequence: the outputs, and the panic that stopped it.\<close>

fun run :: "('c \<Rightarrow> 's \<Rightarrow> ('s \<times> 'o) res) \<Rightarrow> 's \<Rightarrow> 'c list \<Rightarrow> 'o list \<times> panic option" where
  "run step s [] = ([], None)"
| "run step s (c # cs) =
     (case step c s of Inl e \<Rightarrow> ([], Some e) | Inr (s', out) \<Rightarrow> (let (outs, e) = run step s' cs in (out # outs, e)))"

text \<open>The operations on the vector leave the database and the prefix alone.\<close>

lemma overwrite_keeps:
  "write_op_overwrite K s v i x = (s', v') \<Longrightarrow> storage_db s' = storage_db s \<and> key_prefix v' = key_prefix v"
  by (auto simp: write_op_overwrite_def Let_def)

lemma push_keeps: "vec_push E K s v x = Inr (s', v') \<Longrightarrow> storage_db s' = storage_db s \<and> key_prefix v' = key_prefix v"
  by (auto simp: vec_push_def Let_def bind_res_def split: sum.splits)

lemma pop_keeps: "vec_pop E K s v = Inr (s', v', x) \<Longrightarrow> storage_db s' = storage_db s \<and> key_prefix v' = key_prefix v"
  by (auto simp: vec_pop_def Let_def bind_res_def split: sum.splits if_splits option.splits)

lemma set_keeps: "vec_set E K s v i x = Inr (s', v') \<Longrightarrow> storage_db s' = storage_db s \<and> key_prefix v' = key_prefix v"
  by (auto simp: vec_set_def res_simps split: sum.splits if_splits dest: overwrite_keeps)

lemma set_many_loop_keeps:
  "set_many_loop K l (s, v) kvs = Inr (s', v') \<Longrightarrow> storage_db s' = storage_db s \<and> key_prefix v' = key_prefix v"
proof (induction kvs arbitrary: s v)
  case (Cons kv kvs)
  obtain i x where "kv = (i, x)" by fastforce
  with Cons show ?case
    by (cases "write_op_overwrite K s v i x") (auto simp: assert_then_def split: if_splits dest: overwrite_keeps)
qed simp

lemma set_many_keeps:
  "vec_set_many E K s v kvs = Inr (s', v') \<Longrightarrow> storage_db s' = storage_db s \<and> key_prefix v' = key_prefix v"
  by (auto simp: vec_set_many_def bind_res_def split: sum.splits dest: set_many_loop_keeps)

lemma clear_keeps:
  "vec_clear E K s v = Inr (s', v') \<Longrightarrow> storage_db s' = storage_db s \<and> key_prefix v' = key_prefix v"
proof (induction E K s v rule: vec_clear.induct)
  case (1 E K s v)
  show ?case
  proof (cases "vec_is_empty E s v = Inr False")
    case True
    with 1(2) obtain s1 v1 x where pop: "vec_pop E K s v = Inr (s1, v1, x)" "vec_clear E K s1 v1 = Inr (s', v')"
      by (subst (asm) vec_clear.simps) (auto split: sum.splits)
    with 1(1) [OF True refl pop(1) refl refl] pop_keeps [OF pop(1)] show ?thesis by simp
  next
    case False
    with 1(2) show ?thesis by (subst (asm) vec_clear.simps) (auto split: sum.splits bool.splits)
  qed
qed

context vec_laws
begin

definition saved_as :: "('db, 'v) dbt_state \<Rightarrow> 'v list \<Rightarrow> bool" where
  "saved_as sv ys \<longleftrightarrow> stored E K 0 (reader_get E (fst sv)) ys \<and> key_prefix (snd sv) = 0"

lemma saved_as_keeps:
  "saved_as sv ys \<Longrightarrow> storage_db (fst sv') = storage_db (fst sv) \<Longrightarrow> key_prefix (snd sv') = key_prefix (snd sv) \<Longrightarrow> saved_as sv' ys"
  by (simp add: saved_as_def reader_get_db)

lemma set_many_outside:
  assumes "vec_repr E K s v xs" "\<not> (\<forall>(i, x)\<in>set kvs. unat i < length xs)"
  shows "vec_set_many E K s v kvs = Inl AssertFailed"
proof -
  have lt: "i < of_nat (length xs) \<longleftrightarrow> unat i < length xs" for i :: u64
    by (rule less_of_nat_u64 [OF repr_length [OF assms(1)]])
  have "set_many_loop K (of_nat (length xs)) sv kvs = Inl AssertFailed" for sv :: "('db, 'v) dbt_state"
    using assms(2)
  proof (induction kvs arbitrary: sv)
    case (Cons kv kvs)
    then show ?case by (cases sv, cases kv) (auto simp: assert_then_def lt)
  qed simp
  then show ?thesis by (simp add: vec_set_many_def len_ok [OF assms(1)] bind_res_def)
qed

lemma open_ok:
  assumes "stored E K 0 (db_get E d) ys"
  shows "\<exists>sv. new_vec E (storage_new d) = Inr sv \<and> dbt_repr E K sv ys \<and> saved_as sv ys"
proof -
  let ?s = "(storage_new d)\<lparr>table_count := 1\<rparr>"
  have "foreign 0 (write_ops (pending ?s))" by (simp add: foreign_def storage_new_def)
  moreover have "stored E K 0 (reader_get E ?s) ys" using assms by (simp add: reader_get_db storage_new_def)
  ultimately obtain v where v: "vec_restore_or_new E ?s (vec_new ?s 0) = Inr v" "vec_repr E K ?s v ys"
      "poppable v ys" "key_prefix v = 0"
    using restore_ok by blast
  have "new_vec E (storage_new d) = Inr (?s, v)"
    using v(1) by (simp add: new_vec_def storage_new_def bind_res_def Let_def)
  moreover have "saved_as (?s, v) ys" using assms v(4) by (simp add: saved_as_def reader_get_db storage_new_def)
  ultimately show ?thesis using v(2,3) by (simp add: dbt_repr_def)
qed

end

context vec_laws
begin

lemma step_simulates:
  assumes repr: "dbt_repr E K sv xs" and saved: "saved_as sv ys" and len: "length xs + 1 < 2 ^ 64"
  shows "case step_list c (xs, ys) of
      Inl e \<Rightarrow> step_dbt E K c sv = Inl e
    | Inr ((xs', ys'), out) \<Rightarrow> \<exists>sv'. step_dbt E K c sv = Inr (sv', out) \<and> dbt_repr E K sv' xs' \<and> saved_as sv' ys'"
proof -
  have vr: "vec_repr E K (fst sv) (snd sv) xs" and pr: "poppable (snd sv) xs" using repr by (simp_all add: dbt_repr_def)
  have st: "stored E K (key_prefix (snd sv)) (reader_get E (fst sv)) ys" using saved by (simp add: saved_as_def)
  have kept: "saved_as (s', v') ys"
    if "storage_db s' = storage_db (fst sv) \<and> key_prefix v' = key_prefix (snd sv)" for s' v'
    using that saved_as_keeps [OF saved, of "(s', v')"] by simp
  show ?thesis
  proof (cases c)
    case (CPush x)
    from dbt.push_repr [OF repr len, of x] obtain s' v' where
      push: "vec_push E K (fst sv) (snd sv) x = Inr (s', v')" "dbt_repr E K (s', v') (xs @ [x])"
      by (auto simp: dbt_push_def)
    with CPush push_keeps [OF push(1), THEN kept] show ?thesis by (simp add: dbt_push_def bind_res_def)
  next
    case CPop
    from dbt.pop_repr [OF repr] obtain s' v' x where
      "vec_pop E K (fst sv) (snd sv) = Inr (s', v', x)" "x = (if xs = [] then None else Some (last xs))"
      "dbt_repr E K (s', v') (butlast xs)"
      by (auto simp: dbt_pop_def bind_res_def split: sum.splits)
    with CPop kept [of s' v'] pop_keeps [of E K "fst sv" "snd sv" s' v'] show ?thesis
      by (simp add: dbt_pop_def bind_res_def)
  next
    case (CSet i x)
    with set_ok [OF vr, of i x] pr show ?thesis
      using set_keeps [where s = "fst sv" and v = "snd sv", THEN kept] by (fastforce simp: dbt_set_def dbt_repr_def bind_res_def)
  next
    case (CSetMany kvs)
    show ?thesis
    proof (cases "\<forall>(i, x)\<in>set kvs. unat i < length xs")
      case True
      with set_many_ok [OF vr, of kvs] pr obtain s' v' where many: "vec_set_many E K (fst sv) (snd sv) kvs = Inr (s', v')"
          "vec_repr E K s' v' (set_each_index xs kvs)" "poppable v' (set_each_index xs kvs)"
        by auto
      with CSetMany True set_many_keeps [OF many(1), THEN kept] show ?thesis
        by (simp add: dbt_set_many_def dbt_repr_def bind_res_def)
    next
      case False
      with CSetMany set_many_outside [OF vr, of kvs] show ?thesis by (simp add: dbt_set_many_def bind_res_def)
    qed
  next
    case (CGet i)
    with get_ok [OF vr, of i] repr saved show ?thesis by (auto simp: dbt_get_def bind_res_def)
  next
    case (CGetMany "is")
    with get_many_ok [OF vr, of "is"] repr saved show ?thesis by (auto simp: dbt_get_many_def bind_res_def)
  next
    case CGetAll
    with get_all_ok [OF vr] repr saved show ?thesis by (auto simp: dbt_get_all_def bind_res_def)
  next
    case CLen
    with len_ok [OF vr] repr saved show ?thesis by (auto simp: dbt_len_def bind_res_def)
  next
    case CClear
    from clear_ok [OF vr pr] obtain s' v' where clear: "vec_clear E K (fst sv) (snd sv) = Inr (s', v')"
        "vec_repr E K s' v' []" "poppable v' []"
      by blast
    with CClear clear_keeps [OF clear(1), THEN kept] show ?thesis
      by (simp add: dbt_clear_def dbt_repr_def bind_res_def)
  next
    case CPersist
    with persist_ok [OF vr] pr saved show ?thesis by (auto simp: dbt_repr_def saved_as_def)
  next
    case CRollback
    from rollback_ok [OF vr st] obtain v' where v': "vec_delete_cache E (drop_unpersisted (fst sv)) (snd sv) = Inr v'"
        "vec_repr E K (drop_unpersisted (fst sv)) v' ys" "poppable v' ys" "key_prefix v' = key_prefix (snd sv)"
      by blast
    have "saved_as (drop_unpersisted (fst sv), v') ys"
      using v'(4) by (intro kept) (simp add: drop_unpersisted_def)
    with CRollback v' show ?thesis by (auto simp: dbt_repr_def bind_res_def Let_def)
  next
    case CReopen
    from saved have "stored E K 0 (db_get E (storage_db (fst sv))) ys" by (simp add: saved_as_def reader_get_db)
    from open_ok [OF this] CReopen show ?thesis by (auto simp: bind_res_def)
  qed
qed

lemma step_list_length:
  "step_list c (xs, ys) = Inr ((xs', ys'), out) \<Longrightarrow> length xs' \<le> max (length xs) (length ys) + 1 \<and> length ys' \<le> max (length xs) (length ys)"
  by (cases c) (auto split: if_splits)

lemma run_simulates:
  assumes "dbt_repr E K sv xs" "saved_as sv ys" "max (length xs) (length ys) + length cs < 2 ^ 64"
  shows "run (step_dbt E K) sv cs = run step_list (xs, ys) cs"
  using assms
proof (induction cs arbitrary: sv xs ys)
  case (Cons c cs)
  have len: "length xs + 1 < 2 ^ 64" using Cons.prems(3) by simp
  show ?case
  proof (cases "step_list c (xs, ys)")
    case (Inl e)
    with step_simulates [OF Cons.prems(1,2) len, of c] show ?thesis by simp
  next
    case (Inr r)
    obtain xs' ys' out where r: "r = ((xs', ys'), out)" by (metis surj_pair)
    obtain sv' where sv': "step_dbt E K c sv = Inr (sv', out)" "dbt_repr E K sv' xs'" "saved_as sv' ys'"
      using step_simulates [OF Cons.prems(1,2) len, of c] Inr r by auto
    have "max (length xs') (length ys') + length cs < 2 ^ 64"
    proof -
      have "length xs' \<le> max (length xs) (length ys) + 1" "length ys' \<le> max (length xs) (length ys)"
        using step_list_length [of c xs ys xs' ys' out] Inr r by simp_all
      moreover have "max (length xs) (length ys) + (length cs + 1) < 2 ^ 64" using Cons.prems(3) by simp
      ultimately show ?thesis by linarith
    qed
    from Cons.IH [OF sv'(2,3) this] sv'(1) Inr r show ?thesis by simp
  qed
qed simp

end

text \<open>(C37) A persistent vector, opened on an empty database and driven by any sequence of operations,
  persists, roll-backs and restarts, gives the outputs of a list that keeps a saved copy, panics included.
  (The sequence is shorter than \<open>2 ^ 64\<close>, so that the length fits its 64 bits.)\<close>

theorem dbt_vec_refines_list:
  assumes "storage_laws E" "codec_ok K" "\<And>k. db_get E d k = None" "length cs < 2 ^ 64"
  shows "\<exists>sv. new_vec E (storage_new d) = Inr sv \<and> run (step_dbt E K) sv cs = run step_list ([], []) cs"
proof -
  have laws: "vec_laws E K" using assms(1,2) by (intro vec_laws.intro vec_laws_axioms.intro)
  have "stored E K 0 (db_get E d) []" using assms(3) by (simp add: stored_def length_stored_def)
  then obtain sv where sv: "new_vec E (storage_new d) = Inr sv" "dbt_repr E K sv []" "vec_laws.saved_as E K sv []"
    using vec_laws.open_ok [OF laws] by blast
  with vec_laws.run_simulates [OF laws sv(2,3), of cs] assms(4) show ?thesis by simp
qed

theorem dbt_vec_refines_list_witness:
  "\<exists>sv. new_vec mem_env (storage_new Map.empty) = Inr sv \<and>
     run (step_dbt mem_env bits_codec) sv
       [CPush 5, CPersist, CPush 6, CRollback, CGetAll, CReopen, CGet 0, CGet 1] =
     ([ODone, ODone, ODone, ODone, OList [5], ODone, OValue 5], Some AssertFailed)"
proof -
  let ?cs = "[CPush 5, CPersist, CPush 6, CRollback, CGetAll, CReopen, CGet 0, CGet 1] :: u64 vec_cmd list"
  have "run step_list ([], []) ?cs = ([ODone, ODone, ODone, ODone, OList [5], ODone, OValue 5], Some AssertFailed)"
    by simp
  moreover have "db_get mem_env Map.empty k = None" for k by (simp add: mem_env_def)
  ultimately show ?thesis
    using dbt_vec_refines_list [OF mem.storage_laws_axioms bits_codec_ok, of Map.empty ?cs] by simp
qed

text \<open>Dropping the pending writes alone does not roll a vector back: its cache and its length keep the
  dropped elements. After the next push and persist the database holds a length with a missing element, and
  reading that element after a restart panics.\<close>

theorem drop_unpersisted_leaves_hole:
  "bind_res (new_vec mem_env (storage_new Map.empty)) (\<lambda>(s, v).
   bind_res (vec_push mem_env bits_codec s v 7) (\<lambda>(s, v).
   bind_res (vec_push mem_env bits_codec (drop_unpersisted s) v 8) (\<lambda>(s, v).
   bind_res (new_vec mem_env (storage_new (storage_db (persist mem_env s)))) (\<lambda>(s, v).
     Inr (vec_len mem_env s v, vec_get mem_env bits_codec s v 0, vec_get mem_env bits_codec s v 1))))) =
   Inr (Inr 2, Inl ExplicitPanic, Inr 8)"
  by code_simp

end
