(* ===== verification/Storage_Map.thy ===== *)
theory Storage_Map
  imports Storage_Vec
begin

text \<open>
  \<^verbatim>\<open>dbtmap_private.rs\<close>, \<^verbatim>\<open>dbtsingleton_private.rs\<close> and the schema that hands out key prefixes: the other
  two kinds of tables. A map keeps its values under their serialized keys and the keys, in insertion order,
  in a vector of its own; a cached \<^verbatim>\<open>None\<close> marks a deleted entry.
\<close>

section \<open>Singletons\<close>

record 'v dbt_singleton =
  single_key :: u8
  current_value :: 'v
  old_value :: 'v

definition singleton_get :: "'v dbt_singleton \<Rightarrow> 'v" where
  "singleton_get sg = current_value sg"

definition singleton_set ::
  "'v codec \<Rightarrow> 'db rusty_storage \<Rightarrow> 'v dbt_singleton \<Rightarrow> 'v \<Rightarrow> 'db rusty_storage \<times> 'v dbt_singleton" where
  "singleton_set K s sg x = (push_ops s [Write [single_key sg] (enc K x)], sg\<lparr>current_value := x\<rparr>)"

definition singleton_restore_or_new ::
  "'db store_env \<Rightarrow> 'v codec \<Rightarrow> 'v \<Rightarrow> 'db rusty_storage \<Rightarrow> 'v dbt_singleton \<Rightarrow> 'v dbt_singleton res" where
  "singleton_restore_or_new E K dflt s sg =
     (case reader_get E s [single_key sg] of
        Some b \<Rightarrow> bind_res (into_any K b) (\<lambda>x. Inr (sg\<lparr>current_value := x\<rparr>))
      | None \<Rightarrow> Inr (sg\<lparr>current_value := dflt\<rparr>))"

definition new_singleton ::
  "'db store_env \<Rightarrow> 'v codec \<Rightarrow> 'v \<Rightarrow> 'db rusty_storage \<Rightarrow> ('db rusty_storage \<times> 'v dbt_singleton) res" where
  "new_singleton E K dflt s =
     (let key = table_count s;
          s = s\<lparr>table_count := table_count s + 1\<rparr>
      in bind_res (singleton_restore_or_new E K dflt s
             \<lparr>single_key = key, current_value = dflt, old_value = dflt\<rparr>)
           (\<lambda>sg. Inr (s, sg)))"

section \<open>Maps\<close>

record ('k, 'v) dbt_map =
  prefix_map_key :: u8
  map_cache :: "'k \<Rightarrow> 'v option option"
  keys_by_index :: "'k dbt_vec"
  map_persist_count :: nat

definition map_new :: "'db rusty_storage \<Rightarrow> u8 \<Rightarrow> u8 \<Rightarrow> ('k, 'v) dbt_map" where
  "map_new s prefix_map_keys prefix_keys_by_index =
     \<lparr>prefix_map_key = prefix_map_keys, map_cache = Map.empty,
      keys_by_index = vec_new s prefix_keys_by_index, map_persist_count = persist_count_of s\<rparr>"

text \<open>\<^verbatim>\<open>restore_or_new\<close> of a map does nothing.\<close>

definition new_map :: "'db rusty_storage \<Rightarrow> 'db rusty_storage \<times> ('k, 'v) dbt_map" where
  "new_map s =
     (let prefix = table_count s;
          s = s\<lparr>table_count := table_count s + 2\<rparr>
      in (s, map_new s prefix (prefix + 1)))"

definition map_process_persist_count :: "('k, 'v) dbt_map \<Rightarrow> nat \<Rightarrow> ('k, 'v) dbt_map" where
  "map_process_persist_count m n =
     (let m = (if map_persist_count m < n then m\<lparr>map_cache := Map.empty\<rparr> else m)
      in m\<lparr>map_persist_count := n\<rparr>)"

definition map_key_rusty_key :: "'k codec \<Rightarrow> ('k, 'v) dbt_map \<Rightarrow> 'k \<Rightarrow> bytes" where
  "map_key_rusty_key KK m key = [prefix_map_key m] @ enc KK key"

definition map_contains_key ::
  "'db store_env \<Rightarrow> 'k codec \<Rightarrow> 'db rusty_storage \<Rightarrow> ('k, 'v) dbt_map \<Rightarrow> 'k \<Rightarrow> bool" where
  "map_contains_key E KK s m key =
     (case map_cache m key of
        Some cache_entry \<Rightarrow> cache_entry \<noteq> None
      | None \<Rightarrow> reader_get E s (map_key_rusty_key KK m key) \<noteq> None)"

definition map_get ::
  "'db store_env \<Rightarrow> 'k codec \<Rightarrow> 'v codec \<Rightarrow> 'db rusty_storage \<Rightarrow> ('k, 'v) dbt_map \<Rightarrow> 'k \<Rightarrow> 'v option res" where
  "map_get E KK KV s m key =
     (case map_cache m key of
        Some v \<Rightarrow> Inr v
      | None \<Rightarrow> (case reader_get E s (map_key_rusty_key KK m key) of
            None \<Rightarrow> Inr None
          | Some b \<Rightarrow> bind_res (into_any KV b) (\<lambda>v. Inr (Some v))))"

definition map_insert ::
  "'db store_env \<Rightarrow> 'k codec \<Rightarrow> 'v codec \<Rightarrow> 'db rusty_storage \<Rightarrow> ('k, 'v) dbt_map \<Rightarrow> 'k \<Rightarrow> 'v
     \<Rightarrow> ('db rusty_storage \<times> ('k, 'v) dbt_map \<times> 'v option) res" where
  "map_insert E KK KV s m key value =
     bind_res (map_get E KK KV s m key) (\<lambda>previous_val.
     bind_res (if previous_val = None
               then bind_res (vec_push E KK s (keys_by_index m) key) (\<lambda>(s, ks). Inr (s, m\<lparr>keys_by_index := ks\<rparr>))
               else Inr (s, m)) (\<lambda>(s, m).
       let s = push_ops s [Write (map_key_rusty_key KK m key) (enc KV value)];
           m = map_process_persist_count m (persist_count_of s)
       in Inr (s, m\<lparr>map_cache := (map_cache m)(key \<mapsto> Some value)\<rparr>, previous_val)))"

definition map_len :: "'db store_env \<Rightarrow> 'db rusty_storage \<Rightarrow> ('k, 'v) dbt_map \<Rightarrow> u64 res" where
  "map_len E s m = vec_len E s (keys_by_index m)"

definition map_is_empty :: "'db store_env \<Rightarrow> 'db rusty_storage \<Rightarrow> ('k, 'v) dbt_map \<Rightarrow> bool res" where
  "map_is_empty E s m = bind_res (map_len E s m) (\<lambda>l. Inr (l = 0))"

definition map_all_keys :: "'db store_env \<Rightarrow> 'k codec \<Rightarrow> 'db rusty_storage \<Rightarrow> ('k, 'v) dbt_map \<Rightarrow> 'k list res" where
  "map_all_keys E KK s m = vec_get_all E KK s (keys_by_index m)"

definition map_clear ::
  "'db store_env \<Rightarrow> 'k codec \<Rightarrow> 'db rusty_storage \<Rightarrow> ('k, 'v) dbt_map
     \<Rightarrow> ('db rusty_storage \<times> ('k, 'v) dbt_map) res" where
  "map_clear E KK s m =
     bind_res (vec_get_all E KK s (keys_by_index m)) (\<lambda>all_keys.
     bind_res (vec_clear E KK s (keys_by_index m)) (\<lambda>(s, ks).
       let m = m\<lparr>keys_by_index := ks\<rparr>;
           s = push_ops s (map (\<lambda>k. Delete (map_key_rusty_key KK m k)) all_keys);
           m = map_process_persist_count m (persist_count_of s)
       in Inr (s, m\<lparr>map_cache := foldl (\<lambda>c k. c(k \<mapsto> None)) (map_cache m) all_keys\<rparr>)))"

section \<open>The finite map a table stands for\<close>

text \<open>\<open>f\<close> is the map, \<open>ks\<close> its keys in the order of their insertion.\<close>

definition map_repr ::
  "'db store_env \<Rightarrow> 'k codec \<Rightarrow> 'v codec \<Rightarrow> 'db rusty_storage \<Rightarrow> ('k, 'v) dbt_map \<Rightarrow> ('k \<Rightarrow> 'v option) \<Rightarrow> 'k list \<Rightarrow> bool" where
  "map_repr E KK KV s m f ks \<longleftrightarrow>
     vec_repr E KK s (keys_by_index m) ks \<and> distinct ks \<and> set ks = dom f \<and>
     key_prefix (keys_by_index m) \<noteq> prefix_map_key m \<and>
     (\<forall>k. view E s (map_key_rusty_key KK m k) = map_option (enc KV) (f k)) \<and>
     (\<forall>k e. map_cache m k = Some e \<longrightarrow> e = f k) \<and>
     (\<forall>k. map_cache m k = None \<longrightarrow> reader_get E s (map_key_rusty_key KK m k) = map_option (enc KV) (f k)) \<and>
     map_persist_count m \<le> persist_count_of s \<and>
     (map_persist_count m < persist_count_of s \<longrightarrow>
        (\<forall>k. reader_get E s (prefix_map_key m # k) = view E s (prefix_map_key m # k)))"

lemma codec_inj: "codec_ok K \<Longrightarrow> enc K x = enc K y \<longleftrightarrow> x = y"
  by (metis codec_ok_def option.inject)

lemma map_key_inj: "codec_ok KK \<Longrightarrow> map_key_rusty_key KK m k = map_key_rusty_key KK m k' \<longleftrightarrow> k = k'"
  by (simp add: map_key_rusty_key_def codec_inj)

lemma map_process_simps [simp]:
  "prefix_map_key (map_process_persist_count m n) = prefix_map_key m"
  "keys_by_index (map_process_persist_count m n) = keys_by_index m"
  "map_persist_count (map_process_persist_count m n) = n"
  "map_key_rusty_key KK (map_process_persist_count m n) = map_key_rusty_key KK m"
  by (simp_all add: map_process_persist_count_def Let_def map_key_rusty_key_def fun_eq_iff)

lemma map_key_update [simp]:
  "map_key_rusty_key KK (m\<lparr>map_cache := c\<rparr>) = map_key_rusty_key KK m"
  "map_key_rusty_key KK (m\<lparr>keys_by_index := ks\<rparr>) = map_key_rusty_key KK m"
  by (simp_all add: map_key_rusty_key_def fun_eq_iff)

text \<open>The operations of a vector write below its own prefix only.\<close>

definition own_writes :: "u8 \<Rightarrow> 'db rusty_storage \<Rightarrow> 'db rusty_storage \<Rightarrow> bool" where
  "own_writes p s s' \<longleftrightarrow> (\<exists>ops. s' = push_ops s ops \<and> (\<forall>op\<in>set ops. \<exists>k. op_key op = p # k))"

lemma push_ops_trans: "push_ops (push_ops s a) b = push_ops s (a @ b)"
  by (simp add: push_ops_def)

lemma own_writes_refl: "own_writes p s s"
  by (auto simp: own_writes_def push_ops_def intro!: exI [of _ "[]"])

lemma own_writes_trans: "own_writes p s s1 \<Longrightarrow> own_writes p s1 s2 \<Longrightarrow> own_writes p s s2"
  unfolding own_writes_def by (metis Un_iff push_ops_trans set_append)

lemma own_writes_foreign: "own_writes p s s' \<Longrightarrow> q \<noteq> p \<Longrightarrow> \<exists>ops. s' = push_ops s ops \<and> foreign q ops"
  by (fastforce simp: own_writes_def foreign_def)

lemma own_writes_push_ops: "\<forall>op\<in>set ops. \<exists>k. op_key op = p # k \<Longrightarrow> own_writes p s (push_ops s ops)"
  by (auto simp: own_writes_def)

lemma push_own_writes: "vec_push E K s v x = Inr (s', v') \<Longrightarrow> own_writes (key_prefix v) s s'"
  by (auto simp: vec_push_def Let_def bind_res_def key_prefixes split: sum.splits intro!: own_writes_push_ops)

lemma pop_own_writes: "vec_pop E K s v = Inr (s', v', x) \<Longrightarrow> own_writes (key_prefix v) s s'"
  by (auto simp: vec_pop_def Let_def bind_res_def key_prefixes split: sum.splits if_splits option.splits
      intro!: own_writes_push_ops own_writes_refl)

lemma clear_own_writes: "vec_clear E K s v = Inr (s', v') \<Longrightarrow> own_writes (key_prefix v) s s'"
proof (induction E K s v rule: vec_clear.induct)
  case (1 E K s v)
  show ?case
  proof (cases "vec_is_empty E s v = Inr False")
    case True
    with 1(2) obtain s1 v1 x where pop: "vec_pop E K s v = Inr (s1, v1, x)" "vec_clear E K s1 v1 = Inr (s', v')"
      by (subst (asm) vec_clear.simps) (auto split: sum.splits)
    have "own_writes (key_prefix v) s1 s'"
      using 1(1) [OF True refl pop(1) refl refl pop(2)] pop_keeps [OF pop(1)] by simp
    with pop_own_writes [OF pop(1)] show ?thesis by (rule own_writes_trans)
  next
    case False
    with 1(2) own_writes_refl [of "key_prefix v" s] show ?thesis
      by (subst (asm) vec_clear.simps) (auto split: sum.splits bool.splits)
  qed
qed

text \<open>The part of the representation that concerns the values.\<close>

definition values_repr ::
  "'db store_env \<Rightarrow> 'k codec \<Rightarrow> 'v codec \<Rightarrow> 'db rusty_storage \<Rightarrow> ('k, 'v) dbt_map \<Rightarrow> ('k \<Rightarrow> 'v option) \<Rightarrow> bool" where
  "values_repr E KK KV s m f \<longleftrightarrow>
     (\<forall>k. view E s (map_key_rusty_key KK m k) = map_option (enc KV) (f k)) \<and>
     (\<forall>k e. map_cache m k = Some e \<longrightarrow> e = f k) \<and>
     (\<forall>k. map_cache m k = None \<longrightarrow> reader_get E s (map_key_rusty_key KK m k) = map_option (enc KV) (f k)) \<and>
     map_persist_count m \<le> persist_count_of s \<and>
     (map_persist_count m < persist_count_of s \<longrightarrow>
        (\<forall>k. reader_get E s (prefix_map_key m # k) = view E s (prefix_map_key m # k)))"

lemma map_repr_values:
  "map_repr E KK KV s m f ks \<longleftrightarrow> vec_repr E KK s (keys_by_index m) ks \<and> distinct ks \<and> set ks = dom f \<and>
     key_prefix (keys_by_index m) \<noteq> prefix_map_key m \<and> values_repr E KK KV s m f"
  by (simp add: map_repr_def values_repr_def)

lemma values_foreign:
  assumes "values_repr E KK KV s m f" "foreign (prefix_map_key m) ops"
  shows "values_repr E KK KV (push_ops s ops) (m\<lparr>keys_by_index := ks\<rparr>) f"
  using assms by (simp add: values_repr_def map_key_rusty_key_def apply_ops_foreign)

lemma values_process:
  assumes "values_repr E KK KV s m f"
  shows "values_repr E KK KV s (map_process_persist_count m (persist_count_of s)) f"
proof (cases "map_persist_count m < persist_count_of s")
  case True
  then have "reader_get E s (map_key_rusty_key KK m k) = view E s (map_key_rusty_key KK m k)" for k
    using assms by (simp add: values_repr_def map_key_rusty_key_def)
  with True assms show ?thesis by (auto simp: values_repr_def map_process_persist_count_def map_key_rusty_key_def Let_def)
next
  case False
  with assms show ?thesis by (auto simp: values_repr_def map_process_persist_count_def map_key_rusty_key_def Let_def)
qed

lemma values_write:
  assumes "values_repr E KK KV s m f" "codec_ok KK"
  shows "values_repr E KK KV (push_ops s [Write (map_key_rusty_key KK m k) (enc KV x)])
    ((map_process_persist_count m (persist_count_of s))\<lparr>map_cache :=
       (map_cache (map_process_persist_count m (persist_count_of s)))(k \<mapsto> Some x)\<rparr>) (f(k \<mapsto> x))"
  using values_process [OF assms(1)] assms(2)
  by (auto simp: values_repr_def map_key_inj)

lemma apply_deletes:
  "codec_ok KK \<Longrightarrow> apply_ops (map (\<lambda>k. Delete (map_key_rusty_key KK m k)) ks) g (map_key_rusty_key KK m k) =
     (if k \<in> set ks then None else g (map_key_rusty_key KK m k))"
  by (induction ks arbitrary: g) (auto simp: map_key_inj)

lemma foldl_cache_None: "foldl (\<lambda>c k. c(k \<mapsto> None)) c ks k = (if k \<in> set ks then Some None else c k)"
  by (induction ks arbitrary: c) auto

lemma values_clear:
  assumes "values_repr E KK KV s m f" "codec_ok KK" "dom f \<subseteq> set ks"
  shows "values_repr E KK KV (push_ops s (map (\<lambda>k. Delete (map_key_rusty_key KK m k)) ks))
    ((map_process_persist_count m (persist_count_of s))\<lparr>map_cache :=
       foldl (\<lambda>c k. c(k \<mapsto> None)) (map_cache (map_process_persist_count m (persist_count_of s))) ks\<rparr>) Map.empty"
proof -
  have out: "f k = None" if "k \<notin> set ks" for k using that assms(3) by (auto simp: dom_def)
  show ?thesis
    using values_process [OF assms(1)] assms(2) out
    by (auto simp: values_repr_def apply_deletes foldl_cache_None split: if_splits)
qed

locale map_laws = vec_laws E KK for E :: "'db store_env" and KK :: "'k codec" +
  fixes KV :: "'v codec"
  assumes value_codec: "codec_ok KV"
begin

lemma map_get_ok:
  assumes "map_repr E KK KV s m f ks"
  shows "map_get E KK KV s m k = Inr (f k)" "map_contains_key E KK s m k \<longleftrightarrow> k \<in> dom f"
proof -
  have "map_cache m k = Some (f k) \<or>
      (map_cache m k = None \<and> reader_get E s (map_key_rusty_key KK m k) = map_option (enc KV) (f k))"
    using assms by (cases "map_cache m k") (auto simp: map_repr_def)
  then show "map_get E KK KV s m k = Inr (f k)" "map_contains_key E KK s m k \<longleftrightarrow> k \<in> dom f"
    using value_codec by (cases "f k", auto simp: map_get_def map_contains_key_def bind_res_def dom_def)
qed

lemma map_keys_ok:
  assumes "map_repr E KK KV s m f ks"
  shows "map_len E s m = Inr (of_nat (card (dom f)))" "map_all_keys E KK s m = Inr ks"
  using assms len_ok [of s "keys_by_index m" ks] get_all_ok [of s "keys_by_index m" ks] distinct_card [of ks]
  by (auto simp: map_repr_def map_len_def map_all_keys_def)

lemma map_insert_ok:
  assumes repr: "map_repr E KK KV s m f ks" and len: "length ks + 1 < 2 ^ 64"
  shows "\<exists>s' m'. map_insert E KK KV s m k x = Inr (s', m', f k) \<and>
    map_repr E KK KV s' m' (f(k \<mapsto> x)) (if k \<in> dom f then ks else ks @ [k])"
proof -
  have vr: "vec_repr E KK s (keys_by_index m) ks" and prefixes: "key_prefix (keys_by_index m) \<noteq> prefix_map_key m"
    and vals: "values_repr E KK KV s m f" and ks: "distinct ks" "set ks = dom f"
    using repr by (simp_all add: map_repr_values)
  let ?ks = "if k \<in> dom f then ks else ks @ [k]"
  obtain s1 v1 where one: "own_writes (key_prefix (keys_by_index m)) s s1" "vec_repr E KK s1 v1 ?ks"
      "key_prefix v1 = key_prefix (keys_by_index m)"
      "(if f k = None then bind_res (vec_push E KK s (keys_by_index m) k) (\<lambda>(s, ks). Inr (s, m\<lparr>keys_by_index := ks\<rparr>))
        else Inr (s, m)) = Inr (s1, m\<lparr>keys_by_index := v1\<rparr>)"
  proof (cases "f k = None")
    case True
    then have out: "k \<notin> dom f" by (simp add: dom_def)
    obtain s1 v1 where push: "vec_push E KK s (keys_by_index m) k = Inr (s1, v1)" "vec_repr E KK s1 v1 (ks @ [k])"
      using push_ok [OF vr len] by blast
    with True out push_own_writes [OF push(1)] push_keeps [OF push(1)] that [of s1 v1] show ?thesis
      by (simp add: bind_res_def)
  next
    case False
    with that [of s "keys_by_index m"] vr own_writes_refl show ?thesis by (auto simp: dom_def)
  qed
  let ?m = "m\<lparr>keys_by_index := v1\<rparr>" and ?ops = "[Write (map_key_rusty_key KK m k) (enc KV x)]"
  obtain ops where s1: "s1 = push_ops s ops" "foreign (prefix_map_key m) ops"
    using own_writes_foreign [OF one(1)] prefixes by metis
  have "values_repr E KK KV s1 ?m f" using values_foreign [OF vals s1(2)] s1(1) by simp
  note wr = values_write [OF this codec, of k x]
  have "foreign (key_prefix v1) ?ops" using prefixes one(3) by (simp add: foreign_def map_key_rusty_key_def)
  from repr_foreign [OF one(2) this] wr prefixes one(3) ks
  have "map_repr E KK KV (push_ops s1 ?ops)
      ((map_process_persist_count ?m (persist_count_of s1))\<lparr>map_cache :=
         (map_cache (map_process_persist_count ?m (persist_count_of s1)))(k \<mapsto> Some x)\<rparr>) (f(k \<mapsto> x)) ?ks"
    by (auto simp: map_repr_values)
  moreover have "map_insert E KK KV s m k x = Inr (push_ops s1 ?ops,
      (map_process_persist_count ?m (persist_count_of s1))\<lparr>map_cache :=
         (map_cache (map_process_persist_count ?m (persist_count_of s1)))(k \<mapsto> Some x)\<rparr>, f k)"
    using one(4) unfolding map_insert_def map_get_ok(1) [OF repr] by (simp add: bind_res_def Let_def)
  ultimately show ?thesis by blast
qed

lemma map_clear_ok:
  assumes repr: "map_repr E KK KV s m f ks"
  shows "if poppable (keys_by_index m) ks
    then \<exists>s' m'. map_clear E KK s m = Inr (s', m') \<and> map_repr E KK KV s' m' Map.empty []
    else map_clear E KK s m = Inl UnwrapFailed"
proof -
  have vr: "vec_repr E KK s (keys_by_index m) ks" and prefixes: "key_prefix (keys_by_index m) \<noteq> prefix_map_key m"
    and vals: "values_repr E KK KV s m f" and ks: "set ks = dom f"
    using repr by (simp_all add: map_repr_values)
  show ?thesis
  proof (cases "poppable (keys_by_index m) ks")
    case True
    obtain s1 v1 where one: "vec_clear E KK s (keys_by_index m) = Inr (s1, v1)" "vec_repr E KK s1 v1 []"
      using clear_ok [OF vr True] by blast
    have v1: "key_prefix v1 = key_prefix (keys_by_index m)" using clear_keeps [OF one(1)] by simp
    let ?m = "m\<lparr>keys_by_index := v1\<rparr>" and ?ops = "map (\<lambda>k. Delete (map_key_rusty_key KK m k)) ks"
    obtain ops where s1: "s1 = push_ops s ops" "foreign (prefix_map_key m) ops"
      using own_writes_foreign [OF clear_own_writes [OF one(1)]] prefixes by metis
    have "values_repr E KK KV s1 ?m f" using values_foreign [OF vals s1(2)] s1(1) by simp
    note cl = values_clear [OF this codec, of ks]
    have "foreign (key_prefix v1) ?ops" using prefixes v1 by (auto simp: foreign_def map_key_rusty_key_def)
    from repr_foreign [OF one(2) this] cl prefixes v1 ks
    have "map_repr E KK KV (push_ops s1 ?ops)
      ((map_process_persist_count ?m (persist_count_of s1))\<lparr>map_cache :=
         foldl (\<lambda>c k. c(k \<mapsto> None)) (map_cache (map_process_persist_count ?m (persist_count_of s1))) ks\<rparr>) Map.empty []"
      by (auto simp: map_repr_values)
    with True one(1) show ?thesis
      by (simp add: map_clear_def get_all_ok [OF vr] bind_res_def Let_def)
  next
    case False
    then have "vec_pop E KK s (keys_by_index m) = Inl UnwrapFailed"
      by (simp add: vec_pop_def is_empty_ok [OF vr] poppable_def bind_res_def)
    then have "vec_clear E KK s (keys_by_index m) = Inl UnwrapFailed"
      using False by (subst vec_clear.simps) (simp add: is_empty_ok [OF vr] poppable_def)
    with False show ?thesis by (simp add: map_clear_def get_all_ok [OF vr] bind_res_def)
  qed
qed

lemma map_persist_ok:
  assumes "map_repr E KK KV s m f ks"
  shows "map_repr E KK KV (persist E s) m f ks"
  using assms persist_ok(1) [of s "keys_by_index m" ks] by (auto simp: map_repr_def reader_persist)

lemma map_reopen_ok:
  assumes repr: "map_repr E KK KV s m f ks"
    and prefixes: "key_prefix (keys_by_index m) = prefix_map_key m + 1"
    and s2: "new_map ((storage_new (storage_db (persist E s)))\<lparr>table_count := prefix_map_key m\<rparr>) = (s2, m2)"
  shows "map_repr E KK KV s2 m2 f ks" "current_length (keys_by_index m2) = None"
proof -
  have st: "stored E KK (key_prefix (keys_by_index m)) (view E s) ks" using repr by (simp add: map_repr_def repr_stored)
  have rd: "reader_get E s2 = view E s" "view E s2 = view E s"
    using s2 reader_persist [of s] by (auto simp: new_map_def storage_new_def reader_get_db view_def Let_def)
  have m2: "m2 = map_new s2 (prefix_map_key m) (prefix_map_key m + 1)"
    using s2 by (auto simp: new_map_def Let_def)
  have key: "map_key_rusty_key KK m2 = map_key_rusty_key KK m"
    by (simp add: m2 map_new_def map_key_rusty_key_def fun_eq_iff)
  show "current_length (keys_by_index m2) = None" by (simp add: m2 map_new_def vec_new_def)
  have "vec_repr E KK s2 (keys_by_index m2) ks"
    using st prefixes by (auto simp: m2 map_new_def vec_new_def vec_repr_def rd stored_def)
  moreover have "values_repr E KK KV s2 m2 f"
    using repr by (simp add: values_repr_def rd key) (simp add: m2 map_new_def map_repr_def)
  ultimately show "map_repr E KK KV s2 m2 f ks"
    using repr by (simp add: map_repr_values) (simp add: m2 map_new_def vec_new_def)
qed

end

lemma map_lawsI: "storage_laws E \<Longrightarrow> codec_ok KK \<Longrightarrow> codec_ok KV \<Longrightarrow> map_laws E KK KV"
  by (intro map_laws.intro vec_laws.intro vec_laws_axioms.intro map_laws_axioms.intro)

text \<open>A fresh map on an empty database in memory.\<close>

interpretation mem_map: map_laws mem_env bits_codec bits_codec
  by unfold_locales (rule bits_codec_ok)

lemma map_insert_prefixes:
  "map_insert E KK KV s m k x = Inr (s', m', y) \<Longrightarrow>
     prefix_map_key m' = prefix_map_key m \<and> key_prefix (keys_by_index m') = key_prefix (keys_by_index m)"
  by (auto simp: map_insert_def bind_res_def Let_def split: sum.splits if_splits dest: push_keeps)

lemma fresh_map:
  "new_map (storage_new Map.empty) = (s, m :: (u64, u64) dbt_map) \<Longrightarrow>
     map_repr mem_env bits_codec bits_codec s m Map.empty [] \<and> key_prefix (keys_by_index m) = prefix_map_key m + 1 \<and>
     prefix_map_key m = 0"
  by (auto simp: new_map_def map_new_def vec_new_def storage_new_def map_repr_def vec_repr_def stored_def length_stored_def
      view_def reader_get_def mem_env_def Let_def)



text \<open>Clearing a map empties it, but not after a restart: the vector of keys of a reopened map has no
  length in memory, so clearing a map that was persisted with at least one entry panics.\<close>

theorem reopened_map_clear_panics:
  assumes "storage_laws E" "codec_ok KK" "codec_ok KV" "map_repr E KK KV s m f ks" "f k = Some x"
    "key_prefix (keys_by_index m) = prefix_map_key m + 1"
    "new_map ((storage_new (storage_db (persist E s)))\<lparr>table_count := prefix_map_key m\<rparr>) = (s2, m2)"
  shows "map_repr E KK KV s2 m2 f ks \<and> map_clear E KK s2 m2 = Inl UnwrapFailed \<and>
    (current_length (keys_by_index m) = None \<or>
       (\<exists>s' m'. map_clear E KK s m = Inr (s', m') \<and> map_repr E KK KV s' m' Map.empty []))"
proof -
  have laws: "map_laws E KK KV" using assms(1-3) by (rule map_lawsI)
  have "set ks = dom f" using assms(4) by (simp add: map_repr_def)
  with assms(5) have "ks \<noteq> []" by force
  with map_laws.map_reopen_ok [OF laws assms(4,6,7)] map_laws.map_clear_ok [OF laws, of s2 m2 f ks]
    map_laws.map_clear_ok [OF laws assms(4)]
  show ?thesis by (cases "current_length (keys_by_index m)") (auto simp: poppable_def)
qed

theorem reopened_map_clear_panics_witness:
  "\<exists>s m s1 m1 s2 m2. new_map (storage_new Map.empty) = (s, m) \<and>
     map_insert mem_env bits_codec bits_codec s m 5 9 = Inr (s1, m1, None) \<and>
     new_map (storage_new (storage_db (persist mem_env s1))) = (s2, m2 :: (u64, u64) dbt_map) \<and>
     map_clear mem_env bits_codec s2 m2 = Inl UnwrapFailed"
proof -
  obtain s :: "(bytes \<Rightarrow> bytes option) rusty_storage" and m :: "(u64, u64) dbt_map" where m: "new_map (storage_new Map.empty) = (s, m)" by fastforce
  note fresh = fresh_map [OF m]
  obtain s1 m1 where ins: "map_insert mem_env bits_codec bits_codec s m 5 9 = Inr (s1, m1, None)"
      "map_repr mem_env bits_codec bits_codec s1 m1 [5 \<mapsto> 9] [5]"
    using mem_map.map_insert_ok [OF fresh [THEN conjunct1], of 5 9] by auto
  have prefixes: "prefix_map_key m1 = 0" "key_prefix (keys_by_index m1) = 1"
    using map_insert_prefixes [OF ins(1)] fresh by simp_all
  obtain s2 and m2 :: "(u64, u64) dbt_map" where
    m2: "new_map ((storage_new (storage_db (persist mem_env s1)))\<lparr>table_count := prefix_map_key m1\<rparr>) = (s2, m2)"
    by fastforce
  have "map_clear mem_env bits_codec s2 m2 = Inl UnwrapFailed"
    using reopened_map_clear_panics [OF mem.storage_laws_axioms bits_codec_ok bits_codec_ok ins(2), of 5 9 s2 m2]
      prefixes m2 by simp
  moreover have "(storage_new (storage_db (persist mem_env s1)))\<lparr>table_count := prefix_map_key m1\<rparr> =
      storage_new (storage_db (persist mem_env s1))"
    using prefixes by (simp add: storage_new_def)
  ultimately show ?thesis using m ins(1) m2 by metis
qed

end
