(* ===== verification/Chunk.thy ===== *)
theory Chunk
  imports Nyks_Prelude
begin

text \<open>
  \<^verbatim>\<open>consensus/src/mutator_set/removal_record/chunk.rs\<close>: the sorted multiset of Bloom-filter
  positions of one chunk, and the packing of 12-bit positions into 32-bit words with a length
  indicator of one or two 12-bit groups. A chunk is the list \<open>relative_indices\<close> itself.

  The lemmas read both formats as one big-endian number; the packing loop and the unpacking loop
  keep that number, which gives the round trip in both directions.
\<close>

section \<open>Definitions\<close>

definition CHUNK_SIZE :: u32 where
  "CHUNK_SIZE = push_bit 12 1"

definition MAX_PACKED_LENGTH :: nat where
  "MAX_PACKED_LENGTH = 34561"

definition MAX_UNPACKED_LENGTH :: nat where
  "MAX_UNPACKED_LENGTH = 92160"

definition LONG_LENGTH_FLAG :: u32 where
  "LONG_LENGTH_FLAG = push_bit 11 1"

datatype chunk_unpack_error =
    PayloadTooBig
  | InconsistentLength
  | NonzeroTrailingPadding
  | NonCanonicalEmptyChunk
  | NonMinimalLengthIndicator

datatype chunk = Chunk (relative_indices: "u32 list")

definition empty_chunk :: chunk where
  "empty_chunk = Chunk []"

definition chunk_is_empty :: "chunk \<Rightarrow> bool" where
  "chunk_is_empty c \<longleftrightarrow> relative_indices c = []"

definition chunk_insert :: "chunk \<Rightarrow> u32 \<Rightarrow> chunk res" where
  "chunk_insert c index =
     assert_then (index < CHUNK_SIZE) (Inr (Chunk (sort (relative_indices c @ [index]))))"

definition chunk_insert_many :: "chunk \<Rightarrow> u32 list \<Rightarrow> chunk res" where
  "chunk_insert_many c indices =
     assert_then (list_all (\<lambda>index. index < CHUNK_SIZE) indices)
       (Inr (Chunk (sort (relative_indices c @ indices))))"

definition chunk_remove_once :: "chunk \<Rightarrow> u32 \<Rightarrow> chunk res" where
  "chunk_remove_once c index =
     assert_then (index < CHUNK_SIZE)
       (Inr (case last_position index (relative_indices c) of
               Some d \<Rightarrow> Chunk (remove_nth d (relative_indices c))
             | None \<Rightarrow> c))"

definition chunk_contains :: "chunk \<Rightarrow> u32 \<Rightarrow> bool res" where
  "chunk_contains c index =
     assert_then (index < CHUNK_SIZE) (Inr (index \<in> set (relative_indices c)))"

definition chunk_combine :: "chunk \<Rightarrow> chunk \<Rightarrow> chunk" where
  "chunk_combine c other = Chunk (sort ((relative_indices empty_chunk @ relative_indices c) @
     relative_indices other))"

fun subtract_loop :: "u32 list \<Rightarrow> u32 list \<Rightarrow> u32 list res" where
  "subtract_loop xs [] = Inr xs"
| "subtract_loop xs (remove_index # rest) =
     (case find_position (\<lambda>x. x = remove_index) xs of
        Some i \<Rightarrow> subtract_loop (remove_nth i xs) rest
      | None \<Rightarrow> Inl ExplicitPanic)"

definition chunk_subtract :: "chunk \<Rightarrow> chunk \<Rightarrow> chunk res" where
  "chunk_subtract c other =
     bind_res (subtract_loop (relative_indices c) (relative_indices other)) (\<lambda>xs. Inr (Chunk xs))"

definition to_indices :: "chunk \<Rightarrow> u32 list" where
  "to_indices c = relative_indices c"

definition from_indices :: "u32 list \<Rightarrow> chunk" where
  "from_indices xs = Chunk xs"

text \<open>\<^verbatim>\<open>u32::try_from\<close> of a 64-bit value.\<close>

definition u32_try_from :: "u64 \<Rightarrow> u32 option" where
  "u32_try_from x = (if x < push_bit 32 1 then Some (ucast x) else None)"

text \<open>\<^verbatim>\<open>pack_with_length_encoding\<close>: \<open>packed\<close>, \<open>width\<close> and \<open>current\<close> are the variables of the
  loop; what follows the loop is the first equation.\<close>

fun pack_loop :: "u32 list \<Rightarrow> nat \<Rightarrow> u64 \<Rightarrow> u32 list \<Rightarrow> u32 list res" where
  "pack_loop packed width current [] =
     (if width \<noteq> 0
      then case u32_try_from (push_bit (32 - width) current) of
             None \<Rightarrow> Inl UnwrapFailed
           | Some w \<Rightarrow> Inr (packed @ [w])
      else Inr packed)"
| "pack_loop packed width current (element # rest) =
     (let width = width + 12;
          current = push_bit 12 current OR ucast element
      in if 32 \<le> width
         then let remainder = width mod 32
              in case u32_try_from (drop_bit remainder current) of
                   None \<Rightarrow> Inl UnwrapFailed
                 | Some w \<Rightarrow> pack_loop (packed @ [w]) (width - 32)
                     (current AND (push_bit remainder 1 - 1)) rest
         else pack_loop packed width current rest)"

definition pack_with_length_encoding :: "chunk \<Rightarrow> u32 list \<Rightarrow> chunk res" where
  "pack_with_length_encoding c length_encoding =
     bind_res (pack_loop [] 0 0 (length_encoding @ relative_indices c)) (\<lambda>xs. Inr (Chunk xs))"

definition length_encoding_of :: "u32 \<Rightarrow> u32 list" where
  "length_encoding_of num_elements =
     (if num_elements < LONG_LENGTH_FLAG then [num_elements]
      else [drop_bit 12 num_elements OR LONG_LENGTH_FLAG, num_elements AND (push_bit 12 1 - 1)])"

definition chunk_pack :: "chunk \<Rightarrow> chunk res" where
  "chunk_pack c =
     (if relative_indices c = [] then Inr (Chunk [])
      else assert_then (list_all (\<lambda>x. x < CHUNK_SIZE) (relative_indices c))
       (assert_then (length (relative_indices c) \<le> MAX_UNPACKED_LENGTH)
         (pack_with_length_encoding c
            (length_encoding_of (of_nat (length (relative_indices c)))))))"

text \<open>\<^verbatim>\<open>try_unpack\<close>. The inner \<^verbatim>\<open>while\<close> loop takes twelve bits at a time; it ends because
  \<open>width\<close> decreases. \<open>unpacked\<close>, \<open>remaining\<close>, \<open>current\<close> and \<open>width\<close> are its variables.\<close>

function (sequential) unpack_while ::
  "u32 list \<Rightarrow> u32 \<Rightarrow> u64 \<Rightarrow> nat \<Rightarrow> (u32 list \<times> u32 \<times> u64 \<times> nat) res" where
  "unpack_while unpacked remaining current width =
     (if 12 \<le> width \<and> remaining \<noteq> 0
      then let denominator = width div 12;
               remainder = width mod 12;
               mask = (push_bit 12 1 - 1 :: u64);
               shift = remainder + (denominator - 1) * 12
           in case u32_try_from (drop_bit shift current AND mask) of
                None \<Rightarrow> Inl UnwrapFailed
              | Some w \<Rightarrow> unpack_while (unpacked @ [w]) (remaining - 1)
                  (current AND NOT (push_bit shift mask)) (width - 12)
      else Inr (unpacked, remaining, current, width))"
  by pat_completeness auto
termination by (relation "measure (\<lambda>(_, _, _, width). width)") auto

fun unpack_for :: "u32 list \<Rightarrow> u32 \<Rightarrow> u64 \<Rightarrow> nat \<Rightarrow> u32 list \<Rightarrow> u32 list res" where
  "unpack_for unpacked remaining current width [] = Inr unpacked"
| "unpack_for unpacked remaining current width (element # rest) =
     bind_res
       (unpack_while unpacked remaining (push_bit 32 current OR ucast element) (width + 32))
       (\<lambda>(unpacked, remaining, current, width). unpack_for unpacked remaining current width rest)"

text \<open>The length indicator: the indicated length and how many 12-bit groups it takes.\<close>

definition indicated_length :: "u32 \<Rightarrow> u32 \<times> u32" where
  "indicated_length first =
     (let first_length_element = drop_bit 20 first AND (push_bit 12 1 - 1)
      in if first_length_element < LONG_LENGTH_FLAG then (first_length_element, 1)
         else let length_hi = first_length_element AND (LONG_LENGTH_FLAG - 1);
                  length_lo = drop_bit 8 first AND (push_bit 12 1 - 1)
              in (push_bit 12 length_hi OR length_lo, 2))"

definition unpack_tail_length :: "u32 \<Rightarrow> u32" where
  "unpack_tail_length total_bit_length =
     (let num_non_padding_bits_in_last_element = total_bit_length mod 32
      in if num_non_padding_bits_in_last_element \<noteq> 0
         then 32 - num_non_padding_bits_in_last_element else 0)"

text \<open>A panic and the error of the result are separate layers: \<open>Inr (Inl e)\<close> is \<^verbatim>\<open>Err(e)\<close>.\<close>

definition try_unpack :: "chunk \<Rightarrow> (chunk_unpack_error + chunk) res" where
  "try_unpack c =
     (let xs = relative_indices c in
      if xs = [] then Inr (Inr (Chunk []))
      else if MAX_PACKED_LENGTH < length xs then Inr (Inl PayloadTooBig)
      else let (indicated, num_length_elements) = indicated_length (hd xs) in
      if indicated = 0 then Inr (Inl NonCanonicalEmptyChunk)
      else if num_length_elements = 2 \<and> indicated < LONG_LENGTH_FLAG
      then Inr (Inl NonMinimalLengthIndicator)
      else if ((indicated + num_length_elements) * 12 + 31) div 32 \<noteq> of_nat (length xs)
      then Inr (Inl InconsistentLength)
      else bind_res (unpack_for [] (indicated + num_length_elements) 0 0 xs)
        (\<lambda>unpacked.
           let tail_length = unpack_tail_length ((indicated + num_length_elements) * 12) in
           if last xs AND (push_bit (unat tail_length) 1 - 1) \<noteq> 0
           then Inr (Inl NonzeroTrailingPadding)
           else if length unpacked < unat num_length_elements then Inl IndexOutOfBounds
           else Inr (Inr (Chunk (drop (unat num_length_elements) unpacked)))))"

declare unpack_while.simps [simp del]

section \<open>Chunks as multisets\<close>

abbreviation chunk_mset :: "chunk \<Rightarrow> u32 multiset" where
  "chunk_mset c \<equiv> mset (relative_indices c)"

abbreviation chunk_sorted :: "chunk \<Rightarrow> bool" where
  "chunk_sorted c \<equiv> sorted (relative_indices c)"

lemma mset_remove_last_match:
  "mset (case last_position x xs of Some d \<Rightarrow> remove_nth d xs | None \<Rightarrow> xs) = mset xs - {#x#}"
proof (cases "last_position x xs")
  case None
  then have "x \<notin> set xs" by (simp add: last_position_None)
  with None show ?thesis by (simp add: diff_single_trivial)
next
  case (Some d)
  with last_position_Some [OF Some] show ?thesis by (simp add: mset_remove_nth)
qed

lemma chunk_remove_once_mset:
  assumes "i < CHUNK_SIZE"
  obtains c' where "chunk_remove_once c i = Inr c'" "chunk_mset c' = chunk_mset c - {#i#}"
    "chunk_sorted c \<Longrightarrow> chunk_sorted c'"
proof (cases "last_position i (relative_indices c)")
  case None
  then have "i \<notin> set (relative_indices c)" by (simp add: last_position_None)
  with None assms that [of c] show ?thesis
    by (simp add: chunk_remove_once_def res_simps diff_single_trivial)
next
  case (Some d)
  then show ?thesis
    using assms that [of "Chunk (remove_nth d (relative_indices c))"]
      mset_remove_last_match [where x = i and xs = "relative_indices c"]
    by (simp add: chunk_remove_once_def res_simps sorted_remove_nth)
qed

lemma subtract_loop_mset:
  "if mset ys \<subseteq># mset xs
   then \<exists>zs. subtract_loop xs ys = Inr zs \<and> mset zs = mset xs - mset ys \<and> (sorted xs \<longrightarrow> sorted zs)
   else subtract_loop xs ys = Inl ExplicitPanic"
proof (induction ys arbitrary: xs)
  case (Cons y ys)
  show ?case
  proof (cases "find_position (\<lambda>x. x = y) xs")
    case None
    then have "y \<notin> set xs" by (auto simp: find_position_None)
    then have "\<not> mset (y # ys) \<subseteq># mset xs" by (auto dest: mset_subset_eqD)
    with None show ?thesis by simp
  next
    case (Some i)
    then have i: "i < length xs" "xs ! i = y" using find_position_Some by blast+
    then have rest: "mset (remove_nth i xs) = mset xs - {#y#}" by (simp add: mset_remove_nth)
    have "y \<in># mset xs" using i nth_mem by fastforce
    then have "mset (y # ys) \<subseteq># mset xs \<longleftrightarrow> mset ys \<subseteq># mset (remove_nth i xs)"
      unfolding rest by (simp add: insert_subset_eq_iff)
    moreover have "mset xs - mset (y # ys) = mset (remove_nth i xs) - mset ys"
      unfolding rest by simp
    ultimately show ?thesis
      using Cons [of "remove_nth i xs"] Some sorted_remove_nth [of xs i]
      by (auto split: if_splits)
  qed
qed simp

text \<open>(C29) A chunk is a multiset of positions: inserting adds one occurrence, \<^verbatim>\<open>remove_once\<close> takes
  one away if there is one, \<^verbatim>\<open>combine\<close> is the sum and \<^verbatim>\<open>subtract\<close> the difference, which panics
  exactly when the other chunk is not contained; all keep the positions sorted, and removing what
  was inserted gives back the chunk.\<close>

theorem chunk_operations_multiset:
  assumes "i < CHUNK_SIZE" "sorted (relative_indices c)"
  shows "(\<exists>c'. chunk_insert c i = Inr c' \<and> chunk_mset c' = chunk_mset c + {#i#} \<and> chunk_sorted c' \<and>
      chunk_remove_once c' i = Inr c) \<and>
    (\<exists>c'. chunk_remove_once c i = Inr c' \<and> chunk_mset c' = chunk_mset c - {#i#} \<and> chunk_sorted c') \<and>
    chunk_mset (chunk_combine c d) = chunk_mset c + chunk_mset d \<and> chunk_sorted (chunk_combine c d) \<and>
    (if chunk_mset d \<subseteq># chunk_mset c
     then \<exists>c'. chunk_subtract c d = Inr c' \<and> chunk_mset c' = chunk_mset c - chunk_mset d \<and> chunk_sorted c'
     else chunk_subtract c d = Inl ExplicitPanic)"
proof (intro conjI)
  let ?c' = "Chunk (sort (relative_indices c @ [i]))"
  obtain c'' where c'': "chunk_remove_once ?c' i = Inr c''" "chunk_mset c'' = chunk_mset ?c' - {#i#}"
      "chunk_sorted c''"
    using chunk_remove_once_mset [OF assms(1), of ?c'] by auto
  then have "c'' = c"
    using assms(2) sorted_mset_unique [of "relative_indices c''" "relative_indices c"]
    by (simp add: chunk.expand)
  with c'' assms(1) show "\<exists>c'. chunk_insert c i = Inr c' \<and> chunk_mset c' = chunk_mset c + {#i#} \<and>
      chunk_sorted c' \<and> chunk_remove_once c' i = Inr c"
    by (intro exI [of _ ?c']) (simp add: chunk_insert_def res_simps)
  show "\<exists>c'. chunk_remove_once c i = Inr c' \<and> chunk_mset c' = chunk_mset c - {#i#} \<and> chunk_sorted c'"
    using chunk_remove_once_mset [OF assms(1), of c] assms(2) by metis
  show "if chunk_mset d \<subseteq># chunk_mset c
     then \<exists>c'. chunk_subtract c d = Inr c' \<and> chunk_mset c' = chunk_mset c - chunk_mset d \<and> chunk_sorted c'
     else chunk_subtract c d = Inl ExplicitPanic"
    using subtract_loop_mset [of "relative_indices d" "relative_indices c"] assms(2)
    by (auto simp: chunk_subtract_def res_simps split: if_splits)
qed (simp_all add: chunk_combine_def empty_chunk_def)

theorem chunk_operations_multiset_witness:
  "chunk_remove_once (Chunk [3, 5, 5, 9]) 5 = Inr (Chunk [3, 5, 9]) \<and>
   (\<exists>c'. chunk_insert (Chunk [3, 5, 5, 9]) 5 = Inr c' \<and> chunk_remove_once c' 5 = Inr (Chunk [3, 5, 5, 9])) \<and>
   chunk_subtract (Chunk [3, 5, 5, 9]) (Chunk [4]) = Inl ExplicitPanic"
  using chunk_operations_multiset [of 5 "Chunk [3, 5, 5, 9]" "Chunk [4]"]
  by (auto simp: CHUNK_SIZE_def chunk_remove_once_def last_position_def remove_nth_def res_simps)

text \<open>Inserting a batch with one sort is inserting its positions one after the other, also when
  a position is out of range: both panic then.\<close>

theorem chunk_insert_many_inserts_each:
  assumes "sorted (relative_indices c)"
  shows "chunk_insert_many c is = foldl (\<lambda>r i. bind_res r (\<lambda>c. chunk_insert c i)) (Inr c) is"
  using assms
proof (induction "is" arbitrary: c)
  case Nil
  then show ?case by (simp add: chunk_insert_many_def res_simps sorted_sort_id)
next
  case (Cons i "is")
  have panic: "foldl (\<lambda>r i. bind_res r (\<lambda>c. chunk_insert c i)) (Inl e) js = Inl e" for e js
    by (induction js) (simp_all add: res_simps)
  have "sort (sort (relative_indices c @ [i]) @ is) = sort (relative_indices c @ i # is)"
    by (intro properties_for_sort) simp_all
  then show ?case
    using Cons.IH [of "Chunk (sort (relative_indices c @ [i]))"] panic
    by (cases "i < CHUNK_SIZE") (simp_all add: chunk_insert_many_def chunk_insert_def res_simps)
qed

theorem chunk_insert_many_inserts_each_witness:
  "chunk_insert_many (Chunk [4]) [7, 2] = bind_res (chunk_insert (Chunk [4]) 7) (\<lambda>c. chunk_insert c 2)"
  using chunk_insert_many_inserts_each [of "Chunk [4]" "[7, 2]"] by (simp add: bind_res_def)

section \<open>Packed chunks as numbers\<close>

text \<open>A list of \<open>b\<close>-bit groups read as a big-endian number.\<close>

definition be :: "nat \<Rightarrow> u32 list \<Rightarrow> nat" where
  "be b xs = foldl (\<lambda>v x. v * 2 ^ b + unat x) 0 xs"

abbreviation u12s :: "u32 list \<Rightarrow> bool" where
  "u12s es \<equiv> \<forall>e\<in>set es. unat e < 4096"

lemma be_Nil [simp]: "be b [] = 0"
  by (simp add: be_def)

lemma be_append: "be b (xs @ ys) = be b xs * 2 ^ (b * length ys) + be b ys"
proof (induction ys rule: rev_induct)
  case (snoc y ys)
  then show ?case by (simp add: be_def algebra_simps power_add flip: append_assoc)
qed simp

lemma be_single [simp]: "be b [x] = unat x"
  by (simp add: be_def)

lemma be_Cons: "be b (x # xs) = unat x * 2 ^ (b * length xs) + be b xs"
  using be_append [of b "[x]" xs] by simp

lemma digit_add_lt:
  assumes "(a::nat) < 2 ^ m" "b < 2 ^ n"
  shows "a * 2 ^ n + b < 2 ^ (m + n)"
proof -
  have "a * 2 ^ n + b < (a + 1) * 2 ^ n" using assms(2) by simp
  also have "\<dots> \<le> 2 ^ m * 2 ^ n" using assms(1) by (intro mult_le_mono1) simp
  finally show ?thesis by (simp add: power_add)
qed

lemma be_lt: "\<forall>x\<in>set xs. unat x < 2 ^ b \<Longrightarrow> be b xs < 2 ^ (b * length xs)"
  by (induction xs) (auto simp: be_Cons digit_add_lt)

lemma be32_lt: "be 32 xs < 2 ^ (32 * length xs)"
  by (intro be_lt) (use unat_u32_lt in simp)

lemma be12_lt: "u12s es \<Longrightarrow> be 12 es < 2 ^ (12 * length es)"
  using be_lt [of es 12] by simp

lemma be_inj:
  assumes "length xs = length ys" "\<forall>x\<in>set xs \<union> set ys. unat x < 2 ^ b" "be b xs = be b ys"
  shows "xs = ys"
  using assms
proof (induction xs ys rule: list_induct2)
  case (Cons x xs y ys)
  let ?B = "2 ^ (b * length xs) :: nat"
  have "be b xs < ?B" "be b ys < ?B"
    using Cons.prems(1) be_lt [of xs b] be_lt [of ys b] by (simp_all add: Cons.hyps)
  then have "be b xs = be b ys \<and> unat x = unat y"
    using Cons.prems(2) Cons.hyps base_split_unique [of "be b xs" ?B "be b ys" "unat x" "unat y"]
    by (simp add: be_Cons mult.commute add.commute)
  with Cons show ?case by (auto dest: word_eq_unatI)
qed simp

text \<open>The packed words of a stream of 12-bit groups: as many words as needed, the rest zero bits.\<close>

definition encodes :: "u32 list \<Rightarrow> u32 list \<Rightarrow> bool" where
  "encodes xs es \<longleftrightarrow> u12s es \<and> 12 * length es \<le> 32 * length xs \<and> 32 * length xs < 12 * length es + 32 \<and>
     be 32 xs = be 12 es * 2 ^ (32 * length xs - 12 * length es)"

lemma encodes_unique:
  assumes "encodes xs es" "encodes ys es"
  shows "xs = ys"
proof (rule be_inj [of _ _ 32])
  show "length xs = length ys" using assms by (simp add: encodes_def)
  with assms show "be 32 xs = be 32 ys" by (simp add: encodes_def)
qed (use unat_u32_lt in simp)

lemma unat_shift_in:
  assumes "unat (c :: u64) < 2 ^ 32" "unat (e :: u32) < 4096"
  shows "unat (push_bit 12 c OR ucast e) = unat c * 4096 + unat e"
  using assms unat_push_or [of "ucast e :: u64" 12 c] by (simp add: unat_ucast_up)

lemma u32_try_from_lt: "unat x < 4294967296 \<Longrightarrow> \<exists>w. u32_try_from x = Some w \<and> unat w = unat x"
  by (simp add: u32_try_from_def word_less_nat_alt unat_ucast_mod)

lemma be12_shift_Cons:
  "(x * 2 ^ 12 + unat e) * 2 ^ (12 * length es) + be 12 es = x * 2 ^ (12 * length (e # es)) + be 12 (e # es)"
  by (simp add: be_Cons power_add distrib_right)

lemma pack_loop_number:
  assumes "width < 32" "unat current < 2 ^ width" "u12s es"
  shows "\<exists>out pad. pack_loop packed width current es = Inr out \<and> pad < 32 \<and>
    32 * length out = 32 * length packed + width + 12 * length es + pad \<and>
    be 32 out = ((be 32 packed * 2 ^ width + unat current) * 2 ^ (12 * length es) + be 12 es) * 2 ^ pad"
  using assms
proof (induction es arbitrary: packed width current)
  case Nil
  show ?case
  proof (cases "width = 0")
    case True
    with Nil show ?thesis by (intro exI [of _ packed] exI [of _ 0]) simp
  next
    case False
    let ?k = "32 - width"
    have "unat current * 2 ^ ?k < 2 ^ width * 2 ^ ?k" using Nil(2) by simp
    also have "\<dots> = 4294967296" using Nil(1) by (simp flip: power_add)
    finally have lt: "unat current * 2 ^ ?k < 4294967296" .
    then have push: "unat (push_bit ?k current) = unat current * 2 ^ ?k"
      by (intro unat_push_bit) simp
    with lt obtain w where w: "u32_try_from (push_bit ?k current) = Some w" "unat w = unat current * 2 ^ ?k"
      using u32_try_from_lt [of "push_bit ?k current"] by auto
    have "(2::nat) ^ width * 2 ^ ?k = 2 ^ 32" using Nil(1) by (simp flip: power_add)
    then have "be 32 (packed @ [w]) = (be 32 packed * 2 ^ width + unat current) * 2 ^ ?k"
      by (simp add: be_append w(2) distrib_right mult.assoc)
    with False Nil(1) w(1) show ?thesis
      by (intro exI [of _ "packed @ [w]"] exI [of _ ?k]) simp
  qed
next
  case (Cons e es)
  define cw where "cw = (push_bit 12 current OR ucast e :: u64)"
  have small: "unat current < 2 ^ 32"
    using Cons.prems(1,2) power_increasing [of width 32 "2::nat"] by (simp add: order_less_le_trans)
  have c: "unat cw = unat current * 2 ^ 12 + unat e"
    unfolding cw_def using unat_shift_in [OF small] Cons.prems(3) by simp
  have c_lt: "unat cw < 2 ^ (width + 12)"
    unfolding c using Cons.prems by (intro digit_add_lt) auto
  show ?case
  proof (cases "32 \<le> width + 12")
    case True
    let ?r = "width - 20"
    have r: "(width + 12) mod 32 = ?r" "width + 12 - 32 = ?r" "width + 12 = 32 + ?r" "?r < 32"
      using True Cons.prems(1) by (auto simp: mod_if)
    have "unat cw div 2 ^ ?r < 4294967296"
      using c_lt unfolding r(3) by (simp add: less_mult_imp_div_less power_add)
    then obtain w where w: "u32_try_from (drop_bit ?r cw) = Some w" "unat w = unat cw div 2 ^ ?r"
      using u32_try_from_lt [of "drop_bit ?r cw"] by (auto simp only: unat_drop_bit)
    let ?c' = "take_bit ?r cw"
    have step: "pack_loop packed width current (e # es) = pack_loop (packed @ [w]) ?r ?c' es"
      using True w(1) by (simp only: pack_loop.simps Let_def cw_def [symmetric] r(1,2) and_exp_minus_one if_True option.case)
    have "be 32 (packed @ [w]) * 2 ^ ?r + unat ?c' = be 32 packed * 2 ^ (32 + ?r) + unat cw"
      by (simp add: be_append w(2) unat_take_bit power_add algebra_simps)
    then have num: "be 32 (packed @ [w]) * 2 ^ ?r + unat ?c' =
        (be 32 packed * 2 ^ width + unat current) * 2 ^ 12 + unat e"
      unfolding r(3) [symmetric] c by (simp add: power_add algebra_simps)
    obtain out pad where "pack_loop (packed @ [w]) ?r ?c' es = Inr out" "pad < 32"
        "32 * length out = 32 * length (packed @ [w]) + ?r + 12 * length es + pad"
        "be 32 out = ((be 32 (packed @ [w]) * 2 ^ ?r + unat ?c') * 2 ^ (12 * length es) + be 12 es) * 2 ^ pad"
      using Cons.IH [OF r(4), of ?c' "packed @ [w]"] Cons.prems(3) by (auto simp: unat_take_bit)
    with step num r(3) show ?thesis
      by (intro exI [of _ out] exI [of _ pad]) (simp only: be12_shift_Cons, simp)
  next
    case False
    then have step: "pack_loop packed width current (e # es) = pack_loop packed (width + 12) cw es"
      by (simp add: Let_def cw_def)
    have num: "be 32 packed * 2 ^ (width + 12) + unat cw =
        (be 32 packed * 2 ^ width + unat current) * 2 ^ 12 + unat e"
      unfolding c by (simp add: power_add algebra_simps)
    obtain out pad where "pack_loop packed (width + 12) cw es = Inr out" "pad < 32"
        "32 * length out = 32 * length packed + (width + 12) + 12 * length es + pad"
        "be 32 out = ((be 32 packed * 2 ^ (width + 12) + unat cw) * 2 ^ (12 * length es) + be 12 es) * 2 ^ pad"
      using Cons.IH [of "width + 12" cw packed] Cons.prems(3) False c_lt by auto
    with step num show ?thesis
      by (intro exI [of _ out] exI [of _ pad]) (simp only: be12_shift_Cons, simp)
  qed
qed

lemma pack_loop_encodes: "u12s es \<Longrightarrow> \<exists>xs. pack_loop [] 0 0 es = Inr xs \<and> encodes xs es"
  using pack_loop_number [of 0 0 es "[]"] by (auto simp: encodes_def)

text \<open>One pass of the inner loop of \<^verbatim>\<open>try_unpack\<close> takes the twelve most significant bits.\<close>

lemma clear_top_group:
  assumes "unat (c :: u64) < 2 ^ (m + 12)"
  shows "c AND NOT (push_bit m (push_bit 12 1 - 1)) = take_bit m c"
proof -
  have "take_bit (m + 12) c = c" using assms by (intro word_eq_unatI) (simp add: unat_take_bit)
  then have high: "n - m < 12" if "bit c n" "\<not> n < m" for n
    using that by (metis bit_take_bit_iff less_diff_conv2 add.commute not_less)
  have mask: "push_bit 12 1 - 1 = (mask 12 :: u64)" by (simp only: mask_eq_exp_minus_1 push_bit_eq_mult mult_1)
  show ?thesis
    unfolding mask using high by (intro bit_eqI) (auto simp only: bit_simps, auto)
qed

lemma unpack_while_step:
  assumes "12 \<le> width" "rem \<noteq> 0" "unat current < 2 ^ width"
  obtains w where "unpack_while unp rem current width =
      unpack_while (unp @ [w]) (rem - 1) (take_bit (width - 12) current) (width - 12)"
    "unat w = unat current div 2 ^ (width - 12)" "unat w < 4096"
proof -
  have shift: "width mod 12 + (width div 12 - 1) * 12 = width - 12"
    using assms(1) by presburger
  have pow: "(2::nat) ^ width = 4096 * 2 ^ (width - 12)"
    using assms(1) power_add [of "2::nat" 12 "width - 12"] by simp
  then have lt: "unat current div 2 ^ (width - 12) < 4096"
    using assms(3) by (simp add: less_mult_imp_div_less)
  then have val: "unat (take_bit 12 (drop_bit (width - 12) current)) = unat current div 2 ^ (width - 12)"
    by (simp add: unat_take_bit unat_drop_bit)
  with lt obtain w where "u32_try_from (take_bit 12 (drop_bit (width - 12) current)) = Some w"
      "unat w = unat current div 2 ^ (width - 12)"
    using u32_try_from_lt [of "take_bit 12 (drop_bit (width - 12) current)"] by auto
  moreover have "current AND NOT (push_bit (width - 12) (push_bit 12 1 - 1)) = take_bit (width - 12) current"
    using assms(1,3) by (intro clear_top_group) simp
  ultimately show ?thesis
    using assms(1,2) lt that
    by (subst (asm) unpack_while.simps [of unp rem]) (simp only: Let_def shift and_exp_minus_one, simp)
qed

lemma unpack_while_number:
  assumes "unat current < 2 ^ width"
  shows "\<exists>es rem' current' width'.
    unpack_while unp rem current width = Inr (unp @ es, rem', current', width') \<and>
    length es = min (unat rem) (width div 12) \<and> unat rem' = unat rem - length es \<and>
    width = width' + 12 * length es \<and> unat current' < 2 ^ width' \<and> u12s es \<and>
    unat current = be 12 es * 2 ^ width' + unat current'"
  using assms
proof (induction width arbitrary: unp rem current rule: less_induct)
  case (less width)
  show ?case
  proof (cases "12 \<le> width \<and> rem \<noteq> 0")
    case False
    then have "unpack_while unp rem current width = Inr (unp, rem, current, width)"
      by (subst unpack_while.simps) (simp only: if_False)
    with False less.prems show ?thesis
      by (intro exI [of _ "[]"] exI [of _ rem] exI [of _ current] exI [of _ width]) auto
  next
    case True
    then obtain w where w: "unpack_while unp rem current width =
        unpack_while (unp @ [w]) (rem - 1) (take_bit (width - 12) current) (width - 12)"
        "unat w = unat current div 2 ^ (width - 12)" "unat w < 4096"
      using unpack_while_step [of width rem current unp] less.prems by blast
    have rem: "unat (rem - 1) = unat rem - 1" using True by (simp add: unat_minus_one)
    have lt: "unat (take_bit (width - 12) current) < 2 ^ (width - 12)" by (simp add: unat_take_bit)
    have dec: "width - 12 < width" using True by simp
    note ih = less.IH [OF dec lt, of "unp @ [w]" "rem - 1"]
    have "unat rem \<noteq> 0" using True by (simp add: unat_eq_zero)
    obtain es rem' current' width' where IH:
        "unpack_while (unp @ [w]) (rem - 1) (take_bit (width - 12) current) (width - 12) =
          Inr ((unp @ [w]) @ es, rem', current', width')"
        "length es = min (unat rem - 1) ((width - 12) div 12)" "unat rem' = unat rem - 1 - length es"
        "width - 12 = width' + 12 * length es" "unat current' < 2 ^ width'" "u12s es"
        "unat current mod 2 ^ (width - 12) = be 12 es * 2 ^ width' + unat current'"
      using ih unfolding rem unat_take_bit by blast
    have "unat current = unat w * 2 ^ (width - 12) + unat current mod 2 ^ (width - 12)"
      by (simp only: w(2) div_mult_mod_eq)
    also have "\<dots> = unat w * 2 ^ (width' + 12 * length es) + (be 12 es * 2 ^ width' + unat current')"
      by (simp only: IH(7)) (simp only: IH(4))
    finally have "unat current = be 12 (w # es) * 2 ^ width' + unat current'"
      by (simp add: be_Cons power_add distrib_right)
    moreover have "length (w # es) = min (unat rem) (width div 12)"
      using IH(2) True \<open>unat rem \<noteq> 0\<close> by (cases "unat rem") (simp_all add: le_div_geq)
    moreover have "unpack_while unp rem current width = Inr (unp @ w # es, rem', current', width')"
      using w(1) IH(1) by simp
    moreover have "width = width' + 12 * length (w # es)" using IH(4) True by simp linarith
    moreover have "unat rem' = unat rem - length (w # es)" using IH(3) by simp
    moreover have "u12s (w # es)" using IH(6) w(3) by simp
    ultimately show ?thesis using IH(5) by blast
  qed
qed

lemma unpack_for_number:
  assumes "width < 12" "unat current < 2 ^ width"
    and "12 * unat rem \<le> width + 32 * length xs" "width + 32 * length xs < 12 * unat rem + 32"
  shows "\<exists>es tail. unpack_for unp rem current width xs = Inr (unp @ es) \<and> length es = unat rem \<and>
    u12s es \<and> tail < 2 ^ (width + 32 * length xs - 12 * unat rem) \<and>
    unat current * 2 ^ (32 * length xs) + be 32 xs =
      be 12 es * 2 ^ (width + 32 * length xs - 12 * unat rem) + tail"
  using assms
proof (induction xs arbitrary: unp rem current width)
  case Nil
  then have "unat rem = 0" by simp
  with Nil show ?case by (intro exI [of _ "[]"] exI [of _ "unat current"]) auto
next
  case (Cons x xs)
  let ?c = "push_bit 32 current OR ucast x :: u64"
  have "unat current < 2 ^ 12"
    using Cons.prems(1,2) power_strict_increasing [of width 12 "2::nat"] by simp
  then have c: "unat ?c = unat current * 2 ^ 32 + unat x"
    using unat_push_or [of "ucast x :: u64" 32 current] unat_u32_lt [of x] by (simp add: unat_ucast_up)
  have "unat ?c < 2 ^ (width + 32)"
    unfolding c using Cons.prems(2) unat_u32_lt [of x] by (intro digit_add_lt) simp_all
  then obtain es rem' current' width' where wh:
      "unpack_while unp rem ?c (width + 32) = Inr (unp @ es, rem', current', width')"
      "length es = min (unat rem) ((width + 32) div 12)" "unat rem' = unat rem - length es"
      "width + 32 = width' + 12 * length es" "unat current' < 2 ^ width'" "u12s es"
      "unat ?c = be 12 es * 2 ^ width' + unat current'"
    using unpack_while_number [of ?c "width + 32" unp rem] by blast
  have step: "unpack_for unp rem current width (x # xs) = unpack_for (unp @ es) rem' current' width' xs"
    using wh(1) by (simp add: bind_res_def)
  have num: "unat current * 2 ^ (32 * length (x # xs)) + be 32 (x # xs) =
      be 12 es * 2 ^ (width' + 32 * length xs) + (unat current' * 2 ^ (32 * length xs) + be 32 xs)"
  proof -
    have "(unat current * 2 ^ 32 + unat x) * 2 ^ (32 * length xs) =
        (be 12 es * 2 ^ width' + unat current') * 2 ^ (32 * length xs)"
      using c wh(7) by argo
    moreover have "(2::nat) ^ (32 * length (x # xs)) = 2 ^ 32 * 2 ^ (32 * length xs)"
      by (simp only: length_Cons mult_Suc_right power_add)
    ultimately show ?thesis
      by (simp only: be_Cons power_add [of _ width'] distrib_right mult.assoc add.assoc [symmetric])
    qed
  show ?case
  proof (cases "unat rem \<le> (width + 32) div 12")
    case True
    then have len: "length es = unat rem" using wh(2) by simp
    then have "xs = []" using wh(4) Cons.prems(3,4) by (cases xs) auto
    moreover have "width + 32 * length [x] - 12 * unat rem = width'" using wh(4) len by simp
    ultimately show ?thesis
      using step num wh(5,6) len by (intro exI [of _ es] exI [of _ "unat current'"]) simp
  next
    case False
    then have len: "length es = (width + 32) div 12" using wh(2) by simp
    then have w': "width' < 12" using wh(4) by presburger
    have bal: "12 * unat rem' + (width + 32) = 12 * unat rem + width'"
    proof -
      have "length es < unat rem" unfolding len using False by (simp only: not_le)
      then show ?thesis using wh(3,4) by arith
    qed
    obtain fs tail where IH: "unpack_for (unp @ es) rem' current' width' xs = Inr ((unp @ es) @ fs)"
        "length fs = unat rem'" "u12s fs" "tail < 2 ^ (width' + 32 * length xs - 12 * unat rem')"
        "unat current' * 2 ^ (32 * length xs) + be 32 xs =
          be 12 fs * 2 ^ (width' + 32 * length xs - 12 * unat rem') + tail"
    proof -
      have "12 * unat rem' \<le> width' + 32 * length xs" "width' + 32 * length xs < 12 * unat rem' + 32"
        using Cons.prems(3,4) bal by auto
      from Cons.IH [OF w' wh(5) this, of "unp @ es"] that show ?thesis by blast
    qed
    have pad: "width + 32 * length (x # xs) - 12 * unat rem = width' + 32 * length xs - 12 * unat rem'"
      using bal by simp
    have "width' + 32 * length xs = 12 * length fs + (width' + 32 * length xs - 12 * unat rem')"
      using IH(2) Cons.prems(3) bal by simp
    then have "(2::nat) ^ (width' + 32 * length xs) =
        2 ^ (12 * length fs) * 2 ^ (width' + 32 * length xs - 12 * unat rem')"
      by (metis power_add)
    then have "be 12 es * 2 ^ (width' + 32 * length xs) +
        be 12 fs * 2 ^ (width' + 32 * length xs - 12 * unat rem') =
        be 12 (es @ fs) * 2 ^ (width' + 32 * length xs - 12 * unat rem')"
      by (simp only: be_append distrib_right mult.assoc)
    moreover have "length (es @ fs) = unat rem" using IH(2) wh(3) len False by simp
    moreover have "u12s (es @ fs)" using IH(3) wh(6) by auto
    ultimately show ?thesis
      using step num IH(1,4,5) unfolding pad by (intro exI [of _ "es @ fs"] exI [of _ tail]) simp
  qed
qed

section \<open>The length indicator\<close>

text \<open>The first packed word starts with the first two 12-bit groups.\<close>

lemma head_groups:
  assumes "be 32 (x # xs) = be 12 (a # b # es) * 2 ^ p + t" "t < 2 ^ p" "u12s (a # b # es)"
    and "32 * length (x # xs) = 12 * length (a # b # es) + p"
  shows "unat x div 256 = unat a * 4096 + unat b"
proof -
  let ?N = "2 ^ (32 * length xs) :: nat" and ?M = "2 ^ (12 * length es + p) :: nat"
  have M: "?M = 256 * ?N"
    using assms(4) power_add [of "2::nat" 8 "32 * length xs"] by simp
  have rest: "be 12 es * 2 ^ p + t < ?M"
    using be12_lt [of es] assms(2,3) by (intro digit_add_lt) simp_all
  have "be 12 (a # b # es) * 2 ^ p + t = (unat a * 4096 + unat b) * ?M + (be 12 es * 2 ^ p + t)"
    by (simp add: be_Cons power_add distrib_right distrib_left ac_simps)
  then have "be 32 (x # xs) div ?M = unat a * 4096 + unat b"
    unfolding assms(1) using rest by (simp only: div_mult_self3 div_less)
  moreover have "be 32 (x # xs) div ?M = unat x div 256"
    unfolding M mult.commute [of 256] div_mult2_eq be_Cons using be32_lt [of xs] by simp
  ultimately show ?thesis by simp
qed

lemma indicated_length_groups:
  fixes a b x :: u32
  assumes "unat x div 256 = unat a * 4096 + unat b" "unat a < 4096" "unat b < 4096"
  shows "indicated_length x = (if unat a < 2048 then (a, 1)
    else (of_nat ((unat a - 2048) * 4096 + unat b), 2))"
proof -
  have first: "drop_bit 20 x AND (push_bit 12 1 - 1) = a"
  proof (rule word_eq_unatI)
    have "unat x div 2 ^ 20 = unat x div 256 div 4096" by (simp add: div_mult2_eq [symmetric])
    then show "unat (drop_bit 20 x AND (push_bit 12 1 - 1)) = unat a"
      using assms by (simp only: and_exp_minus_one unat_take_bit unat_drop_bit) simp
  qed
  have second: "drop_bit 8 x AND (push_bit 12 1 - 1) = b"
    using assms by (intro word_eq_unatI) (simp only: and_exp_minus_one unat_take_bit unat_drop_bit, simp)
  have flag: "a < LONG_LENGTH_FLAG \<longleftrightarrow> unat a < 2048"
    by (simp add: LONG_LENGTH_FLAG_def word_less_nat_alt)
  have "push_bit 12 (a AND (LONG_LENGTH_FLAG - 1)) OR b = of_nat ((unat a - 2048) * 4096 + unat b)"
    if "\<not> unat a < 2048"
  proof (rule word_eq_unatI)
    have hi: "unat (a AND (LONG_LENGTH_FLAG - 1)) = unat a - 2048"
      unfolding LONG_LENGTH_FLAG_def and_exp_minus_one unat_take_bit
      using that assms(2) by (simp add: mod_if)
    show "unat (push_bit 12 (a AND (LONG_LENGTH_FLAG - 1)) OR b) =
        unat (of_nat ((unat a - 2048) * 4096 + unat b) :: u32)"
      using unat_push_or [of b 12 "a AND (LONG_LENGTH_FLAG - 1)"] assms(2,3) that
      unfolding hi by (simp add: unsigned_of_nat take_bit_nat_eq_self del: of_nat_add push_bit_and)
  qed
  then show ?thesis
    by (simp only: indicated_length_def Let_def first second flag if_False split: if_split) simp
qed

lemma length_encoding_of_nat:
  assumes "n \<le> 92160"
  shows "length_encoding_of (of_nat n) =
    (if n < 2048 then [of_nat n] else [of_nat (2048 + n div 4096), of_nat (n mod 4096)])"
proof -
  have n: "unat (of_nat n :: u32) = n" using assms by (simp add: unsigned_of_nat take_bit_nat_eq_self)
  have hi: "drop_bit 12 (of_nat n) OR LONG_LENGTH_FLAG = (of_nat (2048 + n div 4096) :: u32)"
  proof (rule word_eq_unatI)
    have "unat (drop_bit 12 (of_nat n) :: u32) = n div 4096" by (simp only: unat_drop_bit n) simp
    then show "unat (drop_bit 12 (of_nat n) OR LONG_LENGTH_FLAG) = unat (of_nat (2048 + n div 4096) :: u32)"
      unfolding LONG_LENGTH_FLAG_def or.commute [of "drop_bit 12 (of_nat n)"]
      using assms
      by (subst unat_push_or) (simp_all add: unsigned_of_nat take_bit_nat_eq_self del: of_nat_add)
  qed
  have lo: "of_nat n AND (push_bit 12 1 - 1) = (of_nat (n mod 4096) :: u32)"
    by (rule word_eq_unatI)
       (simp only: and_exp_minus_one unat_take_bit n, simp add: unsigned_of_nat take_bit_nat_eq_self)
  have "(of_nat n :: u32) < LONG_LENGTH_FLAG \<longleftrightarrow> n < 2048"
    using n by (simp add: LONG_LENGTH_FLAG_def word_less_nat_alt)
  then show ?thesis by (simp only: length_encoding_of_def hi lo split: if_split)
qed

text \<open>The length indicator of a packed stream whose first groups are that of \<open>n\<close> elements.\<close>

lemma indicated_length_encoding:
  assumes "n \<le> 92160" "0 < n" "length es = n" "xs \<noteq> []"
    and "be 32 xs = be 12 (length_encoding_of (of_nat n) @ es) * 2 ^ p + t" "t < 2 ^ p"
    and "u12s (length_encoding_of (of_nat n) @ es)"
    and "32 * length xs = 12 * length (length_encoding_of (of_nat n) @ es) + p"
  shows "indicated_length (hd xs) = (of_nat n, of_nat (length (length_encoding_of (of_nat n))))"
proof -
  obtain x xs' where xs: "xs = x # xs'" using assms(4) by (cases xs) auto
  obtain e es' where es: "es = e # es'" using assms(2,3) by (cases es) auto
  show ?thesis
  proof (cases "n < 2048")
    case True
    then have enc: "length_encoding_of (of_nat n) = [of_nat n]"
      using length_encoding_of_nat [OF assms(1)] by simp
    have "unat x div 256 = unat (of_nat n :: u32) * 4096 + unat e"
      using head_groups [of x xs' "of_nat n" e es' p t] assms(5-8) unfolding enc xs es by simp
    then show ?thesis
      using indicated_length_groups [of x "of_nat n" e] assms(7) True
      unfolding enc xs es by (simp add: unsigned_of_nat take_bit_nat_eq_self)
  next
    case False
    let ?a = "of_nat (2048 + n div 4096) :: u32" and ?b = "of_nat (n mod 4096) :: u32"
    have enc: "length_encoding_of (of_nat n) = [?a, ?b]"
      using length_encoding_of_nat [OF assms(1)] False by simp
    have ab: "unat ?a = 2048 + n div 4096" "unat ?b = n mod 4096"
      using assms(1) by (simp_all add: unsigned_of_nat take_bit_nat_eq_self del: of_nat_add)
    have "unat x div 256 = unat ?a * 4096 + unat ?b"
      using head_groups [of x xs' ?a ?b es p t] assms(5-8) unfolding enc xs by simp
    then show ?thesis
      using indicated_length_groups [of x ?a ?b] assms(1)
      unfolding enc xs ab by (simp add: ab)
  qed
qed

text \<open>What the checks of \<^verbatim>\<open>try_unpack\<close> before the loop establish, read as numbers.\<close>

lemma ceil_div_32: "((k::nat) + 31) div 32 = n \<longleftrightarrow> k \<le> 32 * n \<and> 32 * n < k + 32"
proof -
  have "32 * ((k + 31) div 32) + (k + 31) mod 32 = k + 31" "(k + 31) mod 32 < 32" by simp_all
  then show ?thesis by linarith
qed

lemma ceil_pad_32:
  assumes "(k::nat) \<le> 32 * n" "32 * n < k + 32"
  shows "(if k mod 32 \<noteq> 0 then 32 - k mod 32 else 0) = 32 * n - k"
proof -
  obtain q r where k: "k = 32 * q + r" "k mod 32 = r" "r < 32"
    using that [of "k div 32" "k mod 32"] by simp
  show ?thesis
  proof (cases "r = 0")
    case True
    then have "n = q" using assms k(1) by linarith
    with True k show ?thesis by simp
  next
    case False
    then have "n = q + 1" using assms k(1,3) by linarith
    with False k show ?thesis by simp
  qed
qed

lemma packed_length_check:
  assumes "L \<le> 8388608" "m \<le> 2" "n \<le> 34561"
  shows "((of_nat L + of_nat m) * 12 + 31) div 32 = (of_nat n :: u32) \<longleftrightarrow>
    12 * (L + m) \<le> 32 * n \<and> 32 * n < 12 * (L + m) + 32"
proof -
  have "((of_nat L + of_nat m) * 12 + 31) div 32 = (of_nat (((L + m) * 12 + 31) div 32) :: u32)"
  proof -
    have "((of_nat L + of_nat m) * 12 + 31 :: u32) = of_nat ((L + m) * 12 + 31)" by simp
    moreover have "unat (of_nat ((L + m) * 12 + 31) :: u32) = (L + m) * 12 + 31"
      using assms by (simp add: unsigned_of_nat take_bit_nat_eq_self del: of_nat_add of_nat_mult)
    moreover have "unat (of_nat (((L + m) * 12 + 31) div 32) :: u32) = ((L + m) * 12 + 31) div 32"
      using assms by (simp add: unsigned_of_nat take_bit_nat_eq_self del: of_nat_add of_nat_mult)
    ultimately show ?thesis by (intro word_eq_unatI) (simp only: unat_div unat_numeral, simp)
  qed
  moreover have "((L + m) * 12 + 31) div 32 < 4294967296" "n < 4294967296" using assms by auto
  ultimately have "((of_nat L + of_nat m) * 12 + 31) div 32 = (of_nat n :: u32) \<longleftrightarrow>
      ((L + m) * 12 + 31) div 32 = n"
    by (simp add: word_unat_eq_iff unsigned_of_nat take_bit_nat_eq_self)
  then show ?thesis by (simp only: ceil_div_32 mult.commute)
qed

lemma unpack_tail_length_pad:
  assumes "L \<le> 8388608" "m \<le> 2" "12 * (L + m) \<le> 32 * n" "32 * n < 12 * (L + m) + 32"
  shows "unat (unpack_tail_length ((of_nat L + of_nat m) * 12)) = 32 * n - 12 * (L + m)"
proof -
  let ?t = "(L + m) * 12"
  have "unat (of_nat ?t :: u32) = ?t"
    using assms by (simp add: unsigned_of_nat take_bit_nat_eq_self del: of_nat_add of_nat_mult)
  then have md: "(of_nat ?t :: u32) mod 32 = of_nat (?t mod 32)"
    by (intro word_eq_unatI) (simp add: unat_mod unsigned_of_nat take_bit_nat_eq_self del: of_nat_add of_nat_mult)
  have r: "unat (of_nat (?t mod 32) :: u32) = ?t mod 32" "?t mod 32 < 32"
    by (simp_all add: unsigned_of_nat take_bit_nat_eq_self)
  then have z: "(of_nat (?t mod 32) :: u32) \<noteq> 0 \<longleftrightarrow> ?t mod 32 \<noteq> 0"
    by (metis unat_eq_zero)
  have "unat (32 - of_nat (?t mod 32) :: u32) = 32 - ?t mod 32"
    using r by (subst unat_sub_le) (simp_all add: word_le_nat_alt)
  then have "unat (unpack_tail_length (of_nat ?t)) = (if ?t mod 32 \<noteq> 0 then 32 - ?t mod 32 else 0)"
    unfolding unpack_tail_length_def Let_def md z by simp
  also have "\<dots> = 32 * n - ?t" using assms(3,4) by (intro ceil_pad_32) simp_all
  finally show ?thesis by (simp add: mult.commute)
qed

section \<open>Round trips\<close>

lemma last_padding:
  assumes "xs \<noteq> []" "p < 32"
  shows "last xs AND (push_bit p 1 - 1) = 0 \<longleftrightarrow> be 32 xs mod 2 ^ p = 0"
proof -
  obtain ys where "xs = ys @ [last xs]" using assms(1) by (metis append_butlast_last_id)
  then have "be 32 xs = be 32 ys * 2 ^ 32 + unat (last xs)" using be_append [of 32 ys "[last xs]"] by simp
  moreover have "(2::nat) ^ 32 = 2 ^ p * 2 ^ (32 - p)" using assms(2) by (simp flip: power_add)
  ultimately have "be 32 xs mod 2 ^ p = unat (last xs) mod 2 ^ p"
    by (metis mod_mult_self4 mult.left_commute)
  then show ?thesis
    by (simp only: and_exp_minus_one word_unat_eq_iff unat_take_bit unsigned_0)
qed

text \<open>The unpacking of a non-empty list of words whose length indicator is consistent: it returns the
  stream of groups that the words encode, unless bits of the padding are set.\<close>

lemma try_unpack_consistent:
  assumes "xs \<noteq> []" "length xs \<le> 34561"
    and "indicated_length (hd xs) = (of_nat L, of_nat m)" "0 < L" "L \<le> 8388608" "m = 1 \<or> m = 2"
    and "m = 2 \<longrightarrow> 2048 \<le> L"
    and "12 * (L + m) \<le> 32 * length xs" "32 * length xs < 12 * (L + m) + 32"
  obtains (padded) "try_unpack (Chunk xs) = Inr (Inl NonzeroTrailingPadding)" "\<not> (\<exists>es. encodes xs es \<and> length es = L + m)"
  | (stream) es where "try_unpack (Chunk xs) = Inr (Inr (Chunk (drop m es)))" "encodes xs es"
      "length es = L + m"
proof -
  let ?p = "32 * length xs - 12 * (L + m)"
  have nums: "unat (of_nat L + of_nat m :: u32) = L + m" "unat (of_nat m :: u32) = m"
      "(of_nat L :: u32) \<noteq> 0" "of_nat L < LONG_LENGTH_FLAG \<longleftrightarrow> L < 2048" "(of_nat m :: u32) = 2 \<longleftrightarrow> m = 2"
    using assms(4-6) by (auto simp: unat_word_ariths unsigned_of_nat take_bit_nat_eq_self
        word_unat_eq_iff word_less_nat_alt LONG_LENGTH_FLAG_def)
  obtain es t where es: "unpack_for [] (of_nat L + of_nat m) 0 0 xs = Inr es" "length es = L + m" "u12s es"
      "t < 2 ^ ?p" "be 32 xs = be 12 es * 2 ^ ?p + t"
    using unpack_for_number [of 0 0 "of_nat L + of_nat m" xs "[]"] assms(8,9) unfolding nums by auto
  have pad: "unat (unpack_tail_length ((of_nat L + of_nat m) * 12)) = ?p"
    using assms by (intro unpack_tail_length_pad) auto
  have chk: "((of_nat L + of_nat m) * 12 + 31) div 32 = (of_nat (length xs) :: u32)"
    using packed_length_check [of L m "length xs"] assms by auto
  have unp: "try_unpack (Chunk xs) = (if last xs AND (push_bit ?p 1 - 1) \<noteq> 0
      then Inr (Inl NonzeroTrailingPadding) else Inr (Inr (Chunk (drop m es))))"
    unfolding try_unpack_def Let_def chunk.sel assms(3) prod.case pad nums
    using assms(1,2,7) es(1,2) nums(3) chk by (auto simp: MAX_PACKED_LENGTH_def bind_res_def)
  have t: "last xs AND (push_bit ?p 1 - 1) = 0 \<longleftrightarrow> t = 0"
    using last_padding [OF assms(1), of ?p] es(4,5) assms(8,9) by auto
  show ?thesis
  proof (cases "t = 0")
    case True
    then have "encodes xs es" using es assms(8,9) by (simp add: encodes_def)
    with True show ?thesis using stream [of es] unp t es(2) by simp
  next
    case False
    have "\<not> encodes xs fs" if "length fs = L + m" for fs
    proof
      assume "encodes xs fs"
      then have "be 32 xs mod 2 ^ ?p = 0" using that by (simp add: encodes_def)
      with es(4,5) False show False by simp
    qed
    with False unp t padded show ?thesis by auto
  qed
qed

lemma pack_unpacks:
  assumes "list_all (\<lambda>x. x < CHUNK_SIZE) (relative_indices c)"
    and "length (relative_indices c) \<le> MAX_UNPACKED_LENGTH"
  shows "\<exists>packed. chunk_pack c = Inr packed \<and> try_unpack packed = Inr (Inr c)"
proof (cases "relative_indices c = []")
  case True
  then show ?thesis by (intro exI [of _ c]) (cases c, simp add: chunk_pack_def try_unpack_def)
next
  case False
  let ?u = "relative_indices c" let ?n = "length ?u"
  let ?enc = "length_encoding_of (of_nat ?n)" let ?m = "length ?enc"
  have n: "?n \<le> 92160" "0 < ?n" using assms(2) False by (simp_all add: MAX_UNPACKED_LENGTH_def)
  have u: "u12s ?u" using assms(1) by (auto simp: list_all_iff CHUNK_SIZE_def word_less_nat_alt)
  have m: "u12s ?enc" "?m = 1 \<or> ?m = 2" "?m = 2 \<longrightarrow> 2048 \<le> ?n"
    using n by (auto simp: length_encoding_of_nat unsigned_of_nat take_bit_nat_eq_self simp del: of_nat_add)
  obtain xs where xs: "pack_loop [] 0 0 (?enc @ ?u) = Inr xs" "encodes xs (?enc @ ?u)"
    using pack_loop_encodes [of "?enc @ ?u"] u m(1) by auto
  have ne: "xs \<noteq> []" and len: "length xs \<le> 34561"
    using xs(2) n m(2) by (auto simp: encodes_def)
  have pack: "chunk_pack c = Inr (Chunk xs)"
    using assms False xs(1) by (simp add: chunk_pack_def pack_with_length_encoding_def res_simps)
  have ind: "indicated_length (hd xs) = (of_nat ?n, of_nat ?m)"
    using xs(2) indicated_length_encoding [OF n refl ne, of "32 * length xs - 12 * length (?enc @ ?u)" 0]
    by (simp add: encodes_def)
  have "?n \<le> 8388608" "12 * (?n + ?m) \<le> 32 * length xs" "32 * length xs < 12 * (?n + ?m) + 32"
    using n xs(2) by (auto simp: encodes_def)
  note cs = try_unpack_consistent [OF ne len ind n(2) this(1) m(2,3) this(2,3), case_names padded stream]
  show ?thesis
  proof (cases rule: cs)
    case padded
    with xs(2) show ?thesis by (auto simp: add.commute)
  next
    case (stream es)
    let ?k = "32 * length xs - 12 * (?n + ?m)"
    have "be 12 es * 2 ^ ?k = be 12 (?enc @ ?u) * 2 ^ ?k"
      using stream xs(2) by (simp add: encodes_def add.commute)
    then have "be 12 es = be 12 (?enc @ ?u)" by simp
    then have "es = ?enc @ ?u"
      using stream xs(2) by (intro be_inj [of _ _ 12]) (auto simp: encodes_def)
    then show ?thesis using stream(1) pack by (cases c) auto
  qed
qed

text \<open>(C30) Unpacking is the inverse of packing: a chunk of at most 92160 positions, each below the
  chunk size, packs without a panic, and what it packs to unpacks to the same chunk.\<close>

theorem unpack_pack:
  assumes "list_all (\<lambda>x. x < CHUNK_SIZE) (relative_indices c)"
    and "length (relative_indices c) \<le> MAX_UNPACKED_LENGTH"
  shows "\<exists>packed. chunk_pack c = Inr packed \<and> try_unpack packed = Inr (Inr c)"
  using assms by (rule pack_unpacks)

theorem unpack_pack_witness:
  "\<exists>packed. chunk_pack (Chunk [1, 7, 4095]) = Inr packed \<and> try_unpack packed = Inr (Inr (Chunk [1, 7, 4095]))"
  using unpack_pack [of "Chunk [1, 7, 4095]"] by (simp add: CHUNK_SIZE_def MAX_UNPACKED_LENGTH_def)

lemma indicated_length_cases:
  obtains (short) a where "indicated_length x = (a, 1)" "unat a < 2048"
  | (long) L where "indicated_length x = (of_nat L, of_nat 2)" "L < 8388608"
proof -
  let ?a = "of_nat (unat x div 1048576) :: u32" and ?b = "of_nat (unat x div 256 mod 4096) :: u32"
  have lt: "unat x div 1048576 < 4096" using unat_u32_lt [of x] by (simp add: less_mult_imp_div_less)
  have ab: "unat ?a = unat x div 1048576" "unat ?b = unat x div 256 mod 4096" "unat ?a < 4096" "unat ?b < 4096"
    using lt by (simp_all add: unsigned_of_nat take_bit_nat_eq_self)
  have "unat x div 256 div 4096 = unat x div 1048576" by (simp add: div_mult2_eq [symmetric])
  then have "unat x div 256 = unat ?a * 4096 + unat ?b" unfolding ab
    by (metis div_mult_mod_eq)
  note ind = indicated_length_groups [OF this ab(3,4)]
  show ?thesis
  proof (cases "unat ?a < 2048")
    case True
    with ind short show ?thesis by simp
  next
    case False
    let ?L = "(unat ?a - 2048) * 4096 + unat ?b"
    have "?L < 8388608" using False ab(3,4) by linarith
    with ind False long [of ?L] show ?thesis by (simp only: if_False of_nat_numeral)
  qed
qed

text \<open>The length indicator that \<^verbatim>\<open>try_unpack\<close> accepts is the one that \<^verbatim>\<open>pack\<close> produces.\<close>

lemma indicated_length_canonical:
  assumes "encodes xs es" "indicated_length (hd xs) = (of_nat L, of_nat m)" "length es = L + m"
    and "0 < L" "L \<le> 92160" "m = 1 \<or> m = 2" "m = 2 \<longrightarrow> 2048 \<le> L"
  shows "take m es = length_encoding_of (of_nat L)"
proof -
  obtain a b es' where es: "es = a # b # es'"
    using assms(3,4,6) by (cases es rule: list.exhaust; cases "tl es" rule: list.exhaust) auto
  obtain x xs' where xs: "xs = x # xs'" using assms(1) es by (cases xs) (auto simp: encodes_def)
  have "unat x div 256 = unat a * 4096 + unat b"
    using assms(1) head_groups [of x xs' a b es' "32 * length xs - 12 * length es" 0]
    unfolding xs es by (simp add: encodes_def)
  then have ind: "indicated_length x = (if unat a < 2048 then (a, 1)
      else (of_nat ((unat a - 2048) * 4096 + unat b), 2))"
    using assms(1) by (intro indicated_length_groups) (simp_all add: es encodes_def)
  have lt: "unat a < 4096" "unat b < 4096" using assms(1) by (simp_all add: es encodes_def)
  show ?thesis
  proof (cases "unat a < 2048")
    case True
    with ind assms(2,6) have m: "a = of_nat L" "m = 1" by (auto simp: xs)
    with True assms(5) have "L < 2048" by (simp add: unsigned_of_nat take_bit_nat_eq_self)
    with m show ?thesis using length_encoding_of_nat [OF assms(5)] by (simp add: es)
  next
    case False
    let ?L = "(unat a - 2048) * 4096 + unat b"
    have "?L < 4294967296" using lt False by linarith
    with ind False assms(2,5,6) have m: "L = ?L" "m = 2"
      by (auto simp: xs word_unat_eq_iff unsigned_of_nat take_bit_nat_eq_self simp del: of_nat_add of_nat_mult)
    have "a = of_nat (2048 + L div 4096)" "b = of_nat (L mod 4096)"
      using lt False by (auto simp: m(1) simp del: of_nat_add intro!: word_eq_unatI
          simp: unsigned_of_nat take_bit_nat_eq_self)
    with m(2) assms(7) show ?thesis using length_encoding_of_nat [OF assms(5)] by (simp add: es)
  qed
qed

text \<open>(C31) Packing is canonical: whatever \<^verbatim>\<open>try_unpack\<close> accepts is what packing its result gives, so
  no two packed chunks unpack to the same chunk, and every accepted chunk satisfies the size limits
  that \<^verbatim>\<open>pack\<close> asserts.\<close>

theorem pack_unpack_canonical:
  assumes "try_unpack c = Inr (Inr u)"
  shows "chunk_pack u = Inr c"
proof (cases "relative_indices c = []")
  case True
  with assms show ?thesis by (cases c) (auto simp: try_unpack_def chunk_pack_def)
next
  case False
  obtain xs where c: "c = Chunk xs" by (cases c)
  with False have ne: "xs \<noteq> []" by simp
  obtain L m where ind: "indicated_length (hd xs) = (of_nat L, of_nat m)" "m = 1 \<or> m = 2" "L < 8388608"
      "m = 1 \<longrightarrow> L < 2048"
  proof (cases rule: indicated_length_cases [of "hd xs"])
    case (short a)
    then show ?thesis using that [of "unat a" 1] by simp
  next
    case (long L)
    then show ?thesis using that [of L 2] by simp
  qed
  have wL: "of_nat L < LONG_LENGTH_FLAG \<longleftrightarrow> L < 2048" "(of_nat m :: u32) = 2 \<longleftrightarrow> m = 2"
    using ind(2,3) by (auto simp: LONG_LENGTH_FLAG_def word_less_nat_alt unsigned_of_nat take_bit_nat_eq_self)
  have chk: "length xs \<le> 34561" "of_nat L \<noteq> (0::u32)" "m = 2 \<longrightarrow> 2048 \<le> L"
      "((of_nat L + of_nat m) * 12 + 31) div 32 = (of_nat (length xs) :: u32)"
    using assms ne unfolding c try_unpack_def Let_def chunk.sel ind(1) prod.case wL
    by (auto simp: MAX_PACKED_LENGTH_def split: if_splits)
  have L0: "0 < L" using chk(2) by (cases L) auto
  have len: "12 * (L + m) \<le> 32 * length xs" "32 * length xs < 12 * (L + m) + 32"
    using packed_length_check [of L m "length xs"] ind(2,3) chk(1,4) by auto
  have LM: "L \<le> 92160" using len chk(1) ind(2,4) by auto
  have "L \<le> 8388608" using ind(3) by simp
  note cs = try_unpack_consistent [OF ne chk(1) ind(1) L0 this ind(2) chk(3) len, case_names padded stream]
  show ?thesis
  proof (cases rule: cs)
    case padded
    with assms c show ?thesis by simp
  next
    case (stream es)
    have u: "u = Chunk (drop m es)" using stream(1) assms c by simp
    have enc: "take m es = length_encoding_of (of_nat L)"
      using indicated_length_canonical [OF stream(2) ind(1) stream(3) L0 LM ind(2) chk(3)] .
    obtain ys where ys: "pack_loop [] 0 0 es = Inr ys" "encodes ys es"
      using pack_loop_encodes [of es] stream(2) by (auto simp: encodes_def)
    have "list_all (\<lambda>x. x < CHUNK_SIZE) (drop m es)"
      using stream(2) by (auto simp: encodes_def list_all_iff CHUNK_SIZE_def word_less_nat_alt dest: in_set_dropD)
    moreover have "length_encoding_of (of_nat L) @ drop m es = es"
      unfolding enc [symmetric] by simp
    ultimately show ?thesis
      using u ys encodes_unique [OF ys(2) stream(2)] L0 LM stream(3) c
      by (simp add: chunk_pack_def pack_with_length_encoding_def res_simps MAX_UNPACKED_LENGTH_def)
  qed
qed

theorem pack_unpack_canonical_witness:
  "chunk_pack (Chunk [5, 9]) = Inr (Chunk [0x00200500, 0x90000000])"
proof -
  have "try_unpack (Chunk [0x00200500, 0x90000000]) = Inr (Inr (Chunk [5, 9]))"
    by code_simp
  then show ?thesis by (rule pack_unpack_canonical)
qed

end
