(* ===== verification/Active_Window.thy ===== *)
theory Active_Window
  imports Chunk
begin

text \<open>
  \<^verbatim>\<open>consensus/src/mutator_set/active_window.rs\<close>: the active part of the sliding-window Bloom filter,
  a list of positions below the window size. The window slides by one chunk; sliding back is its
  inverse.
\<close>

section \<open>Definitions\<close>

definition WINDOW_SIZE :: u32 where
  "WINDOW_SIZE = push_bit 20 1"

definition BATCH_SIZE :: u32 where
  "BATCH_SIZE = push_bit 3 1"

definition NUM_TRIALS :: u32 where
  "NUM_TRIALS = 45"

datatype active_window = ActiveWindow (sbf: "u32 list")

definition aw_new :: active_window where
  "aw_new = ActiveWindow []"

definition aw_slice :: "active_window \<Rightarrow> u32 \<Rightarrow> u32 \<Rightarrow> u32 list" where
  "aw_slice w start end' = map (\<lambda>l. l - start) (filter (\<lambda>l. start \<le> l \<and> l < end') (sbf w))"

definition slid_chunk :: "active_window \<Rightarrow> chunk" where
  "slid_chunk w = from_indices (aw_slice w 0 CHUNK_SIZE)"

text \<open>\<^verbatim>\<open>zerofy\<close>: collect the positions to drop, then remove them from the last to the first.\<close>

definition zerofy_drops :: "u32 list \<Rightarrow> u32 \<Rightarrow> u32 \<Rightarrow> nat list" where
  "zerofy_drops xs lower upper =
     map fst (filter (\<lambda>(_, location). lower \<le> location \<and> location < upper) (enumerate 0 xs))"

definition zerofy :: "active_window \<Rightarrow> u32 \<Rightarrow> u32 \<Rightarrow> active_window" where
  "zerofy w lower upper =
     ActiveWindow (foldl (\<lambda>xs d. remove_nth d xs) (sbf w) (rev (zerofy_drops (sbf w) lower upper)))"

definition slide_window :: "active_window \<Rightarrow> active_window" where
  "slide_window w = ActiveWindow (map (\<lambda>l. l - CHUNK_SIZE) (sbf (zerofy w 0 CHUNK_SIZE)))"

definition hasset :: "active_window \<Rightarrow> u32 \<Rightarrow> u32 \<Rightarrow> bool" where
  "hasset w lower upper \<longleftrightarrow> list_ex (\<lambda>l. lower \<le> l \<and> l < upper) (sbf w)"

definition slide_window_back :: "active_window \<Rightarrow> chunk \<Rightarrow> active_window res" where
  "slide_window_back w chunk =
     assert_then (\<not> hasset w (WINDOW_SIZE - CHUNK_SIZE) WINDOW_SIZE)
       (Inr (ActiveWindow (sort (map (\<lambda>l. l + CHUNK_SIZE) (sbf w) @ to_indices chunk))))"

definition aw_insert :: "active_window \<Rightarrow> u32 \<Rightarrow> active_window res" where
  "aw_insert w index =
     assert_then (index < WINDOW_SIZE) (Inr (ActiveWindow (sort (sbf w @ [index]))))"

definition aw_remove :: "active_window \<Rightarrow> u32 \<Rightarrow> active_window res" where
  "aw_remove w index =
     assert_then (index < WINDOW_SIZE)
       (case last_position index (sbf w) of
          Some i \<Rightarrow> Inr (ActiveWindow (remove_nth i (sbf w)))
        | None \<Rightarrow> Inl AssertFailed)"

definition aw_contains :: "active_window \<Rightarrow> u32 \<Rightarrow> bool res" where
  "aw_contains w index = assert_then (index < WINDOW_SIZE) (Inr (index \<in> set (sbf w)))"

text \<open>A well-formed window: sorted positions below the window size.\<close>

definition wf_window :: "active_window \<Rightarrow> bool" where
  "wf_window w \<longleftrightarrow> sorted (sbf w) \<and> list_all (\<lambda>l. l < WINDOW_SIZE) (sbf w)"

section \<open>Sliding\<close>

lemma window_sizes [simp]:
  "unat WINDOW_SIZE = 1048576" "unat CHUNK_SIZE = 4096" "unat BATCH_SIZE = 8" "unat NUM_TRIALS = 45"
  by (simp_all add: WINDOW_SIZE_def CHUNK_SIZE_def BATCH_SIZE_def NUM_TRIALS_def)

lemma remove_drops:
  "foldl (\<lambda>xs d. remove_nth d xs) (pre @ xs)
     (rev (map fst (filter (\<lambda>(_, l). P l) (enumerate (length pre) xs)))) = pre @ filter (\<lambda>l. \<not> P l) xs"
proof (induction xs arbitrary: pre)
  case (Cons x xs)
  have "foldl (\<lambda>xs d. remove_nth d xs) (pre @ x # xs)
      (rev (map fst (filter (\<lambda>(_, l). P l) (enumerate (Suc (length pre)) xs)))) =
      pre @ x # filter (\<lambda>l. \<not> P l) xs"
    using Cons [of "pre @ [x]"] by simp
  then show ?case by (simp add: remove_nth_def)
qed simp

lemma sbf_zerofy: "sbf (zerofy w lower upper) = filter (\<lambda>l. \<not> (lower \<le> l \<and> l < upper)) (sbf w)"
  using remove_drops [of "[]" "sbf w" "\<lambda>l. lower \<le> l \<and> l < upper"]
  by (simp add: zerofy_def zerofy_drops_def)

lemma sbf_slide_window:
  "sbf (slide_window w) = map (\<lambda>l. l - CHUNK_SIZE) (filter (\<lambda>l. CHUNK_SIZE \<le> l) (sbf w))"
  by (simp add: slide_window_def sbf_zerofy not_less)

lemma indices_slid_chunk: "relative_indices (slid_chunk w) = filter (\<lambda>l. l < CHUNK_SIZE) (sbf w)"
  by (simp add: slid_chunk_def aw_slice_def from_indices_def)

lemma wf_slide_window:
  assumes "wf_window w"
  shows "wf_window (slide_window w) \<and> \<not> hasset (slide_window w) (WINDOW_SIZE - CHUNK_SIZE) WINDOW_SIZE"
proof -
  have small: "unat (l - CHUNK_SIZE) = unat l - 4096" if "CHUNK_SIZE \<le> l" for l
    using unat_sub_le [OF that] by simp
  have "l - CHUNK_SIZE < WINDOW_SIZE - CHUNK_SIZE" if "l \<in> set (sbf w)" "CHUNK_SIZE \<le> l" for l
  proof -
    have "unat l < 1048576" using assms that(1) by (auto simp: wf_window_def list_all_iff word_less_nat_alt)
    moreover have "unat (WINDOW_SIZE - CHUNK_SIZE) = 1044480" by (simp add: WINDOW_SIZE_def CHUNK_SIZE_def)
    ultimately show ?thesis using small [OF that(2)] that(2) by (simp add: word_less_nat_alt word_le_nat_alt)
  qed
  moreover have "WINDOW_SIZE - CHUNK_SIZE < WINDOW_SIZE" by (simp add: WINDOW_SIZE_def CHUNK_SIZE_def)
  moreover have "sorted (sbf (slide_window w))"
    using assms by (auto simp: wf_window_def sbf_slide_window sorted_map sorted_wrt_filter small
        intro!: sorted_wrt_mono_rel [OF _ sorted_wrt_filter [of "(\<le>)"]] simp: word_le_nat_alt)
  ultimately show ?thesis
    by (auto simp: wf_window_def sbf_slide_window list_all_iff hasset_def list_ex_iff not_le
        intro: less_trans)
qed

text \<open>Sliding the window back with the chunk that left it restores the window, whatever positions
  it holds.\<close>

theorem slide_window_back_slide:
  assumes "wf_window w"
  shows "slide_window_back (slide_window w) (slid_chunk w) = Inr w"
proof -
  let ?low = "filter (\<lambda>l. l < CHUNK_SIZE) (sbf w)"
  have "map (\<lambda>l. l + CHUNK_SIZE) (sbf (slide_window w)) = filter (\<lambda>l. CHUNK_SIZE \<le> l) (sbf w)"
    by (simp add: sbf_slide_window map_idI)
  then have "mset (map (\<lambda>l. l + CHUNK_SIZE) (sbf (slide_window w)) @ relative_indices (slid_chunk w)) =
      mset (sbf w)"
    using multiset_partition [of "mset (sbf w)" "\<lambda>l. CHUNK_SIZE \<le> l"]
    by (simp add: indices_slid_chunk not_le)
  then have "sort (map (\<lambda>l. l + CHUNK_SIZE) (sbf (slide_window w)) @ relative_indices (slid_chunk w)) =
      sbf w"
    using assms by (intro properties_for_sort) (simp_all add: wf_window_def)
  with wf_slide_window [OF assms] show ?thesis
    by (simp add: slide_window_back_def to_indices_def res_simps active_window.expand)
qed

theorem slide_window_back_slide_witness:
  "slide_window_back (slide_window (ActiveWindow [5, 4096, 70000])) (slid_chunk (ActiveWindow [5, 4096, 70000])) =
   Inr (ActiveWindow [5, 4096, 70000])"
  by (rule slide_window_back_slide) (simp add: wf_window_def WINDOW_SIZE_def)

section \<open>Insertion and removal\<close>

lemma wf_aw_insert:
  assumes "wf_window w" "i < WINDOW_SIZE"
  shows "\<exists>w'. aw_insert w i = Inr w' \<and> wf_window w' \<and> mset (sbf w') = mset (sbf w) + {#i#}"
  using assms by (simp add: aw_insert_def res_simps wf_window_def list_all_iff)

text \<open>Inserting a position of the window and removing it again gives back the window, removing a
  position that is not set panics, and every operation keeps the window well formed.\<close>

theorem aw_insert_remove:
  assumes "wf_window w" "i < WINDOW_SIZE"
  shows "(\<exists>w'. aw_insert w i = Inr w' \<and> wf_window w' \<and> aw_contains w' i = Inr True \<and> aw_remove w' i = Inr w) \<and>
    (if i \<in> set (sbf w)
     then \<exists>w'. aw_remove w i = Inr w' \<and> wf_window w' \<and> mset (sbf w') = mset (sbf w) - {#i#}
     else aw_remove w i = Inl AssertFailed)"
proof -
  have rem: "if j \<in> set (sbf v) then \<exists>w'. aw_remove v j = Inr w' \<and> wf_window w' \<and> mset (sbf w') = mset (sbf v) - {#j#}
     else aw_remove v j = Inl AssertFailed" if "wf_window v" "j < WINDOW_SIZE" for v j
  proof (cases "last_position j (sbf v)")
    case None
    then have "j \<notin> set (sbf v)" by (simp add: last_position_None)
    with None that show ?thesis by (simp add: aw_remove_def res_simps)
  next
    case (Some k)
    then have k: "k < length (sbf v)" "sbf v ! k = j" using last_position_Some by force+
    then have "j \<in> set (sbf v)" by auto
    with Some that k show ?thesis
      using set_remove_nth [of k "sbf v"]
      by (auto simp: aw_remove_def res_simps wf_window_def sorted_remove_nth list_all_iff mset_remove_nth)
  qed
  obtain w' where w': "aw_insert w i = Inr w'" "wf_window w'" "mset (sbf w') = mset (sbf w) + {#i#}"
    using wf_aw_insert [OF assms] by blast
  then have "i \<in># mset (sbf w')" by simp
  then have "i \<in> set (sbf w')" by simp
  moreover from this obtain w'' where "aw_remove w' i = Inr w''" "wf_window w''" "mset (sbf w'') = mset (sbf w)"
    using rem [OF w'(2) assms(2)] w'(3) by auto
  moreover from this have "w'' = w"
    using assms(1) by (metis active_window.expand sorted_mset_unique wf_window_def)
  ultimately show ?thesis using w' rem [OF assms] assms(2) by (auto simp: aw_contains_def res_simps)
qed

theorem aw_insert_remove_witness:
  "(\<exists>w'. aw_insert (ActiveWindow [5, 9]) 7 = Inr w' \<and> aw_remove w' 7 = Inr (ActiveWindow [5, 9])) \<and>
   aw_remove (ActiveWindow [5, 9]) 7 = Inl AssertFailed"
  using aw_insert_remove [of "ActiveWindow [5, 9]" 7] by (auto simp: wf_window_def WINDOW_SIZE_def)

end
