(* ===== verification/Absolute_Index_Set.thy ===== *)
theory Absolute_Index_Set
  imports Active_Window
begin

text \<open>
  \<^verbatim>\<open>consensus/src/mutator_set/removal_record/absolute_index_set.rs\<close>, \<^verbatim>\<open>indices_to_hash_map\<close> of
  \<^verbatim>\<open>shared.rs\<close> and \<^verbatim>\<open>aocl_to_swbfi_leaf_counts\<close> of \<^verbatim>\<open>mod.rs\<close>: the set of Bloom-filter positions that
  removing an item sets, and the range of leaf indices it can come from.

  The sponge of Tip5 is a parameter: \<open>sample\<close> gives the indices that \<^verbatim>\<open>sample_indices\<close> returns for an
  item, its randomness, its preimage and its leaf index; \<open>sample_ok\<close> states what that function
  documents, as many samples as asked for, below the bound. The iteration order of a \<^verbatim>\<open>HashMap\<close> is not
  specified; the model keeps the order of first insertion.
\<close>

section \<open>Definitions\<close>

definition aocl_to_swbfi_leaf_counts :: "u64 \<Rightarrow> u64" where
  "aocl_to_swbfi_leaf_counts aocl_leaf_count = saturating_sub_w aocl_leaf_count 1 div ucast BATCH_SIZE"

record absolute_index_set =
  minimum :: u128
  distances :: "u32 list"

fun iter_min :: "'a::linorder list \<Rightarrow> 'a option" where
  "iter_min [] = None"
| "iter_min (x # xs) = (case iter_min xs of None \<Rightarrow> Some x | Some y \<Rightarrow> Some (min x y))"

fun iter_max :: "'a::linorder list \<Rightarrow> 'a option" where
  "iter_max [] = None"
| "iter_max (x # xs) = (case iter_max xs of None \<Rightarrow> Some x | Some y \<Rightarrow> Some (max x y))"

definition ais_new :: "u128 list \<Rightarrow> absolute_index_set res" where
  "ais_new absolute_indices =
     (case iter_min absolute_indices of
        None \<Rightarrow> Inl UnwrapFailed
      | Some minimum' \<Rightarrow>
          let xs = map (\<lambda>x. x - minimum') absolute_indices
          in if list_ex (\<lambda>x. ucast WINDOW_SIZE \<le> x) xs then Inl ExplicitPanic
             else if length xs \<noteq> unat NUM_TRIALS then Inl UnwrapFailed
             else Inr \<lparr>minimum = minimum', distances = map ucast xs\<rparr>)"

definition ais_compute :: "('d \<Rightarrow> 'd \<Rightarrow> 'd \<Rightarrow> u64 \<Rightarrow> u32 list) \<Rightarrow> 'd \<Rightarrow> 'd \<Rightarrow> 'd \<Rightarrow> u64 \<Rightarrow> absolute_index_set res" where
  "ais_compute sample item sender_randomness receiver_preimage aocl_leaf_index =
     (let batch_index = (ucast aocl_leaf_index :: u128) div ucast BATCH_SIZE;
          batch_offset = batch_index * ucast CHUNK_SIZE;
          relative_indices = sample item sender_randomness receiver_preimage aocl_leaf_index
      in case iter_min relative_indices of
           None \<Rightarrow> Inl UnwrapFailed
         | Some minimum' \<Rightarrow>
             if length relative_indices \<noteq> unat NUM_TRIALS then Inl UnwrapFailed
             else Inr \<lparr>minimum = ucast minimum' + batch_offset,
                       distances = map (\<lambda>x. x - minimum') relative_indices\<rparr>)"

definition ais_to_array :: "absolute_index_set \<Rightarrow> u128 list" where
  "ais_to_array s = map (\<lambda>x. saturating_add_w (ucast x) (minimum s)) (distances s)"

text \<open>\<^verbatim>\<open>entry(k).or_default().push(v)\<close> on a map from keys to vectors.\<close>

fun entry_push :: "'k \<Rightarrow> 'v \<Rightarrow> ('k \<times> 'v list) list \<Rightarrow> ('k \<times> 'v list) list" where
  "entry_push k v [] = [(k, [v])]"
| "entry_push k v ((k', vs) # m) = (if k' = k then (k', vs @ [v]) # m else (k', vs) # entry_push k v m)"

definition indices_to_hash_map :: "u128 list \<Rightarrow> (u64 \<times> u128 list) list" where
  "indices_to_hash_map all_indices =
     foldl (\<lambda>acc (chunk_index, index). entry_push chunk_index index acc) []
       (map (\<lambda>bi. (ucast (bi div ucast CHUNK_SIZE), bi)) all_indices)"

datatype mutator_set_error =
    RequestedAoclAuthPathOutOfBounds u64 u64
  | RequestedSwbfAuthPathOutOfBounds u64 u64
  | MutatorSetIsEmpty
  | AbsoluteRemovalIndexIsFutureIndex u64 u64
  | AbsoluteIndexExceedsTheoreticalBound
  | RequestedAoclAuthPathNotContainedInResponse u64

text \<open>\<^verbatim>\<open>split_by_activity\<close>; the interval is \<^verbatim>\<open>active_window_chunk_interval\<close> of the mutator set.\<close>

definition split_by_activity ::
  "absolute_index_set \<Rightarrow> u64 \<times> u64 \<Rightarrow> mutator_set_error + ((u64 \<times> u128 list) list \<times> u128 list)" where
  "split_by_activity s interval =
     (let (aw_chunk_index_min, aw_chunk_index_max) = interval;
          (inactive, active) = partition (\<lambda>(chunk_index, _). chunk_index < aw_chunk_index_min)
            (indices_to_hash_map (ais_to_array s))
      in case find (\<lambda>k. aw_chunk_index_max < k) (map fst active) of
           Some chunk_index \<Rightarrow> Inl (AbsoluteRemovalIndexIsFutureIndex aw_chunk_index_max chunk_index)
         | None \<Rightarrow> Inr (inactive, concat (map snd active)))"

definition next_multiple_of :: "u128 \<Rightarrow> u128 \<Rightarrow> u128" where
  "next_multiple_of x n = (let r = x mod n in if r = 0 then x else x + (n - r))"

definition u64_try_from :: "u128 \<Rightarrow> u64 option" where
  "u64_try_from x = (if x < push_bit 64 1 then Some (ucast x) else None)"

definition aocl_range :: "absolute_index_set \<Rightarrow> (mutator_set_error + u64 \<times> u64) res" where
  "aocl_range s =
     (case iter_max (distances s) of
        None \<Rightarrow> Inl UnwrapFailed
      | Some max_distance \<Rightarrow>
     Inr (let max_offset = (ucast max_distance :: u128) in
      if ucast WINDOW_SIZE \<le> max_offset then Inl AbsoluteIndexExceedsTheoreticalBound
      else let max_bf_index = max_offset + minimum s;
               min_active_window_start_on_insertion =
                 next_multiple_of (saturating_sub_w max_bf_index (ucast WINDOW_SIZE - 1)) (ucast CHUNK_SIZE)
      in case u64_try_from (min_active_window_start_on_insertion div ucast CHUNK_SIZE) of
           None \<Rightarrow> Inl AbsoluteIndexExceedsTheoreticalBound
         | Some min_batch_index_on_insertion \<Rightarrow>
      (case checked_mul_w min_batch_index_on_insertion (ucast BATCH_SIZE) of
         None \<Rightarrow> Inl AbsoluteIndexExceedsTheoreticalBound
       | Some min_aocl_index \<Rightarrow>
      let max_active_window_end_on_insertion =
            next_multiple_of (minimum s + ucast WINDOW_SIZE + 1) (ucast CHUNK_SIZE) - ucast CHUNK_SIZE
      in case u64_try_from
             (saturating_sub_w max_active_window_end_on_insertion (ucast WINDOW_SIZE) div ucast CHUNK_SIZE) of
           None \<Rightarrow> Inl AbsoluteIndexExceedsTheoreticalBound
         | Some max_batch_index_on_insertion \<Rightarrow>
      (case Option.bind (checked_mul_w max_batch_index_on_insertion (ucast BATCH_SIZE))
              (\<lambda>prod. checked_add_w prod (ucast BATCH_SIZE - 1)) of
         None \<Rightarrow> Inl AbsoluteIndexExceedsTheoreticalBound
       | Some max_aocl_index \<Rightarrow> Inr (min_aocl_index, max_aocl_index)))))"

section \<open>Well-formed index sets\<close>

definition sample_ok :: "('d \<Rightarrow> 'd \<Rightarrow> 'd \<Rightarrow> u64 \<Rightarrow> u32 list) \<Rightarrow> bool" where
  "sample_ok sample \<longleftrightarrow> (\<forall>item sr rp i. length (sample item sr rp i) = 45 \<and>
     list_all (\<lambda>x. x < WINDOW_SIZE) (sample item sr rp i))"

text \<open>What \<^verbatim>\<open>new\<close> and \<^verbatim>\<open>compute\<close> guarantee.\<close>

definition wf_index_set :: "absolute_index_set \<Rightarrow> bool" where
  "wf_index_set s \<longleftrightarrow> length (distances s) = 45 \<and> list_all (\<lambda>x. x < WINDOW_SIZE) (distances s) \<and>
     0 \<in> set (distances s)"

lemma iter_min_Some:
  "xs \<noteq> [] \<Longrightarrow> \<exists>m. iter_min xs = Some m \<and> m \<in> set xs \<and> (\<forall>x\<in>set xs. m \<le> x)"
proof (induction xs)
  case (Cons x xs)
  then show ?case by (cases "xs = []") (force simp: min_def)+
qed simp

lemma iter_max_Some:
  "xs \<noteq> [] \<Longrightarrow> \<exists>m. iter_max xs = Some m \<and> m \<in> set xs \<and> (\<forall>x\<in>set xs. x \<le> m)"
proof (induction xs)
  case (Cons x xs)
  then show ?case by (cases "xs = []") (force simp: max_def)+
qed simp

lemma unat_ucast_128 [simp]:
  "unat (ucast (x :: u32) :: u128) = unat x" "unat (ucast (y :: u64) :: u128) = unat y"
  by (simp_all add: unat_ucast_up)

lemma unat_ucast_64 [simp]: "unat (ucast (x :: u32) :: u64) = unat x"
  by (simp add: unat_ucast_up)

lemma unat_saturating_add:
  "unat (a :: 'a::len word) + unat b < 2 ^ LENGTH('a) \<Longrightarrow> unat (saturating_add_w a b) = unat a + unat b"
  by (simp add: saturating_add_w_def unat_add_no_overflow)

lemma unat_saturating_sub [simp]: "unat (saturating_sub_w a b) = unat a - unat (b :: 'a::len word)"
  by (auto simp: saturating_sub_w_def unat_sub_le not_le word_less_nat_alt)

lemma unat_u64_try_from:
  "unat x < 2 ^ 64 \<Longrightarrow> \<exists>y. u64_try_from x = Some y \<and> unat y = unat x"
  by (simp add: u64_try_from_def word_less_nat_alt unat_ucast_mod)

text \<open>\<^verbatim>\<open>next_multiple_of\<close> and the division by the same number: rounding up.\<close>

lemma next_multiple_of_chunk:
  assumes "unat x + 4096 < 2 ^ 128"
  shows "unat (next_multiple_of x (ucast CHUNK_SIZE)) = 4096 * ((unat x + 4095) div 4096)"
proof -
  let ?n = "ucast CHUNK_SIZE :: u128"
  have n: "unat ?n = 4096" by simp
  have r: "unat (x mod ?n) = unat x mod 4096" by (simp only: unat_mod n)
  obtain q m where x: "unat x = 4096 * q + m" "unat x mod 4096 = m" "m < 4096"
    using that [of "unat x div 4096" "unat x mod 4096"] by simp
  show ?thesis
  proof (cases "m = 0")
    case True
    with r x have "x mod ?n = 0" by (simp add: word_unat_eq_iff)
    with True x show ?thesis by (simp add: next_multiple_of_def)
  next
    case False
    have nz: "x mod ?n \<noteq> 0" using False r x(2) by (metis unsigned_0)
    have "x mod ?n \<le> ?n" using r n x by (simp add: word_le_nat_alt)
    then have d: "unat (?n - x mod ?n) = 4096 - m" using r n x(2) by (simp only: unat_sub_le)
    have "unat (x + (?n - x mod ?n)) = unat x + (4096 - m)"
      using d assms by (subst unat_add_no_overflow) simp_all
    also have "\<dots> = 4096 * (q + 1)" using x by simp
    also have "q + 1 = (unat x + 4095) div 4096" using x False by simp
    finally show ?thesis using nz by (simp add: next_multiple_of_def)
  qed
qed

lemma ais_to_array_nat:
  assumes "unat (minimum s) < 2 ^ 127"
  shows "map unat (ais_to_array s) = map (\<lambda>d. unat (minimum s) + unat d) (distances s)"
proof -
  have "unat (saturating_add_w (ucast d) (minimum s)) = unat (minimum s) + unat d" for d :: u32
    using assms unat_u32_lt [of d] by (subst unat_saturating_add) simp_all
  then show ?thesis by (simp add: ais_to_array_def)
qed

lemma le_div_4096: "b \<le> (m::nat) div 4096 \<longleftrightarrow> 4096 * b \<le> m"
  by (simp add: less_eq_div_iff_mult_less_eq mult.commute)

lemma ceil_4096_le: "((a::nat) + 4095) div 4096 \<le> b \<longleftrightarrow> a \<le> 4096 * b"
proof -
  have "4096 * ((a + 4095) div 4096) + (a + 4095) mod 4096 = a + 4095" "(a + 4095) mod 4096 < 4096"
    by simp_all
  then show ?thesis by linarith
qed

lemma le_div_8: "b \<le> (j::nat) div 8 \<longleftrightarrow> 8 * b \<le> j"
  by (simp add: less_eq_div_iff_mult_less_eq mult.commute)

lemma div_8_le: "(j::nat) div 8 \<le> b \<longleftrightarrow> j \<le> 8 * b + 7"
proof -
  have "8 * (j div 8) + j mod 8 = j" "j mod 8 < 8" by simp_all
  then show ?thesis by linarith
qed

text \<open>The first and the last batch that \<^verbatim>\<open>aocl_range\<close> computes, as numbers.\<close>

lemma min_batch_index:
  assumes "unat dmax < 1048576" "unat m < 2 ^ 72 + 2 ^ 71"
  shows "\<exists>b. u64_try_from (next_multiple_of (saturating_sub_w (ucast (dmax :: u32) + m) (ucast WINDOW_SIZE - 1))
      (ucast CHUNK_SIZE) div ucast CHUNK_SIZE) = Some b \<and>
    unat b = (unat m + unat dmax - 1048575 + 4095) div 4096 \<and> unat b < 2 ^ 61"
proof -
  have W: "unat (ucast WINDOW_SIZE - 1 :: u128) = 1048575"
    by (subst unat_sub_le) (simp_all add: word_le_nat_alt)
  have maxbf: "unat (ucast dmax + m) = unat m + unat dmax"
    using assms by (subst unat_add_no_overflow) simp_all
  define start where "start = next_multiple_of (saturating_sub_w (ucast dmax + m) (ucast WINDOW_SIZE - 1)) (ucast CHUNK_SIZE)"
  have start: "unat (start div ucast CHUNK_SIZE) = (unat m + unat dmax - 1048575 + 4095) div 4096"
    unfolding start_def unat_div using assms by (subst next_multiple_of_chunk) (simp_all add: maxbf W)
  then have "unat (start div ucast CHUNK_SIZE) < 2 ^ 61"
    using assms by (simp add: less_mult_imp_div_less)
  then show ?thesis
    using unat_u64_try_from [of "start div ucast CHUNK_SIZE"] start by (auto simp: start_def)
qed

lemma max_batch_index:
  assumes "unat m < 2 ^ 72 + 2 ^ 71"
  shows "\<exists>c. u64_try_from (saturating_sub_w (next_multiple_of (m + ucast WINDOW_SIZE + 1) (ucast CHUNK_SIZE) -
      ucast CHUNK_SIZE) (ucast WINDOW_SIZE) div ucast CHUNK_SIZE) = Some c \<and>
    unat c = unat m div 4096 \<and> unat c < 2 ^ 61 - 1"
proof -
  have sum: "unat (m + ucast WINDOW_SIZE + 1) = unat m + 1048577"
    using assms by (subst unat_add_no_overflow; (subst unat_add_no_overflow)?) simp_all
  define stop where "stop = next_multiple_of (m + ucast WINDOW_SIZE + 1) (ucast CHUNK_SIZE) - ucast CHUNK_SIZE"
  have nm: "unat (next_multiple_of (m + ucast WINDOW_SIZE + 1) (ucast CHUNK_SIZE)) =
      4096 * ((unat m + 1052672) div 4096)"
    using assms by (subst next_multiple_of_chunk) (simp_all add: sum)
  moreover have "(unat m + 1052672) div 4096 = unat m div 4096 + 257"
    using div_mult_self1 [of 4096 "unat m" 257] by simp
  ultimately have "unat stop = 4096 * (unat m div 4096) + 1048576"
    unfolding stop_def by (subst unat_sub_le) (simp_all add: word_le_nat_alt)
  then have "unat (saturating_sub_w stop (ucast WINDOW_SIZE) div ucast CHUNK_SIZE) = unat m div 4096"
    unfolding unat_div by simp
  moreover have "unat m div 4096 < 2 ^ 61 - 1" using assms by (simp add: less_mult_imp_div_less)
  ultimately show ?thesis
    using unat_u64_try_from [of "saturating_sub_w stop (ucast WINDOW_SIZE) div ucast CHUNK_SIZE"]
    by (auto simp: stop_def)
qed

lemma aocl_range_bounds:
  assumes "wf_index_set s" "unat (minimum s) < 2 ^ 72 + 2 ^ 71"
  obtains lo hi dmax where "aocl_range s = Inr (Inr (lo, hi))"
    "dmax \<in> set (distances s)" "\<forall>d\<in>set (distances s). d \<le> dmax"
    "unat lo = 8 * ((unat (minimum s) + unat dmax - 1048575 + 4095) div 4096)"
    "unat hi = 8 * (unat (minimum s) div 4096) + 7"
proof -
  have "distances s \<noteq> []" using assms(1) by (auto simp: wf_index_set_def)
  then obtain dmax where dmax: "iter_max (distances s) = Some dmax" "dmax \<in> set (distances s)"
      "\<forall>d\<in>set (distances s). d \<le> dmax"
    using iter_max_Some by blast
  then have small: "unat dmax < 1048576"
    using assms(1) by (auto simp: wf_index_set_def list_all_iff word_less_nat_alt)
  obtain b c where b: "unat b = (unat (minimum s) + unat dmax - 1048575 + 4095) div 4096" "unat b < 2 ^ 61"
      "u64_try_from (next_multiple_of (saturating_sub_w (ucast dmax + minimum s) (ucast WINDOW_SIZE - 1))
        (ucast CHUNK_SIZE) div ucast CHUNK_SIZE) = Some b"
    and c: "unat c = unat (minimum s) div 4096" "unat c < 2 ^ 61 - 1"
      "u64_try_from (saturating_sub_w (next_multiple_of (minimum s + ucast WINDOW_SIZE + 1) (ucast CHUNK_SIZE) -
        ucast CHUNK_SIZE) (ucast WINDOW_SIZE) div ucast CHUNK_SIZE) = Some c"
    using min_batch_index [OF small assms(2)] max_batch_index [OF assms(2)] by blast
  have lo: "checked_mul_w b (ucast BATCH_SIZE) = Some (b * ucast BATCH_SIZE)"
      "unat (b * ucast BATCH_SIZE) = 8 * unat b"
    using b(2) by (simp_all add: checked_mul_w_def unat_mult_no_overflow)
  have seven: "unat (ucast BATCH_SIZE - 1 :: u64) = 7"
    by (subst unat_sub_le) (simp_all add: word_le_nat_alt)
  have hi: "Option.bind (checked_mul_w c (ucast BATCH_SIZE)) (\<lambda>prod. checked_add_w prod (ucast BATCH_SIZE - 1)) =
      Some (c * ucast BATCH_SIZE + (ucast BATCH_SIZE - 1))"
      "unat (c * ucast BATCH_SIZE + (ucast BATCH_SIZE - 1)) = 8 * unat c + 7"
    using c(2) seven by (simp_all add: checked_mul_w_def checked_add_w_def unat_mult_no_overflow unat_add_no_overflow)
  have "\<not> ucast WINDOW_SIZE \<le> (ucast dmax :: u128)" using small by (simp add: word_le_nat_alt)
  then have "aocl_range s = Inr (Inr (b * ucast BATCH_SIZE, c * ucast BATCH_SIZE + (ucast BATCH_SIZE - 1)))"
    unfolding aocl_range_def Let_def by (simp add: dmax(1) b(3) c(3) lo(1) hi(1))
  then show ?thesis using that dmax(2,3) lo(2) hi(2) b(1) c(1) by metis
qed

text \<open>\<^verbatim>\<open>aocl_range\<close> is exact: for a well-formed index set it returns the leaf indices whose active
  window, when they were added, contains all positions of the set, no more and no fewer.\<close>

theorem aocl_range_exact:
  assumes "wf_index_set s" "unat (minimum s) < 2 ^ 72 + 2 ^ 71"
  shows "\<exists>lo hi. aocl_range s = Inr (Inr (lo, hi)) \<and>
    (\<forall>j. lo \<le> j \<and> j \<le> hi \<longleftrightarrow> (\<forall>x\<in>set (ais_to_array s).
       4096 * (unat j div 8) \<le> unat x \<and> unat x < 4096 * (unat j div 8) + 1048576))"
proof -
  obtain lo hi dmax where r: "aocl_range s = Inr (Inr (lo, hi))"
    and dmax: "dmax \<in> set (distances s)" "\<forall>d\<in>set (distances s). d \<le> dmax"
    and lo: "unat lo = 8 * ((unat (minimum s) + unat dmax - 1048575 + 4095) div 4096)"
    and hi: "unat hi = 8 * (unat (minimum s) div 4096) + 7"
    by (rule aocl_range_bounds [OF assms])
  let ?m = "unat (minimum s)"
  have "lo \<le> j \<and> j \<le> hi \<longleftrightarrow> (\<forall>x\<in>set (ais_to_array s).
       4096 * (unat j div 8) \<le> unat x \<and> unat x < 4096 * (unat j div 8) + 1048576)" for j
  proof -
    let ?b = "unat j div 8"
    have "?m < 2 ^ 127" using assms(2) by simp
    from arg_cong [OF ais_to_array_nat [OF this], of set]
    have arr: "unat ` set (ais_to_array s) = (\<lambda>d. ?m + unat d) ` set (distances s)" by simp
    have "(\<forall>x\<in>set (ais_to_array s). 4096 * ?b \<le> unat x \<and> unat x < 4096 * ?b + 1048576) \<longleftrightarrow>
        (\<forall>n\<in>unat ` set (ais_to_array s). 4096 * ?b \<le> n \<and> n < 4096 * ?b + 1048576)" by simp
    also have "\<dots> \<longleftrightarrow> 4096 * ?b \<le> ?m \<and> ?m + unat dmax < 4096 * ?b + 1048576"
      unfolding arr using dmax assms(1) by (force simp: wf_index_set_def word_le_nat_alt)
    also have "\<dots> \<longleftrightarrow> ?b \<le> ?m div 4096 \<and> (?m + unat dmax - 1048575 + 4095) div 4096 \<le> ?b"
      by (auto simp: le_div_4096 ceil_4096_le)
    finally show ?thesis
      unfolding word_le_nat_alt lo hi by (auto simp: le_div_8 div_8_le)
  qed
  with r show ?thesis by blast
qed

theorem aocl_range_exact_witness:
  "\<exists>lo hi. aocl_range \<lparr>minimum = 8192, distances = 1048575 # replicate 44 0\<rparr> = Inr (Inr (lo, hi)) \<and>
     (lo \<le> 16 \<and> 16 \<le> hi) \<and> \<not> (lo \<le> 24 \<and> 24 \<le> hi) \<and> \<not> (lo \<le> 15 \<and> 15 \<le> hi)"
proof -
  let ?s = "\<lparr>minimum = 8192, distances = 1048575 # replicate 44 0\<rparr>"
  have wf: "wf_index_set ?s" by (simp add: wf_index_set_def WINDOW_SIZE_def list_all_iff)
  have arr: "set (ais_to_array ?s) = {1056767, 8192}"
    by (simp add: ais_to_array_def saturating_add_w_def)
  obtain lo hi where r: "aocl_range ?s = Inr (Inr (lo, hi))" "\<And>j. lo \<le> j \<and> j \<le> hi \<longleftrightarrow>
      (\<forall>x\<in>set (ais_to_array ?s). 4096 * (unat j div 8) \<le> unat x \<and> unat x < 4096 * (unat j div 8) + 1048576)"
    using aocl_range_exact [OF wf] by auto
  have "lo \<le> 16 \<and> 16 \<le> hi" "\<not> (lo \<le> 24 \<and> 24 \<le> hi)" "\<not> (lo \<le> 15 \<and> 15 \<le> hi)"
    unfolding r(2) by (simp_all add: arr)
  with r(1) show ?thesis by blast
qed

lemma shifted_bounds:
  assumes eq: "map unat xs = map (\<lambda>r. b + unat r) rs" and lt: "\<forall>r\<in>set rs. unat r < n"
  shows "\<forall>x\<in>set xs. b \<le> unat x \<and> unat x < b + n"
proof
  fix x assume "x \<in> set xs"
  then have "unat x \<in> set (map unat xs)" by (simp only: set_map imageI)
  then obtain r where "r \<in> set rs" "unat x = b + unat r" unfolding eq by auto
  with lt show "b \<le> unat x \<and> unat x < b + n" by simp
qed

text \<open>The indices of an item lie in the window of the batch in which it was added, and
  \<^verbatim>\<open>aocl_range\<close> of the set contains its leaf index, so that a node that looks for the spent leaf finds
  it.\<close>

theorem compute_in_aocl_range:
  assumes "sample_ok sample" "unat i < 2 ^ 63"
  shows "\<exists>s lo hi. ais_compute sample item sr rp i = Inr s \<and> wf_index_set s \<and>
    aocl_range s = Inr (Inr (lo, hi)) \<and> lo \<le> i \<and> i \<le> hi \<and>
    map unat (ais_to_array s) = map (\<lambda>r. 4096 * (unat i div 8) + unat r) (sample item sr rp i)"
proof -
  let ?rel = "sample item sr rp i"
  have rel: "length ?rel = 45" "\<forall>x\<in>set ?rel. unat x < 1048576"
    using assms(1) by (auto simp: sample_ok_def list_all_iff word_less_nat_alt)
  then have "?rel \<noteq> []" by auto
  then obtain m where m: "iter_min ?rel = Some m" "m \<in> set ?rel" "\<forall>x\<in>set ?rel. m \<le> x"
    using iter_min_Some by blast
  define off where "off = ((ucast i :: u128) div ucast BATCH_SIZE) * ucast CHUNK_SIZE"
  have off: "unat off = 4096 * (unat i div 8)" "unat off < 2 ^ 72"
  proof -
    have "unat i div 8 < 2 ^ 60" using assms(2) by (simp add: less_mult_imp_div_less)
    then show "unat off = 4096 * (unat i div 8)" "unat off < 2 ^ 72"
      unfolding off_def by (subst unat_mult_no_overflow, simp_all add: unat_div)+
  qed
  let ?s = "\<lparr>minimum = ucast m + off, distances = map (\<lambda>x. x - m) ?rel\<rparr>"
  have s: "ais_compute sample item sr rp i = Inr ?s"
    using m(1) rel(1) by (simp add: ais_compute_def off_def Let_def)
  have min: "unat (minimum ?s) = unat m + 4096 * (unat i div 8)"
    using off rel(2) m(2) by (subst absolute_index_set.select_convs, subst unat_add_no_overflow) auto
  have dist: "unat (x - m) = unat x - unat m" if "x \<in> set ?rel" for x
    using m(3) that by (simp add: unat_sub_le)
  have "0 \<in> (\<lambda>x. x - m) ` set ?rel" using m(2) by (metis (no_types, lifting) diff_self image_eqI)
  then have wf: "wf_index_set ?s"
    using rel dist by (fastforce simp: wf_index_set_def list_all_iff word_less_nat_alt)
  have bnd: "unat (minimum ?s) < 2 ^ 72 + 2 ^ 71" using min off rel(2) m(2) by fastforce
  have arr: "map unat (ais_to_array ?s) = map (\<lambda>r. 4096 * (unat i div 8) + unat r) ?rel"
    using bnd m(3) min by (subst ais_to_array_nat) (auto simp: dist word_le_nat_alt)
  obtain lo hi where r: "aocl_range ?s = Inr (Inr (lo, hi))" "\<And>j. lo \<le> j \<and> j \<le> hi \<longleftrightarrow>
      (\<forall>x\<in>set (ais_to_array ?s). 4096 * (unat j div 8) \<le> unat x \<and> unat x < 4096 * (unat j div 8) + 1048576)"
    using aocl_range_exact [OF wf bnd] by blast
  have "\<forall>x\<in>set (ais_to_array ?s). 4096 * (unat i div 8) \<le> unat x \<and> unat x < 4096 * (unat i div 8) + 1048576"
    by (rule shifted_bounds [OF arr rel(2)])
  then have "lo \<le> i \<and> i \<le> hi" unfolding r(2) by blast
  with s wf r(1) arr show ?thesis by blast
qed

lemma masked_sample_ok: "sample_ok (\<lambda>_ _ _ i. 9 # replicate 44 (ucast i AND 0xff))"
proof -
  have lt: "ucast i AND 0xff < WINDOW_SIZE" for i :: u64
  proof -
    have "ucast i AND 0xff = take_bit 8 (ucast i :: u32)"
      by (simp add: take_bit_eq_mask mask_eq_exp_minus_1)
    then show ?thesis
      by (simp only: word_less_nat_alt unat_take_bit) simp
  qed
  show ?thesis by (simp add: sample_ok_def list_all_iff lt) (simp add: WINDOW_SIZE_def)
qed

theorem compute_in_aocl_range_witness:
  "\<exists>s lo hi. ais_compute (\<lambda>_ _ _ i. 9 # replicate 44 (ucast i AND 0xff)) () () () 100 = Inr s \<and>
     aocl_range s = Inr (Inr (lo, hi)) \<and> lo \<le> 100 \<and> 100 \<le> hi"
  using compute_in_aocl_range [OF masked_sample_ok, of 100 "()" "()" "()"] by auto

text \<open>Building an index set from 45 indices and reading it back gives the indices, when they lie less
  than the window size apart; otherwise \<^verbatim>\<open>new\<close> panics.\<close>

theorem ais_new_to_array:
  assumes "length xs = 45"
  shows "if \<forall>x\<in>set xs. \<forall>y\<in>set xs. unat x < unat y + 1048576
    then \<exists>s. ais_new xs = Inr s \<and> wf_index_set s \<and> ais_to_array s = xs
    else ais_new xs = Inl ExplicitPanic"
proof -
  have "xs \<noteq> []" using assms by auto
  then obtain m where m: "iter_min xs = Some m" "m \<in> set xs" "\<forall>x\<in>set xs. m \<le> x"
    using iter_min_Some by blast
  have dist: "unat (x - m) = unat x - unat m" if "x \<in> set xs" for x
    using m(3) that by (simp add: unat_sub_le)
  have far: "list_ex (\<lambda>x. ucast WINDOW_SIZE \<le> x) (map (\<lambda>x. x - m) xs) \<longleftrightarrow>
      \<not> (\<forall>x\<in>set xs. \<forall>y\<in>set xs. unat x < unat y + 1048576)" (is "?far \<longleftrightarrow> \<not> ?near")
  proof
    assume ?far
    then obtain x where "x \<in> set xs" "1048576 \<le> unat x - unat m"
      by (auto simp: list_ex_iff word_le_nat_alt dist)
    with m(2) show "\<not> ?near" by (intro notI) fastforce
  next
    assume "\<not> ?near"
    then obtain x y where "x \<in> set xs" "y \<in> set xs" "\<not> unat x < unat y + 1048576" by blast
    moreover from this m(3) have "unat m \<le> unat y" by (simp add: word_le_nat_alt)
    ultimately show ?far by (auto simp: list_ex_iff word_le_nat_alt dist intro!: bexI [of _ x])
  qed
  show ?thesis
  proof (cases ?near)
    case True
    let ?s = "\<lparr>minimum = m, distances = map ucast (map (\<lambda>x. x - m) xs)\<rparr>"
    have d: "unat (ucast (x - m) :: u32) = unat x - unat m" "unat x - unat m < 1048576" if "x \<in> set xs" for x
    proof -
      have "unat x < unat m + 1048576" using True m(2) that by blast
      then show "unat x - unat m < 1048576" by simp
      then show "unat (ucast (x - m) :: u32) = unat x - unat m"
        using dist [OF that] by (simp add: unat_ucast_mod)
    qed
    have "saturating_add_w (ucast (ucast (x - m) :: u32)) m = x" if "x \<in> set xs" for x
    proof (rule word_eq_unatI)
      have "unat m \<le> unat x" using m(3) that by (simp add: word_le_nat_alt)
      then show "unat (saturating_add_w (ucast (ucast (x - m) :: u32)) m) = unat x"
        using d [OF that] unat_u128_lt [of x] by (subst unat_saturating_add) simp_all
    qed
    then have "ais_to_array ?s = xs" by (simp add: ais_to_array_def map_idI)
    moreover have "0 \<in> (\<lambda>x. ucast (x - m) :: u32) ` set xs" using m(2) by (force intro: image_eqI [of _ _ m])
    then have "wf_index_set ?s"
      using assms d by (auto simp: wf_index_set_def list_all_iff word_less_nat_alt comp_def)
    ultimately show ?thesis using True far m(1) assms by (simp add: ais_new_def Let_def)
  next
    case False
    with far m(1) show ?thesis by (simp add: ais_new_def Let_def)
  qed
qed

theorem ais_new_to_array_witness:
  "\<exists>s. ais_new (12345 # replicate 44 700) = Inr s \<and> ais_to_array s = 12345 # replicate 44 700"
  using ais_new_to_array [of "12345 # replicate 44 700"] by auto

end
