(* ===== verification/Chunk_Dictionary.thy ===== *)
theory Chunk_Dictionary
  imports Chunk
begin

text \<open>
  \<^verbatim>\<open>consensus/src/mutator_set/removal_record/chunk_dictionary.rs\<close>: a dictionary from chunk indices to
  a chunk with its authentication path, kept as a sorted list. \<open>'p\<close> is \<^verbatim>\<open>MmrMembershipProof\<close>, a type
  of the library \<^verbatim>\<open>twenty-first\<close>; the hash function is a parameter.

  The locale \<open>map_dictionary\<close> states what the clients of the dictionary rely on; it is interpreted on the
  operations below.
\<close>

section \<open>Definitions\<close>

type_synonym 'p authenticated_chunk = "'p \<times> chunk"

datatype 'p chunk_dictionary = ChunkDictionary (dictionary: "(u64 \<times> 'p authenticated_chunk) list")

definition cd_empty :: "'p chunk_dictionary" where
  "cd_empty = ChunkDictionary []"

definition cd_new :: "(u64 \<times> 'p authenticated_chunk) list \<Rightarrow> 'p chunk_dictionary" where
  "cd_new d = ChunkDictionary (sort_key fst d)"

definition indices_and_leafs :: "(chunk \<Rightarrow> 'd) \<Rightarrow> 'p chunk_dictionary \<Rightarrow> (u64 \<times> 'd) list" where
  "indices_and_leafs H d = map (\<lambda>(k, (mp, ch)). (k, H ch)) (dictionary d)"

definition indices_and_chunks :: "'p chunk_dictionary \<Rightarrow> (u64 \<times> chunk) list" where
  "indices_and_chunks d = map (\<lambda>(k, (mp, ch)). (k, ch)) (dictionary d)"

definition chunk_indices_and_membership_proofs_and_leafs ::
  "(chunk \<Rightarrow> 'd) \<Rightarrow> 'p chunk_dictionary \<Rightarrow> (u64 \<times> 'p \<times> 'd) list" where
  "chunk_indices_and_membership_proofs_and_leafs H d =
     map (\<lambda>(k, (mp, ch)). (k, mp, H ch)) (dictionary d)"

definition authentication_paths :: "'p chunk_dictionary \<Rightarrow> 'p list" where
  "authentication_paths d = map (\<lambda>(_, (mp, _)). mp) (dictionary d)"

definition all_chunk_indices :: "'p chunk_dictionary \<Rightarrow> u64 list" where
  "all_chunk_indices d = map fst (dictionary d)"

definition cd_contains_key :: "'p chunk_dictionary \<Rightarrow> u64 \<Rightarrow> bool" where
  "cd_contains_key d key \<longleftrightarrow> list_ex (\<lambda>(chunk_index, _). chunk_index = key) (dictionary d)"

definition cd_get :: "'p chunk_dictionary \<Rightarrow> u64 \<Rightarrow> 'p authenticated_chunk option" where
  "cd_get d key = map_option snd (find (\<lambda>(chunk_index, _). chunk_index = key) (dictionary d))"

definition cd_is_empty :: "'p chunk_dictionary \<Rightarrow> bool" where
  "cd_is_empty d \<longleftrightarrow> dictionary d = []"

definition cd_len :: "'p chunk_dictionary \<Rightarrow> nat" where
  "cd_len d = length (dictionary d)"

text \<open>Assigning through the reference to the first entry that \<^verbatim>\<open>find\<close> returns.\<close>

fun assign_first :: "u64 \<Rightarrow> 'v \<Rightarrow> (u64 \<times> 'v) list \<Rightarrow> (u64 \<times> 'v) list" where
  "assign_first key v [] = []"
| "assign_first key v ((k, w) # d) = (if k = key then (k, v) # d else (k, w) # assign_first key v d)"

definition cd_insert ::
  "'p chunk_dictionary \<Rightarrow> u64 \<Rightarrow> 'p authenticated_chunk
     \<Rightarrow> 'p chunk_dictionary \<times> 'p authenticated_chunk option" where
  "cd_insert d index value =
     (case find (\<lambda>(k, _). k = index) (dictionary d) of
        Some (_, old_chunk) \<Rightarrow> (ChunkDictionary (assign_first index value (dictionary d)), Some old_chunk)
      | None \<Rightarrow>
          let insertion_index = length (filter (\<lambda>(k, _). k < index) (dictionary d))
          in (ChunkDictionary (take insertion_index (dictionary d) @ (index, value) #
                drop insertion_index (dictionary d)), None))"

text \<open>\<^verbatim>\<open>get_mut\<close> followed by an assignment through the reference.\<close>

definition cd_set :: "'p chunk_dictionary \<Rightarrow> u64 \<Rightarrow> 'p authenticated_chunk \<Rightarrow> 'p chunk_dictionary" where
  "cd_set d key v = ChunkDictionary (assign_first key v (dictionary d))"

definition cd_retain ::
  "'p chunk_dictionary \<Rightarrow> (u64 \<times> 'p authenticated_chunk \<Rightarrow> bool) \<Rightarrow> 'p chunk_dictionary" where
  "cd_retain d f = ChunkDictionary (filter f (dictionary d))"

definition cd_remove ::
  "'p chunk_dictionary \<Rightarrow> u64 \<Rightarrow> 'p chunk_dictionary \<times> 'p authenticated_chunk option" where
  "cd_remove d index =
     (case find_position (\<lambda>(k, _). k = index) (dictionary d) of
        Some definite_position \<Rightarrow>
          (ChunkDictionary (remove_nth definite_position (dictionary d)),
           Some (snd (dictionary d ! definite_position)))
      | None \<Rightarrow> (d, None))"

text \<open>\<open>This list is always sorted\<close>: strictly, since an index has one entry.\<close>

definition wf_dictionary :: "'p chunk_dictionary \<Rightarrow> bool" where
  "wf_dictionary d \<longleftrightarrow> sorted_wrt (<) (map fst (dictionary d))"

section \<open>The contract of a dictionary\<close>

locale map_dictionary =
  fixes inv :: "'s \<Rightarrow> bool"
    and empty :: 's
    and lookup :: "'s \<Rightarrow> 'k \<Rightarrow> 'v option"
    and insert :: "'s \<Rightarrow> 'k \<Rightarrow> 'v \<Rightarrow> 's \<times> 'v option"
    and remove :: "'s \<Rightarrow> 'k \<Rightarrow> 's \<times> 'v option"
  assumes inv_empty: "inv empty"
    and inv_insert: "inv s \<Longrightarrow> inv (fst (insert s k v))"
    and inv_remove: "inv s \<Longrightarrow> inv (fst (remove s k))"
    and lookup_empty: "lookup empty = Map.empty"
    and lookup_insert: "inv s \<Longrightarrow> lookup (fst (insert s k v)) = (lookup s)(k \<mapsto> v)"
    and lookup_remove: "inv s \<Longrightarrow> lookup (fst (remove s k)) = (lookup s)(k := None)"
    and insert_returns: "inv s \<Longrightarrow> snd (insert s k v) = lookup s k"
    and remove_returns: "inv s \<Longrightarrow> snd (remove s k) = lookup s k"
begin

text \<open>Inserting a sequence of entries: the last value of a key counts.\<close>

definition insert_all :: "'s \<Rightarrow> ('k \<times> 'v) list \<Rightarrow> 's" where
  "insert_all s kvs = foldl (\<lambda>s (k, v). fst (insert s k v)) s kvs"

lemma insert_all_lookup:
  "inv s \<Longrightarrow> inv (insert_all s kvs) \<and> lookup (insert_all s kvs) = lookup s ++ map_of (rev kvs)"
proof (induction kvs rule: rev_induct)
  case Nil
  then show ?case by (simp add: insert_all_def)
next
  case (snoc kv kvs)
  then show ?case
    by (cases kv) (auto simp: insert_all_def inv_insert lookup_insert map_add_def fun_eq_iff)
qed

lemma insert_remove:
  assumes "inv s" "lookup s k = None"
  shows "lookup (fst (remove (fst (insert s k v)) k)) = lookup s"
    "snd (remove (fst (insert s k v)) k) = Some v"
  using assms by (auto simp: inv_insert lookup_insert lookup_remove remove_returns)

lemma insert_overwrites:
  assumes "inv s"
  shows "lookup (fst (insert (fst (insert s k v)) k w)) = lookup (fst (insert s k w))"
    "snd (insert (fst (insert s k v)) k w) = Some v"
  using assms by (simp_all add: inv_insert lookup_insert insert_returns)

end

section \<open>The operations on the sorted list\<close>

lemma find_key_map_of: "map_option snd (find (\<lambda>(k, _). k = key) xs) = map_of xs key"
  by (induction xs) auto

lemma cd_get_map_of: "cd_get d = map_of (dictionary d)"
  by (rule ext) (simp add: cd_get_def find_key_map_of)

lemma find_key_cases:
  obtains (found) v where "find (\<lambda>(k, _). k = key) xs = Some (key, v)" "map_of xs key = Some v"
  | (absent) "find (\<lambda>(k, _). k = key) xs = None" "key \<notin> fst ` set xs" "map_of xs key = None"
proof (cases "find (\<lambda>(k, _). k = key) xs")
  case None
  then have "map_of xs key = None" using find_key_map_of [of key xs] by simp
  with None absent show ?thesis by (simp add: map_of_eq_None_iff)
next
  case (Some e)
  then have "fst e = key" by (auto simp: find_Some_iff)
  with Some found [of "snd e"] show ?thesis using find_key_map_of [of key xs] by (cases e) simp
qed

lemma assign_first_map_of: "key \<in> fst ` set xs \<Longrightarrow> map_of (assign_first key v xs) = (map_of xs)(key \<mapsto> v)"
proof (induction xs)
  case (Cons x xs)
  then show ?case by (cases x, cases "fst x = key") (auto simp: fun_eq_iff)
qed simp

lemma assign_first_keys [simp]: "map fst (assign_first key v xs) = map fst xs"
  by (induction xs) auto

text \<open>Splitting a sorted dictionary at an index.\<close>

lemma sorted_split:
  fixes key :: "'k::linorder" and xs :: "('k \<times> 'v) list"
  assumes "sorted_wrt (<) (map fst xs)"
  shows "(\<forall>e\<in>set (take (length (filter (\<lambda>(k, _). k < key) xs)) xs). fst e < key) \<and>
    (\<forall>e\<in>set (drop (length (filter (\<lambda>(k, _). k < key) xs)) xs). key \<le> fst e)"
  using assms
proof (induction xs)
  case (Cons x xs)
  show ?case
  proof (cases "fst x < key")
    case True
    then show ?thesis using Cons by (auto split: prod.splits)
  next
    case False
    then have "\<not> fst e < key" if "e \<in> set xs" for e
    proof -
      have "fst x < fst e" using Cons.prems that by simp
      with False show ?thesis by simp
    qed
    then have "filter (\<lambda>(k, _). k < key) (x # xs) = []"
      using False by (auto simp: filter_empty_conv)
    then show ?thesis using False \<open>\<And>e. e \<in> set xs \<Longrightarrow> \<not> fst e < key\<close>
      by (auto simp del: filter.simps simp: not_less)
  qed
qed simp

lemma map_of_insert_mid:
  "k \<notin> fst ` set xs \<Longrightarrow> map_of (xs @ (k, v) # ys) = (map_of (xs @ ys))(k \<mapsto> v)"
  by (induction xs) (auto simp: fun_eq_iff)

lemma map_of_delete_mid:
  "k \<notin> fst ` set xs \<Longrightarrow> k \<notin> fst ` set ys \<Longrightarrow> map_of (xs @ ys) = (map_of (xs @ (k, v) # ys))(k := None)"
  by (subst map_of_insert_mid, assumption, subst fun_upd_upd)
     (metis (no_types) Un_iff fun_upd_triv image_Un map_of_eq_None_iff set_append)

lemma cd_insert_wf:
  assumes "wf_dictionary d"
  shows "wf_dictionary (fst (cd_insert d k v)) \<and> cd_get (fst (cd_insert d k v)) = (cd_get d)(k \<mapsto> v) \<and>
    snd (cd_insert d k v) = cd_get d k"
proof (cases rule: find_key_cases [of k "dictionary d"])
  case (found w)
  then have "k \<in> fst ` set (dictionary d)" by (metis map_of_SomeD fst_conv image_eqI)
  with found assms show ?thesis
    by (simp add: cd_insert_def cd_get_map_of wf_dictionary_def assign_first_map_of)
next
  case absent
  let ?n = "length (filter (\<lambda>(k', _). k' < k) (dictionary d))"
  have sp: "sorted_wrt (<) (map fst (take ?n (dictionary d) @ drop ?n (dictionary d)))"
    using assms by (simp add: wf_dictionary_def)
  have "\<forall>e\<in>set (drop ?n (dictionary d)). k < fst e"
    using sorted_split [of "dictionary d" k] assms absent(2)
    by (metis (no_types, lifting) image_eqI in_set_dropD order_le_less wf_dictionary_def)
  moreover have "\<forall>e\<in>set (take ?n (dictionary d)). fst e < k"
    using sorted_split [of "dictionary d" k] assms by (simp add: wf_dictionary_def)
  ultimately have "sorted_wrt (<) (map fst (take ?n (dictionary d) @ (k, v) # drop ?n (dictionary d)))"
    using sp by (simp add: sorted_wrt_append del: append_take_drop_id)
  moreover have "map_of (take ?n (dictionary d) @ (k, v) # drop ?n (dictionary d)) =
      (map_of (take ?n (dictionary d) @ drop ?n (dictionary d)))(k \<mapsto> v)"
    using absent(2) by (intro map_of_insert_mid) (auto dest: in_set_takeD)
  ultimately show ?thesis
    using absent by (simp add: cd_insert_def cd_get_map_of wf_dictionary_def Let_def)
qed

lemma cd_remove_wf:
  assumes "wf_dictionary d"
  shows "wf_dictionary (fst (cd_remove d k)) \<and> cd_get (fst (cd_remove d k)) = (cd_get d)(k := None) \<and>
    snd (cd_remove d k) = cd_get d k"
proof (cases "find_position (\<lambda>(k', _). k' = k) (dictionary d)")
  case None
  then have "k \<notin> fst ` set (dictionary d)" by (auto simp: find_position_None)
  then have "map_of (dictionary d) k = None" by (simp add: map_of_eq_None_iff)
  with None assms show ?thesis by (auto simp: cd_remove_def cd_get_map_of fun_eq_iff)
next
  case (Some i)
  let ?xs = "dictionary d"
  have i: "i < length ?xs" "fst (?xs ! i) = k"
    using find_position_Some [OF Some] by (auto split: prod.splits)
  have split: "?xs = take i ?xs @ ?xs ! i # drop (Suc i) ?xs" by (rule id_take_nth_drop [OF i(1)])
  have "sorted_wrt (<) (map fst (take i ?xs @ ?xs ! i # drop (Suc i) ?xs))"
    using assms by (simp only: wf_dictionary_def split [symmetric])
  then have srt: "sorted_wrt (<) (map fst (remove_nth i ?xs))"
      and out: "k \<notin> fst ` set (take i ?xs)" "k \<notin> fst ` set (drop (Suc i) ?xs)"
    unfolding remove_nth_def map_append list.map sorted_wrt_append by (auto simp: i(2))
  obtain v where v: "?xs ! i = (k, v)" using i(2) by (cases "?xs ! i") simp
  have eq: "map_of ?xs = map_of (take i ?xs @ (k, v) # drop (Suc i) ?xs)" using split v by metis
  have "map_of (remove_nth i ?xs) = (map_of ?xs)(k := None)"
    unfolding remove_nth_def eq by (rule map_of_delete_mid [OF out])
  moreover have "map_of ?xs k = Some (snd (?xs ! i))"
    by (simp only: eq map_of_insert_mid [OF out(1)] v snd_conv fun_upd_same)
  ultimately have "map_of (remove_nth i ?xs) = (map_of ?xs)(k := None)" "map_of ?xs k = Some (snd (?xs ! i))"
    by blast+
  with srt Some show ?thesis by (simp add: cd_remove_def cd_get_map_of wf_dictionary_def)
qed

interpretation chunk_dict: map_dictionary wf_dictionary cd_empty cd_get cd_insert cd_remove
  by unfold_locales
     (simp_all add: cd_insert_wf cd_remove_wf, simp_all add: wf_dictionary_def cd_empty_def cd_get_map_of)



end
