(* ===== verification/Mutator_Set.thy ===== *)
theory Mutator_Set
  imports Absolute_Index_Set Chunk_Dictionary
begin

text \<open>
  The mutator set accumulator of \<^verbatim>\<open>consensus/src/mutator_set\<close>: \<^verbatim>\<open>mutator_set_accumulator.rs\<close>, with
  \<^verbatim>\<open>RemovalRecord\<close> (\<^verbatim>\<open>removal_record.rs\<close>), \<^verbatim>\<open>AdditionRecord\<close>, \<^verbatim>\<open>MsMembershipProof\<close> and \<^verbatim>\<open>commit\<close>
  (\<^verbatim>\<open>mod.rs\<close>). It is the set of spendable outputs: an append-only list of commitments (an MMR) and a
  sliding-window Bloom filter of spent positions whose inactive part is an MMR of chunks.

  Tip5 and the MMR accumulator belong to the libraries \<^verbatim>\<open>tasm-lib\<close> and \<^verbatim>\<open>twenty-first\<close>; they are the
  parameter record \<open>crypto\<close>. The locale \<open>mutator_set_crypto\<close> states what the code relies on: an MMR is a
  list of leafs, a membership proof that verifies names the leaf at its index, a batch mutation replaces
  the leafs it names, two chunks with the same digest are equal, and sampling returns 45 indices below
  the window size. It is interpreted on a symbolic instance at the end of the theory.
\<close>

section \<open>Parameters\<close>

record ('d, 'm, 'p) crypto =
  hash_pair :: "'d \<Rightarrow> 'd \<Rightarrow> 'd"
  hash_digest :: "'d \<Rightarrow> 'd"
  hash_chunk :: "chunk \<Rightarrow> 'd"
  hash_window :: "active_window \<Rightarrow> 'd"
  zero_digest :: 'd
  sample_indices :: "'d \<Rightarrow> 'd \<Rightarrow> 'd \<Rightarrow> u64 \<Rightarrow> u32 list"
  mmr_empty :: 'm
  mmr_init :: "'d list \<Rightarrow> u64 \<Rightarrow> 'm"
  num_leafs :: "'m \<Rightarrow> u64"
  num_peaks :: "'m \<Rightarrow> nat"
  bag_peaks :: "'m \<Rightarrow> 'd"
  mmr_append :: "'m \<Rightarrow> 'd \<Rightarrow> 'm \<times> 'p"
  mp_verify :: "'p \<Rightarrow> u64 \<Rightarrow> 'd \<Rightarrow> 'm \<Rightarrow> bool"
  batch_mutate :: "'m \<Rightarrow> ('p \<times> u64) list \<Rightarrow> (u64 \<times> 'd \<times> 'p) list \<Rightarrow> 'm \<times> 'p list"

section \<open>Data\<close>

datatype 'd addition_record = AdditionRecord (canonical_commitment: 'd)

record 'p removal_record =
  absolute_indices :: absolute_index_set
  target_chunks :: "'p chunk_dictionary"

record ('d, 'p) ms_membership_proof =
  sender_randomness :: 'd
  receiver_preimage :: 'd
  auth_path_aocl :: 'p
  aocl_leaf_index :: u64
  mp_target_chunks :: "'p chunk_dictionary"

record 'm mutator_set =
  aocl :: 'm
  swbf_inactive :: 'm
  swbf_active :: active_window

section \<open>Operations\<close>

definition commit :: "('d, 'm, 'p) crypto \<Rightarrow> 'd \<Rightarrow> 'd \<Rightarrow> 'd \<Rightarrow> 'd addition_record" where
  "commit C item sender_randomness' receiver_digest =
     AdditionRecord (hash_pair C (hash_pair C item sender_randomness') receiver_digest)"

definition ms_default :: "('d, 'm, 'p) crypto \<Rightarrow> 'm mutator_set" where
  "ms_default C = \<lparr>aocl = mmr_empty C, swbf_inactive = mmr_empty C, swbf_active = aw_new\<rparr>"

definition ms_new ::
  "('d, 'm, 'p) crypto \<Rightarrow> 'd list \<Rightarrow> u64 \<Rightarrow> 'd list \<Rightarrow> active_window \<Rightarrow> 'm mutator_set" where
  "ms_new C aocl' aocl_leaf_count swbf_inactive' swbf_active' =
     \<lparr>aocl = mmr_init C aocl' aocl_leaf_count,
      swbf_inactive = mmr_init C swbf_inactive' (aocl_to_swbfi_leaf_counts aocl_leaf_count),
      swbf_active = swbf_active'\<rparr>"

definition window_slides :: "u64 \<Rightarrow> bool" where
  "window_slides added_index \<longleftrightarrow> added_index \<noteq> 0 \<and> added_index mod ucast BATCH_SIZE = 0"

definition add_helper ::
  "('d, 'm, 'p) crypto \<Rightarrow> 'm mutator_set \<Rightarrow> 'd addition_record \<Rightarrow> 'm mutator_set \<times> (u64 \<times> chunk) option" where
  "add_helper C ms r =
     (let item_index = num_leafs C (aocl ms);
          ms = ms\<lparr>aocl := fst (mmr_append C (aocl ms) (canonical_commitment r))\<rparr>
      in if \<not> window_slides item_index then (ms, None)
         else let new_chunk = slid_chunk (swbf_active ms);
                  chunk_digest = hash_chunk C new_chunk;
                  new_chunk_index = num_leafs C (swbf_inactive ms);
                  ms = ms\<lparr>swbf_inactive := fst (mmr_append C (swbf_inactive ms) chunk_digest)\<rparr>;
                  ms = ms\<lparr>swbf_active := slide_window (swbf_active ms)\<rparr>
              in (ms, Some (new_chunk_index, new_chunk)))"

definition ms_add :: "('d, 'm, 'p) crypto \<Rightarrow> 'm mutator_set \<Rightarrow> 'd addition_record \<Rightarrow> 'm mutator_set" where
  "ms_add C ms r = fst (add_helper C ms r)"

definition get_batch_index :: "('d, 'm, 'p) crypto \<Rightarrow> 'm mutator_set \<Rightarrow> u64" where
  "get_batch_index C ms = aocl_to_swbfi_leaf_counts (num_leafs C (aocl ms))"

definition active_window_chunk_interval :: "('d, 'm, 'p) crypto \<Rightarrow> 'm mutator_set \<Rightarrow> u64 \<times> u64" where
  "active_window_chunk_interval C ms =
     (let batch_index = get_batch_index C ms
      in (batch_index, batch_index + ucast (WINDOW_SIZE div CHUNK_SIZE) - 1))"

definition get_chunkidx_to_indices_dict :: "'p removal_record \<Rightarrow> (u64 \<times> u128 list) list" where
  "get_chunkidx_to_indices_dict rr = indices_to_hash_map (ais_to_array (absolute_indices rr))"

definition has_required_authenticated_chunks ::
  "('d, 'm, 'p) crypto \<Rightarrow> 'm mutator_set \<Rightarrow> 'p removal_record \<Rightarrow> bool" where
  "has_required_authenticated_chunks C ms rr =
     (case split_by_activity (absolute_indices rr) (active_window_chunk_interval C ms) of
        Inl _ \<Rightarrow> False
      | Inr (inactive, _) \<Rightarrow> set (map fst inactive) = set (all_chunk_indices (target_chunks rr)))"

datatype removal_record_validity_error = AbsentAuthenticatedChunk | InvalidSwbfiMmrMp u64

definition validate_inner ::
  "('d, 'm, 'p) crypto \<Rightarrow> 'm mutator_set \<Rightarrow> 'p removal_record \<Rightarrow> removal_record_validity_error + unit" where
  "validate_inner C ms rr =
     (if \<not> has_required_authenticated_chunks C ms rr then Inl AbsentAuthenticatedChunk
      else case find (\<lambda>(chunk_index, (mmr_proof, chunk)).
                  \<not> mp_verify C mmr_proof chunk_index (hash_chunk C chunk) (swbf_inactive ms))
                (dictionary (target_chunks rr)) of
             Some (chunk_index, _) \<Rightarrow> Inl (InvalidSwbfiMmrMp chunk_index)
           | None \<Rightarrow> Inr ())"

definition rr_validate :: "('d, 'm, 'p) crypto \<Rightarrow> 'm mutator_set \<Rightarrow> 'p removal_record \<Rightarrow> bool" where
  "rr_validate C ms rr \<longleftrightarrow> validate_inner C ms rr = Inr ()"

text \<open>\<^verbatim>\<open>u32::try_from\<close> of a 128-bit value.\<close>

definition u32_try_from_u128 :: "u128 \<Rightarrow> u32 option" where
  "u32_try_from_u128 x = (if x < push_bit 32 1 then Some (ucast x) else None)"

text \<open>The loops of \<^verbatim>\<open>remove_helper\<close>: the indices of one chunk, in the active window or in the chunk.\<close>

fun insert_active :: "u128 \<Rightarrow> active_window \<Rightarrow> u128 list \<Rightarrow> active_window res" where
  "insert_active active_window_start w [] = Inr w"
| "insert_active active_window_start w (index # rest) =
     (case u32_try_from_u128 (index - active_window_start) of
        None \<Rightarrow> Inl UnwrapFailed
      | Some relative_index \<Rightarrow>
          bind_res (aw_insert w relative_index) (\<lambda>w. insert_active active_window_start w rest))"

fun insert_inactive :: "chunk \<Rightarrow> u128 list \<Rightarrow> chunk res" where
  "insert_inactive c [] = Inr c"
| "insert_inactive c (index # rest) =
     bind_res (chunk_insert c (ucast (index mod ucast CHUNK_SIZE))) (\<lambda>c. insert_inactive c rest)"

fun remove_loop ::
  "u64 \<Rightarrow> u128 \<Rightarrow> active_window \<Rightarrow> 'p chunk_dictionary \<Rightarrow> (u64 \<times> u128 list) list
     \<Rightarrow> (active_window \<times> 'p chunk_dictionary) res" where
  "remove_loop batch_index active_window_start w d [] = Inr (w, d)"
| "remove_loop batch_index active_window_start w d ((chunk_index, absolute_indices') # rest) =
     (if batch_index \<le> chunk_index
      then bind_res (insert_active active_window_start w absolute_indices')
             (\<lambda>w. remove_loop batch_index active_window_start w d rest)
      else case cd_get d chunk_index of
             None \<Rightarrow> Inl ExplicitPanic
           | Some (mp, chunk) \<Rightarrow>
               bind_res (insert_inactive chunk absolute_indices')
                 (\<lambda>chunk. remove_loop batch_index active_window_start w (cd_set d chunk_index (mp, chunk)) rest))"

definition remove_helper ::
  "('d, 'm, 'p) crypto \<Rightarrow> 'm mutator_set \<Rightarrow> 'p removal_record \<Rightarrow> ('m mutator_set \<times> (u64 \<times> chunk) list) res" where
  "remove_helper C ms rr =
     (let batch_index = get_batch_index C ms;
          active_window_start = (ucast batch_index * ucast CHUNK_SIZE :: u128)
      in bind_res
           (remove_loop batch_index active_window_start (swbf_active ms) (target_chunks rr)
              (get_chunkidx_to_indices_dict rr))
           (\<lambda>(w, new_target_chunks).
              let mutation_data = chunk_indices_and_membership_proofs_and_leafs (hash_chunk C) new_target_chunks;
                  (swbfi, _) = batch_mutate C (swbf_inactive ms) [] (map (\<lambda>(i, p, l). (i, l, p)) mutation_data)
              in Inr (ms\<lparr>swbf_inactive := swbfi, swbf_active := w\<rparr>,
                      map (\<lambda>(chunk_index, (_, chunk)). (chunk_index, chunk)) (dictionary new_target_chunks))))"

definition ms_remove ::
  "('d, 'm, 'p) crypto \<Rightarrow> 'm mutator_set \<Rightarrow> 'p removal_record \<Rightarrow> 'm mutator_set res" where
  "ms_remove C ms rr = bind_res (remove_helper C ms rr) (\<lambda>(ms, _). Inr ms)"

fun can_remove_loop ::
  "u128 \<Rightarrow> active_window \<Rightarrow> 'p chunk_dictionary \<Rightarrow> u128 list \<Rightarrow> bool res" where
  "can_remove_loop active_window_start w d [] = Inr False"
| "can_remove_loop active_window_start w d (inserted_index # rest) =
     (if inserted_index < active_window_start
      then case cd_get d (ucast (inserted_index div ucast CHUNK_SIZE)) of
             None \<Rightarrow> Inl UnwrapFailed
           | Some (_, chunk) \<Rightarrow>
               bind_res (chunk_contains chunk (ucast (inserted_index mod ucast CHUNK_SIZE)))
                 (\<lambda>b. if \<not> b then Inr True else can_remove_loop active_window_start w d rest)
      else bind_res (aw_contains w (ucast (inserted_index - active_window_start)))
             (\<lambda>b. if \<not> b then Inr True else can_remove_loop active_window_start w d rest))"

definition can_remove :: "('d, 'm, 'p) crypto \<Rightarrow> 'm mutator_set \<Rightarrow> 'p removal_record \<Rightarrow> bool res" where
  "can_remove C ms rr =
     (if \<not> rr_validate C ms rr then Inr False
      else can_remove_loop (ucast (get_batch_index C ms) * ucast CHUNK_SIZE) (swbf_active ms)
             (target_chunks rr) (ais_to_array (absolute_indices rr)))"

definition ms_prove ::
  "('d, 'm, 'p) crypto \<Rightarrow> 'm mutator_set \<Rightarrow> 'd \<Rightarrow> 'd \<Rightarrow> 'd \<Rightarrow> ('d, 'p) ms_membership_proof" where
  "ms_prove C ms item sender_randomness' receiver_preimage' =
     (let item_commitment = hash_pair C item sender_randomness';
          leaf_index = num_leafs C (aocl ms);
          auth_path = snd (mmr_append C (aocl ms) item_commitment)
      in \<lparr>sender_randomness = sender_randomness', receiver_preimage = receiver_preimage',
          auth_path_aocl = auth_path, aocl_leaf_index = leaf_index, mp_target_chunks = cd_empty\<rparr>)"

definition ms_drop ::
  "('d, 'm, 'p) crypto \<Rightarrow> 'm mutator_set \<Rightarrow> 'd \<Rightarrow> ('d, 'p) ms_membership_proof \<Rightarrow> 'p removal_record res" where
  "ms_drop C ms item mp =
     bind_res (ais_compute (sample_indices C) item (sender_randomness mp) (receiver_preimage mp) (aocl_leaf_index mp))
       (\<lambda>indices. Inr \<lparr>absolute_indices = indices, target_chunks = mp_target_chunks mp\<rparr>)"

definition ms_hash :: "('d, 'm, 'p) crypto \<Rightarrow> 'm mutator_set \<Rightarrow> 'd" where
  "ms_hash C ms = hash_pair C (hash_pair C (bag_peaks C (aocl ms)) (bag_peaks C (swbf_inactive ms)))
     (hash_pair C (hash_window C (swbf_active ms)) (zero_digest C))"

definition is_consistent :: "('d, 'm, 'p) crypto \<Rightarrow> 'm mutator_set \<Rightarrow> bool" where
  "is_consistent C ms \<longleftrightarrow>
     aocl_to_swbfi_leaf_counts (num_leafs C (aocl ms)) = num_leafs C (swbf_inactive ms) \<and>
     length (filter (bit (num_leafs C (aocl ms))) [0..<64]) = num_peaks C (aocl ms) \<and>
     length (filter (bit (num_leafs C (swbf_inactive ms))) [0..<64]) = num_peaks C (swbf_inactive ms)"

text \<open>\<^verbatim>\<open>verify\<close>: the loop over the inactive chunks with the three flags of the function, the loop inside
  it, and the loop over the active window.\<close>

fun absent_in_chunk :: "chunk \<Rightarrow> u128 list \<Rightarrow> bool res" where
  "absent_in_chunk c [] = Inr False"
| "absent_in_chunk c (index # rest) =
     bind_res (chunk_contains c (ucast (index mod ucast CHUNK_SIZE)))
       (\<lambda>b. if \<not> b then Inr True else absent_in_chunk c rest)"

fun verify_inactive ::
  "('d, 'm, 'p) crypto \<Rightarrow> 'm \<Rightarrow> 'p chunk_dictionary \<Rightarrow> bool \<times> bool \<times> bool \<Rightarrow> (u64 \<times> u128 list) list
     \<Rightarrow> (bool \<times> bool \<times> bool) res" where
  "verify_inactive C swbfi d flags [] = Inr flags"
| "verify_inactive C swbfi d (entries_in_dictionary, all_auth_paths_are_valid, has_absent_index)
       ((chunk_index, indices) # rest) =
     (if \<not> cd_contains_key d chunk_index then Inr (False, all_auth_paths_are_valid, has_absent_index)
      else case cd_get d chunk_index of
             None \<Rightarrow> Inl UnwrapFailed
           | Some (mp, chunk) \<Rightarrow>
               let valid_auth_path = mp_verify C mp chunk_index (hash_chunk C chunk) swbfi
               in bind_res (absent_in_chunk chunk indices)
                    (\<lambda>b. verify_inactive C swbfi d (entries_in_dictionary,
                       all_auth_paths_are_valid \<and> valid_auth_path, has_absent_index \<or> b) rest))"

fun absent_in_window :: "active_window \<Rightarrow> u128 \<Rightarrow> u128 list \<Rightarrow> bool res" where
  "absent_in_window w window_start [] = Inr False"
| "absent_in_window w window_start (index # rest) =
     bind_res (aw_contains w (ucast (index - window_start)))
       (\<lambda>b. if \<not> b then Inr True else absent_in_window w window_start rest)"

definition ms_verify ::
  "('d, 'm, 'p) crypto \<Rightarrow> 'm mutator_set \<Rightarrow> 'd \<Rightarrow> ('d, 'p) ms_membership_proof \<Rightarrow> bool res" where
  "ms_verify C ms item mp =
     (let aocl_leaf_count = num_leafs C (aocl ms) in
      if aocl_leaf_count \<le> aocl_leaf_index mp then Inr False
      else let leaf = hash_pair C (hash_pair C item (sender_randomness mp))
                        (hash_pair C (receiver_preimage mp) (zero_digest C));
               is_aocl_member = mp_verify C (auth_path_aocl mp) (aocl_leaf_index mp) leaf (aocl ms)
      in if \<not> is_aocl_member then Inr False
      else let window_start = (ucast (get_batch_index C ms) * ucast CHUNK_SIZE :: u128)
      in bind_res (ais_compute (sample_indices C) item (sender_randomness mp) (receiver_preimage mp)
             (aocl_leaf_index mp))
         (\<lambda>all_indices.
           case split_by_activity all_indices (active_window_chunk_interval C ms) of
             Inl _ \<Rightarrow> Inr False
           | Inr (indices_in_inactive_swbf, indices_in_active_swbf) \<Rightarrow>
      bind_res (verify_inactive C (swbf_inactive ms) (mp_target_chunks mp) (True, True, False)
                  indices_in_inactive_swbf)
        (\<lambda>(entries_in_dictionary, all_auth_paths_are_valid, has_absent_index).
           bind_res (absent_in_window (swbf_active ms) window_start indices_in_active_swbf)
             (\<lambda>b. Inr (is_aocl_member \<and> entries_in_dictionary \<and> all_auth_paths_are_valid \<and>
                         (has_absent_index \<or> b))))))"

section \<open>What the code relies on\<close>

locale mutator_set_crypto =
  fixes C :: "('d, 'm, 'p) crypto" and leafs :: "'m \<Rightarrow> 'd list"
  assumes leafs_empty: "leafs (mmr_empty C) = []"
    and leafs_append: "leafs (fst (mmr_append C m d)) = leafs m @ [d]"
    and num_leafs_length: "length (leafs m) < 2 ^ 63 \<Longrightarrow> unat (num_leafs C m) = length (leafs m)"
    and verify_leaf: "length (leafs m) < 2 ^ 63 \<Longrightarrow> mp_verify C p i d m \<Longrightarrow>
      unat i < length (leafs m) \<and> leafs m ! unat i = d"
    and verify_appended: "length (leafs m) < 2 ^ 63 - 1 \<Longrightarrow>
      mp_verify C (snd (mmr_append C m d')) (num_leafs C m) d (fst (mmr_append C m d))"
    and mutate_leafs: "length (leafs m) < 2 ^ 63 \<Longrightarrow> distinct (map fst muts) \<Longrightarrow>
      (\<forall>(i, d, p)\<in>set muts. mp_verify C p i (leafs m ! unat i) m) \<Longrightarrow>
      leafs (fst (batch_mutate C m [] muts)) = foldl (\<lambda>ls (i, d, p). ls[unat i := d]) (leafs m) muts"
    and peaks_count: "length (leafs m) < 2 ^ 63 \<Longrightarrow>
      num_peaks C m = length (filter (bit (num_leafs C m)) [0..<64])"
    and hash_chunk_inj: "inj (hash_chunk C)"
    and hash_digest_pair: "hash_digest C d = hash_pair C d (zero_digest C)"
    and samples: "sample_ok (sample_indices C)"

section \<open>The Bloom filter a mutator set stands for\<close>

text \<open>The positions of one chunk, the chunk at an index as a dictionary sees it, and the whole filter: the
  inactive chunks \<open>cs\<close>, of which the accumulator keeps the digests, and the active window.\<close>

definition chunk_positions :: "nat \<Rightarrow> u32 list \<Rightarrow> nat multiset" where
  "chunk_positions k xs = image_mset (\<lambda>r. 4096 * k + unat r) (mset xs)"

definition bloom :: "(nat \<Rightarrow> chunk) \<Rightarrow> nat \<Rightarrow> active_window \<Rightarrow> nat multiset" where
  "bloom f n w = (\<Sum>k<n. chunk_positions k (relative_indices (f k))) + chunk_positions n (sbf w)"

definition represents :: "('d, 'm, 'p) crypto \<Rightarrow> ('m \<Rightarrow> 'd list) \<Rightarrow> 'm mutator_set \<Rightarrow> chunk list \<Rightarrow> bool" where
  "represents C leafs ms cs \<longleftrightarrow>
     length (leafs (aocl ms)) < 2 ^ 63 \<and>
     leafs (swbf_inactive ms) = map (hash_chunk C) cs \<and>
     length cs = (length (leafs (aocl ms)) - 1) div 8 \<and>
     (\<forall>c\<in>set cs. \<forall>r\<in>set (relative_indices c). r < CHUNK_SIZE) \<and>
     wf_window (swbf_active ms)"

lemma batch_count: "unat (aocl_to_swbfi_leaf_counts n) = (unat n - 1) div 8"
  by (simp add: aocl_to_swbfi_leaf_counts_def unat_div)

lemma chunk_positions_simps [simp]:
  "chunk_positions k [] = {#}" "chunk_positions k (xs @ ys) = chunk_positions k xs + chunk_positions k ys"
  by (simp_all add: chunk_positions_def)

lemma chunk_positions_mset: "mset xs = mset ys \<Longrightarrow> chunk_positions k xs = chunk_positions k ys"
  by (simp add: chunk_positions_def)

text \<open>Sliding the window moves positions from the window to a new chunk and keeps the filter.\<close>

lemma bloom_slide:
  assumes "wf_window w"
  shows "bloom (f(n := slid_chunk w)) (Suc n) (slide_window w) = bloom f n w"
proof -
  let ?low = "filter (\<lambda>l. l < CHUNK_SIZE) (sbf w)" and ?high = "filter (\<lambda>l. CHUNK_SIZE \<le> l) (sbf w)"
  have "4096 * Suc n + unat (l - CHUNK_SIZE) = 4096 * n + unat l" if "CHUNK_SIZE \<le> l" for l
    using that unat_sub_le [OF that] by (simp add: word_le_nat_alt)
  then have "chunk_positions (Suc n) (sbf (slide_window w)) = chunk_positions n ?high"
    unfolding chunk_positions_def sbf_slide_window mset_map multiset.map_comp comp_def
    by (intro image_mset_cong) simp
  moreover have "chunk_positions n (sbf w) = chunk_positions n (?low @ ?high)"
    using multiset_partition [of "mset (sbf w)" "\<lambda>l. l < CHUNK_SIZE"]
    by (intro chunk_positions_mset) (simp add: not_less)
  moreover have "(\<Sum>k<n. chunk_positions k (relative_indices ((f(n := slid_chunk w)) k))) =
      (\<Sum>k<n. chunk_positions k (relative_indices (f k)))"
    by (intro sum.cong) auto
  ultimately show ?thesis by (simp add: bloom_def indices_slid_chunk add.assoc)
qed

lemma window_slides_iff: "window_slides i \<longleftrightarrow> unat i \<noteq> 0 \<and> unat i mod 8 = 0"
  by (simp add: window_slides_def word_unat_eq_iff unat_mod)

lemma slides_count: "(n::nat) div 8 = (n - 1) div 8 + of_bool (n \<noteq> 0 \<and> n mod 8 = 0)"
proof (cases n)
  case (Suc m)
  show ?thesis by (simp add: Suc div_Suc of_bool_def)
qed simp

context mutator_set_crypto
begin

abbreviation chunk_list :: "chunk list \<Rightarrow> nat \<Rightarrow> chunk" where
  "chunk_list cs \<equiv> \<lambda>k. cs ! k"

lemma batch_index_length:
  "represents C leafs ms cs \<Longrightarrow> unat (get_batch_index C ms) = length cs"
  by (simp add: represents_def get_batch_index_def batch_count num_leafs_length)

lemma inactive_length:
  assumes "represents C leafs ms cs"
  shows "length (leafs (swbf_inactive ms)) = length cs" "length cs < 2 ^ 60"
    "length (leafs (swbf_inactive ms)) < 2 ^ 63"
proof -
  show len: "length (leafs (swbf_inactive ms)) = length cs" using assms by (simp add: represents_def)
  have "length cs = (length (leafs (aocl ms)) - 1) div 8" "length (leafs (aocl ms)) < 2 ^ 63"
    using assms by (simp_all add: represents_def)
  then show "length cs < 2 ^ 60" by (simp add: less_mult_imp_div_less)
  with len show "length (leafs (swbf_inactive ms)) < 2 ^ 63" by simp
qed

lemma represents_default: "represents C leafs (ms_default C) []"
  by (simp add: represents_def ms_default_def leafs_empty aw_new_def wf_window_def)

lemma add_represents:
  assumes "represents C leafs ms cs" "length (leafs (aocl ms)) < 2 ^ 63 - 1"
  shows "\<exists>cs'. represents C leafs (ms_add C ms r) cs' \<and>
    bloom (chunk_list cs') (length cs') (swbf_active (ms_add C ms r)) =
      bloom (chunk_list cs) (length cs) (swbf_active ms) \<and>
    leafs (aocl (ms_add C ms r)) = leafs (aocl ms) @ [canonical_commitment r]"
proof -
  let ?n = "length (leafs (aocl ms))"
  have num: "unat (num_leafs C (aocl ms)) = ?n" using assms(1) by (simp add: represents_def num_leafs_length)
  have sl: "window_slides (num_leafs C (aocl ms)) \<longleftrightarrow> ?n \<noteq> 0 \<and> ?n mod 8 = 0"
    by (simp add: window_slides_iff num)
  show ?thesis
  proof (cases "window_slides (num_leafs C (aocl ms))")
    case False
    then have "(Suc ?n - 1) div 8 = (?n - 1) div 8" using slides_count [of ?n] sl by simp
    with False assms show ?thesis
      by (intro exI [of _ cs]) (simp add: ms_add_def add_helper_def represents_def leafs_append Let_def)
  next
    case True
    let ?c = "slid_chunk (swbf_active ms)"
    have wf: "wf_window (swbf_active ms)" using assms(1) by (simp add: represents_def)
    have cnt: "(Suc ?n - 1) div 8 = Suc ((?n - 1) div 8)" using slides_count [of ?n] sl True by simp
    have "bloom (chunk_list (cs @ [?c])) (Suc (length cs)) (slide_window (swbf_active ms)) =
        bloom ((chunk_list cs)(length cs := ?c)) (Suc (length cs)) (slide_window (swbf_active ms))"
      unfolding bloom_def by (intro arg_cong2 [where f = "(+)"] sum.cong refl) (auto simp: nth_append)
    with bloom_slide [OF wf] True assms cnt wf_slide_window [OF wf] show ?thesis
      by (intro exI [of _ "cs @ [?c]"])
         (auto simp: ms_add_def add_helper_def represents_def leafs_append Let_def indices_slid_chunk)
  qed
qed

end

section \<open>Grouping indices by chunk\<close>

lemma entry_push_keys: "fst ` set (entry_push k v m) = insert k (fst ` set m)"
  by (induction k v m rule: entry_push.induct) auto

lemma entry_push_distinct: "distinct (map fst m) \<Longrightarrow> distinct (map fst (entry_push k v m))"
proof (induction k v m rule: entry_push.induct)
  case (2 k v k' vs m)
  then show ?case using entry_push_keys [of k v m] by (auto simp: image_iff)
qed simp

lemma entry_push_values:
  "\<Union> (set ` snd ` set (entry_push k v m)) = insert v (\<Union> (set ` snd ` set m))"
  "mset (concat (map snd (entry_push k v m))) = add_mset v (mset (concat (map snd m)))"
  by (induction k v m rule: entry_push.induct) auto

lemma entry_push_entries:
  "(k', vs) \<in> set (entry_push k v m) \<Longrightarrow> x \<in> set vs \<Longrightarrow> (k' = k \<and> x = v) \<or> (\<exists>ws. (k', ws) \<in> set m \<and> x \<in> set ws)"
  by (induction k v m rule: entry_push.induct) (auto split: if_splits)

lemma indices_to_hash_map_spec:
  "distinct (map fst (indices_to_hash_map xs)) \<and>
   fst ` set (indices_to_hash_map xs) = (\<lambda>x. ucast (x div ucast CHUNK_SIZE)) ` set xs \<and>
   mset (concat (map snd (indices_to_hash_map xs))) = mset xs \<and>
   (\<forall>(k, vs)\<in>set (indices_to_hash_map xs). \<forall>x\<in>set vs. k = ucast (x div ucast CHUNK_SIZE))"
proof (induction xs rule: rev_induct)
  case Nil
  then show ?case by (simp add: indices_to_hash_map_def)
next
  case (snoc x xs)
  have step: "indices_to_hash_map (xs @ [x]) =
      entry_push (ucast (x div ucast CHUNK_SIZE)) x (indices_to_hash_map xs)"
    by (simp add: indices_to_hash_map_def)
  show ?case
    unfolding step using snoc
    by (auto simp: entry_push_distinct entry_push_keys entry_push_values dest!: entry_push_entries)
qed

lemmas hash_map_distinct = indices_to_hash_map_spec [THEN conjunct1]
  and hash_map_keys = indices_to_hash_map_spec [THEN conjunct2, THEN conjunct1]
  and hash_map_values = indices_to_hash_map_spec [THEN conjunct2, THEN conjunct2, THEN conjunct1]
  and hash_map_entries = indices_to_hash_map_spec [THEN conjunct2, THEN conjunct2, THEN conjunct2]

section \<open>Membership in the filter\<close>

lemma chunk_positions_member:
  "x \<in># chunk_positions k xs \<longleftrightarrow> (\<exists>r\<in>set xs. x = 4096 * k + unat r)"
  by (auto simp: chunk_positions_def)

lemma bloom_member:
  "x \<in># bloom f n w \<longleftrightarrow> (\<exists>k<n. \<exists>r\<in>set (relative_indices (f k)). x = 4096 * k + unat r) \<or>
     (\<exists>l\<in>set (sbf w). x = 4096 * n + unat l)"
  by (auto simp: bloom_def chunk_positions_member set_mset_sum)

lemma bloom_member_inactive:
  assumes "\<forall>k<n. \<forall>r\<in>set (relative_indices (f k)). r < CHUNK_SIZE" "unat x < 4096 * n"
  shows "unat x \<in># bloom f n w \<longleftrightarrow> ucast ((x :: u128) mod ucast CHUNK_SIZE) \<in> set (relative_indices (f (unat x div 4096)))"
proof -
  have r: "unat (ucast (x mod ucast CHUNK_SIZE) :: u32) = unat x mod 4096"
    by (simp add: unat_ucast_mod unat_mod)
  have k: "unat x div 4096 < n" using assms(2) by (simp add: less_mult_imp_div_less mult.commute)
  show ?thesis
  proof
    assume "unat x \<in># bloom f n w"
    then obtain j s where js: "j < n" "s \<in> set (relative_indices (f j))" "unat x = 4096 * j + unat s"
      using assms(2) by (auto simp: bloom_member)
    then have "unat s < 4096" using assms(1) by (auto simp: word_less_nat_alt)
    with js(3) have "unat x div 4096 = j" "unat x mod 4096 = unat s" by simp_all
    moreover from this r have "ucast (x mod ucast CHUNK_SIZE) = s" by (intro word_eq_unatI) simp
    ultimately show "ucast (x mod ucast CHUNK_SIZE) \<in> set (relative_indices (f (unat x div 4096)))"
      using js(2) by simp
  next
    assume "ucast (x mod ucast CHUNK_SIZE) \<in> set (relative_indices (f (unat x div 4096)))"
    moreover have "unat x = 4096 * (unat x div 4096) + unat (ucast (x mod ucast CHUNK_SIZE) :: u32)"
      unfolding r by simp
    ultimately show "unat x \<in># bloom f n w" using k unfolding bloom_member by blast
  qed
qed

lemma bloom_member_active:
  assumes "\<forall>k<n. \<forall>r\<in>set (relative_indices (f k)). r < CHUNK_SIZE" "4096 * n \<le> unat x"
  shows "unat x \<in># bloom f n w \<longleftrightarrow> (\<exists>l\<in>set (sbf w). unat x = 4096 * n + unat l)"
proof -
  have "4096 * k + unat r < 4096 * n" if "k < n" "r \<in> set (relative_indices (f k))" for k r
  proof -
    have "unat r < 4096" using assms(1) that by (auto simp: word_less_nat_alt)
    with that(1) show ?thesis by linarith
  qed
  with assms(2) show ?thesis unfolding bloom_member by (metis not_le)
qed

text \<open>What \<^verbatim>\<open>validate\<close> establishes of a dictionary: each chunk is the one the mutator set commits to.\<close>

context mutator_set_crypto
begin

lemma validated_chunk:
  assumes "represents C leafs ms cs" "rr_validate C ms rr" "(k, (p, c)) \<in> set (dictionary (target_chunks rr))"
  shows "unat k < length cs" "cs ! unat k = c"
    "mp_verify C p k (hash_chunk C c) (swbf_inactive ms)"
proof -
  have "find (\<lambda>(chunk_index, (mmr_proof, chunk)).
      \<not> mp_verify C mmr_proof chunk_index (hash_chunk C chunk) (swbf_inactive ms)) (dictionary (target_chunks rr)) = None"
    using assms(2) by (auto simp: rr_validate_def validate_inner_def split: if_splits option.splits)
  then show v: "mp_verify C p k (hash_chunk C c) (swbf_inactive ms)"
    using assms(3) by (auto simp: find_None_iff)
  from verify_leaf [OF inactive_length(3) [OF assms(1)] v]
  have leaf: "unat k < length cs" "map (hash_chunk C) cs ! unat k = hash_chunk C c"
    using assms(1) by (simp_all add: represents_def)
  then show "unat k < length cs" by simp
  from leaf show "cs ! unat k = c" using hash_chunk_inj by (simp add: inj_def)
qed

lemma validated_get:
  assumes "represents C leafs ms cs" "rr_validate C ms rr" "cd_get (target_chunks rr) k = Some (p, c)"
  shows "unat k < length cs" "cs ! unat k = c"
  using validated_chunk [OF assms(1,2), of k p c] map_of_SomeD assms(3) by (fastforce simp: cd_get_map_of)+

lemma window_start_nat:
  assumes "represents C leafs ms cs"
  shows "unat (ucast (get_batch_index C ms) * ucast CHUNK_SIZE :: u128) = 4096 * length cs"
  using inactive_length(2) [OF assms] batch_index_length [OF assms]
  by (subst unat_mult_no_overflow) simp_all

lemma chunk_list_small:
  assumes "represents C leafs ms cs"
  shows "\<forall>k<length cs. \<forall>r\<in>set (relative_indices (cs ! k)). r < CHUNK_SIZE"
  using assms by (auto simp: represents_def)

text \<open>When \<^verbatim>\<open>can_remove\<close> says yes, some index of the removal record is not in the filter.\<close>

lemma can_remove_loop_absent:
  assumes rep: "represents C leafs ms cs" and val: "rr_validate C ms rr"
    and run: "can_remove_loop (ucast (get_batch_index C ms) * ucast CHUNK_SIZE) (swbf_active ms)
      (target_chunks rr) xs = Inr True"
  shows "\<exists>x\<in>set xs. unat x \<notin># bloom (chunk_list cs) (length cs) (swbf_active ms)"
  using run
proof (induction xs)
  case (Cons x xs)
  let ?start = "ucast (get_batch_index C ms) * ucast CHUNK_SIZE :: u128"
  have start: "unat ?start = 4096 * length cs" by (rule window_start_nat [OF rep])
  show ?case
  proof (cases "x < ?start")
    case True
    then have lt: "unat x < 4096 * length cs" using start by (simp add: word_less_nat_alt)
    then have key: "unat (ucast (x div ucast CHUNK_SIZE) :: u64) = unat x div 4096"
      using inactive_length(2) [OF rep] by (simp add: unat_ucast_mod unat_div less_mult_imp_div_less)
    obtain p c where get: "cd_get (target_chunks rr) (ucast (x div ucast CHUNK_SIZE)) = Some (p, c)"
      using Cons.prems True by (auto split: option.splits)
    have "cs ! (unat x div 4096) = c" using validated_get [OF rep val get] key by simp
    with bloom_member_inactive [OF chunk_list_small [OF rep] lt, of "swbf_active ms"] Cons True get
    show ?thesis by (auto simp: chunk_contains_def res_simps split: if_splits)
  next
    case False
    then have ge: "4096 * length cs \<le> unat x" using start by (simp add: word_less_nat_alt)
    have "ucast (x - ?start) \<in> set (sbf (swbf_active ms))"
      if "unat x \<in># bloom (chunk_list cs) (length cs) (swbf_active ms)"
    proof -
      from that obtain l where l: "l \<in> set (sbf (swbf_active ms))" "unat x = 4096 * length cs + unat l"
        unfolding bloom_member_active [OF chunk_list_small [OF rep] ge] by blast
      have "?start \<le> x" using False by (simp only: not_less)
      then have "unat (x - ?start) = unat x - unat ?start" by (rule unat_sub_le)
      then have "unat (x - ?start) = unat l" using l(2) start by linarith
      then have "ucast (x - ?start) = l" using unat_u32_lt [of l] by (intro word_eq_unatI) (simp add: unat_ucast_mod)
      with l(1) show ?thesis by simp
    qed
    with Cons False show ?thesis by (auto simp: aw_contains_def res_simps split: if_splits)
  qed
qed simp

lemma can_remove_absent:
  assumes "represents C leafs ms cs" "can_remove C ms rr = Inr True"
  shows "\<exists>x\<in>set (ais_to_array (absolute_indices rr)).
    unat x \<notin># bloom (chunk_list cs) (length cs) (swbf_active ms)"
  using assms can_remove_loop_absent [OF assms(1)] by (auto simp: can_remove_def split: if_splits)

end

section \<open>Removing sets the indices\<close>

abbreviation positions :: "u128 list \<Rightarrow> nat multiset" where
  "positions xs \<equiv> image_mset unat (mset xs)"

lemma insert_active_positions:
  assumes "unat start = 4096 * n"
  shows "wf_window w \<Longrightarrow> \<forall>x\<in>set xs. 4096 * n \<le> unat x \<and> unat x < 4096 * n + 1048576 \<Longrightarrow>
    \<exists>w'. insert_active start w xs = Inr w' \<and> wf_window w' \<and>
      chunk_positions n (sbf w') = chunk_positions n (sbf w) + positions xs"
proof (induction xs arbitrary: w)
  case (Cons x xs)
  have "start \<le> x" using Cons.prems assms by (simp add: word_le_nat_alt)
  then have "unat (x - start) = unat x - 4096 * n" using assms unat_sub_le by metis
  then have small: "unat (x - start) < 1048576" "4096 * n + unat (x - start) = unat x" using Cons.prems by auto
  obtain r where r: "u32_try_from_u128 (x - start) = Some r" "unat r = unat (x - start)"
    using small(1) by (simp add: u32_try_from_u128_def word_less_nat_alt unat_ucast_mod)
  then have "r < WINDOW_SIZE" using small(1) by (simp add: word_less_nat_alt)
  from wf_aw_insert [OF Cons.prems(1) this] obtain w' where w': "aw_insert w r = Inr w'" "wf_window w'"
      "mset (sbf w') = mset (sbf w) + {#r#}" by blast
  obtain w'' where w'': "insert_active start w' xs = Inr w''" "wf_window w''"
      "chunk_positions n (sbf w'') = chunk_positions n (sbf w') + positions xs"
    using Cons.IH [OF w'(2)] Cons.prems(2) by auto
  have "chunk_positions n (sbf w') = chunk_positions n (sbf w) + {#unat x#}"
    unfolding chunk_positions_def w'(3) by (simp add: r(2) small(2))
  with r(1) w'(1) w'' show ?case by (auto simp: bind_res_def)
qed simp

lemma insert_inactive_positions:
  "\<forall>r\<in>set (relative_indices c). r < CHUNK_SIZE \<Longrightarrow> \<forall>x\<in>set xs. unat x div 4096 = k \<Longrightarrow>
    \<exists>c'. insert_inactive c xs = Inr c' \<and> (\<forall>r\<in>set (relative_indices c'). r < CHUNK_SIZE) \<and>
      chunk_positions k (relative_indices c') = chunk_positions k (relative_indices c) + positions xs"
proof (induction xs arbitrary: c)
  case (Cons x xs)
  let ?r = "ucast (x mod ucast CHUNK_SIZE) :: u32"
  have r: "unat ?r = unat x mod 4096" by (simp add: unat_ucast_mod unat_mod)
  then have lt: "?r < CHUNK_SIZE" by (simp add: word_less_nat_alt)
  have x: "4096 * k + unat ?r = unat x" unfolding r using Cons.prems(2) by auto
  let ?c' = "Chunk (sort (relative_indices c @ [?r]))"
  obtain c'' where c'': "insert_inactive ?c' xs = Inr c''" "\<forall>r\<in>set (relative_indices c''). r < CHUNK_SIZE"
      "chunk_positions k (relative_indices c'') = chunk_positions k (relative_indices ?c') + positions xs"
    using Cons.IH [of ?c'] Cons.prems lt by auto
  have "chunk_positions k (relative_indices ?c') = chunk_positions k (relative_indices c) + {#unat x#}"
    by (simp add: chunk_positions_def x)
  with lt c'' show ?case by (auto simp: chunk_insert_def res_simps)
qed simp

lemma bloom_cong: "(\<And>k. k < n \<Longrightarrow> f k = g k) \<Longrightarrow> bloom f n w = bloom g n w"
  by (simp add: bloom_def)

lemma bloom_update_chunk:
  assumes "k < n" "chunk_positions k (relative_indices c) = chunk_positions k (relative_indices (f k)) + X"
  shows "bloom (f(k := c)) n w = bloom f n w + X"
proof -
  have "(\<Sum>j<n. chunk_positions j (relative_indices ((f(k := c)) j))) =
      (\<Sum>j<n. chunk_positions j (relative_indices (f j)) + (if j = k then X else {#}))"
    using assms(2) by (intro sum.cong) auto
  also have "\<dots> = (\<Sum>j<n. chunk_positions j (relative_indices (f j))) + X"
    using assms(1) by (simp add: sum.distrib)
  finally show ?thesis by (simp add: bloom_def)
qed

text \<open>The chunk at an index: from the dictionary of the removal record, or unchanged.\<close>

definition chunk_at :: "chunk list \<Rightarrow> 'p chunk_dictionary \<Rightarrow> nat \<Rightarrow> chunk" where
  "chunk_at cs d k = (case cd_get d (of_nat k) of Some (_, c) \<Rightarrow> c | None \<Rightarrow> cs ! k)"

lemma cd_get_set:
  "cd_get d key \<noteq> None \<Longrightarrow> cd_get (cd_set d key v) = (cd_get d)(key \<mapsto> v)"
  by (simp add: cd_set_def cd_get_map_of assign_first_map_of map_of_eq_None_iff)

lemma dictionary_keys_set: "map fst (dictionary (cd_set d key v)) = map fst (dictionary d)"
  by (simp add: cd_set_def)

lemma of_nat_u64_inj: "j < 2 ^ 64 \<Longrightarrow> (of_nat j :: u64) = k \<longleftrightarrow> j = unat k"
  by (auto simp: word_unat_eq_iff unsigned_of_nat take_bit_nat_eq_self)

lemma chunk_at_set:
  assumes "cd_get d key = Some (p, c)" "j < 2 ^ 64"
  shows "chunk_at cs (cd_set d key (p', c')) j = ((chunk_at cs d)(unat key := c')) j"
  using assms of_nat_u64_inj [of j key] by (auto simp: chunk_at_def cd_get_set)

text \<open>The invariant of the loop, what its entries satisfy, and what it keeps of the dictionary.\<close>

definition loop_inv :: "nat \<Rightarrow> chunk list \<Rightarrow> active_window \<Rightarrow> 'p chunk_dictionary \<Rightarrow> bool" where
  "loop_inv n cs w d \<longleftrightarrow> wf_window w \<and> (\<forall>k<n. \<forall>r\<in>set (relative_indices (chunk_at cs d k)). r < CHUNK_SIZE)"

definition entry_fits :: "nat \<Rightarrow> 'p chunk_dictionary \<Rightarrow> u64 \<times> u128 list \<Rightarrow> bool" where
  "entry_fits n d e \<longleftrightarrow> (\<forall>x\<in>set (snd e). unat (fst e) = unat x div 4096 \<and> unat x < 4096 * n + 1048576) \<and>
     (unat (fst e) < n \<longrightarrow> cd_get d (fst e) \<noteq> None)"

definition same_proofs :: "'p chunk_dictionary \<Rightarrow> 'p chunk_dictionary \<Rightarrow> bool" where
  "same_proofs d d' \<longleftrightarrow> map fst (dictionary d') = map fst (dictionary d) \<and>
     (\<forall>k. map_option fst (cd_get d' k) = map_option fst (cd_get d k))"

lemma remove_step_active:
  assumes "unat batch = n" "unat start = 4096 * n" "loop_inv n cs w d" "entry_fits n d (k, vs)" "batch \<le> k"
  shows "\<exists>w1. (\<forall>es. remove_loop batch start w d ((k, vs) # es) = remove_loop batch start w1 d es) \<and>
    loop_inv n cs w1 d \<and> bloom (chunk_at cs d) n w1 = bloom (chunk_at cs d) n w + positions vs"
proof -
  have "n \<le> unat k" using assms(1,5) by (simp add: word_le_nat_alt)
  then have "\<forall>x\<in>set vs. 4096 * n \<le> unat x \<and> unat x < 4096 * n + 1048576"
    using assms(4) by (auto simp: entry_fits_def le_div_4096)
  then obtain w1 where w1: "insert_active start w vs = Inr w1" "wf_window w1"
      "chunk_positions n (sbf w1) = chunk_positions n (sbf w) + positions vs"
    using insert_active_positions [OF assms(2)] assms(3) unfolding loop_inv_def by blast
  have "bloom (chunk_at cs d) n w1 = bloom (chunk_at cs d) n w + positions vs"
    using w1(3) by (simp add: bloom_def add.assoc)
  with assms(3,5) w1 show ?thesis by (intro exI [of _ w1]) (simp add: loop_inv_def bind_res_def)
qed

lemma remove_step_inactive:
  assumes "unat batch = n" "n < 2 ^ 60" "loop_inv n cs w d" "entry_fits n d (k, vs)" "\<not> batch \<le> k"
  shows "\<exists>d1. (\<forall>es. remove_loop batch start w d ((k, vs) # es) = remove_loop batch start w d1 es) \<and>
    loop_inv n cs w d1 \<and> same_proofs d d1 \<and>
    bloom (chunk_at cs d1) n w = bloom (chunk_at cs d) n w + positions vs"
proof -
  have kn: "unat k < n" using assms(1,5) by (simp add: word_le_nat_alt)
  then obtain p c where get: "cd_get d k = Some (p, c)" using assms(4) by (auto simp: entry_fits_def)
  then have at: "chunk_at cs d (unat k) = c" by (simp add: chunk_at_def)
  then have "\<forall>r\<in>set (relative_indices c). r < CHUNK_SIZE" using assms(3) kn by (auto simp: loop_inv_def)
  then obtain c' where c': "insert_inactive c vs = Inr c'" "\<forall>r\<in>set (relative_indices c'). r < CHUNK_SIZE"
      "chunk_positions (unat k) (relative_indices c') = chunk_positions (unat k) (relative_indices c) + positions vs"
    using insert_inactive_positions [of c vs "unat k"] assms(4) by (auto simp: entry_fits_def)
  let ?d = "cd_set d k (p, c')"
  have upd: "chunk_at cs ?d j = ((chunk_at cs d)(unat k := c')) j" if "j < n" for j
    using chunk_at_set [OF get] that assms(2) by simp
  have "bloom (chunk_at cs ?d) n w = bloom (chunk_at cs d) n w + positions vs"
    using bloom_update_chunk [OF kn, of c' "chunk_at cs d" "positions vs" w] c'(3)
      bloom_cong [of n "chunk_at cs ?d" "(chunk_at cs d)(unat k := c')" w] upd by (simp add: at)
  moreover have "loop_inv n cs w ?d" using upd assms(3) c'(2) by (auto simp: loop_inv_def)
  moreover have "same_proofs d ?d" using get by (simp add: same_proofs_def dictionary_keys_set cd_get_set)
  ultimately show ?thesis
    using assms(5) get c'(1) by (intro exI [of _ ?d]) (simp add: bind_res_def)
qed

lemma entry_fits_same: "same_proofs d d' \<Longrightarrow> entry_fits n d e \<Longrightarrow> entry_fits n d' e"
  unfolding entry_fits_def same_proofs_def by (metis option.map_disc_iff)

lemma same_proofs_trans: "same_proofs d d' \<Longrightarrow> same_proofs d' d'' \<Longrightarrow> same_proofs d d''"
  by (simp add: same_proofs_def)

lemma remove_loop_positions:
  assumes "unat batch = n" "unat start = 4096 * n" "n < 2 ^ 60"
  shows "loop_inv n cs w d \<Longrightarrow> \<forall>e\<in>set es. entry_fits n d e \<Longrightarrow>
    \<exists>w' d'. remove_loop batch start w d es = Inr (w', d') \<and> loop_inv n cs w' d' \<and> same_proofs d d' \<and>
      bloom (chunk_at cs d') n w' = bloom (chunk_at cs d) n w + positions (concat (map snd es))"
proof (induction es arbitrary: w d)
  case Nil
  then show ?case by (simp add: same_proofs_def)
next
  case (Cons e es)
  obtain k vs where e: "e = (k, vs)" by (cases e)
  have "\<exists>w1 d1. remove_loop batch start w d (e # es) = remove_loop batch start w1 d1 es \<and>
      loop_inv n cs w1 d1 \<and> same_proofs d d1 \<and>
      bloom (chunk_at cs d1) n w1 = bloom (chunk_at cs d) n w + positions vs"
  proof (cases "batch \<le> k")
    case True
    with remove_step_active [OF assms(1,2) Cons.prems(1), of k vs] Cons.prems(2) show ?thesis
      unfolding e by (metis list.set_intros(1) same_proofs_def)
  next
    case False
    with remove_step_inactive [OF assms(1,3) Cons.prems(1), of k vs] Cons.prems(2) show ?thesis
      unfolding e by (metis list.set_intros(1))
  qed
  then obtain w1 d1 where 1: "remove_loop batch start w d (e # es) = remove_loop batch start w1 d1 es"
      "loop_inv n cs w1 d1" "same_proofs d d1"
      "bloom (chunk_at cs d1) n w1 = bloom (chunk_at cs d) n w + positions vs" by blast
  have "\<forall>e\<in>set es. entry_fits n d1 e" using Cons.prems(2) entry_fits_same [OF 1(3)] by simp
  from Cons.IH [OF 1(2) this] obtain w' d' where "remove_loop batch start w1 d1 es = Inr (w', d')"
      "loop_inv n cs w' d'" "same_proofs d1 d'"
      "bloom (chunk_at cs d') n w' = bloom (chunk_at cs d1) n w1 + positions (concat (map snd es))" by blast
  with 1 show ?case
    by (intro exI [of _ w'] exI [of _ d']) (auto simp: e add.assoc intro: same_proofs_trans)
qed

text \<open>Mutating the leafs of an MMR one after the other.\<close>

lemma foldl_update_length: "length (foldl (\<lambda>ls (i, d, p). ls[unat i := d]) ls muts) = length ls"
  by (induction muts arbitrary: ls) auto

lemma foldl_update_nth:
  "distinct (map fst muts) \<Longrightarrow> j < length ls \<Longrightarrow> j < 2 ^ 64 \<Longrightarrow>
   foldl (\<lambda>ls (i, d, p). ls[unat (i :: u64) := d]) ls muts ! j =
     (case map_of muts (of_nat j) of Some (d, p) \<Rightarrow> d | None \<Rightarrow> ls ! j)"
proof (induction muts arbitrary: ls)
  case (Cons m muts)
  obtain i d p where m: "m = (i, d, p)" by (cases m)
  show ?case
  proof (cases "of_nat j = i")
    case True
    then have "map_of muts (of_nat j) = None" using Cons.prems(1) m by (simp add: map_of_eq_None_iff)
    moreover have "unat i = j" using True of_nat_u64_inj [OF Cons.prems(3)] by metis
    ultimately show ?thesis using Cons True m by simp
  next
    case False
    then have "unat i \<noteq> j" using of_nat_u64_inj [OF Cons.prems(3)] by metis
    then have "ls[unat i := d] ! j = ls ! j" by simp
    with False Cons m show ?thesis by (simp split: option.split)
  qed
qed simp

lemma map_of_dictionary:
  "map_of (map (\<lambda>x. (fst x, H (snd (snd x)), fst (snd x))) xs) k = map_option (\<lambda>(mp, ch). (H ch, mp)) (map_of xs k)"
  by (induction xs) auto

definition fits_window :: "'p removal_record \<Rightarrow> bool" where
  "fits_window rr \<longleftrightarrow> wf_dictionary (target_chunks rr) \<and>
     (\<forall>x\<in>set (ais_to_array (absolute_indices rr)). unat x < 2 ^ 76)"

lemma split_by_activity_Inr:
  assumes "split_by_activity s interval = Inr (inactive, active)"
  defines "m \<equiv> indices_to_hash_map (ais_to_array s)"
  shows "inactive = filter (\<lambda>e. fst e < fst interval) m"
    "active = concat (map snd (filter (\<lambda>e. \<not> fst e < fst interval) m))"
    "\<forall>e\<in>set m. \<not> fst e < fst interval \<longrightarrow> fst e \<le> snd interval"
proof -
  have f: "find (\<lambda>k. snd interval < k) (map fst (filter (\<lambda>e. \<not> fst e < fst interval) m)) = None"
    and ia: "inactive = filter (\<lambda>e. fst e < fst interval) m"
      "active = concat (map snd (filter (\<lambda>e. \<not> fst e < fst interval) m))"
    using assms(1) unfolding m_def
    by (auto simp: split_by_activity_def Let_def case_prod_beta comp_def split: option.splits intro!: filter_cong)
  from ia show "inactive = filter (\<lambda>e. fst e < fst interval) m"
    "active = concat (map snd (filter (\<lambda>e. \<not> fst e < fst interval) m))" .
  from f show "\<forall>e\<in>set m. \<not> fst e < fst interval \<longrightarrow> fst e \<le> snd interval"
    by (auto simp: find_None_iff not_less)
qed

context mutator_set_crypto
begin

lemma interval_nat:
  assumes "represents C leafs ms cs"
  shows "unat (fst (active_window_chunk_interval C ms)) = length cs"
    "unat (snd (active_window_chunk_interval C ms)) = length cs + 255"
proof -
  have "WINDOW_SIZE div CHUNK_SIZE = 256" by (simp add: WINDOW_SIZE_def CHUNK_SIZE_def)
  then have snd: "snd (active_window_chunk_interval C ms) = get_batch_index C ms + 255"
    by (simp add: active_window_chunk_interval_def Let_def)
  show "unat (fst (active_window_chunk_interval C ms)) = length cs"
    by (simp add: active_window_chunk_interval_def Let_def batch_index_length [OF assms])
  show "unat (snd (active_window_chunk_interval C ms)) = length cs + 255"
    unfolding snd using batch_index_length [OF assms] inactive_length(2) [OF assms]
    by (subst unat_add_no_overflow) simp_all
qed

lemma validated_entries:
  assumes rep: "represents C leafs ms cs" and val: "rr_validate C ms rr" and fits: "fits_window rr"
  shows "\<forall>e\<in>set (get_chunkidx_to_indices_dict rr). entry_fits (length cs) (target_chunks rr) e"
proof
  fix e assume e: "e \<in> set (get_chunkidx_to_indices_dict rr)"
  let ?m = "indices_to_hash_map (ais_to_array (absolute_indices rr))"
  let ?lo = "fst (active_window_chunk_interval C ms)" and ?hi = "snd (active_window_chunk_interval C ms)"
  have em: "e \<in> set ?m" using e by (simp add: get_chunkidx_to_indices_dict_def)
  have "has_required_authenticated_chunks C ms rr"
    using val by (auto simp: rr_validate_def validate_inner_def split: if_splits)
  then obtain inactive active where split:
      "split_by_activity (absolute_indices rr) (active_window_chunk_interval C ms) = Inr (inactive, active)"
      "fst ` set inactive = set (all_chunk_indices (target_chunks rr))"
    by (auto simp: has_required_authenticated_chunks_def simp del: set_map split: sum.splits)
       (metis (no_types) list.set_map)
  note sp = split_by_activity_Inr [OF split(1)]
  have "fst e \<le> ?hi"
  proof (cases "fst e < ?lo")
    case True
    then show ?thesis using interval_nat [OF rep] by (simp add: word_less_nat_alt word_le_nat_alt)
  next
    case False
    with sp(3) em show ?thesis by blast
  qed
  then have hi: "unat (fst e) \<le> length cs + 255" using interval_nat(2) [OF rep] by (simp add: word_le_nat_alt)
  have "unat (fst e) = unat x div 4096 \<and> unat x < 4096 * length cs + 1048576" if "x \<in> set (snd e)" for x
  proof -
    have "x \<in> set (concat (map snd ?m))" using em that by auto
    then have "x \<in> set (ais_to_array (absolute_indices rr))"
      using hash_map_values [of "ais_to_array (absolute_indices rr)"] by (metis set_mset_mset)
    then have "unat x < 2 ^ 76" using fits by (simp add: fits_window_def)
    then have "unat x div 4096 < 2 ^ 64" by (simp add: less_mult_imp_div_less)
    moreover have "fst e = ucast (x div ucast CHUNK_SIZE)" using hash_map_entries em that by fastforce
    ultimately have k: "unat (fst e) = unat x div 4096" by (simp add: unat_ucast_mod unat_div)
    then have "unat x < 4096 * (unat (fst e) + 1)"
      by (simp add: dividend_less_times_div)
    with k hi show ?thesis by simp
  qed
  moreover have "cd_get (target_chunks rr) (fst e) \<noteq> None" if "unat (fst e) < length cs"
  proof -
    have "fst e < ?lo" using that interval_nat(1) [OF rep] by (simp add: word_less_nat_alt)
    then have "fst e \<in> set (all_chunk_indices (target_chunks rr))" using sp(1) split(2) em by force
    then show ?thesis by (simp add: cd_get_map_of map_of_eq_None_iff all_chunk_indices_def)
  qed
  ultimately show "entry_fits (length cs) (target_chunks rr) e" by (simp add: entry_fits_def)
qed

text \<open>The leafs after the batch mutation of \<^verbatim>\<open>remove_helper\<close>.\<close>

lemma mutate_dictionary:
  assumes rep: "represents C leafs ms cs" and val: "rr_validate C ms rr"
    and wf: "wf_dictionary (target_chunks rr)" and same: "same_proofs (target_chunks rr) d'"
  shows "leafs (fst (batch_mutate C (swbf_inactive ms) []
      (map (\<lambda>x. (fst x, hash_chunk C (snd (snd x)), fst (snd x))) (dictionary d')))) =
    map (hash_chunk C) (map (chunk_at cs d') [0..<length cs])" (is "leafs ?m = _")
proof -
  define muts where "muts = map (\<lambda>x. (fst x, hash_chunk C (snd (snd x)), fst (snd x))) (dictionary d')"
  have n: "length cs < 2 ^ 60" "length (leafs (swbf_inactive ms)) < 2 ^ 63"
    using inactive_length [OF rep] by simp_all
  have dist: "distinct (map fst (dictionary d'))"
    using wf same by (simp add: wf_dictionary_def same_proofs_def strict_sorted_iff)
  then have distm: "distinct (map fst muts)" by (simp add: muts_def comp_def)
  have ver: "mp_verify C p i (leafs (swbf_inactive ms) ! unat i) (swbf_inactive ms)"
    if mut: "(i, d, p) \<in> set muts" for i d p
  proof -
    obtain ch where "(i, (p, ch)) \<in> set (dictionary d')" using mut by (auto simp: muts_def)
    then have "cd_get d' i = Some (p, ch)" using dist by (simp add: cd_get_map_of)
    then have "map_option fst (cd_get (target_chunks rr) i) = Some p"
      using same unfolding same_proofs_def by (metis fst_conv option.map(2))
    then obtain c where "cd_get (target_chunks rr) i = Some (p, c)" by auto
    then have "(i, (p, c)) \<in> set (dictionary (target_chunks rr))" by (simp add: cd_get_map_of map_of_SomeD)
    from validated_chunk [OF rep val this] show ?thesis using rep by (simp add: represents_def)
  qed
  have leafs': "leafs ?m = foldl (\<lambda>ls (i, d, p). ls[unat i := d]) (map (hash_chunk C) cs) muts"
    using mutate_leafs [OF n(2) distm] ver rep by (fastforce simp: represents_def muts_def)
  have mo: "map_of muts k = map_option (\<lambda>(mp, ch). (hash_chunk C ch, mp)) (cd_get d' k)" for k
    using map_of_dictionary [of "hash_chunk C" "dictionary d'" k]
    by (simp add: muts_def cd_get_map_of)
  show ?thesis
    unfolding leafs'
  proof (rule nth_equalityI)
    fix j assume "j < length (foldl (\<lambda>ls (i, d, p). ls[unat i := d]) (map (hash_chunk C) cs) muts)"
    then have j: "j < length cs" by (simp add: foldl_update_length)
    show "foldl (\<lambda>ls (i, d, p). ls[unat i := d]) (map (hash_chunk C) cs) muts ! j =
        map (hash_chunk C) (map (chunk_at cs d') [0..<length cs]) ! j"
      using foldl_update_nth [OF distm, of j "map (hash_chunk C) cs"] j n(1)
      by (auto simp: mo chunk_at_def split: option.splits)
  qed (simp add: foldl_update_length)
qed

text \<open>Removing a record that \<^verbatim>\<open>can_remove\<close> accepts returns, and adds exactly its indices to the filter.\<close>

lemma remove_represents:
  assumes rep: "represents C leafs ms cs" and can: "can_remove C ms rr = Inr True" and fits: "fits_window rr"
  shows "\<exists>ms' cs'. ms_remove C ms rr = Inr ms' \<and> represents C leafs ms' cs' \<and>
    aocl ms' = aocl ms \<and> length cs' = length cs \<and>
    bloom (chunk_list cs') (length cs') (swbf_active ms') =
      bloom (chunk_list cs) (length cs) (swbf_active ms) + positions (ais_to_array (absolute_indices rr))"
proof -
  let ?n = "length cs" and ?d = "target_chunks rr"
  let ?start = "ucast (get_batch_index C ms) * ucast CHUNK_SIZE :: u128"
  have val: "rr_validate C ms rr" using can by (auto simp: can_remove_def split: if_splits)
  have n: "?n < 2 ^ 60" using inactive_length [OF rep] by simp
  have at: "chunk_at cs ?d k = cs ! k" if "k < ?n" for k
    using validated_get [OF rep val, of "of_nat k"] that n
    by (auto simp: chunk_at_def unsigned_of_nat take_bit_nat_eq_self split: option.splits)
  have inv: "loop_inv ?n cs (swbf_active ms) ?d"
    using rep at by (auto simp: loop_inv_def represents_def)
  obtain w' d' where run: "remove_loop (get_batch_index C ms) ?start (swbf_active ms) ?d
        (get_chunkidx_to_indices_dict rr) = Inr (w', d')"
    and inv': "loop_inv ?n cs w' d'" and same: "same_proofs ?d d'"
    and bl: "bloom (chunk_at cs d') ?n w' = bloom (chunk_at cs ?d) ?n (swbf_active ms) +
        positions (concat (map snd (get_chunkidx_to_indices_dict rr)))"
    using remove_loop_positions [OF batch_index_length [OF rep] window_start_nat [OF rep] n inv
        validated_entries [OF rep val fits]] by blast
  define m' where "m' = fst (batch_mutate C (swbf_inactive ms) []
      (map (\<lambda>x. (fst x, hash_chunk C (snd (snd x)), fst (snd x))) (dictionary d')))"
  define cs' where "cs' = map (chunk_at cs d') [0..<?n]"
  let ?ms = "ms\<lparr>swbf_inactive := m', swbf_active := w'\<rparr>"
  have rem: "ms_remove C ms rr = Inr ?ms"
    using run by (simp add: ms_remove_def remove_helper_def bind_res_def m'_def Let_def
        chunk_indices_and_membership_proofs_and_leafs_def case_prod_beta comp_def)
  have "wf_dictionary ?d" using fits by (simp add: fits_window_def)
  from mutate_dictionary [OF rep val this same] have "leafs m' = map (hash_chunk C) cs'"
    by (simp add: m'_def cs'_def)
  moreover have "\<forall>c\<in>set cs'. \<forall>r\<in>set (relative_indices c). r < CHUNK_SIZE"
    using inv' by (auto simp: loop_inv_def cs'_def)
  moreover have "wf_window w'" using inv' by (simp add: loop_inv_def)
  moreover have "length cs' = ?n" by (simp add: cs'_def)
  ultimately have "represents C leafs ?ms cs'" using rep by (simp add: represents_def)
  moreover have "bloom (chunk_list cs') (length cs') w' = bloom (chunk_at cs d') ?n w'"
    unfolding cs'_def length_map length_upt minus_nat.diff_0 by (intro bloom_cong) simp
  moreover have "bloom (chunk_at cs ?d) ?n (swbf_active ms) = bloom (chunk_list cs) ?n (swbf_active ms)"
    using at by (intro bloom_cong) simp
  moreover have "positions (concat (map snd (get_chunkidx_to_indices_dict rr))) =
      positions (ais_to_array (absolute_indices rr))"
    using hash_map_values [of "ais_to_array (absolute_indices rr)"] by (simp add: get_chunkidx_to_indices_dict_def)
  ultimately show ?thesis
    using rem bl by (intro exI [of _ ?ms] exI [of _ cs']) (simp add: cs'_def)
qed

end

section \<open>Histories\<close>

text \<open>A history of a mutator set: additions, and removals of records that \<^verbatim>\<open>can_remove\<close> accepts.\<close>

inductive ms_step :: "('d, 'm, 'p) crypto \<Rightarrow> 'm mutator_set \<Rightarrow> 'm mutator_set \<Rightarrow> bool" for C where
  add_step: "unat (num_leafs C (aocl ms)) < 2 ^ 63 - 1 \<Longrightarrow> ms_step C ms (ms_add C ms r)"
| remove_step: "can_remove C ms rr = Inr True \<Longrightarrow> fits_window rr \<Longrightarrow> ms_remove C ms rr = Inr ms' \<Longrightarrow>
    ms_step C ms ms'"

inductive_cases ms_stepE: "ms_step C ms ms'"

context mutator_set_crypto
begin

abbreviation filter_of :: "'m mutator_set \<Rightarrow> chunk list \<Rightarrow> nat multiset" where
  "filter_of ms cs \<equiv> bloom (chunk_list cs) (length cs) (swbf_active ms)"

lemma step_represents:
  assumes "represents C leafs ms cs" "ms_step C ms ms'"
  shows "\<exists>cs'. represents C leafs ms' cs' \<and> filter_of ms cs \<subseteq># filter_of ms' cs'"
  using assms(2)
proof (elim ms_stepE)
  fix r assume add: "ms' = ms_add C ms r" "unat (num_leafs C (aocl ms)) < 9223372036854775807"
  have "length (leafs (aocl ms)) < 2 ^ 63 - 1"
    using add(2) assms(1) num_leafs_length [of "aocl ms"] by (simp add: represents_def)
  with add_represents [OF assms(1), of r] add(1) show ?thesis by auto
next
  fix rr assume "can_remove C ms rr = Inr True" "fits_window rr" "ms_remove C ms rr = Inr ms'"
  with remove_represents [OF assms(1), of rr] show ?thesis by auto
qed

lemma steps_represent:
  assumes "(ms_step C)\<^sup>*\<^sup>* ms ms'" "represents C leafs ms cs"
  shows "\<exists>cs'. represents C leafs ms' cs' \<and> filter_of ms cs \<subseteq># filter_of ms' cs'"
  using assms
proof (induction rule: rtranclp_induct)
  case base
  then show ?case by auto
next
  case (step y z)
  then obtain cs' where "represents C leafs y cs'" "filter_of ms cs \<subseteq># filter_of y cs'" by blast
  with step_represents [OF _ step(2)] show ?case by (meson subset_mset.order_trans)
qed

lemma reachable_represents:
  "(ms_step C)\<^sup>*\<^sup>* (ms_default C) ms \<Longrightarrow> \<exists>cs. represents C leafs ms cs"
  using steps_represent [OF _ represents_default] by blast

lemma reachable_consistent:
  assumes "(ms_step C)\<^sup>*\<^sup>* (ms_default C) ms"
  shows "is_consistent C ms"
proof -
  obtain cs where rep: "represents C leafs ms cs" using reachable_represents [OF assms] by blast
  then have "unat (num_leafs C (swbf_inactive ms)) = length cs"
    using inactive_length [OF rep] num_leafs_length by simp
  moreover have "unat (aocl_to_swbfi_leaf_counts (num_leafs C (aocl ms))) = length cs"
    using batch_index_length [OF rep] by (simp add: get_batch_index_def)
  ultimately show ?thesis
    using peaks_count [OF inactive_length(3) [OF rep]] peaks_count [of "aocl ms"] rep
    by (auto simp: is_consistent_def represents_def intro: word_eq_unatI)
qed

lemma removed_stays_removed:
  assumes "(ms_step C)\<^sup>*\<^sup>* (ms_default C) ms" "can_remove C ms rr = Inr True" "fits_window rr"
    and "ms_remove C ms rr = Inr ms1" "(ms_step C)\<^sup>*\<^sup>* ms1 ms2"
    and "set (ais_to_array (absolute_indices rr')) \<subseteq> set (ais_to_array (absolute_indices rr))"
  shows "can_remove C ms2 rr' \<noteq> Inr True"
proof
  assume can: "can_remove C ms2 rr' = Inr True"
  obtain cs where rep: "represents C leafs ms cs" using reachable_represents [OF assms(1)] by blast
  from remove_represents [OF rep assms(2,3)] assms(4)
  obtain cs1 where rep1: "represents C leafs ms1 cs1"
    and bl: "filter_of ms1 cs1 = filter_of ms cs + positions (ais_to_array (absolute_indices rr))" by auto
  obtain cs2 where rep2: "represents C leafs ms2 cs2" and sub: "filter_of ms1 cs1 \<subseteq># filter_of ms2 cs2"
    using steps_represent [OF assms(5) rep1] by blast
  obtain x where x: "x \<in> set (ais_to_array (absolute_indices rr'))" "unat x \<notin># filter_of ms2 cs2"
    using can_remove_absent [OF rep2 can] by blast
  have "unat x \<in># filter_of ms1 cs1" using x(1) assms(6) unfolding bl by auto
  with sub x(2) show False by (meson mset_subset_eqD)
qed

end

section \<open>Membership proofs of new items\<close>

lemma absent_in_window_spec:
  assumes "unat start = 4096 * n"
  shows "\<forall>x\<in>set xs. 4096 * n \<le> unat x \<and> unat x < 4096 * n + 1048576 \<Longrightarrow>
    absent_in_window w start xs = Inr (\<exists>x\<in>set xs. \<forall>l\<in>set (sbf w). unat x \<noteq> 4096 * n + unat l)"
proof (induction xs)
  case (Cons x xs)
  have "start \<le> x" using Cons.prems assms by (simp add: word_le_nat_alt)
  then have "unat (x - start) = unat x - 4096 * n" using assms unat_sub_le by metis
  then have "unat (x - start) < 1048576" "4096 * n + unat (x - start) = unat x" using Cons.prems by auto
  then have r: "unat (ucast (x - start) :: u32) = unat (x - start)" "ucast (x - start) < WINDOW_SIZE"
      "unat x = 4096 * n + unat (ucast (x - start) :: u32)"
    by (simp_all add: unat_ucast_mod word_less_nat_alt)
  then have "ucast (x - start) \<in> set (sbf w) \<longleftrightarrow> \<not> (\<forall>l\<in>set (sbf w). unat x \<noteq> 4096 * n + unat l)"
    by (metis add_left_cancel word_eq_unatI)
  with Cons r(2) show ?case by (auto simp: aw_contains_def res_simps)
qed simp

context mutator_set_crypto
begin

text \<open>The positions of an item added to the current batch all lie in the active window.\<close>

lemma new_item_indices:
  assumes rep: "represents C leafs ms cs" and i: "unat i div 8 = length cs" "unat i < 2 ^ 63"
  shows "\<exists>s active. ais_compute (sample_indices C) item sr rp i = Inr s \<and>
    (\<forall>x\<in>set (ais_to_array s). 4096 * length cs \<le> unat x \<and> unat x < 4096 * length cs + 1048576) \<and>
    split_by_activity s (active_window_chunk_interval C ms) = Inr ([], active) \<and>
    mset active = mset (ais_to_array s)"
proof -
  obtain s where s: "ais_compute (sample_indices C) item sr rp i = Inr s"
      "map unat (ais_to_array s) = map (\<lambda>r. 4096 * length cs + unat r) (sample_indices C item sr rp i)"
    using compute_in_aocl_range [OF samples i(2)] unfolding i(1) by blast
  have "\<forall>r\<in>set (sample_indices C item sr rp i). unat r < 1048576"
    using samples by (auto simp: sample_ok_def list_all_iff word_less_nat_alt)
  note win = shifted_bounds [OF s(2) this]
  let ?m = "indices_to_hash_map (ais_to_array s)"
  have key: "unat (ucast (x div ucast CHUNK_SIZE) :: u64) = unat x div 4096 \<and>
      length cs \<le> unat x div 4096 \<and> unat x div 4096 \<le> length cs + 255" if "x \<in> set (ais_to_array s)" for x
  proof -
    have x: "4096 * length cs \<le> unat x" "unat x < 4096 * length cs + 1048576" using win that by auto
    then have "length cs \<le> unat x div 4096" "unat x div 4096 < length cs + 256"
      by (simp_all add: le_div_4096 less_mult_imp_div_less)
    with inactive_length(2) [OF rep] show ?thesis by (simp add: unat_ucast_mod unat_div)
  qed
  have keys: "\<not> fst e < fst (active_window_chunk_interval C ms)"
      "\<not> snd (active_window_chunk_interval C ms) < fst e" if e: "e \<in> set ?m" for e
  proof -
    have "fst e \<in> fst ` set ?m" using e by (rule imageI)
    then obtain x where "x \<in> set (ais_to_array s)" "fst e = ucast (x div ucast CHUNK_SIZE)"
      unfolding hash_map_keys by blast
    with key [of x] have "length cs \<le> unat (fst e)" "unat (fst e) \<le> length cs + 255" by simp_all
    then show "\<not> fst e < fst (active_window_chunk_interval C ms)"
        "\<not> snd (active_window_chunk_interval C ms) < fst e"
      using interval_nat [OF rep] by (simp_all add: word_less_nat_alt)
  qed
  have "split_by_activity s (active_window_chunk_interval C ms) = Inr ([], concat (map snd ?m))"
    using keys by (auto simp: split_by_activity_def Let_def case_prod_beta comp_def find_None_iff [THEN iffD2]
        filter_empty_conv split: option.splits)
  with s(1) win hash_map_values [of "ais_to_array s"] show ?thesis by blast
qed

lemma fresh_proof_verifies:
  assumes rep: "represents C leafs ms cs" "length (leafs (aocl ms)) < 2 ^ 63 - 1"
    and s: "ais_compute (sample_indices C) item sr rp (num_leafs C (aocl ms)) = Inr s"
    and new: "x \<in> set (ais_to_array s)" "unat x \<notin># filter_of ms cs"
  shows "ms_verify C (ms_add C ms (commit C item sr (hash_digest C rp))) item (ms_prove C ms item sr rp) = Inr True"
proof -
  let ?r = "commit C item sr (hash_digest C rp)" let ?ms = "ms_add C ms ?r"
  let ?n = "length (leafs (aocl ms))"
  obtain cs' where rep': "represents C leafs ?ms cs'" and bl: "filter_of ?ms cs' = filter_of ms cs"
    and leafs': "leafs (aocl ?ms) = leafs (aocl ms) @ [canonical_commitment ?r]"
    using add_represents [OF rep] by blast
  have num: "unat (num_leafs C (aocl ms)) = ?n" using rep(1) by (simp add: represents_def num_leafs_length)
  have num': "unat (num_leafs C (aocl ?ms)) = ?n + 1"
    using rep' leafs' by (simp add: represents_def num_leafs_length)
  have cs': "length cs' = ?n div 8" using rep' leafs' by (simp add: represents_def)
  have aocl: "aocl ?ms = fst (mmr_append C (aocl ms) (canonical_commitment ?r))"
    by (simp add: ms_add_def add_helper_def Let_def)
  have member: "mp_verify C (snd (mmr_append C (aocl ms) (hash_pair C item sr))) (num_leafs C (aocl ms))
      (hash_pair C (hash_pair C item sr) (hash_pair C rp (zero_digest C))) (aocl ?ms)"
    unfolding aocl using verify_appended [OF rep(2)] by (simp add: commit_def hash_digest_pair)
  have lt: "\<not> num_leafs C (aocl ?ms) \<le> num_leafs C (aocl ms)" using num num' by (simp add: word_le_nat_alt)
  have idx: "unat (num_leafs C (aocl ms)) div 8 = length cs'" "unat (num_leafs C (aocl ms)) < 2 ^ 63"
    using num cs' rep(2) by simp_all
  obtain active where act: "split_by_activity s (active_window_chunk_interval C ?ms) = Inr ([], active)"
      "mset active = mset (ais_to_array s)"
    and win: "\<forall>x\<in>set (ais_to_array s). 4096 * length cs' \<le> unat x \<and> unat x < 4096 * length cs' + 1048576"
    using new_item_indices [OF rep' idx, of item sr rp] s by auto
  have seta: "set active = set (ais_to_array s)" using act(2) by (metis set_mset_mset)
  have "\<forall>l\<in>set (sbf (swbf_active ?ms)). unat x \<noteq> 4096 * length cs' + unat l"
    using new(2) unfolding bl [symmetric] bloom_member by blast
  then have abs: "absent_in_window (swbf_active ?ms) (ucast (get_batch_index C ?ms) * ucast CHUNK_SIZE) active = Inr True"
    using absent_in_window_spec [OF window_start_nat [OF rep'], of active] win new(1) seta by auto
  show ?thesis
    using lt member s act(1) abs by (simp add: ms_verify_def ms_prove_def Let_def bind_res_def)
qed

end

section \<open>A symbolic instance\<close>

text \<open>Digests as terms, an MMR as the list of its leafs: an instance of the parameters in which every law
  holds.\<close>

datatype sym =
    SDigest nat
  | SPair sym sym
  | SChunk chunk
  | SWindow active_window
  | SBag "sym list"

definition sym_crypto :: "(sym, sym list, unit) crypto" where
  "sym_crypto =
     \<lparr>hash_pair = SPair, hash_digest = (\<lambda>d. SPair d (SDigest 0)), hash_chunk = SChunk,
      hash_window = SWindow, zero_digest = SDigest 0,
      sample_indices = (\<lambda>_ _ _ i. 9 # replicate 44 (ucast i AND 0xff)),
      mmr_empty = [], mmr_init = (\<lambda>ds _. ds), num_leafs = (\<lambda>m. of_nat (length m)),
      num_peaks = (\<lambda>m. length (filter (bit (of_nat (length m) :: u64)) [0..<64])), bag_peaks = SBag,
      mmr_append = (\<lambda>m d. (m @ [d], ())),
      mp_verify = (\<lambda>_ i d m. unat i < length m \<and> m ! unat i = d),
      batch_mutate = (\<lambda>m mps muts. (foldl (\<lambda>ls (i, d, p). ls[unat i := d]) m muts, map fst mps))\<rparr>"

interpretation symbolic: mutator_set_crypto sym_crypto id
  by unfold_locales
     (auto simp: sym_crypto_def unsigned_of_nat take_bit_nat_eq_self inj_def masked_sample_ok)

lemma hash_map_replicate:
  "indices_to_hash_map (replicate (Suc n) x) = [(ucast (x div ucast CHUNK_SIZE), replicate (Suc n) x)]"
proof (induction n)
  case (Suc n)
  have "replicate (Suc (Suc n)) x = replicate (Suc n) x @ [x]" by (simp add: replicate_append_same)
  then show ?case
    using Suc by (simp only: indices_to_hash_map_def map_append foldl_append) simp
qed (simp add: indices_to_hash_map_def)

text \<open>Removal records that set one position, in a mutator set without outputs.\<close>

definition one_position_record :: "u128 \<Rightarrow> unit removal_record" where
  "one_position_record x = \<lparr>absolute_indices = \<lparr>minimum = x, distances = replicate 45 0\<rparr>, target_chunks = cd_empty\<rparr>"

lemma one_position_array: "ais_to_array (absolute_indices (one_position_record x)) = replicate (Suc 44) x"
proof -
  have "saturating_add_w 0 x = x" using unat_u128_lt [of x] by (simp add: saturating_add_w_def)
  then show ?thesis by (simp add: ais_to_array_def one_position_record_def)
qed

lemma empty_set_facts:
  "get_batch_index sym_crypto (ms_default sym_crypto) = 0"
  "active_window_chunk_interval sym_crypto (ms_default sym_crypto) = (0, 255)"
  by (simp_all add: active_window_chunk_interval_def get_batch_index_def aocl_to_swbfi_leaf_counts_def
      ms_default_def sym_crypto_def saturating_sub_w_def WINDOW_SIZE_def CHUNK_SIZE_def BATCH_SIZE_def)

lemma one_position_can_remove:
  assumes "ucast (x div ucast CHUNK_SIZE) \<le> (255 :: u64)" "ucast x < WINDOW_SIZE"
  shows "can_remove sym_crypto (ms_default sym_crypto) (one_position_record x) = Inr True"
proof -
  have "split_by_activity (absolute_indices (one_position_record x)) (0, 255) = Inr ([], replicate (Suc 44) x)"
    unfolding split_by_activity_def one_position_array hash_map_replicate using assms(1) by simp
  then have "rr_validate sym_crypto (ms_default sym_crypto) (one_position_record x)"
    by (simp add: rr_validate_def validate_inner_def has_required_authenticated_chunks_def empty_set_facts
        one_position_record_def all_chunk_indices_def cd_empty_def)
  moreover have "can_remove_loop 0 aw_new d (x # xs) = Inr True" for d :: "unit chunk_dictionary" and xs
    using assms(2) by (simp add: aw_contains_def aw_new_def res_simps)
  moreover have "swbf_active (ms_default sym_crypto) = aw_new" by (simp add: ms_default_def)
  ultimately show ?thesis
    unfolding can_remove_def empty_set_facts one_position_array replicate_Suc by simp
qed

section \<open>Properties\<close>

text \<open>(C9) Adding an item appends its commitment and never changes the Bloom filter: when the window
  slides, the positions it loses are exactly those of the new inactive chunk. The representation of the
  mutator set (the inactive part commits to the chunks, one per batch) is kept.\<close>

theorem add_keeps_filter:
  assumes "mutator_set_crypto C leafs" "represents C leafs ms cs" "length (leafs (aocl ms)) < 2 ^ 63 - 1"
  shows "\<exists>cs'. represents C leafs (ms_add C ms r) cs' \<and>
    bloom ((!) cs') (length cs') (swbf_active (ms_add C ms r)) = bloom ((!) cs) (length cs) (swbf_active ms) \<and>
    leafs (aocl (ms_add C ms r)) = leafs (aocl ms) @ [canonical_commitment r]"
  using mutator_set_crypto.add_represents [OF assms] .

theorem add_keeps_filter_witness:
  "\<exists>cs'. represents sym_crypto id (ms_add sym_crypto (ms_default sym_crypto) (AdditionRecord (SDigest 7))) cs'"
proof -
  have "length (id (aocl (ms_default sym_crypto))) < 2 ^ 63 - 1" by (simp add: ms_default_def sym_crypto_def)
  from add_keeps_filter [OF symbolic.mutator_set_crypto_axioms symbolic.represents_default this]
  show ?thesis by blast
qed

text \<open>(C8) Removing a record that \<^verbatim>\<open>can_remove\<close> accepts never panics and adds exactly its 45 positions to
  the Bloom filter, in the active window and in the inactive chunks it carries; the list of commitments
  is unchanged. The record has a sorted dictionary and positions below \<open>2 ^ 76\<close>.\<close>

theorem remove_sets_positions:
  assumes "mutator_set_crypto C leafs" "represents C leafs ms cs"
    and "can_remove C ms rr = Inr True" "fits_window rr"
  shows "\<exists>ms' cs'. ms_remove C ms rr = Inr ms' \<and> represents C leafs ms' cs' \<and> aocl ms' = aocl ms \<and>
    bloom ((!) cs') (length cs') (swbf_active ms') =
      bloom ((!) cs) (length cs) (swbf_active ms) + positions (ais_to_array (absolute_indices rr))"
  using mutator_set_crypto.remove_represents [OF assms] by blast

lemma one_position_fits: "unat x < 2 ^ 76 \<Longrightarrow> fits_window (one_position_record x)"
  unfolding fits_window_def one_position_array
  by (auto simp: one_position_record_def wf_dictionary_def cd_empty_def)

theorem remove_sets_positions_witness:
  "\<exists>ms'. ms_remove sym_crypto (ms_default sym_crypto) (one_position_record 5) = Inr ms'"
  using remove_sets_positions [OF symbolic.mutator_set_crypto_axioms symbolic.represents_default
      one_position_can_remove [of 5] one_position_fits [of 5]]
  by (auto simp: CHUNK_SIZE_def WINDOW_SIZE_def)





text \<open>(C11) \<^verbatim>\<open>can_remove\<close> does not exclude every record on which \<^verbatim>\<open>remove\<close> panics: chunk indices are truncated
  to 64 bits, so a position \<open>2 ^ 76 + 5\<close> is taken for the position 5 and accepted, and applying the record
  panics when the relative index does not fit 32 bits.\<close>

theorem can_remove_accepts_panicking_record:
  "can_remove sym_crypto (ms_default sym_crypto) (one_position_record (2 ^ 76 + 5)) = Inr True \<and>
   ms_remove sym_crypto (ms_default sym_crypto) (one_position_record (2 ^ 76 + 5)) = Inl UnwrapFailed"
proof
  let ?x = "2 ^ 76 + 5 :: u128"
  show "can_remove sym_crypto (ms_default sym_crypto) (one_position_record ?x) = Inr True"
    by (rule one_position_can_remove) (simp_all add: CHUNK_SIZE_def WINDOW_SIZE_def)
  have "ucast (?x div ucast CHUNK_SIZE) = (0 :: u64)" by (simp add: CHUNK_SIZE_def)
  then have "get_chunkidx_to_indices_dict (one_position_record ?x) = [(0, ?x # replicate 44 ?x)]"
    unfolding get_chunkidx_to_indices_dict_def one_position_array hash_map_replicate
    by (simp only: replicate_Suc)
  then show "ms_remove sym_crypto (ms_default sym_crypto) (one_position_record ?x) = Inl UnwrapFailed"
    by (simp add: ms_remove_def remove_helper_def empty_set_facts bind_res_def u32_try_from_u128_def)
qed

text \<open>(C10) A membership proof made by \<^verbatim>\<open>prove\<close> before an item is added verifies once it has been added,
  unless all 45 positions of the item happen to be set already.\<close>

theorem fresh_membership_proof_verifies:
  assumes "mutator_set_crypto C leafs" "represents C leafs ms cs" "length (leafs (aocl ms)) < 2 ^ 63 - 1"
    and "ais_compute (sample_indices C) item sr rp (num_leafs C (aocl ms)) = Inr s"
    and "x \<in> set (ais_to_array s)" "unat x \<notin># bloom ((!) cs) (length cs) (swbf_active ms)"
  shows "ms_verify C (ms_add C ms (commit C item sr (hash_digest C rp))) item (ms_prove C ms item sr rp) = Inr True"
  using mutator_set_crypto.fresh_proof_verifies [OF assms] .

theorem fresh_membership_proof_verifies_witness:
  "ms_verify sym_crypto
     (ms_add sym_crypto (ms_default sym_crypto)
       (commit sym_crypto (SDigest 1) (SDigest 2) (hash_digest sym_crypto (SDigest 3))))
     (SDigest 1) (ms_prove sym_crypto (ms_default sym_crypto) (SDigest 1) (SDigest 2) (SDigest 3)) = Inr True"
proof -
  let ?ms = "ms_default sym_crypto"
  have "unat (num_leafs sym_crypto (aocl ?ms)) < 2 ^ 63" by (simp add: ms_default_def sym_crypto_def)
  then obtain s where s: "ais_compute (sample_indices sym_crypto) (SDigest 1) (SDigest 2) (SDigest 3)
      (num_leafs sym_crypto (aocl ?ms)) = Inr s" "wf_index_set s"
    using compute_in_aocl_range [OF symbolic.samples] by blast
  have "ais_to_array s \<noteq> []" using s(2) by (auto simp: wf_index_set_def ais_to_array_def)
  then have x: "hd (ais_to_array s) \<in> set (ais_to_array s)" by simp
  have "unat (hd (ais_to_array s)) \<notin># bloom ((!) []) (length ([] :: chunk list)) (swbf_active ?ms)"
    by (simp add: bloom_member ms_default_def aw_new_def)
  moreover have "length (id (aocl ?ms)) < 2 ^ 63 - 1" by (simp add: ms_default_def sym_crypto_def)
  ultimately show ?thesis
    using fresh_membership_proof_verifies [OF symbolic.mutator_set_crypto_axioms symbolic.represents_default _ s(1) x]
    by blast
qed

end
