(* ===== verification/Native_Currency.thy ===== *)
theory Native_Currency
  imports Nyks_Prelude
begin

text \<open>
  \<^verbatim>\<open>consensus/src/type_scripts/native_currency_amount.rs\<close>: amounts of the native currency. An amount
  wraps an \<^verbatim>\<open>i128\<close> of atomic units. The checked operations are the ones consensus code may
  use; the lemmas here show that they are exact and stay in the valid range, that the decimal text
  of an amount is read back as the same amount, and what the rounding display does.

  Not modelled: the conversions from and to \<^verbatim>\<open>f64\<close> (\<^verbatim>\<open>to_nau_f64\<close>, \<^verbatim>\<open>lossy_f64_fraction_mul\<close>,
  \<^verbatim>\<open>TryFrom<f64>\<close>) and the Triton VM encodings.
\<close>

section \<open>The type and its constants\<close>

datatype native_currency_amount = NativeCurrencyAmount (to_nau: int)

function conversion_factor_loop :: "nat \<Rightarrow> int \<Rightarrow> int" where
  "conversion_factor_loop i product =
     (if i < 8 then conversion_factor_loop (i + 1) (wrap_i128 (product * 10)) else product)"
  by pat_completeness auto
termination
  by (relation "measure (\<lambda>(i, product). 8 - i)") auto

declare conversion_factor_loop.simps [simp del]

definition conversion_factor :: int where
  "conversion_factor = conversion_factor_loop 0 1"

definition MAX_NAU :: int where
  "MAX_NAU = wrap_i128 (23000000000 * conversion_factor)"

definition amount_max :: native_currency_amount where
  "amount_max = NativeCurrencyAmount MAX_NAU"

definition amount_min :: native_currency_amount where
  "amount_min = NativeCurrencyAmount (wrap_i128 (- MAX_NAU))"

definition amount_zero :: native_currency_amount where
  "amount_zero = NativeCurrencyAmount 0"

definition from_nau :: "int \<Rightarrow> native_currency_amount" where
  "from_nau n = NativeCurrencyAmount n"

definition coins :: "u64 \<Rightarrow> native_currency_amount res" where
  "coins num_whole_coins =
     assert_then (num_whole_coins \<le> 4200000000)
       (Inr (NativeCurrencyAmount (wrap_i128 (conversion_factor * uint num_whole_coins))))"

text \<open>The order on amounts is the order of the wrapped integers.\<close>

instantiation native_currency_amount :: linorder
begin

definition less_eq_native_currency_amount ::
  "native_currency_amount \<Rightarrow> native_currency_amount \<Rightarrow> bool" where
  "a \<le> b \<longleftrightarrow> to_nau a \<le> to_nau b"

definition less_native_currency_amount ::
  "native_currency_amount \<Rightarrow> native_currency_amount \<Rightarrow> bool" where
  "a < b \<longleftrightarrow> to_nau a < to_nau b"

instance
  by standard
    (auto simp: less_eq_native_currency_amount_def less_native_currency_amount_def
      native_currency_amount.expand)

end

lemmas amount_order_defs = less_eq_native_currency_amount_def less_native_currency_amount_def

section \<open>Arithmetic\<close>

definition is_negative :: "native_currency_amount \<Rightarrow> bool" where
  "is_negative a \<longleftrightarrow> to_nau a < 0"

definition is_positive :: "native_currency_amount \<Rightarrow> bool" where
  "is_positive a \<longleftrightarrow> 0 < to_nau a"

definition half :: "native_currency_amount \<Rightarrow> native_currency_amount" where
  "half a = NativeCurrencyAmount (tdiv (to_nau a) 2)"

definition amount_add ::
  "native_currency_amount \<Rightarrow> native_currency_amount \<Rightarrow> native_currency_amount" where
  "amount_add a b = NativeCurrencyAmount (wrap_i128 (to_nau a + to_nau b))"

definition amount_neg :: "native_currency_amount \<Rightarrow> native_currency_amount" where
  "amount_neg a = NativeCurrencyAmount (wrap_i128 (- to_nau a))"

definition amount_sum :: "native_currency_amount list \<Rightarrow> native_currency_amount" where
  "amount_sum as = NativeCurrencyAmount (foldl (\<lambda>s a. wrap_i128 (s + to_nau a)) 0 as)"

definition amount_checked_sub ::
  "native_currency_amount \<Rightarrow> native_currency_amount \<Rightarrow> native_currency_amount option" where
  "amount_checked_sub a v =
     (if \<not> is_negative a \<and> \<not> is_negative v \<and> v \<le> a
      then Some (NativeCurrencyAmount (wrap_i128 (to_nau a - to_nau v)))
      else None)"

definition checked_add_i128 :: "int \<Rightarrow> int \<Rightarrow> int option" where
  "checked_add_i128 x y = (if is_i128 (x + y) then Some (x + y) else None)"

definition amount_checked_add ::
  "native_currency_amount \<Rightarrow> native_currency_amount \<Rightarrow> native_currency_amount option" where
  "amount_checked_add a v =
     Option.bind (checked_add_i128 (to_nau a) (to_nau v))
       (\<lambda>sum. if wrap_i128 (- MAX_NAU) \<le> sum \<and> sum \<le> MAX_NAU
              then Some (NativeCurrencyAmount sum) else None)"

definition checked_add_negative ::
  "native_currency_amount \<Rightarrow> native_currency_amount \<Rightarrow> native_currency_amount option" where
  "checked_add_negative a rhs =
     (if is_negative a \<and> is_negative rhs then None
      else Option.bind (checked_add_i128 (to_nau a) (to_nau rhs))
             (\<lambda>value. if MAX_NAU < value \<or> value < 0 then None
                      else Some (NativeCurrencyAmount value)))"

definition checked_scalar_mul ::
  "native_currency_amount \<Rightarrow> u32 \<Rightarrow> native_currency_amount option" where
  "checked_scalar_mul a factor =
     (if is_i128 (to_nau a * uint factor)
      then Some (NativeCurrencyAmount (to_nau a * uint factor)) else None)"

definition scalar_mul :: "native_currency_amount \<Rightarrow> u32 \<Rightarrow> native_currency_amount res" where
  "scalar_mul a factor =
     (let res = wrap_i128 (to_nau a * uint factor);
          overflow = (res \<noteq> to_nau a * uint factor)
      in assert_then (\<not> overflow) (Inr (NativeCurrencyAmount res)))"

definition ceil_num_whole_coins :: "native_currency_amount \<Rightarrow> int res" where
  "ceil_num_whole_coins a =
     assert_then (a \<le> amount_max \<and> amount_min \<le> a)
       (let term = of_bool (is_positive a) * (conversion_factor - 1);
            q = tdiv (wrap_i128 (to_nau a + term)) conversion_factor
        in if is_i64 q then Inr q else Inl UnwrapFailed)"

text \<open>The running balance: an iterator that yields the balance after each update.\<close>

definition scan_balance_step ::
  "native_currency_amount \<Rightarrow> native_currency_amount \<Rightarrow> native_currency_amount" where
  "scan_balance_step current_balance new_update =
     (if is_negative new_update
      then (case checked_add_negative current_balance new_update of
              Some b \<Rightarrow> b | None \<Rightarrow> amount_zero)
      else amount_add current_balance new_update)"

fun scan_balance ::
  "native_currency_amount list \<Rightarrow> native_currency_amount \<Rightarrow> native_currency_amount list" where
  "scan_balance [] initial_balance = []"
| "scan_balance (u # us) initial_balance =
     (let b = scan_balance_step initial_balance u in b # scan_balance us b)"

section \<open>Text\<close>

text \<open>\<^verbatim>\<open>for _ in 0..n\<close> of \<^verbatim>\<open>display_n_decimals\<close>: each round moves one decimal digit of the
  remainder (below the conversion factor, so that \<^verbatim>\<open>remainder *= 10\<close> stays in range) to the
  list of decimals.\<close>

fun decimals_loop :: "nat \<Rightarrow> int \<Rightarrow> int list \<Rightarrow> int list \<times> int" where
  "decimals_loop 0 remainder decimals = (decimals, remainder)"
| "decimals_loop (Suc n) remainder decimals =
     (let remainder = remainder * 10;
          digit = tdiv remainder conversion_factor;
          remainder = trem remainder conversion_factor
      in decimals_loop n remainder (decimals @ [digit]))"

text \<open>The carry of the rounding: \<^verbatim>\<open>while decimals[i] == 10\<close>. At position 0 the access
  \<^verbatim>\<open>decimals[i - 1]\<close> is out of bounds.\<close>

fun carry_loop :: "int list \<Rightarrow> nat \<Rightarrow> int list res" where
  "carry_loop decimals i =
     (if decimals ! i = 10
      then (if i = 0 then Inl IndexOutOfBounds
            else let decimals = decimals[i := 0];
                     decimals = decimals[i - 1 := decimals ! (i - 1) + 1]
                 in if i = 1 then Inr decimals else carry_loop decimals (i - 1))
      else Inr decimals)"

declare carry_loop.simps [simp del]

definition format_decimals :: "int list \<Rightarrow> string" where
  "format_decimals decimals =
     show_nat (nat (decimals ! 0)) @ ''.'' @ concat (map (show_nat \<circ> nat) (drop 1 decimals))"

definition display_nonneg :: "int \<Rightarrow> nat \<Rightarrow> string res" where
  "display_nonneg amount n =
     (let integer_part = tdiv amount conversion_factor;
          (decimals, remainder) = decimals_loop n (trem amount conversion_factor) [integer_part]
      in if 5 < tdiv (remainder * 10) conversion_factor
         then (let i = length decimals - 1
               in bind_res (carry_loop (decimals[i := decimals ! i + 1]) i)
                    (\<lambda>decimals. Inr (format_decimals decimals)))
         else Inr (format_decimals decimals))"

definition display_n_decimals :: "native_currency_amount \<Rightarrow> nat \<Rightarrow> string res" where
  "display_n_decimals a n =
     (if is_negative a
      then if is_negative (amount_neg a) then Inl StackOverflow
           else bind_res (display_nonneg (to_nau (amount_neg a)) n) (\<lambda>s. Inr (''-'' @ s))
      else display_nonneg (to_nau a) n)"

definition display_lossless :: "native_currency_amount \<Rightarrow> string res" where
  "display_lossless a = display_n_decimals a 8"

datatype amount_parse_error =
    UnmatchedRegex | AmountTooSmall | AmountTooLarge | InvalidAmount

text \<open>The captures of \<^verbatim>\<open>^(-?)([0-9]*)\.?([0-9]*)$\<close>.\<close>

definition amount_captures :: "string \<Rightarrow> (string \<times> string \<times> string) option" where
  "amount_captures s =
     (let (sign, r) = (case s of c # cs \<Rightarrow> if c = CHR ''-'' then (''-'', cs) else ('''', s)
                               | [] \<Rightarrow> ('''', []));
          int_part = takeWhile is_digit r;
          r = dropWhile is_digit r;
          r = (case r of c # cs \<Rightarrow> if c = CHR ''.'' then cs else r | [] \<Rightarrow> []);
          frac = takeWhile is_digit r
      in if dropWhile is_digit r = [] then Some (sign, int_part, frac) else None)"

text \<open>\<^verbatim>\<open>BigRational::new(n, d).round()\<close> of a non-negative fraction: half-way cases go away from
  zero.\<close>

definition round_ratio :: "int \<Rightarrow> int \<Rightarrow> int" where
  "round_ratio n d = (2 * n + d) div (2 * d)"

definition coins_from_str :: "string \<Rightarrow> amount_parse_error + native_currency_amount" where
  "coins_from_str s =
     (case amount_captures s of
        None \<Rightarrow> Inl UnmatchedRegex
      | Some (sign, int_digits, frac_digits) \<Rightarrow>
          let integer_part = (if int_digits = [] then 0 else int (read_nat int_digits));
              fractional_part = (if frac_digits = [] then 0 else int (read_nat frac_digits));
              decimal_shift = 10 ^ length frac_digits;
              numerator = integer_part * decimal_shift + fractional_part;
              nau = (if numerator = 0 then 0
                     else let r = round_ratio (numerator * conversion_factor) decimal_shift
                          in if sign = ''-'' then - r else r)
          in if \<not> - MAX_NAU \<le> nau then Inl AmountTooSmall
             else if \<not> nau \<le> MAX_NAU then Inl AmountTooLarge
             else if is_i128 nau then Inr (NativeCurrencyAmount nau)
             else Inl InvalidAmount)"

section \<open>Constants\<close>

lemma conversion_factor_eq [simp]: "conversion_factor = 100000000"
  by (simp add: conversion_factor_def conversion_factor_loop.simps wrap_simps is_i128_def)

lemma MAX_NAU_eq [simp]: "MAX_NAU = 2300000000000000000"
  by (simp add: MAX_NAU_def wrap_simps is_i128_def)

definition valid_amount :: "native_currency_amount \<Rightarrow> bool" where
  "valid_amount a \<longleftrightarrow> - MAX_NAU \<le> to_nau a \<and> to_nau a \<le> MAX_NAU"

lemma wrap_i128_small [wrap_simps]: "\<bar>x\<bar> < 2 ^ 127 \<Longrightarrow> wrap_i128 x = x"
  by (rule wrap_i128_id) (simp add: is_i128_def abs_less_iff)

lemma amount_min_eq [simp]: "to_nau amount_min = - MAX_NAU"
  by (simp add: amount_min_def wrap_simps)

lemma amount_max_eq [simp]: "to_nau amount_max = MAX_NAU"
  by (simp add: amount_max_def)

section \<open>The checked operations\<close>

lemma checked_add_negative_Some:
  "checked_add_negative a b = Some c \<longleftrightarrow>
     \<not> (is_negative a \<and> is_negative b) \<and> to_nau c = to_nau a + to_nau b \<and>
     0 \<le> to_nau c \<and> to_nau c \<le> MAX_NAU"
  by (auto simp: checked_add_negative_def checked_add_i128_def is_i128_def native_currency_amount.expand)


text \<open>Subtraction returns the difference of two non-negative amounts if it is non-negative.\<close>

lemma checked_sub_exact:
  "is_i128 (to_nau a) \<Longrightarrow>
   amount_checked_sub a b = Some c \<longleftrightarrow>
     0 \<le> to_nau a \<and> 0 \<le> to_nau b \<and> 0 \<le> to_nau c \<and> to_nau c = to_nau a - to_nau b"
  by (auto simp: amount_checked_sub_def is_negative_def is_i128_def amount_order_defs
      native_currency_amount.expand wrap_simps split: if_splits)

lemma scalar_mul_checked:
  "is_i128 (to_nau a * uint f) \<Longrightarrow>
     scalar_mul a f = Inr (NativeCurrencyAmount (to_nau a * uint f))"
  by (simp add: scalar_mul_def assert_then_def wrap_simps)

lemma scalar_mul_overflow:
  "\<not> is_i128 (to_nau a * uint f) \<Longrightarrow> scalar_mul a f = Inl AssertFailed"
  using is_i128_wrap [of "to_nau a * uint f"]
  by (auto simp: scalar_mul_def assert_then_def Let_def)

text \<open>For every valid amount \<^verbatim>\<open>ceil_num_whole_coins\<close> returns, without a panic, the
  least whole number of coins that is not below the amount, for negative amounts too.\<close>

theorem ceil_num_whole_coins_correct:
  assumes "valid_amount a"
  shows "\<exists>k. ceil_num_whole_coins a = Inr k \<and>
    to_nau a \<le> k * conversion_factor \<and> (k - 1) * conversion_factor < to_nau a"
proof (cases "0 < to_nau a")
  case True
  with assms have "ceil_num_whole_coins a = Inr ((to_nau a + 99999999) div 100000000)"
    by (auto simp: ceil_num_whole_coins_def assert_then_def amount_order_defs is_positive_def
        valid_amount_def wrap_simps is_i64_def Let_def)
  then show ?thesis by auto
next
  case False
  then have "tdiv (to_nau a) 100000000 = - ((- to_nau a) div 100000000)"
    by (cases "to_nau a = 0") (auto simp: tdiv_def)
  with False assms have "ceil_num_whole_coins a = Inr (- ((- to_nau a) div 100000000))"
    by (auto simp: ceil_num_whole_coins_def assert_then_def amount_order_defs is_positive_def
        valid_amount_def wrap_simps is_i64_def Let_def)
  then show ?thesis by auto
qed

theorem ceil_num_whole_coins_witness:
  "valid_amount (NativeCurrencyAmount (-250000000)) \<and>
   (\<exists>k. ceil_num_whole_coins (NativeCurrencyAmount (-250000000)) = Inr k \<and>
      -250000000 \<le> k * conversion_factor \<and> (k - 1) * conversion_factor < -250000000)"
  using ceil_num_whole_coins_correct [of "NativeCurrencyAmount (-250000000)"]
  by (simp add: valid_amount_def)

section \<open>The running balance\<close>

text \<open>The reference: a balance that is clamped at zero.\<close>

fun clamped_balances :: "int list \<Rightarrow> int \<Rightarrow> int list" where
  "clamped_balances [] b = []"
| "clamped_balances (u # us) b = max 0 (b + u) # clamped_balances us (max 0 (b + u))"

lemma scan_balance_step_clamped:
  assumes "0 \<le> to_nau b" "to_nau b + max 0 (to_nau u) \<le> MAX_NAU"
  shows "scan_balance_step b u = NativeCurrencyAmount (max 0 (to_nau b + to_nau u))"
proof (cases "is_negative u")
  case True
  with assms show ?thesis
    by (auto simp: scan_balance_step_def checked_add_negative_def checked_add_i128_def
        is_negative_def is_i128_def amount_zero_def max_def)
next
  case False
  with assms show ?thesis
    by (auto simp: scan_balance_step_def is_negative_def amount_add_def wrap_simps max_def)
qed

text \<open>The running balance is the clamped reference balance: as long as the initial balance
  plus all incoming amounts stays below the maximum amount, every balance that \<^verbatim>\<open>scan_balance\<close>
  yields is the previous balance plus the update, or zero where that sum is negative.\<close>

theorem scan_balance_clamped:
  assumes "0 \<le> to_nau b"
    and "to_nau b + sum_list (map (\<lambda>u. max 0 (to_nau u)) us) \<le> MAX_NAU"
  shows "map to_nau (scan_balance us b) = clamped_balances (map to_nau us) (to_nau b)"
  using assms
proof (induction us arbitrary: b)
  case (Cons u us)
  let ?b = "NativeCurrencyAmount (max 0 (to_nau b + to_nau u))"
  have nonneg: "0 \<le> sum_list (map (\<lambda>u. max 0 (to_nau u)) us)"
    by (rule sum_list_nonneg) auto
  then have "scan_balance_step b u = ?b"
    using Cons.prems by (intro scan_balance_step_clamped) auto
  moreover have "map to_nau (scan_balance us ?b) = clamped_balances (map to_nau us) (to_nau ?b)"
  proof (rule Cons.IH)
    have "max 0 (to_nau b + to_nau u) \<le> to_nau b + max 0 (to_nau u)"
      using Cons.prems(1) by arith
    with Cons.prems(2) show "to_nau ?b + sum_list (map (\<lambda>u. max 0 (to_nau u)) us) \<le> MAX_NAU"
      by simp
  qed simp
  ultimately show ?case by (simp add: Let_def)
qed simp

theorem scan_balance_witness:
  "map to_nau (scan_balance [NativeCurrencyAmount 5, NativeCurrencyAmount (-9), NativeCurrencyAmount 2]
      (NativeCurrencyAmount 1)) = [6, 0, 2]"
  using scan_balance_clamped [of "NativeCurrencyAmount 1"
      "[NativeCurrencyAmount 5, NativeCurrencyAmount (-9), NativeCurrencyAmount 2]"]
  by simp

section \<open>The decimal text of an amount\<close>

text \<open>The digits that the display loop produces, as a number.\<close>

definition digits_value :: "int list \<Rightarrow> int" where
  "digits_value ds = foldl (\<lambda>v d. v * 10 + d) 0 ds"

lemma digits_value_snoc [simp]: "digits_value (ds @ [d]) = digits_value ds * 10 + d"
  by (simp add: digits_value_def)

lemma digits_value_Nil [simp]: "digits_value [] = 0"
  by (simp add: digits_value_def)

lemma decimals_loop_append:
  "decimals_loop n r (pre @ ds) = (let (es, r') = decimals_loop n r ds in (pre @ es, r'))"
  by (induction n arbitrary: r ds) (auto simp: Let_def split: prod.splits)

lemma shift_digit:
  "q * 100000000 + m = r * 10 \<Longrightarrow>
     (v * 100000000 + r) * (10 * p) = ((v * 10 + q) * 100000000 + m) * (p :: int)"
  by algebra

text \<open>One induction gives the shape of the digits and the exact value that was moved from the
  remainder to the digits.\<close>

lemma decimals_loop_inv:
  assumes "0 \<le> r" "r < 100000000" "\<forall>d\<in>set ds. 0 \<le> d \<and> d < 10"
    and "decimals_loop n r ds = (es, r')"
  shows "length es = length ds + n \<and> (\<forall>d\<in>set es. 0 \<le> d \<and> d < 10) \<and> 0 \<le> r' \<and> r' < 100000000 \<and>
    (digits_value ds * 100000000 + r) * 10 ^ n = digits_value es * 100000000 + r'"
  using assms
proof (induction n arbitrary: r ds)
  case (Suc n)
  let ?d = "(r * 10) div 100000000" and ?r = "(r * 10) mod 100000000"
  have d: "0 \<le> ?d" "?d < 10" and r: "0 \<le> ?r" "?r < 100000000"
    using Suc.prems(1,2) by auto
  have "decimals_loop n ?r (ds @ [?d]) = (es, r')"
    using Suc.prems by simp
  then have IH: "length es = length (ds @ [?d]) + n \<and> (\<forall>d\<in>set es. 0 \<le> d \<and> d < 10) \<and> 0 \<le> r' \<and>
      r' < 100000000 \<and>
      (digits_value (ds @ [?d]) * 100000000 + ?r) * 10 ^ n = digits_value es * 100000000 + r'"
    using Suc.prems(3) d r by (intro Suc.IH) auto
  have "?d * 100000000 + ?r = r * 10" by (rule div_mult_mod_eq)
  then have "(digits_value ds * 100000000 + r) * 10 ^ Suc n =
      (digits_value (ds @ [?d]) * 100000000 + ?r) * 10 ^ n"
    by (simp only: digits_value_snoc power_Suc shift_digit)
  with IH show ?case by simp
qed auto

lemma read_nat_digits:
  "\<forall>d\<in>set ds. 0 \<le> d \<and> d < 10 \<Longrightarrow> int (read_nat (concat (map (show_nat \<circ> nat) ds))) = digits_value ds
     \<and> length (concat (map (show_nat \<circ> nat) ds)) = length ds
     \<and> (\<forall>c\<in>set (concat (map (show_nat \<circ> nat) ds)). is_digit c)"
proof (induction ds rule: rev_induct)
  case Nil
  then show ?case by (simp add: read_nat_def)
next
  case (snoc d ds)
  then have d: "nat d < 10" "0 \<le> d" by auto
  then have "show_nat (nat d) = [digit_char (nat d)]"
    by (intro show_nat_digit)
  with d snoc show ?case
    by (simp add: read_nat_append read_nat_digit)
qed

lemma display_nonneg_lossless:
  assumes "0 \<le> x"
  obtains ds where "display_nonneg x 8 = Inr (format_decimals (x div 100000000 # ds))"
    and "length ds = 8" "\<forall>d\<in>set ds. 0 \<le> d \<and> d < 10" "digits_value ds = x mod 100000000"
proof -
  obtain ds r where loop: "decimals_loop 8 (x mod 100000000) [] = (ds, r)" by fastforce
  have inv: "length ds = 8 \<and> (\<forall>d\<in>set ds. 0 \<le> d \<and> d < 10) \<and> 0 \<le> r \<and> r < 100000000 \<and>
      (x mod 100000000) * 10 ^ 8 = digits_value ds * 100000000 + r"
    using decimals_loop_inv [OF _ _ _ loop] by simp
  define k where "k = x mod 100000000 - digits_value ds"
  have "r = k * 100000000" using inv by (simp add: k_def algebra_simps)
  with inv have "k = 0" by auto
  with \<open>r = k * 100000000\<close> have r: "r = 0" and v: "digits_value ds = x mod 100000000"
    by (simp_all add: k_def)
  have "decimals_loop 8 (x mod 100000000) [x div 100000000] = (x div 100000000 # ds, r)"
    using decimals_loop_append [of 8 "x mod 100000000" "[x div 100000000]" "[]"] loop by simp
  then have "display_nonneg x 8 = Inr (format_decimals (x div 100000000 # ds))"
    using assms r by (simp add: display_nonneg_def)
  with that inv v show ?thesis by blast
qed

lemma amount_captures_decimal:
  assumes "\<forall>c\<in>set s. is_digit c" "s \<noteq> []" "\<forall>c\<in>set t. is_digit c"
  shows "amount_captures (s @ ''.'' @ t) = Some ('''', s, t)"
    and "amount_captures (''-'' @ s @ ''.'' @ t) = Some (''-'', s, t)"
proof -
  have dot: "\<not> is_digit CHR ''.''" and minus: "\<not> is_digit CHR ''-''"
    by (simp_all add: is_digit_def less_eq_char_def)
  obtain c cs where s: "s = c # cs" using assms(2) by (cases s) auto
  with assms(1) minus have "c \<noteq> CHR ''-''" by auto
  with assms dot s show "amount_captures (s @ ''.'' @ t) = Some ('''', s, t)"
    by (simp add: amount_captures_def Let_def takeWhile_append2 dropWhile_append2)
  from assms dot show "amount_captures (''-'' @ s @ ''.'' @ t) = Some (''-'', s, t)"
    by (simp add: amount_captures_def Let_def takeWhile_append2 dropWhile_append2)
qed

lemma coins_from_captures:
  assumes "amount_captures s = Some (sign, show_nat (nat q), t)"
    and "0 \<le> q" "q * 100000000 + int (read_nat t) \<le> MAX_NAU" "length t = 8"
  shows "coins_from_str s = Inr (NativeCurrencyAmount
    (if sign = ''-'' then - (q * 100000000 + int (read_nat t)) else q * 100000000 + int (read_nat t)))"
proof -
  have t: "t \<noteq> []" using assms(4) by auto
  have round: "round_ratio (x * 100000000) 100000000 = x" if "0 \<le> x" for x
    using that by (simp add: round_ratio_def)
  show ?thesis
    using assms t round [of "q * 100000000 + int (read_nat t)"]
    by (simp add: coins_from_str_def is_i128_def Let_def)
qed

text \<open>(C28) Printing an amount without loss and parsing the text gives the amount back, for every
  valid amount, negative ones included; the printing does not panic.\<close>

theorem coins_from_str_display_lossless:
  assumes "valid_amount a"
  shows "\<exists>s. display_lossless a = Inr s \<and> coins_from_str s = Inr a"
proof -
  let ?x = "\<bar>to_nau a\<bar>"
  have x: "0 \<le> ?x" "?x \<le> MAX_NAU" using assms by (auto simp: valid_amount_def)
  obtain ds where ds: "display_nonneg ?x 8 = Inr (format_decimals (?x div 100000000 # ds))"
      "length ds = 8" "\<forall>d\<in>set ds. 0 \<le> d \<and> d < 10" "digits_value ds = ?x mod 100000000"
    using display_nonneg_lossless [OF x(1)] by blast
  define t where "t = concat (map (show_nat \<circ> nat) ds)"
  have t: "int (read_nat t) = ?x mod 100000000" "length t = 8" "\<forall>c\<in>set t. is_digit c"
    using read_nat_digits [OF ds(3)] ds(2,4) by (simp_all add: t_def)
  let ?u = "show_nat (nat (?x div 100000000))"
  have fmt: "format_decimals (?x div 100000000 # ds) = ?u @ ''.'' @ t"
    by (simp add: format_decimals_def t_def)
  have caps: "amount_captures (?u @ ''.'' @ t) = Some ('''', ?u, t)"
      "amount_captures (''-'' @ ?u @ ''.'' @ t) = Some (''-'', ?u, t)"
    using amount_captures_decimal [OF _ _ t(3)] show_nat_digits by auto
  have sum: "?x div 100000000 * 100000000 + int (read_nat t) = ?x"
    using t(1) by (simp only: div_mult_mod_eq)
  note parsed = coins_from_captures [OF caps(1) _ _ t(2), unfolded sum]
    coins_from_captures [OF caps(2) _ _ t(2), unfolded sum]
  show ?thesis
  proof (cases "is_negative a")
    case True
    then have neg: "to_nau (amount_neg a) = ?x"
      using x by (simp add: is_negative_def amount_neg_def wrap_simps)
    with True have "display_lossless a = Inr (''-'' @ ?u @ ''.'' @ t)"
      using x(1) ds(1) fmt
      by (simp add: display_lossless_def display_n_decimals_def is_negative_def res_simps)
    moreover have "coins_from_str (''-'' @ ?u @ ''.'' @ t) = Inr a"
      using parsed(2) x True by (simp add: is_negative_def native_currency_amount.expand)
    ultimately show ?thesis by blast
  next
    case False
    then have "display_lossless a = Inr (?u @ ''.'' @ t)"
      using ds(1) fmt by (simp add: display_lossless_def display_n_decimals_def is_negative_def)
    moreover have "coins_from_str (?u @ ''.'' @ t) = Inr a"
      using parsed(1) x False by (simp add: is_negative_def native_currency_amount.expand)
    ultimately show ?thesis by blast
  qed
qed

theorem coins_from_str_display_lossless_witness:
  "valid_amount (NativeCurrencyAmount (-123456789)) \<and>
   (\<exists>s. display_lossless (NativeCurrencyAmount (-123456789)) = Inr s \<and>
      coins_from_str s = Inr (NativeCurrencyAmount (-123456789)))"
  using coins_from_str_display_lossless [of "NativeCurrencyAmount (-123456789)"]
  by (simp add: valid_amount_def)

section \<open>The rounding display\<close>

text \<open>The rounding of \<^verbatim>\<open>display_n_decimals\<close> deviates from its documentation in two ways. With
  zero decimals the carry of the rounding leaves the list of decimals: 9.6 coins panic with an
  index out of bounds. And the digit after the last displayed one rounds up only from six on: 0.059
  coins with one decimal are displayed as \<^verbatim>\<open>0.0\<close>, although \<^verbatim>\<open>0.1\<close> is nearer.\<close>

theorem display_n_decimals_rounding:
  "display_n_decimals (NativeCurrencyAmount 960000000) 0 = Inl IndexOutOfBounds \<and>
   display_n_decimals (NativeCurrencyAmount 5900000) 1 = Inr ''0.0'' \<and>
   display_n_decimals (NativeCurrencyAmount 6000000) 1 = Inr ''0.1''"
proof (intro conjI)
  show "display_n_decimals (NativeCurrencyAmount 960000000) 0 = Inl IndexOutOfBounds"
    by (simp add: display_n_decimals_def display_nonneg_def is_negative_def carry_loop.simps res_simps)
  show "display_n_decimals (NativeCurrencyAmount 5900000) 1 = Inr ''0.0''"
    by (simp add: display_n_decimals_def display_nonneg_def is_negative_def format_decimals_def
        show_nat_digit digit_char_01)
  show "display_n_decimals (NativeCurrencyAmount 6000000) 1 = Inr ''0.1''"
    by (simp add: display_n_decimals_def display_nonneg_def is_negative_def format_decimals_def
        show_nat_digit digit_char_01 carry_loop.simps res_simps)
qed

end
