(* ===== verification/Transaction_Kernel.thy ===== *)
theory Transaction_Kernel
  imports Mutator_Set Native_Currency Time_Height
begin

text \<open>
  \<^verbatim>\<open>consensus/src/transaction\<close>: the transaction kernel with its confirmability check, its identifier, the
  relation between a merged transaction and its inputs, the builder of modified kernels, and the kernel that
  \<^verbatim>\<open>MergeWitness::new_kernel\<close> makes of two others.

  Hashing (Tip5, the Merkle tree) is the parameter \<open>txid_hash\<close>, shuffling with a seeded generator the
  parameter \<open>shuffler\<close>, of which the code relies on keeping the elements.
\<close>

section \<open>Data\<close>

datatype 'f announcement = Announcement (message: "'f list")

record ('d, 'p, 'f) transaction_kernel =
  tk_inputs :: "'p removal_record list"
  tk_outputs :: "'d addition_record list"
  announcements :: "'f announcement list"
  fee :: native_currency_amount
  coinbase :: "native_currency_amount option"
  tk_timestamp :: "'f timestamp"
  mutator_set_hash :: 'd
  merge_bit :: bool

datatype transaction_confirmability_error =
    InvalidRemovalRecord nat
  | DuplicateInputs
  | AlreadySpentInput nat
  | RemovalRecordUnpackFailure

datatype ('s, 'c) transaction_proof = SingleProof 's | ProofCollection 'c

datatype transaction_proof_quality = QProofCollection | QSingleProof

record ('d, 'p, 'f, 's, 'c) transaction =
  kernel :: "('d, 'p, 'f) transaction_kernel"
  tx_proof :: "('s, 'c) transaction_proof"

record ('d, 'f) txid_hash =
  hash_index_set :: "absolute_index_set \<Rightarrow> 'd"
  digest_values :: "'d \<Rightarrow> 'f list"
  hash_varlen :: "'f list \<Rightarrow> 'd"
  hash_fee :: "native_currency_amount \<Rightarrow> 'd"
  hash_coinbase :: "native_currency_amount option \<Rightarrow> 'd"
  hash_bool :: "bool \<Rightarrow> 'd"
  merkle_root :: "'d list \<Rightarrow> 'd"
  default_digest :: 'd

record ('d, 'p, 'f) shuffler =
  shuffle_inputs :: "'p removal_record list \<Rightarrow> 'p removal_record list"
  shuffle_outputs :: "'d addition_record list \<Rightarrow> 'd addition_record list"
  shuffle_announcements :: "'f announcement list \<Rightarrow> 'f announcement list"

section \<open>Confirmability\<close>

text \<open>\<^verbatim>\<open>find\<close> over the enumerated inputs, with a test that may panic.\<close>

fun find_index_res :: "('a \<Rightarrow> bool res) \<Rightarrow> nat \<Rightarrow> 'a list \<Rightarrow> nat option res" where
  "find_index_res f n [] = Inr None"
| "find_index_res f n (x # xs) = bind_res (f x) (\<lambda>b. if b then Inr (Some n) else find_index_res f (Suc n) xs)"

text \<open>\<^verbatim>\<open>unique_by\<close> keeps the first element of each key.\<close>

fun unique_by :: "('a \<Rightarrow> 'k) \<Rightarrow> 'a list \<Rightarrow> 'a list" where
  "unique_by f [] = []"
| "unique_by f (x # xs) = x # unique_by f (filter (\<lambda>y. f y \<noteq> f x) xs)"

definition kernel_is_confirmable ::
  "('d, 'm, 'p) crypto \<Rightarrow> ('d, 'p, 'f) transaction_kernel \<Rightarrow> 'm mutator_set
     \<Rightarrow> (transaction_confirmability_error + unit) res" where
  "kernel_is_confirmable C k ms =
     (let inputs = tk_inputs k in
      bind_res (find_index_res (\<lambda>rr. Inr (\<not> rr_validate C ms rr)) 0 inputs) (\<lambda>maybe_invalid.
      case maybe_invalid of
        Some index \<Rightarrow> Inr (Inl (InvalidRemovalRecord index))
      | None \<Rightarrow>
      if length (unique_by absolute_indices inputs) \<noteq> length inputs then Inr (Inl DuplicateInputs)
      else bind_res (find_index_res (\<lambda>rr. bind_res (can_remove C ms rr) (\<lambda>b. Inr (\<not> b))) 0 inputs) (\<lambda>spent.
      case spent of
        Some index \<Rightarrow> Inr (Inl (AlreadySpentInput index))
      | None \<Rightarrow> Inr (Inr ()))))"

definition tx_is_confirmable ::
  "('d, 'm, 'p) crypto \<Rightarrow> ('d, 'p, 'f, 's, 'c) transaction \<Rightarrow> 'm mutator_set \<Rightarrow> bool res" where
  "tx_is_confirmable C tx ms = bind_res (kernel_is_confirmable C (kernel tx) ms) (\<lambda>r. Inr (r = Inr ()))"

section \<open>Identifier\<close>

lemma power_of_two_and: "(2 :: nat) ^ k AND (2 ^ k - 1) = 0"
proof -
  have "(2 :: nat) ^ k AND mask k = take_bit k (2 ^ k)" by (simp add: take_bit_eq_mask)
  also have "\<dots> = 0" by (simp add: take_bit_eq_mod)
  finally show ?thesis by (simp add: mask_eq_exp_minus_1)
qed

text \<open>The loop that pads the digests: it stops at the next power of two.\<close>

definition next_log :: "nat \<Rightarrow> nat" where
  "next_log n = (LEAST k. n \<le> 2 ^ k)"

lemma next_log_step:
  assumes "n AND (n - 1) \<noteq> 0"
  shows "2 ^ next_log (Suc n) - Suc n < 2 ^ next_log n - n"
proof -
  have "n \<le> 2 ^ next_log n" unfolding next_log_def by (rule LeastI [of _ n]) simp
  moreover have "n \<noteq> 2 ^ next_log n" using assms power_of_two_and by metis
  ultimately have lt: "Suc n \<le> 2 ^ next_log n" by simp
  then have "next_log (Suc n) \<le> next_log n" unfolding next_log_def [of "Suc n"] by (rule Least_le)
  then have "(2 :: nat) ^ next_log (Suc n) \<le> 2 ^ next_log n" by simp
  with lt show ?thesis by linarith
qed

function pad_pow2 :: "'d \<Rightarrow> 'd list \<Rightarrow> 'd list" where
  "pad_pow2 d ds = (if length ds AND (length ds - 1) \<noteq> 0 then pad_pow2 d (ds @ [d]) else ds)"
  by pat_completeness auto
termination
  by (relation "measure (\<lambda>(d, ds). 2 ^ next_log (length ds) - length ds)") (simp_all add: next_log_step)

declare pad_pow2.simps [simp del]

definition txid :: "('d :: linorder, 'f) txid_hash \<Rightarrow> ('d, 'p, 'f) transaction_kernel \<Rightarrow> 'd" where
  "txid H k =
     (let index_set_hash = sort (map (\<lambda>x. hash_index_set H (absolute_indices x)) (tk_inputs k));
          index_set_hash = hash_varlen H (concat (map (digest_values H) index_set_hash));
          output_hash = hash_varlen H (concat (map (\<lambda>x. digest_values H (canonical_commitment x)) (tk_outputs k)));
          announcements_hash = hash_varlen H
            (concat (map (\<lambda>x. digest_values H (hash_varlen H (message x))) (announcements k)));
          fee_hash = hash_fee H (fee k);
          coinbase_hash = hash_coinbase H (coinbase k);
          merge_bit_hash = hash_bool H (merge_bit k);
          digests = [index_set_hash, output_hash, announcements_hash, fee_hash, coinbase_hash, merge_bit_hash];
          digests = pad_pow2 (default_digest H) digests
      in merkle_root H digests)"

section \<open>Proofs and fee density\<close>

fun is_single_proof :: "('s, 'c) transaction_proof \<Rightarrow> bool" where
  "is_single_proof (SingleProof _) = True"
| "is_single_proof (ProofCollection _) = False"

fun is_proof_collection :: "('s, 'c) transaction_proof \<Rightarrow> bool" where
  "is_proof_collection (SingleProof _) = False"
| "is_proof_collection (ProofCollection _) = True"

fun into_single_proof :: "('s, 'c) transaction_proof \<Rightarrow> 's res" where
  "into_single_proof (SingleProof p) = Inr p"
| "into_single_proof (ProofCollection _) = Inl ExplicitPanic"

fun as_single_proof :: "('s, 'c) transaction_proof \<Rightarrow> 's option" where
  "as_single_proof (ProofCollection _) = None"
| "as_single_proof (SingleProof p) = Some p"

fun proof_quality :: "('s, 'c) transaction_proof \<Rightarrow> transaction_proof_quality" where
  "proof_quality (ProofCollection _) = QProofCollection"
| "proof_quality (SingleProof _) = QSingleProof"

text \<open>The derived order of the qualities.\<close>

instantiation transaction_proof_quality :: linorder
begin

definition less_eq_transaction_proof_quality :: "transaction_proof_quality \<Rightarrow> transaction_proof_quality \<Rightarrow> bool" where
  "less_eq_transaction_proof_quality a b \<longleftrightarrow> a = QProofCollection \<or> b = QSingleProof"

definition less_transaction_proof_quality :: "transaction_proof_quality \<Rightarrow> transaction_proof_quality \<Rightarrow> bool" where
  "less_transaction_proof_quality a b \<longleftrightarrow> a = QProofCollection \<and> b = QSingleProof"

instance
  by intro_classes
    (auto simp: less_eq_transaction_proof_quality_def less_transaction_proof_quality_def,
     (metis transaction_proof_quality.exhaust)+)

end

section \<open>Merging\<close>

definition have_merge_relationship ::
  "'f bfield \<Rightarrow> ('d, 'p, 'f) transaction_kernel \<Rightarrow> ('d, 'p, 'f) transaction_kernel \<Rightarrow> bool" where
  "have_merge_relationship F output' input \<longleftrightarrow>
     (if \<not> merge_bit output' then False
      else if length (tk_inputs output') < length (tk_inputs input) then False
      else if length (tk_outputs output') < length (tk_outputs input) then False
      else if length (announcements output') < length (announcements input) then False
      else if \<not> timestamp_le F (tk_timestamp input) (tk_timestamp output') then False
      else if length (tk_inputs output') = length (tk_inputs input) \<and>
              length (tk_outputs output') = length (tk_outputs input) \<and>
              length (announcements output') = length (announcements input) then False
      else if \<not> list_all (\<lambda>x. x \<in> set (tk_outputs output')) (tk_outputs input) then False
      else if \<not> list_all (\<lambda>x. absolute_indices x \<in> set (map absolute_indices (tk_inputs output'))) (tk_inputs input)
      then False
      else if \<not> list_all (\<lambda>x. x \<in> set (announcements output')) (announcements input) then False
      else True)"

definition new_kernel ::
  "'f bfield \<Rightarrow> ('d, 'p, 'f) shuffler \<Rightarrow> ('d, 'p, 'f) transaction_kernel \<Rightarrow> ('d, 'p, 'f) transaction_kernel
     \<Rightarrow> ('d, 'p, 'f) transaction_kernel res" where
  "new_kernel F S left_kernel right_kernel =
     assert_then (mutator_set_hash left_kernel = mutator_set_hash right_kernel)
     (assert_then (\<not> is_negative (fee right_kernel))
     (assert_then (coinbase right_kernel = None)
       (Inr \<lparr>tk_inputs = shuffle_inputs S (tk_inputs left_kernel @ tk_inputs right_kernel),
             tk_outputs = shuffle_outputs S (tk_outputs left_kernel @ tk_outputs right_kernel),
             announcements = shuffle_announcements S (announcements left_kernel @ announcements right_kernel),
             fee = amount_add (fee left_kernel) (fee right_kernel),
             coinbase = coinbase left_kernel,
             tk_timestamp = (if timestamp_le F (tk_timestamp left_kernel) (tk_timestamp right_kernel)
                             then tk_timestamp right_kernel else tk_timestamp left_kernel),
             mutator_set_hash = mutator_set_hash left_kernel,
             merge_bit = True\<rparr>)))"

section \<open>Modified kernels\<close>

record ('d, 'p, 'f) kernel_modifier =
  mod_inputs :: "'p removal_record list option"
  mod_outputs :: "'d addition_record list option"
  mod_announcements :: "'f announcement list option"
  mod_fee :: "native_currency_amount option"
  mod_coinbase :: "native_currency_amount option option"
  mod_timestamp :: "'f timestamp option"
  mod_mutator_set_hash :: "'d option"
  mod_merge_bit :: "bool option"

definition unwrap_or :: "'a option \<Rightarrow> 'a \<Rightarrow> 'a" where
  "unwrap_or m x = (case m of Some y \<Rightarrow> y | None \<Rightarrow> x)"

definition modify ::
  "('d, 'p, 'f) kernel_modifier \<Rightarrow> ('d, 'p, 'f) transaction_kernel \<Rightarrow> ('d, 'p, 'f) transaction_kernel" where
  "modify m k =
     \<lparr>tk_inputs = unwrap_or (mod_inputs m) (tk_inputs k),
      tk_outputs = unwrap_or (mod_outputs m) (tk_outputs k),
      announcements = unwrap_or (mod_announcements m) (announcements k),
      fee = unwrap_or (mod_fee m) (fee k),
      coinbase = unwrap_or (mod_coinbase m) (coinbase k),
      tk_timestamp = unwrap_or (mod_timestamp m) (tk_timestamp k),
      mutator_set_hash = unwrap_or (mod_mutator_set_hash m) (mutator_set_hash k),
      merge_bit = unwrap_or (mod_merge_bit m) (merge_bit k)\<rparr>"

section \<open>Lemmas\<close>

lemma find_index_res_None:
  "(\<forall>x\<in>set xs. f x = Inr False) \<Longrightarrow> find_index_res f n xs = Inr None"
  by (induction xs arbitrary: n) (auto simp: bind_res_def)

lemma find_index_res_NoneD: "find_index_res f n xs = Inr None \<Longrightarrow> \<forall>x\<in>set xs. f x = Inr False"
  by (induction xs arbitrary: n) (auto simp: bind_res_def split: sum.splits if_splits)

lemma unique_by_length: "length (unique_by f xs) \<le> length xs"
  by (induction f xs rule: unique_by.induct) (auto intro: order_trans [OF _ length_filter_le])

lemma unique_by_distinct: "length (unique_by f xs) = length xs \<longleftrightarrow> distinct (map f xs)"
proof (induction f xs rule: unique_by.induct)
  case (2 f x xs)
  let ?ys = "filter (\<lambda>y. f y \<noteq> f x) xs"
  have le: "length (unique_by f ?ys) \<le> length ?ys" "length ?ys \<le> length xs"
    by (simp_all add: unique_by_length)
  show ?case
  proof (cases "f x \<in> f ` set xs")
    case True
    then have "length ?ys < length xs" by (auto simp: image_iff intro: length_filter_less)
    with le True show ?thesis by auto
  next
    case False
    then have "?ys = xs" by (auto simp: filter_id_conv image_iff)
    with False 2 show ?thesis by simp
  qed
qed simp

lemma kernel_confirmable_iff:
  "kernel_is_confirmable C k ms = Inr (Inr ()) \<longleftrightarrow>
     distinct (map absolute_indices (tk_inputs k)) \<and> (\<forall>rr\<in>set (tk_inputs k). can_remove C ms rr = Inr True)"
proof
  assume ok: "kernel_is_confirmable C k ms = Inr (Inr ())"
  then have "find_index_res (\<lambda>rr. bind_res (can_remove C ms rr) (\<lambda>b. Inr (\<not> b))) 0 (tk_inputs k) = Inr None"
    "distinct (map absolute_indices (tk_inputs k))"
    by (auto simp: kernel_is_confirmable_def Let_def bind_res_def unique_by_distinct
        split: sum.splits option.splits if_splits)
  then show "distinct (map absolute_indices (tk_inputs k)) \<and> (\<forall>rr\<in>set (tk_inputs k). can_remove C ms rr = Inr True)"
    by (auto dest!: find_index_res_NoneD simp: bind_res_def split: sum.splits)
next
  assume a: "distinct (map absolute_indices (tk_inputs k)) \<and> (\<forall>rr\<in>set (tk_inputs k). can_remove C ms rr = Inr True)"
  then have "\<forall>rr\<in>set (tk_inputs k). rr_validate C ms rr" by (auto simp: can_remove_def split: if_splits)
  then have "find_index_res (\<lambda>rr. Inr (\<not> rr_validate C ms rr)) 0 (tk_inputs k) = Inr None"
    "find_index_res (\<lambda>rr. bind_res (can_remove C ms rr) (\<lambda>b. Inr (\<not> b))) 0 (tk_inputs k) = Inr None"
    using a by (auto intro!: find_index_res_None simp: bind_res_def)
  then show "kernel_is_confirmable C k ms = Inr (Inr ())"
    using a by (simp add: kernel_is_confirmable_def Let_def bind_res_def unique_by_distinct)
qed

definition shuffler_ok :: "('d, 'p, 'f) shuffler \<Rightarrow> bool" where
  "shuffler_ok S \<longleftrightarrow> (\<forall>xs. mset (shuffle_inputs S xs) = mset xs) \<and> (\<forall>xs. mset (shuffle_outputs S xs) = mset xs) \<and>
     (\<forall>xs. mset (shuffle_announcements S xs) = mset xs)"

lemma shuffler_set:
  assumes "shuffler_ok S"
  shows "set (shuffle_inputs S xs) = set xs" "length (shuffle_inputs S xs) = length xs"
    "set (shuffle_outputs S ys) = set ys" "length (shuffle_outputs S ys) = length ys"
    "set (shuffle_announcements S zs) = set zs" "length (shuffle_announcements S zs) = length zs"
  using assms unfolding shuffler_ok_def by (metis mset_eq_setD mset_eq_length)+

text \<open>A kernel to evaluate the definitions on: the given inputs, one output, a fee of five units.\<close>

definition sample_kernel :: "'d \<Rightarrow> 'f \<Rightarrow> 'p removal_record list \<Rightarrow> ('d, 'p, 'f) transaction_kernel" where
  "sample_kernel d t rrs =
     \<lparr>tk_inputs = rrs, tk_outputs = [AdditionRecord d], announcements = [Announcement [t]],
      fee = NativeCurrencyAmount 5, coinbase = None, tk_timestamp = Timestamp t, mutator_set_hash = d,
      merge_bit = False\<rparr>"

text \<open>A polynomial hash on natural numbers.\<close>

definition sum_hash :: "nat list \<Rightarrow> nat" where
  "sum_hash xs = fold (\<lambda>x h. 31 * h + x) xs 7"

definition nat_hash :: "(nat, nat) txid_hash" where
  "nat_hash =
     \<lparr>hash_index_set = (\<lambda>a. sum_hash (unat (minimum a) # map unat (distances a))), digest_values = (\<lambda>d. [d]),
      hash_varlen = sum_hash, hash_fee = (\<lambda>_. 1), hash_coinbase = (\<lambda>_. 2), hash_bool = (\<lambda>b. if b then 1 else 0),
      merkle_root = sum_hash, default_digest = 0\<rparr>"

definition identity_shuffler :: "('d, 'p, 'f) shuffler" where
  "identity_shuffler = \<lparr>shuffle_inputs = id, shuffle_outputs = id, shuffle_announcements = id\<rparr>"

lemma identity_shuffler_ok: "shuffler_ok identity_shuffler"
  by (simp add: shuffler_ok_def identity_shuffler_def)

section \<open>Properties\<close>



text \<open>The identifier of a transaction survives an update: it does not depend on the order of the inputs,
  on their membership proofs and chunks, on the timestamp or on the mutator set hash.\<close>

theorem txid_unchanged_by_update:
  assumes "mset (map absolute_indices (tk_inputs k')) = mset (map absolute_indices (tk_inputs k))"
    and "tk_outputs k' = tk_outputs k" "announcements k' = announcements k" "fee k' = fee k"
    and "coinbase k' = coinbase k" "merge_bit k' = merge_bit k"
  shows "txid H k' = txid H k"
proof -
  have "mset (map (hash_index_set H) (map absolute_indices (tk_inputs k'))) =
      mset (map (hash_index_set H) (map absolute_indices (tk_inputs k)))"
    using assms(1) by (simp only: mset_map)
  then have "mset (map (\<lambda>x. hash_index_set H (absolute_indices x)) (tk_inputs k')) =
      mset (map (\<lambda>x. hash_index_set H (absolute_indices x)) (tk_inputs k))"
    by (simp add: comp_def)
  then have "sort (map (\<lambda>x. hash_index_set H (absolute_indices x)) (tk_inputs k')) =
      sort (map (\<lambda>x. hash_index_set H (absolute_indices x)) (tk_inputs k))"
    by (metis mset_sort properties_for_sort sorted_sort)
  with assms(2-) show ?thesis by (simp add: txid_def)
qed

theorem txid_unchanged_by_update_witness:
  "txid nat_hash (sample_kernel 3 10 [one_position_record 5, one_position_record 6]) =
     txid nat_hash (modify \<lparr>mod_inputs = Some [one_position_record 6, one_position_record 5], mod_outputs = None,
       mod_announcements = None, mod_fee = None, mod_coinbase = None, mod_timestamp = Some (Timestamp 11),
       mod_mutator_set_hash = Some 4, mod_merge_bit = None\<rparr>
       (sample_kernel 3 10 [one_position_record 5, one_position_record 6]))"
  by (rule txid_unchanged_by_update)
     (simp_all add: modify_def unwrap_or_def sample_kernel_def add_mset_commute)

text \<open>(C40) The kernel of a merge is recognised as such: \<^verbatim>\<open>have_merge_relationship\<close> holds between the merged
  kernel and each of the two kernels, unless the other one was empty. The merged fee is the sum of both.\<close>

theorem merged_kernel_has_merge_relationship:
  assumes "shuffler_ok S" "new_kernel F S l r = Inr k"
  shows "(have_merge_relationship F k l \<longleftrightarrow> \<not> (tk_inputs r = [] \<and> tk_outputs r = [] \<and> announcements r = [])) \<and>
    (have_merge_relationship F k r \<longleftrightarrow> \<not> (tk_inputs l = [] \<and> tk_outputs l = [] \<and> announcements l = [])) \<and>
    fee k = amount_add (fee l) (fee r) \<and> coinbase k = coinbase l"
proof -
  have k: "k = \<lparr>tk_inputs = shuffle_inputs S (tk_inputs l @ tk_inputs r),
      tk_outputs = shuffle_outputs S (tk_outputs l @ tk_outputs r),
      announcements = shuffle_announcements S (announcements l @ announcements r),
      fee = amount_add (fee l) (fee r), coinbase = coinbase l,
      tk_timestamp = (if timestamp_le F (tk_timestamp l) (tk_timestamp r) then tk_timestamp r else tk_timestamp l),
      mutator_set_hash = mutator_set_hash l, merge_bit = True\<rparr>"
    using assms(2) by (auto simp: new_kernel_def assert_then_def split: if_splits)
  have le: "timestamp_le F (tk_timestamp l) (tk_timestamp k)" "timestamp_le F (tk_timestamp r) (tk_timestamp k)"
    unfolding k by (auto simp: timestamp_le_def)
  have sub: "list_all (\<lambda>x. x \<in> set (tk_outputs k)) (tk_outputs l)" "list_all (\<lambda>x. x \<in> set (tk_outputs k)) (tk_outputs r)"
    "list_all (\<lambda>x. x \<in> set (announcements k)) (announcements l)" "list_all (\<lambda>x. x \<in> set (announcements k)) (announcements r)"
    "list_all (\<lambda>x. absolute_indices x \<in> set (map absolute_indices (tk_inputs k))) (tk_inputs l)"
    "list_all (\<lambda>x. absolute_indices x \<in> set (map absolute_indices (tk_inputs k))) (tk_inputs r)"
    unfolding k by (simp_all add: list_all_iff shuffler_set [OF assms(1)])
  have len: "length (tk_inputs k) = length (tk_inputs l) + length (tk_inputs r)"
    "length (tk_outputs k) = length (tk_outputs l) + length (tk_outputs r)"
    "length (announcements k) = length (announcements l) + length (announcements r)" "merge_bit k"
    unfolding k by (simp_all add: shuffler_set [OF assms(1)])
  have "have_merge_relationship F k l \<longleftrightarrow> \<not> (tk_inputs r = [] \<and> tk_outputs r = [] \<and> announcements r = [])"
    unfolding have_merge_relationship_def using le(1) sub len by auto
  moreover have "have_merge_relationship F k r \<longleftrightarrow> \<not> (tk_inputs l = [] \<and> tk_outputs l = [] \<and> announcements l = [])"
    unfolding have_merge_relationship_def using le(2) sub len by auto
  ultimately show ?thesis by (simp add: k)
qed

theorem merged_kernel_has_merge_relationship_witness:
  "\<exists>k. new_kernel bfe_ops identity_shuffler (sample_kernel (3 :: nat) (bf_new bfe_ops 10) [one_position_record 5])
        (sample_kernel (3 :: nat) (bf_new bfe_ops 10) [one_position_record 6])
       = Inr k \<and> have_merge_relationship bfe_ops k (sample_kernel (3 :: nat) (bf_new bfe_ops 10) [one_position_record 5])"
proof -
  obtain k where k: "new_kernel bfe_ops identity_shuffler (sample_kernel (3 :: nat) (bf_new bfe_ops 10) [one_position_record 5])
      (sample_kernel (3 :: nat) (bf_new bfe_ops 10) [one_position_record 6]) = Inr k"
    by (simp add: new_kernel_def assert_then_def sample_kernel_def is_negative_def)
  from merged_kernel_has_merge_relationship [OF identity_shuffler_ok k] k
  show ?thesis by (auto simp: sample_kernel_def)
qed

end
