(* ===== verification/Mempool_Event.thy ===== *)
theory Mempool_Event
  imports Transaction_Kernel "HOL-Library.AList"
begin

text \<open>
  \<^verbatim>\<open>node/src/state/mempool/mempool_event.rs\<close> and \<^verbatim>\<open>merge_input_cache.rs\<close>: the events with which the
  mempool informs its listeners and their normalization, and the cache of transactions that were replaced by a
  merge.

  A \<^verbatim>\<open>HashMap\<close> is an association list without repeated keys; the order of the list stands for the iteration
  order. The MAST hash of a kernel is a parameter.
\<close>

section \<open>Hash maps\<close>

lemmas alist_simps = update_conv' delete_conv' distinct_update distinct_delete

lemma map_of_image: "distinct (map fst m) \<Longrightarrow> map_of m k = Some v \<longleftrightarrow> (k, v) \<in> set m"
  by (rule map_of_eq_Some_iff)

lemma mset_delete:
  "distinct (map fst m) \<Longrightarrow> map_of m k = Some v \<Longrightarrow> mset m = add_mset (k, v) (mset (AList.delete k m))"
proof (induction m)
  case (Cons x m)
  show ?case
  proof (cases "fst x = k")
    case True
    then have "k \<notin> fst ` set m" using Cons.prems(1) by auto
    then have "AList.delete k m = m" by (simp add: AList.delete_eq filter_id_conv) force
    with True Cons.prems show ?thesis by (cases x) (simp add: AList.delete_eq)
  next
    case False
    with Cons show ?thesis by (cases x) (simp add: AList.delete_eq)
  qed
qed simp

lemma mset_update_new: "map_of m k = None \<Longrightarrow> mset (AList.update k v m) = add_mset (k, v) (mset m)"
  by (induction m) (auto split: if_splits)

lemma mset_update_old:
  "distinct (map fst m) \<Longrightarrow> map_of m k = Some w \<Longrightarrow>
     add_mset (k, w) (mset (AList.update k v m)) = add_mset (k, v) (mset m)"
  by (induction m) (auto split: if_splits)

lemma length_delete: "distinct (map fst m) \<Longrightarrow> map_of m k = Some v \<Longrightarrow> Suc (length (AList.delete k m)) = length m"
  by (metis mset_delete size_add_mset size_mset)

lemma length_delete_less: "map_of m k = Some v \<Longrightarrow> length (AList.delete k m) < length m"
  by (induction m) (auto simp: AList.delete_eq le_imp_less_Suc split: if_splits)

lemma keys_delete: "fst ` set (AList.delete k m) = fst ` set m - {k}"
  by (auto simp: AList.delete_eq image_iff)

lemma in_set_update:
  assumes "distinct (map fst m)"
  shows "(i, e) \<in> set (AList.update k v m) \<longleftrightarrow> (if i = k then e = v else (i, e) \<in> set m)"
proof -
  have "(i, e) \<in> set (AList.update k v m) \<longleftrightarrow> map_of (AList.update k v m) i = Some e"
    using assms by (simp add: distinct_update)
  with assms show ?thesis by (auto simp: update_conv')
qed

section \<open>Events\<close>

datatype ('d, 'p, 'f) mempool_event =
    AddTx "('d, 'p, 'f) transaction_kernel"
  | RemoveTx "('d, 'p, 'f) transaction_kernel"

fun kernel_mast_hash :: "(('d, 'p, 'f) transaction_kernel \<Rightarrow> 'd) \<Rightarrow> ('d, 'p, 'f) mempool_event \<Rightarrow> 'd" where
  "kernel_mast_hash mast (AddTx k) = mast k"
| "kernel_mast_hash mast (RemoveTx k) = mast k"

fun normalize_step ::
  "(('d, 'p, 'f) transaction_kernel \<Rightarrow> 'd)
     \<Rightarrow> ('d \<times> ('d, 'p, 'f) transaction_kernel) list \<times> ('d \<times> ('d, 'p, 'f) transaction_kernel) list
     \<Rightarrow> ('d, 'p, 'f) mempool_event
     \<Rightarrow> ('d \<times> ('d, 'p, 'f) transaction_kernel) list \<times> ('d \<times> ('d, 'p, 'f) transaction_kernel) list" where
  "normalize_step mast (added, removed) event =
     (let tx_key = kernel_mast_hash mast event in
      case event of
        AddTx k \<Rightarrow> if map_of removed tx_key \<noteq> None then (added, AList.delete tx_key removed)
                   else (AList.update tx_key k added, removed)
      | RemoveTx k \<Rightarrow> if map_of added tx_key \<noteq> None then (AList.delete tx_key added, removed)
                      else (added, AList.update tx_key k removed))"

definition normalize ::
  "(('d, 'p, 'f) transaction_kernel \<Rightarrow> 'd) \<Rightarrow> ('d, 'p, 'f) mempool_event list \<Rightarrow> ('d, 'p, 'f) mempool_event list" where
  "normalize mast events =
     (let (added, removed) = foldl (normalize_step mast) ([], []) events
      in map (\<lambda>(_, k). RemoveTx k) removed @ map (\<lambda>(_, k). AddTx k) added)"

section \<open>The net effect of a sequence of events\<close>

fun event_sign :: "('d, 'p, 'f) transaction_kernel \<Rightarrow> ('d, 'p, 'f) mempool_event \<Rightarrow> int" where
  "event_sign k (AddTx k') = (if k' = k then 1 else 0)"
| "event_sign k (RemoveTx k') = (if k' = k then - 1 else 0)"

definition net_effect :: "('d, 'p, 'f) mempool_event list \<Rightarrow> ('d, 'p, 'f) transaction_kernel \<Rightarrow> int" where
  "net_effect events k = (\<Sum>e\<leftarrow>events. event_sign k e)"

text \<open>A listener never sees a kernel added twice, or removed twice, in a row.\<close>

definition alternating :: "('d, 'p, 'f) mempool_event list \<Rightarrow> bool" where
  "alternating events \<longleftrightarrow> (\<forall>k. \<forall>n\<le>length events. net_effect (take n events) k \<in> {-1, 0, 1})"

lemma net_effect_simps [simp]:
  "net_effect [] k = 0" "net_effect (e # es) k = event_sign k e + net_effect es k"
  "net_effect (es @ es') k = net_effect es k + net_effect es' k"
  by (simp_all add: net_effect_def)

lemma alternating_snoc:
  "alternating (es @ [e]) \<longleftrightarrow> alternating es \<and> (\<forall>k. net_effect (es @ [e]) k \<in> {-1, 0, 1})"
proof
  assume a: "alternating (es @ [e])"
  have "net_effect (take n es) k \<in> {-1, 0, 1}" if "n \<le> length es" for n k
    using a that unfolding alternating_def by (metis le_SucI length_append_singleton take_append diff_is_0_eq' take_0 append_Nil2)
  moreover have "net_effect (es @ [e]) k \<in> {-1, 0, 1}" for k
    using a unfolding alternating_def by (metis order_refl take_all)
  ultimately show "alternating es \<and> (\<forall>k. net_effect (es @ [e]) k \<in> {-1, 0, 1})" by (auto simp: alternating_def)
next
  assume a: "alternating es \<and> (\<forall>k. net_effect (es @ [e]) k \<in> {-1, 0, 1})"
  show "alternating (es @ [e])"
    unfolding alternating_def
  proof (intro allI impI)
    fix k n assume "n \<le> length (es @ [e])"
    then consider "n \<le> length es" | "n = length (es @ [e])" by fastforce
    then show "net_effect (take n (es @ [e])) k \<in> {-1, 0, 1}"
      using a by cases (auto simp: alternating_def)
  qed
qed

text \<open>What the two hash maps hold at every moment.\<close>

definition normal_state ::
  "(('d, 'p, 'f) transaction_kernel \<Rightarrow> 'd) \<Rightarrow> ('d, 'p, 'f) mempool_event list
     \<Rightarrow> ('d \<times> ('d, 'p, 'f) transaction_kernel) list \<times> ('d \<times> ('d, 'p, 'f) transaction_kernel) list \<Rightarrow> bool" where
  "normal_state mast es st \<longleftrightarrow>
     distinct (map fst (fst st)) \<and> distinct (map fst (snd st)) \<and>
     (\<forall>h k. map_of (fst st) h = Some k \<longleftrightarrow> h = mast k \<and> net_effect es k = 1) \<and>
     (\<forall>h k. map_of (snd st) h = Some k \<longleftrightarrow> h = mast k \<and> net_effect es k = - 1)"

lemma normal_stateD:
  assumes "normal_state mast es st"
  shows "map_of (fst st) h = Some k \<Longrightarrow> h = mast k \<and> net_effect es k = 1"
    "map_of (snd st) h = Some k \<Longrightarrow> h = mast k \<and> net_effect es k = - 1"
    "map_of (fst st) (mast k) = Some k \<longleftrightarrow> net_effect es k = 1"
    "map_of (snd st) (mast k) = Some k \<longleftrightarrow> net_effect es k = - 1"
  using assms by (auto simp: normal_state_def)

lemma normal_state_None:
  assumes "inj mast" "normal_state mast es st"
  shows "map_of (fst st) (mast k) \<noteq> None \<longleftrightarrow> net_effect es k = 1"
    "map_of (snd st) (mast k) \<noteq> None \<longleftrightarrow> net_effect es k = - 1"
  using normal_stateD [OF assms(2)] injD [OF assms(1)] by (metis option.distinct(1) option.exhaust)+

lemma normalize_step_state:
  assumes inj: "inj mast" and st: "normal_state mast es st" and ok: "alternating (es @ [e])"
  shows "normal_state mast (es @ [e]) (normalize_step mast st e)"
proof -
  obtain a r where ar: "st = (a, r)" by force
  note none = normal_state_None [OF inj st, unfolded ar fst_conv snd_conv]
  note mem = st [unfolded normal_state_def ar fst_conv snd_conv]
  note eq = injD [OF inj]
  have range: "net_effect es k \<in> {-1, 0, 1}" "net_effect (es @ [e]) k \<in> {-1, 0, 1}" for k
  proof -
    show "net_effect (es @ [e]) k \<in> {-1, 0, 1}" using ok by (simp add: alternating_snoc del: net_effect_simps)
    have "alternating es" using ok by (simp add: alternating_snoc)
    then show "net_effect es k \<in> {-1, 0, 1}" unfolding alternating_def by (metis order_refl take_all)
  qed
  show ?thesis
  proof (cases e)
    case (AddTx k)
    show ?thesis
    proof (cases "net_effect es k = - 1")
      case True
      with none [of k] AddTx have "normalize_step mast st e = (a, AList.delete (mast k) r)" by (simp add: ar)
      with True mem AddTx show ?thesis by (auto simp: normal_state_def alist_simps inj_eq [OF inj])
    next
      case False
      with range [of k] AddTx have "net_effect es k = 0" by auto
      moreover from False none [of k] AddTx have "normalize_step mast st e = (AList.update (mast k) k a, r)" by (simp add: ar)
      ultimately show ?thesis using mem AddTx by (auto simp: normal_state_def alist_simps inj_eq [OF inj])
    qed
  next
    case (RemoveTx k)
    show ?thesis
    proof (cases "net_effect es k = 1")
      case True
      with none [of k] RemoveTx have "normalize_step mast st e = (AList.delete (mast k) a, r)" by (simp add: ar)
      with True mem RemoveTx show ?thesis by (auto simp: normal_state_def alist_simps inj_eq [OF inj])
    next
      case False
      with range [of k] RemoveTx have "net_effect es k = 0" by auto
      moreover from False none [of k] RemoveTx have "normalize_step mast st e = (a, AList.update (mast k) k r)" by (simp add: ar)
      ultimately show ?thesis using mem RemoveTx by (auto simp: normal_state_def alist_simps inj_eq [OF inj])
    qed
  qed
qed

lemma normalize_state:
  "inj mast \<Longrightarrow> alternating es \<Longrightarrow> normal_state mast es (foldl (normalize_step mast) ([], []) es)"
proof (induction es rule: rev_induct)
  case (snoc e es)
  then show ?case using normalize_step_state [of mast es _ e] by (simp add: alternating_snoc)
qed (simp add: normal_state_def)

text \<open>Normalizing a sequence of events keeps its net effect: the result removes exactly the kernels that
  were removed for good and adds exactly those that were added for good, each once, and cancels everything
  else.\<close>

lemma normalize_net_effect:
  assumes "inj mast" "alternating es"
  shows "distinct (normalize mast es) \<and>
    (\<forall>k. AddTx k \<in> set (normalize mast es) \<longleftrightarrow> net_effect es k = 1) \<and>
    (\<forall>k. RemoveTx k \<in> set (normalize mast es) \<longleftrightarrow> net_effect es k = - 1)"
proof -
  obtain a r where ar: "foldl (normalize_step mast) ([], []) es = (a, r)" by force
  then have n: "normalize mast es = map (\<lambda>(_, k). RemoveTx k) r @ map (\<lambda>(_, k). AddTx k) a" by (simp add: normalize_def)
  from normalize_state [OF assms] ar have st: "normal_state mast es (a, r)" by simp
  then have d: "distinct (map fst a)" "distinct (map fst r)"
    and m: "(h, k) \<in> set a \<longleftrightarrow> h = mast k \<and> net_effect es k = 1" "(h, k) \<in> set r \<longleftrightarrow> h = mast k \<and> net_effect es k = - 1"
    for h k by (auto simp: normal_state_def map_of_image [symmetric])
  have "inj_on (\<lambda>(_, k). AddTx k) (set a)" "inj_on (\<lambda>(_, k). RemoveTx k) (set r)"
    by (auto simp: inj_on_def m)
  then have "distinct (normalize mast es)"
    unfolding n using d by (auto simp: distinct_map)
  moreover have "\<forall>k. AddTx k \<in> set (normalize mast es) \<longleftrightarrow> net_effect es k = 1"
    unfolding n by (force simp: m)
  moreover have "\<forall>k. RemoveTx k \<in> set (normalize mast es) \<longleftrightarrow> net_effect es k = - 1"
    unfolding n by (force simp: m)
  ultimately show ?thesis by blast
qed

section \<open>The cache of merge inputs\<close>

record ('d, 'p, 'f, 's) merge_input_cache_element =
  ce_tx_kernel :: "('d, 'p, 'f) transaction_kernel"
  ce_single_proof :: 's

record ('d, 'p, 'f, 's) merge_input_cache =
  cache_dictionary :: "('d \<times> ('d, 'p, 'f, 's) merge_input_cache_element) list"
  insertion_order :: "'d list"

definition cache_default :: "('d, 'p, 'f, 's) merge_input_cache" where
  "cache_default = \<lparr>cache_dictionary = [], insertion_order = []\<rparr>"

definition cache_contains :: "('d, 'p, 'f, 's) merge_input_cache \<Rightarrow> 'd \<Rightarrow> bool" where
  "cache_contains c tx_id \<longleftrightarrow> map_of (cache_dictionary c) tx_id \<noteq> None"

definition cache_is_empty :: "('d, 'p, 'f, 's) merge_input_cache \<Rightarrow> bool" where
  "cache_is_empty c \<longleftrightarrow> cache_dictionary c = []"

definition cache_clear :: "('d, 'p, 'f, 's) merge_input_cache \<Rightarrow> ('d, 'p, 'f, 's) merge_input_cache" where
  "cache_clear c = c\<lparr>cache_dictionary := [], insertion_order := []\<rparr>"

definition cache_pop_oldest ::
  "('d, 'p, 'f, 's) merge_input_cache
     \<Rightarrow> (('d, 'p, 'f, 's) merge_input_cache \<times> ('d, 'p, 'f, 's) merge_input_cache_element option) res" where
  "cache_pop_oldest c =
     (case insertion_order c of
        [] \<Rightarrow> Inr (c, None)
      | tx_id # rest \<Rightarrow>
          (case map_of (cache_dictionary c) tx_id of
             None \<Rightarrow> Inl UnwrapFailed
           | Some elem \<Rightarrow> Inr (c\<lparr>cache_dictionary := AList.delete tx_id (cache_dictionary c), insertion_order := rest\<rparr>,
               Some elem)))"

definition cache_insert ::
  "('d :: linorder, 'f) txid_hash \<Rightarrow> ('d, 'p, 'f, 's) merge_input_cache \<Rightarrow> ('d, 'p, 'f) transaction_kernel \<Rightarrow> 's
     \<Rightarrow> ('d, 'p, 'f, 's) merge_input_cache res" where
  "cache_insert H c tx_kernel single_proof =
     (let tx_id = txid H tx_kernel;
          cache_element = \<lparr>ce_tx_kernel = tx_kernel, ce_single_proof = single_proof\<rparr>;
          existing = map_of (cache_dictionary c) tx_id;
          c = c\<lparr>cache_dictionary := AList.update tx_id cache_element (cache_dictionary c)\<rparr>;
          c = (if existing = None then c\<lparr>insertion_order := insertion_order c @ [tx_id]\<rparr> else c)
      in assert_then (length (cache_dictionary c) = length (insertion_order c)) (Inr c))"

text \<open>No input of the transaction has all its positions in the union of those of the block.\<close>

definition still_mineable :: "u128 set \<Rightarrow> ('d, 'p, 'f) transaction_kernel \<Rightarrow> bool" where
  "still_mineable block_bf_set_union k \<longleftrightarrow>
     (\<forall>index_set\<in>set (map (\<lambda>rr. ais_to_array (absolute_indices rr)) (tk_inputs k)).
        \<exists>index\<in>set index_set. index \<notin> block_bf_set_union)"

fun cache_drain ::
  "u128 set \<Rightarrow> ('d \<times> ('d, 'p, 'f, 's) merge_input_cache_element) list \<Rightarrow> ('d, 'p, 'f, 's) merge_input_cache_element list
     \<Rightarrow> 'd list
     \<Rightarrow> (('d \<times> ('d, 'p, 'f, 's) merge_input_cache_element) list \<times> ('d, 'p, 'f, 's) merge_input_cache_element list) res" where
  "cache_drain bfs d ret [] = Inr (d, ret)"
| "cache_drain bfs d ret (tx_id # order) =
     (case map_of d tx_id of
        None \<Rightarrow> Inl UnwrapFailed
      | Some elem \<Rightarrow>
          cache_drain bfs (AList.delete tx_id d)
            (if still_mineable bfs (ce_tx_kernel elem) then ret @ [elem] else ret) order)"

definition cache_update_with_block ::
  "u128 set \<Rightarrow> ('d, 'p, 'f, 's) merge_input_cache
     \<Rightarrow> (('d, 'p, 'f, 's) merge_input_cache \<times> ('d, 'p, 'f, 's) merge_input_cache_element list) res" where
  "cache_update_with_block bfs c =
     bind_res (cache_drain bfs (cache_dictionary c) [] (insertion_order c))
       (\<lambda>(d, ret). Inr (c\<lparr>cache_dictionary := d, insertion_order := []\<rparr>, ret))"

text \<open>The two fields agree, and every element is stored under its identifier.\<close>

definition cache_inv ::
  "('d :: linorder, 'f) txid_hash \<Rightarrow> ('d, 'p, 'f, 's) merge_input_cache \<Rightarrow> bool" where
  "cache_inv H c \<longleftrightarrow>
     distinct (map fst (cache_dictionary c)) \<and> distinct (insertion_order c) \<and>
     set (insertion_order c) = fst ` set (cache_dictionary c) \<and>
     (\<forall>i e. map_of (cache_dictionary c) i = Some e \<longrightarrow> i = txid H (ce_tx_kernel e))"

lemma cache_inv_simple [simp]: "cache_inv H cache_default" "cache_inv H (cache_clear c)"
  by (simp_all add: cache_inv_def cache_default_def cache_clear_def)

lemma cache_inv_length: "cache_inv H c \<Longrightarrow> length (cache_dictionary c) = length (insertion_order c)"
  unfolding cache_inv_def by (metis distinct_card length_map set_map)

lemma cache_pop_oldest_ok:
  assumes "cache_inv H c" "insertion_order c = tx_id # rest"
  shows "\<exists>c' elem. cache_pop_oldest c = Inr (c', Some elem) \<and> cache_inv H c' \<and> insertion_order c' = rest"
proof -
  have "tx_id \<in> fst ` set (cache_dictionary c)" using assms by (auto simp: cache_inv_def)
  then obtain elem where "map_of (cache_dictionary c) tx_id = Some elem"
    by (metis option.exhaust map_of_eq_None_iff)
  with assms show ?thesis
    by (auto simp: cache_pop_oldest_def cache_inv_def alist_simps keys_delete split: if_splits)
qed

lemma cache_insert_ok:
  assumes "cache_inv H c"
  shows "\<exists>c'. cache_insert H c k p = Inr c' \<and> cache_inv H c' \<and> cache_contains c' (txid H k)"
proof -
  let ?c = "let c1 = c\<lparr>cache_dictionary := AList.update (txid H k) \<lparr>ce_tx_kernel = k, ce_single_proof = p\<rparr> (cache_dictionary c)\<rparr>
      in if map_of (cache_dictionary c) (txid H k) = None then c1\<lparr>insertion_order := insertion_order c1 @ [txid H k]\<rparr> else c1"
  have inv: "cache_inv H ?c"
    using assms by (auto simp: cache_inv_def Let_def alist_simps dom_update map_of_eq_None_iff in_set_update split: if_splits)
  then have "cache_insert H c k p = Inr ?c"
    using cache_inv_length [OF inv] by (simp add: cache_insert_def Let_def assert_then_def)
  moreover have "cache_contains ?c (txid H k)" by (simp add: cache_contains_def Let_def alist_simps)
  ultimately show ?thesis using inv by blast
qed

lemma cache_drain_ok:
  assumes "distinct (map fst d)" "distinct order" "set order = fst ` set d"
  shows "cache_drain bfs d ret order =
    Inr ([], ret @ filter (\<lambda>e. still_mineable bfs (ce_tx_kernel e)) (map (\<lambda>i. the (map_of d i)) order))"
  using assms
proof (induction order arbitrary: d ret)
  case (Cons i order)
  then obtain e where e: "map_of d i = Some e"
    by (metis list.set_intros(1) option.exhaust map_of_eq_None_iff)
  have same: "map (\<lambda>j. the (map_of (AList.delete i d) j)) order = map (\<lambda>j. the (map_of d j)) order"
    using Cons.prems(2) by (auto simp: delete_conv')
  have "set order = fst ` set (AList.delete i d)"
    using Cons.prems(2,3) by (auto simp: keys_delete)
  with Cons.prems Cons.IH [of "AList.delete i d", unfolded same]
  have "cache_drain bfs (AList.delete i d) ret' order =
      Inr ([], ret' @ filter (\<lambda>e. still_mineable bfs (ce_tx_kernel e)) (map (\<lambda>j. the (map_of d j)) order))" for ret'
    by (simp add: distinct_delete)
  with e show ?case by (simp del: map_of_eq_Some_iff)
qed simp

lemma cache_update_ok:
  assumes "cache_inv H c"
  shows "cache_update_with_block bfs c = Inr (cache_clear c,
    filter (\<lambda>e. still_mineable bfs (ce_tx_kernel e)) (map (\<lambda>i. the (map_of (cache_dictionary c) i)) (insertion_order c)))"
  using assms by (simp add: cache_update_with_block_def cache_inv_def cache_drain_ok bind_res_def cache_clear_def)

end
