(* ===== verification/Mempool.thy ===== *)
theory Mempool
  imports Complex_Main Mempool_Event
begin

text \<open>
  \<^verbatim>\<open>node/src/state/mempool.rs\<close>: the pool of unconfirmed transactions. A table maps identifiers to
  transactions, a double-ended priority queue orders the identifiers by fee density, and a cache keeps
  transactions that a merge replaced.

  The queue (crate \<^verbatim>\<open>priority_queue\<close>) is the parameter \<open>dpq_ops\<close> with the laws of the locale \<open>dpq_laws\<close>;
  the sizes of objects in memory (\<^verbatim>\<open>GetSize\<close>), the serialized size of a transaction and the MAST hash are
  parameters too (\<open>mempool_env\<close>). Capacities of the containers are not part of the state, so
  \<^verbatim>\<open>shrink_to_fit\<close> does nothing here. Of a block the mempool reads its digest, the digest of its predecessor,
  its transaction kernel and the hash of the mutator set after it, which may be missing.
\<close>

section \<open>The priority queue\<close>

record ('q, 'k) dpq_ops =
  dpq_empty :: 'q
  dpq_push :: "'q \<Rightarrow> 'k \<Rightarrow> rat \<Rightarrow> 'q"
  dpq_remove :: "'q \<Rightarrow> 'k \<Rightarrow> 'q"
  dpq_pop_min :: "'q \<Rightarrow> ('k \<times> rat \<times> 'q) option"
  dpq_len :: "'q \<Rightarrow> nat"
  dpq_iter :: "'q \<Rightarrow> ('k \<times> rat) list"
  dpq_into_sorted :: "'q \<Rightarrow> ('k \<times> rat) list"

text \<open>Every key has one priority; a push of a present key changes its priority; \<^verbatim>\<open>into_sorted_iter\<close> is
  ascending.\<close>

locale dpq_laws =
  fixes Q :: "('q, 'k) dpq_ops" and prio :: "'q \<Rightarrow> 'k \<Rightarrow> rat option"
  assumes prio_empty: "prio (dpq_empty Q) = Map.empty"
    and prio_push: "prio (dpq_push Q q k p) = (prio q)(k \<mapsto> p)"
    and prio_remove: "prio (dpq_remove Q q k) = (prio q)(k := None)"
    and pop_min_None: "dpq_pop_min Q q = None \<longleftrightarrow> prio q = Map.empty"
    and pop_min_Some: "dpq_pop_min Q q = Some (k, p, q') \<Longrightarrow>
      prio q k = Some p \<and> prio q' = (prio q)(k := None) \<and> (\<forall>k' p'. prio q k' = Some p' \<longrightarrow> p \<le> p')"
    and iter_distinct: "distinct (map fst (dpq_iter Q q))"
    and iter_prio: "map_of (dpq_iter Q q) = prio q"
    and len_iter: "dpq_len Q q = length (dpq_iter Q q)"
    and sorted_mset: "mset (dpq_into_sorted Q q) = mset (dpq_iter Q q)"
    and sorted_prio: "sorted (map snd (dpq_into_sorted Q q))"

text \<open>An association list fulfils the laws.\<close>

fun min_by_prio :: "('k \<times> rat) list \<Rightarrow> ('k \<times> rat) option" where
  "min_by_prio [] = None"
| "min_by_prio ((k, p) # xs) =
     (case min_by_prio xs of None \<Rightarrow> Some (k, p) | Some (k', p') \<Rightarrow> if p \<le> p' then Some (k, p) else Some (k', p'))"

definition list_dpq :: "(('k \<times> rat) list, 'k) dpq_ops" where
  "list_dpq =
     \<lparr>dpq_empty = [], dpq_push = (\<lambda>q k p. AList.update k p q), dpq_remove = (\<lambda>q k. AList.delete k q),
      dpq_pop_min = (\<lambda>q. map_option (\<lambda>(k, p). (k, p, AList.delete k q)) (min_by_prio (AList.clearjunk q))),
      dpq_len = (\<lambda>q. length (AList.clearjunk q)), dpq_iter = AList.clearjunk,
      dpq_into_sorted = (\<lambda>q. sort_key snd (AList.clearjunk q))\<rparr>"

lemma min_by_prio_None: "min_by_prio xs = None \<longleftrightarrow> xs = []"
  by (cases xs) (auto split: option.splits)

lemma min_by_prio_Some: "min_by_prio xs = Some (k, p) \<Longrightarrow> (k, p) \<in> set xs \<and> (\<forall>(k', p')\<in>set xs. p \<le> p')"
  by (induction xs arbitrary: k p) (fastforce simp: min_by_prio_None split: option.splits if_splits)+

interpretation list_queue: dpq_laws list_dpq map_of
proof unfold_locales
  fix q :: "('k \<times> rat) list" and k p q'
  show "dpq_pop_min list_dpq q = None \<longleftrightarrow> map_of q = Map.empty"
    by (cases q) (auto simp: list_dpq_def min_by_prio_None)
  assume "dpq_pop_min list_dpq q = Some (k, p, q')"
  then have m: "min_by_prio (AList.clearjunk q) = Some (k, p)" "q' = AList.delete k q"
    by (auto simp: list_dpq_def)
  have in_q: "(k, p) \<in> set (AList.clearjunk q) \<longleftrightarrow> map_of q k = Some p" for k p
    using map_of_eq_Some_iff [of "AList.clearjunk q" k p] by (simp add: distinct_clearjunk map_of_clearjunk)
  show "map_of q k = Some p \<and> map_of q' = (map_of q)(k := None) \<and> (\<forall>k' p'. map_of q k' = Some p' \<longrightarrow> p \<le> p')"
    using min_by_prio_Some [OF m(1)] m(2) by (auto simp: in_q delete_conv' simp del: map_of_eq_Some_iff)
qed (simp_all add: list_dpq_def update_conv' delete_conv' distinct_clearjunk map_of_clearjunk)

section \<open>State\<close>

record ('d, 'p, 'f, 's, 'c, 'q) mempool =
  max_total_size :: nat
  tx_dictionary :: "('d \<times> ('d, 'p, 'f, 's, 'c) transaction) list"
  fee_densities :: 'q
  tip_digest :: 'd
  tip_mutator_set_hash :: 'd
  merge_input_cache :: "('d, 'p, 'f, 's) merge_input_cache"

record ('d, 'p, 'f, 's, 'c, 'q) mempool_env =
  hashes :: "('d, 'f) txid_hash"
  field_ops :: "'f bfield"
  queue_ops :: "('q, 'd) dpq_ops"
  mast_hash :: "('d, 'p, 'f) transaction_kernel \<Rightarrow> 'd"
  serialized_size :: "('d, 'p, 'f, 's, 'c) transaction \<Rightarrow> nat"
  tx_get_size :: "('d, 'p, 'f, 's, 'c) transaction \<Rightarrow> nat"
  mempool_get_size :: "('d, 'p, 'f, 's, 'c, 'q) mempool \<Rightarrow> nat"
  cache_get_size :: "('d, 'p, 'f, 's) merge_input_cache \<Rightarrow> nat"

record ('d, 'p, 'f) block_view =
  bv_hash :: 'd
  bv_prev_block_digest :: 'd
  bv_transaction_kernel :: "('d, 'p, 'f) transaction_kernel"
  bv_mutator_set_after_hash :: "'d option"

datatype mempool_error = NoMutatorSetAfter

abbreviation index_array :: "'p removal_record \<Rightarrow> u128 list" where
  "index_array rr \<equiv> ais_to_array (absolute_indices rr)"

abbreviation tx_txid ::
  "('d :: linorder, 'p, 'f, 's, 'c, 'q) mempool_env \<Rightarrow> ('d, 'p, 'f, 's, 'c) transaction \<Rightarrow> 'd" where
  "tx_txid E tx \<equiv> txid (hashes E) (kernel tx)"

definition fee_density ::
  "('d, 'p, 'f, 's, 'c, 'q) mempool_env \<Rightarrow> ('d, 'p, 'f, 's, 'c) transaction \<Rightarrow> rat" where
  "fee_density E tx = of_int (to_nau (fee (kernel tx))) / of_nat (serialized_size E tx)"

section \<open>Construction and queries\<close>

definition mempool_new ::
  "('d, 'p, 'f, 's, 'c, 'q) mempool_env \<Rightarrow> u64 \<Rightarrow> ('d, 'p, 'f) block_view \<Rightarrow> ('d, 'p, 'f, 's, 'c, 'q) mempool res" where
  "mempool_new E max_size tip =
     (case bv_mutator_set_after_hash tip of
        None \<Rightarrow> Inl UnwrapFailed
      | Some h \<Rightarrow> Inr \<lparr>max_total_size = unat max_size, tx_dictionary = [], fee_densities = dpq_empty (queue_ops E),
          tip_digest = bv_hash tip, tip_mutator_set_hash = h, merge_input_cache = cache_default\<rparr>)"

definition set_sync_labels ::
  "('d, 'p, 'f, 's, 'c, 'q) mempool \<Rightarrow> ('d, 'p, 'f) block_view
     \<Rightarrow> ('d, 'p, 'f, 's, 'c, 'q) mempool \<times> (mempool_error + unit)" where
  "set_sync_labels mp tip =
     (let mp = mp\<lparr>tip_digest := bv_hash tip\<rparr> in
      case bv_mutator_set_after_hash tip of
        None \<Rightarrow> (mp, Inl NoMutatorSetAfter)
      | Some h \<Rightarrow> (mp\<lparr>tip_mutator_set_hash := h\<rparr>, Inr ()))"

definition mempool_contains :: "('d, 'p, 'f, 's, 'c, 'q) mempool \<Rightarrow> 'd \<Rightarrow> bool" where
  "mempool_contains mp transaction_id \<longleftrightarrow> map_of (tx_dictionary mp) transaction_id \<noteq> None"

definition mempool_get ::
  "('d, 'p, 'f, 's, 'c, 'q) mempool \<Rightarrow> 'd \<Rightarrow> ('d, 'p, 'f, 's, 'c) transaction option" where
  "mempool_get mp transaction_id = map_of (tx_dictionary mp) transaction_id"

definition mempool_len :: "('d, 'p, 'f, 's, 'c, 'q) mempool \<Rightarrow> nat" where
  "mempool_len mp = length (tx_dictionary mp)"

definition mempool_is_empty :: "('d, 'p, 'f, 's, 'c, 'q) mempool \<Rightarrow> bool" where
  "mempool_is_empty mp \<longleftrightarrow> tx_dictionary mp = []"

definition tx_is_synced :: "('d, 'p, 'f, 's, 'c, 'q) mempool \<Rightarrow> ('d, 'p, 'f) transaction_kernel \<Rightarrow> bool" where
  "tx_is_synced mp k \<longleftrightarrow> tip_mutator_set_hash mp = mutator_set_hash k"

definition accept_transaction ::
  "('d, 'p, 'f, 's, 'c, 'q) mempool \<Rightarrow> 'd \<Rightarrow> transaction_proof_quality \<Rightarrow> 'd \<Rightarrow> bool" where
  "accept_transaction mp new_tx_txid new_tx_proof_quality new_tx_mutator_set_hash =
     (case map_of (tx_dictionary mp) new_tx_txid of
        None \<Rightarrow> \<not> cache_contains (merge_input_cache mp) new_tx_txid
      | Some transaction \<Rightarrow>
          let mempool_proof_quality = proof_quality (tx_proof transaction) in
          if new_tx_proof_quality < mempool_proof_quality then False
          else if mempool_proof_quality = new_tx_proof_quality
          then mutator_set_hash (kernel transaction) \<noteq> tip_mutator_set_hash mp \<and>
               new_tx_mutator_set_hash = tip_mutator_set_hash mp
          else True)"

definition transactions_in_conflict_with ::
  "('d, 'p, 'f, 's, 'c, 'q) mempool \<Rightarrow> ('d, 'p, 'f) transaction_kernel
     \<Rightarrow> ('d \<times> ('d, 'p, 'f, 's, 'c) transaction) list" where
  "transactions_in_conflict_with mp k =
     (let tx_sbf_index_sets = set (map index_array (tk_inputs k))
      in filter (\<lambda>(_, transaction). list_ex (\<lambda>rr. index_array rr \<in> tx_sbf_index_sets) (tk_inputs (kernel transaction)))
           (tx_dictionary mp))"

definition transactions_kicked_by_block ::
  "('d, 'p, 'f, 's, 'c, 'q) mempool \<Rightarrow> ('d, 'p, 'f) block_view \<Rightarrow> ('d \<times> ('d, 'p, 'f, 's, 'c) transaction) list" where
  "transactions_kicked_by_block mp block = transactions_in_conflict_with mp (bv_transaction_kernel block)"

definition transactions_confirmed_by_block ::
  "('d, 'p, 'f, 's, 'c, 'q) mempool \<Rightarrow> ('d, 'p, 'f) block_view \<Rightarrow> ('d \<times> ('d, 'p, 'f, 's, 'c) transaction) list" where
  "transactions_confirmed_by_block mp block =
     (let k = bv_transaction_kernel block;
          block_inputs = set (map absolute_indices (tk_inputs k));
          block_outputs = set (tk_outputs k)
      in filter (\<lambda>(_, transaction).
           list_all (\<lambda>ar. ar \<in> block_outputs) (tk_outputs (kernel transaction)) \<and>
           list_all (\<lambda>rr. absolute_indices rr \<in> block_inputs) (tk_inputs (kernel transaction)))
         (transactions_kicked_by_block mp block))"

definition fee_density_iter ::
  "('d, 'p, 'f, 's, 'c, 'q) mempool_env \<Rightarrow> ('d, 'p, 'f, 's, 'c, 'q) mempool \<Rightarrow> ('d \<times> rat) list" where
  "fee_density_iter E mp = rev (dpq_into_sorted (queue_ops E) (fee_densities mp))"

text \<open>\<^verbatim>\<open>with_matching_puts_inner\<close>: the position of a transaction among those that a composer can take.\<close>

datatype 'd tx_matcher = Inputs "absolute_index_set set" | Outputs "'d addition_record set"

fun matcher_is_empty :: "'d tx_matcher \<Rightarrow> bool" where
  "matcher_is_empty (Inputs s) = (s = {})"
| "matcher_is_empty (Outputs s) = (s = {})"

fun is_match :: "'d tx_matcher \<Rightarrow> ('d, 'p, 'f, 's, 'c) transaction \<Rightarrow> bool" where
  "is_match (Inputs index_sets) tx = list_ex (\<lambda>ais. absolute_indices ais \<in> index_sets) (tk_inputs (kernel tx))"
| "is_match (Outputs addition_records) tx = list_ex (\<lambda>ar. ar \<in> addition_records) (tk_outputs (kernel tx))"

fun matching_loop ::
  "('d, 'p, 'f, 's, 'c, 'q) mempool \<Rightarrow> 'd tx_matcher \<Rightarrow> (('d, 'p, 'f) transaction_kernel \<times> nat option) list \<Rightarrow> nat
     \<Rightarrow> ('d \<times> rat) list \<Rightarrow> (('d, 'p, 'f) transaction_kernel \<times> nat option) list res" where
  "matching_loop mp m acc queue_count [] = Inr acc"
| "matching_loop mp m acc queue_count ((tx_id, _) # rest) =
     (case map_of (tx_dictionary mp) tx_id of
        None \<Rightarrow> Inl UnwrapFailed
      | Some tx \<Rightarrow>
          let sp_backed_and_synced = is_single_proof (tx_proof tx) \<and>
                mutator_set_hash (kernel tx) = tip_mutator_set_hash mp;
              acc = (if is_match m tx
                     then acc @ [(kernel tx, if sp_backed_and_synced then Some queue_count else None)] else acc);
              queue_count = (if sp_backed_and_synced then queue_count + 1 else queue_count)
          in matching_loop mp m acc queue_count rest)"

definition with_matching_puts_inner ::
  "('d, 'p, 'f, 's, 'c, 'q) mempool_env \<Rightarrow> ('d, 'p, 'f, 's, 'c, 'q) mempool \<Rightarrow> 'd tx_matcher
     \<Rightarrow> (('d, 'p, 'f) transaction_kernel \<times> nat option) list res" where
  "with_matching_puts_inner E mp m =
     (if matcher_is_empty m then Inr [] else matching_loop mp m [] 0 (fee_density_iter E mp))"

text \<open>The loop of \<^verbatim>\<open>get_transactions_for_block_composition\<close>.\<close>

fun composition_loop ::
  "('d, 'p, 'f, 's, 'c, 'q) mempool_env \<Rightarrow> ('d, 'p, 'f, 's, 'c, 'q) mempool \<Rightarrow> nat option
     \<Rightarrow> ('d, 'p, 'f, 's, 'c) transaction list \<Rightarrow> nat \<Rightarrow> ('d \<times> rat) list \<Rightarrow> ('d, 'p, 'f, 's, 'c) transaction list" where
  "composition_loop E mp max_num_txs transactions remaining_storage [] = transactions"
| "composition_loop E mp max_num_txs transactions remaining_storage ((transaction_digest, _) # rest) =
     (if remaining_storage = 0 \<or> (case max_num_txs of None \<Rightarrow> False | Some m \<Rightarrow> length transactions = m)
      then transactions
      else case mempool_get mp transaction_digest of
        None \<Rightarrow> composition_loop E mp max_num_txs transactions remaining_storage rest
      | Some tx \<Rightarrow>
          if \<not> tx_is_synced mp (kernel tx)
          then composition_loop E mp max_num_txs transactions remaining_storage rest
          else if \<not> is_single_proof (tx_proof tx)
          then composition_loop E mp max_num_txs transactions remaining_storage rest
          else if remaining_storage < tx_get_size E tx
          then composition_loop E mp max_num_txs transactions remaining_storage rest
          else composition_loop E mp max_num_txs (transactions @ [tx]) (remaining_storage - tx_get_size E tx) rest)"

definition get_transactions_for_block_composition ::
  "('d, 'p, 'f, 's, 'c, 'q) mempool_env \<Rightarrow> ('d, 'p, 'f, 's, 'c, 'q) mempool \<Rightarrow> nat \<Rightarrow> nat option
     \<Rightarrow> ('d, 'p, 'f, 's, 'c) transaction list" where
  "get_transactions_for_block_composition E mp remaining_storage max_num_txs =
     composition_loop E mp max_num_txs [] remaining_storage (fee_density_iter E mp)"

section \<open>Removal\<close>

definition mempool_remove ::
  "('d, 'p, 'f, 's, 'c, 'q) mempool_env \<Rightarrow> ('d, 'p, 'f, 's, 'c, 'q) mempool \<Rightarrow> 'd
     \<Rightarrow> ('d, 'p, 'f, 's, 'c, 'q) mempool \<times> ('d, 'p, 'f) mempool_event option" where
  "mempool_remove E mp transaction_id =
     (case map_of (tx_dictionary mp) transaction_id of
        None \<Rightarrow> (mp, None)
      | Some tx \<Rightarrow>
          (mp\<lparr>tx_dictionary := AList.delete transaction_id (tx_dictionary mp),
              fee_densities := dpq_remove (queue_ops E) (fee_densities mp) transaction_id\<rparr>,
           Some (RemoveTx (kernel tx))))"

fun find_victims ::
  "('d \<Rightarrow> ('d, 'p, 'f, 's, 'c) transaction \<Rightarrow> bool) \<Rightarrow> ('d, 'p, 'f, 's, 'c, 'q) mempool \<Rightarrow> ('d \<times> rat) list
     \<Rightarrow> 'd list res" where
  "find_victims predicate mp [] = Inr []"
| "find_victims predicate mp ((transaction_id, _) # rest) =
     (case mempool_get mp transaction_id of
        None \<Rightarrow> Inl UnwrapFailed
      | Some tx \<Rightarrow> bind_res (find_victims predicate mp rest)
          (\<lambda>victims. Inr (if \<not> predicate transaction_id tx then transaction_id # victims else victims)))"

fun remove_victims ::
  "('d, 'p, 'f, 's, 'c, 'q) mempool_env \<Rightarrow> ('d, 'p, 'f, 's, 'c, 'q) mempool \<Rightarrow> 'd list
     \<Rightarrow> ('d, 'p, 'f, 's, 'c, 'q) mempool \<times> ('d, 'p, 'f) mempool_event list" where
  "remove_victims E mp [] = (mp, [])"
| "remove_victims E mp (t # victims) =
     (let (mp, e) = mempool_remove E mp t;
          (mp, events) = remove_victims E mp victims
      in (mp, case e of None \<Rightarrow> events | Some e \<Rightarrow> e # events))"

definition retain ::
  "('d, 'p, 'f, 's, 'c, 'q) mempool_env \<Rightarrow> ('d \<Rightarrow> ('d, 'p, 'f, 's, 'c) transaction \<Rightarrow> bool)
     \<Rightarrow> ('d, 'p, 'f, 's, 'c, 'q) mempool
     \<Rightarrow> (('d, 'p, 'f, 's, 'c, 'q) mempool \<times> ('d, 'p, 'f) mempool_event list) res" where
  "retain E predicate mp =
     bind_res (find_victims predicate mp (dpq_iter (queue_ops E) (fee_densities mp)))
       (\<lambda>victims. Inr (remove_victims E mp victims))"

definition mempool_clear ::
  "('d, 'p, 'f, 's, 'c, 'q) mempool_env \<Rightarrow> ('d, 'p, 'f, 's, 'c, 'q) mempool
     \<Rightarrow> (('d, 'p, 'f, 's, 'c, 'q) mempool \<times> ('d, 'p, 'f) mempool_event list) res" where
  "mempool_clear E mp = retain E (\<lambda>_ _. False) (mp\<lparr>merge_input_cache := cache_clear (merge_input_cache mp)\<rparr>)"

definition MEMPOOL_TX_THRESHOLD_AGE_IN_SECS :: u64 where
  "MEMPOOL_TX_THRESHOLD_AGE_IN_SECS = 72 * 60 * 60"

definition prune_stale_transactions ::
  "('d, 'p, 'f, 's, 'c, 'q) mempool_env \<Rightarrow> 'f timestamp \<Rightarrow> ('d, 'p, 'f, 's, 'c, 'q) mempool
     \<Rightarrow> (('d, 'p, 'f, 's, 'c, 'q) mempool \<times> ('d, 'p, 'f) mempool_event list) res" where
  "prune_stale_transactions E now mp =
     (let F = field_ops E;
          cutoff = timestamp_sub F now (ts_seconds F MEMPOOL_TX_THRESHOLD_AGE_IN_SECS)
      in retain E (\<lambda>_ transaction. \<not> timestamp_le F (tk_timestamp (kernel transaction)) cutoff) mp)"

definition pop_min ::
  "('d, 'p, 'f, 's, 'c, 'q) mempool_env \<Rightarrow> ('d, 'p, 'f, 's, 'c, 'q) mempool
     \<Rightarrow> ('d, 'p, 'f, 's, 'c, 'q) mempool \<times> (('d, 'p, 'f) mempool_event \<times> rat) option" where
  "pop_min E mp =
     (case dpq_pop_min (queue_ops E) (fee_densities mp) of
        None \<Rightarrow> (mp, None)
      | Some (txkid, fee_density', q) \<Rightarrow>
          let mp = mp\<lparr>fee_densities := q\<rparr> in
          case map_of (tx_dictionary mp) txkid of
            None \<Rightarrow> (mp, None)
          | Some tx \<Rightarrow> (mp\<lparr>tx_dictionary := AList.delete txkid (tx_dictionary mp)\<rparr>,
              Some (RemoveTx (kernel tx), fee_density')))"

definition MAX_SIZE_OF_CACHE_FACTOR :: nat where
  "MAX_SIZE_OF_CACHE_FACTOR = 3"

text \<open>Every turn of the loop takes an element from the cache or a transaction from the table.\<close>

definition pool_elements :: "('d, 'p, 'f, 's, 'c, 'q) mempool \<Rightarrow> nat" where
  "pool_elements mp = length (tx_dictionary mp) + length (insertion_order (merge_input_cache mp))"

lemma pop_min_elements: "pop_min E mp = (mp', Some e) \<Longrightarrow> pool_elements mp' < pool_elements mp"
  by (auto simp: pop_min_def Let_def pool_elements_def length_delete_less split: option.splits)

lemma pop_oldest_elements:
  "cache_pop_oldest (merge_input_cache mp) = Inr (c, Some e) \<Longrightarrow>
     pool_elements (mp\<lparr>merge_input_cache := c\<rparr>) < pool_elements mp"
  by (auto simp: cache_pop_oldest_def pool_elements_def split: option.splits list.splits)

function shrink_loop ::
  "('d, 'p, 'f, 's, 'c, 'q) mempool_env \<Rightarrow> ('d, 'p, 'f, 's, 'c, 'q) mempool \<Rightarrow> ('d, 'p, 'f) mempool_event list
     \<Rightarrow> (('d, 'p, 'f, 's, 'c, 'q) mempool \<times> ('d, 'p, 'f) mempool_event list) res" where
  "shrink_loop E mp removal_events =
     (if max_total_size mp < mempool_get_size E mp
      then if mempool_get_size E mp < cache_get_size E (merge_input_cache mp) * MAX_SIZE_OF_CACHE_FACTOR
           then (case cache_pop_oldest (merge_input_cache mp) of
                   Inl e \<Rightarrow> Inl e
                 | Inr (_, None) \<Rightarrow> Inl AssertFailed
                 | Inr (c, Some _) \<Rightarrow> shrink_loop E (mp\<lparr>merge_input_cache := c\<rparr>) removal_events)
           else (case pop_min E mp of
                   (mp', None) \<Rightarrow> Inr (mp', removal_events)
                 | (mp', Some (removed, _)) \<Rightarrow> shrink_loop E mp' (removal_events @ [removed]))
      else Inr (mp, removal_events))"
  by pat_completeness auto
termination
  by (relation "measure (\<lambda>(E, mp, _). pool_elements mp)") (auto dest: pop_min_elements [OF sym] pop_oldest_elements)

declare shrink_loop.simps [simp del]

definition shrink_to_max_size ::
  "('d, 'p, 'f, 's, 'c, 'q) mempool_env \<Rightarrow> ('d, 'p, 'f, 's, 'c, 'q) mempool
     \<Rightarrow> (('d, 'p, 'f, 's, 'c, 'q) mempool \<times> ('d, 'p, 'f) mempool_event list) res" where
  "shrink_to_max_size E mp = shrink_loop E mp []"

section \<open>Insertion\<close>

definition new_tx_has_higher_proof_quality_than_conflicts ::
  "('d :: linorder, 'p, 'f, 's, 'c, 'q) mempool_env \<Rightarrow> ('d, 'p, 'f, 's, 'c) transaction
     \<Rightarrow> ('d \<times> ('d, 'p, 'f, 's, 'c) transaction) list \<Rightarrow> 'd \<Rightarrow> bool" where
  "new_tx_has_higher_proof_quality_than_conflicts E new_tx conflicts current_msa_hash =
     (case tx_proof new_tx of
        ProofCollection _ \<Rightarrow>
          list_all (\<lambda>(_, existing_tx). is_proof_collection (tx_proof existing_tx) \<and>
            mutator_set_hash (kernel existing_tx) \<noteq> current_msa_hash \<and>
            mutator_set_hash (kernel new_tx) = current_msa_hash) conflicts
      | SingleProof _ \<Rightarrow>
          list_ex (\<lambda>(conflicting_txkid, conflicting_tx). \<not> is_single_proof (tx_proof conflicting_tx) \<or>
            conflicting_txkid = tx_txid E new_tx \<and> mutator_set_hash (kernel new_tx) = current_msa_hash) conflicts)"

fun replace_conflicts ::
  "('d :: linorder, 'p, 'f, 's, 'c, 'q) mempool_env \<Rightarrow> ('d, 'p, 'f, 's, 'c) transaction
     \<Rightarrow> ('d, 'p, 'f, 's, 'c, 'q) mempool \<Rightarrow> ('d, 'p, 'f) mempool_event list \<Rightarrow> ('d \<times> 's option) list
     \<Rightarrow> (('d, 'p, 'f, 's, 'c, 'q) mempool \<times> ('d, 'p, 'f) mempool_event list) res" where
  "replace_conflicts E new_tx mp events [] = Inr (mp, events)"
| "replace_conflicts E new_tx mp events ((conflicting_txid, single_proof) # rest) =
     (case mempool_remove E mp conflicting_txid of
        (_, None) \<Rightarrow> Inl ExplicitPanic
      | (_, Some (AddTx _)) \<Rightarrow> Inl ExplicitPanic
      | (mp, Some (RemoveTx removed)) \<Rightarrow>
          bind_res
            (case single_proof of
               None \<Rightarrow> Inr (merge_input_cache mp)
             | Some old_proof \<Rightarrow>
                 if is_single_proof (tx_proof new_tx) \<and> have_merge_relationship (field_ops E) (kernel new_tx) removed
                 then cache_insert (hashes E) (merge_input_cache mp) removed old_proof
                 else Inr (merge_input_cache mp))
            (\<lambda>c. replace_conflicts E new_tx (mp\<lparr>merge_input_cache := c\<rparr>) (events @ [RemoveTx removed]) rest))"

definition min_opt :: "rat list \<Rightarrow> rat option" where
  "min_opt xs = (case xs of [] \<Rightarrow> None | x # rest \<Rightarrow> Some (foldl min x rest))"

text \<open>The part of \<^verbatim>\<open>insert\<close> behind the treatment of conflicts.\<close>

definition insert_new ::
  "('d :: linorder, 'p, 'f, 's, 'c, 'q) mempool_env \<Rightarrow> ('d, 'p, 'f, 's, 'c) transaction
     \<Rightarrow> ('d, 'p, 'f, 's, 'c, 'q) mempool \<Rightarrow> ('d, 'p, 'f) mempool_event list
     \<Rightarrow> (('d, 'p, 'f, 's, 'c, 'q) mempool \<times> ('d, 'p, 'f) mempool_event list) res" where
  "insert_new E new_tx mp events =
     (let tx_id = tx_txid E new_tx;
          mp = mp\<lparr>fee_densities := dpq_push (queue_ops E) (fee_densities mp) tx_id (fee_density E new_tx)\<rparr>;
          events = events @ [AddTx (kernel new_tx)];
          replaced = map_of (tx_dictionary mp) tx_id;
          mp = mp\<lparr>tx_dictionary := AList.update tx_id new_tx (tx_dictionary mp)\<rparr>;
          events = (case replaced of Some removed_tx \<Rightarrow> events @ [RemoveTx (kernel removed_tx)] | None \<Rightarrow> events)
      in assert_then (length (tx_dictionary mp) = dpq_len (queue_ops E) (fee_densities mp))
         (bind_res (shrink_to_max_size E mp) (\<lambda>(mp, dropped_bc_size_restriction).
            assert_then (length (tx_dictionary mp) = dpq_len (queue_ops E) (fee_densities mp))
              (Inr (mp, normalize (mast_hash E) (events @ dropped_bc_size_restriction))))))"

definition mempool_insert ::
  "('d :: linorder, 'p, 'f, 's, 'c, 'q) mempool_env \<Rightarrow> ('d, 'p, 'f, 's, 'c, 'q) mempool
     \<Rightarrow> ('d, 'p, 'f, 's, 'c) transaction
     \<Rightarrow> (('d, 'p, 'f, 's, 'c, 'q) mempool \<times> ('d, 'p, 'f) mempool_event list) res" where
  "mempool_insert E mp new_tx =
     (let conflicts = transactions_in_conflict_with mp (kernel new_tx);
          tx_id = tx_txid E new_tx
      in if map_of conflicts tx_id = Some new_tx then Inr (mp, [])
         else let new_tx_has_higher_proof_quality =
                    new_tx_has_higher_proof_quality_than_conflicts E new_tx conflicts (tip_mutator_set_hash mp);
                  min_fee_of_conflicts = min_opt (map (\<lambda>(_, tx). fee_density E tx) conflicts);
                  conflicts = map (\<lambda>(i, tx). (i, as_single_proof (tx_proof tx))) conflicts
              in case min_fee_of_conflicts of
                   None \<Rightarrow> insert_new E new_tx mp []
                 | Some min_fee_of_conflicting_tx \<Rightarrow>
                     let better_fee_density = min_fee_of_conflicting_tx < fee_density E new_tx;
                         should_replace_conflict = new_tx_has_higher_proof_quality \<or> better_fee_density
                     in if should_replace_conflict
                        then bind_res (replace_conflicts E new_tx mp [] conflicts)
                               (\<lambda>(mp, events). insert_new E new_tx mp events)
                        else Inr (mp, []))"

section \<open>Blocks\<close>

definition still_valid :: "u128 set \<Rightarrow> 'd \<Rightarrow> ('d, 'p, 'f, 's, 'c) transaction \<Rightarrow> bool" where
  "still_valid block_bf_set_union transaction_id tx =
     (let transaction_index_sets = set (map index_array (tk_inputs (kernel tx)))
      in \<forall>index_set\<in>transaction_index_sets. \<exists>index\<in>set index_set. index \<notin> block_bf_set_union)"

fun restore_loop ::
  "('d :: linorder, 'p, 'f, 's, 'c, 'q) mempool_env \<Rightarrow> ('d, 'p, 'f, 's, 'c, 'q) mempool
     \<Rightarrow> ('d, 'p, 'f) mempool_event list \<Rightarrow> ('d, 'p, 'f, 's) merge_input_cache_element list
     \<Rightarrow> (('d, 'p, 'f, 's, 'c, 'q) mempool \<times> ('d, 'p, 'f) mempool_event list) res" where
  "restore_loop E mp events [] = Inr (mp, events)"
| "restore_loop E mp events (elem # rest) =
     (let restored_tx = \<lparr>kernel = ce_tx_kernel elem, tx_proof = SingleProof (ce_single_proof elem)\<rparr>
      in bind_res (mempool_insert E mp restored_tx)
           (\<lambda>(mp, inserted). restore_loop E mp (events @ inserted) rest))"

definition update_with_block ::
  "('d :: linorder, 'p, 'f, 's, 'c, 'q) mempool_env \<Rightarrow> ('d, 'p, 'f, 's, 'c, 'q) mempool \<Rightarrow> ('d, 'p, 'f) block_view
     \<Rightarrow> (('d, 'p, 'f, 's, 'c, 'q) mempool \<times> (mempool_error + ('d, 'p, 'f) mempool_event list)) res" where
  "update_with_block E mp new_block =
     (if mempool_is_empty mp \<and> cache_is_empty (merge_input_cache mp)
      then Inr (case set_sync_labels mp new_block of
                  (mp, Inl e) \<Rightarrow> (mp, Inl e)
                | (mp, Inr _) \<Rightarrow> (mp, Inr []))
      else bind_res (if tip_digest mp \<noteq> bv_prev_block_digest new_block then mempool_clear E mp else Inr (mp, []))
        (\<lambda>(mp, events).
         let block_bf_set_union = set (concat (map index_array (tk_inputs (bv_transaction_kernel new_block))))
         in bind_res (retain E (still_valid block_bf_set_union) mp) (\<lambda>(mp, removed).
            bind_res (cache_update_with_block block_bf_set_union (merge_input_cache mp)) (\<lambda>(c, restored_from_cache).
            bind_res (restore_loop E (mp\<lparr>merge_input_cache := c\<rparr>) (events @ removed) restored_from_cache)
              (\<lambda>(mp, events).
            bind_res (shrink_to_max_size E mp) (\<lambda>(mp, removed).
              Inr (case set_sync_labels mp new_block of
                     (mp, Inl e) \<Rightarrow> (mp, Inl e)
                   | (mp, Inr _) \<Rightarrow> (mp, Inr (normalize (mast_hash E) (events @ removed))))))))))"

end
