(* ===== verification/Mempool_Invariant.thy ===== *)
theory Mempool_Invariant
  imports Mempool
begin

text \<open>
  The invariant of the mempool and what its operations keep of it: table and queue agree, every transaction is
  stored under its identifier, no two transactions share an input, the cache is in order; and the events that an
  operation returns describe exactly how the contents changed.
\<close>

section \<open>Events and contents\<close>

definition present :: "'k set \<Rightarrow> 'k \<Rightarrow> int" where
  "present S k = (if k \<in> S then 1 else 0)"

text \<open>Replaying the events on the contents \<open>S\<close> adds only what is absent and removes only what is present, and
  leads to \<open>S'\<close>.\<close>

definition steady ::
  "('d, 'p, 'f) transaction_kernel set \<Rightarrow> ('d, 'p, 'f) mempool_event list \<Rightarrow> ('d, 'p, 'f) transaction_kernel set \<Rightarrow> bool" where
  "steady S es S' \<longleftrightarrow> (\<forall>k. present S' k = present S k + net_effect es k) \<and>
     (\<forall>k. \<forall>n\<le>length es. present S k + net_effect (take n es) k \<in> {0, 1})"

text \<open>The events are the difference of the contents, each kernel once.\<close>

definition describes ::
  "('d, 'p, 'f) transaction_kernel set \<Rightarrow> ('d, 'p, 'f) mempool_event list \<Rightarrow> ('d, 'p, 'f) transaction_kernel set \<Rightarrow> bool" where
  "describes S es S' \<longleftrightarrow> distinct es \<and> (\<forall>k. AddTx k \<in> set es \<longleftrightarrow> k \<in> S' \<and> k \<notin> S) \<and>
     (\<forall>k. RemoveTx k \<in> set es \<longleftrightarrow> k \<in> S \<and> k \<notin> S')"

lemma steady_Nil [simp, intro]: "steady S [] S"
  by (simp add: steady_def present_def)

lemma steady_remove: "k \<in> S \<Longrightarrow> steady S [RemoveTx k] (S - {k})"
  by (auto simp: steady_def present_def take_Cons split: nat.splits)

lemma steady_add: "k \<notin> S \<Longrightarrow> steady S [AddTx k] (insert k S)"
  by (auto simp: steady_def present_def take_Cons split: nat.splits)

lemma steady_append:
  assumes "steady S es S1" "steady S1 es' S2"
  shows "steady S (es @ es') S2"
proof -
  have "present S k + net_effect (take n (es @ es')) k \<in> {0, 1}" if "n \<le> length (es @ es')" for n k
  proof (cases "n \<le> length es")
    case True
    with assms(1) show ?thesis by (simp add: steady_def)
  next
    case False
    then have "present S k + net_effect (take n (es @ es')) k = present S1 k + net_effect (take (n - length es) es') k"
      using assms(1) by (simp add: steady_def)
    moreover have "n - length es \<le> length es'" using that by simp
    ultimately show ?thesis using assms(2) unfolding steady_def by metis
  qed
  with assms show ?thesis by (simp add: steady_def)
qed

lemma steady_describes:
  assumes "inj mast" "steady S es S'"
  shows "describes S (normalize mast es) S'"
proof -
  have "net_effect (take n es) k \<in> {-1, 0, 1}" if "n \<le> length es" for n k
  proof -
    have "present S k + net_effect (take n es) k \<in> {0, 1}" using assms(2) that by (simp add: steady_def)
    then show ?thesis by (auto simp: present_def split: if_splits)
  qed
  then have "alternating es" by (simp add: alternating_def)
  moreover have "net_effect es k = present S' k - present S k" for k using assms(2) by (simp add: steady_def)
  ultimately show ?thesis
    using normalize_net_effect [OF assms(1)] by (auto simp: describes_def present_def split: if_splits)
qed

lemma net_effect_distinct:
  assumes "distinct es" "\<not> (AddTx k \<in> set es \<and> RemoveTx k \<in> set es)"
  shows "net_effect es k = (if AddTx k \<in> set es then 1 else if RemoveTx k \<in> set es then - 1 else 0)"
  using assms
proof (induction es)
  case (Cons e es)
  then show ?case by (cases e) (auto split: if_splits)
qed simp

lemma describes_steady:
  assumes "describes S es S'"
  shows "steady S es S'"
proof -
  have "net_effect (take n es) k = (if AddTx k \<in> set (take n es) then 1 else if RemoveTx k \<in> set (take n es) then - 1 else 0)"
    for n k
    using assms by (intro net_effect_distinct) (auto simp: describes_def dest!: in_set_takeD)
  note prefix = this
  from prefix [of "length es"] have
    "net_effect es k = (if AddTx k \<in> set es then 1 else if RemoveTx k \<in> set es then - 1 else 0)" for k
    by simp
  moreover have "present S k + net_effect (take n es) k \<in> {0, 1}" for n k
    unfolding prefix using assms by (auto simp: describes_def present_def dest!: in_set_takeD)
  ultimately show ?thesis
    using assms by (auto simp: steady_def describes_def present_def)
qed

lemma normalize_cancel: "normalize mast (AddTx k # RemoveTx k # es) = normalize mast es"
  by (simp add: normalize_def AList.delete_eq)

section \<open>The invariant\<close>

abbreviation lookup_tx ::
  "('d, 'p, 'f, 's, 'c, 'q) mempool \<Rightarrow> 'd \<Rightarrow> ('d, 'p, 'f, 's, 'c) transaction option" where
  "lookup_tx mp \<equiv> map_of (tx_dictionary mp)"

definition pool_kernels :: "('d, 'p, 'f, 's, 'c, 'q) mempool \<Rightarrow> ('d, 'p, 'f) transaction_kernel set" where
  "pool_kernels mp = kernel ` ran (lookup_tx mp)"

text \<open>Two kernels that spend a common input.\<close>

definition in_conflict :: "('d, 'p, 'f) transaction_kernel \<Rightarrow> ('d, 'p, 'f) transaction_kernel \<Rightarrow> bool" where
  "in_conflict k k' \<longleftrightarrow> set (map index_array (tk_inputs k)) \<inter> set (map index_array (tk_inputs k')) \<noteq> {}"

definition pool_inv ::
  "('d :: linorder, 'p, 'f, 's, 'c, 'q) mempool_env \<Rightarrow> ('q \<Rightarrow> 'd \<Rightarrow> rat option) \<Rightarrow> ('d, 'p, 'f, 's, 'c, 'q) mempool \<Rightarrow> bool" where
  "pool_inv E prio mp \<longleftrightarrow>
     distinct (map fst (tx_dictionary mp)) \<and>
     (\<forall>i tx. lookup_tx mp i = Some tx \<longrightarrow> i = tx_txid E tx) \<and>
     prio (fee_densities mp) = (\<lambda>i. map_option (fee_density E) (lookup_tx mp i)) \<and>
     (\<forall>i tx j tx'. lookup_tx mp i = Some tx \<longrightarrow> lookup_tx mp j = Some tx' \<longrightarrow> i \<noteq> j \<longrightarrow>
        \<not> in_conflict (kernel tx) (kernel tx')) \<and>
     cache_inv (hashes E) (merge_input_cache mp)"

lemma pool_invD:
  assumes "pool_inv E prio mp"
  shows "distinct (map fst (tx_dictionary mp))"
    "lookup_tx mp i = Some tx \<Longrightarrow> txid (hashes E) (kernel tx) = i"
    "prio (fee_densities mp) i = map_option (fee_density E) (lookup_tx mp i)"
    "lookup_tx mp i = Some tx \<Longrightarrow> lookup_tx mp j = Some tx' \<Longrightarrow> i \<noteq> j \<Longrightarrow> \<not> in_conflict (kernel tx) (kernel tx')"
    "cache_inv (hashes E) (merge_input_cache mp)"
  using assms unfolding pool_inv_def by simp_all

lemma pool_invI:
  assumes "distinct (map fst (tx_dictionary mp))"
    "\<And>i tx. lookup_tx mp i = Some tx \<Longrightarrow> txid (hashes E) (kernel tx) = i"
    "\<And>i. prio (fee_densities mp) i = map_option (fee_density E) (lookup_tx mp i)"
    "\<And>i tx j tx'. lookup_tx mp i = Some tx \<Longrightarrow> lookup_tx mp j = Some tx' \<Longrightarrow> i \<noteq> j \<Longrightarrow>
       \<not> in_conflict (kernel tx) (kernel tx')"
    "cache_inv (hashes E) (merge_input_cache mp)"
  shows "pool_inv E prio mp"
  unfolding pool_inv_def using assms by (auto simp del: map_of_eq_Some_iff)

lemma pool_kernels_iff: "k \<in> pool_kernels mp \<longleftrightarrow> (\<exists>i tx. lookup_tx mp i = Some tx \<and> kernel tx = k)"
  by (auto simp: pool_kernels_def ran_def simp del: map_of_eq_Some_iff)

lemma pool_kernel_key:
  assumes "pool_inv E prio mp"
  shows "k \<in> pool_kernels mp \<longleftrightarrow> (\<exists>tx. lookup_tx mp (txid (hashes E) k) = Some tx \<and> kernel tx = k)"
  using pool_invD(2) [OF assms] unfolding pool_kernels_iff by blast

text \<open>What the operations on transactions leave alone.\<close>

definition same_frame :: "('d, 'p, 'f, 's, 'c, 'q) mempool \<Rightarrow> ('d, 'p, 'f, 's, 'c, 'q) mempool \<Rightarrow> bool" where
  "same_frame mp mp' \<longleftrightarrow> tip_digest mp' = tip_digest mp \<and> tip_mutator_set_hash mp' = tip_mutator_set_hash mp \<and>
     max_total_size mp' = max_total_size mp"

lemma same_frame_refl [simp]: "same_frame mp mp"
  by (simp add: same_frame_def)

lemma same_frame_trans: "same_frame a b \<Longrightarrow> same_frame b c \<Longrightarrow> same_frame a c"
  by (simp add: same_frame_def)

locale mempool_laws = dpq_laws "queue_ops E" prio
  for E :: "('d :: linorder, 'p, 'f, 's, 'c, 'q) mempool_env" and prio +
  assumes mast_inj: "inj (mast_hash E)"
    and empty_cache_small: "cache_dictionary (merge_input_cache mp) = [] \<Longrightarrow>
      cache_get_size E (merge_input_cache mp) * MAX_SIZE_OF_CACHE_FACTOR \<le> mempool_get_size E mp"
begin

lemma pool_len:
  assumes "pool_inv E prio mp"
  shows "length (tx_dictionary mp) = dpq_len (queue_ops E) (fee_densities mp)"
proof -
  have "dom (map_of (tx_dictionary mp)) = dom (prio (fee_densities mp))"
    using assms by (auto simp: pool_inv_def dom_def)
  then have "fst ` set (tx_dictionary mp) = fst ` set (dpq_iter (queue_ops E) (fee_densities mp))"
    by (simp flip: iter_prio add: dom_map_of_conv_image_fst)
  then show ?thesis
    using assms iter_distinct [of "fee_densities mp"] unfolding pool_inv_def len_iter
    by (metis distinct_card length_map set_map)
qed

text \<open>Taking out the transaction stored under \<open>i\<close>, however the queue does it.\<close>

lemma drop_inv:
  assumes inv: "pool_inv E prio mp" and i: "lookup_tx mp i = Some tx" and q: "prio q = (prio (fee_densities mp))(i := None)"
    and mp': "mp' = mp\<lparr>tx_dictionary := AList.delete i (tx_dictionary mp), fee_densities := q\<rparr>"
  shows "pool_inv E prio mp'" "lookup_tx mp' = (lookup_tx mp)(i := None)"
    "steady (pool_kernels mp) [RemoveTx (kernel tx)] (pool_kernels mp')"
proof -
  show look: "lookup_tx mp' = (lookup_tx mp)(i := None)" by (simp add: mp' delete_conv')
  show inv': "pool_inv E prio mp'"
  proof (rule pool_invI)
    show "distinct (map fst (tx_dictionary mp'))" using pool_invD(1) [OF inv] by (simp add: mp' distinct_delete)
    show "prio (fee_densities mp') j = map_option (fee_density E) (lookup_tx mp' j)" for j
      unfolding look using pool_invD(3) [OF inv] by (simp add: mp' q)
    show "cache_inv (hashes E) (merge_input_cache mp')" using pool_invD(5) [OF inv] by (simp add: mp')
    fix j u assume u: "lookup_tx mp' j = Some u"
    then have u': "lookup_tx mp j = Some u" by (simp add: look split: if_splits)
    then show "tx_txid E u = j" by (rule pool_invD(2) [OF inv])
    fix j' u' assume "lookup_tx mp' j' = Some u'" "j \<noteq> j'"
    moreover from this(1) have "lookup_tx mp j' = Some u'" by (simp add: look split: if_splits)
    ultimately show "\<not> in_conflict (kernel u) (kernel u')" using pool_invD(4) [OF inv u'] by blast
  qed
  have key: "tx_txid E tx = i" by (rule pool_invD(2) [OF inv i])
  have "k \<in> pool_kernels mp' \<longleftrightarrow> k \<in> pool_kernels mp - {kernel tx}" for k
  proof (cases "txid (hashes E) k = i")
    case True
    with i show ?thesis unfolding Diff_iff pool_kernel_key [OF inv'] pool_kernel_key [OF inv] look by simp
  next
    case False
    with key have "k \<noteq> kernel tx" by blast
    with False show ?thesis unfolding Diff_iff pool_kernel_key [OF inv'] pool_kernel_key [OF inv] look by simp
  qed
  then have "pool_kernels mp' = pool_kernels mp - {kernel tx}" by blast
  moreover have "kernel tx \<in> pool_kernels mp" using i pool_kernels_iff by blast
  ultimately show "steady (pool_kernels mp) [RemoveTx (kernel tx)] (pool_kernels mp')" using steady_remove by simp
qed

lemma remove_inv:
  assumes "pool_inv E prio mp" "lookup_tx mp i = Some tx"
  shows "\<exists>mp'. mempool_remove E mp i = (mp', Some (RemoveTx (kernel tx))) \<and> pool_inv E prio mp' \<and>
    lookup_tx mp' = (lookup_tx mp)(i := None) \<and> steady (pool_kernels mp) [RemoveTx (kernel tx)] (pool_kernels mp') \<and>
    merge_input_cache mp' = merge_input_cache mp \<and> same_frame mp mp'"
  using drop_inv [OF assms prio_remove refl] assms(2)
  by (simp add: mempool_remove_def same_frame_def del: map_of_eq_Some_iff)

lemma find_victims_ok:
  "(\<forall>x\<in>set xs. lookup_tx mp (fst x) \<noteq> None) \<Longrightarrow>
     find_victims P mp xs = Inr (filter (\<lambda>i. \<not> P i (the (lookup_tx mp i))) (map fst xs))"
  by (induction P mp xs rule: find_victims.induct)
     (auto simp: mempool_get_def bind_res_def simp del: map_of_eq_Some_iff)

lemma remove_victims_ok:
  assumes "pool_inv E prio mp" "distinct vs" "\<forall>i\<in>set vs. lookup_tx mp i \<noteq> None"
  shows "\<exists>mp' es. remove_victims E mp vs = (mp', es) \<and> pool_inv E prio mp' \<and>
    lookup_tx mp' = (lookup_tx mp) |` (- set vs) \<and> steady (pool_kernels mp) es (pool_kernels mp') \<and>
    merge_input_cache mp' = merge_input_cache mp \<and> same_frame mp mp'"
  using assms
proof (induction vs arbitrary: mp)
  case (Cons i vs)
  then obtain tx where "lookup_tx mp i = Some tx" by auto
  from remove_inv [OF Cons.prems(1) this] obtain mp1 where
    mp1: "mempool_remove E mp i = (mp1, Some (RemoveTx (kernel tx)))" "pool_inv E prio mp1"
      "lookup_tx mp1 = (lookup_tx mp)(i := None)" "steady (pool_kernels mp) [RemoveTx (kernel tx)] (pool_kernels mp1)"
      "merge_input_cache mp1 = merge_input_cache mp" "same_frame mp mp1"
    by blast
  have "\<forall>j\<in>set vs. lookup_tx mp1 j \<noteq> None" using Cons.prems(2,3) by (auto simp: mp1(3))
  with Cons.IH [OF mp1(2)] Cons.prems(2) obtain mp' es where
    mp': "remove_victims E mp1 vs = (mp', es)" "pool_inv E prio mp'" "lookup_tx mp' = (lookup_tx mp1) |` (- set vs)"
      "steady (pool_kernels mp1) es (pool_kernels mp')" "merge_input_cache mp' = merge_input_cache mp1" "same_frame mp1 mp'"
    by auto
  have "lookup_tx mp' = (lookup_tx mp) |` (- set (i # vs))" by (auto simp: mp'(3) mp1(3) restrict_map_def)
  with mp' mp1 steady_append [OF mp1(4) mp'(4)] show ?case
    by (auto intro: same_frame_trans [OF mp1(6) mp'(6)])
qed auto

lemma retain_ok:
  assumes inv: "pool_inv E prio mp"
  shows "\<exists>mp' es. retain E P mp = Inr (mp', es) \<and> pool_inv E prio mp' \<and>
    lookup_tx mp' = (\<lambda>i. case lookup_tx mp i of None \<Rightarrow> None | Some tx \<Rightarrow> if P i tx then Some tx else None) \<and>
    steady (pool_kernels mp) es (pool_kernels mp') \<and> merge_input_cache mp' = merge_input_cache mp \<and> same_frame mp mp'"
proof -
  let ?xs = "dpq_iter (queue_ops E) (fee_densities mp)"
  let ?vs = "filter (\<lambda>i. \<not> P i (the (lookup_tx mp i))) (map fst ?xs)"
  have keys: "i \<in> fst ` set ?xs \<longleftrightarrow> lookup_tx mp i \<noteq> None" for i
  proof -
    have "i \<in> fst ` set ?xs \<longleftrightarrow> prio (fee_densities mp) i \<noteq> None" by (simp flip: iter_prio add: map_of_eq_None_iff)
    then show ?thesis by (simp add: pool_invD(3) [OF inv] del: map_of_eq_Some_iff)
  qed
  then have "\<forall>x\<in>set ?xs. lookup_tx mp (fst x) \<noteq> None" by blast
  note victims = find_victims_ok [OF this, of P]
  have "distinct ?vs" "\<forall>i\<in>set ?vs. lookup_tx mp i \<noteq> None" using iter_distinct keys by auto
  from remove_victims_ok [OF inv this] obtain mp' es where
    r: "remove_victims E mp ?vs = (mp', es)" "pool_inv E prio mp'" "lookup_tx mp' = (lookup_tx mp) |` (- set ?vs)"
      "steady (pool_kernels mp) es (pool_kernels mp')" "merge_input_cache mp' = merge_input_cache mp" "same_frame mp mp'"
    by blast
  have "lookup_tx mp' i = (case lookup_tx mp i of None \<Rightarrow> None | Some tx \<Rightarrow> if P i tx then Some tx else None)" for i
  proof (cases "lookup_tx mp i")
    case (Some tx)
    then have "i \<in> fst ` set ?xs" using keys by simp
    with Some show ?thesis unfolding r(3) by (auto simp: restrict_map_def simp del: map_of_eq_Some_iff)
  qed (simp add: r(3) restrict_map_def)
  with r victims show ?thesis by (auto simp: retain_def bind_res_def fun_eq_iff)
qed

text \<open>Shrinking: it always returns, keeps the invariant, ends below the limit or with an empty table, and drops
  the transactions of the lowest fee densities.\<close>

definition shrunk ::
  "('d, 'p, 'f, 's, 'c, 'q) mempool \<Rightarrow> ('d, 'p, 'f) mempool_event list \<Rightarrow> ('d, 'p, 'f, 's, 'c, 'q) mempool \<Rightarrow> bool" where
  "shrunk mp es mp' \<longleftrightarrow> pool_inv E prio mp' \<and> lookup_tx mp' \<subseteq>\<^sub>m lookup_tx mp \<and>
     steady (pool_kernels mp) es (pool_kernels mp') \<and> same_frame mp mp' \<and>
     (mempool_get_size E mp' \<le> max_total_size mp \<or> tx_dictionary mp' = []) \<and>
     (\<forall>i tx j tx'. lookup_tx mp i = Some tx \<longrightarrow> lookup_tx mp' i = None \<longrightarrow> lookup_tx mp' j = Some tx' \<longrightarrow>
        fee_density E tx \<le> fee_density E tx')"

lemma pop_min_ok:
  assumes inv: "pool_inv E prio mp"
  shows "pop_min E mp = (mp, None) \<and> tx_dictionary mp = [] \<or>
    (\<exists>mp' i tx. pop_min E mp = (mp', Some (RemoveTx (kernel tx), fee_density E tx)) \<and> lookup_tx mp i = Some tx \<and>
       pool_inv E prio mp' \<and> lookup_tx mp' = (lookup_tx mp)(i := None) \<and>
       steady (pool_kernels mp) [RemoveTx (kernel tx)] (pool_kernels mp') \<and> same_frame mp mp' \<and>
       (\<forall>j tx'. lookup_tx mp j = Some tx' \<longrightarrow> fee_density E tx \<le> fee_density E tx'))"
proof (cases "dpq_pop_min (queue_ops E) (fee_densities mp)")
  case None
  then have "prio (fee_densities mp) i = None" for i using pop_min_None by simp
  then have "lookup_tx mp i = None" for i by (simp add: pool_invD(3) [OF inv])
  then have "tx_dictionary mp = []" by (metis list.set_intros(1) map_of_eq_None_iff imageI neq_Nil_conv)
  with None show ?thesis by (simp add: pop_min_def)
next
  case (Some x)
  then obtain i p q where x: "dpq_pop_min (queue_ops E) (fee_densities mp) = Some (i, p, q)" by (cases x) auto
  note min = pop_min_Some [OF x]
  from min obtain tx where tx: "lookup_tx mp i = Some tx" "p = fee_density E tx"
    using pool_invD(3) [OF inv, of i] by (auto simp del: map_of_eq_Some_iff)
  let ?mp = "mp\<lparr>tx_dictionary := AList.delete i (tx_dictionary mp), fee_densities := q\<rparr>"
  have q: "prio q = (prio (fee_densities mp))(i := None)" using min by blast
  have "pop_min E mp = (?mp, Some (RemoveTx (kernel tx), fee_density E tx))"
    using x tx by (simp add: pop_min_def Let_def del: map_of_eq_Some_iff)
  moreover have "fee_density E tx \<le> fee_density E tx'" if "lookup_tx mp j = Some tx'" for j tx'
    using min pool_invD(3) [OF inv, of j] that tx(2) by (auto simp del: map_of_eq_Some_iff)
  moreover have "same_frame mp ?mp" by (simp add: same_frame_def)
  ultimately show ?thesis using drop_inv [OF inv tx(1) q refl] tx(1) by blast
qed

lemma cache_only:
  assumes "pool_inv E prio mp" "cache_inv (hashes E) c"
  shows "pool_inv E prio (mp\<lparr>merge_input_cache := c\<rparr>)" "pool_kernels (mp\<lparr>merge_input_cache := c\<rparr>) = pool_kernels mp"
  using assms by (simp_all add: pool_inv_def pool_kernels_def)

lemma shrunk_refl:
  "pool_inv E prio mp \<Longrightarrow> mempool_get_size E mp \<le> max_total_size mp \<or> tx_dictionary mp = [] \<Longrightarrow> shrunk mp [] mp"
  by (auto simp: shrunk_def simp del: map_of_eq_Some_iff)

lemma shrunk_step:
  assumes s: "shrunk mp1 es mp'" and i: "lookup_tx mp i = Some tx" and mp1: "lookup_tx mp1 = (lookup_tx mp)(i := None)"
    and st: "steady (pool_kernels mp) [RemoveTx (kernel tx)] (pool_kernels mp1)" and fr: "same_frame mp mp1"
    and le: "\<And>j tx'. lookup_tx mp j = Some tx' \<Longrightarrow> fee_density E tx \<le> fee_density E tx'"
  shows "shrunk mp (RemoveTx (kernel tx) # es) mp'"
proof -
  have sub: "lookup_tx mp' \<subseteq>\<^sub>m lookup_tx mp1" "lookup_tx mp1 \<subseteq>\<^sub>m lookup_tx mp"
    using s by (auto simp: shrunk_def mp1 map_le_def split: if_splits)
  have old: "lookup_tx mp j = Some t" if "lookup_tx mp' j = Some t" for j t
    using that map_le_trans [OF sub] by (metis domI map_le_def)
  have "fee_density E t \<le> fee_density E t'"
    if "lookup_tx mp j = Some t" "lookup_tx mp' j = None" "lookup_tx mp' j' = Some t'" for j t j' t'
  proof (cases "j = i")
    case True
    with that i le old show ?thesis by (metis option.inject)
  next
    case False
    then have "lookup_tx mp1 j = Some t" using that(1) by (simp add: mp1 del: map_of_eq_Some_iff)
    with that(2,3) s show ?thesis unfolding shrunk_def by blast
  qed
  moreover have "steady (pool_kernels mp) (RemoveTx (kernel tx) # es) (pool_kernels mp')"
    using s steady_append [OF st, of es "pool_kernels mp'"] by (simp add: shrunk_def)
  moreover have "pool_inv E prio mp'" "same_frame mp mp'" "mempool_get_size E mp' \<le> max_total_size mp \<or> tx_dictionary mp' = []"
    using s fr same_frame_trans [OF fr, of mp'] by (auto simp: shrunk_def same_frame_def simp del: map_of_eq_Some_iff)
  ultimately show ?thesis using map_le_trans [OF sub] unfolding shrunk_def by blast
qed

lemma shrunk_cache:
  "shrunk (mp\<lparr>merge_input_cache := c\<rparr>) es mp' \<Longrightarrow> shrunk mp es mp'"
  by (auto simp: shrunk_def same_frame_def pool_kernels_def simp del: map_of_eq_Some_iff)

lemma shrink_loop_ok:
  assumes "pool_inv E prio mp"
  shows "\<exists>mp' es'. shrink_loop E mp es = Inr (mp', es @ es') \<and> shrunk mp es' mp'"
  using assms
proof (induction "pool_elements mp" arbitrary: mp es rule: less_induct)
  case less
  note inv = less.prems
  show ?case
  proof (cases "max_total_size mp < mempool_get_size E mp")
    case False
    then show ?thesis using shrunk_refl [OF inv] by (auto simp: shrink_loop.simps [of E mp])
  next
    case big: True
    show ?thesis
    proof (cases "mempool_get_size E mp < cache_get_size E (merge_input_cache mp) * MAX_SIZE_OF_CACHE_FACTOR")
      case dom: True
      then have "cache_dictionary (merge_input_cache mp) \<noteq> []" using empty_cache_small [of mp] by fastforce
      then obtain i rest where "insertion_order (merge_input_cache mp) = i # rest"
        using cache_inv_length [OF pool_invD(5) [OF inv]] by (metis length_0_conv neq_Nil_conv)
      from cache_pop_oldest_ok [OF pool_invD(5) [OF inv] this] obtain c e where
        c: "cache_pop_oldest (merge_input_cache mp) = Inr (c, Some e)" "cache_inv (hashes E) c"
        by blast
      from less.hyps [OF pop_oldest_elements [OF c(1)] cache_only(1) [OF inv c(2)], of es] obtain mp' es' where
        r: "shrink_loop E (mp\<lparr>merge_input_cache := c\<rparr>) es = Inr (mp', es @ es')" "shrunk (mp\<lparr>merge_input_cache := c\<rparr>) es' mp'"
        by blast
      then have "shrink_loop E mp es = Inr (mp', es @ es')"
        using c(1) big dom by (subst shrink_loop.simps) simp
      with shrunk_cache [OF r(2)] show ?thesis by blast
    next
      case False
      from pop_min_ok [OF inv] show ?thesis
      proof (elim disjE exE conjE)
        assume "pop_min E mp = (mp, None)" "tx_dictionary mp = []"
        moreover from this(1) have "shrink_loop E mp es = Inr (mp, es @ [])"
          using big False by (subst shrink_loop.simps) simp
        ultimately show ?thesis using shrunk_refl [OF inv] by blast
      next
        fix mp1 i tx
        assume a: "pop_min E mp = (mp1, Some (RemoveTx (kernel tx), fee_density E tx))" "lookup_tx mp i = Some tx"
          "pool_inv E prio mp1" "lookup_tx mp1 = (lookup_tx mp)(i := None)"
          "steady (pool_kernels mp) [RemoveTx (kernel tx)] (pool_kernels mp1)" "same_frame mp mp1"
          "\<forall>j tx'. lookup_tx mp j = Some tx' \<longrightarrow> fee_density E tx \<le> fee_density E tx'"
        from less.hyps [OF pop_min_elements [OF a(1)] a(3), of "es @ [RemoveTx (kernel tx)]"] obtain mp' es' where
          r: "shrink_loop E mp1 (es @ [RemoveTx (kernel tx)]) = Inr (mp', es @ RemoveTx (kernel tx) # es')" "shrunk mp1 es' mp'"
          by auto
        have "shrink_loop E mp es = Inr (mp', es @ RemoveTx (kernel tx) # es')"
          using r(1) a(1) big False by (simp add: shrink_loop.simps [of E mp])
        with shrunk_step [OF r(2) a(2,4-6)] a(7) show ?thesis by blast
      qed
    qed
  qed
qed

lemma shrink_ok:
  "pool_inv E prio mp \<Longrightarrow> \<exists>mp' es. shrink_to_max_size E mp = Inr (mp', es) \<and> shrunk mp es mp'"
  using shrink_loop_ok [of mp "[]"] by (simp add: shrink_to_max_size_def)

end

end
