(* ===== verification/Mempool_Properties.thy ===== *)
theory Mempool_Properties
  imports Mempool_Invariant "HOL-Library.Countable" "HOL-Library.Sublist"
begin

text \<open>
  The operations of the mempool on transactions and blocks: they always return, keep the invariant, and report
  the change of the contents; what block composition selects; what a block leaves in the mempool.
\<close>

section \<open>Insertion\<close>

lemma in_conflict_sym: "in_conflict k k' \<longleftrightarrow> in_conflict k' k"
  by (simp add: in_conflict_def Int_commute)

lemma conflicts_filter:
  "transactions_in_conflict_with mp k = filter (\<lambda>(_, tx). in_conflict (kernel tx) k) (tx_dictionary mp)"
  by (auto simp: transactions_in_conflict_with_def in_conflict_def list_ex_iff Let_def intro!: filter_cong)

lemma image_fst_iff: "i \<in> fst ` A \<longleftrightarrow> (\<exists>x. (i, x) \<in> A)"
  by force

text \<open>When the conflicts are replaced and the new transaction goes in.\<close>

definition goes_in ::
  "('d :: linorder, 'p, 'f, 's, 'c, 'q) mempool_env \<Rightarrow> ('d, 'p, 'f, 's, 'c, 'q) mempool \<Rightarrow> ('d, 'p, 'f, 's, 'c) transaction \<Rightarrow> bool" where
  "goes_in E mp new_tx \<longleftrightarrow>
     (let conflicts = transactions_in_conflict_with mp (kernel new_tx)
      in map_of conflicts (tx_txid E new_tx) \<noteq> Some new_tx \<and>
         (conflicts = [] \<or>
          new_tx_has_higher_proof_quality_than_conflicts E new_tx conflicts (tip_mutator_set_hash mp) \<or>
          (case min_opt (map (\<lambda>(_, tx). fee_density E tx) conflicts) of
             None \<Rightarrow> False | Some m \<Rightarrow> m < fee_density E new_tx)))"

context mempool_laws
begin

lemma replace_conflicts_ok:
  assumes "pool_inv E prio mp" "distinct (map fst cs)" "\<forall>x\<in>set cs. lookup_tx mp (fst x) \<noteq> None"
  shows "\<exists>mp' es'. replace_conflicts E new_tx mp es cs = Inr (mp', es @ es') \<and> pool_inv E prio mp' \<and>
    lookup_tx mp' = (lookup_tx mp) |` (- (fst ` set cs)) \<and> steady (pool_kernels mp) es' (pool_kernels mp') \<and> same_frame mp mp'"
  using assms
proof (induction cs arbitrary: mp es)
  case (Cons x cs)
  obtain i sp where x: "x = (i, sp)" by force
  with Cons.prems obtain tx where i: "lookup_tx mp i = Some tx" by auto
  from remove_inv [OF Cons.prems(1) i] obtain mp1 where
    mp1: "mempool_remove E mp i = (mp1, Some (RemoveTx (kernel tx)))" "pool_inv E prio mp1"
      "lookup_tx mp1 = (lookup_tx mp)(i := None)" "steady (pool_kernels mp) [RemoveTx (kernel tx)] (pool_kernels mp1)"
      "same_frame mp mp1"
    by blast
  let ?ins = "case sp of None \<Rightarrow> Inr (merge_input_cache mp1) | Some old_proof \<Rightarrow>
      if is_single_proof (tx_proof new_tx) \<and> have_merge_relationship (field_ops E) (kernel new_tx) (kernel tx)
      then cache_insert (hashes E) (merge_input_cache mp1) (kernel tx) old_proof else Inr (merge_input_cache mp1)"
  have "\<exists>c. ?ins = Inr c \<and> cache_inv (hashes E) c"
  proof (cases "sp = None \<or> \<not> (is_single_proof (tx_proof new_tx) \<and>
      have_merge_relationship (field_ops E) (kernel new_tx) (kernel tx))")
    case True
    then have "?ins = Inr (merge_input_cache mp1)" by (cases sp) auto
    with pool_invD(5) [OF mp1(2)] show ?thesis by blast
  next
    case False
    then obtain p where "?ins = cache_insert (hashes E) (merge_input_cache mp1) (kernel tx) p" by auto
    with cache_insert_ok [OF pool_invD(5) [OF mp1(2)]] show ?thesis by metis
  qed
  then obtain c where c: "?ins = Inr c" "cache_inv (hashes E) c" by blast
  let ?mp2 = "mp1\<lparr>merge_input_cache := c\<rparr>"
  note inv2 = cache_only [OF mp1(2) c(2)]
  have "\<forall>x\<in>set cs. lookup_tx ?mp2 (fst x) \<noteq> None" using Cons.prems(2,3) x by (auto simp: mp1(3))
  with Cons.IH [OF inv2(1), of "es @ [RemoveTx (kernel tx)]"] Cons.prems(2) obtain mp' es' where
    r: "replace_conflicts E new_tx ?mp2 (es @ [RemoveTx (kernel tx)]) cs = Inr (mp', es @ RemoveTx (kernel tx) # es')"
      "pool_inv E prio mp'" "lookup_tx mp' = (lookup_tx ?mp2) |` (- (fst ` set cs))"
      "steady (pool_kernels mp1) es' (pool_kernels mp')" "same_frame ?mp2 mp'"
    by (auto simp: inv2(2))
  have "lookup_tx mp' = (lookup_tx mp) |` (- (fst ` set (x # cs)))" by (auto simp: r(3) mp1(3) x restrict_map_def)
  moreover have "replace_conflicts E new_tx mp es (x # cs) = Inr (mp', es @ RemoveTx (kernel tx) # es')"
    using r(1) c(1) mp1(1) by (simp add: x bind_res_def)
  moreover have "same_frame mp mp'" using mp1(5) r(5) by (simp add: same_frame_def)
  ultimately show ?case using r(2) steady_append [OF mp1(4) r(4)] by auto
qed auto

text \<open>The table and the queue with a new transaction, before the pool is shrunk.\<close>

lemma add_inv:
  assumes inv: "pool_inv E prio mp"
    and free: "\<And>tx. tx \<in> ran (lookup_tx mp) \<Longrightarrow> \<not> in_conflict (kernel tx) (kernel new_tx)"
    and mp1: "mp1 = mp\<lparr>fee_densities := dpq_push (queue_ops E) (fee_densities mp) (tx_txid E new_tx) (fee_density E new_tx),
      tx_dictionary := AList.update (tx_txid E new_tx) new_tx (tx_dictionary mp)\<rparr>"
  shows "pool_inv E prio mp1" "lookup_tx mp1 = (lookup_tx mp)(tx_txid E new_tx \<mapsto> new_tx)"
proof -
  show look: "lookup_tx mp1 = (lookup_tx mp)(tx_txid E new_tx \<mapsto> new_tx)" by (simp add: mp1 update_conv')
  show "pool_inv E prio mp1"
  proof (rule pool_invI)
    show "distinct (map fst (tx_dictionary mp1))" using pool_invD(1) [OF inv] by (simp add: mp1 distinct_update)
    show "prio (fee_densities mp1) j = map_option (fee_density E) (lookup_tx mp1 j)" for j
      unfolding look using pool_invD(3) [OF inv] by (simp add: mp1 prio_push)
    show "cache_inv (hashes E) (merge_input_cache mp1)" using pool_invD(5) [OF inv] by (simp add: mp1)
    show "tx_txid E tx = j" if "lookup_tx mp1 j = Some tx" for j tx
      using that pool_invD(2) [OF inv] by (auto simp: look simp del: map_of_eq_Some_iff split: if_splits)
    show "\<not> in_conflict (kernel tx) (kernel tx')"
      if "lookup_tx mp1 j = Some tx" "lookup_tx mp1 j' = Some tx'" "j \<noteq> j'" for j tx j' tx'
      using that pool_invD(4) [OF inv, of j tx j' tx'] free [of tx] free [of tx'] in_conflict_sym [of "kernel tx" "kernel tx'"]
      by (auto simp: look ranI simp del: map_of_eq_Some_iff split: if_splits)
  qed
qed

lemma insert_new_ok:
  assumes inv: "pool_inv E prio mp"
    and free: "\<And>tx. tx \<in> ran (lookup_tx mp) \<Longrightarrow> \<not> in_conflict (kernel tx) (kernel new_tx)"
    and st: "steady S es (pool_kernels mp)" and fresh: "kernel new_tx \<in> pool_kernels mp \<Longrightarrow> es = []"
  shows "\<exists>mp' es' mp1 es1. insert_new E new_tx mp es = Inr (mp', es') \<and> describes S es' (pool_kernels mp') \<and>
    lookup_tx mp1 = (lookup_tx mp)(tx_txid E new_tx \<mapsto> new_tx) \<and> same_frame mp mp1 \<and> shrunk mp1 es1 mp'"
proof -
  let ?i = "tx_txid E new_tx" and ?k = "kernel new_tx"
  define mp1 where "mp1 = mp\<lparr>fee_densities := dpq_push (queue_ops E) (fee_densities mp) ?i (fee_density E new_tx),
      tx_dictionary := AList.update ?i new_tx (tx_dictionary mp)\<rparr>"
  have mp1: "pool_inv E prio mp1" "lookup_tx mp1 = (lookup_tx mp)(?i \<mapsto> new_tx)"
    using add_inv [OF inv _ mp1_def] free by blast+
  from shrink_ok [OF mp1(1)] obtain mp' es1 where sh: "shrink_to_max_size E mp1 = Inr (mp', es1)" "shrunk mp1 es1 mp'" by blast
  let ?ev = "case lookup_tx mp ?i of Some r \<Rightarrow> [AddTx ?k, RemoveTx (kernel r)] | None \<Rightarrow> [AddTx ?k]"
  have res: "insert_new E new_tx mp es = Inr (mp', normalize (mast_hash E) (es @ ?ev @ es1))"
    using sh pool_len [OF mp1(1)] pool_len [of mp'] unfolding mp1_def
    by (auto simp: insert_new_def Let_def bind_res_def assert_then_def shrunk_def split: option.splits)
  have key: "k \<in> pool_kernels mp1 \<longleftrightarrow> (if txid (hashes E) k = ?i then k = ?k else k \<in> pool_kernels mp)" for k
    unfolding pool_kernel_key [OF mp1(1)] pool_kernel_key [OF inv] mp1(2) by auto
  have slot: "k \<in> pool_kernels mp \<longleftrightarrow> (case lookup_tx mp ?i of None \<Rightarrow> False | Some r \<Rightarrow> kernel r = k)"
    if "txid (hashes E) k = ?i" for k
    unfolding pool_kernel_key [OF inv] that by (simp split: option.splits)
  have st1: "steady (pool_kernels mp1) es1 (pool_kernels mp')" using sh(2) by (simp add: shrunk_def)
  have "describes S (normalize (mast_hash E) (es @ ?ev @ es1)) (pool_kernels mp')"
  proof (cases "?k \<in> pool_kernels mp")
    case True
    then obtain r where r: "lookup_tx mp ?i = Some r" "kernel r = ?k" using pool_kernel_key [OF inv] by auto
    have "k \<in> pool_kernels mp1 \<longleftrightarrow> k \<in> pool_kernels mp" for k
      using r slot [of k] unfolding key by (simp del: map_of_eq_Some_iff) (metis (no_types))
    then have "pool_kernels mp1 = pool_kernels mp" by blast
    with st st1 fresh [OF True] have "steady S es1 (pool_kernels mp')" using steady_append by fastforce
    moreover have "normalize (mast_hash E) (es @ ?ev @ es1) = normalize (mast_hash E) es1"
      using r fresh [OF True] by (simp add: normalize_cancel del: map_of_eq_Some_iff)
    ultimately show ?thesis using steady_describes [OF mast_inj] by simp
  next
    case False
    have "steady (pool_kernels mp) ?ev (pool_kernels mp1)"
    proof (cases "lookup_tx mp ?i")
      case None
      have "k \<in> pool_kernels mp1 \<longleftrightarrow> k \<in> insert ?k (pool_kernels mp)" for k
        using None slot [of k] unfolding key by auto
      then have "pool_kernels mp1 = insert ?k (pool_kernels mp)" by blast
      with None steady_add [OF False] show ?thesis by simp
    next
      case (Some r)
      have r: "kernel r \<in> pool_kernels mp" "kernel r \<noteq> ?k" using Some False pool_kernels_iff by blast+
      have rk: "txid (hashes E) (kernel r) = ?i" by (rule pool_invD(2) [OF inv Some])
      have "k \<in> pool_kernels mp1 \<longleftrightarrow> k \<in> insert ?k (pool_kernels mp) - {kernel r}" for k
      proof (cases "txid (hashes E) k = ?i")
        case True
        with slot [OF True] Some r(2) show ?thesis unfolding key by (cases "k = ?k") (simp_all del: map_of_eq_Some_iff)
      next
        case False
        with rk have "k \<noteq> ?k" "k \<noteq> kernel r" by blast+
        with False show ?thesis unfolding key by simp
      qed
      then have "pool_kernels mp1 = insert ?k (pool_kernels mp) - {kernel r}" by blast
      with Some steady_append [OF steady_add [OF False] steady_remove [of "kernel r"]] r(1) show ?thesis
        by (simp del: map_of_eq_Some_iff)
    qed
    from steady_describes [OF mast_inj steady_append [OF st steady_append [OF this st1]]] show ?thesis .
  qed
  moreover have "same_frame mp mp1" by (simp add: mp1_def same_frame_def)
  ultimately show ?thesis using res mp1(2) sh(2) by blast
qed

lemma min_opt_None [simp]: "min_opt xs = None \<longleftrightarrow> xs = []"
  by (cases xs) (simp_all add: min_opt_def)

lemma insert_stays_out:
  "\<not> goes_in E mp new_tx \<Longrightarrow> mempool_insert E mp new_tx = Inr (mp, [])"
  by (auto simp: goes_in_def mempool_insert_def Let_def simp del: map_of_eq_Some_iff split: option.splits)

lemma insert_goes_in:
  assumes inv: "pool_inv E prio mp" and g: "goes_in E mp new_tx"
  shows "\<exists>mp' es mp1 es1. mempool_insert E mp new_tx = Inr (mp', es) \<and> describes (pool_kernels mp) es (pool_kernels mp') \<and>
    lookup_tx mp1 = (\<lambda>i. case lookup_tx mp i of
        None \<Rightarrow> None | Some tx \<Rightarrow> if in_conflict (kernel tx) (kernel new_tx) then None else Some tx)(tx_txid E new_tx \<mapsto> new_tx) \<and>
    same_frame mp mp1 \<and> shrunk mp1 es1 mp'"
proof -
  let ?cs = "transactions_in_conflict_with mp (kernel new_tx)"
  let ?ps = "map (\<lambda>(i, tx). (i, as_single_proof (tx_proof tx))) ?cs"
  let ?clean = "\<lambda>i. case lookup_tx mp i of
        None \<Rightarrow> None | Some tx \<Rightarrow> if in_conflict (kernel tx) (kernel new_tx) then None else Some tx"
  have fst_ps: "map fst ?ps = map fst ?cs" by (simp add: case_prod_beta comp_def)
  note d = pool_invD(1) [OF inv]
  have in_cs: "(i, tx) \<in> set ?cs \<longleftrightarrow> lookup_tx mp i = Some tx \<and> in_conflict (kernel tx) (kernel new_tx)" for i tx
    using d by (auto simp: conflicts_filter)
  have keys: "i \<in> fst ` set ?ps \<longleftrightarrow> (\<exists>tx. lookup_tx mp i = Some tx \<and> in_conflict (kernel tx) (kernel new_tx))" for i
  proof -
    have "fst ` set ?ps = fst ` set ?cs" using fst_ps by (metis set_map)
    moreover have "i \<in> fst ` set ?cs \<longleftrightarrow> (\<exists>tx. (i, tx) \<in> set ?cs)" by (rule image_fst_iff)
    ultimately show ?thesis unfolding in_cs by simp
  qed
  have "distinct (map fst ?cs)" unfolding conflicts_filter by (rule distinct_map_filter [OF d])
  then have "distinct (map fst ?ps)" by (simp only: fst_ps)
  moreover have "\<forall>x\<in>set ?ps. lookup_tx mp (fst x) \<noteq> None" using keys by blast
  ultimately obtain mp2 es2 where
    r: "replace_conflicts E new_tx mp [] ?ps = Inr (mp2, es2)" "pool_inv E prio mp2"
      "lookup_tx mp2 = (lookup_tx mp) |` (- (fst ` set ?ps))" "steady (pool_kernels mp) es2 (pool_kernels mp2)" "same_frame mp mp2"
    using replace_conflicts_ok [OF inv, of ?ps new_tx "[]"] by auto
  have clean: "lookup_tx mp2 = ?clean"
    using keys by (auto simp: r(3) restrict_map_def fun_eq_iff simp del: map_of_eq_Some_iff split: option.splits)
  have free: "\<not> in_conflict (kernel tx) (kernel new_tx)" if "tx \<in> ran (lookup_tx mp2)" for tx
    using that unfolding clean ran_def by (auto simp del: map_of_eq_Some_iff split: option.splits if_splits)
  have fresh: "es2 = []" if "kernel new_tx \<in> pool_kernels mp2"
  proof -
    from that obtain tx where tx: "tx \<in> ran (lookup_tx mp2)" "kernel tx = kernel new_tx" by (auto simp: pool_kernels_def)
    with free [of tx] have "tk_inputs (kernel new_tx) = []" by (auto simp: in_conflict_def)
    then have "?cs = []" by (simp add: conflicts_filter in_conflict_def)
    with r(1) show ?thesis by simp
  qed
  from insert_new_ok [OF r(2) free r(4) fresh] obtain mp' es' mp1 es1 where
    i: "insert_new E new_tx mp2 es2 = Inr (mp', es')" "describes (pool_kernels mp) es' (pool_kernels mp')"
      "lookup_tx mp1 = (lookup_tx mp2)(tx_txid E new_tx \<mapsto> new_tx)" "same_frame mp2 mp1" "shrunk mp1 es1 mp'"
    by blast
  have "mempool_insert E mp new_tx = Inr (mp', es')"
  proof (cases "?cs = []")
    case True
    then have "mp2 = mp" "es2 = []" using r(1) by simp_all
    with i(1) True show ?thesis by (simp add: mempool_insert_def Let_def min_opt_def)
  next
    case False
    then obtain m where m: "min_opt (map (\<lambda>(_, tx). fee_density E tx) ?cs) = Some m" by fastforce
    with g False r(1) i(1) show ?thesis
      by (auto simp: mempool_insert_def goes_in_def Let_def bind_res_def simp del: map_of_eq_Some_iff)
  qed
  with i(2-5) same_frame_trans [OF r(5) i(4)] show ?thesis unfolding clean by blast
qed

lemma insert_ok:
  assumes inv: "pool_inv E prio mp"
  shows "\<exists>mp' es. mempool_insert E mp new_tx = Inr (mp', es) \<and> pool_inv E prio mp' \<and>
    describes (pool_kernels mp) es (pool_kernels mp') \<and> same_frame mp mp' \<and> ran (lookup_tx mp') \<subseteq> insert new_tx (ran (lookup_tx mp))"
proof (cases "goes_in E mp new_tx")
  case False
  with insert_stays_out inv show ?thesis by (auto simp: describes_def)
next
  case True
  from insert_goes_in [OF inv True] obtain mp' es mp1 es1 where
    i: "mempool_insert E mp new_tx = Inr (mp', es)" "describes (pool_kernels mp) es (pool_kernels mp')"
      "lookup_tx mp1 = (\<lambda>i. case lookup_tx mp i of
        None \<Rightarrow> None | Some tx \<Rightarrow> if in_conflict (kernel tx) (kernel new_tx) then None else Some tx)(tx_txid E new_tx \<mapsto> new_tx)"
      "same_frame mp mp1" "shrunk mp1 es1 mp'"
    by blast
  have "ran (lookup_tx mp') \<subseteq> ran (lookup_tx mp1)"
    using i(5) unfolding shrunk_def by (auto simp: ran_def map_le_def simp del: map_of_eq_Some_iff) (metis domI)
  also have "\<dots> \<subseteq> insert new_tx (ran (lookup_tx mp))"
    unfolding i(3) ran_def by (auto simp del: map_of_eq_Some_iff split: option.splits if_splits)
  finally have "ran (lookup_tx mp') \<subseteq> insert new_tx (ran (lookup_tx mp))" .
  moreover have "pool_inv E prio mp'" "same_frame mp mp'"
    using i(5) same_frame_trans [OF i(4)] by (auto simp: shrunk_def simp del: map_of_eq_Some_iff)
  ultimately show ?thesis using i(1,2) by blast
qed

section \<open>Other operations\<close>

lemma new_inv:
  assumes "mempool_new E n tip = Inr mp"
  shows "pool_inv E prio mp" "tx_dictionary mp = []"
  using assms by (auto simp: mempool_new_def pool_inv_def prio_empty split: option.splits)

lemma clear_ok:
  assumes "pool_inv E prio mp"
  shows "\<exists>mp' es. mempool_clear E mp = Inr (mp', es) \<and> pool_inv E prio mp' \<and> tx_dictionary mp' = [] \<and>
    merge_input_cache mp' = cache_clear (merge_input_cache mp) \<and> steady (pool_kernels mp) es {} \<and> same_frame mp mp'"
proof -
  let ?mp = "mp\<lparr>merge_input_cache := cache_clear (merge_input_cache mp)\<rparr>"
  have c: "pool_inv E prio ?mp" "pool_kernels ?mp = pool_kernels mp" using cache_only [OF assms, of "cache_clear (merge_input_cache mp)"] by simp_all
  have none: "(\<lambda>i. case lookup_tx ?mp i of None \<Rightarrow> None | Some tx \<Rightarrow> if False then Some tx else None) = Map.empty"
    by (simp add: fun_eq_iff split: option.splits)
  from retain_ok [OF c(1), of "\<lambda>_ _. False"] obtain mp' es where
    r: "retain E (\<lambda>_ _. False) ?mp = Inr (mp', es)" "pool_inv E prio mp'" "lookup_tx mp' = Map.empty"
      "steady (pool_kernels mp) es (pool_kernels mp')" "merge_input_cache mp' = cache_clear (merge_input_cache mp)" "same_frame ?mp mp'"
    unfolding none c(2) by auto
  then have "tx_dictionary mp' = []" by simp
  moreover from r(3) have "pool_kernels mp' = {}" by (simp add: pool_kernels_def)
  ultimately show ?thesis using r by (auto simp: mempool_clear_def same_frame_def)
qed

lemma restore_loop_ok:
  assumes "pool_inv E prio mp" "\<And>e. e \<in> set elems \<Longrightarrow> still_mineable bfs (ce_tx_kernel e)"
    and "\<And>tx. tx \<in> ran (lookup_tx mp) \<Longrightarrow> still_mineable bfs (kernel tx)"
  shows "\<exists>mp' es'. restore_loop E mp es elems = Inr (mp', es @ es') \<and> pool_inv E prio mp' \<and>
    steady (pool_kernels mp) es' (pool_kernels mp') \<and> same_frame mp mp' \<and>
    (\<forall>tx\<in>ran (lookup_tx mp'). still_mineable bfs (kernel tx))"
  using assms
proof (induction elems arbitrary: mp es)
  case (Cons e elems)
  let ?tx = "\<lparr>kernel = ce_tx_kernel e, tx_proof = SingleProof (ce_single_proof e)\<rparr>"
  from insert_ok [OF Cons.prems(1), of ?tx] obtain mp1 es1 where
    i: "mempool_insert E mp ?tx = Inr (mp1, es1)" "pool_inv E prio mp1"
      "describes (pool_kernels mp) es1 (pool_kernels mp1)" "same_frame mp mp1" "ran (lookup_tx mp1) \<subseteq> insert ?tx (ran (lookup_tx mp))"
    by blast
  have "still_mineable bfs (kernel tx)" if "tx \<in> ran (lookup_tx mp1)" for tx
    using that i(5) Cons.prems(2) [of e] Cons.prems(3) by auto
  with Cons.IH [OF i(2), of "es @ es1"] Cons.prems(2) obtain mp' es' where
    r: "restore_loop E mp1 (es @ es1) elems = Inr (mp', es @ es1 @ es')" "pool_inv E prio mp'"
      "steady (pool_kernels mp1) es' (pool_kernels mp')" "same_frame mp1 mp'" "\<forall>tx\<in>ran (lookup_tx mp'). still_mineable bfs (kernel tx)"
    by auto
  have "restore_loop E mp es (e # elems) = Inr (mp', es @ es1 @ es')" using i(1) r(1) by (simp add: Let_def bind_res_def)
  with r(2,5) steady_append [OF describes_steady [OF i(3)] r(3)] same_frame_trans [OF i(4) r(4)] show ?case by blast
qed auto

lemma sync_labels_inv:
  "pool_inv E prio mp \<Longrightarrow> pool_inv E prio (fst (set_sync_labels mp b))"
  "tx_dictionary (fst (set_sync_labels mp b)) = tx_dictionary mp"
  "snd (set_sync_labels mp b) = Inr () \<longleftrightarrow> bv_mutator_set_after_hash b \<noteq> None"
  "tip_digest (fst (set_sync_labels mp b)) = bv_hash b"
  by (auto simp: set_sync_labels_def Let_def pool_inv_def simp del: map_of_eq_Some_iff split: option.splits)

lemma still_valid_mineable: "still_valid bfs i tx = still_mineable bfs (kernel tx)"
  by (simp add: still_valid_def still_mineable_def)

lemma update_with_block_ok:
  assumes inv: "pool_inv E prio mp"
  shows "\<exists>mp' r. update_with_block E mp b = Inr (mp', r) \<and> pool_inv E prio mp' \<and> tip_digest mp' = bv_hash b \<and>
    (\<forall>tx\<in>ran (lookup_tx mp'). still_mineable (set (concat (map index_array (tk_inputs (bv_transaction_kernel b))))) (kernel tx)) \<and>
    (bv_mutator_set_after_hash b = None \<longrightarrow> r = Inl NoMutatorSetAfter) \<and>
    (bv_mutator_set_after_hash b \<noteq> None \<longrightarrow> (\<exists>es. r = Inr es \<and> describes (pool_kernels mp) es (pool_kernels mp')))"
proof (cases "mempool_is_empty mp \<and> cache_is_empty (merge_input_cache mp)")
  case True
  obtain mp' u where l: "set_sync_labels mp b = (mp', u)" by force
  have "tx_dictionary mp' = []" "tx_dictionary mp = []"
    using True sync_labels_inv(2) [of mp b] by (simp_all add: l mempool_is_empty_def)
  moreover have "update_with_block E mp b = Inr (mp', if bv_mutator_set_after_hash b = None then Inl NoMutatorSetAfter else Inr [])"
    using True l by (auto simp: update_with_block_def set_sync_labels_def Let_def split: option.splits)
  ultimately show ?thesis
    using l sync_labels_inv(1) [OF inv, of b] sync_labels_inv(4) [of mp b] by (simp add: pool_kernels_def describes_def)
next
  case False
  let ?bfs = "set (concat (map index_array (tk_inputs (bv_transaction_kernel b))))"
  let ?start = "if tip_digest mp \<noteq> bv_prev_block_digest b then mempool_clear E mp else Inr (mp, [])"
  have "\<exists>mp1 es1. ?start = Inr (mp1, es1) \<and> pool_inv E prio mp1 \<and> steady (pool_kernels mp) es1 (pool_kernels mp1)"
  proof (cases "tip_digest mp = bv_prev_block_digest b")
    case True
    with inv show ?thesis by auto
  next
    case False
    from clear_ok [OF inv] obtain mp1 es1 where "mempool_clear E mp = Inr (mp1, es1)" "pool_inv E prio mp1"
      "pool_kernels mp1 = {}" "steady (pool_kernels mp) es1 {}"
      by (auto simp: pool_kernels_def)
    with False show ?thesis by auto
  qed
  then obtain mp1 es1 where a: "?start = Inr (mp1, es1)" "pool_inv E prio mp1" "steady (pool_kernels mp) es1 (pool_kernels mp1)"
    by blast
  from retain_ok [OF a(2), of "still_valid ?bfs"] obtain mp2 es2 where
    r: "retain E (still_valid ?bfs) mp1 = Inr (mp2, es2)" "pool_inv E prio mp2"
      "lookup_tx mp2 = (\<lambda>i. case lookup_tx mp1 i of None \<Rightarrow> None | Some tx \<Rightarrow> if still_valid ?bfs i tx then Some tx else None)"
      "steady (pool_kernels mp1) es2 (pool_kernels mp2)"
    by blast
  let ?elems = "filter (\<lambda>e. still_mineable ?bfs (ce_tx_kernel e))
      (map (\<lambda>i. the (map_of (cache_dictionary (merge_input_cache mp2)) i)) (insertion_order (merge_input_cache mp2)))"
  let ?mp3 = "mp2\<lparr>merge_input_cache := cache_clear (merge_input_cache mp2)\<rparr>"
  note c = cache_update_ok [OF pool_invD(5) [OF r(2)], of ?bfs]
  note inv3 = cache_only [OF r(2) cache_inv_simple(2), of "merge_input_cache mp2"]
  have "still_mineable ?bfs (kernel tx)" if "tx \<in> ran (lookup_tx ?mp3)" for tx
    using that r(3) by (auto simp: ran_def still_valid_mineable simp del: map_of_eq_Some_iff split: option.splits if_splits)
  with restore_loop_ok [OF inv3(1), of ?elems ?bfs "es1 @ es2"] obtain mp4 es4 where
    l: "restore_loop E ?mp3 (es1 @ es2) ?elems = Inr (mp4, (es1 @ es2) @ es4)" "pool_inv E prio mp4"
      "steady (pool_kernels mp2) es4 (pool_kernels mp4)" "\<forall>tx\<in>ran (lookup_tx mp4). still_mineable ?bfs (kernel tx)"
    unfolding inv3(2) by auto
  from shrink_ok [OF l(2)] obtain mp5 es5 where s: "shrink_to_max_size E mp4 = Inr (mp5, es5)" "shrunk mp4 es5 mp5" by blast
  have sub: "ran (lookup_tx mp5) \<subseteq> ran (lookup_tx mp4)"
    using s(2) unfolding shrunk_def by (auto simp: ran_def map_le_def simp del: map_of_eq_Some_iff) (metis domI)
  obtain mp' u where m: "set_sync_labels mp5 b = (mp', u)" by force
  then have mp': "pool_inv E prio mp'" "tx_dictionary mp' = tx_dictionary mp5" "tip_digest mp' = bv_hash b"
    using sync_labels_inv(1) [of mp5 b] sync_labels_inv(2,4) [of mp5 b] s(2) by (simp_all add: shrunk_def)
  let ?es = "((es1 @ es2) @ es4) @ es5"
  have "steady (pool_kernels mp4) es5 (pool_kernels mp')" using s(2) mp'(2) by (simp add: shrunk_def pool_kernels_def)
  from steady_describes [OF mast_inj steady_append [OF steady_append [OF steady_append [OF a(3) r(4)] l(3)] this]]
  have "describes (pool_kernels mp) (normalize (mast_hash E) ?es) (pool_kernels mp')" .
  moreover have "update_with_block E mp b = Inr (mp',
      if bv_mutator_set_after_hash b = None then Inl NoMutatorSetAfter else Inr (normalize (mast_hash E) ?es))"
    using a(1) r(1) c l(1) s(1) m unfolding update_with_block_def if_not_P [OF False]
    by (auto simp: bind_res_def Let_def set_sync_labels_def simp del: append_assoc split: option.splits)
  ultimately show ?thesis using mp' l(4) sub by auto
qed

end

section \<open>Block composition\<close>

lemma composition_loop_ok:
  "\<exists>taken. composition_loop E mp m acc room xs = acc @ map (\<lambda>i. the (lookup_tx mp i)) taken \<and> subseq taken (map fst xs) \<and>
    (\<forall>i\<in>set taken. \<exists>tx. lookup_tx mp i = Some tx \<and> tx_is_synced mp (kernel tx) \<and> is_single_proof (tx_proof tx)) \<and>
    (\<Sum>i\<leftarrow>taken. tx_get_size E (the (lookup_tx mp i))) \<le> room \<and>
    (\<forall>n. m = Some n \<longrightarrow> length acc \<le> n \<longrightarrow> length acc + length taken \<le> n)"
  (is "\<exists>taken. ?P acc room xs taken")
proof (induction xs arbitrary: acc room)
  case (Cons x xs)
  obtain i p where x: "x = (i, p)" by force
  have skip: ?case if "composition_loop E mp m acc room (x # xs) = composition_loop E mp m acc room xs"
  proof -
    from Cons.IH obtain taken where "?P acc room xs taken" by blast
    with that show ?thesis by (intro exI [of _ taken]) auto
  qed
  show ?case
  proof (cases "room = 0 \<or> (case m of None \<Rightarrow> False | Some n \<Rightarrow> length acc = n)")
    case True
    then show ?thesis by (intro exI [of _ "[]"]) (auto simp: x)
  next
    case go: False
    show ?thesis
    proof (cases "\<exists>tx. lookup_tx mp i = Some tx \<and> tx_is_synced mp (kernel tx) \<and> is_single_proof (tx_proof tx) \<and> tx_get_size E tx \<le> room")
      case False
      then show ?thesis
        using go by (intro skip) (auto simp: x mempool_get_def simp del: map_of_eq_Some_iff split: option.splits)
    next
      case True
      then obtain tx where tx: "lookup_tx mp i = Some tx" "tx_is_synced mp (kernel tx)" "is_single_proof (tx_proof tx)" "tx_get_size E tx \<le> room"
        by blast
      from Cons.IH [of "acc @ [tx]" "room - tx_get_size E tx"] obtain taken where
        t: "?P (acc @ [tx]) (room - tx_get_size E tx) xs taken" by blast
      have "composition_loop E mp m acc room (x # xs) = composition_loop E mp m (acc @ [tx]) (room - tx_get_size E tx) xs"
        using go tx by (auto simp: x mempool_get_def simp del: map_of_eq_Some_iff split: option.splits)
      moreover have "length acc + Suc (length taken) \<le> n" if "m = Some n" "length acc \<le> n" for n
        using t go that by auto
      ultimately show ?thesis using t tx by (intro exI [of _ "i # taken"]) (auto simp: x simp del: map_of_eq_Some_iff)
    qed
  qed
qed simp

section \<open>An instance\<close>

text \<open>Digests as natural numbers, sizes as numbers of elements; kernels are countable, so they have a hash without
  collisions.\<close>

definition encode_record :: "unit removal_record \<Rightarrow> u128 \<times> u32 list \<times> (u64 \<times> u32 list) list" where
  "encode_record rr = (minimum (absolute_indices rr), distances (absolute_indices rr),
     map (\<lambda>(i, _, c). (i, relative_indices c)) (dictionary (target_chunks rr)))"

definition encode_kernel :: "(nat, unit, bfe) transaction_kernel \<Rightarrow> nat" where
  "encode_kernel k = to_nat (map (to_nat \<circ> encode_record) (tk_inputs k), map canonical_commitment (tk_outputs k),
     map (map Rep_bfe \<circ> message) (announcements k), to_nau (fee k), map_option to_nau (coinbase k),
     Rep_bfe (ts_bfe (tk_timestamp k)), mutator_set_hash k, merge_bit k)"

definition pool_hash :: "(nat, bfe) txid_hash" where
  "pool_hash =
     \<lparr>hash_index_set = (\<lambda>a. sum_hash (unat (minimum a) # map unat (distances a))),
      digest_values = (\<lambda>d. [bf_new bfe_ops (of_nat d)]), hash_varlen = (\<lambda>xs. sum_hash (map Rep_bfe xs)),
      hash_fee = (\<lambda>a. nat (to_nau a)), hash_coinbase = (\<lambda>_. 2), hash_bool = (\<lambda>b. if b then 1 else 0),
      merkle_root = sum_hash, default_digest = 0\<rparr>"

definition pool_env :: "(nat, unit, bfe, unit, unit, (nat \<times> rat) list) mempool_env" where
  "pool_env =
     \<lparr>hashes = pool_hash, field_ops = bfe_ops, queue_ops = list_dpq, mast_hash = encode_kernel,
      serialized_size = (\<lambda>tx. Suc (length (tk_inputs (kernel tx)))), tx_get_size = (\<lambda>tx. Suc (length (tk_inputs (kernel tx)))),
      mempool_get_size = (\<lambda>mp. length (tx_dictionary mp) + length (cache_dictionary (merge_input_cache mp))),
      cache_get_size = (\<lambda>c. length (cache_dictionary c))\<rparr>"

lemma encode_record_inj: "inj encode_record"
proof (rule injI)
  fix a b :: "unit removal_record" assume "encode_record a = encode_record b"
  then have eq: "minimum (absolute_indices a) = minimum (absolute_indices b)"
    "distances (absolute_indices a) = distances (absolute_indices b)"
    "map (\<lambda>(i, _, c). (i, relative_indices c)) (dictionary (target_chunks a)) =
       map (\<lambda>(i, _, c). (i, relative_indices c)) (dictionary (target_chunks b))"
    by (simp_all add: encode_record_def)
  have "inj (\<lambda>(i :: u64, _ :: unit, c). (i, relative_indices c))"
    by (auto simp: inj_def intro: chunk.expand)
  from map_injective [OF eq(3) this] have "target_chunks a = target_chunks b" by (rule chunk_dictionary.expand)
  with eq(1,2) show "a = b" by (simp add: removal_record.equality absolute_index_set.equality)
qed

lemma encode_kernel_inj: "inj encode_kernel"
proof (rule injI)
  fix a b :: "(nat, unit, bfe) transaction_kernel" assume "encode_kernel a = encode_kernel b"
  then have eq: "map (to_nat \<circ> encode_record) (tk_inputs a) = map (to_nat \<circ> encode_record) (tk_inputs b)"
    "map canonical_commitment (tk_outputs a) = map canonical_commitment (tk_outputs b)"
    "map (map Rep_bfe \<circ> message) (announcements a) = map (map Rep_bfe \<circ> message) (announcements b)"
    "to_nau (fee a) = to_nau (fee b)" "map_option to_nau (coinbase a) = map_option to_nau (coinbase b)"
    "Rep_bfe (ts_bfe (tk_timestamp a)) = Rep_bfe (ts_bfe (tk_timestamp b))"
    "mutator_set_hash a = mutator_set_hash b" "merge_bit a = merge_bit b"
    by (simp_all add: encode_kernel_def)
  have bfe: "inj Rep_bfe" by (simp add: inj_def Rep_bfe_inject)
  have "inj (to_nat \<circ> encode_record)" using encode_record_inj by (intro inj_compose) auto
  note inputs = map_injective [OF eq(1) this]
  have "inj (canonical_commitment :: nat addition_record \<Rightarrow> nat)" by (auto simp: inj_def intro: addition_record.expand)
  note outputs = map_injective [OF eq(2) this]
  have "inj (map Rep_bfe \<circ> message)" using bfe by (auto simp: inj_def comp_def intro: announcement.expand)
  note anns = map_injective [OF eq(3) this]
  have "inj to_nau" by (auto simp: inj_def intro: native_currency_amount.expand)
  then have "fee a = fee b" "coinbase a = coinbase b" using eq(4,5) option.inj_map [of to_nau] by (auto dest: injD)
  moreover have "tk_timestamp a = tk_timestamp b" using eq(6) by (simp add: Rep_bfe_inject timestamp.expand)
  ultimately show "a = b" using inputs outputs anns eq(7,8) by (simp add: transaction_kernel.equality)
qed

interpretation pool: mempool_laws pool_env map_of
  by (intro mempool_laws.intro mempool_laws_axioms.intro)
     (simp_all add: pool_env_def encode_kernel_inj list_queue.dpq_laws_axioms)

section \<open>Reachable mempools\<close>

text \<open>One call of an operation that changes the mempool.\<close>

inductive mempool_step ::
  "('d :: linorder, 'p, 'f, 's, 'c, 'q) mempool_env \<Rightarrow> ('d, 'p, 'f, 's, 'c, 'q) mempool \<Rightarrow> ('d, 'p, 'f, 's, 'c, 'q) mempool \<Rightarrow> bool"
  for E where
  insert_step: "mempool_insert E mp tx = Inr (mp', es) \<Longrightarrow> mempool_step E mp mp'"
| remove_step: "mempool_remove E mp i = (mp', e) \<Longrightarrow> mempool_step E mp mp'"
| clear_step: "mempool_clear E mp = Inr (mp', es) \<Longrightarrow> mempool_step E mp mp'"
| prune_step: "prune_stale_transactions E now mp = Inr (mp', es) \<Longrightarrow> mempool_step E mp mp'"
| block_step: "update_with_block E mp b = Inr (mp', r) \<Longrightarrow> mempool_step E mp mp'"

context mempool_laws
begin

lemma retain_inv: "pool_inv E prio mp \<Longrightarrow> retain E P mp = Inr (mp', es) \<Longrightarrow> pool_inv E prio mp'"
  using retain_ok [of mp P] by auto

lemma step_inv:
  assumes "mempool_step E mp mp'" "pool_inv E prio mp"
  shows "pool_inv E prio mp'"
  using assms
proof (induction rule: mempool_step.induct)
  case (insert_step mp tx mp' es)
  with insert_ok [of mp tx] show ?case by auto
next
  case (remove_step mp i mp' e)
  show ?case
  proof (cases "lookup_tx mp i")
    case None
    with remove_step show ?thesis by (simp add: mempool_remove_def)
  next
    case (Some tx)
    with remove_inv [OF remove_step(2) Some] remove_step(1) show ?thesis by auto
  qed
next
  case (clear_step mp mp' es)
  with clear_ok [of mp] show ?case by auto
next
  case (prune_step now mp mp' es)
  then show ?case by (auto simp: prune_stale_transactions_def Let_def intro: retain_inv)
next
  case (block_step mp b mp' r)
  with update_with_block_ok [of mp b] show ?case by auto
qed

lemma reachable_inv:
  "(mempool_step E)\<^sup>*\<^sup>* mp mp' \<Longrightarrow> pool_inv E prio mp \<Longrightarrow> pool_inv E prio mp'"
  by (induction rule: rtranclp_induct) (auto intro: step_inv)

end

definition reachable_pool ::
  "('d :: linorder, 'p, 'f, 's, 'c, 'q) mempool_env \<Rightarrow> ('d, 'p, 'f, 's, 'c, 'q) mempool \<Rightarrow> bool" where
  "reachable_pool E mp \<longleftrightarrow> (\<exists>n tip mp0. mempool_new E n tip = Inr mp0 \<and> (mempool_step E)\<^sup>*\<^sup>* mp0 mp)"

lemma reachable_pool_inv: "mempool_laws E prio \<Longrightarrow> reachable_pool E mp \<Longrightarrow> pool_inv E prio mp"
  using mempool_laws.reachable_inv mempool_laws.new_inv(1) unfolding reachable_pool_def by blast

lemma subseq_sorted_wrt: "subseq xs ys \<Longrightarrow> sorted_wrt R ys \<Longrightarrow> sorted_wrt R xs"
proof (induction rule: list_emb.induct)
  case (list_emb_Cons2 x y xs ys)
  then show ?case by (auto dest: list_emb_set)
qed auto

lemma subseq_distinct: "subseq xs ys \<Longrightarrow> distinct ys \<Longrightarrow> distinct xs"
  using subseq_sorted_wrt [of xs ys "(\<noteq>)"] by (simp add: distinct_conv_nth sorted_wrt_iff_nth_less nat_neq_iff) metis

context mempool_laws
begin

text \<open>The queue lists every transaction of the table once, in descending order of fee density.\<close>

lemma fee_density_iter_ok:
  assumes inv: "pool_inv E prio mp"
  shows "distinct (map fst (fee_density_iter E mp))"
    "(i, p) \<in> set (fee_density_iter E mp) \<Longrightarrow> \<exists>tx. lookup_tx mp i = Some tx \<and> p = fee_density E tx"
    "sorted_wrt (\<lambda>a b. b \<le> a) (map (\<lambda>i. fee_density E (the (lookup_tx mp i))) (map fst (fee_density_iter E mp)))"
proof -
  let ?q = "fee_densities mp" and ?xs = "fee_density_iter E mp"
  have m: "mset ?xs = mset (dpq_iter (queue_ops E) ?q)" by (simp add: fee_density_iter_def sorted_mset)
  then have "mset (map fst ?xs) = mset (map fst (dpq_iter (queue_ops E) ?q))" by simp
  then show d: "distinct (map fst ?xs)" using iter_distinct mset_eq_imp_distinct_iff by blast
  have elem: "\<exists>tx. lookup_tx mp i = Some tx \<and> p = fee_density E tx" if "(i, p) \<in> set ?xs" for i p
  proof -
    have "(i, p) \<in> set (dpq_iter (queue_ops E) ?q)" using that m by (metis mset_eq_setD)
    then have "prio ?q i = Some p" using iter_prio [of ?q] iter_distinct by (metis map_of_eq_Some_iff)
    then show ?thesis by (auto simp: pool_invD(3) [OF inv] simp del: map_of_eq_Some_iff)
  qed
  then show "(i, p) \<in> set ?xs \<Longrightarrow> \<exists>tx. lookup_tx mp i = Some tx \<and> p = fee_density E tx" .
  have "map (\<lambda>i. fee_density E (the (lookup_tx mp i))) (map fst ?xs) = map snd ?xs"
    using elem by (fastforce simp: comp_def simp del: map_of_eq_Some_iff)
  moreover have "sorted_wrt (\<lambda>a b. b \<le> a) (map snd ?xs)"
    using sorted_prio [of ?q] by (simp add: fee_density_iter_def rev_map [symmetric] sorted_wrt_rev)
  ultimately show "sorted_wrt (\<lambda>a b. b \<le> a) (map (\<lambda>i. fee_density E (the (lookup_tx mp i))) (map fst ?xs))"
    by (simp only:)
qed

lemma composition_ok:
  assumes inv: "pool_inv E prio mp" and txs: "get_transactions_for_block_composition E mp room m = txs"
  shows "distinct txs" "(\<Sum>tx\<leftarrow>txs. tx_get_size E tx) \<le> room" "m = Some n \<Longrightarrow> length txs \<le> n"
    "tx \<in> set txs \<Longrightarrow> lookup_tx mp (tx_txid E tx) = Some tx \<and> tx_is_synced mp (kernel tx) \<and> is_single_proof (tx_proof tx)"
    "sorted_wrt (\<lambda>a b. fee_density E b \<le> fee_density E a) txs"
proof -
  let ?tx = "\<lambda>i. the (lookup_tx mp i)"
  obtain taken where t: "txs = map ?tx taken" "subseq taken (map fst (fee_density_iter E mp))"
      "\<forall>i\<in>set taken. \<exists>tx. lookup_tx mp i = Some tx \<and> tx_is_synced mp (kernel tx) \<and> is_single_proof (tx_proof tx)"
      "(\<Sum>i\<leftarrow>taken. tx_get_size E (?tx i)) \<le> room" "\<forall>n. m = Some n \<longrightarrow> length taken \<le> n"
    using composition_loop_ok [of E mp m "[]" room "fee_density_iter E mp"] txs
    unfolding get_transactions_for_block_composition_def by auto
  have "inj_on ?tx (set taken)"
    using t(3) pool_invD(2) [OF inv] by (intro inj_onI) (metis option.sel)
  moreover have "distinct taken" by (rule subseq_distinct [OF t(2) fee_density_iter_ok(1) [OF inv]])
  ultimately show "distinct txs" by (simp add: t(1) distinct_map)
  show "(\<Sum>tx\<leftarrow>txs. tx_get_size E tx) \<le> room" using t(4) by (simp add: t(1) comp_def)
  show "m = Some n \<Longrightarrow> length txs \<le> n" using t(5) by (simp add: t(1))
  show "lookup_tx mp (tx_txid E tx) = Some tx \<and> tx_is_synced mp (kernel tx) \<and> is_single_proof (tx_proof tx)" if "tx \<in> set txs"
    using that t(3) pool_invD(2) [OF inv] unfolding t(1) set_map by (smt (verit) imageE option.sel)
  show "sorted_wrt (\<lambda>a b. fee_density E b \<le> fee_density E a) txs"
    using subseq_sorted_wrt [OF subseq_map [OF t(2)] fee_density_iter_ok(3) [OF inv]] by (simp add: t(1) sorted_wrt_map)
qed

end

text \<open>A mempool with one transaction, to evaluate the properties on.\<close>

definition pool_tip :: "(nat, unit, bfe) block_view" where
  "pool_tip = \<lparr>bv_hash = 1, bv_prev_block_digest = 0,
     bv_transaction_kernel = sample_kernel 3 (bf_new bfe_ops 10) [], bv_mutator_set_after_hash = Some 3\<rparr>"

definition pool_tx :: "(nat, unit, bfe, unit, unit) transaction" where
  "pool_tx = \<lparr>kernel = sample_kernel 3 (bf_new bfe_ops 10) [one_position_record 5], tx_proof = SingleProof ()\<rparr>"

definition one_tx_pool :: "(nat, unit, bfe, unit, unit, (nat \<times> rat) list) mempool" where
  "one_tx_pool = \<lparr>max_total_size = 5, tx_dictionary = [(tx_txid pool_env pool_tx, pool_tx)],
     fee_densities = [(tx_txid pool_env pool_tx, fee_density pool_env pool_tx)], tip_digest = 1, tip_mutator_set_hash = 3,
     merge_input_cache = cache_default\<rparr>"

lemma one_tx_pool_reachable: "reachable_pool pool_env one_tx_pool"
proof -
  let ?mp0 = "\<lparr>max_total_size = 5, tx_dictionary = [], fee_densities = [], tip_digest = 1, tip_mutator_set_hash = 3,
     merge_input_cache = cache_default\<rparr> :: (nat, unit, bfe, unit, unit, (nat \<times> rat) list) mempool"
  have new: "mempool_new pool_env 5 pool_tip = Inr ?mp0"
    by (simp add: mempool_new_def pool_tip_def pool_env_def list_dpq_def)
  have q: "queue_ops pool_env = list_dpq" "mempool_get_size pool_env one_tx_pool = 1"
    "max_total_size one_tx_pool = 5"
    by (simp_all add: pool_env_def one_tx_pool_def cache_default_def)
  have "shrink_to_max_size pool_env one_tx_pool = Inr (one_tx_pool, [])"
    unfolding shrink_to_max_size_def by (subst shrink_loop.simps) (simp add: q)
  then have "insert_new pool_env pool_tx ?mp0 [] = Inr (one_tx_pool, normalize (mast_hash pool_env) [AddTx (kernel pool_tx)])"
    by (simp add: insert_new_def Let_def one_tx_pool_def [symmetric] bind_res_def assert_then_def q(1) list_dpq_def)
       (simp add: one_tx_pool_def)
  then have "mempool_insert pool_env ?mp0 pool_tx = Inr (one_tx_pool, normalize (mast_hash pool_env) [AddTx (kernel pool_tx)])"
    by (simp add: mempool_insert_def transactions_in_conflict_with_def min_opt_def)
  then have "(mempool_step pool_env)\<^sup>*\<^sup>* ?mp0 one_tx_pool" by (intro r_into_rtranclp insert_step)
  with new show ?thesis unfolding reachable_pool_def by blast
qed

lemma one_tx_pool_get: "mempool_get one_tx_pool (tx_txid pool_env pool_tx) = Some pool_tx"
  by (simp add: mempool_get_def one_tx_pool_def)

section \<open>Properties\<close>

text \<open>(C13) No two transactions in the mempool spend the same input, in any mempool that insertions, removals, pruning and
  blocks lead to; every transaction is stored under its identifier, and the queue holds it with its fee density and
  nothing else.\<close>

theorem mempool_never_conflicting:
  assumes "mempool_laws E prio" "reachable_pool E mp" "mempool_get mp i = Some tx"
  shows "i = tx_txid E tx \<and> prio (fee_densities mp) i = Some (fee_density E tx) \<and>
    mempool_len mp = dpq_len (queue_ops E) (fee_densities mp) \<and>
    (\<forall>j tx'. mempool_get mp j = Some tx' \<and> i \<noteq> j \<longrightarrow>
       set (map index_array (tk_inputs (kernel tx))) \<inter> set (map index_array (tk_inputs (kernel tx'))) = {})"
proof -
  note inv = reachable_pool_inv [OF assms(1,2)]
  have i: "lookup_tx mp i = Some tx" using assms(3) by (simp add: mempool_get_def)
  show ?thesis
    using pool_invD(2) [OF inv i] pool_invD(3) [OF inv, of i] pool_invD(4) [OF inv i] i
      mempool_laws.pool_len [OF assms(1) inv]
    by (auto simp: mempool_len_def mempool_get_def in_conflict_def simp del: map_of_eq_Some_iff)
qed

theorem mempool_never_conflicting_witness:
  "mempool_get one_tx_pool (tx_txid pool_env pool_tx) = Some pool_tx \<and>
   map_of (fee_densities one_tx_pool) (tx_txid pool_env pool_tx) = Some (fee_density pool_env pool_tx)"
  using mempool_never_conflicting [OF pool.mempool_laws_axioms one_tx_pool_reachable one_tx_pool_get] one_tx_pool_get by blast





text \<open>(C16) A block is always digested. Afterwards no transaction of the mempool, restored ones included, has an input all of
  whose positions the block has set, the tip is the new block, and the events are the change of the contents. Only a
  block without a mutator set afterwards is answered with an error.\<close>

theorem update_with_block_keeps_mineable:
  assumes "mempool_laws E prio" "reachable_pool E mp"
  shows "\<exists>mp' r. update_with_block E mp b = Inr (mp', r) \<and> reachable_pool E mp' \<and> tip_digest mp' = bv_hash b \<and>
    (\<forall>i tx rr. mempool_get mp' i = Some tx \<and> rr \<in> set (tk_inputs (kernel tx)) \<longrightarrow>
       \<not> set (index_array rr) \<subseteq> (\<Union>rr'\<in>set (tk_inputs (bv_transaction_kernel b)). set (index_array rr'))) \<and>
    (bv_mutator_set_after_hash b = None \<longrightarrow> r = Inl NoMutatorSetAfter) \<and>
    (bv_mutator_set_after_hash b \<noteq> None \<longrightarrow> (\<exists>es. r = Inr es \<and> describes (pool_kernels mp) es (pool_kernels mp')))"
proof -
  from mempool_laws.update_with_block_ok [OF assms(1) reachable_pool_inv [OF assms], of b] obtain mp' r where
    u: "update_with_block E mp b = Inr (mp', r)" "tip_digest mp' = bv_hash b"
      "\<forall>tx\<in>ran (lookup_tx mp'). still_mineable (set (concat (map index_array (tk_inputs (bv_transaction_kernel b))))) (kernel tx)"
      "bv_mutator_set_after_hash b = None \<longrightarrow> r = Inl NoMutatorSetAfter"
      "bv_mutator_set_after_hash b \<noteq> None \<longrightarrow> (\<exists>es. r = Inr es \<and> describes (pool_kernels mp) es (pool_kernels mp'))"
    by (elim exE conjE) (rule that)
  have "reachable_pool E mp'"
    using assms(2) block_step [OF u(1)] unfolding reachable_pool_def by (meson rtranclp.rtrancl_into_rtrancl)
  moreover have "\<not> set (index_array rr) \<subseteq> (\<Union>rr'\<in>set (tk_inputs (bv_transaction_kernel b)). set (index_array rr'))"
    if "mempool_get mp' i = Some tx" "rr \<in> set (tk_inputs (kernel tx))" for i tx rr
  proof -
    have "tx \<in> ran (lookup_tx mp')" using that(1) unfolding mempool_get_def by (rule ranI)
    with u(3) that(2) show ?thesis unfolding still_mineable_def by fastforce
  qed
  ultimately show ?thesis using u(1,2,4,5) by (intro exI [of _ mp'] exI [of _ r] conjI) (assumption | blast)+
qed

theorem update_with_block_keeps_mineable_witness:
  "\<exists>mp' r. update_with_block pool_env one_tx_pool pool_tip = Inr (mp', r) \<and> tip_digest mp' = 1"
  using update_with_block_keeps_mineable [OF pool.mempool_laws_axioms one_tx_pool_reachable, of pool_tip]
  by (auto simp: pool_tip_def)

text \<open>The transactions offered for a block: single-proof backed, synced to the tip, in the mempool, pairwise without
  a common input, in descending order of fee density, and within both the size and the number asked for.\<close>

theorem composition_selects:
  assumes "mempool_laws E prio" "reachable_pool E mp"
  shows "let txs = get_transactions_for_block_composition E mp room m in
    distinct txs \<and> (\<Sum>tx\<leftarrow>txs. tx_get_size E tx) \<le> room \<and> (case m of None \<Rightarrow> True | Some n \<Rightarrow> length txs \<le> n) \<and>
    sorted_wrt (\<lambda>a b. fee_density E b \<le> fee_density E a) txs \<and>
    list_all (\<lambda>tx. mempool_get mp (tx_txid E tx) = Some tx \<and> tx_is_synced mp (kernel tx) \<and> is_single_proof (tx_proof tx)) txs \<and>
    sorted_wrt (\<lambda>a b. \<not> in_conflict (kernel a) (kernel b)) txs"
proof -
  note inv = reachable_pool_inv [OF assms]
  let ?txs = "get_transactions_for_block_composition E mp room m"
  note c = mempool_laws.composition_ok [OF assms(1) inv refl, where room = room and m = m]
  have "\<not> in_conflict (kernel (?txs ! i)) (kernel (?txs ! j))" if "i < j" "j < length ?txs" for i j
  proof -
    let ?a = "?txs ! i" and ?b = "?txs ! j"
    have "?a \<in> set ?txs" "?b \<in> set ?txs" using that by simp_all
    with c(4) have ab: "lookup_tx mp (tx_txid E ?a) = Some ?a" "lookup_tx mp (tx_txid E ?b) = Some ?b" by blast+
    have "?a \<noteq> ?b" using that c(1) by (simp add: nth_eq_iff_index_eq)
    with ab have "tx_txid E ?a \<noteq> tx_txid E ?b" by (metis option.inject)
    with ab show ?thesis using pool_invD(4) [OF inv] by blast
  qed
  then have "sorted_wrt (\<lambda>a b. \<not> in_conflict (kernel a) (kernel b)) ?txs" by (simp add: sorted_wrt_iff_nth_less)
  moreover have "list_all (\<lambda>tx. mempool_get mp (tx_txid E tx) = Some tx \<and> tx_is_synced mp (kernel tx) \<and> is_single_proof (tx_proof tx)) ?txs"
    using c(4) unfolding list_all_iff mempool_get_def by blast
  ultimately show ?thesis using c(1,2,5) c(3) by (simp add: Let_def split: option.splits)
qed

theorem composition_selects_witness:
  "length (get_transactions_for_block_composition pool_env one_tx_pool 100 (Some 1)) \<le> 1"
  using composition_selects [OF pool.mempool_laws_axioms one_tx_pool_reachable, of 100 "Some 1"] by (simp add: Let_def)

end
