(* ===== verification/Removal_Record_List.thy ===== *)
theory Removal_Record_List
  imports Mutator_Set "HOL-Library.AList"
begin

text \<open>
  \<^verbatim>\<open>consensus/src/mutator_set/removal_record/removal_record_list.rs\<close>: the packing of the removal records of a block.
  The chunks of all records are kept once, their authentication paths are reduced to one authentication structure per
  tree of the Merkle mountain range, and all of it travels in the dictionary of the first record.

  Of the library \<^verbatim>\<open>twenty-first\<close> the code uses \<^verbatim>\<open>MmrMembershipProof\<close>, a structure around a vector of digests, the
  arithmetic of Merkle mountain ranges, and the node indices of an authentication structure; these are the parameter
  \<open>rrl_ops\<close>. A \<^verbatim>\<open>HashMap\<close> is an association list without repeated keys, a \<^verbatim>\<open>HashSet\<close> a distinct list, both in the order of
  insertion; the order is visible only to the node indices of an authentication structure, which depend on the set.
\<close>

record ('d, 'p) rrl_ops =
  mp_path :: "'p \<Rightarrow> 'd list"
  mp_of_path :: "'d list \<Rightarrow> 'p"
  get_peak_heights :: "u64 \<Rightarrow> u32 list"
  leaf_index_to_mt_index_and_peak_index :: "u64 \<Rightarrow> u64 \<Rightarrow> (u64 \<times> u32) res"
  authentication_structure_node_indices :: "u64 \<Rightarrow> u64 list \<Rightarrow> u64 list option"
  to_hex :: "'d \<Rightarrow> string"

section \<open>Data\<close>

record 'd removal_record_list =
  index_sets :: "absolute_index_set list"
  authentication_structures :: "'d list list"
  rrl_chunks :: "chunk list"
  num_leafs_aocl :: u64

datatype removal_record_list_inconsistency =
    ChunksInconsistency nat nat
  | AuthenticationStructureCount nat nat
  | AuthenticationStructureLength "nat list" "nat list"

datatype removal_record_list_unpack_error =
    InnerDecodingFailure chunk_unpack_error
  | AbsoluteIndexTooBig
  | IllegalTreeHeight u64
  | DuplicateTreeHeights
  | IncorrectlySortedTreeHeights
  | Inconsistency removal_record_list_inconsistency

definition ENCODING_DELIMITER_IGNORE_TREE_HEIGHT :: u64 where
  "ENCODING_DELIMITER_IGNORE_TREE_HEIGHT = - 1"

definition ENCODING_TREE_HEIGHT_OFFSET :: u64 where
  "ENCODING_TREE_HEIGHT_OFFSET = 64"

type_synonym 'd sparse_mmr = "((u32 \<times> u64) \<times> 'd) list"

text \<open>\<^verbatim>\<open>1 << h\<close>; the shift takes the amount modulo the width. The expression \<^verbatim>\<open>unwrap\<close> of a conversion and of a lookup.\<close>

definition shl_one :: "nat \<Rightarrow> u64" where
  "shl_one h = push_bit (h mod 64) 1"

definition unwrap :: "'a option \<Rightarrow> 'a res" where
  "unwrap x = (case x of None \<Rightarrow> Inl UnwrapFailed | Some a \<Rightarrow> Inr a)"

text \<open>\<^verbatim>\<open>if let Some(old) = m.insert(k, v) { assert_eq!(old, v) }\<close>.\<close>

definition insert_agreeing :: "'k \<Rightarrow> 'v \<Rightarrow> ('k \<times> 'v) list \<Rightarrow> ('k \<times> 'v) list res" where
  "insert_agreeing k v m = (case map_of m k of
     None \<Rightarrow> Inr (AList.update k v m) | Some old \<Rightarrow> assert_then (old = v) (Inr (AList.update k v m)))"

definition all_entries :: "'p removal_record list \<Rightarrow> (u64 \<times> 'p authenticated_chunk) list" where
  "all_entries rrs = concat (map (\<lambda>rr. dictionary (target_chunks rr)) rrs)"

section \<open>From removal records\<close>

fun collect_chunks ::
  "('d, 'p) rrl_ops \<Rightarrow> u64 \<Rightarrow> u32 list \<Rightarrow> (u64 \<times> 'p authenticated_chunk) list
     \<Rightarrow> (u64 \<times> chunk) list \<times> (u32 \<times> u64) list \<Rightarrow> ((u64 \<times> chunk) list \<times> (u32 \<times> u64) list) res" where
  "collect_chunks R num_leafs_swbfi all_tree_heights [] st = Inr st"
| "collect_chunks R num_leafs_swbfi all_tree_heights ((chunk_index, (chunk_mmr_mp, chunk)) # es) (chunks, mmr_leaf_indices) =
     bind_res (insert_agreeing chunk_index chunk chunks) (\<lambda>chunks.
       let height_by_path = of_nat (length (mp_path R chunk_mmr_mp)) :: u32 in
       bind_res (leaf_index_to_mt_index_and_peak_index R chunk_index num_leafs_swbfi) (\<lambda>(_, peak_index).
       bind_res (index_res all_tree_heights (unat peak_index)) (\<lambda>height_by_num_leafs.
       assert_then (height_by_num_leafs = height_by_path)
         (collect_chunks R num_leafs_swbfi all_tree_heights es
            (chunks, List.insert (height_by_path, chunk_index) mmr_leaf_indices)))))"

text \<open>The nodes on the authentication path of one chunk, up to the root of its tree.\<close>

fun climb ::
  "('d, 'm, 'p) crypto \<Rightarrow> u32 \<Rightarrow> u64 \<Rightarrow> 'd \<Rightarrow> 'd list \<Rightarrow> 'd sparse_mmr \<Rightarrow> 'd sparse_mmr res" where
  "climb C tree_height merkle_node_index running_digest [] sparse_mmr =
     insert_agreeing (tree_height, merkle_node_index) running_digest sparse_mmr"
| "climb C tree_height merkle_node_index running_digest (sibling_digest # path) sparse_mmr =
     bind_res (insert_agreeing (tree_height, merkle_node_index) running_digest sparse_mmr) (\<lambda>sparse_mmr.
     bind_res (insert_agreeing (tree_height, merkle_node_index XOR 1) sibling_digest sparse_mmr) (\<lambda>sparse_mmr.
       climb C tree_height (drop_bit 1 merkle_node_index)
         (if merkle_node_index AND 1 = 0 then hash_pair C running_digest sibling_digest
          else hash_pair C sibling_digest running_digest) path sparse_mmr))"

fun sparse_view ::
  "('d, 'm, 'p) crypto \<Rightarrow> ('d, 'p) rrl_ops \<Rightarrow> u64 \<Rightarrow> (u64 \<times> 'p authenticated_chunk) list \<Rightarrow> 'd sparse_mmr \<Rightarrow> 'd sparse_mmr res" where
  "sparse_view C R num_leafs_swbfi [] sparse_mmr = Inr sparse_mmr"
| "sparse_view C R num_leafs_swbfi ((chunk_index, (chunk_mmr_mp, chunk)) # es) sparse_mmr =
     bind_res (leaf_index_to_mt_index_and_peak_index R chunk_index num_leafs_swbfi) (\<lambda>(merkle_node_index, _).
     bind_res (climb C (of_nat (length (mp_path R chunk_mmr_mp))) merkle_node_index (hash_chunk C chunk)
       (mp_path R chunk_mmr_mp) sparse_mmr) (\<lambda>sparse_mmr.
       sparse_view C R num_leafs_swbfi es sparse_mmr))"

definition authentication_structure_for ::
  "('d, 'p) rrl_ops \<Rightarrow> 'd sparse_mmr \<Rightarrow> (u32 \<times> u64) list \<Rightarrow> u32 \<Rightarrow> 'd list res" where
  "authentication_structure_for R sparse_mmr mmr_leaf_indices tree_height =
     (let mmr_leaf_indices_for_this_tree = map snd (filter (\<lambda>(height, _). height = tree_height) mmr_leaf_indices);
          merkle_leaf_indices_for_this_tree =
            map (\<lambda>li. li AND (shl_one (unat tree_height) - 1)) mmr_leaf_indices_for_this_tree in
      bind_res (unwrap (authentication_structure_node_indices R (shl_one (unat tree_height)) merkle_leaf_indices_for_this_tree))
        (\<lambda>nodes. traverse (\<lambda>node_index. unwrap (map_of sparse_mmr (tree_height, node_index))) nodes))"

fun coalesce_chunks :: "(u64 \<times> chunk) list \<Rightarrow> (u64 \<times> chunk) list res" where
  "coalesce_chunks [] = Inr []"
| "coalesce_chunks [x] = Inr [x]"
| "coalesce_chunks (previous # current # rest) =
     (if fst previous = fst current
      then assert_then (snd previous = snd current) (coalesce_chunks (previous # rest))
      else bind_res (coalesce_chunks (current # rest)) (\<lambda>r. Inr (previous # r)))"

definition from_removal_records ::
  "('d, 'm, 'p) crypto \<Rightarrow> ('d, 'p) rrl_ops \<Rightarrow> 'p removal_record list \<Rightarrow> u64 \<Rightarrow> 'd removal_record_list res" where
  "from_removal_records C R removal_records num_leafs' =
     (let num_leafs_swbfi = aocl_to_swbfi_leaf_counts num_leafs';
          all_tree_heights = get_peak_heights R num_leafs_swbfi in
      bind_res (collect_chunks R num_leafs_swbfi all_tree_heights (all_entries removal_records) ([], []))
        (\<lambda>(chunks, mmr_leaf_indices).
      bind_res (sparse_view C R num_leafs_swbfi (all_entries removal_records) []) (\<lambda>sparse_mmr.
      bind_res (traverse (authentication_structure_for R sparse_mmr mmr_leaf_indices) (sort all_tree_heights)) (\<lambda>structures.
      bind_res (coalesce_chunks (sort_key fst chunks)) (\<lambda>chunks.
        Inr \<lparr>index_sets = map absolute_indices removal_records, authentication_structures = structures,
             rrl_chunks = map snd chunks, num_leafs_aocl = num_leafs'\<rparr>)))))"

section \<open>Estimating the number of leafs\<close>

fun estimate_loop :: "u64 \<Rightarrow> nat list \<Rightarrow> u64" where
  "estimate_loop estimate [] = estimate"
| "estimate_loop estimate (tree_height # hs) =
     (let tree_width = shl_one tree_height
      in estimate_loop (if estimate AND tree_width = 0 then (estimate OR tree_width) AND (- 1 - (tree_width - 1)) else estimate) hs)"

definition estimate_num_leafs_aocl :: "u64 list \<Rightarrow> nat list \<Rightarrow> u64 res" where
  "estimate_num_leafs_aocl observed_chunk_indices' path_lengths =
     (let largest_observed_chunk_index = (case iter_max observed_chunk_indices' of None \<Rightarrow> 0 | Some m \<Rightarrow> m) in
      assert_then (sorted (rev path_lengths))
     (assert_then (length (remdups_adj path_lengths) = length path_lengths)
       (Inr (estimate_loop largest_observed_chunk_index path_lengths * ucast BATCH_SIZE + 1))))"

definition convert_from_vec ::
  "('d, 'm, 'p) crypto \<Rightarrow> ('d, 'p) rrl_ops \<Rightarrow> 'p removal_record list \<Rightarrow> 'd removal_record_list res" where
  "convert_from_vec C R removal_records =
     (let observed_chunk_indices' = remdups_adj (sort (map fst
            (concat (map (\<lambda>rr. indices_and_leafs (hash_chunk C) (target_chunks rr)) removal_records))));
          authentication_path_lengths = remdups_adj (rev (sort (map (\<lambda>ap. length (mp_path R ap))
            (concat (map (\<lambda>rr. authentication_paths (target_chunks rr)) removal_records)))))
      in bind_res (estimate_num_leafs_aocl observed_chunk_indices' authentication_path_lengths)
           (from_removal_records C R removal_records))"

section \<open>Encoding\<close>

text \<open>The chunk indices of the inactive positions of index sets, before sorting.\<close>

definition chunk_indices_below :: "u128 \<Rightarrow> absolute_index_set list \<Rightarrow> u64 list res" where
  "chunk_indices_below window_start sets =
     traverse (\<lambda>ai. unwrap (u64_try_from (ai div ucast CHUNK_SIZE)))
       (filter (\<lambda>ai. ai < window_start) (concat (map ais_to_array sets)))"

definition observed_chunk_indices :: "'d removal_record_list \<Rightarrow> u64 list res" where
  "observed_chunk_indices l =
     (let swbfi_num_leafs = aocl_to_swbfi_leaf_counts (num_leafs_aocl l);
          window_start = (ucast swbfi_num_leafs :: u128) * ucast CHUNK_SIZE
      in bind_res (chunk_indices_below window_start (index_sets l)) (\<lambda>is. Inr (sort (remdups is))))"

fun zip_longest ::
  "('d, 'p) rrl_ops \<Rightarrow> (u64 \<times> 'd list) list \<Rightarrow> chunk list \<Rightarrow> (u64 \<times> 'p authenticated_chunk) list" where
  "zip_longest R [] [] = []"
| "zip_longest R ((tree_height, s) # ts) (packed_chunk # cs) =
     (tree_height, (mp_of_path R s, packed_chunk)) # zip_longest R ts cs"
| "zip_longest R ((tree_height, s) # ts) [] =
     (tree_height + ENCODING_TREE_HEIGHT_OFFSET, (mp_of_path R s, empty_chunk)) # zip_longest R ts []"
| "zip_longest R [] (packed_chunk # cs) =
     (ENCODING_DELIMITER_IGNORE_TREE_HEIGHT, (mp_of_path R [], packed_chunk)) # zip_longest R [] cs"

text \<open>\<^verbatim>\<open>zip_eq\<close> panics when the lengths differ.\<close>

definition zip_eq :: "'a list \<Rightarrow> 'b list \<Rightarrow> ('a \<times> 'b) list res" where
  "zip_eq xs ys = (if length xs = length ys then Inr (zip xs ys) else Inl ExplicitPanic)"

definition compressed_chunk_dictionary ::
  "('d, 'p) rrl_ops \<Rightarrow> 'd removal_record_list \<Rightarrow> 'p chunk_dictionary res" where
  "compressed_chunk_dictionary R l =
     (let num_swbf_leafs = aocl_to_swbfi_leaf_counts (num_leafs_aocl l);
          tree_heights = rev (map ucast (get_peak_heights R num_swbf_leafs)) in
      bind_res (observed_chunk_indices l) (\<lambda>chunk_indices.
      assert_then (length chunk_indices = length (rrl_chunks l))
     (bind_res (zip_eq tree_heights (authentication_structures l)) (\<lambda>trees.
      bind_res (traverse chunk_pack (rrl_chunks l)) (\<lambda>packed. Inr (ChunkDictionary (zip_longest R trees packed)))))))"

definition encode_as_vec :: "('d, 'p) rrl_ops \<Rightarrow> 'd removal_record_list \<Rightarrow> 'p removal_record list res" where
  "encode_as_vec R l =
     bind_res (compressed_chunk_dictionary R l) (\<lambda>d.
       Inr (map (\<lambda>(i, t). \<lparr>absolute_indices = i, target_chunks = t\<rparr>)
         (zip (index_sets l) (d # replicate (length (index_sets l)) cd_empty))))"

definition rrl_pack :: "('d, 'm, 'p) crypto \<Rightarrow> ('d, 'p) rrl_ops \<Rightarrow> 'p removal_record list \<Rightarrow> 'p removal_record list res" where
  "rrl_pack C R removal_records = bind_res (convert_from_vec C R removal_records) (encode_as_vec R)"

section \<open>Consistency\<close>

fun mmr_view_loop ::
  "('d, 'p) rrl_ops \<Rightarrow> u64 \<Rightarrow> u32 list \<Rightarrow> u64 list \<Rightarrow> (u32 \<times> u64) list \<Rightarrow> (u32 \<times> u64) list res" where
  "mmr_view_loop R swbfi_num_leafs all_peak_heights [] mmr_view = Inr mmr_view"
| "mmr_view_loop R swbfi_num_leafs all_peak_heights (chunk_index # is) mmr_view =
     bind_res (leaf_index_to_mt_index_and_peak_index R chunk_index swbfi_num_leafs) (\<lambda>(merkle_leaf_index, peak_index).
     bind_res (index_res all_peak_heights (unat peak_index)) (\<lambda>height.
       let merkle_leaf_index = merkle_leaf_index AND (- 1 XOR shl_one (unat height))
       in mmr_view_loop R swbfi_num_leafs all_peak_heights is (List.insert (peak_index, merkle_leaf_index) mmr_view)))"

definition leafs_of_tree :: "(u32 \<times> u64) list \<Rightarrow> nat \<times> u32 \<Rightarrow> u64 list res" where
  "leafs_of_tree mmr_view = (\<lambda>(peak_index, peak_height).
     let leaf_indices_for_this_tree = map snd (filter (\<lambda>(pi, _). pi = of_nat peak_index) mmr_view)
     in assert_then (\<forall>li\<in>set leaf_indices_for_this_tree. li < shl_one (unat peak_height)) (Inr leaf_indices_for_this_tree))"

definition expected_length :: "('d, 'p) rrl_ops \<Rightarrow> u32 \<times> u64 list \<Rightarrow> nat res" where
  "expected_length R = (\<lambda>(ph, mlis). case authentication_structure_node_indices R (shl_one (unat ph)) mlis of
     None \<Rightarrow> Inl ExplicitPanic | Some nodes \<Rightarrow> Inr (length nodes))"

definition validate_consistency ::
  "('d, 'p) rrl_ops \<Rightarrow> 'd removal_record_list \<Rightarrow> (removal_record_list_inconsistency + unit) res" where
  "validate_consistency R l =
     bind_res (observed_chunk_indices l) (\<lambda>observed.
     reject_if (length observed \<noteq> length (rrl_chunks l)) (ChunksInconsistency (length observed) (length (rrl_chunks l)))
    (let swbfi_num_leafs = aocl_to_swbfi_leaf_counts (num_leafs_aocl l);
         all_peak_heights = get_peak_heights R swbfi_num_leafs in
     bind_res (mmr_view_loop R swbfi_num_leafs all_peak_heights observed []) (\<lambda>mmr_view.
     let active_peak_indices = remdups (map fst mmr_view) in
     bind_res (traverse (leafs_of_tree mmr_view) (enumerate 0 all_peak_heights)) (\<lambda>merkle_leaf_indices_by_tree.
     let total_num_trees = length all_peak_heights; num_active_trees = length active_peak_indices in
     assert_then (num_active_trees \<le> total_num_trees)
    (let num_authentication_structures = length (authentication_structures l) in
     reject_if (num_authentication_structures \<noteq> total_num_trees)
       (AuthenticationStructureCount num_authentication_structures total_num_trees)
    (bind_res (traverse (expected_length R) (zip all_peak_heights merkle_leaf_indices_by_tree)) (\<lambda>lengths.
     let expected_lengths = sort lengths; observed_lengths = sort (map length (authentication_structures l)) in
     reject_if (expected_lengths \<noteq> observed_lengths) (AuthenticationStructureLength expected_lengths observed_lengths)
       (Inr (Inr ())))))))))"

section \<open>Decoding\<close>

text \<open>The state of the loop: tree heights, authentication structures and chunks, in the order in which they were pushed.\<close>

definition unpack_chunk :: "chunk \<Rightarrow> (removal_record_list_unpack_error + chunk) res" where
  "unpack_chunk c = bind_res (try_unpack c) (\<lambda>r. Inr (case r of Inl e \<Rightarrow> Inl (InnerDecodingFailure e) | Inr c \<Rightarrow> Inr c))"

type_synonym 'd decoded_trees = "u64 list \<times> 'd list list \<times> chunk list"

definition decode_entry ::
  "('d, 'p) rrl_ops \<Rightarrow> u64 \<times> 'p authenticated_chunk \<Rightarrow> 'd decoded_trees
     \<Rightarrow> (removal_record_list_unpack_error + 'd decoded_trees) res" where
  "decode_entry R = (\<lambda>(tree_height, (mmr_authentication_path, chunk)) (tree_heights, structures, chunks).
     if tree_height < ENCODING_TREE_HEIGHT_OFFSET then
       reject_if (tree_heights \<noteq> [] \<and> tree_height < last tree_heights) IncorrectlySortedTreeHeights
         (try_then (unpack_chunk chunk) (\<lambda>unpacked_chunk.
           Inr (Inr (tree_heights @ [tree_height], structures @ [mp_path R mmr_authentication_path], chunks @ [unpacked_chunk]))))
     else if tree_height < 2 * ENCODING_TREE_HEIGHT_OFFSET then
       Inr (Inr (tree_heights @ [tree_height - ENCODING_TREE_HEIGHT_OFFSET],
                 structures @ [mp_path R mmr_authentication_path], chunks))
     else if tree_height = ENCODING_DELIMITER_IGNORE_TREE_HEIGHT then
       try_then (unpack_chunk chunk) (\<lambda>unpacked_chunk. Inr (Inr (tree_heights, structures, chunks @ [unpacked_chunk])))
     else Inr (Inl (IllegalTreeHeight tree_height)))"

fun decode_entries ::
  "('d, 'p) rrl_ops \<Rightarrow> (u64 \<times> 'p authenticated_chunk) list \<Rightarrow> 'd decoded_trees
     \<Rightarrow> (removal_record_list_unpack_error + 'd decoded_trees) res" where
  "decode_entries R [] st = Inr (Inr st)"
| "decode_entries R (e # es) st =
     try_then (decode_entry R e st) (\<lambda>(tree_heights, structures, chunks).
       reject_if (length tree_heights \<noteq> length (remdups tree_heights)) DuplicateTreeHeights
         (decode_entries R es (tree_heights, structures, chunks)))"

definition observed_chunk_indices_from_index_sets ::
  "absolute_index_set list \<Rightarrow> nat \<Rightarrow> removal_record_list_unpack_error + u64 list" where
  "observed_chunk_indices_from_index_sets sets number =
     bind_res (traverse (\<lambda>abs_index. case u64_try_from (abs_index div ucast CHUNK_SIZE) of
         None \<Rightarrow> Inl AbsoluteIndexTooBig | Some chunk_index \<Rightarrow> Inr chunk_index)
       (concat (map ais_to_array sets)))
     (\<lambda>chunk_indices. Inr (take number (remdups_adj (sort chunk_indices))))"

definition decode_from_vec ::
  "('d, 'p) rrl_ops \<Rightarrow> 'p removal_record list \<Rightarrow> (removal_record_list_unpack_error + 'd removal_record_list) res" where
  "decode_from_vec R removal_records =
     (let sets = map absolute_indices removal_records in
      try_then (decode_entries R (all_entries removal_records) ([], [], [])) (\<lambda>(tree_heights, structures, chunks).
      try_then (Inr (observed_chunk_indices_from_index_sets sets (length chunks))) (\<lambda>observed.
      bind_res (estimate_num_leafs_aocl observed (rev (map unat tree_heights))) (\<lambda>num_leafs'.
      let l = \<lparr>index_sets = sets, authentication_structures = structures, rrl_chunks = chunks, num_leafs_aocl = num_leafs'\<rparr> in
      bind_res (validate_consistency R l) (\<lambda>r. Inr (case r of Inl e \<Rightarrow> Inl (Inconsistency e) | Inr _ \<Rightarrow> Inr l))))))"

section \<open>Back to removal records\<close>

fun insert_chunk_hashes ::
  "('d, 'm, 'p) crypto \<Rightarrow> ('d, 'p) rrl_ops \<Rightarrow> u64 \<Rightarrow> u32 list \<Rightarrow> (u64 \<times> chunk) list \<Rightarrow> 'd sparse_mmr \<Rightarrow> 'd sparse_mmr res" where
  "insert_chunk_hashes C R num_leafs_swbfi all_tree_heights [] sparse_mmr = Inr sparse_mmr"
| "insert_chunk_hashes C R num_leafs_swbfi all_tree_heights ((chunk_index, chunk) # cs) sparse_mmr =
     bind_res (leaf_index_to_mt_index_and_peak_index R chunk_index num_leafs_swbfi) (\<lambda>(merkle_tree_node_index, peak_index).
     bind_res (index_res all_tree_heights (unat peak_index)) (\<lambda>height.
       insert_chunk_hashes C R num_leafs_swbfi all_tree_heights cs
         (AList.update (height, merkle_tree_node_index) (hash_chunk C chunk) sparse_mmr)))"

definition nodes_at :: "u32 \<Rightarrow> 'd sparse_mmr \<Rightarrow> u64 list" where
  "nodes_at h sparse_mmr = map snd (filter (\<lambda>(height, _). height = h) (map fst sparse_mmr))"

fun insert_structures ::
  "('d, 'p) rrl_ops \<Rightarrow> (u32 \<times> 'd list) list \<Rightarrow> 'd sparse_mmr \<Rightarrow> 'd sparse_mmr res" where
  "insert_structures R [] sparse_mmr = Inr sparse_mmr"
| "insert_structures R ((tree_height, authentication_structure) # ts) sparse_mmr =
     (let leaf_indices_for_this_tree = map (\<lambda>node_index. node_index XOR shl_one (unat tree_height)) (nodes_at tree_height sparse_mmr) in
      bind_res (unwrap (authentication_structure_node_indices R (shl_one (unat tree_height)) leaf_indices_for_this_tree)) (\<lambda>nodes.
      assert_then (length authentication_structure = length nodes)
        (insert_structures R ts
          (foldl (\<lambda>m (node_index, node_hash). AList.update (tree_height, node_index) node_hash m) sparse_mmr
            (zip nodes authentication_structure)))))"

text \<open>The completion of a tree: parents are added until every pair of siblings has one.\<close>

fun add_parents :: "('d, 'm, 'p) crypto \<Rightarrow> u32 \<Rightarrow> u64 list \<Rightarrow> 'd sparse_mmr \<Rightarrow> 'd sparse_mmr res" where
  "add_parents C tree_height [] sparse_mmr = Inr sparse_mmr"
| "add_parents C tree_height (parent # ps) sparse_mmr =
     (let left_child = push_bit 1 parent; right_child = left_child XOR 1 in
      bind_res (unwrap (map_of sparse_mmr (tree_height, left_child))) (\<lambda>left_digest.
      bind_res (unwrap (map_of sparse_mmr (tree_height, right_child))) (\<lambda>right_digest.
        add_parents C tree_height ps
          (AList.update (tree_height, parent) (hash_pair C left_digest right_digest) sparse_mmr))))"

definition absent_parents :: "u32 \<Rightarrow> 'd sparse_mmr \<Rightarrow> u64 list" where
  "absent_parents tree_height sparse_mmr =
     (let current_tree_indices = sort (nodes_at tree_height sparse_mmr) in
      filter (\<lambda>ni. ni \<notin> set current_tree_indices)
        (map (\<lambda>(nil, _). drop_bit 1 nil)
          (filter (\<lambda>(nil, nir). nil = nir XOR 1) (zip current_tree_indices (tl current_tree_indices)))))"

lemma add_parents_keys:
  "add_parents C h ps m = Inr m' \<Longrightarrow> fst ` set m' = fst ` set m \<union> Pair h ` set ps"
proof (induction ps arbitrary: m)
  case (Cons p ps)
  then obtain d where "add_parents C h ps (AList.update (h, p) d m) = Inr m'" by (auto simp: Let_def bind_res_Inr)
  from Cons.IH [OF this] show ?case by (simp add: dom_update)
qed simp

lemma nodes_at_set: "set (nodes_at h m) = {i. (h, i) \<in> fst ` set m}"
  by (force simp: nodes_at_def)

lemma absent_parents_new: "p \<in> set (absent_parents h m) \<Longrightarrow> (h, p) \<notin> fst ` set m"
  by (auto simp: absent_parents_def Let_def nodes_at_set)

lemma add_parents_shrinks:
  fixes m :: "'d sparse_mmr"
  assumes "absent_parents h m \<noteq> []" "add_parents C h (absent_parents h m) m = Inr m'"
  shows "card (UNIV - {i. (h, i) \<in> fst ` set m'}) < card (UNIV - {i. (h, i) \<in> fst ` set m})"
proof -
  obtain p where "p \<in> set (absent_parents h m)" "(h, p) \<notin> fst ` set m"
    using assms(1) absent_parents_new by (metis list.set_intros(1) neq_Nil_conv)
  then have "UNIV - {i. (h, i) \<in> fst ` set m'} \<subset> UNIV - {i. (h, i) \<in> fst ` set m}"
    using add_parents_keys [OF assms(2)] by blast
  then show ?thesis by (simp add: psubset_card_mono)
qed

function complete_tree :: "('d, 'm, 'p) crypto \<Rightarrow> u32 \<Rightarrow> 'd sparse_mmr \<Rightarrow> 'd sparse_mmr res" where
  "complete_tree C tree_height sparse_mmr =
     (let absent_parent_nodes = absent_parents tree_height sparse_mmr in
      if absent_parent_nodes = [] then Inr sparse_mmr
      else case add_parents C tree_height absent_parent_nodes sparse_mmr of
        Inl e \<Rightarrow> Inl e
      | Inr sparse_mmr \<Rightarrow> complete_tree C tree_height sparse_mmr)"
  by pat_completeness auto
termination
  by (relation "measure (\<lambda>(C, h, m). card (UNIV - {i. (h, i) \<in> fst ` set m}))") (simp_all add: add_parents_shrinks)

fun complete_trees :: "('d, 'm, 'p) crypto \<Rightarrow> u32 list \<Rightarrow> 'd sparse_mmr \<Rightarrow> 'd sparse_mmr res" where
  "complete_trees C [] sparse_mmr = Inr sparse_mmr"
| "complete_trees C (tree_height # hs) sparse_mmr = bind_res (complete_tree C tree_height sparse_mmr) (complete_trees C hs)"

text \<open>The loop up from a leaf; a node index 0 would never reach the root.\<close>

function path_from :: "'d sparse_mmr \<Rightarrow> u32 \<Rightarrow> u64 \<Rightarrow> 'd list res" where
  "path_from sparse_mmr tree_height merkle_node_index =
     (if merkle_node_index = 1 then Inr []
      else case map_of sparse_mmr (tree_height, merkle_node_index XOR 1) of
        None \<Rightarrow> Inl ExplicitPanic
      | Some digest \<Rightarrow>
          if merkle_node_index = 0 then Inl StackOverflow
          else bind_res (path_from sparse_mmr tree_height (drop_bit 1 merkle_node_index)) (\<lambda>path. Inr (digest # path)))"
  by pat_completeness auto
termination
proof (relation "measure (\<lambda>(m, h, i). unat i)")
  fix m :: "'d sparse_mmr" and h and i :: u64
  assume "i \<noteq> 0"
  then have "unat i \<noteq> 0" by (simp add: unat_eq_0)
  then show "((m, h, drop_bit 1 i), m, h, i) \<in> measure (\<lambda>(m, h, i). unat i)" by (simp add: unat_drop_bit)
qed simp

declare complete_tree.simps [simp del] path_from.simps [simp del]

definition target_chunk_of ::
  "('d, 'p) rrl_ops \<Rightarrow> u64 \<Rightarrow> u32 list \<Rightarrow> (u64 \<rightharpoonup> chunk) \<Rightarrow> 'd sparse_mmr \<Rightarrow> u64 \<Rightarrow> (u64 \<times> 'p authenticated_chunk) res" where
  "target_chunk_of R num_leafs_swbfi all_tree_heights master sparse_mmr chunk_index =
     bind_res (unwrap (master chunk_index)) (\<lambda>chunk.
     bind_res (leaf_index_to_mt_index_and_peak_index R chunk_index num_leafs_swbfi) (\<lambda>(merkle_node_index, peak_index).
     bind_res (index_res all_tree_heights (unat peak_index)) (\<lambda>tree_height.
     bind_res (path_from sparse_mmr tree_height merkle_node_index) (\<lambda>authentication_path.
       Inr (chunk_index, (mp_of_path R authentication_path, chunk))))))"

definition removal_record_of ::
  "('d, 'p) rrl_ops \<Rightarrow> u64 \<Rightarrow> u32 list \<Rightarrow> u128 \<Rightarrow> (u64 \<rightharpoonup> chunk) \<Rightarrow> 'd sparse_mmr \<Rightarrow> absolute_index_set \<Rightarrow> 'p removal_record res" where
  "removal_record_of R num_leafs_swbfi all_tree_heights active_window_start master sparse_mmr index_set =
     bind_res (chunk_indices_below active_window_start [index_set]) (\<lambda>chunk_indices.
     bind_res (traverse (target_chunk_of R num_leafs_swbfi all_tree_heights master sparse_mmr)
         (remdups_adj (sort chunk_indices))) (\<lambda>chunks.
       Inr \<lparr>absolute_indices = index_set, target_chunks = cd_new chunks\<rparr>))"

definition convert_to_vec ::
  "('d, 'm, 'p) crypto \<Rightarrow> ('d, 'p) rrl_ops \<Rightarrow> 'd removal_record_list \<Rightarrow> 'p removal_record list res" where
  "convert_to_vec C R l =
     (let num_leafs_swbfi = aocl_to_swbfi_leaf_counts (num_leafs_aocl l);
          all_tree_heights = get_peak_heights R num_leafs_swbfi in
      assert_then (length all_tree_heights = length (authentication_structures l))
     (let active_window_start = (ucast (num_leafs_aocl l) :: u128) div ucast BATCH_SIZE * ucast CHUNK_SIZE in
      bind_res (chunk_indices_below active_window_start (index_sets l)) (\<lambda>indices.
      let all_chunk_indices = take (length (rrl_chunks l)) (remdups_adj (sort indices));
          master_chunks_dictionary = map_of (rev (zip all_chunk_indices (rrl_chunks l))) in
      bind_res (insert_chunk_hashes C R num_leafs_swbfi all_tree_heights (zip all_chunk_indices (rrl_chunks l)) []) (\<lambda>sparse_mmr.
      bind_res (zip_eq (sort all_tree_heights) (authentication_structures l)) (\<lambda>trees.
      bind_res (insert_structures R trees sparse_mmr) (\<lambda>sparse_mmr.
      assert_then (\<forall>v\<in>snd ` set sparse_mmr. take 8 (to_hex R v) \<noteq> ''be450642'')
     (bind_res (complete_trees C all_tree_heights sparse_mmr) (\<lambda>sparse_mmr.
        traverse (removal_record_of R num_leafs_swbfi all_tree_heights active_window_start master_chunks_dictionary sparse_mmr)
          (index_sets l)))))))))"

definition rrl_try_unpack ::
  "('d, 'm, 'p) crypto \<Rightarrow> ('d, 'p) rrl_ops \<Rightarrow> 'p removal_record list
     \<Rightarrow> (removal_record_list_unpack_error + 'p removal_record list) res" where
  "rrl_try_unpack C R removal_records =
     try_then (decode_from_vec R removal_records) (\<lambda>l. bind_res (convert_to_vec C R l) (\<lambda>rrs. Inr (Inr rrs)))"

section \<open>What the code relies on\<close>

text \<open>The leaf \<open>i\<close> of a Merkle mountain range with \<open>n\<close> leafs lies in the tree of height \<open>h\<close>: the highest position at which
  \<open>i\<close> and \<open>n\<close> differ. The nodes of a tree are numbered as in a heap, with the root at 1.\<close>

definition in_tree :: "u64 \<Rightarrow> u64 \<Rightarrow> nat \<Rightarrow> bool" where
  "in_tree n i h \<longleftrightarrow> bit n h \<and> \<not> bit i h \<and> drop_bit (Suc h) i = drop_bit (Suc h) n"

definition leaf_node :: "nat \<Rightarrow> u64 \<Rightarrow> u64" where
  "leaf_node h i = push_bit h 1 OR take_bit h i"

text \<open>The nodes that can be computed from the given leafs, the root apart, and the other nodes needed to compute the root.\<close>

definition computable_nodes :: "nat \<Rightarrow> u64 set \<Rightarrow> u64 set" where
  "computable_nodes h is = (\<Union>i\<in>is. (\<lambda>k. drop_bit k (leaf_node h i)) ` {..<h})"

definition structure_nodes :: "nat \<Rightarrow> u64 set \<Rightarrow> u64 set" where
  "structure_nodes h is = (\<lambda>i. i XOR 1) ` computable_nodes h is - computable_nodes h is"

locale rrl_laws =
  fixes R :: "('d, 'p) rrl_ops"
  assumes path_of_path: "mp_path R (mp_of_path R ds) = ds"
    and of_path_path: "mp_of_path R (mp_path R p) = p"
    and peak_heights: "get_peak_heights R n = map of_nat (rev (filter (bit n) [0..<64]))"
    and mt_index: "i < n \<Longrightarrow> \<exists>pk h. leaf_index_to_mt_index_and_peak_index R i n = Inr (leaf_node h i, pk) \<and>
      unat pk < length (get_peak_heights R n) \<and> get_peak_heights R n ! unat pk = of_nat h \<and> in_tree n i h"
    and node_indices: "h < 64 \<Longrightarrow> \<forall>i\<in>set is. i < push_bit h 1 \<Longrightarrow>
      \<exists>nodes. authentication_structure_node_indices R (push_bit h 1) is = Some nodes \<and> sorted_wrt (>) nodes \<and>
        set nodes = structure_nodes h (set is)"

end
