(* ===== verification/Removal_Record_Packing.thy ===== *)
theory Removal_Record_Packing
  imports Removal_Record_List
begin

text \<open>
  Packing. What \<^verbatim>\<open>try_unpack\<close> accepts fits the window; the number of leafs that \<^verbatim>\<open>estimate_num_leafs_aocl\<close> guesses has the
  same trees for the observed chunks as the real one; and records that agree with one Merkle mountain range (locales
  \<open>range_view\<close>, \<open>merkle_range\<close>) are turned into a list that encodes and decodes to itself.
\<close>

section \<open>What unpacking accepts\<close>

lemma unwrap_Inr: "unwrap x = Inr a \<longleftrightarrow> x = Some a"
  by (auto simp: unwrap_def split: option.splits)

lemma ok_or_Inr: "(case x of None \<Rightarrow> Inl e | Some k \<Rightarrow> Inr k) = Inr y \<longleftrightarrow> x = Some y"
  by (auto split: option.splits)

lemma sorted_remdups_adj_strict: "sorted xs \<Longrightarrow> sorted_wrt (<) (remdups_adj xs)"
  by (induction xs rule: remdups_adj.induct) (auto simp: order_le_less)

lemma u64_try_from_chunk: "u64_try_from (x div ucast CHUNK_SIZE) = Some k \<longleftrightarrow> unat x < 2 ^ 76 \<and> unat k = unat x div 4096"
proof -
  have d: "unat (x div ucast CHUNK_SIZE) = unat x div 4096" by (simp add: unat_div CHUNK_SIZE_def)
  have "x div ucast CHUNK_SIZE < push_bit 64 1 \<longleftrightarrow> unat x div 4096 < 2 ^ 64"
    by (simp add: word_less_nat_alt d)
  moreover have "unat x div 4096 < 2 ^ 64 \<longleftrightarrow> unat x < 2 ^ 76" by (simp add: div_less_iff_less_mult)
  moreover have "unat (ucast (x div ucast CHUNK_SIZE) :: u64) = unat x div 4096" if "unat x < 2 ^ 76"
    using that by (simp add: unat_ucast_mod d)
  ultimately show ?thesis by (auto simp: u64_try_from_def word_eq_unatI split: if_splits)
qed

lemma case_unit_result: "(case r of Inl e \<Rightarrow> Inl (f e) | Inr u \<Rightarrow> Inr l) = Inr x \<longleftrightarrow> r = Inr () \<and> x = l"
  by (cases r) auto

lemma decode_from_vecE:
  assumes "decode_from_vec R packed = Inr (Inr l)"
  obtains hs ss cs obs n where
    "decode_entries R (all_entries packed) ([], [], []) = Inr (Inr (hs, ss, cs))"
    "observed_chunk_indices_from_index_sets (map absolute_indices packed) (length cs) = Inr obs"
    "estimate_num_leafs_aocl obs (rev (map unat hs)) = Inr n"
    "l = \<lparr>index_sets = map absolute_indices packed, authentication_structures = ss, rrl_chunks = cs, num_leafs_aocl = n\<rparr>"
    "validate_consistency R l = Inr (Inr ())"
  using assms that
  by (fastforce simp: decode_from_vec_def Let_def try_then_ok bind_res_Inr case_unit_result split: prod.splits)

section \<open>What unpacking returns\<close>

lemma decode_from_vec_ok:
  assumes "decode_from_vec R packed = Inr (Inr l)"
  shows "index_sets l = map absolute_indices packed"
    and "\<forall>rr\<in>set packed. \<forall>x\<in>set (ais_to_array (absolute_indices rr)). unat x < 2 ^ 76"
proof -
  obtain cs :: "chunk list" and obs where
    obs: "observed_chunk_indices_from_index_sets (map absolute_indices packed) (length cs) = Inr obs"
    and l: "index_sets l = map absolute_indices packed"
    using assms by (elim decode_from_vecE) auto
  show "index_sets l = map absolute_indices packed" by (rule l)
  from obs obtain ks where "list_all2 (\<lambda>x k. u64_try_from (x div ucast CHUNK_SIZE) = Some k)
      (concat (map ais_to_array (map absolute_indices packed))) ks"
    by (auto simp: observed_chunk_indices_from_index_sets_def bind_res_Inr traverse_Inr ok_or_Inr)
  then have "\<forall>x\<in>set (concat (map ais_to_array (map absolute_indices packed))). unat x < 2 ^ 76"
    by (induction rule: list_all2_induct) (simp_all add: u64_try_from_chunk)
  then show "\<forall>rr\<in>set packed. \<forall>x\<in>set (ais_to_array (absolute_indices rr)). unat x < 2 ^ 76" by auto
qed

lemma removal_record_of_ok:
  assumes "removal_record_of R n hs ws master m a = Inr rr"
  shows "absolute_indices rr = a" "wf_dictionary (target_chunks rr)"
proof -
  from assms obtain ks es where rr: "rr = \<lparr>absolute_indices = a, target_chunks = cd_new es\<rparr>"
    and es: "traverse (target_chunk_of R n hs master m) (remdups_adj (sort ks)) = Inr es"
    by (auto simp: removal_record_of_def bind_res_Inr)
  have "list_all2 (\<lambda>k e. fst e = k) (remdups_adj (sort ks)) es"
    using es unfolding traverse_Inr by (rule list_all2_mono) (auto simp: target_chunk_of_def bind_res_Inr split: prod.splits)
  then have "map fst es = remdups_adj (sort ks)" by (simp add: list_all2_conv_all_nth list_eq_iff_nth_eq)
  then have strict: "sorted_wrt (<) (map fst es)" by (simp add: sorted_remdups_adj_strict)
  then have "sort_key fst es = es" by (intro sort_key_id_if_sorted) (simp add: strict_sorted_imp_sorted)
  then show "absolute_indices rr = a" "wf_dictionary (target_chunks rr)"
    using rr strict by (simp_all add: wf_dictionary_def cd_new_def)
qed

lemma try_unpackE:
  assumes "rrl_try_unpack C R packed = Inr (Inr rrs)"
  obtains l n hs ws master m where "decode_from_vec R packed = Inr (Inr l)"
    "list_all2 (\<lambda>a rr. removal_record_of R n hs ws master m a = Inr rr) (map absolute_indices packed) rrs"
proof -
  from assms obtain l where l: "decode_from_vec R packed = Inr (Inr l)" "convert_to_vec C R l = Inr rrs"
    by (auto simp: rrl_try_unpack_def try_then_ok bind_res_Inr)
  then obtain n hs ws master m where "traverse (removal_record_of R n hs ws master m) (index_sets l) = Inr rrs"
    by (auto simp: convert_to_vec_def Let_def bind_res_Inr assert_then_def split: if_splits)
  then show ?thesis using that l(1) decode_from_vec_ok(1) [OF l(1)] by (auto simp: traverse_Inr)
qed

lemma try_unpack_fits:
  assumes "rrl_try_unpack C R packed = Inr (Inr rrs)"
  shows "map absolute_indices rrs = map absolute_indices packed \<and> list_all fits_window rrs"
proof -
  obtain l n hs ws master m where l: "decode_from_vec R packed = Inr (Inr l)"
    and all: "list_all2 (\<lambda>a rr. removal_record_of R n hs ws master m a = Inr rr) (map absolute_indices packed) rrs"
    using assms by (rule try_unpackE)
  have "list_all2 (\<lambda>a rr. absolute_indices rr = a \<and> wf_dictionary (target_chunks rr)) (map absolute_indices packed) rrs"
    using all by (rule list_all2_mono) (simp add: removal_record_of_ok)
  then have sets: "map absolute_indices rrs = map absolute_indices packed" and "list_all (\<lambda>rr. wf_dictionary (target_chunks rr)) rrs"
    by (simp_all add: list_all2_conv_all_nth list_eq_iff_nth_eq list_all_length)
  moreover have "\<forall>a\<in>set (map absolute_indices packed). \<forall>x\<in>set (ais_to_array a). unat x < 2 ^ 76"
    using decode_from_vec_ok(2) [OF l] by simp
  ultimately show ?thesis by (fastforce simp: fits_window_def list_all_iff simp flip: sets)
qed

section \<open>Bits of leaf counts\<close>

lemma in_tree_length: "in_tree n i h \<Longrightarrow> h < 64"
  by (auto simp: in_tree_def dest: bit_imp_le_length)

lemma in_treeD: "in_tree n i h \<Longrightarrow> bit n h" "in_tree n i h \<Longrightarrow> \<not> bit i h"
  by (simp_all add: in_tree_def)

lemma in_tree_above: "in_tree n i h \<Longrightarrow> h < j \<Longrightarrow> bit i j = bit n j"
proof -
  assume "in_tree n i h" "h < j"
  then have "bit (drop_bit (Suc h) i) (j - Suc h) = bit (drop_bit (Suc h) n) (j - Suc h)" by (simp add: in_tree_def)
  with \<open>h < j\<close> show ?thesis by (simp add: bit_drop_bit_eq)
qed

lemma drop_bit_eqI:
  fixes i n :: u64
  assumes "\<And>j. h \<le> j \<Longrightarrow> bit i j = bit n j"
  shows "drop_bit h i = drop_bit h n"
  by (rule bit_eqI) (simp add: bit_drop_bit_eq assms)

lemma in_treeI:
  assumes "bit n h" "\<not> bit i h" "\<And>j. h < j \<Longrightarrow> bit i j = bit n j"
  shows "in_tree n i h"
  unfolding in_tree_def using assms(1,2) drop_bit_eqI [of "Suc h" i n] assms(3) Suc_le_eq by blast

lemma half_eq_less: "(a::nat) div 2 = b div 2 \<Longrightarrow> odd b \<Longrightarrow> even a \<Longrightarrow> a < b"
  by presburger

lemma less_by_bit:
  fixes i n :: u64
  assumes "bit n h" "\<not> bit i h" "\<And>j. h < j \<Longrightarrow> bit i j = bit n j"
  shows "i < n"
proof -
  have "drop_bit (Suc h) i = drop_bit (Suc h) n" by (rule drop_bit_eqI) (simp add: assms(3) Suc_le_eq)
  then have "unat i div 2 ^ Suc h = unat n div 2 ^ Suc h" by (metis unat_drop_bit)
  then have "unat i div 2 ^ h div 2 = unat n div 2 ^ h div 2" by (simp add: div_mult2_eq [symmetric] mult.commute)
  moreover have "bit (unat n) h" "\<not> bit (unat i) h" using assms(1,2) by (simp_all add: bit_unsigned_iff)
  then have "odd (unat n div 2 ^ h)" "even (unat i div 2 ^ h)" by (simp_all add: bit_iff_odd)
  ultimately have "unat i div 2 ^ h < unat n div 2 ^ h" by (rule half_eq_less)
  then have "unat i < unat n" by (meson div_le_mono not_le)
  then show ?thesis by (simp add: word_less_nat_alt)
qed

lemma in_tree_less: "in_tree n i h \<Longrightarrow> i < n"
  by (rule less_by_bit [of n h]) (simp_all add: in_treeD in_tree_above)

lemma in_tree_mono:
  assumes "in_tree n i h" "in_tree n j k" "i \<le> j"
  shows "k \<le> h"
proof (rule ccontr)
  assume "\<not> k \<le> h"
  then have "bit i k" "\<And>l. k < l \<Longrightarrow> bit j l = bit i l"
    using in_tree_above [OF assms(1)] in_tree_above [OF assms(2)] in_treeD(1) [OF assms(2)] by simp_all
  then have "j < i" using in_treeD(2) [OF assms(2)] by (intro less_by_bit)
  with assms(3) show False by simp
qed

lemma in_tree_unique: "in_tree n i h \<Longrightarrow> in_tree n i k \<Longrightarrow> h = k"
  by (meson in_tree_mono order_antisym order_refl)

lemma in_tree_exists:
  assumes "i < n"
  shows "\<exists>h. in_tree n i h"
proof -
  let ?D = "{h. bit i h \<noteq> bit n h}"
  have "?D \<subseteq> {..<64}" by (auto dest: bit_imp_le_length)
  then have fin: "finite ?D" by (rule finite_subset) simp
  have "?D \<noteq> {}"
  proof
    assume "?D = {}"
    then have "i = n" by (intro bit_eqI) blast
    with assms show False by simp
  qed
  then obtain d where d: "bit i d \<noteq> bit n d" "\<And>j. bit i j \<noteq> bit n j \<Longrightarrow> j \<le> d"
    using Max_in [OF fin] Max_ge [OF fin] by blast
  then have above: "bit i j = bit n j" if "d < j" for j using that leD by blast
  have "bit n d"
  proof (rule ccontr)
    assume "\<not> bit n d"
    moreover from this d(1) have "bit i d" by blast
    ultimately have "n < i" using above by (intro less_by_bit [of i d n]) blast+
    with assms show False by simp
  qed
  moreover from this d(1) have "\<not> bit i d" by blast
  ultimately have "in_tree n i d" using above by (rule in_treeI)
  then show ?thesis by blast
qed

section \<open>The estimated number of leafs\<close>

lemma shl_one_push: "h < 64 \<Longrightarrow> shl_one h = push_bit h 1"
  by (simp add: shl_one_def)

lemma estimate_step_bits:
  assumes "h < 64"
  shows "e AND shl_one h = 0 \<longleftrightarrow> \<not> bit e h"
    and "bit ((e OR shl_one h) AND (- 1 - (shl_one h - 1))) j \<longleftrightarrow> (if h < j then bit e j else j = h)"
proof -
  have w: "shl_one h = 2 ^ h" using assms by (simp add: shl_one_def push_bit_of_1)
  show "e AND shl_one h = 0 \<longleftrightarrow> \<not> bit e h" by (simp add: w and_exp_eq_0_iff_not_bit)
  have "- 1 - (shl_one h - 1) = NOT (mask h)" by (simp add: w not_eq_complement mask_eq_exp_minus_1)
  then show "bit ((e OR shl_one h) AND (- 1 - (shl_one h - 1))) j \<longleftrightarrow> (if h < j then bit e j else j = h)"
    using assms by (auto simp: w bit_and_iff bit_or_iff bit_not_iff bit_mask_iff bit_exp_iff dest: bit_imp_le_length)
qed

text \<open>Below the tree of the largest index the loop collects exactly the given heights, above it nothing changes.\<close>

lemma estimate_loop_low:
  assumes "sorted_wrt (>) hs" "\<forall>h\<in>set hs. h < 64 \<and> (\<forall>j\<le>h. \<not> bit e j)"
  shows "bit (estimate_loop e hs) j \<longleftrightarrow> bit e j \<or> j \<in> set hs"
  using assms
proof (induction hs arbitrary: e)
  case (Cons h hs)
  then have h: "h < 64" "\<And>j. j \<le> h \<Longrightarrow> \<not> bit e j" by simp_all
  define e' where "e' = (e OR shl_one h) AND (- 1 - (shl_one h - 1))"
  have bits: "bit e' j \<longleftrightarrow> bit e j \<or> j = h" for j
    unfolding e'_def estimate_step_bits(2) [OF h(1)] using h(2) [of j] by auto
  have "estimate_loop e (h # hs) = estimate_loop e' hs"
    using h(2) [of h] by (simp add: Let_def estimate_step_bits(1) [OF h(1)] e'_def)
  moreover have "bit (estimate_loop e' hs) j \<longleftrightarrow> bit e' j \<or> j \<in> set hs"
    using Cons.prems by (intro Cons.IH) (auto simp: bits)
  ultimately show ?case by (auto simp: bits)
qed simp

lemma estimate_loop_keep: "\<forall>h\<in>set hs. h < 64 \<and> bit e h \<Longrightarrow> estimate_loop e (hs @ gs) = estimate_loop e gs"
  by (induction hs) (simp_all add: Let_def estimate_step_bits(1))

lemma estimate_loop_bits:
  assumes "in_tree n i d" "sorted_wrt (>) hs" "\<forall>h\<in>set hs. bit n h" "d \<in> set hs"
  shows "bit (estimate_loop i hs) j \<longleftrightarrow> (if d < j then bit n j else j = d \<or> j \<in> set hs)"
proof -
  obtain as bs where hs: "hs = as @ d # bs" using assms(4) by (meson split_list)
  have len: "h \<in> set hs \<Longrightarrow> h < 64" for h using assms(3) bit_imp_le_length [of n h] by auto
  have as: "\<forall>h\<in>set as. h < 64 \<and> bit i h"
    using assms(2,3) len in_tree_above [OF assms(1)] by (auto simp: hs sorted_wrt_append)
  define e where "e = (i OR shl_one d) AND (- 1 - (shl_one d - 1))"
  have d: "d < 64" using assms(1) by (rule in_tree_length)
  have bits: "bit e j \<longleftrightarrow> (if d < j then bit i j else j = d)" for j unfolding e_def by (rule estimate_step_bits(2) [OF d])
  have "estimate_loop i hs = estimate_loop e bs"
    using in_treeD(2) [OF assms(1)] by (simp add: hs estimate_loop_keep [OF as] Let_def estimate_step_bits(1) [OF d] e_def)
  moreover have "bit (estimate_loop e bs) j \<longleftrightarrow> bit e j \<or> j \<in> set bs"
    using assms(2) len by (intro estimate_loop_low) (auto simp: hs sorted_wrt_append bits)
  moreover have "j \<in> set bs \<Longrightarrow> j < d" "j \<in> set as \<Longrightarrow> d < j" using assms(2) by (auto simp: hs sorted_wrt_append)
  ultimately show ?thesis
    using in_tree_above [OF assms(1), of j] by (auto simp: bits hs)
qed

text \<open>From all the heights of a range the loop finds its number of leafs; from the observed heights it finds the number
  with the trees after the last observed one taken away.\<close>

definition bit_positions :: "u64 \<Rightarrow> nat list" where
  "bit_positions n = rev (filter (bit n) [0..<64])"

lemma bit_positions: "sorted_wrt (>) (bit_positions n)" "set (bit_positions n) = {h. bit n h}"
  by (auto simp: bit_positions_def sorted_wrt_rev sorted_wrt_filter dest: bit_imp_le_length)

lemma estimate_all_heights:
  assumes "n = 0 \<and> i = 0 \<or> i < n"
  shows "estimate_loop i (bit_positions n) = n"
proof (cases "n = 0")
  case True
  then show ?thesis using assms by (simp add: bit_positions_def)
next
  case False
  with assms obtain d where d: "in_tree n i d" using in_tree_exists by blast
  show ?thesis
    using estimate_loop_bits [OF d bit_positions(1)] in_treeD(1) [OF d]
    by (intro bit_eqI) (auto simp: bit_positions)
qed

lemma estimate_observed:
  assumes "in_tree n i d" "sorted_wrt (>) hs" "\<forall>h\<in>set hs. bit n h \<and> d \<le> h" "d \<in> set hs"
  shows "bit (estimate_loop i hs) j \<longleftrightarrow> bit n j \<and> d \<le> j"
  using assms estimate_loop_bits [OF assms(1,2) _ assms(4), of j] in_treeD(1) [OF assms(1)] by (auto simp: le_less)

section \<open>Nodes of a tree\<close>

lemma unat_exp64: "h < 64 \<Longrightarrow> unat (2 ^ h :: u64) = 2 ^ h"
proof -
  assume "h < 64"
  then have "(2::nat) ^ h < 2 ^ 64" by (intro power_strict_increasing) auto
  then have "unat (of_nat (2 ^ h) :: u64) = 2 ^ h" by (simp only: unat_of_nat) simp
  then show ?thesis by simp
qed

lemma even_u64: "even (i :: u64) \<longleftrightarrow> even (unat i)"
proof -
  have "bit (unat i) 0 \<longleftrightarrow> bit i 0" unfolding bit_unsigned_iff by simp
  then show ?thesis by (simp add: bit_0)
qed

lemma bit_leaf_node: "h < 64 \<Longrightarrow> bit (leaf_node h i) j \<longleftrightarrow> j = h \<or> j < h \<and> bit i j"
  by (auto simp: leaf_node_def bit_or_iff bit_take_bit_iff push_bit_of_1 bit_exp_iff)

lemma unat_leaf_node: "h < 64 \<Longrightarrow> unat (leaf_node h i) = 2 ^ h + unat i mod 2 ^ h"
proof -
  assume h: "h < 64"
  have "leaf_node h i = push_bit h 1 + take_bit h i"
    unfolding leaf_node_def by (rule or_eq_plus_word) (auto intro!: bit_eqI simp: bit_and_iff bit_take_bit_iff push_bit_of_1 bit_exp_iff)
  moreover have "unat (push_bit h 1 :: u64) = 2 ^ h" using h by (simp add: push_bit_of_1 unat_exp64)
  moreover have "2 ^ h + unat (take_bit h i) < 2 ^ 64"
  proof -
    have "unat (take_bit h i) < 2 ^ h" by (simp add: unat_take_bit)
    moreover have "(2::nat) ^ Suc h \<le> 2 ^ 64" using h by (intro power_increasing) auto
    ultimately show ?thesis by simp
  qed
  ultimately show ?thesis by (simp add: unat_add_no_overflow unat_take_bit)
qed

lemma leaf_node_take: "leaf_node h (take_bit h i) = leaf_node h i"
  by (simp add: leaf_node_def)

lemma leaf_node_leaf:
  assumes "h < 64"
  shows "leaf_node h i XOR shl_one h = take_bit h i" "leaf_node h i AND (- 1 XOR shl_one h) = take_bit h i"
    and "take_bit h i < shl_one h"
proof -
  have w: "shl_one h = 2 ^ h" using assms by (simp add: shl_one_def push_bit_of_1)
  show "leaf_node h i XOR shl_one h = take_bit h i"
    by (rule bit_eqI) (auto simp: w bit_xor_iff bit_leaf_node [OF assms] bit_exp_iff bit_take_bit_iff)
  show "leaf_node h i AND (- 1 XOR shl_one h) = take_bit h i"
    using assms by (intro bit_eqI) (auto simp: w bit_xor_iff bit_and_iff bit_not_iff bit_leaf_node [OF assms] bit_exp_iff bit_take_bit_iff)
  have "unat (shl_one h) = 2 ^ h" using assms by (simp add: w unat_exp64)
  then show "take_bit h i < shl_one h" by (simp add: word_less_nat_alt unat_take_bit)
qed

lemma unat_xor_one: "unat (i XOR 1 :: u64) = (if even (unat i) then unat i + 1 else unat i - 1)"
proof (cases "even (unat i)")
  case True
  have "unat i + 1 < 2 ^ 64" using unat_u64_lt [of i] True by (elim evenE) simp
  then have "unat (i + 1) = unat i + 1" by (simp add: unat_add_no_overflow)
  moreover have "i XOR 1 = i + 1" using True by (simp add: xor_one_eq even_u64)
  ultimately show ?thesis using True by simp
next
  case False
  then have "1 \<le> i" by (metis even_zero unat_0 unat_eq_zero word_less_1 not_le)
  then have "unat (i - 1) = unat i - 1" by (simp add: unat_sub_le)
  moreover have "i XOR 1 = i - 1" using False by (simp add: xor_one_eq even_u64)
  ultimately show ?thesis using False by simp
qed

lemma drop_bit_xor_one: "drop_bit 1 (i XOR 1 :: u64) = drop_bit 1 i"
proof (rule word_eq_unatI)
  have "(if even (unat i) then unat i + 1 else unat i - 1) div 2 = unat i div 2" by auto presburger
  then show "unat (drop_bit 1 (i XOR 1)) = unat (drop_bit 1 i)" by (simp only: unat_drop_bit unat_xor_one power_one_right)
qed

lemma push_drop_bit:
  fixes i :: u64
  shows "push_bit 1 (drop_bit 1 i) = (if i AND 1 = 0 then i else i XOR 1)"
    and "push_bit 1 (drop_bit 1 i) XOR 1 = (if i AND 1 = 0 then i XOR 1 else i)"
proof -
  have u: "unat (push_bit 1 (drop_bit 1 i)) = 2 * (unat i div 2)"
  proof -
    have "push_bit 1 (drop_bit 1 i) = 2 * drop_bit 1 i" by (simp add: push_bit_eq_mult)
    moreover have "unat (2 :: u64) * unat (drop_bit 1 i) < 2 ^ 64" using unat_u64_lt [of i] by (simp add: unat_drop_bit del: One_nat_def)
    ultimately show ?thesis using unat_mult_no_overflow [of "2 :: u64" "drop_bit 1 i"] by (simp add: unat_drop_bit del: One_nat_def)
  qed
  have e: "i AND 1 = 0 \<longleftrightarrow> even (unat i)"
    by (simp add: and_one_eq mod_2_eq_odd flip: even_u64)
  show 1: "push_bit 1 (drop_bit 1 i) = (if i AND 1 = 0 then i else i XOR 1)"
  proof (rule word_eq_unatI)
    have "2 * (unat i div 2) = (if even (unat i) then unat i else unat i - 1)" by auto
    then show "unat (push_bit 1 (drop_bit 1 i)) = unat (if i AND 1 = 0 then i else i XOR 1)"
      unfolding u e by (cases "even (unat i)") (simp_all only: unat_xor_one if_True if_False)
  qed
  show "push_bit 1 (drop_bit 1 i) XOR 1 = (if i AND 1 = 0 then i XOR 1 else i)"
    unfolding 1 by (simp add: xor.assoc)
qed

section \<open>Tables that agree with a function\<close>

definition agrees :: "('k \<Rightarrow> 'v) \<Rightarrow> ('k \<times> 'v) list \<Rightarrow> bool" where
  "agrees f m \<longleftrightarrow> distinct (map fst m) \<and> (\<forall>(k, v)\<in>set m. v = f k)"

lemma agrees_Nil [simp]: "agrees f []"
  by (simp add: agrees_def)

lemma agrees_map_of: "agrees f m \<Longrightarrow> map_of m k = (if k \<in> fst ` set m then Some (f k) else None)"
  by (auto simp: agrees_def map_of_eq_None_iff dest: map_of_SomeD split: option.splits)

lemma agrees_update:
  assumes "agrees f m"
  shows "agrees f (AList.update k (f k) m)"
proof -
  have "v = f j" if "(j, v) \<in> set (AList.update k (f k) m)" for j v
    using that assms by (induction m) (auto simp: agrees_def split: if_splits)
  then show ?thesis using assms by (auto simp: agrees_def distinct_update)
qed

lemma agrees_insert: "agrees f m \<Longrightarrow> insert_agreeing k (f k) m = Inr (AList.update k (f k) m)"
  by (simp add: insert_agreeing_def agrees_map_of assert_then_def)

lemma agrees_fold:
  assumes "agrees f m"
  shows "agrees f (foldl (\<lambda>m k. AList.update k (f k) m) m ks) \<and>
    fst ` set (foldl (\<lambda>m k. AList.update k (f k) m) m ks) = fst ` set m \<union> set ks"
  using assms by (induction ks arbitrary: m) (auto simp: agrees_update dom_update)

section \<open>Removal records that agree with one Merkle mountain range\<close>

text \<open>\<open>nd h i\<close> is the digest of the node \<open>i\<close> of the tree of height \<open>h\<close>, and \<open>ch k\<close> the chunk at the leaf \<open>k\<close>. An entry of a
  dictionary agrees with them when its chunk is that of its leaf and its path lists the siblings from the leaf to the root.\<close>

definition node_path :: "(nat \<Rightarrow> u64 \<Rightarrow> 'd) \<Rightarrow> nat \<Rightarrow> u64 \<Rightarrow> 'd list" where
  "node_path nd h i = map (\<lambda>k. nd h (drop_bit k i XOR 1)) [0..<h]"

definition tree_of :: "u64 \<Rightarrow> u64 \<Rightarrow> nat" where
  "tree_of n k = (THE h. in_tree n k h)"

definition honest_entry ::
  "('d, 'm, 'p) crypto \<Rightarrow> ('d, 'p) rrl_ops \<Rightarrow> u64 \<Rightarrow> (nat \<Rightarrow> u64 \<Rightarrow> 'd) \<Rightarrow> (u64 \<Rightarrow> chunk) \<Rightarrow> u64 \<times> 'p authenticated_chunk \<Rightarrow> bool" where
  "honest_entry C R n nd ch = (\<lambda>(k, (mp, c)). k < n \<and> c = ch k \<and>
     hash_chunk C c = nd (tree_of n k) (leaf_node (tree_of n k) k) \<and>
     mp_path R mp = node_path nd (tree_of n k) (leaf_node (tree_of n k) k))"

lemma tree_of: "in_tree n k h \<Longrightarrow> tree_of n k = h"
  unfolding tree_of_def using in_tree_unique by blast

lemma tree_of_in: "k < n \<Longrightarrow> in_tree n k (tree_of n k)"
  using in_tree_exists tree_of by metis

lemma tree_of_64: "k < n \<Longrightarrow> tree_of n k < 64"
  using tree_of_in in_tree_length by blast

lemma unat_height: "h < 64 \<Longrightarrow> unat (of_nat h :: u32) = h"
  by (simp add: unat_of_nat)

lemma unat_height64: "h < 64 \<Longrightarrow> unat (of_nat h :: u64) = h"
  by (simp add: unat_of_nat)

lemma ucast_height: "h < 64 \<Longrightarrow> ucast (of_nat h :: u32) = (of_nat h :: u64)"
  by (rule word_eq_unatI) (simp add: unat_ucast_mod unat_of_nat)

lemma length_node_path [simp]: "length (node_path nd h i) = h"
  by (simp add: node_path_def)

definition structure_of :: "nat \<Rightarrow> u64 set \<Rightarrow> u64 list" where
  "structure_of h is = rev (sorted_list_of_set (structure_nodes h is))"

definition tree_leafs :: "u64 \<Rightarrow> u64 set \<Rightarrow> nat \<Rightarrow> u64 set" where
  "tree_leafs n K h = take_bit h ` {k \<in> K. tree_of n k = h}"

lemma leaf_node_range: "h < 64 \<Longrightarrow> 2 ^ h \<le> unat (leaf_node h i)" "h < 64 \<Longrightarrow> unat (leaf_node h i) < 2 ^ Suc h"
  by (simp_all add: unat_leaf_node)

lemma finite_nodes: "finite (S :: u64 set)"
  by (rule finite_subset [OF subset_UNIV]) simp

lemma structure_nodeE:
  assumes "i \<in> structure_nodes h (tree_leafs n K h)"
  obtains k j where "k \<in> K" "tree_of n k = h" "j < h" "i = drop_bit j (leaf_node h k) XOR 1"
  using assms that by (auto simp: structure_nodes_def computable_nodes_def tree_leafs_def leaf_node_take)

lemma bit_less_64: "bit (n :: u64) h \<Longrightarrow> h < 64"
  using bit_imp_le_length [of n h] by simp

lemma snd_of_tagged: "snd ` {p \<in> (\<lambda>k. (f k, k)) ` K. fst p = w} = {k \<in> K. f k = w}"
  by (auto simp: image_iff)

lemma snd_of_pairs: "snd ` {p \<in> (\<lambda>k. (f k, g k)) ` K. fst p = w} = g ` {k \<in> K. f k = w}"
  by (auto simp: image_iff)

lemma traverse_exists:
  "(\<And>x. x \<in> set xs \<Longrightarrow> \<exists>y. f x = Inr y \<and> P x y) \<Longrightarrow> \<exists>ys. traverse f xs = Inr ys \<and> list_all2 P xs ys"
  by (induction xs) (fastforce simp: bind_res_def)+

lemma traverse_of_map: "(\<And>x. x \<in> set xs \<Longrightarrow> f (g x) = Inr (h x)) \<Longrightarrow> traverse f (map g xs) = Inr (map h xs)"
  by (induction xs) (auto simp: bind_res_def)

lemma sort_heights: "sort (map of_nat (bit_positions n) :: u32 list) = map of_nat (rev (bit_positions n))"
proof -
  have "sorted (map of_nat (rev (bit_positions n)) :: u32 list)"
    using bit_positions [of n]
    by (auto simp: sorted_wrt_map sorted_wrt_rev word_le_nat_alt unat_height bit_less_64 elim!: sorted_wrt_mono_rel [rotated])
  then have "sort (rev (map of_nat (bit_positions n) :: u32 list)) = map of_nat (rev (bit_positions n))"
    by (simp add: sort_key_id_if_sorted rev_map)
  then show ?thesis by (metis properties_for_sort mset_rev sorted_sort mset_sort)
qed

lemma coalesce_sorted: "sorted_wrt (<) (map fst xs) \<Longrightarrow> coalesce_chunks xs = Inr xs"
  by (induction xs rule: coalesce_chunks.induct) (auto simp: bind_res_def)

lemma agrees_sorted:
  fixes m :: "(u64 \<times> 'v) list"
  assumes "agrees f m"
  shows "sort_key fst m = map (\<lambda>k. (k, f k)) (sorted_list_of_set (fst ` set m))"
proof -
  let ?xs = "sort_key fst m"
  have "distinct (map fst ?xs)" using assms by (simp add: agrees_def distinct_map)
  then have "map fst ?xs = sorted_list_of_set (fst ` set m)"
    using sorted_list_of_set.idem_if_sorted_distinct [of "map fst ?xs"] by simp
  moreover have "?xs = map (\<lambda>k. (k, f k)) (map fst ?xs)"
    using assms by (auto simp: agrees_def intro!: map_idI [symmetric])
  ultimately show ?thesis by simp
qed

text \<open>The list that stands for the leafs \<open>K\<close> of a range with \<open>n\<close> leafs.\<close>

definition range_list ::
  "(nat \<Rightarrow> u64 \<Rightarrow> 'd) \<Rightarrow> (u64 \<Rightarrow> chunk) \<Rightarrow> u64 \<Rightarrow> u64 set \<Rightarrow> absolute_index_set list \<Rightarrow> 'd removal_record_list" where
  "range_list nd ch n K sets =
     \<lparr>index_sets = sets,
      authentication_structures = map (\<lambda>h. map (nd h) (structure_of h (tree_leafs n K h))) (rev (bit_positions n)),
      rrl_chunks = map ch (sorted_list_of_set K), num_leafs_aocl = n * ucast BATCH_SIZE + 1\<rparr>"

lemma unat_estimate: "unat n < 2 ^ 60 \<Longrightarrow> unat (n * ucast BATCH_SIZE + 1 :: u64) = unat n * 8 + 1"
proof -
  assume n: "unat n < 2 ^ 60"
  then have "unat (n * ucast BATCH_SIZE) = unat n * 8" by (subst unat_mult_no_overflow) (simp_all add: BATCH_SIZE_def)
  then show ?thesis using n by (subst unat_add_no_overflow) simp_all
qed

lemma swbfi_of_estimate: "unat n < 2 ^ 60 \<Longrightarrow> aocl_to_swbfi_leaf_counts (n * ucast BATCH_SIZE + 1) = n"
  by (rule word_eq_unatI) (simp add: batch_count unat_estimate)

lemma window_of_estimate:
  fixes n :: u64
  assumes "unat n < 2 ^ 60"
  shows "(ucast (n * ucast BATCH_SIZE + 1) :: u128) div ucast BATCH_SIZE = ucast n"
proof (rule word_eq_unatI)
  have "unat (ucast BATCH_SIZE :: u128) = 8" by (simp add: BATCH_SIZE_def)
  then show "unat ((ucast (n * ucast BATCH_SIZE + 1) :: u128) div ucast BATCH_SIZE) = unat (ucast n :: u128)"
    by (simp add: unat_div unat_ucast_up unat_estimate [OF assms])
qed

text \<open>\<open>range_view\<close>: nodes and chunks as the list keeps them; \<open>merkle_range\<close>: every inner node is the hash of its children.\<close>

locale range_view = rrl_laws R
  for R :: "('d, 'p) rrl_ops" +
  fixes nd :: "nat \<Rightarrow> u64 \<Rightarrow> 'd" and ch :: "u64 \<Rightarrow> chunk"
  assumes packable: "list_all (\<lambda>x. x < CHUNK_SIZE) (relative_indices (ch k)) \<and> length (relative_indices (ch k)) \<le> MAX_UNPACKED_LENGTH"
begin

lemma mt_index_tree:
  assumes "k < n"
  obtains pk where "leaf_index_to_mt_index_and_peak_index R k n = Inr (leaf_node (tree_of n k) k, pk)"
    "unat pk < length (get_peak_heights R n)" "get_peak_heights R n ! unat pk = of_nat (tree_of n k)"
  using mt_index [OF assms] tree_of that by metis

lemma node_indices_eq:
  assumes "h < 64" "\<forall>i\<in>set is. i < shl_one h"
  shows "authentication_structure_node_indices R (shl_one h) is = Some (structure_of h (set is))"
proof -
  obtain nodes where nodes: "authentication_structure_node_indices R (shl_one h) is = Some nodes"
    "sorted_wrt (>) nodes" "set nodes = structure_nodes h (set is)"
    using node_indices [of h "is"] assms by (auto simp: shl_one_push)
  have "rev nodes = sorted_list_of_set (structure_nodes h (set is))"
    using nodes(2,3) finite_nodes by (intro strict_sorted_equal) (simp_all add: sorted_wrt_rev)
  then show ?thesis using nodes(1) by (simp add: structure_of_def rev_swap)
qed

lemma peak_heights_positions: "get_peak_heights R n = map of_nat (bit_positions n)"
  by (simp add: peak_heights bit_positions_def rev_map)

end

locale merkle_range = range_view R nd ch
  for R :: "('d, 'p) rrl_ops" and nd :: "nat \<Rightarrow> u64 \<Rightarrow> 'd" and ch :: "u64 \<Rightarrow> chunk" +
  fixes C :: "('d, 'm, 'p) crypto"
  assumes parent: "h < 64 \<Longrightarrow> 0 < i \<Longrightarrow> unat i < 2 ^ h \<Longrightarrow>
    nd h i = hash_pair C (nd h (push_bit 1 i)) (nd h (push_bit 1 i XOR 1))"

begin

abbreviation node_at :: "u32 \<times> u64 \<Rightarrow> 'd" where
  "node_at \<equiv> \<lambda>(h, i). nd (unat h) i"

abbreviation honest :: "u64 \<Rightarrow> u64 \<times> 'p authenticated_chunk \<Rightarrow> bool" where
  "honest n \<equiv> honest_entry C R n nd ch"

lemma collect_chunks_ok:
  assumes "\<forall>e\<in>set es. honest n e" "agrees ch chunks"
  shows "\<exists>chunks' idxs'. collect_chunks R n (get_peak_heights R n) es (chunks, idxs) = Inr (chunks', idxs') \<and>
    agrees ch chunks' \<and> fst ` set chunks' = fst ` set chunks \<union> fst ` set es \<and>
    set idxs' = set idxs \<union> (\<lambda>k. (of_nat (tree_of n k), k)) ` fst ` set es"
  using assms
proof (induction es arbitrary: chunks idxs)
  case (Cons e es)
  obtain k mp c where e: "e = (k, (mp, c))" by (cases e) auto
  with Cons.prems have k: "k < n" "c = ch k" "length (mp_path R mp) = tree_of n k" by (auto simp: honest_entry_def)
  obtain pk where pk: "leaf_index_to_mt_index_and_peak_index R k n = Inr (leaf_node (tree_of n k) k, pk)"
    "unat pk < length (get_peak_heights R n)" "get_peak_heights R n ! unat pk = of_nat (tree_of n k)"
    using k(1) by (rule mt_index_tree)
  have "collect_chunks R n (get_peak_heights R n) (e # es) (chunks, idxs) =
      collect_chunks R n (get_peak_heights R n) es
        (AList.update k (ch k) chunks, List.insert (of_nat (tree_of n k), k) idxs)"
    using k(2,3) pk agrees_insert [OF Cons.prems(2), of k] by (simp add: e res_simps)
  moreover have "\<exists>chunks' idxs'. collect_chunks R n (get_peak_heights R n) es
        (AList.update k (ch k) chunks, List.insert (of_nat (tree_of n k), k) idxs) = Inr (chunks', idxs') \<and>
      agrees ch chunks' \<and> fst ` set chunks' = fst ` set (AList.update k (ch k) chunks) \<union> fst ` set es \<and>
      set idxs' = set (List.insert (of_nat (tree_of n k), k) idxs) \<union> (\<lambda>k. (of_nat (tree_of n k), k)) ` fst ` set es"
    by (rule Cons.IH) (use Cons.prems in \<open>simp_all add: agrees_update\<close>)
  ultimately show ?case by (simp add: e dom_update)
qed auto

lemma nd_parent:
  assumes "h < 64" "2 \<le> unat i" "unat i < 2 ^ Suc h"
  shows "nd h (drop_bit 1 i) = (if i AND 1 = 0 then hash_pair C (nd h i) (nd h (i XOR 1)) else hash_pair C (nd h (i XOR 1)) (nd h i))"
proof -
  have u: "unat (drop_bit 1 i) = unat i div 2" by (simp add: unat_drop_bit del: One_nat_def)
  have "0 < unat (drop_bit 1 i)" "unat (drop_bit 1 i) < 2 ^ h" unfolding u using assms(2,3) by simp_all
  then have "0 < drop_bit 1 i" "unat (drop_bit 1 i) < 2 ^ h" by (simp_all add: word_greater_zero_iff unat_gt_0)
  note parent [OF assms(1) this]
  then show ?thesis unfolding push_drop_bit by (simp add: xor.assoc split: if_splits)
qed

lemma climb_ok:
  assumes "h < 64" "k \<le> h" "2 ^ k \<le> unat i" "unat i < 2 ^ Suc k" "agrees node_at m"
  shows "\<exists>m'. climb C (of_nat h) i (nd h i) (map (\<lambda>j. nd h (drop_bit j i XOR 1)) [0..<k]) m = Inr m' \<and> agrees node_at m' \<and>
    fst ` set m \<subseteq> fst ` set m' \<and> (\<forall>j<k. (of_nat h, drop_bit j i XOR 1) \<in> fst ` set m')"
  using assms(2-5)
proof (induction k arbitrary: i m)
  case 0
  have "climb C (of_nat h) i (nd h i) [] m = Inr (AList.update (of_nat h, i) (nd h i) m)"
    using agrees_insert [OF 0(4), of "(of_nat h, i)"] by (simp add: unat_height assms(1))
  then show ?case using agrees_update [OF 0(4), of "(of_nat h, i)"] by (auto simp: dom_update unat_height assms(1))
next
  case (Suc k)
  let ?p = "drop_bit 1 i"
  define m1 where "m1 = AList.update (of_nat h, i XOR 1) (nd h (i XOR 1)) (AList.update (of_nat h, i) (nd h i) m)"
  have m1: "agrees node_at m1" "fst ` set m1 = insert (of_nat h, i XOR 1) (insert (of_nat h, i) (fst ` set m))"
    using agrees_update [OF agrees_update [OF Suc.prems(4), of "(of_nat h, i)"], of "(of_nat h, i XOR 1)"]
    by (simp_all add: m1_def dom_update unat_height assms(1) insert_commute)
  have bound: "2 \<le> unat i" "unat i < 2 ^ Suc h"
  proof -
    have "(2::nat) ^ 1 \<le> 2 ^ Suc k" "(2::nat) ^ Suc (Suc k) \<le> 2 ^ Suc h"
      using Suc.prems(1) by (intro power_increasing; simp)+
    then show "2 \<le> unat i" "unat i < 2 ^ Suc h"
      using Suc.prems by (auto intro: order_trans order_less_le_trans simp del: power_Suc)
  qed
  have p: "2 ^ k \<le> unat ?p" "unat ?p < 2 ^ Suc k" using Suc.prems(2,3) by (simp_all add: unat_drop_bit del: One_nat_def)
  have path: "map (\<lambda>j. nd h (drop_bit j i XOR 1)) [0..<Suc k] = nd h (i XOR 1) # map (\<lambda>j. nd h (drop_bit j ?p XOR 1)) [0..<k]"
    by (simp add: upt_conv_Cons map_Suc_upt [symmetric] comp_def del: upt_Suc)
  have "climb C (of_nat h) i (nd h i) (map (\<lambda>j. nd h (drop_bit j i XOR 1)) [0..<Suc k]) m =
      climb C (of_nat h) ?p (nd h ?p) (map (\<lambda>j. nd h (drop_bit j ?p XOR 1)) [0..<k]) m1"
    using agrees_insert [OF Suc.prems(4), of "(of_nat h, i)"]
      agrees_insert [OF agrees_update [OF Suc.prems(4), of "(of_nat h, i)"], of "(of_nat h, i XOR 1)"]
    unfolding path nd_parent [OF assms(1) bound] by (simp add: unat_height assms(1) bind_res_def m1_def)
  moreover obtain m' where m': "climb C (of_nat h) ?p (nd h ?p) (map (\<lambda>j. nd h (drop_bit j ?p XOR 1)) [0..<k]) m1 = Inr m'"
    "agrees node_at m'" "fst ` set m1 \<subseteq> fst ` set m'" "\<forall>j<k. (of_nat h, drop_bit j ?p XOR 1) \<in> fst ` set m'"
    using Suc.IH [OF _ p m1(1)] Suc.prems(1) by auto
  moreover have "(of_nat h, drop_bit j i XOR 1) \<in> fst ` set m'" if "j < Suc k" for j
    using that m'(3,4) m1(2) by (cases j) auto
  ultimately show ?case using m1(2) by auto
qed

lemma sparse_view_ok:
  assumes "\<forall>e\<in>set es. honest n e" "agrees node_at m"
  shows "\<exists>m'. sparse_view C R n es m = Inr m' \<and> agrees node_at m' \<and> fst ` set m \<subseteq> fst ` set m' \<and>
    (\<forall>k\<in>fst ` set es. \<forall>j<tree_of n k. (of_nat (tree_of n k), drop_bit j (leaf_node (tree_of n k) k) XOR 1) \<in> fst ` set m')"
  using assms
proof (induction es arbitrary: m)
  case (Cons e es)
  obtain k mp c where e: "e = (k, (mp, c))" by (cases e) auto
  let ?h = "tree_of n k" and ?i = "leaf_node (tree_of n k) k"
  from Cons.prems e have k: "k < n" "hash_chunk C c = nd ?h ?i" "mp_path R mp = node_path nd ?h ?i" by (auto simp: honest_entry_def)
  note h = tree_of_64 [OF k(1)]
  obtain pk where pk: "leaf_index_to_mt_index_and_peak_index R k n = Inr (?i, pk)" using k(1) by (rule mt_index_tree)
  obtain m1 where m1: "climb C (of_nat ?h) ?i (nd ?h ?i) (node_path nd ?h ?i) m = Inr m1" "agrees node_at m1"
      "fst ` set m \<subseteq> fst ` set m1" "\<forall>j<?h. (of_nat ?h, drop_bit j ?i XOR 1) \<in> fst ` set m1"
    using climb_ok [OF h order_refl leaf_node_range(1) [OF h, of k] leaf_node_range(2) [OF h, of k] Cons.prems(2)] by (auto simp: node_path_def)
  have "\<exists>m'. sparse_view C R n es m1 = Inr m' \<and> agrees node_at m' \<and> fst ` set m1 \<subseteq> fst ` set m' \<and>
      (\<forall>k\<in>fst ` set es. \<forall>j<tree_of n k. (of_nat (tree_of n k), drop_bit j (leaf_node (tree_of n k) k) XOR 1) \<in> fst ` set m')"
    by (rule Cons.IH) (use Cons.prems m1 in simp_all)
  then obtain m' where m': "sparse_view C R n es m1 = Inr m'" "agrees node_at m'" "fst ` set m1 \<subseteq> fst ` set m'"
      "\<forall>k\<in>fst ` set es. \<forall>j<tree_of n k. (of_nat (tree_of n k), drop_bit j (leaf_node (tree_of n k) k) XOR 1) \<in> fst ` set m'"
    by (elim exE conjE) (rule that)
  have view: "sparse_view C R n (e # es) m = Inr m'"
    using k(2,3) pk m1(1) m'(1) by (simp add: e bind_res_def)
  have "\<forall>j<?h. (of_nat ?h, drop_bit j ?i XOR 1) \<in> fst ` set m'" using m1(4) m'(3) by blast
  then have "\<forall>k\<in>fst ` set (e # es). \<forall>j<tree_of n k. (of_nat (tree_of n k), drop_bit j (leaf_node (tree_of n k) k) XOR 1) \<in> fst ` set m'"
    using m'(4) by (simp add: e)
  then show ?case using view m'(2) subset_trans [OF m1(3) m'(3)] by blast
qed simp

lemma structure_for_ok:
  assumes "h < 64" "set idxs = (\<lambda>k. (of_nat (tree_of n k), k)) ` K" "\<forall>k\<in>K. k < n" "agrees node_at m"
    and "\<forall>k\<in>K. \<forall>j<tree_of n k. (of_nat (tree_of n k), drop_bit j (leaf_node (tree_of n k) k) XOR 1) \<in> fst ` set m"
  shows "authentication_structure_for R m idxs (of_nat h) = Inr (map (nd h) (structure_of h (tree_leafs n K h)))"
proof -
  let ?leafs = "map (\<lambda>li. li AND (shl_one (unat (of_nat h :: u32)) - 1)) (map snd (filter (\<lambda>(height, _). height = of_nat h) idxs))"
  have same: "(of_nat (tree_of n k) :: u32) = of_nat h \<longleftrightarrow> tree_of n k = h" if "k \<in> K" for k
    using that assms(1,3) tree_of_64 unat_height by metis
  have "(\<lambda>li. li AND (shl_one (unat (of_nat h :: u32)) - 1)) = take_bit h"
    using assms(1) by (intro ext) (simp only: unat_height shl_one_push and_exp_minus_one)
  then have "set ?leafs = take_bit h ` snd ` {p \<in> set idxs. fst p = of_nat h}" by (simp add: case_prod_beta' image_image)
  then have "set ?leafs = take_bit h ` {k \<in> K. (of_nat (tree_of n k) :: u32) = of_nat h}"
    unfolding assms(2) snd_of_tagged .
  then have leafs: "set ?leafs = tree_leafs n K h" using same by (auto simp: tree_leafs_def)
  have "\<forall>i\<in>tree_leafs n K h. i < shl_one h" using leaf_node_leaf(3) [OF assms(1)] by (auto simp: tree_leafs_def)
  with leafs have "authentication_structure_node_indices R (shl_one h) ?leafs = Some (structure_of h (tree_leafs n K h))"
    using node_indices_eq [OF assms(1), of ?leafs] by simp
  moreover have "map_of m (of_nat h, i) = Some (nd h i)" if "i \<in> structure_nodes h (tree_leafs n K h)" for i
    using that assms(5) by (elim structure_nodeE) (auto simp: agrees_map_of [OF assms(4)] unat_height assms(1))
  then have "traverse (\<lambda>i. unwrap (map_of m (of_nat h, i))) (structure_of h (tree_leafs n K h)) =
      Inr (map (nd h) (structure_of h (tree_leafs n K h)))"
    by (intro traverse_map) (simp add: structure_of_def finite_nodes unwrap_def)
  ultimately show ?thesis
    by (simp add: authentication_structure_for_def Let_def unat_height assms(1) unwrap_def bind_res_def)
qed

lemma from_removal_records_ok:
  assumes "\<forall>e\<in>set (all_entries rrs). honest n e" "unat n < 2 ^ 60"
  shows "from_removal_records C R rrs (n * ucast BATCH_SIZE + 1) =
    Inr (range_list nd ch n (fst ` set (all_entries rrs)) (map absolute_indices rrs))"
proof -
  let ?es = "all_entries rrs" and ?K = "fst ` set (all_entries rrs)"
  obtain chunks idxs where c: "collect_chunks R n (get_peak_heights R n) ?es ([], []) = Inr (chunks, idxs)"
      "agrees ch chunks" "fst ` set chunks = ?K" "set idxs = (\<lambda>k. (of_nat (tree_of n k), k)) ` ?K"
    using collect_chunks_ok [OF assms(1) agrees_Nil, of "[]"] by auto
  obtain m where m: "sparse_view C R n ?es [] = Inr m" "agrees node_at m"
      "\<forall>k\<in>?K. \<forall>j<tree_of n k. (of_nat (tree_of n k), drop_bit j (leaf_node (tree_of n k) k) XOR 1) \<in> fst ` set m"
    using sparse_view_ok [OF assms(1) agrees_Nil] by (elim exE conjE) (rule that)
  have K: "\<forall>k\<in>?K. k < n" using assms(1) by (auto simp: honest_entry_def)
  have "traverse (authentication_structure_for R m idxs) (map of_nat (rev (bit_positions n))) =
      Inr (map (\<lambda>h. map (nd h) (structure_of h (tree_leafs n ?K h))) (rev (bit_positions n)))"
    by (intro traverse_of_map structure_for_ok [OF _ c(4) K m(2,3)]) (simp add: bit_positions bit_less_64)
  then have s: "traverse (authentication_structure_for R m idxs) (sort (get_peak_heights R n)) =
      Inr (map (\<lambda>h. map (nd h) (structure_of h (tree_leafs n ?K h))) (rev (bit_positions n)))"
    by (simp only: peak_heights_positions sort_heights)
  have "coalesce_chunks (sort_key fst chunks) = Inr (map (\<lambda>k. (k, ch k)) (sorted_list_of_set ?K))"
    unfolding agrees_sorted [OF c(2)] c(3) by (rule coalesce_sorted) (simp add: comp_def)
  with c(1) m(1) s show ?thesis
    by (simp add: from_removal_records_def Let_def swbfi_of_estimate [OF assms(2)] bind_res_def range_list_def comp_def)
qed

end

section \<open>Chunk indices of index sets\<close>

definition chunks_of_sets :: "absolute_index_set list \<Rightarrow> u64 set" where
  "chunks_of_sets sets = {k. \<exists>a\<in>set sets. \<exists>x\<in>set (ais_to_array a). unat k = unat x div 4096}"

definition fitting_sets :: "absolute_index_set list \<Rightarrow> bool" where
  "fitting_sets sets \<longleftrightarrow> (\<forall>a\<in>set sets. \<forall>x\<in>set (ais_to_array a). unat x < 2 ^ 76)"

definition chunk_of_position :: "u128 \<Rightarrow> u64" where
  "chunk_of_position x = ucast (x div ucast CHUNK_SIZE)"

lemma chunk_of_position: "unat x < 2 ^ 76 \<Longrightarrow> u64_try_from (x div ucast CHUNK_SIZE) = Some (chunk_of_position x)"
  "unat x < 2 ^ 76 \<Longrightarrow> unat (chunk_of_position x) = unat x div 4096"
proof -
  assume x: "unat x < 2 ^ 76"
  have d: "unat (x div ucast CHUNK_SIZE) = unat x div 4096" by (simp add: unat_div CHUNK_SIZE_def)
  show "unat (chunk_of_position x) = unat x div 4096" using x by (simp add: chunk_of_position_def unat_ucast_mod d)
  then show "u64_try_from (x div ucast CHUNK_SIZE) = Some (chunk_of_position x)" using x by (simp add: u64_try_from_chunk)
qed

lemma window_start: "x < (ucast n :: u128) * ucast CHUNK_SIZE \<longleftrightarrow> unat x div 4096 < unat n" for n :: u64
proof -
  have "unat ((ucast n :: u128) * ucast CHUNK_SIZE) = unat n * 4096"
    using unat_u64_lt [of n] by (subst unat_mult_no_overflow) (simp_all add: unat_ucast_up CHUNK_SIZE_def)
  then show ?thesis by (simp add: word_less_nat_alt div_less_iff_less_mult)
qed

lemma chunk_indices_below_ok:
  assumes "fitting_sets sets"
  shows "\<exists>is. chunk_indices_below (ucast n * ucast CHUNK_SIZE) sets = Inr is \<and> set is = {k \<in> chunks_of_sets sets. k < n}"
proof (intro exI conjI)
  let ?xs = "filter (\<lambda>ai. ai < ucast n * ucast CHUNK_SIZE) (concat (map ais_to_array sets))"
  have fit: "unat x < 2 ^ 76" if "x \<in> set ?xs" for x using that assms by (auto simp: fitting_sets_def)
  show "chunk_indices_below (ucast n * ucast CHUNK_SIZE) sets = Inr (map chunk_of_position ?xs)"
    unfolding chunk_indices_below_def by (rule traverse_map) (simp add: unwrap_def chunk_of_position(1) [OF fit])
  show "set (map chunk_of_position ?xs) = {k \<in> chunks_of_sets sets. k < n}"
  proof (intro set_eqI iffI)
    fix k assume "k \<in> set (map chunk_of_position ?xs)"
    then obtain x where x: "x \<in> set ?xs" "k = chunk_of_position x" by auto
    then have "unat k = unat x div 4096" using chunk_of_position(2) [OF fit] by simp
    moreover have "unat x div 4096 < unat n" using x(1) by (simp add: window_start)
    ultimately show "k \<in> {k \<in> chunks_of_sets sets. k < n}"
      using x(1) by (auto simp: chunks_of_sets_def word_less_nat_alt [of k])
  next
    fix k assume "k \<in> {k \<in> chunks_of_sets sets. k < n}"
    then obtain x where x: "x \<in> set (concat (map ais_to_array sets))" "unat k = unat x div 4096" "k < n"
      by (auto simp: chunks_of_sets_def)
    then have "x \<in> set ?xs" by (simp add: window_start word_less_nat_alt [of k])
    note this chunk_of_position(2) [OF fit [OF this]]
    moreover from this(2) x(2) have "k = chunk_of_position x" by (intro word_eq_unatI) simp
    ultimately show "k \<in> set (map chunk_of_position ?xs)" by simp
  qed
qed

lemma sorted_distinct_lists:
  "sort (remdups is) = sorted_list_of_set (set is)" "remdups_adj (sort is) = sorted_list_of_set (set is)" for "is" :: "u64 list"
  by (simp add: sorted_list_of_set_sort_remdups)
     (rule strict_sorted_equal, simp_all add: sorted_remdups_adj_strict)

lemma take_sorted_below:
  fixes A :: "u64 set"
  shows "take (card {k \<in> A. k < n}) (sorted_list_of_set A) = sorted_list_of_set {k \<in> A. k < n}"
proof -
  let ?lo = "{k \<in> A. k < n}" and ?hi = "{k \<in> A. \<not> k < n}"
  have "sorted_list_of_set A = sorted_list_of_set ?lo @ sorted_list_of_set ?hi"
    using finite_nodes by (intro strict_sorted_equal) (auto simp: sorted_wrt_append)
  then show ?thesis by simp
qed

lemma observed_from_sets_ok:
  assumes "fitting_sets sets"
  shows "observed_chunk_indices_from_index_sets sets (card {k \<in> chunks_of_sets sets. k < n}) =
    Inr (sorted_list_of_set {k \<in> chunks_of_sets sets. k < n})"
proof -
  let ?xs = "concat (map ais_to_array sets)"
  have fit: "unat x < 2 ^ 76" if "x \<in> set ?xs" for x using that assms by (auto simp: fitting_sets_def)
  have "traverse (\<lambda>x. case u64_try_from (x div ucast CHUNK_SIZE) of None \<Rightarrow> Inl AbsoluteIndexTooBig | Some k \<Rightarrow> Inr k) ?xs =
      Inr (map chunk_of_position ?xs)"
    by (rule traverse_map) (simp add: chunk_of_position(1) [OF fit])
  moreover have "set (map chunk_of_position ?xs) = chunks_of_sets sets"
  proof (intro set_eqI iffI)
    fix k assume "k \<in> chunks_of_sets sets"
    then obtain x where x: "x \<in> set ?xs" "unat k = unat x div 4096" by (auto simp: chunks_of_sets_def)
    then have "k = chunk_of_position x" using chunk_of_position(2) [OF fit [OF x(1)]] by (intro word_eq_unatI) simp
    with x(1) show "k \<in> set (map chunk_of_position ?xs)" by simp
  next
    fix k assume "k \<in> set (map chunk_of_position ?xs)"
    then obtain x where x: "x \<in> set ?xs" "k = chunk_of_position x" by auto
    then show "k \<in> chunks_of_sets sets" using chunk_of_position(2) [OF fit [OF x(1)]] by (auto simp: chunks_of_sets_def)
  qed
  ultimately show ?thesis
    by (simp add: observed_chunk_indices_from_index_sets_def bind_res_def sorted_distinct_lists take_sorted_below)
qed

lemma iter_max_in: "iter_max xs = Some m \<Longrightarrow> m \<in> set xs"
  by (induction xs arbitrary: m) (auto simp: max_def split: option.splits if_splits)

lemma estimate_again:
  assumes "\<forall>k\<in>set ks. k < n"
  shows "estimate_num_leafs_aocl ks (bit_positions n) = Inr (n * ucast BATCH_SIZE + 1)"
proof -
  let ?i = "case iter_max ks of None \<Rightarrow> 0 | Some m \<Rightarrow> m"
  have "n = 0 \<and> ?i = 0 \<or> ?i < n"
    using assms iter_max_in [of ks] by (cases "iter_max ks") (auto simp: word_gt_0 dest!: bspec)
  then have "estimate_loop ?i (bit_positions n) = n" by (rule estimate_all_heights)
  moreover have "sorted (rev (bit_positions n))" "distinct (bit_positions n)"
    by (simp_all add: bit_positions_def sorted_wrt_filter)
  ultimately show ?thesis by (simp add: estimate_num_leafs_aocl_def Let_def assert_then_def remdups_adj_distinct)
qed

section \<open>Consistency and decoding\<close>

lemma card_words_below: "card {p :: u32. unat p < m} \<le> m"
proof -
  have "card {p :: u32. unat p < m} \<le> card {..<m}"
    by (rule card_inj_on_le [of unat]) (auto intro!: inj_onI word_eq_unatI)
  then show ?thesis by simp
qed

lemma tree_leafs_below: "h < 64 \<Longrightarrow> i \<in> tree_leafs n K h \<Longrightarrow> i < shl_one h"
  using leaf_node_leaf(3) by (auto simp: tree_leafs_def)

context range_view
begin

definition peak_of :: "u64 \<Rightarrow> u64 \<Rightarrow> u32" where
  "peak_of n k = (case leaf_index_to_mt_index_and_peak_index R k n of Inr (_, pk) \<Rightarrow> pk | Inl _ \<Rightarrow> 0)"

lemma peak_of:
  assumes "k < n"
  shows "leaf_index_to_mt_index_and_peak_index R k n = Inr (leaf_node (tree_of n k) k, peak_of n k)"
    and "unat (peak_of n k) < length (bit_positions n)"
    and "bit_positions n ! unat (peak_of n k) = tree_of n k"
proof -
  obtain pk where pk: "leaf_index_to_mt_index_and_peak_index R k n = Inr (leaf_node (tree_of n k) k, pk)"
    "unat pk < length (get_peak_heights R n)" "get_peak_heights R n ! unat pk = of_nat (tree_of n k)"
    using assms by (rule mt_index_tree)
  then show "leaf_index_to_mt_index_and_peak_index R k n = Inr (leaf_node (tree_of n k) k, peak_of n k)"
    "unat (peak_of n k) < length (bit_positions n)" by (simp_all add: peak_of_def peak_heights_positions)
  have "bit_positions n ! unat pk \<in> set (bit_positions n)" using pk(2) by (simp add: peak_heights_positions)
  then have "bit_positions n ! unat pk < 64" by (simp add: bit_positions bit_less_64)
  with pk have "bit_positions n ! unat pk = tree_of n k"
    using unat_height tree_of_64 [OF assms] by (metis peak_heights_positions length_map nth_map)
  then show "bit_positions n ! unat (peak_of n k) = tree_of n k" using pk(1) by (simp add: peak_of_def)
qed

lemma peak_index:
  assumes "k < n" "i < length (bit_positions n)"
  shows "peak_of n k = of_nat i \<longleftrightarrow> tree_of n k = bit_positions n ! i"
proof -
  have d: "distinct (bit_positions n)" by (simp add: bit_positions_def)
  have len: "length (bit_positions n) \<le> 64"
    unfolding bit_positions_def using length_filter_le [of "bit n" "[0..<64]"] by simp
  then have u: "unat (of_nat i :: u32) = i" using assms(2) by (simp add: unat_of_nat)
  have "peak_of n k = of_nat i \<longleftrightarrow> unat (peak_of n k) = i" using u by (metis word_eq_unatI)
  also have "\<dots> \<longleftrightarrow> bit_positions n ! unat (peak_of n k) = bit_positions n ! i"
    using nth_eq_iff_index_eq [OF d peak_of(2) [OF assms(1)] assms(2)] by simp
  finally show ?thesis using peak_of(3) [OF assms(1)] by auto
qed

lemma mmr_view_ok:
  assumes "\<forall>k\<in>set ks. k < n"
  shows "\<exists>view'. mmr_view_loop R n (get_peak_heights R n) ks view = Inr view' \<and>
    set view' = set view \<union> (\<lambda>k. (peak_of n k, take_bit (tree_of n k) k)) ` set ks"
  using assms
proof (induction ks arbitrary: view)
  case (Cons k ks)
  then have k: "k < n" by simp
  have i: "index_res (get_peak_heights R n) (unat (peak_of n k)) = Inr (of_nat (tree_of n k))"
    using peak_of(2,3) [OF k] by (simp add: index_res_def peak_heights_positions)
  have "mmr_view_loop R n (get_peak_heights R n) (k # ks) view =
      mmr_view_loop R n (get_peak_heights R n) ks (List.insert (peak_of n k, take_bit (tree_of n k) k) view)"
    using peak_of(1) [OF k] i
    by (simp add: bind_res_def Let_def unat_height [OF tree_of_64 [OF k]] leaf_node_leaf(2) [OF tree_of_64 [OF k], simplified])
  moreover have "\<exists>view'. mmr_view_loop R n (get_peak_heights R n) ks (List.insert (peak_of n k, take_bit (tree_of n k) k) view) =
      Inr view' \<and> set view' = set (List.insert (peak_of n k, take_bit (tree_of n k) k) view) \<union>
        (\<lambda>k. (peak_of n k, take_bit (tree_of n k) k)) ` set ks"
    by (rule Cons.IH) (use Cons.prems in simp)
  ultimately show ?case by simp
qed simp

lemma leafs_of_tree_ok:
  assumes "\<forall>k\<in>K. k < n" "set view = (\<lambda>k. (peak_of n k, take_bit (tree_of n k) k)) ` K" "i < length (bit_positions n)"
  defines "h \<equiv> bit_positions n ! i"
  shows "\<exists>ls. leafs_of_tree view (i, of_nat h) = Inr ls \<and> set ls = tree_leafs n K h"
proof -
  let ?ls = "map snd (filter (\<lambda>(pi, _). pi = of_nat i) view)"
  have h: "h < 64" using nth_mem [OF assms(3)] by (simp add: h_def bit_positions bit_less_64)
  have "set ?ls = snd ` {p \<in> set view. fst p = of_nat i}" by (simp add: case_prod_beta')
  also have "\<dots> = (\<lambda>k. take_bit (tree_of n k) k) ` {k \<in> K. peak_of n k = of_nat i}" unfolding assms(2) snd_of_pairs ..
  also have "{k \<in> K. peak_of n k = of_nat i} = {k \<in> K. tree_of n k = h}"
    using assms(1) peak_index [OF _ assms(3)] by (auto simp: h_def)
  finally have ls: "set ?ls = tree_leafs n K h" by (auto simp: tree_leafs_def)
  then have "\<forall>li\<in>set ?ls. li < shl_one (unat (of_nat h :: u32))" using tree_leafs_below [OF h] by (simp only: unat_height [OF h]) blast
  then show ?thesis using ls by (intro exI [of _ ?ls]) (simp add: leafs_of_tree_def assert_then_def)
qed

lemma expected_lengths_ok:
  assumes "\<forall>k\<in>K. k < n" "set view = (\<lambda>k. (peak_of n k, take_bit (tree_of n k) k)) ` K"
  shows "\<exists>lss. traverse (leafs_of_tree view) (enumerate 0 (get_peak_heights R n)) = Inr lss \<and>
    traverse (expected_length R) (zip (get_peak_heights R n) lss) =
      Inr (map (\<lambda>h. length (structure_of h (tree_leafs n K h))) (bit_positions n))"
proof -
  let ?hs = "map of_nat (bit_positions n) :: u32 list"
  have "\<exists>ls. leafs_of_tree view x = Inr ls \<and> set ls = tree_leafs n K (unat (snd x))" if x: "x \<in> set (enumerate 0 ?hs)" for x
  proof -
    obtain i where i: "i < length (bit_positions n)" "x = (i, of_nat (bit_positions n ! i))"
      using x by (auto simp: in_set_enumerate_eq)
    have "bit_positions n ! i < 64" using nth_mem [OF i(1)] by (simp add: bit_positions bit_less_64)
    then show ?thesis using leafs_of_tree_ok [OF assms i(1)] by (simp add: i(2) unat_height)
  qed
  from traverse_exists [of _ "leafs_of_tree view", OF this]
  obtain lss where lss: "traverse (leafs_of_tree view) (enumerate 0 ?hs) = Inr lss"
    "list_all2 (\<lambda>x ls. set ls = tree_leafs n K (unat (snd x))) (enumerate 0 ?hs) lss" by auto
  then have len: "length lss = length (bit_positions n)" using list_all2_lengthD by fastforce
  have set_ls: "set (lss ! i) = tree_leafs n K (bit_positions n ! i)" if i: "i < length (bit_positions n)" for i
  proof -
    have "bit_positions n ! i < 64" using nth_mem [OF i] by (simp add: bit_positions bit_less_64)
    then show ?thesis using list_all2_nthD [OF lss(2), of i] i by (simp add: nth_enumerate_eq unat_height)
  qed
  have "list_all2 (\<lambda>x y. expected_length R x = Inr y) (zip ?hs lss)
      (map (\<lambda>h. length (structure_of h (tree_leafs n K h))) (bit_positions n))"
  proof (rule list_all2_all_nthI)
    fix i assume "i < length (zip ?hs lss)"
    then have i: "i < length (bit_positions n)" by simp
    have h: "bit_positions n ! i < 64" using nth_mem [OF i] by (simp add: bit_positions bit_less_64)
    have "\<forall>j\<in>set (lss ! i). j < shl_one (bit_positions n ! i)" using set_ls [OF i] tree_leafs_below [OF h] by simp
    then have "expected_length R (of_nat (bit_positions n ! i), lss ! i) =
        Inr (length (structure_of (bit_positions n ! i) (tree_leafs n K (bit_positions n ! i))))"
      using node_indices_eq [OF h, of "lss ! i"] set_ls [OF i] by (simp add: expected_length_def unat_height [OF h])
    then show "expected_length R (zip ?hs lss ! i) = Inr (map (\<lambda>h. length (structure_of h (tree_leafs n K h))) (bit_positions n) ! i)"
      using i len by simp
  qed (simp add: len)
  then show ?thesis using lss(1) by (auto simp: traverse_Inr peak_heights_positions)
qed

lemma observed_range_list:
  assumes "fitting_sets sets" "unat n < 2 ^ 60"
  shows "observed_chunk_indices (range_list nd ch n K sets) = Inr (sorted_list_of_set {k \<in> chunks_of_sets sets. k < n})"
proof -
  obtain ks where "chunk_indices_below (ucast n * ucast CHUNK_SIZE) sets = Inr ks" "set ks = {k \<in> chunks_of_sets sets. k < n}"
    using chunk_indices_below_ok [OF assms(1), of n] by (elim exE conjE) (rule that)
  then show ?thesis
    by (simp add: observed_chunk_indices_def Let_def range_list_def swbfi_of_estimate [OF assms(2)] bind_res_def sorted_distinct_lists(1))
qed

text \<open>Consistency looks at the number of trees, at the number of chunks, and at the lengths of the structures up to their order.\<close>

lemma consistent_if_lengths:
  assumes "fitting_sets (index_sets l)" "unat n < 2 ^ 60" "num_leafs_aocl l = n * ucast BATCH_SIZE + 1"
  defines "K \<equiv> {k \<in> chunks_of_sets (index_sets l). k < n}"
  assumes "length (rrl_chunks l) = card K" "length (authentication_structures l) = length (bit_positions n)"
    and lengths: "mset (map length (authentication_structures l)) =
      mset (map (\<lambda>h. length (structure_of h (tree_leafs n K h))) (bit_positions n))"
  shows "validate_consistency R l = Inr (Inr ())"
proof -
  let ?len = "\<lambda>h. length (structure_of h (tree_leafs n K h))"
  have leafs: "aocl_to_swbfi_leaf_counts (num_leafs_aocl l) = n" by (simp add: assms(3) swbfi_of_estimate [OF assms(2)])
  obtain ks where "chunk_indices_below (ucast n * ucast CHUNK_SIZE) (index_sets l) = Inr ks" "set ks = K"
    using chunk_indices_below_ok [OF assms(1), of n, folded K_def] by (elim exE conjE) (rule that)
  then have obs: "observed_chunk_indices l = Inr (sorted_list_of_set K)"
    by (simp add: observed_chunk_indices_def Let_def leafs bind_res_def sorted_distinct_lists(1))
  have K: "\<forall>k\<in>K. k < n" "set (sorted_list_of_set K) = K" using finite_nodes by (simp_all add: K_def)
  obtain view where view: "mmr_view_loop R n (get_peak_heights R n) (sorted_list_of_set K) [] = Inr view"
    "set view = (\<lambda>k. (peak_of n k, take_bit (tree_of n k) k)) ` K"
    using mmr_view_ok [of "sorted_list_of_set K" n "[]"] K by auto
  obtain lss where lss: "traverse (leafs_of_tree view) (enumerate 0 (get_peak_heights R n)) = Inr lss"
    "traverse (expected_length R) (zip (get_peak_heights R n) lss) = Inr (map ?len (bit_positions n))"
    using expected_lengths_ok [OF K(1) view(2)] by blast
  have "fst ` set view \<subseteq> {p. unat p < length (bit_positions n)}" using view(2) K(1) peak_of(2) by auto
  from card_mono [OF _ this] have "card (fst ` set view) \<le> length (bit_positions n)"
    using card_words_below [of "length (bit_positions n)"] by simp
  then have active: "length (remdups (map fst view)) \<le> length (get_peak_heights R n)"
    by (simp add: length_remdups_card_conv peak_heights_positions)
  have "sort (map ?len (bit_positions n)) = sort (map length (authentication_structures l))"
    by (rule sorted_mset_unique) (simp_all only: sorted_sort mset_sort lengths)
  then show ?thesis
    using obs view(1) lss active assms(5,6)
    by (simp add: validate_consistency_def Let_def leafs reject_if_def assert_then_def bind_res_def)
       (simp add: peak_heights_positions)
qed

lemma range_list_consistent:
  assumes "fitting_sets sets" "unat n < 2 ^ 60"
  shows "validate_consistency R (range_list nd ch n {k \<in> chunks_of_sets sets. k < n} sets) = Inr (Inr ())"
  by (rule consistent_if_lengths [OF _ assms(2)]) (simp_all add: range_list_def assms(1) comp_def flip: rev_map)

lemma decode_zip_longest:
  assumes "sorted_wrt (<) (hs @ map fst ts)" "\<forall>h\<in>set (map fst ts). h < 64" "list_all2 (\<lambda>p c. try_unpack p = Inr (Inr c)) ps cs"
    and "\<forall>ds. mp_path R (mp_of_path R ds) = ds"
  shows "decode_entries R (zip_longest R ts ps) (hs, ss, cs0) = Inr (Inr (hs @ map fst ts, ss @ map snd ts, cs0 @ cs))"
  using assms
proof (induction R ts ps arbitrary: hs ss cs0 cs rule: zip_longest.induct)
  case (2 R h s ts p ps)
  then obtain c cs' where c: "cs = c # cs'" "try_unpack p = Inr (Inr c)" "list_all2 (\<lambda>p c. try_unpack p = Inr (Inr c)) ps cs'"
    by (auto simp: list_all2_Cons1)
  have "hs \<noteq> [] \<Longrightarrow> last hs < h" "distinct (hs @ [h])" using "2.prems"(1) by (auto simp: sorted_wrt_append strict_sorted_iff)
  moreover have "h < 64" using "2.prems"(2) by simp
  ultimately have "decode_entries R ((h, (mp_of_path R s, p)) # zip_longest R ts ps) (hs, ss, cs0) =
      decode_entries R (zip_longest R ts ps) (hs @ [h], ss @ [s], cs0 @ [c])"
    using c(2) "2.prems"(4) by (auto simp: decode_entry_def unpack_chunk_def try_then_def reject_if_def bind_res_def
        ENCODING_TREE_HEIGHT_OFFSET_def distinct_remdups_id not_less)
  also have "\<dots> = Inr (Inr ((hs @ [h]) @ map fst ts, (ss @ [s]) @ map snd ts, (cs0 @ [c]) @ cs'))"
    by (rule "2.IH") (use "2.prems" c in simp_all)
  finally show ?case by (simp add: c(1))
next
  case (3 R h s ts)
  have "distinct (hs @ [h])" using "3.prems"(1) by (auto simp: sorted_wrt_append strict_sorted_iff)
  moreover have "\<not> h + 64 < 64" "h + 64 < 128"
    using "3.prems"(2) by (simp_all add: word_less_nat_alt unat_word_ariths)
  ultimately have "decode_entries R ((h + ENCODING_TREE_HEIGHT_OFFSET, (mp_of_path R s, empty_chunk)) # zip_longest R ts []) (hs, ss, cs0) =
      decode_entries R (zip_longest R ts []) (hs @ [h], ss @ [s], cs0)"
    using "3.prems"(4) by (auto simp: decode_entry_def try_then_def reject_if_def bind_res_def ENCODING_TREE_HEIGHT_OFFSET_def distinct_remdups_id)
  also have "\<dots> = Inr (Inr ((hs @ [h]) @ map fst ts, (ss @ [s]) @ map snd ts, cs0 @ cs))"
    by (rule "3.IH") (use "3.prems" in simp_all)
  finally show ?case by simp
next
  case (4 R p ps)
  then obtain c cs' where c: "cs = c # cs'" "try_unpack p = Inr (Inr c)" "list_all2 (\<lambda>p c. try_unpack p = Inr (Inr c)) ps cs'"
    by (auto simp: list_all2_Cons1)
  have "distinct hs" using "4.prems"(1) by (simp add: strict_sorted_iff)
  then have "decode_entries R ((ENCODING_DELIMITER_IGNORE_TREE_HEIGHT, (mp_of_path R [], p)) # zip_longest R [] ps) (hs, ss, cs0) =
      decode_entries R (zip_longest R [] ps) (hs, ss, cs0 @ [c])"
    using c(2) by (simp add: decode_entry_def unpack_chunk_def try_then_def reject_if_def bind_res_def
        ENCODING_TREE_HEIGHT_OFFSET_def ENCODING_DELIMITER_IGNORE_TREE_HEIGHT_def distinct_remdups_id)
  also have "\<dots> = Inr (Inr (hs, ss, (cs0 @ [c]) @ cs'))" using "4.IH" [of hs cs' ss "cs0 @ [c]"] "4.prems" c(3) by simp
  finally show ?case by (simp add: c(1))
qed simp

text \<open>Encoding a list and decoding it again.\<close>

lemma decode_encode:
  assumes "fitting_sets sets" "unat n < 2 ^ 60" "sets = [] \<Longrightarrow> n = 0"
  defines "K \<equiv> {k \<in> chunks_of_sets sets. k < n}"
  shows "\<exists>packed. encode_as_vec R (range_list nd ch n K sets) = Inr packed \<and>
    decode_from_vec R packed = Inr (Inr (range_list nd ch n K sets))"
proof -
  let ?l = "range_list nd ch n K sets" and ?hs = "map of_nat (rev (bit_positions n)) :: u64 list"
  let ?ss = "map (\<lambda>h. map (nd h) (structure_of h (tree_leafs n K h))) (rev (bit_positions n))"
  have sel: "authentication_structures ?l = ?ss" "rrl_chunks ?l = map ch (sorted_list_of_set K)" "index_sets ?l = sets"
    "aocl_to_swbfi_leaf_counts (num_leafs_aocl ?l) = n" by (simp_all add: range_list_def swbfi_of_estimate [OF assms(2)])
  have bp: "h < 64" if "h \<in> set (bit_positions n)" for h using that by (simp add: bit_positions bit_less_64)
  have "\<exists>p. chunk_pack c = Inr p \<and> try_unpack p = Inr (Inr c)" if "c \<in> set (rrl_chunks ?l)" for c
    using that packable pack_unpacks by (auto simp: sel(2))
  from traverse_exists [of _ chunk_pack, OF this] obtain ps where ps: "traverse chunk_pack (rrl_chunks ?l) = Inr ps"
    "list_all2 (\<lambda>c p. try_unpack p = Inr (Inr c)) (rrl_chunks ?l) ps" by auto
  have "rev (map ucast (get_peak_heights R n)) = ?hs" by (simp add: peak_heights_positions bp ucast_height rev_map)
  then have dict: "compressed_chunk_dictionary R ?l = Inr (ChunkDictionary (zip_longest R (zip ?hs ?ss) ps))"
    using observed_range_list [OF assms(1,2), of K] ps(1)
    by (simp add: compressed_chunk_dictionary_def Let_def sel bind_res_def assert_then_def zip_eq_def K_def [symmetric])
       (simp add: peak_heights_positions)
  define packed where "packed = map (\<lambda>(i, t). \<lparr>absolute_indices = i, target_chunks = t\<rparr>)
    (zip sets (ChunkDictionary (zip_longest R (zip ?hs ?ss) ps) # replicate (length sets) cd_empty))"
  have enc: "encode_as_vec R ?l = Inr packed"
    by (simp add: encode_as_vec_def dict bind_res_def packed_def sel(3))
  have "dictionary (target_chunks x) = []" if "x \<in> set (map (\<lambda>(i, t). \<lparr>absolute_indices = i, target_chunks = t\<rparr>)
      (zip (tl sets) (replicate (length sets) cd_empty)))" for x :: "'p removal_record"
    using that by (auto simp: cd_empty_def dest!: set_zip_rightD)
  then have "all_entries packed = (if sets = [] then [] else zip_longest R (zip ?hs ?ss) ps)"
    by (cases sets) (auto simp: packed_def all_entries_def)
  moreover have "zip_longest R (zip ?hs ?ss) ps = []" if "sets = []"
    using that assms(3) ps by (simp add: bit_positions_def K_def chunks_of_sets_def range_list_def)
  ultimately have entries: "all_entries packed = zip_longest R (zip ?hs ?ss) ps" by simp
  have sets: "map absolute_indices packed = sets" by (simp add: packed_def comp_def case_prod_beta' map_fst_zip_take)
  have "sorted_wrt (<) ?hs"
    using bit_positions(1) [of n] by (auto simp: sorted_wrt_map sorted_wrt_rev word_less_nat_alt unat_height64 bp elim!: sorted_wrt_mono_rel [rotated])
  then have dec: "decode_entries R (all_entries packed) ([], [], []) = Inr (Inr (?hs, ?ss, rrl_chunks ?l))"
    using decode_zip_longest [of "[]" "zip ?hs ?ss" ps "rrl_chunks ?l" "[]" "[]"] ps(2) path_of_path
    by (simp add: entries list_all2_conv_all_nth word_less_nat_alt unat_height64 bp)
  have obs: "observed_chunk_indices_from_index_sets sets (length (rrl_chunks ?l)) = Inr (sorted_list_of_set K)"
    using observed_from_sets_ok [OF assms(1), of n] by (simp add: sel(2) K_def [symmetric])
  have "rev (map unat ?hs) = bit_positions n" by (simp add: comp_def unat_height64 bp map_idI flip: rev_map)
  moreover have "estimate_num_leafs_aocl (sorted_list_of_set K) (bit_positions n) = Inr (n * ucast BATCH_SIZE + 1)"
    by (rule estimate_again) (simp add: finite_nodes K_def)
  moreover have "validate_consistency R ?l = Inr (Inr ())" unfolding K_def by (rule range_list_consistent [OF assms(1,2)])
  ultimately have "decode_from_vec R packed = Inr (Inr ?l)"
    using dec obs by (simp add: decode_from_vec_def sets try_then_def bind_res_def Let_def range_list_def)
  with enc show ?thesis by blast
qed

end

end
