(* ===== verification/Removal_Record_Unpacking.thy ===== *)
theory Removal_Record_Unpacking
  imports Removal_Record_Packing
begin

text \<open>
  The way back in \<^verbatim>\<open>removal_record_list.rs\<close>: \<^verbatim>\<open>convert_to_vec\<close> rebuilds the authentication path of every chunk from the
  authentication structures, so that unpacking is the inverse of packing on removal records that agree with one Merkle
  mountain range; and the inputs on which \<^verbatim>\<open>try_unpack\<close>, which runs on data of other nodes, panics.
\<close>

section \<open>The sparse view of a range\<close>

lemma node_key_eq: "h < 64 \<Longrightarrow> g < 64 \<Longrightarrow> (of_nat h :: u32) = of_nat g \<longleftrightarrow> h = g"
  by (metis unat_height)

lemma zip_with_map: "zip ks (map f ks) = map (\<lambda>k. (k, f k)) ks"
  by (induction ks) simp_all

lemma distinct_nodes_at: "distinct (map fst m) \<Longrightarrow> distinct (nodes_at h m)"
  by (auto simp: nodes_at_def distinct_map inj_on_def intro!: distinct_filter)

lemma siblings_adjacent:
  fixes x :: u64
  assumes "sorted_wrt (<) xs" "x \<in> set xs" "x XOR 1 \<in> set xs" "even (unat x)"
  shows "(x, x XOR 1) \<in> set (zip xs (tl xs))"
proof -
  obtain i j where i: "i < length xs" "xs ! i = x" and j: "j < length xs" "xs ! j = x XOR 1"
    using assms(2,3) by (auto simp: in_set_conv_nth)
  have less: "unat (xs ! a) < unat (xs ! b)" if "a < b" "b < length xs" for a b
    using sorted_wrt_nth_less [OF assms(1) that] by (simp add: word_less_nat_alt)
  have x1: "unat (x XOR 1) = unat x + 1" using assms(4) by (simp only: unat_xor_one if_True)
  have "i < j"
  proof (rule ccontr)
    assume "\<not> i < j"
    then have "j < i \<or> i = j" by auto
    then show False using less [of j i] i j x1 by auto
  qed
  moreover have "\<not> Suc i < j" using less [of i "Suc i"] less [of "Suc i" j] i j x1 by fastforce
  ultimately have "j = Suc i" by simp
  then have "i < length (zip xs (tl xs))" "zip xs (tl xs) ! i = (x, x XOR 1)" using i j by (simp_all add: nth_tl)
  then show ?thesis by (metis nth_mem)
qed

definition node_range :: "(u32 \<times> u64) set \<Rightarrow> bool" where
  "node_range S \<longleftrightarrow> (\<forall>(g, i)\<in>S. unat g < 64 \<and> 1 \<le> unat i \<and> unat i < 2 ^ Suc (unat g))"

definition parents_closed :: "u32 \<Rightarrow> (u32 \<times> u64) set \<Rightarrow> bool" where
  "parents_closed h S \<longleftrightarrow> (\<forall>i. (h, i) \<in> S \<and> (h, i XOR 1) \<in> S \<longrightarrow> (h, drop_bit 1 i) \<in> S)"

lemma absent_parentsE:
  assumes "p \<in> set (absent_parents h m)"
  obtains i where "(h, i) \<in> fst ` set m" "(h, i XOR 1) \<in> fst ` set m" "p = drop_bit 1 i"
proof -
  from assms obtain l r where lr: "(l, r) \<in> set (zip (sort (nodes_at h m)) (tl (sort (nodes_at h m))))" "l = r XOR 1" "p = drop_bit 1 l"
    by (auto simp: absent_parents_def Let_def)
  have "l \<in> set (sort (nodes_at h m))" using set_zip_leftD [OF lr(1)] .
  moreover have "r \<in> set (sort (nodes_at h m))" using set_zip_rightD [OF lr(1)] by (cases "sort (nodes_at h m)") simp_all
  moreover have "r = l XOR 1" using lr(2) by (simp add: xor.assoc)
  ultimately show ?thesis using that [of l] lr(3) by (simp add: nodes_at_set)
qed

lemma no_absent_parents:
  assumes "distinct (map fst m)" "absent_parents h m = []"
  shows "parents_closed h (fst ` set m)"
  unfolding parents_closed_def
proof (intro allI impI)
  fix i assume i: "(h, i) \<in> fst ` set m \<and> (h, i XOR 1) \<in> fst ` set m"
  let ?cur = "sort (nodes_at h m)"
  have strict: "sorted_wrt (<) ?cur" using distinct_nodes_at [OF assms(1)] by (simp add: strict_sorted_iff)
  define x where "x = (if even (unat i) then i else i XOR 1)"
  have x: "even (unat x)" "x \<in> set ?cur" "x XOR 1 \<in> set ?cur" "drop_bit 1 x = drop_bit 1 i"
    using i unat_xor_one [of i] drop_bit_xor_one [of i] by (auto simp: x_def nodes_at_set xor.assoc)
  have "(x, x XOR 1) \<in> set (zip ?cur (tl ?cur))" by (rule siblings_adjacent [OF strict x(2,3,1)])
  moreover have "x = (x XOR 1) XOR 1" by (simp add: xor.assoc)
  moreover have "\<forall>(l, r)\<in>set (zip ?cur (tl ?cur)). l = r XOR 1 \<longrightarrow> drop_bit 1 l \<in> set ?cur"
    using assms(2) unfolding absent_parents_def Let_def filter_empty_conv by fastforce
  ultimately have "drop_bit 1 x \<in> set ?cur" by blast
  then show "(h, drop_bit 1 i) \<in> fst ` set m" by (simp only: x(4) set_sort nodes_at_set) simp
qed

text \<open>A removal record that agrees with the range: its dictionary holds exactly the inactive chunks of its index set.\<close>

definition honest_record ::
  "('d, 'm, 'p) crypto \<Rightarrow> ('d, 'p) rrl_ops \<Rightarrow> u64 \<Rightarrow> (nat \<Rightarrow> u64 \<Rightarrow> 'd) \<Rightarrow> (u64 \<Rightarrow> chunk) \<Rightarrow> 'p removal_record \<Rightarrow> bool" where
  "honest_record C R n nd ch rr \<longleftrightarrow>
     fitting_sets [absolute_indices rr] \<and>
     map fst (dictionary (target_chunks rr)) = sorted_list_of_set {k \<in> chunks_of_sets [absolute_indices rr]. k < n} \<and>
     list_all (honest_entry C R n nd ch) (dictionary (target_chunks rr))"

lemma honest_keys:
  assumes "\<forall>rr\<in>set rrs. honest_record C R n nd ch rr"
  shows "fst ` set (all_entries rrs) = {k \<in> chunks_of_sets (map absolute_indices rrs). k < n}"
proof -
  have "fst ` set (dictionary (target_chunks rr)) = {k \<in> chunks_of_sets [absolute_indices rr]. k < n}" if "rr \<in> set rrs" for rr
  proof -
    have "set (map fst (dictionary (target_chunks rr))) = {k \<in> chunks_of_sets [absolute_indices rr]. k < n}"
      using assms that by (simp only: honest_record_def set_sorted_list_of_set [OF finite_nodes])
    then show ?thesis by simp
  qed
  then have "fst ` set (all_entries rrs) = (\<Union>rr\<in>set rrs. {k \<in> chunks_of_sets [absolute_indices rr]. k < n})"
    by (simp add: all_entries_def image_UN)
  then show ?thesis by (auto simp: chunks_of_sets_def)
qed

lemma honest_entries: "\<forall>rr\<in>set rrs. honest_record C R n nd ch rr \<Longrightarrow> \<forall>e\<in>set (all_entries rrs). honest_entry C R n nd ch e"
  by (auto simp: honest_record_def all_entries_def list_all_iff)

lemma honest_fitting: "\<forall>rr\<in>set rrs. honest_record C R n nd ch rr \<Longrightarrow> fitting_sets (map absolute_indices rrs)"
  by (auto simp: honest_record_def fitting_sets_def)

context merkle_range
begin

lemma insert_chunk_hashes_ok:
  assumes "\<forall>k\<in>set ks. k < n \<and> hash_chunk C (ch k) = nd (tree_of n k) (leaf_node (tree_of n k) k)" "agrees node_at m"
  shows "\<exists>m'. insert_chunk_hashes C R n (get_peak_heights R n) (map (\<lambda>k. (k, ch k)) ks) m = Inr m' \<and> agrees node_at m' \<and>
    fst ` set m' = fst ` set m \<union> (\<lambda>k. (of_nat (tree_of n k), leaf_node (tree_of n k) k)) ` set ks"
  using assms
proof (induction ks arbitrary: m)
  case (Cons k ks)
  let ?key = "(of_nat (tree_of n k) :: u32, leaf_node (tree_of n k) k)"
  from Cons.prems have k: "k < n" "hash_chunk C (ch k) = nd (tree_of n k) (leaf_node (tree_of n k) k)" by simp_all
  have "index_res (get_peak_heights R n) (unat (peak_of n k)) = Inr (of_nat (tree_of n k))"
    using peak_of(2,3) [OF k(1)] by (simp add: index_res_def peak_heights_positions)
  then have "insert_chunk_hashes C R n (get_peak_heights R n) (map (\<lambda>k. (k, ch k)) (k # ks)) m =
      insert_chunk_hashes C R n (get_peak_heights R n) (map (\<lambda>k. (k, ch k)) ks) (AList.update ?key (node_at ?key) m)"
    using peak_of(1) [OF k(1)] k(2) by (simp add: bind_res_def unat_height [OF tree_of_64 [OF k(1)]])
  moreover have "\<exists>m'. insert_chunk_hashes C R n (get_peak_heights R n) (map (\<lambda>k. (k, ch k)) ks) (AList.update ?key (node_at ?key) m) =
      Inr m' \<and> agrees node_at m' \<and> fst ` set m' = fst ` set (AList.update ?key (node_at ?key) m) \<union>
        (\<lambda>k. (of_nat (tree_of n k), leaf_node (tree_of n k) k)) ` set ks"
    by (rule Cons.IH [OF _ agrees_update [OF Cons.prems(2)]]) (use Cons.prems in simp)
  ultimately show ?case by (simp add: dom_update)
qed simp

text \<open>The keys of the sparse view for the leafs \<open>K\<close> once the structures of the trees \<open>H\<close> have been inserted.\<close>

definition view_keys :: "u64 \<Rightarrow> u64 set \<Rightarrow> nat set \<Rightarrow> (u32 \<times> u64) set" where
  "view_keys n K H = (\<lambda>k. (of_nat (tree_of n k), leaf_node (tree_of n k) k)) ` K \<union>
     (\<Union>h\<in>H. Pair (of_nat h) ` structure_nodes h (tree_leafs n K h))"

lemma view_keys_mono: "H \<subseteq> H' \<Longrightarrow> view_keys n K H \<subseteq> view_keys n K H'"
  unfolding view_keys_def by blast

lemma view_keys_height:
  assumes "\<forall>k\<in>K. k < n" "\<forall>h\<in>H. h < 64" "h < 64" "h \<notin> H"
  shows "{i. (of_nat h, i) \<in> view_keys n K H} = leaf_node h ` {k \<in> K. tree_of n k = h}"
proof -
  have "(of_nat h :: u32) = of_nat (tree_of n k) \<longleftrightarrow> tree_of n k = h" if "k \<in> K" for k
    using node_key_eq [OF assms(3) tree_of_64] assms(1) that by auto
  moreover have "(of_nat h :: u32) \<noteq> of_nat g" if "g \<in> H" for g using node_key_eq [OF assms(3)] assms(2,4) that by auto
  ultimately show ?thesis by (auto simp: view_keys_def)
qed

lemma fold_structure:
  "foldl (\<lambda>m (i, d). AList.update (of_nat h :: u32, i) d m) m (zip is (map (nd h) is)) =
     foldl (\<lambda>m k. AList.update k (node_at k) m) m (map (Pair (of_nat h)) is)" if "h < 64"
  by (induction "is" arbitrary: m) (simp_all add: unat_height that)

lemma insert_structures_ok:
  assumes "\<forall>k\<in>K. k < n" "distinct hs" "\<forall>h\<in>set hs \<union> H. h < 64" "set hs \<inter> H = {}"
    and "agrees node_at m" "fst ` set m = view_keys n K H"
  shows "\<exists>m'. insert_structures R (zip (map of_nat hs) (map (\<lambda>h. map (nd h) (structure_of h (tree_leafs n K h))) hs)) m = Inr m' \<and>
    agrees node_at m' \<and> fst ` set m' = view_keys n K (set hs \<union> H)"
  using assms(2-)
proof (induction hs arbitrary: m H)
  case (Cons h hs)
  let ?is = "structure_of h (tree_leafs n K h)"
  let ?leafs = "map (\<lambda>i. i XOR shl_one (unat (of_nat h :: u32))) (nodes_at (of_nat h) m)"
  have h: "h < 64" "h \<notin> H" "\<forall>h\<in>H. h < 64" using Cons.prems by auto
  have "set (nodes_at (of_nat h) m) = leaf_node h ` {k \<in> K. tree_of n k = h}"
    unfolding nodes_at_set Cons.prems(5) by (rule view_keys_height [OF assms(1) h(3,1,2)])
  then have leafs: "set ?leafs = tree_leafs n K h"
    by (simp add: unat_height [OF h(1)] image_image leaf_node_leaf(1) [OF h(1)] tree_leafs_def)
  then have nodes: "authentication_structure_node_indices R (shl_one (unat (of_nat h :: u32))) ?leafs = Some ?is"
    using node_indices_eq [OF h(1), of ?leafs] tree_leafs_below [OF h(1)] by (simp add: unat_height [OF h(1)])
  define m1 where "m1 = foldl (\<lambda>m (i, d). AList.update (of_nat h, i) d m) m (zip ?is (map (nd h) ?is))"
  have m1: "agrees node_at m1" "fst ` set m1 = view_keys n K (insert h H)"
    using agrees_fold [OF Cons.prems(4), of "map (Pair (of_nat h)) ?is"] Cons.prems(5)
    by (auto simp: m1_def fold_structure [OF h(1)] view_keys_def structure_of_def finite_nodes)
  have "\<exists>m'. insert_structures R (zip (map of_nat hs) (map (\<lambda>h. map (nd h) (structure_of h (tree_leafs n K h))) hs)) m1 = Inr m' \<and>
      agrees node_at m' \<and> fst ` set m' = view_keys n K (set hs \<union> insert h H)"
    by (rule Cons.IH [OF _ _ _ m1]) (use Cons.prems in auto)
  then show ?case using nodes by (simp add: Let_def unwrap_def bind_res_def assert_then_def m1_def)
qed simp

lemma add_parents_ok:
  assumes "h < 64" "agrees node_at m" "\<forall>p\<in>set ps. 0 < p \<and> unat p < 2 ^ h \<and>
      (of_nat h, push_bit 1 p) \<in> fst ` set m \<and> (of_nat h, push_bit 1 p XOR 1) \<in> fst ` set m"
  shows "\<exists>m'. add_parents C (of_nat h) ps m = Inr m' \<and> agrees node_at m'"
  using assms(2,3)
proof (induction ps arbitrary: m)
  case (Cons p ps)
  let ?m = "AList.update (of_nat h, p) (nd h p) m"
  from Cons.prems(2) have p: "0 < p" "unat p < 2 ^ h" by simp_all
  have m: "agrees node_at ?m"
    using agrees_update [OF Cons.prems(1), of "(of_nat h, p)"] by (simp add: unat_height [OF assms(1)])
  have "add_parents C (of_nat h) (p # ps) m = add_parents C (of_nat h) ps ?m"
    using Cons.prems(2) parent [OF assms(1) p]
    by (simp add: Let_def agrees_map_of [OF Cons.prems(1)] unwrap_def bind_res_def unat_height [OF assms(1)])
  moreover have "\<exists>m'. add_parents C (of_nat h) ps ?m = Inr m' \<and> agrees node_at m'"
    by (rule Cons.IH [OF m]) (use Cons.prems(2) in \<open>simp add: dom_update\<close>)
  ultimately show ?case by simp
qed simp

lemma absent_parents_range:
  assumes "h < 64" "node_range (fst ` set m)" "p \<in> set (absent_parents (of_nat h) m)"
  shows "0 < p \<and> unat p < 2 ^ h \<and> (of_nat h, push_bit 1 p) \<in> fst ` set m \<and> (of_nat h, push_bit 1 p XOR 1) \<in> fst ` set m"
proof -
  obtain i where i: "(of_nat h, i) \<in> fst ` set m" "(of_nat h, i XOR 1) \<in> fst ` set m" "p = drop_bit 1 i"
    using assms(3) by (rule absent_parentsE)
  have r: "1 \<le> unat i" "unat i < 2 ^ Suc h" "1 \<le> unat (i XOR 1)"
    using assms(2) i(1,2) by (auto simp: node_range_def unat_height [OF assms(1)])
  then have "2 \<le> unat i" using unat_xor_one [of i] by (auto split: if_splits)
  then have "0 < unat p" "unat p < 2 ^ h" using r(2) by (simp_all add: i(3) unat_drop_bit del: One_nat_def)
  then have "0 < p" by (simp add: word_less_nat_alt)
  moreover have "(of_nat h, push_bit 1 p) \<in> fst ` set m \<and> (of_nat h, push_bit 1 p XOR 1) \<in> fst ` set m"
    unfolding i(3) push_drop_bit using i(1,2) by (auto simp: xor.assoc)
  ultimately show ?thesis using \<open>unat p < 2 ^ h\<close> by blast
qed

lemma complete_tree_ok:
  assumes "h < 64" "agrees node_at m" "node_range (fst ` set m)"
  shows "\<exists>m'. complete_tree C (of_nat h) m = Inr m' \<and> agrees node_at m' \<and> node_range (fst ` set m') \<and>
    fst ` set m \<subseteq> fst ` set m' \<and> parents_closed (of_nat h) (fst ` set m') \<and>
    (\<forall>g i. g \<noteq> of_nat h \<longrightarrow> (g, i) \<in> fst ` set m' \<longleftrightarrow> (g, i) \<in> fst ` set m)"
  using assms(2,3)
proof (induction "card (UNIV - {i. (of_nat h :: u32, i) \<in> fst ` set m})" arbitrary: m rule: less_induct)
  case less
  let ?ps = "absent_parents (of_nat h) m"
  show ?case
  proof (cases "?ps = []")
    case True
    then have "complete_tree C (of_nat h) m = Inr m" by (simp add: complete_tree.simps [of C "of_nat h" m])
    moreover have "parents_closed (of_nat h) (fst ` set m)"
      using less.prems(1) True by (intro no_absent_parents) (simp_all add: agrees_def)
    ultimately show ?thesis using less.prems by blast
  next
    case False
    have ps: "\<forall>p\<in>set ?ps. 0 < p \<and> unat p < 2 ^ h \<and> (of_nat h, push_bit 1 p) \<in> fst ` set m \<and> (of_nat h, push_bit 1 p XOR 1) \<in> fst ` set m"
      using absent_parents_range [OF assms(1) less.prems(2)] by blast
    obtain m1 where m1: "add_parents C (of_nat h) ?ps m = Inr m1" "agrees node_at m1"
      using add_parents_ok [OF assms(1) less.prems(1) ps] by blast
    note keys = add_parents_keys [OF m1(1)]
    have "node_range (fst ` set m1)"
      unfolding keys node_range_def
    proof (intro ballI)
      fix x assume "x \<in> fst ` set m \<union> Pair (of_nat h) ` set ?ps"
      then show "case x of (g, i) \<Rightarrow> unat g < 64 \<and> 1 \<le> unat i \<and> unat i < 2 ^ Suc (unat g)"
        using less.prems(2) ps assms(1) by (auto simp: node_range_def unat_height word_less_nat_alt Suc_le_eq)
    qed
    from less.hyps [OF add_parents_shrinks [OF False m1(1)] m1(2) this]
    obtain m' where m': "complete_tree C (of_nat h) m1 = Inr m'" "agrees node_at m'" "node_range (fst ` set m')"
      "fst ` set m1 \<subseteq> fst ` set m'" "parents_closed (of_nat h) (fst ` set m')"
      "\<forall>g i. g \<noteq> of_nat h \<longrightarrow> (g, i) \<in> fst ` set m' \<longleftrightarrow> (g, i) \<in> fst ` set m1"
      by (elim exE conjE) (rule that)
    have "complete_tree C (of_nat h) m = Inr m'"
      using False m1(1) m'(1) by (simp add: complete_tree.simps [of C "of_nat h" m] Let_def)
    moreover have "fst ` set m \<subseteq> fst ` set m'" using m'(4) keys by blast
    moreover have "\<forall>g i. g \<noteq> of_nat h \<longrightarrow> (g, i) \<in> fst ` set m' \<longleftrightarrow> (g, i) \<in> fst ` set m" using m'(6) keys by auto
    ultimately show ?thesis using m'(2,3,5) by blast
  qed
qed

lemma complete_trees_ok:
  assumes "distinct hs" "\<forall>h\<in>set hs. h < 64" "agrees node_at m" "node_range (fst ` set m)"
  shows "\<exists>m'. complete_trees C (map of_nat hs) m = Inr m' \<and> agrees node_at m' \<and> fst ` set m \<subseteq> fst ` set m' \<and>
    (\<forall>h\<in>set hs. parents_closed (of_nat h) (fst ` set m')) \<and>
    (\<forall>g i. g \<notin> of_nat ` set hs \<longrightarrow> (g, i) \<in> fst ` set m' \<longleftrightarrow> (g, i) \<in> fst ` set m)"
  using assms
proof (induction hs arbitrary: m)
  case (Cons h hs)
  have h: "h < 64" "\<forall>h\<in>set hs. h < 64" "h \<notin> set hs" "distinct hs" using Cons.prems by simp_all
  obtain m1 where m1: "complete_tree C (of_nat h) m = Inr m1" "agrees node_at m1" "node_range (fst ` set m1)"
    "fst ` set m \<subseteq> fst ` set m1" "parents_closed (of_nat h) (fst ` set m1)"
    "\<forall>g i. g \<noteq> of_nat h \<longrightarrow> (g, i) \<in> fst ` set m1 \<longleftrightarrow> (g, i) \<in> fst ` set m"
    using complete_tree_ok [OF h(1) Cons.prems(3,4)] by (elim exE conjE) (rule that)
  obtain m' where m': "complete_trees C (map of_nat hs) m1 = Inr m'" "agrees node_at m'" "fst ` set m1 \<subseteq> fst ` set m'"
    "\<forall>h\<in>set hs. parents_closed (of_nat h) (fst ` set m')"
    "\<forall>g i. g \<notin> of_nat ` set hs \<longrightarrow> (g, i) \<in> fst ` set m' \<longleftrightarrow> (g, i) \<in> fst ` set m1"
    using Cons.IH [OF h(4,2) m1(2,3)] by (elim exE conjE) (rule that)
  have fresh: "(of_nat h :: u32) \<notin> of_nat ` set hs" using h node_key_eq by blast
  then have same: "(of_nat h, i) \<in> fst ` set m' \<longleftrightarrow> (of_nat h, i) \<in> fst ` set m1" for i using m'(5) by blast
  have "parents_closed (of_nat h) (fst ` set m')" using m1(5) unfolding parents_closed_def same .
  with m' m1 show ?case by (intro exI [of _ m']) (auto simp: bind_res_def)
qed simp

lemma level_unique:
  fixes i j :: u64
  assumes "h < 64" "a < h" "b < h" "drop_bit b (leaf_node h j) = drop_bit a (leaf_node h i) XOR 1"
  shows "b = a"
proof -
  have lev: "2 ^ (h - c) \<le> unat (drop_bit c (leaf_node h l)) \<and> unat (drop_bit c (leaf_node h l)) < 2 ^ Suc (h - c)" if "c < h" for c l
  proof -
    have "(2::nat) ^ (h - c) * 2 ^ c = 2 ^ h" using that by (simp flip: power_add)
    then have "2 ^ (h - c) * 2 ^ c \<le> unat (leaf_node h l)" "unat (leaf_node h l) < 2 ^ Suc (h - c) * 2 ^ c"
      using leaf_node_range [OF assms(1), of l] by (simp_all only: power_Suc mult.assoc)
    then show ?thesis by (simp add: unat_drop_bit less_eq_div_iff_mult_less_eq div_less_iff_less_mult)
  qed
  have "2 ^ (h - a) \<le> unat (drop_bit a (leaf_node h i) XOR 1) \<and> unat (drop_bit a (leaf_node h i) XOR 1) < 2 ^ Suc (h - a)"
  proof -
    have "even ((2::nat) ^ (h - a))" using assms(2) by simp
    then obtain q where q: "(2::nat) ^ (h - a) = 2 * q" by (elim evenE)
    show ?thesis using lev [OF assms(2), of i] unfolding unat_xor_one power_Suc q by presburger
  qed
  with lev [OF assms(3), of j, unfolded assms(4)]
  have "(2::nat) ^ (h - b) < 2 ^ Suc (h - a)" "(2::nat) ^ (h - a) < 2 ^ Suc (h - b)"
    by (meson order_le_less_trans)+
  then have "h - b < Suc (h - a)" "h - a < Suc (h - b)" by (meson power_less_imp_less_exp one_less_numeral_iff semiring_norm(76))+
  then show ?thesis using assms(2,3) by linarith
qed

lemma sibling_present:
  assumes "h < 64" "view_keys n K {h} \<subseteq> S" "j < h" "k \<in> K" "tree_of n k = h"
    and on: "\<And>k. k \<in> K \<Longrightarrow> tree_of n k = h \<Longrightarrow> (of_nat h, drop_bit j (leaf_node h k)) \<in> S"
  shows "(of_nat h, drop_bit j (leaf_node h k) XOR 1) \<in> S"
proof (cases "drop_bit j (leaf_node h k) XOR 1 \<in> computable_nodes h (tree_leafs n K h)")
  case True
  then obtain l b where l: "l \<in> K" "tree_of n l = h" "b < h" "drop_bit b (leaf_node h l) = drop_bit j (leaf_node h k) XOR 1"
    by (auto simp: computable_nodes_def tree_leafs_def leaf_node_take)
  then have "b = j" using level_unique [OF assms(1,3) l(3,4)] by simp
  then show ?thesis using on [OF l(1,2)] l(4) by simp
next
  case False
  have "drop_bit j (leaf_node h k) \<in> computable_nodes h (tree_leafs n K h)"
    using assms(3-5) by (force simp: computable_nodes_def tree_leafs_def leaf_node_take)
  with False have "drop_bit j (leaf_node h k) XOR 1 \<in> structure_nodes h (tree_leafs n K h)" by (simp add: structure_nodes_def)
  then show ?thesis using assms(2) by (auto simp: view_keys_def)
qed

lemma path_nodes_present:
  assumes "h < 64" "view_keys n K {h} \<subseteq> S" "parents_closed (of_nat h) S" "j \<le> h" "k \<in> K" "tree_of n k = h"
  shows "(of_nat h, drop_bit j (leaf_node h k)) \<in> S"
  using assms(4-6)
proof (induction j arbitrary: k)
  case 0
  then show ?case using assms(2) by (auto simp: view_keys_def)
next
  case (Suc j)
  have "(of_nat h, drop_bit j (leaf_node h k)) \<in> S" using Suc by simp
  moreover have "(of_nat h, drop_bit j (leaf_node h k) XOR 1) \<in> S"
    using Suc.prems Suc.IH by (intro sibling_present [OF assms(1,2)]) simp_all
  ultimately have "(of_nat h, drop_bit 1 (drop_bit j (leaf_node h k))) \<in> S" using assms(3) by (auto simp: parents_closed_def)
  then show ?case by (simp add: drop_bit_drop_bit)
qed

lemma path_from_ok:
  assumes "h < 64" "agrees node_at m" "2 ^ k \<le> unat i" "unat i < 2 ^ Suc k" "\<forall>j<k. (of_nat h, drop_bit j i XOR 1) \<in> fst ` set m"
  shows "path_from m (of_nat h) i = Inr (map (\<lambda>j. nd h (drop_bit j i XOR 1)) [0..<k])"
  using assms(3-5)
proof (induction k arbitrary: i)
  case 0
  then have "i = 1" by (intro word_eq_unatI) simp
  then show ?case by (simp add: path_from.simps)
next
  case (Suc k)
  let ?p = "drop_bit 1 i"
  have "(2::nat) ^ 1 \<le> 2 ^ Suc k" by (intro power_increasing) simp_all
  then have "2 \<le> unat i" using Suc.prems(1) by (simp del: power_Suc)
  then have i: "i \<noteq> 1" "i \<noteq> 0" by auto
  have "map_of m (of_nat h, i XOR 1) = Some (nd h (i XOR 1))"
  proof -
    have "(of_nat h, drop_bit 0 i XOR 1) \<in> fst ` set m" using Suc.prems(3) by blast
    then show ?thesis by (simp add: agrees_map_of [OF assms(2)] unat_height [OF assms(1)])
  qed
  moreover have "path_from m (of_nat h) ?p = Inr (map (\<lambda>j. nd h (drop_bit j ?p XOR 1)) [0..<k])"
  proof (rule Suc.IH)
    show "2 ^ k \<le> unat ?p" "unat ?p < 2 ^ Suc k" using Suc.prems(1,2) by (simp_all add: unat_drop_bit del: One_nat_def)
    show "\<forall>j<k. (of_nat h, drop_bit j ?p XOR 1) \<in> fst ` set m"
      using Suc.prems(3) by (auto simp: drop_bit_drop_bit dest: spec [of _ "Suc _"])
  qed
  moreover have "map (\<lambda>j. nd h (drop_bit j i XOR 1)) [0..<Suc k] = nd h (i XOR 1) # map (\<lambda>j. nd h (drop_bit j ?p XOR 1)) [0..<k]"
    by (simp add: upt_conv_Cons map_Suc_upt [symmetric] comp_def del: upt_Suc)
  ultimately show ?case using i by (subst path_from.simps) (simp add: bind_res_def del: upt_Suc)
qed

text \<open>The removal record that is rebuilt from the completed view.\<close>

lemma removal_record_of_honest:
  assumes "honest_record C R n nd ch rr" "unat n < 2 ^ 60" "agrees node_at m" "{k \<in> chunks_of_sets [absolute_indices rr]. k < n} \<subseteq> K"
    and "\<forall>k\<in>K. k < n" "\<forall>k\<in>K. master k = Some (ch k)"
    and "\<forall>k\<in>K. \<forall>j<tree_of n k. (of_nat (tree_of n k), drop_bit j (leaf_node (tree_of n k) k) XOR 1) \<in> fst ` set m"
  shows "removal_record_of R n (get_peak_heights R n) (ucast n * ucast CHUNK_SIZE) master m (absolute_indices rr) = Inr rr"
proof -
  let ?a = "absolute_indices rr" and ?es = "dictionary (target_chunks rr)"
  let ?e = "\<lambda>k. (k, (mp_of_path R (node_path nd (tree_of n k) (leaf_node (tree_of n k) k)), ch k))"
  have keys: "map fst ?es = sorted_list_of_set {k \<in> chunks_of_sets [?a]. k < n}" and fit: "fitting_sets [?a]"
    using assms(1) by (simp_all add: honest_record_def)
  obtain ks where ks: "chunk_indices_below (ucast n * ucast CHUNK_SIZE) [?a] = Inr ks" "set ks = {k \<in> chunks_of_sets [?a]. k < n}"
    using chunk_indices_below_ok [OF fit, of n] by (elim exE conjE) (rule that)
  have sorted: "remdups_adj (sort ks) = map fst ?es" unfolding sorted_distinct_lists ks(2) keys ..
  have "target_chunk_of R n (get_peak_heights R n) master m k = Inr (?e k)" if "k \<in> set (map fst ?es)" for k
  proof -
    have k: "k \<in> K" "k < n" using that keys assms(4) finite_nodes by auto
    note h = tree_of_64 [OF k(2)]
    have "index_res (get_peak_heights R n) (unat (peak_of n k)) = Inr (of_nat (tree_of n k))"
      using peak_of(2,3) [OF k(2)] by (simp add: index_res_def peak_heights_positions)
    moreover have "path_from m (of_nat (tree_of n k)) (leaf_node (tree_of n k) k) = Inr (node_path nd (tree_of n k) (leaf_node (tree_of n k) k))"
      unfolding node_path_def by (rule path_from_ok [OF h assms(3) leaf_node_range [OF h]]) (use assms(7) k(1) in blast)
    ultimately show ?thesis
      using assms(6) k(1) peak_of(1) [OF k(2)] by (simp add: target_chunk_of_def unwrap_def bind_res_def)
  qed
  then have "traverse (target_chunk_of R n (get_peak_heights R n) master m) (map fst ?es) = Inr (map ?e (map fst ?es))"
    by (rule traverse_map)
  moreover have "map ?e (map fst ?es) = ?es"
  proof -
    have "?e (fst e) = e" if "e \<in> set ?es" for e
    proof -
      obtain k mp c where e: "e = (k, (mp, c))" by (cases e) auto
      then have "c = ch k" "mp_path R mp = node_path nd (tree_of n k) (leaf_node (tree_of n k) k)"
        using that assms(1) by (auto simp: honest_record_def list_all_iff honest_entry_def)
      then show ?thesis using of_path_path [of mp] by (simp add: e)
    qed
    then show ?thesis by (simp add: map_idI)
  qed
  moreover have "cd_new ?es = target_chunks rr"
    using keys by (cases "target_chunks rr") (simp add: cd_new_def sort_key_id_if_sorted)
  ultimately show ?thesis
    by (simp add: removal_record_of_def ks(1) bind_res_def sorted)
qed

lemma view_keys_range: "\<forall>k\<in>K. k < n \<Longrightarrow> \<forall>h\<in>H. h < 64 \<Longrightarrow> node_range (view_keys n K H)"
  unfolding node_range_def
proof (intro ballI)
  fix x assume K: "\<forall>k\<in>K. k < n" and H: "\<forall>h\<in>H. h < 64" and "x \<in> view_keys n K H"
  then consider k where "k \<in> K" "x = (of_nat (tree_of n k), leaf_node (tree_of n k) k)"
    | h i where "h \<in> H" "x = (of_nat h, i)" "i \<in> structure_nodes h (tree_leafs n K h)"
    by (auto simp: view_keys_def)
  then show "case x of (g, i) \<Rightarrow> unat g < 64 \<and> 1 \<le> unat i \<and> unat i < 2 ^ Suc (unat g)"
  proof cases
    case 1
    then have h: "tree_of n k < 64" using K tree_of_64 by blast
    have "1 \<le> (2::nat) ^ tree_of n k" by simp
    then show ?thesis using leaf_node_range [OF h, of k] h by (simp add: 1 unat_height)
  next
    case 2
    obtain k j where k: "j < h" "i = drop_bit j (leaf_node h k) XOR 1" using 2(3) by (rule structure_nodeE)
    have h: "h < 64" using H 2(1) by blast
    have "unat (leaf_node h k) < 2 ^ Suc h" "2 ^ Suc j \<le> unat (leaf_node h k)"
      using leaf_node_range [OF h, of k] power_increasing [of "Suc j" h "2::nat"] k(1) by simp_all
    then have "2 \<le> unat (leaf_node h k) div 2 ^ j" "unat (leaf_node h k) div 2 ^ j < 2 ^ Suc h"
      by (simp_all add: less_eq_div_iff_mult_less_eq order_le_less_trans [OF div_le_dividend])
    then have "1 \<le> unat i" "unat i < 2 ^ Suc h" unfolding k(2) unat_xor_one unat_drop_bit
      by (auto elim!: evenE)
    then show ?thesis by (simp add: 2(2) unat_height h)
  qed
qed

lemma convert_to_vec_ok:
  assumes hon: "\<forall>rr\<in>set rrs. honest_record C R n nd ch rr" and n: "unat n < 2 ^ 60"
    and clean: "\<forall>h i. take 8 (to_hex R (nd h i)) \<noteq> ''be450642''"
  defines "K \<equiv> {k \<in> chunks_of_sets (map absolute_indices rrs). k < n}"
  shows "convert_to_vec C R (range_list nd ch n K (map absolute_indices rrs)) = Inr rrs"
proof -
  let ?sets = "map absolute_indices rrs" and ?ks = "sorted_list_of_set K" and ?bp = "rev (bit_positions n)"
  let ?l = "range_list nd ch n K ?sets"
  let ?ss = "map (\<lambda>h. map (nd h) (structure_of h (tree_leafs n K h))) ?bp"
  have K: "\<forall>k\<in>K. k < n" "set ?ks = K" using finite_nodes by (simp_all add: K_def)
  have bp: "\<forall>h\<in>set ?bp \<union> {}. h < 64" "distinct ?bp"
    by (simp_all add: bit_positions bit_less_64) (simp add: bit_positions_def)
  have tree: "tree_of n k \<in> set (bit_positions n)" if "k \<in> K" for k
    using in_treeD(1) [OF tree_of_in] K(1) that by (simp add: bit_positions)
  have hash: "\<forall>k\<in>set ?ks. k < n \<and> hash_chunk C (ch k) = nd (tree_of n k) (leaf_node (tree_of n k) k)"
  proof
    fix k assume "k \<in> set ?ks"
    then have "k \<in> fst ` set (all_entries rrs)" unfolding honest_keys [OF hon] K_def [symmetric] K(2) .
    then show "k < n \<and> hash_chunk C (ch k) = nd (tree_of n k) (leaf_node (tree_of n k) k)"
      using honest_entries [OF hon] by (auto simp: honest_entry_def)
  qed
  obtain m0 where m0: "insert_chunk_hashes C R n (get_peak_heights R n) (map (\<lambda>k. (k, ch k)) ?ks) [] = Inr m0" "agrees node_at m0"
      "fst ` set m0 = view_keys n K {}"
    using insert_chunk_hashes_ok [OF hash agrees_Nil] by (auto simp: view_keys_def K(2))
  obtain m1 where m1: "insert_structures R (zip (map of_nat ?bp) ?ss) m0 = Inr m1" "agrees node_at m1"
      "fst ` set m1 = view_keys n K (set ?bp)"
    using insert_structures_ok [OF K(1) bp(2,1) _ m0(2,3)] by auto
  have range: "node_range (fst ` set m1)" unfolding m1(3) by (rule view_keys_range [OF K(1)]) (use bp(1) in simp)
  have bp': "distinct (bit_positions n)" "\<forall>h\<in>set (bit_positions n). h < 64" using bp(1,2) by simp_all
  obtain m where m: "complete_trees C (map of_nat (bit_positions n)) m1 = Inr m" "agrees node_at m" "fst ` set m1 \<subseteq> fst ` set m"
      "\<forall>h\<in>set (bit_positions n). parents_closed (of_nat h) (fst ` set m)"
    using complete_trees_ok [OF bp' m1(2) range] by (elim exE conjE) (rule that)
  have siblings: "\<forall>k\<in>K. \<forall>j<tree_of n k. (of_nat (tree_of n k), drop_bit j (leaf_node (tree_of n k) k) XOR 1) \<in> fst ` set m"
  proof (intro ballI allI impI)
    fix k j assume k: "k \<in> K" "j < tree_of n k"
    have h: "tree_of n k < 64" "tree_of n k \<in> set (bit_positions n)" using K(1) tree_of_64 tree [OF k(1)] k(1) by auto
    have sub: "view_keys n K {tree_of n k} \<subseteq> fst ` set m" 
      using view_keys_mono [of "{tree_of n k}" "set (rev (bit_positions n))" n K] m(3) h(2) unfolding m1(3) by simp
    show "(of_nat (tree_of n k), drop_bit j (leaf_node (tree_of n k) k) XOR 1) \<in> fst ` set m"
      using path_nodes_present [OF h(1) sub] m(4) h(2) k by (intro sibling_present [OF h(1) sub]) simp_all
  qed
  obtain ks where ks: "chunk_indices_below (ucast n * ucast CHUNK_SIZE) ?sets = Inr ks" "set ks = K"
    using chunk_indices_below_ok [OF honest_fitting [OF hon], of n, folded K_def] by (elim exE conjE) (rule that)
  let ?master = "map_of (rev (zip ?ks (map ch ?ks)))"
  have master: "\<forall>k\<in>K. ?master k = Some (ch k)"
  proof
    fix k assume "k \<in> K"
    have "map_of (rev (map (\<lambda>k. (k, ch k)) ?ks)) k = Some (ch k)"
      using \<open>k \<in> K\<close> K(2) by (intro map_of_is_SomeI) (auto simp: comp_def rev_map [symmetric])
    then show "?master k = Some (ch k)" by (simp only: zip_with_map)
  qed
  have "removal_record_of R n (get_peak_heights R n) (ucast n * ucast CHUNK_SIZE) ?master m (absolute_indices rr) = Inr rr"
    if "rr \<in> set rrs" for rr
    using that hon by (intro removal_record_of_honest [OF _ n m(2) _ K(1) master siblings]) (auto simp: K_def chunks_of_sets_def)
  then have recs: "traverse (removal_record_of R n (get_peak_heights R n) (ucast n * ucast CHUNK_SIZE) ?master m) ?sets = Inr rrs"
    by (rule traverse_of_map [where h = id, simplified])
  have clean1: "\<forall>v\<in>snd ` set m1. take 8 (to_hex R v) \<noteq> ''be450642''"
    using m1(2) clean by (auto simp: agrees_def)
  show ?thesis
    using ks m0(1) m1(1) m(1) recs clean1
    by (simp add: convert_to_vec_def Let_def range_list_def swbfi_of_estimate [OF n] window_of_estimate [OF n] bind_res_def assert_then_def
        sorted_distinct_lists zip_eq_def peak_heights_positions sort_heights zip_with_map)
qed

end

section \<open>The estimated range\<close>

text \<open>The estimate keeps the trees down to the one of the largest observed leaf: every observed leaf stays in its tree, and
  no further leaf below the estimate is inactive.\<close>

lemma truncated_range:
  assumes bits: "\<And>j. bit n' j \<longleftrightarrow> bit n j \<and> d \<le> j"
  shows "k < n' \<Longrightarrow> k < n" and "in_tree n k h \<Longrightarrow> d \<le> h \<Longrightarrow> in_tree n' k h" and "unat n' \<le> unat n"
proof -
  show less: "k < n" if "k < n'" for k
  proof -
    obtain h where h: "in_tree n' k h" using in_tree_exists [OF \<open>k < n'\<close>] by blast
    have "bit n h" "d \<le> h" using in_treeD(1) [OF h] bits by simp_all
    moreover have "bit k j = bit n j" if "h < j" for j using in_tree_above [OF h that] bits \<open>d \<le> h\<close> that by simp
    ultimately have "in_tree n k h" using in_treeD(2) [OF h] by (intro in_treeI)
    then show ?thesis by (rule in_tree_less)
  qed
  show "in_tree n' k h" if "in_tree n k h" "d \<le> h"
  proof (rule in_treeI)
    show "bit n' h" using bits in_treeD(1) [OF that(1)] that(2) by simp
    show "\<not> bit k h" using in_treeD(2) [OF that(1)] .
    show "bit k j = bit n' j" if "h < j" for j using in_tree_above [OF \<open>in_tree n k h\<close> that] bits \<open>d \<le> h\<close> that by simp
  qed
  have "\<not> n < n'" using less [of n] by auto
  then show "unat n' \<le> unat n" by (simp add: word_less_nat_alt)
qed

lemma strict_desc: "sorted_wrt (>) (remdups_adj (rev (sort xs)))" for xs :: "nat list"
proof -
  have "sorted_wrt (<) (remdups_adj (sort xs))" by (simp add: sorted_remdups_adj_strict)
  then show ?thesis by (simp add: remdups_adj_rev sorted_wrt_rev)
qed

lemma iter_max_Max: "xs \<noteq> [] \<Longrightarrow> iter_max xs = Some (Max (set xs))"
proof (induction xs)
  case (Cons x xs)
  then show ?case by (cases "xs = []") (simp_all add: max.commute)
qed simp

lemma estimated_range:
  assumes "\<forall>k\<in>K. k < n" "finite K" "set lens = tree_of n ` K" "sorted_wrt (>) lens"
  obtains n' where "estimate_num_leafs_aocl (sorted_list_of_set K) lens = Inr (n' * ucast BATCH_SIZE + 1)" "unat n' \<le> unat n"
    "\<forall>k\<in>K. in_tree n' k (tree_of n k)" "\<And>k. k < n' \<Longrightarrow> k < n" "K = {} \<Longrightarrow> n' = 0"
proof -
  have asserts: "sorted (rev lens)" "length (remdups_adj lens) = length lens"
  proof -
    show "sorted (rev lens)" using assms(4) by (simp add: sorted_wrt_rev) (metis (mono_tags) sorted_wrt_mono_rel less_imp_le)
    have "distinct lens" using assms(4) by (simp add: strict_sorted_iff flip: sorted_wrt_rev [of "(<)" lens, simplified])
    then show "length (remdups_adj lens) = length lens" by (simp add: remdups_adj_distinct)
  qed
  show ?thesis
  proof (cases "K = {}")
    case True
    then show ?thesis using that [of 0] assms(3) by (simp add: estimate_num_leafs_aocl_def assert_then_def)
  next
    case False
    let ?i = "Max K" and ?d = "tree_of n (Max K)"
    have i: "?i \<in> K" "\<And>k. k \<in> K \<Longrightarrow> k \<le> ?i" using Max_in [OF assms(2) False] Max_ge [OF assms(2)] by auto
    have tree: "in_tree n k (tree_of n k)" if "k \<in> K" for k using tree_of_in assms(1) that by blast
    define n' where "n' = estimate_loop ?i lens"
    have mono: "?d \<le> tree_of n k" if "k \<in> K" for k by (rule in_tree_mono [OF tree [OF that] tree [OF i(1)] i(2) [OF that]])
    have bits: "bit n' j \<longleftrightarrow> bit n j \<and> ?d \<le> j" for j
      unfolding n'_def using assms(3) i(1) in_treeD(1) [OF tree] mono
      by (intro estimate_observed [OF tree [OF i(1)] assms(4)]) auto
    note tr = truncated_range [of n' n ?d, OF bits]
    have "iter_max (sorted_list_of_set K) = Some ?i" using iter_max_Max [of "sorted_list_of_set K"] assms(2) False by simp
    then have est: "estimate_num_leafs_aocl (sorted_list_of_set K) lens = Inr (n' * ucast BATCH_SIZE + 1)"
      using asserts by (simp add: estimate_num_leafs_aocl_def assert_then_def n'_def)
    have "\<forall>k\<in>K. in_tree n' k (tree_of n k)" using tr(2) tree mono by blast
    then show ?thesis using that [of n', OF est tr(3) _ tr(1)] False by blast
  qed
qed

lemma honest_truncated:
  assumes "honest_record C R n nd ch rr" "\<forall>k\<in>{k \<in> chunks_of_sets [absolute_indices rr]. k < n}. in_tree n' k (tree_of n k)"
    and "\<And>k. k < n' \<Longrightarrow> k < n"
  shows "honest_record C R n' nd ch rr"
proof -
  let ?K = "{k \<in> chunks_of_sets [absolute_indices rr]. k < n}"
  have below: "k < n' \<and> tree_of n' k = tree_of n k" if "k \<in> ?K" for k
    using assms(2) in_tree_less tree_of that by blast
  then have "?K = {k \<in> chunks_of_sets [absolute_indices rr]. k < n'}" using assms(3) by blast
  moreover have "honest_entry C R n' nd ch e" if "e \<in> set (dictionary (target_chunks rr))" for e
  proof -
    have keys: "fst e \<in> ?K"
    proof -
      have "set (map fst (dictionary (target_chunks rr))) = ?K"
        using assms(1) by (simp only: honest_record_def set_sorted_list_of_set [OF finite_nodes])
      then show ?thesis using that by (metis image_eqI list.set_map)
    qed
    have "honest_entry C R n nd ch e" using assms(1) that by (simp add: honest_record_def list_all_iff)
    then show ?thesis using below [OF keys] by (auto simp: honest_entry_def)
  qed
  ultimately show ?thesis using assms(1) by (simp add: honest_record_def list_all_iff)
qed

context merkle_range
begin

lemma unpack_packed:
  assumes hon: "\<forall>rr\<in>set rrs. honest_record C R n nd ch rr" and n: "unat n < 2 ^ 60"
    and clean: "\<forall>h i. take 8 (to_hex R (nd h i)) \<noteq> ''be450642''"
  shows "\<exists>packed. rrl_pack C R rrs = Inr packed \<and> rrl_try_unpack C R packed = Inr (Inr rrs)"
proof -
  let ?sets = "map absolute_indices rrs" and ?es = "all_entries rrs"
  let ?K = "{k \<in> chunks_of_sets ?sets. k < n}"
  let ?lens = "remdups_adj (rev (sort (map (\<lambda>ap. length (mp_path R ap)) (concat (map (\<lambda>rr. authentication_paths (target_chunks rr)) rrs)))))"
  have keys: "fst ` set ?es = ?K" by (rule honest_keys [OF hon])
  have "map (\<lambda>ap. length (mp_path R ap)) (concat (map (\<lambda>rr. authentication_paths (target_chunks rr)) rrs)) =
      map (\<lambda>(k, (mp, c)). length (mp_path R mp)) ?es"
    by (simp add: all_entries_def authentication_paths_def map_concat comp_def case_prod_beta')
  also have "\<dots> = map (\<lambda>e. tree_of n (fst e)) ?es"
    using honest_entries [OF hon] by (auto simp: honest_entry_def)
  finally have lens: "set ?lens = tree_of n ` ?K" unfolding keys [symmetric] by (simp add: image_image)
  have below: "\<forall>k\<in>?K. k < n" by simp
  obtain n' where est: "estimate_num_leafs_aocl (sorted_list_of_set ?K) ?lens = Inr (n' * ucast BATCH_SIZE + 1)"
    and n': "unat n' \<le> unat n" "\<forall>k\<in>?K. in_tree n' k (tree_of n k)" "\<And>k. k < n' \<Longrightarrow> k < n" "?K = {} \<Longrightarrow> n' = 0"
    by (rule estimated_range [OF below finite_nodes lens strict_desc]) (rule that)
  have hon': "\<forall>rr\<in>set rrs. honest_record C R n' nd ch rr"
  proof
    fix rr assume rr: "rr \<in> set rrs"
    then have "\<forall>k\<in>{k \<in> chunks_of_sets [absolute_indices rr]. k < n}. in_tree n' k (tree_of n k)"
      using n'(2) by (auto simp: chunks_of_sets_def)
    then show "honest_record C R n' nd ch rr" using honest_truncated n'(3) hon rr by blast
  qed
  let ?K' = "{k \<in> chunks_of_sets ?sets. k < n'}"
  have n60: "unat n' < 2 ^ 60" using n n'(1) by simp
  have "?sets = [] \<Longrightarrow> n' = 0" using n'(4) by (simp add: chunks_of_sets_def)
  from decode_encode [OF honest_fitting [OF hon'] n60 this]
  obtain packed where packed: "encode_as_vec R (range_list nd ch n' ?K' ?sets) = Inr packed"
    "decode_from_vec R packed = Inr (Inr (range_list nd ch n' ?K' ?sets))" by blast
  have obs: "remdups_adj (sort (map fst (concat (map (\<lambda>rr. indices_and_leafs (hash_chunk C) (target_chunks rr)) rrs)))) = sorted_list_of_set ?K"
  proof -
    have "map fst (concat (map (\<lambda>rr. indices_and_leafs (hash_chunk C) (target_chunks rr)) rrs)) = map fst ?es"
      by (simp add: all_entries_def indices_and_leafs_def map_concat comp_def case_prod_beta')
    then show ?thesis unfolding sorted_distinct_lists by (simp add: keys)
  qed
  have "from_removal_records C R rrs (n' * ucast BATCH_SIZE + 1) = Inr (range_list nd ch n' ?K' ?sets)"
    using from_removal_records_ok [OF honest_entries [OF hon'] n60] unfolding honest_keys [OF hon'] .
  then have "convert_from_vec C R rrs = Inr (range_list nd ch n' ?K' ?sets)"
    unfolding convert_from_vec_def Let_def obs est by (simp add: bind_res_def)
  then have "rrl_pack C R rrs = Inr packed" using packed(1) by (simp add: rrl_pack_def bind_res_def)
  moreover have "rrl_try_unpack C R packed = Inr (Inr rrs)"
    using packed(2) convert_to_vec_ok [OF hon' n60 clean] by (simp add: rrl_try_unpack_def try_then_def bind_res_def)
  ultimately show ?thesis by blast
qed

end

section \<open>An instance\<close>

text \<open>The arithmetic of Merkle mountain ranges, computed from its specification, and the range over given chunks with a hash
  that keeps what it hashed.\<close>

definition std_mt_index :: "u64 \<Rightarrow> u64 \<Rightarrow> (u64 \<times> u32) res" where
  "std_mt_index i n = (case find_position (in_tree n i) (bit_positions n) of
     None \<Rightarrow> Inl AssertFailed | Some p \<Rightarrow> Inr (leaf_node (bit_positions n ! p) i, of_nat p))"

definition std_node_indices :: "u64 \<Rightarrow> u64 list \<Rightarrow> u64 list option" where
  "std_node_indices width is = (case find (\<lambda>h. push_bit h 1 = width) [0..<64] of
     None \<Rightarrow> None
   | Some h \<Rightarrow>
       let computable = concat (map (\<lambda>i. map (\<lambda>k. drop_bit k (leaf_node h i)) [0..<h]) is)
       in Some (rev (sort (remdups (filter (\<lambda>i. i \<notin> set computable) (map (\<lambda>i. i XOR 1) computable))))))"

definition std_rrl_ops :: "('d \<Rightarrow> string) \<Rightarrow> ('d, 'd list) rrl_ops" where
  "std_rrl_ops hex = \<lparr>mp_path = (\<lambda>p. p), mp_of_path = (\<lambda>p. p), get_peak_heights = (\<lambda>n. map of_nat (bit_positions n)),
     leaf_index_to_mt_index_and_peak_index = std_mt_index, authentication_structure_node_indices = std_node_indices, to_hex = hex\<rparr>"

lemma push_bit_one_inj: "h < 64 \<Longrightarrow> g < 64 \<Longrightarrow> (push_bit h 1 :: u64) = push_bit g 1 \<longleftrightarrow> h = g"
  by (metis unat_exp64 push_bit_of_1 power_inject_exp one_less_numeral_iff semiring_norm(76))

lemma std_rrl_laws: "rrl_laws (std_rrl_ops hex)"
proof
  fix n i :: u64 assume "i < n"
  then obtain h where h: "in_tree n i h" using in_tree_exists by blast
  then have "h \<in> set (bit_positions n)" using in_treeD(1) by (simp add: bit_positions)
  then obtain p where p: "find_position (in_tree n i) (bit_positions n) = Some p"
    using h find_position_None by (metis not_None_eq)
  then have pos: "p < length (bit_positions n)" "in_tree n i (bit_positions n ! p)" using find_position_Some by blast+
  have "length (bit_positions n) \<le> 64"
    unfolding bit_positions_def using length_filter_le [of "bit n" "[0..<64]"] by simp
  then have "unat (of_nat p :: u32) = p" using pos(1) by (simp add: unat_of_nat)
  then show "\<exists>pk h. leaf_index_to_mt_index_and_peak_index (std_rrl_ops hex) i n = Inr (leaf_node h i, pk) \<and>
      unat pk < length (get_peak_heights (std_rrl_ops hex) n) \<and> get_peak_heights (std_rrl_ops hex) n ! unat pk = of_nat h \<and> in_tree n i h"
    using p pos by (intro exI [of _ "of_nat p"] exI [of _ "bit_positions n ! p"]) (simp add: std_rrl_ops_def std_mt_index_def)
next
  fix h :: nat and "is" :: "u64 list" assume h: "h < 64" and "\<forall>i\<in>set is. i < push_bit h 1"
  let ?c = "concat (map (\<lambda>i. map (\<lambda>k. drop_bit k (leaf_node h i)) [0..<h]) is)"
  have "find (\<lambda>g. push_bit g 1 = (push_bit h 1 :: u64)) [0..<64] = Some h"
    unfolding find_Some_iff using h push_bit_one_inj by (intro exI [of _ h]) auto
  then have "authentication_structure_node_indices (std_rrl_ops hex) (push_bit h 1) is =
      Some (rev (sort (remdups (filter (\<lambda>i. i \<notin> set ?c) (map (\<lambda>i. i XOR 1) ?c)))))"
    by (simp add: std_rrl_ops_def std_node_indices_def Let_def)
  moreover have "set ?c = computable_nodes h (set is)" by (auto simp: computable_nodes_def)
  then have "set (filter (\<lambda>i. i \<notin> set ?c) (map (\<lambda>i. i XOR 1) ?c)) = structure_nodes h (set is)"
    unfolding structure_nodes_def by (auto simp del: set_concat)
  moreover have "sorted_wrt (>) (rev (sort (remdups xs)))" for xs :: "u64 list"
    by (simp add: sorted_wrt_rev strict_sorted_iff)
  ultimately show "\<exists>nodes. authentication_structure_node_indices (std_rrl_ops hex) (push_bit h 1) is = Some nodes \<and>
      sorted_wrt (>) nodes \<and> set nodes = structure_nodes h (set is)" by simp
qed (simp_all add: std_rrl_ops_def bit_positions_def rev_map)

datatype tdigest = TLeaf chunk | TNode tdigest tdigest

definition tree_crypto :: "(tdigest, unit, tdigest list) crypto" where
  "tree_crypto = \<lparr>hash_pair = TNode, hash_digest = (\<lambda>d. TNode d (TLeaf empty_chunk)), hash_chunk = TLeaf,
     hash_window = (\<lambda>_. TLeaf empty_chunk), zero_digest = TLeaf empty_chunk, sample_indices = (\<lambda>_ _ _ _. []),
     mmr_empty = (), mmr_init = (\<lambda>_ _. ()), num_leafs = (\<lambda>_. 0), num_peaks = (\<lambda>_. 0), bag_peaks = (\<lambda>_. TLeaf empty_chunk),
     mmr_append = (\<lambda>_ _. ((), [])), mp_verify = (\<lambda>_ _ _ _. False), batch_mutate = (\<lambda>_ _ _. ((), []))\<rparr>"

fun subtree :: "(u64 \<Rightarrow> chunk) \<Rightarrow> nat \<Rightarrow> nat \<Rightarrow> tdigest" where
  "subtree ch 0 first = TLeaf (ch (of_nat first))"
| "subtree ch (Suc k) first = TNode (subtree ch k first) (subtree ch k (first + 2 ^ k))"

fun level :: "nat \<Rightarrow> nat" where
  "level i = (if i < 2 then 0 else Suc (level (i div 2)))"

declare level.simps [simp del]

definition range_node :: "(u64 \<Rightarrow> chunk) \<Rightarrow> u64 \<Rightarrow> nat \<Rightarrow> u64 \<Rightarrow> tdigest" where
  "range_node ch n h i = (let l = level (unat i); k = h - l
     in subtree ch k (unat n div 2 ^ Suc h * 2 ^ Suc h + (unat i - 2 ^ l) * 2 ^ k))"

lemma level_bounds: "0 < i \<Longrightarrow> 2 ^ level i \<le> i \<and> i < 2 ^ Suc (level i)"
proof (induction i rule: level.induct)
  case (1 i)
  then show ?case
  proof (cases "i < 2")
    case False
    then have "2 ^ level (i div 2) \<le> i div 2 \<and> i div 2 < 2 ^ Suc (level (i div 2))" using 1 by simp
    then show ?thesis using False by (simp add: level.simps [of i]) linarith
  qed (simp add: level.simps)
qed

lemma range_node_parent:
  assumes "h < 64" "0 < i" "unat i < 2 ^ h"
  shows "range_node ch n h i = TNode (range_node ch n h (push_bit 1 i)) (range_node ch n h (push_bit 1 i XOR 1))"
proof -
  let ?l = "level (unat i)" and ?f = "unat n div 2 ^ Suc h * 2 ^ Suc h"
  have i: "0 < unat i" using assms(2) by (simp add: word_less_nat_alt)
  have "(2::nat) ^ Suc h \<le> 2 ^ 64" using assms(1) by (intro power_increasing) simp_all
  then have "2 * unat i < 2 ^ 64" using assms(3) by simp
  then have left: "unat (push_bit 1 i) = 2 * unat i"
    using unat_mult_no_overflow [of "2 :: u64" i] by (simp add: push_bit_eq_mult mult.commute)
  then have right: "unat (push_bit 1 i XOR 1) = 2 * unat i + 1" by (simp only: unat_xor_one) simp
  have "2 ^ ?l \<le> unat i" using level_bounds [OF i] by simp
  then have "(2::nat) ^ ?l < 2 ^ h" using assms(3) by linarith
  then have lh: "?l < h" by simp
  then obtain k where k: "h - ?l = Suc k" "h - Suc ?l = k" by (metis Suc_diff_Suc)
  have lev: "level (2 * unat i) = Suc ?l" "level (2 * unat i + 1) = Suc ?l" using i by (simp_all add: level.simps [of "2 * unat i"] level.simps [of "Suc (2 * unat i)"])
  have "(2 * unat i - 2 ^ Suc ?l) * 2 ^ k = (unat i - 2 ^ ?l) * 2 ^ Suc k"
    by (simp add: right_diff_distrib' [symmetric] diff_mult_distrib2 [symmetric])
  moreover have "(2 * unat i + 1 - 2 ^ Suc ?l) * 2 ^ k = (unat i - 2 ^ ?l) * 2 ^ Suc k + 2 ^ k"
  proof -
    have "2 * unat i + 1 - 2 ^ Suc ?l = 2 * (unat i - 2 ^ ?l) + 1" using \<open>2 ^ ?l \<le> unat i\<close> by simp
    then show ?thesis by (simp add: algebra_simps)
  qed
  ultimately show ?thesis unfolding range_node_def Let_def left right lev k by (simp only: subtree.simps add.assoc)
qed

definition sample_chunk :: "u64 \<Rightarrow> chunk" where
  "sample_chunk k = Chunk [ucast (k AND 4095)]"

lemma sample_range: "merkle_range (std_rrl_ops hex) (range_node sample_chunk n) sample_chunk tree_crypto"
proof (intro merkle_range.intro range_view.intro std_rrl_laws merkle_range_axioms.intro range_view_axioms.intro)
  fix k :: u64
  have "k AND 4095 = take_bit 12 k" using and_exp_minus_one [of k 12] by simp
  then have "unat (ucast (k AND 4095) :: u32) < 4096" by (simp add: unat_ucast_mod unat_take_bit)
  then show "list_all (\<lambda>x. x < CHUNK_SIZE) (relative_indices (sample_chunk k)) \<and>
      length (relative_indices (sample_chunk k)) \<le> MAX_UNPACKED_LENGTH"
    by (simp add: sample_chunk_def CHUNK_SIZE_def MAX_UNPACKED_LENGTH_def word_less_nat_alt)
next
  fix h and i :: u64 assume "h < 64" "0 < i" "unat i < 2 ^ h"
  then show "range_node sample_chunk n h i =
      hash_pair tree_crypto (range_node sample_chunk n h (push_bit 1 i)) (range_node sample_chunk n h (push_bit 1 i XOR 1))"
    using range_node_parent by (simp add: tree_crypto_def del: push_bit_of_1)
qed

interpretation sample_mmr: merkle_range "std_rrl_ops (\<lambda>_ :: tdigest. ''00'')" "range_node sample_chunk 3" sample_chunk tree_crypto
  by (rule sample_range)

section \<open>Properties\<close>

text \<open>(C6) Packing is lossless: removal records that agree with one Merkle mountain range (each lists exactly the inactive chunks
  of its index set, with the authentication paths of that range) are packed without a panic, and unpacking what was packed
  gives back the same records. The hypothesis that no digest of the range starts with \<^verbatim>\<open>be450642\<close> is needed: an assertion in
  \<^verbatim>\<open>convert_to_vec\<close> fails on such a digest.\<close>

theorem unpack_pack_records:
  assumes "merkle_range R nd ch C" "\<forall>rr\<in>set rrs. honest_record C R n nd ch rr" "unat n < 2 ^ 60"
    and "\<forall>h i. take 8 (to_hex R (nd h i)) \<noteq> ''be450642''"
  shows "\<exists>packed. rrl_pack C R rrs = Inr packed \<and> rrl_try_unpack C R packed = Inr (Inr rrs)"
  by (rule merkle_range.unpack_packed [OF assms])

definition sample_record :: "tdigest list removal_record" where
  "sample_record = \<lparr>absolute_indices = \<lparr>minimum = 5, distances = replicate 44 0 @ [8192]\<rparr>,
     target_chunks = ChunkDictionary [(0, ([range_node sample_chunk 3 1 3], sample_chunk 0)), (2, ([], sample_chunk 2))]\<rparr>"

lemma sample_trees: "tree_of 3 0 = 1" "tree_of 3 2 = 0" "tree_of 2 0 = 1"
proof -
  have "in_tree 3 0 1" "in_tree 3 2 0" "in_tree 2 0 1" unfolding in_tree_def by code_simp+
  then show "tree_of 3 0 = 1" "tree_of 3 2 = 0" "tree_of 2 0 = 1" by (simp_all add: tree_of)
qed

lemma sample_record_honest:
  "honest_record tree_crypto (std_rrl_ops (\<lambda>_. ''00'')) 3 (range_node sample_chunk 3) sample_chunk sample_record"
proof -
  have "ais_to_array (absolute_indices sample_record) = replicate 44 5 @ [8197]"
    by (simp add: sample_record_def ais_to_array_def saturating_add_w_def)
  then have arr: "set (ais_to_array (absolute_indices sample_record)) = {5, 8197}" by (simp add: insert_commute)
  have k: "unat k = 0 \<longleftrightarrow> k = 0" "unat k = 2 \<longleftrightarrow> k = 2" for k :: u64 by (auto intro!: word_eq_unatI simp: unat_eq_0)
  have "{k \<in> chunks_of_sets [absolute_indices sample_record]. k < 3} = {0, 2}"
    by (auto simp: chunks_of_sets_def arr k)
  moreover have "sorted_list_of_set {0, 2 :: u64} = [0, 2]" by simp
  moreover have "fitting_sets [absolute_indices sample_record]" by (simp add: fitting_sets_def arr)
  moreover have "list_all (honest_entry tree_crypto (std_rrl_ops (\<lambda>_. ''00'')) 3 (range_node sample_chunk 3) sample_chunk)
      (dictionary (target_chunks sample_record))"
  proof -
    have "leaf_node 1 0 = 2" "leaf_node 0 2 = 1" "(2 XOR 1 :: u64) = 3" by code_simp+
    moreover have "range_node sample_chunk 3 1 2 = TLeaf (sample_chunk 0)" "range_node sample_chunk 3 0 1 = TLeaf (sample_chunk 2)"
      by (simp_all add: range_node_def level.simps)
    ultimately show ?thesis
      by (simp add: sample_record_def honest_entry_def sample_trees node_path_def std_rrl_ops_def tree_crypto_def)
  qed
  ultimately show ?thesis by (simp add: honest_record_def sample_record_def)
qed

theorem unpack_pack_records_witness:
  "\<exists>packed. rrl_pack tree_crypto (std_rrl_ops (\<lambda>_. ''00'')) [sample_record] = Inr packed \<and>
     rrl_try_unpack tree_crypto (std_rrl_ops (\<lambda>_. ''00'')) packed = Inr (Inr [sample_record])"
proof (rule unpack_pack_records [OF sample_mmr.merkle_range_axioms, where n = 3])
  show "\<forall>rr\<in>set [sample_record]. honest_record tree_crypto (std_rrl_ops (\<lambda>_. ''00'')) 3 (range_node sample_chunk 3) sample_chunk rr"
    by (simp add: sample_record_honest)
  show "\<forall>h i. take 8 (to_hex (std_rrl_ops (\<lambda>_. ''00'')) (range_node sample_chunk 3 h i)) \<noteq> ''be450642''"
    by (simp add: std_rrl_ops_def)
qed simp

text \<open>A removal record with one position, in the chunk 0, and a packed dictionary.\<close>

definition packed_record :: "(u64 \<times> 'p authenticated_chunk) list \<Rightarrow> 'p removal_record" where
  "packed_record d = \<lparr>absolute_indices = \<lparr>minimum = 5, distances = replicate 45 0\<rparr>, target_chunks = ChunkDictionary d\<rparr>"

lemma packed_record_sets:
  "fitting_sets [absolute_indices (packed_record d)]" "chunks_of_sets [absolute_indices (packed_record d)] = {0}"
proof -
  have "ais_to_array (absolute_indices (packed_record d)) = replicate 45 5"
    by (simp add: packed_record_def ais_to_array_def saturating_add_w_def)
  then have arr: "set (ais_to_array (absolute_indices (packed_record d))) = {5}" by simp
  then show "fitting_sets [absolute_indices (packed_record d)]" by (simp add: fitting_sets_def)
  show "chunks_of_sets [absolute_indices (packed_record d)] = {0}" by (auto simp: chunks_of_sets_def arr unat_eq_0)
qed

lemma packed_record_observed: "observed_chunk_indices_from_index_sets [absolute_indices (packed_record d)] (Suc 0) = Inr [0]"
  using observed_from_sets_ok [OF packed_record_sets(1), of d 1] by (simp add: packed_record_sets(2) conj_commute cong: conj_cong)

lemma packed_record_entries: "all_entries [packed_record d] = d"
  by (simp add: all_entries_def packed_record_def)

lemma small_ranges: "bit_positions 2 = [1]" "bit_positions 3 = [1, 0]"
  unfolding bit_positions_def by code_simp+

lemma small_leafs: "tree_leafs 2 {0} 1 = {0}" "tree_leafs 3 {0} 1 = {0}" "tree_leafs 3 {0} 0 = {}"
  by (auto simp: tree_leafs_def sample_trees)

lemma small_structures:
  "structure_of 1 (tree_leafs 2 {0} 1) = [3]" "structure_of 1 (tree_leafs 3 {0} 1) = [3]" "structure_of 0 (tree_leafs 3 {0} 0) = []"
proof -
  have "leaf_node 1 0 = 2" "(2 XOR 1 :: u64) = 3" by code_simp+
  then have "structure_nodes 1 {0} = {3}" by (simp add: structure_nodes_def computable_nodes_def lessThan_Suc)
  moreover have "structure_nodes 0 {} = {}" by (simp add: structure_nodes_def computable_nodes_def)
  ultimately show "structure_of 1 (tree_leafs 2 {0} 1) = [3]" "structure_of 1 (tree_leafs 3 {0} 1) = [3]"
    "structure_of 0 (tree_leafs 3 {0} 0) = []" unfolding small_leafs by (simp_all add: structure_of_def)
qed

context rrl_laws
begin

lemma decode_packed_record:
  assumes dec: "decode_entries R d ([], [], []) = Inr (Inr (hs, ss, [c]))" "rev (map unat hs) = bit_positions n"
    and n: "0 < n" "unat n < 2 ^ 60"
    and lens: "mset (map length ss) = mset (map (\<lambda>h. length (structure_of h (tree_leafs n {0} h))) (bit_positions n))"
  shows "decode_from_vec R [packed_record d] = Inr (Inr \<lparr>index_sets = [absolute_indices (packed_record d)],
    authentication_structures = ss, rrl_chunks = [c], num_leafs_aocl = n * ucast BATCH_SIZE + 1\<rparr>)"
proof -
  let ?l = "\<lparr>index_sets = [absolute_indices (packed_record d)], authentication_structures = ss, rrl_chunks = [c],
    num_leafs_aocl = n * ucast BATCH_SIZE + 1\<rparr>"
  have view: "range_view R (\<lambda>_. Chunk [])"
    by (intro range_view.intro rrl_laws_axioms range_view_axioms.intro) (simp add: MAX_UNPACKED_LENGTH_def)
  have K: "{k. k = 0 \<and> k < n} = {0}" using n(1) by auto
  have "length ss = length (bit_positions n)" using arg_cong [OF lens, of size] by simp
  then have "validate_consistency R ?l = Inr (Inr ())"
    using lens packed_record_sets [of d] by (intro range_view.consistent_if_lengths [OF view _ n(2)]) (simp_all add: K)
  moreover have "estimate_num_leafs_aocl [0] (bit_positions n) = Inr (n * ucast BATCH_SIZE + 1)"
    by (rule estimate_again) (simp add: n(1))
  ultimately show ?thesis
    using dec by (simp add: decode_from_vec_def Let_def packed_record_entries try_then_def bind_res_def packed_record_observed)
qed

lemma first_leaf:
  assumes "tree_of n 0 = h" "0 < n"
  shows "\<exists>pk. leaf_index_to_mt_index_and_peak_index R 0 n = Inr (leaf_node h 0, pk) \<and>
    index_res (get_peak_heights R n) (unat pk) = Inr (of_nat h)"
  using mt_index [OF assms(2)] tree_of assms(1) by (fastforce simp: index_res_def)

lemma first_nodes: "authentication_structure_node_indices R 2 [0] = Some [3]" "authentication_structure_node_indices R 1 [] = Some []"
proof -
  have view: "range_view R (\<lambda>_. Chunk [])"
    by (intro range_view.intro rrl_laws_axioms range_view_axioms.intro) (simp add: MAX_UNPACKED_LENGTH_def)
  have s: "shl_one (Suc 0) = 2" "shl_one 0 = 1" by (simp_all add: shl_one_def)
  have "structure_of 1 {0} = [3]" "structure_of 0 {} = []"
    using small_structures unfolding small_leafs by simp_all
  then show "authentication_structure_node_indices R 2 [0] = Some [3]" "authentication_structure_node_indices R 1 [] = Some []"
    using range_view.node_indices_eq [OF view, of 1 "[0]"] range_view.node_indices_eq [OF view, of 0 "[]"] by (simp_all add: s)
qed

lemma unsorted_heights_panic:
  "rrl_try_unpack C R [packed_record [(5, (p, Chunk [])), (67, (q, Chunk []))]] = Inl AssertFailed"
proof -
  have "decode_entries R [(5, (p, Chunk [])), (67, (q, Chunk []))] ([], [], []) = Inr (Inr ([5, 3], [mp_path R p, mp_path R q], [Chunk []]))"
    by (simp add: decode_entry_def try_then_def reject_if_def bind_res_def unpack_chunk_def try_unpack_def ENCODING_TREE_HEIGHT_OFFSET_def)
  then show ?thesis
    by (simp add: rrl_try_unpack_def decode_from_vec_def Let_def packed_record_entries try_then_def bind_res_def packed_record_observed
        estimate_num_leafs_aocl_def assert_then_def)
qed

lemma convert_packed_record:
  fixes c :: chunk and d :: "(u64 \<times> 'p authenticated_chunk) list"
  assumes "0 < n" "unat n < 2 ^ 60" "tree_of n 0 = 1" "length ss = length (bit_positions n)"
  defines "l \<equiv> \<lparr>index_sets = [absolute_indices (packed_record d)], authentication_structures = ss, rrl_chunks = [c],
      num_leafs_aocl = n * ucast BATCH_SIZE + 1\<rparr>"
  shows "\<exists>f. convert_to_vec C R l =
    bind_res (insert_structures R (zip (map of_nat (rev (bit_positions n))) ss) [((1, 2), hash_chunk C c)]) (\<lambda>m.
      assert_then (\<forall>v\<in>snd ` set m. take 8 (to_hex R v) \<noteq> ''be450642'') (f m))"
proof -
  obtain ks where ks: "chunk_indices_below (ucast n * ucast CHUNK_SIZE) (index_sets l) = Inr ks" "set ks = {0}"
    using chunk_indices_below_ok [OF packed_record_sets(1), of n d] assms(1) by (auto simp: packed_record_sets(2) l_def)
  then have sorted: "remdups_adj (sort ks) = [0]" unfolding sorted_distinct_lists ks(2) by simp
  obtain pk where "leaf_index_to_mt_index_and_peak_index R 0 n = Inr (2, pk)" "index_res (get_peak_heights R n) (unat pk) = Inr 1"
    using first_leaf [OF assms(3,1)] by (auto simp: leaf_node_def)
  then have ins: "insert_chunk_hashes C R n (get_peak_heights R n) [(0, c)] [] = Inr [((1, 2), hash_chunk C c)]"
    by (simp add: bind_res_def)
  have "get_peak_heights R n = map of_nat (bit_positions n)" by (simp add: peak_heights bit_positions_def rev_map)
  then have peaks: "length (get_peak_heights R n) = length ss" "sort (get_peak_heights R n) = map of_nat (rev (bit_positions n))"
    using assms(4) sort_heights by simp_all
  show ?thesis
    unfolding convert_to_vec_def Let_def
    using ks(1) sorted ins peaks(1) by (simp add: l_def swbfi_of_estimate [OF assms(2)] window_of_estimate [OF assms(2)] bind_res_def
        assert_then_def zip_eq_def peaks(2) assms(4)) (rule exI, rule refl)
qed

lemma marked_digest_panic:
  assumes "take 8 (to_hex R v) = ''be450642''"
  shows "rrl_try_unpack C R [packed_record [(1, (mp_of_path R [v], Chunk []))]] = Inl AssertFailed"
proof -
  let ?d = "[(1, (mp_of_path R [v], Chunk []))]"
  have "decode_entries R ?d ([], [], []) = Inr (Inr ([1], [[v]], [Chunk []]))"
    by (simp add: decode_entry_def try_then_def reject_if_def bind_res_def unpack_chunk_def try_unpack_def ENCODING_TREE_HEIGHT_OFFSET_def path_of_path)
  from decode_packed_record [OF this, of 2]
  have "decode_from_vec R [packed_record ?d] = Inr (Inr \<lparr>index_sets = [absolute_indices (packed_record ?d)],
      authentication_structures = [[v]], rrl_chunks = [Chunk []], num_leafs_aocl = 2 * ucast BATCH_SIZE + 1\<rparr>)"
    by (simp add: small_ranges small_structures [simplified])
  moreover have "insert_structures R (zip (map of_nat (rev (bit_positions 2))) [[v]]) [((1, 2), h)] = Inr [((1, 2), h), ((1, 3), v)]" for h
    using first_nodes(1) by (simp add: small_ranges nodes_at_def shl_one_def unwrap_def bind_res_def assert_then_def)
  ultimately show ?thesis
    using convert_packed_record [where n = 2 and ss = "[[v]]" and d = ?d and c = "Chunk []" and C = C] assms
    by (auto simp: rrl_try_unpack_def try_then_def bind_res_def assert_then_def small_ranges sample_trees)
qed

lemma swapped_structures_panic:
  "rrl_try_unpack C R [packed_record [(0, (mp_of_path R [v], Chunk [])), (65, (mp_of_path R [], Chunk []))]] = Inl AssertFailed"
proof -
  let ?d = "[(0, (mp_of_path R [v], Chunk [])), (65, (mp_of_path R [], Chunk []))]"
  have "decode_entries R ?d ([], [], []) = Inr (Inr ([0, 1], [[v], []], [Chunk []]))"
    by (simp add: decode_entry_def try_then_def reject_if_def bind_res_def unpack_chunk_def try_unpack_def ENCODING_TREE_HEIGHT_OFFSET_def path_of_path)
  from decode_packed_record [OF this, of 3]
  have "decode_from_vec R [packed_record ?d] = Inr (Inr \<lparr>index_sets = [absolute_indices (packed_record ?d)],
      authentication_structures = [[v], []], rrl_chunks = [Chunk []], num_leafs_aocl = 3 * ucast BATCH_SIZE + 1\<rparr>)"
    by (simp add: small_ranges small_structures [simplified])
  moreover have "insert_structures R (zip (map of_nat (rev (bit_positions 3))) [[v], []]) [((1, 2), h)] = Inl AssertFailed" for h
    using first_nodes(2) by (simp add: small_ranges nodes_at_def shl_one_def unwrap_def bind_res_def assert_then_def)
  ultimately show ?thesis
    using convert_packed_record [where n = 3 and ss = "[[v], []]" and d = ?d and c = "Chunk []" and C = C]
    by (auto simp: rrl_try_unpack_def try_then_def bind_res_def small_ranges sample_trees)
qed

end

text \<open>(C12) \<^verbatim>\<open>try_unpack\<close> is documented never to panic and to be safe on untrusted input. It panics on three kinds of packed
  records: tree heights in descending order when the second one carries the offset for an ignored chunk, a digest whose
  hexadecimal form starts with \<^verbatim>\<open>be450642\<close>, and structures whose lengths are those expected of another tree.\<close>

theorem try_unpack_panics:
  assumes "rrl_laws R" "take 8 (to_hex R v) = ''be450642''"
  shows "rrl_try_unpack C R [packed_record [(5, (p, Chunk [])), (67, (q, Chunk []))]] = Inl AssertFailed \<and>
    rrl_try_unpack C R [packed_record [(1, (mp_of_path R [v], Chunk []))]] = Inl AssertFailed \<and>
    rrl_try_unpack C R [packed_record [(0, (mp_of_path R [w], Chunk [])), (65, (mp_of_path R [], Chunk []))]] = Inl AssertFailed"
  using rrl_laws.unsorted_heights_panic [OF assms(1)] rrl_laws.marked_digest_panic [OF assms]
    rrl_laws.swapped_structures_panic [OF assms(1)] by blast

theorem try_unpack_panics_witness:
  "rrl_try_unpack tree_crypto (std_rrl_ops (\<lambda>_. ''be450642ff'')) [packed_record [(1, ([TLeaf (Chunk [])], Chunk []))]] = Inl AssertFailed"
  using try_unpack_panics [OF std_rrl_laws, of "\<lambda>_. ''be450642ff''" "TLeaf (Chunk [])" tree_crypto "[]" "[]" "TLeaf (Chunk [])"]
  by (simp add: std_rrl_ops_def)

end
