(* ===== verification/Network.thy ===== *)
theory Network
  imports Difficulty_Control
begin

text \<open>
  \<^verbatim>\<open>consensus/src/network.rs\<close> and \<^verbatim>\<open>consensus/src/consensus_rule_set.rs\<close>: the networks with their parameters and
  names, and the consensus rules that a block of a network is held to.
\<close>

section \<open>Networks\<close>

datatype network = Main | TestnetMock | RegTest | Testnet u8

fun network_id :: "network \<Rightarrow> u32" where
  "network_id Main = 0"
| "network_id TestnetMock = 1"
| "network_id RegTest = 2"
| "network_id (Testnet i) = 3 + ucast i"

definition launch_date :: "'f bfield \<Rightarrow> network \<Rightarrow> 'f timestamp" where
  "launch_date F n = Timestamp (bf_new F 1784905200000)"

definition use_mock_proof :: "network \<Rightarrow> bool" where
  "use_mock_proof n = (case n of RegTest \<Rightarrow> True | TestnetMock \<Rightarrow> True | _ \<Rightarrow> False)"

definition allows_mock_pow :: "network \<Rightarrow> bool" where
  "allows_mock_pow n = (case n of RegTest \<Rightarrow> True | _ \<Rightarrow> False)"

fun target_block_interval :: "'f bfield \<Rightarrow> network \<Rightarrow> 'f timestamp" where
  "target_block_interval F RegTest = ts_millis F 100"
| "target_block_interval F _ = ts_millis F 384000"

text \<open>The product of a timestamp and a scalar panics when it leaves the field.\<close>

fun difficulty_reset_interval :: "'f bfield \<Rightarrow> network \<Rightarrow> 'f timestamp option res" where
  "difficulty_reset_interval F TestnetMock =
     bind_res (timestamp_mul F (target_block_interval F TestnetMock) 2) (\<lambda>t. Inr (Some t))"
| "difficulty_reset_interval F _ = Inr None"

definition performs_peer_discovery :: "network \<Rightarrow> bool" where
  "performs_peer_discovery n \<longleftrightarrow> n \<noteq> RegTest"

fun genesis_difficulty :: "network \<Rightarrow> difficulty" where
  "genesis_difficulty RegTest = difficulty_MINIMUM"
| "genesis_difficulty (Testnet _) = difficulty_new [100000, 0, 0, 0, 0]"
| "genesis_difficulty TestnetMock = difficulty_new [100000, 0, 0, 0, 0]"
| "genesis_difficulty Main = difficulty_new [100000000, 0, 0, 0, 0]"

fun minimum_block_time :: "'f bfield \<Rightarrow> network \<Rightarrow> 'f timestamp" where
  "minimum_block_time F RegTest = ts_millis F 1"
| "minimum_block_time F TestnetMock = ts_millis F 100"
| "minimum_block_time F _ = ts_seconds F 60"

fun network_show :: "network \<Rightarrow> string" where
  "network_show TestnetMock = ''testnet-mock''"
| "network_show (Testnet i) = ''testnet-'' @ show_nat (unat i)"
| "network_show RegTest = ''regtest''"
| "network_show Main = ''main''"

text \<open>\<^verbatim>\<open>parse::<u8>\<close>: an optional plus sign and at least one decimal digit, at most 255.\<close>

definition parse_u8 :: "string \<Rightarrow> u8 option" where
  "parse_u8 s =
     (let digits = (case s of [] \<Rightarrow> [] | c # cs \<Rightarrow> if c = CHR ''+'' then cs else s)
      in if digits \<noteq> [] \<and> list_all is_digit digits \<and> read_nat digits \<le> 255 then Some (of_nat (read_nat digits)) else None)"

definition strip_prefix :: "string \<Rightarrow> string \<Rightarrow> string option" where
  "strip_prefix p s = (if take (length p) s = p then Some (drop (length p) s) else None)"

definition network_from_str :: "string \<Rightarrow> string + network" where
  "network_from_str input =
     (if input = ''testnet-mock'' then Inr TestnetMock
      else if input = ''testnet'' then Inr (Testnet 0)
      else if input = ''regtest'' then Inr RegTest
      else if input = ''main'' then Inr Main
      else case strip_prefix ''testnet-'' input of
             Some stripped \<Rightarrow> (case parse_u8 stripped of
                 Some i \<Rightarrow> Inr (Testnet i)
               | None \<Rightarrow> Inl (''Invalid testnet ID in '' @ [CHR 39] @ input @ [CHR 39]))
           | None \<Rightarrow> Inl (''Failed to parse '' @ [CHR 39] @ input @ [CHR 39] @ '' as network''))"

section \<open>Consensus rules\<close>

definition MAX_NUM_INPUTS_OUTPUTS_ANNOUNCEMENTS :: nat where
  "MAX_NUM_INPUTS_OUTPUTS_ANNOUNCEMENTS = 2 ^ 14"

datatype consensus_rule_set = Launch

fun infer_from :: "network \<Rightarrow> 'f block_height \<Rightarrow> consensus_rule_set" where
  "infer_from Main _ = Launch"
| "infer_from TestnetMock _ = Launch"
| "infer_from RegTest _ = Launch"
| "infer_from (Testnet _) _ = Launch"

fun max_block_size :: "consensus_rule_set \<Rightarrow> nat" where
  "max_block_size Launch = 1000000"

fun max_num_inputs :: "consensus_rule_set \<Rightarrow> nat" where
  "max_num_inputs Launch = MAX_NUM_INPUTS_OUTPUTS_ANNOUNCEMENTS"

fun max_num_outputs :: "consensus_rule_set \<Rightarrow> nat" where
  "max_num_outputs Launch = MAX_NUM_INPUTS_OUTPUTS_ANNOUNCEMENTS"

fun max_num_announcements :: "consensus_rule_set \<Rightarrow> nat" where
  "max_num_announcements Launch = MAX_NUM_INPUTS_OUTPUTS_ANNOUNCEMENTS"

section \<open>Identifiers and names\<close>

lemma network_id_inj: "network_id a = network_id b \<Longrightarrow> a = b"
proof -
  have t: "unat (3 + ucast i :: u32) = 3 + unat i" for i :: u8
  proof -
    have "unat i < 256" using unsigned_less [of i] by simp
    then have "unat (3 :: u32) + unat (ucast i :: u32) < 2 ^ LENGTH(32)" by (simp add: unat_ucast_up)
    from unat_add_no_overflow [OF this] show ?thesis by (simp add: unat_ucast_up)
  qed
  assume "network_id a = network_id b"
  then have "unat (network_id a) = unat (network_id b)" by simp
  then show "a = b" by (cases a; cases b) (auto simp: t intro: word_eq_unatI)
qed

lemma parse_show_u8: "parse_u8 (show_nat (unat i)) = Some i"
proof -
  have "unat i < 256" using unsigned_less [of i] by simp
  moreover have "list_all is_digit (show_nat (unat i))" using show_nat_digits by (auto simp: list_all_iff)
  moreover obtain c cs where "show_nat (unat i) = c # cs" using show_nat_nonempty by (metis neq_Nil_conv)
  moreover have "is_digit c" using calculation(2,3) by simp
  then have "c \<noteq> CHR ''+''" by (auto simp: is_digit_def)
  moreover have "read_nat (c # cs) = unat i" using calculation(3) read_show_nat by metis
  ultimately show ?thesis by (simp add: parse_u8_def)
qed

text \<open>Parsing the printed name of a network gives the network back, and no two networks share an identifier.\<close>

theorem network_roundtrip:
  "network_from_str (network_show n) = Inr n \<and> (network_id n = network_id m \<longleftrightarrow> n = m)"
proof
  show "network_from_str (network_show n) = Inr n"
  proof (cases n)
    case (Testnet i)
    have "\<forall>c\<in>set (show_nat (unat i)). is_digit c" using show_nat_digits by blast
    then have "show_nat (unat i) \<noteq> ''mock''" by (auto simp: is_digit_def)
    then show ?thesis using Testnet by (simp add: network_from_str_def strip_prefix_def parse_show_u8)
  qed (simp_all add: network_from_str_def)
  show "network_id n = network_id m \<longleftrightarrow> n = m" using network_id_inj by blast
qed

end
