(* ===== verification/Pow.thy ===== *)
theory Pow
  imports Time_Height
begin

text \<open>
  \<^verbatim>\<open>consensus/src/block/pow.rs\<close>: the memory-hard proof-of-work puzzle. A guesser fills a buffer with a Merkle
  tree derived from the digest of the parent block, opens two pseudo-random leafs of it and publishes the
  authentication paths; a verifier recomputes only the two leafs.

  Tip5 belongs to \<^verbatim>\<open>twenty-first\<close> and is the parameter \<open>tip5\<close>: hashing of a pair and of a sequence, the
  elements of a digest. No law about it is needed: guesser and verifier compute the same function. The
  parallel iterators of \<^verbatim>\<open>rayon\<close> are the sequential ones, since every element is written independently of
  the others. The constant parameter \<^verbatim>\<open>MERKLE_TREE_HEIGHT\<close> is the argument \<open>ht\<close>; lengths and indices of
  vectors (\<^verbatim>\<open>usize\<close>) are natural numbers.
\<close>

section \<open>Parameters\<close>

record ('d, 'f) tip5 =
  tip5_pair :: "'d \<Rightarrow> 'd \<Rightarrow> 'd"
  tip5_varlen :: "'f list \<Rightarrow> 'd"
  tip5_values :: "'d \<Rightarrow> 'f list"
  tip5_digest :: "'f list \<Rightarrow> 'd"
  tip5_default :: 'd

section \<open>The Merkle tree\<close>

definition CHECKPOINT_DISTANCE :: nat where
  "CHECKPOINT_DISTANCE = 2 ^ 19"

record 'd mtree =
  mt_leafs :: "'d list"
  internal_nodes :: "'d list"

fun ilog2 :: "nat \<Rightarrow> nat" where
  "ilog2 n = (if n < 2 then 0 else Suc (ilog2 (n div 2)))"

declare ilog2.simps [simp del]

fun merkle_zip :: "('d, 'f) tip5 \<Rightarrow> 'd list \<Rightarrow> 'd list \<Rightarrow> 'd list res" where
  "merkle_zip H [] children = Inr []"
| "merkle_zip H (p # parents) [] = Inr (p # parents)"
| "merkle_zip H (p # parents) [c] = Inl IndexOutOfBounds"
| "merkle_zip H (p # parents) (a # b # children) =
     bind_res (merkle_zip H parents children) (\<lambda>parents. Inr (tip5_pair H a b # parents))"

fun par_merkle_loop :: "('d, 'f) tip5 \<Rightarrow> nat \<Rightarrow> nat list \<Rightarrow> 'd list \<Rightarrow> 'd list \<Rightarrow> 'd list res" where
  "par_merkle_loop H dist [] parents children = Inr parents"
| "par_merkle_loop H dist (i # is) parents children =
     bind_res (merkle_zip H (take dist (drop (dist * i) parents)) (take (2 * dist) (drop (2 * (dist * i)) children)))
       (\<lambda>zipped. par_merkle_loop H dist is
          (take (dist * i) parents @ zipped @ drop (dist * i + dist) parents) children)"

definition par_merkle_zip :: "('d, 'f) tip5 \<Rightarrow> 'd list \<Rightarrow> 'd list \<Rightarrow> 'd list res" where
  "par_merkle_zip H parents children =
     (let checkpoint_distance = min CHECKPOINT_DISTANCE (length parents) in
      if checkpoint_distance = 0 then Inl DivisionByZero
      else par_merkle_loop H checkpoint_distance [0..<length parents div checkpoint_distance] parents children)"

text \<open>The body of the two loops over the layers of internal nodes.\<close>

fun zip_layers ::
  "('d list \<Rightarrow> 'd list \<Rightarrow> 'd list res) \<Rightarrow> nat \<Rightarrow> nat list \<Rightarrow> 'd list \<Rightarrow> 'd list res" where
  "zip_layers zipper tree_height [] nodes = Inr nodes"
| "zip_layers zipper tree_height (layer # layers) nodes =
     (let parents_start = 2 ^ (tree_height - 1 - layer);
          mid_point = 2 ^ (tree_height - layer)
      in if length nodes < mid_point then Inl IndexOutOfBounds
         else bind_res (zipper (drop parents_start (take mid_point nodes)) (drop mid_point nodes))
                (\<lambda>parents. zip_layers zipper tree_height layers
                   (take parents_start nodes @ parents @ drop mid_point nodes)))"

definition build_inplace :: "('d, 'f) tip5 \<Rightarrow> 'd list \<Rightarrow> 'd list \<Rightarrow> 'd mtree res" where
  "build_inplace H leafs nodes =
     (if leafs = [] then Inl ExplicitPanic
      else let tree_height = ilog2 (length leafs);
               num_sequential_layers = min tree_height 8;
               seq_cutoff_height = max 1 (tree_height - num_sequential_layers)
           in if tree_height = 0 \<or> length nodes < 2 ^ tree_height then Inl IndexOutOfBounds
              else
        bind_res (par_merkle_zip H (drop (2 ^ (tree_height - 1)) (take (2 ^ tree_height) nodes)) leafs) (\<lambda>layer0.
        bind_res (zip_layers (par_merkle_zip H) tree_height [1..<seq_cutoff_height]
          (take (2 ^ (tree_height - 1)) nodes @ layer0 @ drop (2 ^ tree_height) nodes)) (\<lambda>nodes.
        bind_res (zip_layers (merkle_zip H) tree_height [seq_cutoff_height..<tree_height] nodes) (\<lambda>nodes.
          Inr \<lparr>mt_leafs = leafs, internal_nodes = nodes\<rparr>))))"

definition mt_root :: "('d, 'f) tip5 \<Rightarrow> 'd mtree \<Rightarrow> 'd" where
  "mt_root H t = (if 1 < length (internal_nodes t) then internal_nodes t ! 1 else tip5_default H)"

text \<open>The loop of \<^verbatim>\<open>path\<close> runs \<open>steps\<close> times.\<close>

fun mt_path_loop :: "'d list \<Rightarrow> nat \<Rightarrow> nat \<Rightarrow> 'd list res" where
  "mt_path_loop nodes 0 running_index = Inr []"
| "mt_path_loop nodes (Suc steps) running_index =
     (let running_index = drop_bit 1 running_index in
      bind_res (index_res nodes (running_index XOR 1)) (\<lambda>sibling.
      bind_res (mt_path_loop nodes steps running_index) (\<lambda>path. Inr (sibling # path))))"

definition mt_path :: "'d mtree \<Rightarrow> nat \<Rightarrow> 'd list res" where
  "mt_path t index =
     bind_res (index_res (mt_leafs t) (index XOR 1)) (\<lambda>sibling.
     if length (mt_leafs t) = 0 then Inl ExplicitPanic
     else bind_res (mt_path_loop (internal_nodes t) (ilog2 (length (mt_leafs t)) - 1) (index + length (mt_leafs t)))
       (\<lambda>path. Inr (sibling # path)))"

fun mt_verify_loop :: "('d, 'f) tip5 \<Rightarrow> nat \<Rightarrow> 'd \<Rightarrow> 'd list \<Rightarrow> 'd" where
  "mt_verify_loop H running_index running_digest [] = running_digest"
| "mt_verify_loop H running_index running_digest (sibling # path) =
     mt_verify_loop H (drop_bit 1 running_index)
       (if running_index AND 1 = 1 then tip5_pair H sibling running_digest
        else tip5_pair H running_digest sibling) path"

definition mt_verify :: "('d, 'f) tip5 \<Rightarrow> 'd \<Rightarrow> nat \<Rightarrow> 'd list \<Rightarrow> 'd \<Rightarrow> bool" where
  "mt_verify H root index path element =
     (if push_bit (length path mod 64) 1 < index then False
      else mt_verify_loop H index element path = root)"

section \<open>The puzzle\<close>

definition POW_MEMORY_PARAMETER :: nat where
  "POW_MEMORY_PARAMETER = 2 ^ 27"

definition POW_MEMORY_TREE_HEIGHT :: nat where
  "POW_MEMORY_TREE_HEIGHT = ilog2 POW_MEMORY_PARAMETER"

definition NUM_INDEX_REPETITIONS :: nat where
  "NUM_INDEX_REPETITIONS = 63"

definition NUM_BUD_LAYERS :: nat where
  "NUM_BUD_LAYERS = 5"

definition BUDS_PER_LEAF :: nat where
  "BUDS_PER_LEAF = 2 ^ NUM_BUD_LAYERS"

record 'd pow =
  root :: 'd
  path_a :: "'d list"
  path_b :: "'d list"
  nonce :: 'd

record 'd pow_mast_paths =
  pmp_pow :: "'d list"
  pmp_header :: "'d list"
  pmp_kernel :: "'d list"

record 'd guesser_buffer =
  merkle_tree :: "'d mtree"
  gb_prev_block_digest :: 'd

datatype pow_validation_error = PathAInvalid | PathBInvalid | ThresholdNotMet

definition paths_commit :: "('d, 'f) tip5 \<Rightarrow> 'd pow_mast_paths \<Rightarrow> 'd" where
  "paths_commit H p =
     tip5_varlen H (concat (map (tip5_values H) (concat [pmp_pow p, pmp_header p, pmp_kernel p])))"

text \<open>The encoding of a \<^verbatim>\<open>Pow\<close> is derived by the library; the fields are arrays of lengths 3, 2 and 1.\<close>

definition fast_mast_hash ::
  "('d, 'f) tip5 \<Rightarrow> ('d pow \<Rightarrow> 'f list) \<Rightarrow> 'd pow_mast_paths \<Rightarrow> 'd pow \<Rightarrow> 'd" where
  "fast_mast_hash H encode_pow p pow =
     (let header_mast_hash = tip5_pair H (tip5_varlen H (encode_pow pow)) (pmp_pow p ! 0);
          header_mast_hash = tip5_pair H header_mast_hash (pmp_pow p ! 1);
          header_mast_hash = tip5_pair H (pmp_pow p ! 2) header_mast_hash;
          kernel_mast_hash = tip5_pair H (tip5_varlen H (tip5_values H header_mast_hash)) (pmp_header p ! 0);
          kernel_mast_hash = tip5_pair H kernel_mast_hash (pmp_header p ! 1)
      in tip5_pair H (tip5_varlen H (tip5_values H kernel_mast_hash)) (pmp_kernel p ! 0))"

definition pow_default :: "('d, 'f) tip5 \<Rightarrow> nat \<Rightarrow> 'd pow" where
  "pow_default H ht = \<lparr>root = tip5_default H, path_a = replicate ht (tip5_default H),
     path_b = replicate ht (tip5_default H), nonce = tip5_default H\<rparr>"

definition index_picker_preimage_from_root :: "('d, 'f) tip5 \<Rightarrow> 'd \<Rightarrow> 'd pow_mast_paths \<Rightarrow> 'd" where
  "index_picker_preimage_from_root H merkle_tree_root mast_auth_paths =
     tip5_pair H merkle_tree_root (paths_commit H mast_auth_paths)"

definition index_picker_preimage :: "('d, 'f) tip5 \<Rightarrow> 'd guesser_buffer \<Rightarrow> 'd pow_mast_paths \<Rightarrow> 'd" where
  "index_picker_preimage H b mast_auth_paths =
     index_picker_preimage_from_root H (mt_root H (merkle_tree b)) mast_auth_paths"

definition NUM_LEAFS :: "nat \<Rightarrow> nat" where
  "NUM_LEAFS ht = 2 ^ ht"

definition bud :: "('d, 'f) tip5 \<Rightarrow> 'f bfield \<Rightarrow> 'd \<Rightarrow> nat \<Rightarrow> 'd" where
  "bud H F commitment index =
     tip5_pair H commitment
       (tip5_digest H [bf_new F (of_nat index), bf_new F 0, bf_new F 0, bf_new F 0, bf_new F 0])"

definition pow_leaf :: "('d, 'f) tip5 \<Rightarrow> 'f bfield \<Rightarrow> nat \<Rightarrow> 'd \<Rightarrow> nat \<Rightarrow> 'd res" where
  "pow_leaf H F ht commitment index =
     (let buds = map (\<lambda>i. bud H F commitment (i mod NUM_LEAFS ht)) [index..<index + BUDS_PER_LEAF]
      in bind_res (build_inplace H buds buds) (\<lambda>t. Inr (mt_root H t)))"

fun repeat_hash :: "('d, 'f) tip5 \<Rightarrow> nat \<Rightarrow> 'd \<Rightarrow> 'd" where
  "repeat_hash H 0 indexer = indexer"
| "repeat_hash H (Suc n) indexer = repeat_hash H n (tip5_pair H indexer (tip5_default H))"

definition pow_indices :: "('d, 'f) tip5 \<Rightarrow> 'f bfield \<Rightarrow> nat \<Rightarrow> 'd \<Rightarrow> 'd \<Rightarrow> nat \<times> nat" where
  "pow_indices H F ht hash nonce' =
     (let indexer = repeat_hash H (NUM_INDEX_REPETITIONS - 1) (tip5_pair H hash nonce')
      in (unat (bf_value F (tip5_values H indexer ! 0)) mod 2 ^ ht,
          unat (bf_value F (tip5_values H indexer ! 1)) mod 2 ^ ht))"

definition bitreverse :: "u32 \<Rightarrow> nat \<Rightarrow> u32" where
  "bitreverse k log2_n =
     (let k = push_bit 1 (k AND 0x55555555) OR drop_bit 1 (k AND 0xaaaaaaaa);
          k = push_bit 2 (k AND 0x33333333) OR drop_bit 2 (k AND 0xcccccccc);
          k = push_bit 4 (k AND 0x0f0f0f0f) OR drop_bit 4 (k AND 0xf0f0f0f0);
          k = push_bit 8 (k AND 0x00ff00ff) OR drop_bit 8 (k AND 0xff00ff00);
          k = word_rotr 16 k
      in drop_bit ((32 - log2_n) mod 32) k)"

definition swap_indices :: "nat \<Rightarrow> nat option list" where
  "swap_indices len =
     (let log_2_len = (if len = 0 then 0 else ilog2 len)
      in map (\<lambda>k. let rev_k = bitreverse (of_nat k) log_2_len
              in if (of_nat k :: u32) < rev_k then Some (unat rev_k) else None) [0..<len])"

text \<open>The layers of buds: \<open>buds\<close> is read, \<open>resulting_leafs\<close> is written, and the two references are swapped.\<close>

fun bud_layers :: "('d, 'f) tip5 \<Rightarrow> nat \<Rightarrow> nat list \<Rightarrow> 'd list \<times> 'd list \<times> nat \<Rightarrow> 'd list \<times> 'd list \<times> nat" where
  "bud_layers H ht [] st = st"
| "bud_layers H ht (i # is) (buds, resulting_leafs, num_swaps) =
     (let resulting_leafs = map (\<lambda>k. tip5_pair H (buds ! k) (buds ! ((k + 2 ^ i) mod NUM_LEAFS ht)))
            [0..<length resulting_leafs]
      in bud_layers H ht is (resulting_leafs, buds, num_swaps + 1))"

fun swap_loop :: "nat \<Rightarrow> nat option list \<Rightarrow> 'd list \<Rightarrow> 'd list" where
  "swap_loop k [] leafs = leafs"
| "swap_loop k (None # rest) leafs = swap_loop (Suc k) rest leafs"
| "swap_loop k (Some rev_k # rest) leafs = swap_loop (Suc k) rest (leafs[k := leafs ! rev_k, rev_k := leafs ! k])"

text \<open>After the last swap the reference \<^verbatim>\<open>buds\<close> points to \<^verbatim>\<open>ins\<close> when the number of swaps is even.\<close>

definition preprocess :: "('d, 'f) tip5 \<Rightarrow> 'f bfield \<Rightarrow> nat \<Rightarrow> 'd \<Rightarrow> 'd guesser_buffer res" where
  "preprocess H F ht prev_block_digest' =
     (let ins = map (bud H F prev_block_digest') [0..<NUM_LEAFS ht];
          (buds, resulting_leafs, num_swaps) = bud_layers H ht [0..<NUM_BUD_LAYERS] (ins, ins, 0);
          (resulting_leafs, buds) = (buds, resulting_leafs);
          num_swaps = num_swaps + 1;
          (ins, outs) = (if even num_swaps then (buds, resulting_leafs) else (resulting_leafs, buds));
          (leafs, nodes) = (if num_swaps AND 1 = 1 then (ins, outs) else (outs, ins));
          leafs = swap_loop 0 (swap_indices (length leafs)) leafs
      in bind_res (build_inplace H leafs nodes)
           (\<lambda>t. Inr \<lparr>merkle_tree = t, gb_prev_block_digest = prev_block_digest'\<rparr>))"

text \<open>\<^verbatim>\<open>try_into().unwrap()\<close> of a path: a vector of the length of the array.\<close>

definition array_of_len :: "nat \<Rightarrow> 'd list \<Rightarrow> 'd list res" where
  "array_of_len n xs = (if length xs = n then Inr xs else Inl UnwrapFailed)"

definition guess ::
  "('d :: linorder, 'f) tip5 \<Rightarrow> 'f bfield \<Rightarrow> ('d pow \<Rightarrow> 'f list) \<Rightarrow> nat \<Rightarrow> 'd guesser_buffer \<Rightarrow> 'd pow_mast_paths
     \<Rightarrow> 'd \<Rightarrow> 'd \<Rightarrow> 'd \<Rightarrow> 'd pow option res" where
  "guess H F encode_pow ht buffer mast_auth_paths preimage nonce' target =
     (let root' = mt_root H (merkle_tree buffer);
          (index_a, index_b) = pow_indices H F ht preimage nonce'
      in bind_res (mt_path (merkle_tree buffer) index_a) (\<lambda>path_a'.
         bind_res (array_of_len ht path_a') (\<lambda>path_a'.
         bind_res (mt_path (merkle_tree buffer) index_b) (\<lambda>path_b'.
         bind_res (array_of_len ht path_b') (\<lambda>path_b'.
           let pow = \<lparr>root = root', path_a = path_a', path_b = path_b', nonce = nonce'\<rparr>;
               pow_digest = fast_mast_hash H encode_pow mast_auth_paths pow
           in Inr (if target < pow_digest then None else Some pow))))))"

text \<open>\<^verbatim>\<open>try_into().unwrap()\<close> of an index to 32 bits.\<close>

definition u32_index :: "nat \<Rightarrow> u32 res" where
  "u32_index i = (if i < 2 ^ 32 then Inr (of_nat i) else Inl UnwrapFailed)"

definition pow_validate ::
  "('d :: linorder, 'f) tip5 \<Rightarrow> 'f bfield \<Rightarrow> ('d pow \<Rightarrow> 'f list) \<Rightarrow> nat \<Rightarrow> 'd pow \<Rightarrow> 'd pow_mast_paths
     \<Rightarrow> 'd \<Rightarrow> 'd \<Rightarrow> (pow_validation_error + unit) res" where
  "pow_validate H F encode_pow ht p auth_paths target parent_digest =
     (let preimage = tip5_pair H (root p) (paths_commit H auth_paths);
          (index_a, index_b) = pow_indices H F ht preimage (nonce p)
      in bind_res (u32_index index_a) (\<lambda>a.
         bind_res (u32_index index_b) (\<lambda>b.
         bind_res (pow_leaf H F ht parent_digest (unat (bitreverse a ht))) (\<lambda>leaf_a.
         bind_res (pow_leaf H F ht parent_digest (unat (bitreverse b ht))) (\<lambda>leaf_b.
           if \<not> mt_verify H (root p) index_a (path_a p) leaf_a then Inr (Inl PathAInvalid)
           else if \<not> mt_verify H (root p) index_b (path_b p) leaf_b then Inr (Inl PathBInvalid)
           else if \<not> fast_mast_hash H encode_pow auth_paths p \<le> target then Inr (Inl ThresholdNotMet)
           else Inr (Inr ()))))))"

section \<open>Building the tree\<close>

lemma ilog2_power [simp]: "ilog2 (2 ^ h) = h"
proof (induction h)
  case (Suc h)
  have "(2 :: nat) ^ Suc h div 2 = 2 ^ h" "\<not> (2 :: nat) ^ Suc h < 2" by simp_all
  then show ?case using Suc by (subst ilog2.simps) simp
qed (simp add: ilog2.simps)

text \<open>The node of the tree over the leafs \<open>ls\<close> with the heap index \<open>i\<close>: 1 is the root, \<open>2 i\<close> and \<open>2 i + 1\<close> are
  the children of \<open>i\<close>, and the leafs come at \<open>length ls\<close>.\<close>

function heap_node :: "('d, 'f) tip5 \<Rightarrow> 'd list \<Rightarrow> nat \<Rightarrow> 'd" where
  "heap_node H ls i = (if i = 0 \<or> length ls \<le> i then ls ! (i - length ls)
     else tip5_pair H (heap_node H ls (2 * i)) (heap_node H ls (2 * i + 1)))"
  by pat_completeness auto
termination
  by (relation "measure (\<lambda>(H, ls, i). length ls - i)") auto

declare heap_node.simps [simp del]

lemma heap_node_leaf: "length ls \<le> i \<Longrightarrow> heap_node H ls i = ls ! (i - length ls)"
  by (simp add: heap_node.simps)

lemma heap_node_inner: "0 < i \<Longrightarrow> i < length ls \<Longrightarrow>
    heap_node H ls i = tip5_pair H (heap_node H ls (2 * i)) (heap_node H ls (2 * i + 1))"
  by (subst heap_node.simps) simp

definition zipped :: "('d, 'f) tip5 \<Rightarrow> nat \<Rightarrow> 'd list \<Rightarrow> 'd list" where
  "zipped H n children = map (\<lambda>j. tip5_pair H (children ! (2 * j)) (children ! (2 * j + 1))) [0..<n]"

lemma length_zipped [simp]: "length (zipped H n cs) = n"
  by (simp add: zipped_def)

lemma merkle_zip_zipped:
  "2 * length parents \<le> length children \<Longrightarrow> merkle_zip H parents children = Inr (zipped H (length parents) children)"
proof (induction H parents children rule: merkle_zip.induct)
  case (4 H p parents a b children)
  have "zipped H (Suc (length parents)) (a # b # children) = tip5_pair H a b # zipped H (length parents) children"
    unfolding zipped_def by (simp add: upt_conv_Cons flip: map_Suc_upt del: upt_Suc)
  with 4 show ?case by (simp add: bind_res_def)
qed (simp_all add: zipped_def)

lemma par_merkle_loop_zipped:
  assumes "length parents = dist * (i + n)" "2 * length parents \<le> length children"
    and "take (dist * i) parents = zipped H (dist * i) children"
  shows "par_merkle_loop H dist [i..<i + n] parents children = Inr (zipped H (length parents) children)"
  using assms
proof (induction n arbitrary: i parents)
  case (Suc n)
  let ?ps = "take dist (drop (dist * i) parents)" and ?cs = "take (2 * dist) (drop (2 * (dist * i)) children)"
  have len: "dist * i + dist \<le> length parents" using Suc.prems(1) by (simp add: algebra_simps)
  then have "length ?ps = dist" "length ?cs = 2 * dist" using Suc.prems(2) by auto
  then have z: "merkle_zip H ?ps ?cs = Inr (zipped H dist ?cs)" by (simp add: merkle_zip_zipped)
  let ?new = "take (dist * i) parents @ zipped H dist ?cs @ drop (dist * i + dist) parents"
  have pre: "zipped H (dist * i) children @ zipped H dist ?cs = zipped H (dist * i + dist) children"
    using len Suc.prems(2) unfolding zipped_def
    by (intro nth_equalityI) (auto simp: nth_append algebra_simps)
  have "length ?new = dist * (Suc i + n)" using Suc.prems(1) len by simp
  moreover have "2 * length ?new \<le> length children" using Suc.prems(2) len by simp
  moreover have "take (dist * Suc i) ?new = zipped H (dist * Suc i) children"
    unfolding Suc.prems(3) append_assoc [symmetric] pre by (simp add: add.commute)
  ultimately have "par_merkle_loop H dist [Suc i..<Suc i + n] ?new children = Inr (zipped H (length ?new) children)"
    by (rule Suc.IH)
  moreover have "length ?new = length parents" using len by simp
  moreover have "[i..<i + Suc n] = i # [Suc i..<Suc i + n]" by (simp add: upt_conv_Cons)
  ultimately show ?case by (simp only: par_merkle_loop.simps z bind_res_def sum.case)
qed simp

lemma par_merkle_zip_zipped:
  assumes "length parents = 2 ^ k" "2 * length parents \<le> length children"
  shows "par_merkle_zip H parents children = Inr (zipped H (length parents) children)"
proof -
  let ?d = "min CHECKPOINT_DISTANCE (length parents)"
  have "?d dvd length parents"
    unfolding assms(1) CHECKPOINT_DISTANCE_def min_def
    using power_increasing_iff [of "2 :: nat" 19 k] le_imp_power_dvd [of 19 k "2 :: nat"] by auto
  then have "length parents = ?d * (0 + length parents div ?d)" by simp
  from par_merkle_loop_zipped [OF this assms(2)]
  have "par_merkle_loop H ?d [0..<length parents div ?d] parents children = Inr (zipped H (length parents) children)"
    by (simp add: zipped_def)
  moreover have "?d \<noteq> 0" using assms(1) by (simp add: CHECKPOINT_DISTANCE_def)
  ultimately show ?thesis unfolding par_merkle_zip_def Let_def by simp
qed

text \<open>The internal nodes from index \<open>lo\<close> on are those of the tree.\<close>

definition nodes_from :: "('d, 'f) tip5 \<Rightarrow> 'd list \<Rightarrow> nat \<Rightarrow> 'd list \<Rightarrow> bool" where
  "nodes_from H ls lo nodes \<longleftrightarrow> length nodes = length ls \<and> (\<forall>i\<in>{lo..<length ls}. nodes ! i = heap_node H ls i)"

lemma zip_layers_nodes:
  assumes zipper: "\<forall>parents children k. length parents = 2 ^ k \<and> 2 * length parents \<le> length children \<longrightarrow>
      zipper parents children = Inr (zipped H (length parents) children)"
    and "length ls = 2 ^ h" "nodes_from H ls (2 ^ (h - a)) nodes" "1 \<le> a" "a + n \<le> h"
  shows "\<exists>nodes'. zip_layers zipper h [a..<a + n] nodes = Inr nodes' \<and> nodes_from H ls (2 ^ (h - (a + n))) nodes'"
  using assms(3-5)
proof (induction n arbitrary: a nodes)
  case (Suc n)
  define lo mid :: nat where "lo = 2 ^ (h - 1 - a)" and "mid = 2 ^ (h - a)"
  have mid: "mid = 2 * lo" using Suc.prems(3) unfolding lo_def mid_def by (simp flip: power_Suc add: Suc_diff_Suc)
  have h: "2 * mid \<le> length ls"
    using Suc.prems(2,3) unfolding assms(2) mid_def by (simp flip: power_Suc add: Suc_diff_le)
  have len: "length nodes = length ls" and nodes: "\<And>i. mid \<le> i \<Longrightarrow> i < length ls \<Longrightarrow> nodes ! i = heap_node H ls i"
    using Suc.prems(1) by (auto simp: nodes_from_def mid_def)
  have "length (drop lo (take mid nodes)) = lo" using mid h len by simp
  then have z: "zipper (drop lo (take mid nodes)) (drop mid nodes) = Inr (zipped H lo (drop mid nodes))"
    using zipper [rule_format, of "drop lo (take mid nodes)" "h - 1 - a" "drop mid nodes"] mid h len by (simp add: lo_def)
  let ?new = "take lo nodes @ zipped H lo (drop mid nodes) @ drop mid nodes"
  have pos: "0 < lo" by (simp add: lo_def)
  have "nodes_from H ls lo ?new"
    unfolding nodes_from_def
  proof (intro conjI ballI)
    show "length ?new = length ls" using mid h len by simp
    fix i assume i: "i \<in> {lo..<length ls}"
    show "?new ! i = heap_node H ls i"
    proof (cases "i < mid")
      case True
      then have "?new ! i = tip5_pair H (nodes ! (2 * i)) (nodes ! (2 * i + 1))"
        using i mid h len unfolding zipped_def by (auto simp: nth_append algebra_simps)
      also have "\<dots> = tip5_pair H (heap_node H ls (2 * i)) (heap_node H ls (2 * i + 1))"
        using i True mid h by (simp add: nodes)
      finally show ?thesis using i pos by (simp add: heap_node_inner)
    next
      case False
      then show ?thesis using i mid h len by (auto simp: nth_append nodes)
    qed
  qed
  then have "nodes_from H ls (2 ^ (h - Suc a)) ?new" by (simp add: lo_def)
  from Suc.IH [OF this] Suc.prems(2,3) obtain nodes' where
    "zip_layers zipper h [Suc a..<Suc a + n] ?new = Inr nodes'" "nodes_from H ls (2 ^ (h - (Suc a + n))) nodes'" by auto
  moreover have "[a..<a + Suc n] = a # [Suc a..<Suc a + n]" by (simp add: upt_conv_Cons)
  moreover have "\<not> length nodes < mid" using h len by simp
  ultimately show ?case
    using z by (simp only: zip_layers.simps Let_def lo_def [symmetric] mid_def [symmetric] bind_res_def sum.case if_False add_Suc_shift) blast
qed auto

lemma build_inplace_nodes:
  assumes "length ls = 2 ^ h" "1 \<le> h" "length nodes = length ls"
  shows "\<exists>nodes'. build_inplace H ls nodes = Inr \<lparr>mt_leafs = ls, internal_nodes = nodes'\<rparr> \<and> nodes_from H ls 1 nodes'"
proof -
  define lo :: nat where "lo = 2 ^ (h - 1)"
  have lo: "length ls = 2 * lo" using assms(2) unfolding assms(1) lo_def by (simp flip: power_Suc)
  have z: "par_merkle_zip H (drop lo (take (2 * lo) nodes)) ls = Inr (zipped H lo ls)"
    using par_merkle_zip_zipped [of "drop lo (take (2 * lo) nodes)" "h - 1" ls H] lo assms(3) by (simp add: lo_def)
  let ?n0 = "take lo nodes @ zipped H lo ls @ drop (2 * lo) nodes"
  have n0: "nodes_from H ls (2 ^ (h - 1)) ?n0"
    unfolding nodes_from_def lo_def [symmetric] using lo assms(3)
    by (auto simp: nth_append zipped_def heap_node_inner heap_node_leaf algebra_simps lo_def Suc_diff_le)
  have zp: "\<forall>parents children k. length parents = 2 ^ k \<and> 2 * length parents \<le> length children \<longrightarrow>
      par_merkle_zip H parents children = Inr (zipped H (length parents) children)"
    using par_merkle_zip_zipped by blast
  have zs: "\<forall>parents children (k :: nat). length parents = 2 ^ k \<and> 2 * length parents \<le> length children \<longrightarrow>
      merkle_zip H parents children = Inr (zipped H (length parents) children)"
    using merkle_zip_zipped by blast
  let ?c = "max 1 (h - min h 8)"
  have c: "1 \<le> ?c" "?c \<le> h" using assms(2) by auto
  from zip_layers_nodes [where zipper = "par_merkle_zip H" and n = "?c - 1", OF zp assms(1) n0] c
  obtain n1 where
    n1: "zip_layers (par_merkle_zip H) h [1..<?c] ?n0 = Inr n1" "nodes_from H ls (2 ^ (h - ?c)) n1" by auto
  from zip_layers_nodes [where zipper = "merkle_zip H" and n = "h - ?c", OF zs assms(1) n1(2)] c
  obtain n2 where
    n2: "zip_layers (merkle_zip H) h [?c..<h] n1 = Inr n2" "nodes_from H ls 1 n2" by auto
  have "ls \<noteq> []" "h \<noteq> 0" "\<not> length nodes < 2 * lo" using assms lo by auto
  then show ?thesis
    using z n1(1) n2 lo assms(1)
    by (simp add: build_inplace_def Let_def assms(1) bind_res_def lo_def [simplified, symmetric] flip: lo)
qed

section \<open>Paths\<close>

lemma drop_bit_1_div: "drop_bit 1 (n :: nat) = n div 2"
  by (simp add: drop_bit_eq_div)

lemma xor_1_cases: "2 * b XOR 1 = 2 * b + (1 :: nat)" "(2 * b + 1) XOR 1 = 2 * (b :: nat)"
  by (simp_all add: xor_one_eq flip: One_nat_def)

lemma sibling_bounds:
  fixes r n :: nat
  shows "even n \<Longrightarrow> r < n \<Longrightarrow> r XOR 1 < n" "2 \<le> r \<Longrightarrow> 1 \<le> r XOR 1" "even n \<Longrightarrow> (r + n) XOR 1 = (r XOR 1) + n"
proof -
  have "r XOR 1 = (if even r then r + 1 else r - 1)" for r :: nat
    by (cases "even r") (auto simp del: One_nat_def simp: xor_1_cases elim!: evenE oddE)
  then show "even n \<Longrightarrow> r < n \<Longrightarrow> r XOR 1 < n" "2 \<le> r \<Longrightarrow> 1 \<le> r XOR 1" "even n \<Longrightarrow> (r + n) XOR 1 = (r XOR 1) + n"
    by (auto elim!: evenE oddE simp del: One_nat_def)
qed

lemma combine_siblings:
  assumes "2 \<le> r" "r div 2 < length ls"
  shows "(if odd r then tip5_pair H (heap_node H ls (r XOR 1)) (heap_node H ls r)
     else tip5_pair H (heap_node H ls r) (heap_node H ls (r XOR 1))) = heap_node H ls (r div 2)"
proof -
  have "heap_node H ls (r div 2) = tip5_pair H (heap_node H ls (2 * (r div 2))) (heap_node H ls (2 * (r div 2) + 1))"
    using assms by (intro heap_node_inner) auto
  then show ?thesis by (cases "even r") (auto simp del: One_nat_def simp: xor_1_cases elim!: evenE oddE)
qed

lemma mt_path_loop_verifies:
  assumes "nodes_from H ls 1 nodes" "2 ^ (s + 1) \<le> r" "r < 2 ^ (s + 2)" "2 ^ (s + 1) \<le> length ls"
    and "r = j + m * 2 ^ (s + 1)"
  shows "\<exists>path. mt_path_loop nodes s r = Inr path \<and> length path = s \<and>
    mt_verify_loop H (j div 2) (heap_node H ls (r div 2)) path = heap_node H ls 1"
  using assms(2-5)
proof (induction s arbitrary: r j)
  case 0
  then have "r div 2 = 1" by auto
  then show ?case by simp
next
  case (Suc s)
  let ?r = "r div 2" and ?j = "j div 2"
  have r: "2 ^ (s + 1) \<le> ?r" "?r < 2 ^ (s + 2)" using Suc.prems(1,2) by auto
  have rj: "?r = ?j + m * 2 ^ (s + 1)" using Suc.prems(4) by simp
  then have odd: "odd ?j \<longleftrightarrow> odd ?r" by simp
  obtain path where path: "mt_path_loop nodes s ?r = Inr path" "length path = s"
      "mt_verify_loop H (?j div 2) (heap_node H ls (?r div 2)) path = heap_node H ls 1"
    using Suc.IH [OF r _ rj] Suc.prems(3) by auto
  have "(2 :: nat) \<le> 2 ^ (s + 1)" by simp
  with r(1) have two: "2 \<le> ?r" by (rule order_trans [rotated])
  have lt: "?r < length ls" using r(2) Suc.prems(3) by simp
  have "?r XOR 1 < 2 ^ (s + 2)" using r(2) by (intro sibling_bounds) simp_all
  then have sib: "1 \<le> ?r XOR 1" "?r XOR 1 < length ls" using two Suc.prems(3) sibling_bounds(2) by auto
  then have "nodes ! (?r XOR 1) = heap_node H ls (?r XOR 1)" "length nodes = length ls"
    using assms(1) by (auto simp: nodes_from_def)
  then have "mt_path_loop nodes (Suc s) r = Inr (heap_node H ls (?r XOR 1) # path)"
    using sib path(1) by (simp only: mt_path_loop.simps drop_bit_1_div Let_def index_res_def bind_res_def sum.case if_True)
  moreover have "mt_verify_loop H ?j (heap_node H ls ?r) (heap_node H ls (?r XOR 1) # path) = heap_node H ls 1"
    using path(3) combine_siblings [OF two, of ls H] lt odd
    by (simp add: drop_bit_1_div and_one_eq odd_iff_mod_2_eq_one flip: One_nat_def)
  ultimately show ?case using path(2) by auto
qed

lemma mt_path_verifies:
  assumes "nodes_from H ls 1 nodes" "length ls = 2 ^ h" "1 \<le> h" "h < 64" "index < length ls"
  shows "\<exists>path. mt_path \<lparr>mt_leafs = ls, internal_nodes = nodes\<rparr> index = Inr path \<and> length path = h \<and>
    mt_verify H (heap_node H ls 1) index path (ls ! index)"
proof -
  obtain s where s: "h = s + 1" using assms(3) by (metis add.commute le_Suc_ex)
  obtain path where path: "mt_path_loop nodes s (index + length ls) = Inr path" "length path = s"
      "mt_verify_loop H (index div 2) (heap_node H ls ((index + length ls) div 2)) path = heap_node H ls 1"
    using mt_path_loop_verifies [OF assms(1), of s "index + length ls" index 1] assms(2,5) s by auto
  let ?r = "index + length ls"
  have sib: "index XOR 1 < length ls" "?r XOR 1 = (index XOR 1) + length ls"
    using assms(2,5) s sibling_bounds(1,3) [of "length ls"] by simp_all
  have leafs: "heap_node H ls ?r = ls ! index" "heap_node H ls (?r XOR 1) = ls ! (index XOR 1)"
    unfolding sib(2) by (simp_all add: heap_node_leaf)
  have "(2 :: nat) \<le> 2 ^ h" using s by simp
  then have "2 \<le> ?r" using assms(2) by linarith
  moreover have "?r div 2 < length ls" "odd ?r \<longleftrightarrow> odd index" using assms(2,5) s by auto
  ultimately have r: "2 \<le> ?r" "?r div 2 < length ls" "odd ?r \<longleftrightarrow> odd index" by blast+
  from combine_siblings [OF r(1,2), of H]
  have "(if odd index then tip5_pair H (ls ! (index XOR 1)) (ls ! index)
      else tip5_pair H (ls ! index) (ls ! (index XOR 1))) = heap_node H ls (?r div 2)"
    unfolding leafs r(3) .
  with path(3) have "mt_verify_loop H index (ls ! index) (ls ! (index XOR 1) # path) = heap_node H ls 1"
    by (simp add: drop_bit_1_div and_one_eq odd_iff_mod_2_eq_one flip: One_nat_def)
  moreover have "\<not> push_bit (h mod 64) 1 < index" using assms by (simp add: push_bit_eq_mult)
  ultimately show ?thesis
    using path(1,2) sib(1) assms(2) s
    by (auto simp: mt_path_def mt_verify_def bind_res_def index_res_def simp flip: One_nat_def)
qed

section \<open>Bit reversal\<close>

lemma below_32: "i < (32 :: nat) \<Longrightarrow> i \<in> {0, 1, 2, 3, 4, 5, 6, 7, 8, 9, 10, 11, 12, 13, 14, 15, 16, 17, 18, 19, 20,
    21, 22, 23, 24, 25, 26, 27, 28, 29, 30, 31}"
  by (simp only: insert_iff empty_iff) presburger

lemma swap_bits:
  fixes k :: u32
  shows "i < 32 \<Longrightarrow> bit (push_bit n (k AND a) OR drop_bit n (k AND b)) i \<longleftrightarrow>
     n \<le> i \<and> bit k (i - n) \<and> bit a (i - n) \<or> bit k (n + i) \<and> bit b (n + i)"
  by (auto simp: bit_or_iff bit_and_iff bit_push_bit_iff bit_drop_bit_eq)

lemma reverse_stage_1:
  fixes k :: u32
  assumes "i < 32"
  shows "bit (push_bit 1 (k AND 0x55555555) OR drop_bit 1 (k AND 0xaaaaaaaa)) i = bit k (if even (i div 1) then i + 1 else i - 1)"
  unfolding swap_bits [OF assms] using below_32 [OF assms]
  by (elim insertE emptyE; simp flip: numeral_2_eq_2)

lemma reverse_stage_2:
  fixes k :: u32
  assumes "i < 32"
  shows "bit (push_bit 2 (k AND 0x33333333) OR drop_bit 2 (k AND 0xcccccccc)) i = bit k (if even (i div 2) then i + 2 else i - 2)"
  unfolding swap_bits [OF assms] using below_32 [OF assms]
  by (elim insertE emptyE; simp flip: numeral_2_eq_2)

lemma reverse_stage_4:
  fixes k :: u32
  assumes "i < 32"
  shows "bit (push_bit 4 (k AND 0x0f0f0f0f) OR drop_bit 4 (k AND 0xf0f0f0f0)) i = bit k (if even (i div 4) then i + 4 else i - 4)"
  unfolding swap_bits [OF assms] using below_32 [OF assms]
  by (elim insertE emptyE; simp flip: numeral_2_eq_2)

lemma reverse_stage_8:
  fixes k :: u32
  assumes "i < 32"
  shows "bit (push_bit 8 (k AND 0x00ff00ff) OR drop_bit 8 (k AND 0xff00ff00)) i = bit k (if even (i div 8) then i + 8 else i - 8)"
  unfolding swap_bits [OF assms] using below_32 [OF assms]
  by (elim insertE emptyE; simp flip: numeral_2_eq_2)

lemma bit_bitreverse:
  assumes "1 \<le> n" "n \<le> 32"
  shows "bit (bitreverse k n) i \<longleftrightarrow> i < n \<and> bit k (n - 1 - i)"
proof -
  define k1 where "k1 = push_bit 1 (k AND 0x55555555) OR drop_bit 1 (k AND 0xaaaaaaaa)"
  define k2 where "k2 = push_bit 2 (k1 AND 0x33333333) OR drop_bit 2 (k1 AND 0xcccccccc)"
  define k4 where "k4 = push_bit 4 (k2 AND 0x0f0f0f0f) OR drop_bit 4 (k2 AND 0xf0f0f0f0)"
  define k8 where "k8 = push_bit 8 (k4 AND 0x00ff00ff) OR drop_bit 8 (k4 AND 0xff00ff00)"
  let ?r = "word_rotr 16 k8"
  let ?i = "\<lambda>c i :: nat. if even (i div c) then i + c else i - c"
  have stages: "bit k1 i = bit k (?i 1 i)" "bit k2 i = bit k1 (?i 2 i)" "bit k4 i = bit k2 (?i 4 i)"
    "bit k8 i = bit k4 (?i 8 i)" if "i < 32" for i
    unfolding k1_def k2_def k4_def k8_def
    by (rule reverse_stage_1 [OF that] reverse_stage_2 [OF that] reverse_stage_4 [OF that] reverse_stage_8 [OF that])+
  have rev: "bit ?r j \<longleftrightarrow> bit k (31 - j)" if "j < 32" for j
    unfolding bit_word_rotr_iff using below_32 [OF that]
    by (elim insertE emptyE; simp add: stages flip: numeral_2_eq_2)
  have "bitreverse k n = drop_bit ((32 - n) mod 32) ?r"
    by (simp only: bitreverse_def Let_def k1_def k2_def k4_def k8_def)
  then have "bit (bitreverse k n) i \<longleftrightarrow> bit ?r (32 - n + i)" using assms by (simp add: bit_drop_bit_eq)
  also have "\<dots> \<longleftrightarrow> i < n \<and> bit k (n - 1 - i)"
  proof (cases "i < n")
    case True
    then have "31 - (32 - n + i) = n - 1 - i" "32 - n + i < 32" using assms by auto
    with rev [of "32 - n + i"] True show ?thesis by simp
  next
    case False
    then show ?thesis using assms impossible_bit [of "32 - n + i" ?r] by auto
  qed
  finally show ?thesis .
qed

text \<open>Bit reversal of the indices below \<open>2 ^ ht\<close>.\<close>

definition rev_index :: "nat \<Rightarrow> nat \<Rightarrow> nat" where
  "rev_index ht k = unat (bitreverse (of_nat k) ht)"

lemma bitreverse_take_bit: "1 \<le> n \<Longrightarrow> n \<le> 32 \<Longrightarrow> take_bit n (bitreverse k n) = bitreverse k n"
  by (rule bit_eqI) (auto simp: bit_take_bit_iff bit_bitreverse)

lemma bitreverse_twice:
  assumes "1 \<le> n" "n \<le> 32" "take_bit n k = k"
  shows "bitreverse (bitreverse k n) n = k"
proof (rule bit_eqI)
  fix i
  have "bit k i \<longleftrightarrow> i < n \<and> bit k i" using assms(3) by (metis bit_take_bit_iff)
  then show "bit (bitreverse (bitreverse k n) n) i = bit k i" using assms(1,2) by (auto simp: bit_bitreverse)
qed

lemma unat_of_nat_u32:
  assumes "k < 2 ^ n" "n \<le> 32"
  shows "unat (of_nat k :: u32) = k"
proof -
  have "(2 :: nat) ^ n \<le> 2 ^ 32" using assms(2) by (intro power_increasing) auto
  with assms(1) have "k < 2 ^ 32" by linarith
  then show ?thesis by (simp add: unsigned_of_nat take_bit_nat_eq_self)
qed

lemma rev_index_lt:
  assumes "1 \<le> ht" "ht \<le> 32"
  shows "rev_index ht k < 2 ^ ht"
proof -
  have "unat (take_bit ht (bitreverse (of_nat k) ht)) < 2 ^ ht" by (simp add: unat_take_bit)
  then show ?thesis using assms by (simp add: rev_index_def bitreverse_take_bit)
qed

lemma rev_index_twice:
  assumes "1 \<le> ht" "ht \<le> 32" "k < 2 ^ ht"
  shows "rev_index ht (rev_index ht k) = k"
proof -
  have k: "unat (of_nat k :: u32) = k" using assms by (simp add: unat_of_nat_u32)
  then have "take_bit ht (of_nat k :: u32) = of_nat k"
    using assms(3) by (intro word_eq_unatI) (simp add: unat_take_bit)
  from bitreverse_twice [OF assms(1,2) this] k show ?thesis by (simp add: rev_index_def)
qed

lemma swap_indices_rev:
  assumes "1 \<le> ht" "ht \<le> 32"
  shows "swap_indices (2 ^ ht) = map (\<lambda>k. if k < rev_index ht k then Some (rev_index ht k) else None) [0..<2 ^ ht]"
  using assms by (auto simp: swap_indices_def Let_def rev_index_def word_less_nat_alt unat_of_nat_u32)

text \<open>Exchanging the pairs of an involution \<open>r\<close>, each once, permutes the list by \<open>r\<close>.\<close>

lemma swap_loop_permutes:
  assumes r: "\<And>k. k < n \<Longrightarrow> r k < n" "\<And>k. k < n \<Longrightarrow> r (r k) = k"
    and "m \<le> n" "length xs = n" "length ys = n"
    and "\<And>j. j < n \<Longrightarrow> xs ! j = (if j < m \<or> r j < m then ys ! r j else ys ! j)"
  shows "swap_loop m (map (\<lambda>k. if k < r k then Some (r k) else None) [m..<n]) xs = map (\<lambda>j. ys ! r j) [0..<n]"
  using assms(3-6)
proof (induction "n - m" arbitrary: m xs)
  case 0
  then have "m = n" by simp
  then show ?case using 0 r by (auto intro!: nth_equalityI)
next
  case (Suc d)
  then have m: "m < n" by simp
  let ?g = "\<lambda>k. if k < r k then Some (r k) else None"
  have upt: "[m..<n] = m # [Suc m..<n]" using m by (rule upt_conv_Cons)
  note eq = Suc.prems(4)
  show ?case
  proof (cases "m < r m")
    case True
    have rm: "r m < n" using m r(1) by blast
    have at: "xs ! m = ys ! m" "xs ! r m = ys ! r m" using eq [OF m] eq [OF rm] True r(2) [OF m] by auto
    let ?xs = "xs[m := xs ! r m, r m := xs ! m]"
    have "swap_loop (Suc m) (map ?g [Suc m..<n]) ?xs = map (\<lambda>j. ys ! r j) [0..<n]"
    proof (rule Suc.hyps(1))
      fix j assume j: "j < n"
      consider "j = m" | "j = r m" | "j \<noteq> m" "j \<noteq> r m" by blast
      then show "?xs ! j = (if j < Suc m \<or> r j < Suc m then ys ! r j else ys ! j)"
      proof cases
        case 3
        then have "r j \<noteq> m" using r(2) [OF j] by auto
        with 3 eq [OF j] show ?thesis by (simp add: less_Suc_eq)
      qed (use True at Suc.prems(2) m rm r(2) [OF m] in auto)
    qed (use Suc.prems Suc.hyps(2) m in auto)
    then show ?thesis unfolding upt using True by simp
  next
    case False
    have "swap_loop (Suc m) (map ?g [Suc m..<n]) xs = map (\<lambda>j. ys ! r j) [0..<n]"
    proof (rule Suc.hyps(1))
      fix j assume j: "j < n"
      show "xs ! j = (if j < Suc m \<or> r j < Suc m then ys ! r j else ys ! j)"
        using eq [OF j] eq [OF m] False r(2) [OF j] r(2) [OF m] by (auto simp: less_Suc_eq)
    qed (use Suc.prems Suc.hyps(2) m in auto)
    then show ?thesis unfolding upt using False by simp
  qed
qed

lemma swap_loop_reverses:
  assumes "1 \<le> ht" "ht \<le> 32" "length xs = 2 ^ ht"
  shows "swap_loop 0 (swap_indices (length xs)) xs = map (\<lambda>j. xs ! rev_index ht j) [0..<2 ^ ht]"
  unfolding assms(3) swap_indices_rev [OF assms(1,2)]
  by (rule swap_loop_permutes) (use assms rev_index_lt rev_index_twice in auto)

section \<open>Buds and leafs\<close>

text \<open>The tree over the \<open>2 ^ i\<close> buds that start at index \<open>k\<close>.\<close>

fun bud_tree :: "('d, 'f) tip5 \<Rightarrow> 'f bfield \<Rightarrow> nat \<Rightarrow> 'd \<Rightarrow> nat \<Rightarrow> nat \<Rightarrow> 'd" where
  "bud_tree H F ht c 0 k = bud H F c k"
| "bud_tree H F ht c (Suc i) k =
     tip5_pair H (bud_tree H F ht c i k) (bud_tree H F ht c i ((k + 2 ^ i) mod NUM_LEAFS ht))"

lemma bud_layers_trees:
  assumes "buds = map (bud_tree H F ht c a) [0..<NUM_LEAFS ht]" "length others = NUM_LEAFS ht"
  shows "\<exists>os. bud_layers H ht [a..<a + n] (buds, others, s) =
     (map (bud_tree H F ht c (a + n)) [0..<NUM_LEAFS ht], os, s + n) \<and> length os = NUM_LEAFS ht"
  using assms
proof (induction n arbitrary: a buds others s)
  case (Suc n)
  have "0 < NUM_LEAFS ht" by (simp add: NUM_LEAFS_def)
  then have "map (\<lambda>k. tip5_pair H (buds ! k) (buds ! ((k + 2 ^ a) mod NUM_LEAFS ht))) [0..<length others] =
      map (bud_tree H F ht c (Suc a)) [0..<NUM_LEAFS ht]"
    using Suc.prems by simp
  then have layer: "bud_layers H ht (a # [Suc a..<Suc a + n]) (buds, others, s) =
      bud_layers H ht [Suc a..<Suc a + n] (map (bud_tree H F ht c (Suc a)) [0..<NUM_LEAFS ht], buds, s + 1)"
    by (simp only: bud_layers.simps Let_def)
  have "length buds = NUM_LEAFS ht" using Suc.prems by simp
  from Suc.IH [OF refl this, of "Suc a" "s + 1"] layer
  have "\<exists>os. bud_layers H ht (a # [Suc a..<Suc a + n]) (buds, others, s) =
      (map (bud_tree H F ht c (Suc a + n)) [0..<NUM_LEAFS ht], os, s + 1 + n) \<and> length os = NUM_LEAFS ht" by metis
  moreover have "[a..<a + Suc n] = a # [Suc a..<Suc a + n]" by (simp add: upt_conv_Cons)
  ultimately show ?case by (simp only: add_Suc_shift add.assoc plus_1_eq_Suc)
qed simp

lemma heap_node_buds:
  assumes "length ls = 2 ^ n" "\<And>j. j < 2 ^ n \<Longrightarrow> ls ! j = bud H F c ((k + j) mod NUM_LEAFS ht)"
    and "i \<le> n" "j < 2 ^ (n - i)"
  shows "heap_node H ls (2 ^ (n - i) + j) = bud_tree H F ht c i ((k + j * 2 ^ i) mod NUM_LEAFS ht)"
  using assms(3,4)
proof (induction i arbitrary: j)
  case 0
  then show ?case using assms(1,2) by (simp add: heap_node_leaf)
next
  case (Suc i)
  have pw: "(2 :: nat) ^ (n - i) = 2 * 2 ^ (n - Suc i)" using Suc.prems(1) by (simp flip: power_Suc add: Suc_diff_Suc)
  let ?x = "2 ^ (n - Suc i) + j"
  have "(2 :: nat) ^ (n - i) \<le> 2 ^ n" by (rule power_increasing) auto
  then have "?x < length ls" using Suc.prems(2) unfolding assms(1) pw by simp
  then have "heap_node H ls ?x = tip5_pair H (heap_node H ls (2 * ?x)) (heap_node H ls (2 * ?x + 1))"
    by (intro heap_node_inner) auto
  also have "2 * ?x = 2 ^ (n - i) + 2 * j" unfolding pw by simp
  also have "2 ^ (n - i) + 2 * j + 1 = 2 ^ (n - i) + (2 * j + 1)" by simp
  also have "heap_node H ls (2 ^ (n - i) + 2 * j) = bud_tree H F ht c i ((k + 2 * j * 2 ^ i) mod NUM_LEAFS ht)"
    using Suc.prems pw by (intro Suc.IH) auto
  also have "heap_node H ls (2 ^ (n - i) + (2 * j + 1)) = bud_tree H F ht c i ((k + (2 * j + 1) * 2 ^ i) mod NUM_LEAFS ht)"
    using Suc.prems pw by (intro Suc.IH) auto
  also have "(k + (2 * j + 1) * 2 ^ i) mod NUM_LEAFS ht = ((k + j * 2 ^ Suc i) mod NUM_LEAFS ht + 2 ^ i) mod NUM_LEAFS ht"
    by (simp add: mod_simps algebra_simps)
  finally show ?case by (simp add: algebra_simps)
qed

lemma pow_leaf_tree:
  assumes "k < NUM_LEAFS ht"
  shows "pow_leaf H F ht c k = Inr (bud_tree H F ht c NUM_BUD_LAYERS k)"
proof -
  let ?ls = "map (\<lambda>i. bud H F c (i mod NUM_LEAFS ht)) [k..<k + 2 ^ 5]"
  have len: "length ?ls = 2 ^ 5" by simp
  obtain nodes where b: "build_inplace H ?ls ?ls = Inr \<lparr>mt_leafs = ?ls, internal_nodes = nodes\<rparr>" "nodes_from H ?ls 1 nodes"
    using build_inplace_nodes [OF len, of ?ls H] by auto
  have "length nodes = 32" using b(2) by (simp add: nodes_from_def)
  then have "mt_root H \<lparr>mt_leafs = ?ls, internal_nodes = nodes\<rparr> = heap_node H ?ls 1"
    using b(2) by (simp add: mt_root_def nodes_from_def)
  also have "\<dots> = bud_tree H F ht c 5 k"
    using heap_node_buds [OF len, of H F c k ht 5 0] assms by simp
  finally show ?thesis
    using b(1) by (simp add: pow_leaf_def BUDS_PER_LEAF_def NUM_BUD_LAYERS_def bind_res_def)
qed

section \<open>Guessing\<close>

definition buffer_leafs :: "('d, 'f) tip5 \<Rightarrow> 'f bfield \<Rightarrow> nat \<Rightarrow> 'd \<Rightarrow> 'd list" where
  "buffer_leafs H F ht c = map (\<lambda>j. bud_tree H F ht c NUM_BUD_LAYERS (rev_index ht j)) [0..<2 ^ ht]"

lemma preprocess_buffer:
  assumes "1 \<le> ht" "ht \<le> 32"
  shows "\<exists>nodes. preprocess H F ht c =
      Inr \<lparr>merkle_tree = \<lparr>mt_leafs = buffer_leafs H F ht c, internal_nodes = nodes\<rparr>, gb_prev_block_digest = c\<rparr> \<and>
    nodes_from H (buffer_leafs H F ht c) 1 nodes"
proof -
  let ?ins = "map (bud H F c) [0..<NUM_LEAFS ht]"
  have "?ins = map (bud_tree H F ht c 0) [0..<NUM_LEAFS ht]" by simp
  from bud_layers_trees [OF this, of ?ins 5 0] obtain os where
    os: "bud_layers H ht [0..<5] (?ins, ?ins, 0) = (map (bud_tree H F ht c 5) [0..<NUM_LEAFS ht], os, 5)"
      "length os = NUM_LEAFS ht" by auto
  let ?trees = "map (bud_tree H F ht c 5) [0..<2 ^ ht]"
  have "swap_loop 0 (swap_indices (length ?trees)) ?trees = map (\<lambda>j. ?trees ! rev_index ht j) [0..<2 ^ ht]"
    using assms by (intro swap_loop_reverses) auto
  also have "\<dots> = buffer_leafs H F ht c"
    unfolding buffer_leafs_def NUM_BUD_LAYERS_def using rev_index_lt [OF assms] by auto
  finally have swap: "swap_loop 0 (swap_indices (length ?trees)) ?trees = buffer_leafs H F ht c" .
  have "length (buffer_leafs H F ht c) = 2 ^ ht" by (simp add: buffer_leafs_def)
  from build_inplace_nodes [OF this assms(1), of os H] os(2) obtain nodes where
    "build_inplace H (buffer_leafs H F ht c) os = Inr \<lparr>mt_leafs = buffer_leafs H F ht c, internal_nodes = nodes\<rparr>"
    "nodes_from H (buffer_leafs H F ht c) 1 nodes" by (auto simp: NUM_LEAFS_def buffer_leafs_def)
  moreover have "preprocess H F ht c = bind_res (build_inplace H (swap_loop 0 (swap_indices (length ?trees)) ?trees) os)
      (\<lambda>t. Inr \<lparr>merkle_tree = t, gb_prev_block_digest = c\<rparr>)"
    using os(1) unfolding preprocess_def NUM_BUD_LAYERS_def by (simp add: NUM_LEAFS_def)
  ultimately show ?thesis unfolding swap by (simp add: bind_res_def)
qed

lemma pow_indices_lt: "fst (pow_indices H F ht d n) < 2 ^ ht" "snd (pow_indices H F ht d n) < 2 ^ ht"
  by (simp_all add: pow_indices_def Let_def)

text \<open>What the guesser opens is what the verifier recomputes.\<close>

lemma opened_leaf:
  assumes "1 \<le> ht" "ht \<le> 32" "i < 2 ^ ht"
  shows "u32_index i = Inr (of_nat i)"
    and "pow_leaf H F ht c (unat (bitreverse (of_nat i) ht)) = Inr (buffer_leafs H F ht c ! i)"
proof -
  have "(2 :: nat) ^ ht \<le> 2 ^ 32" using assms(2) by (intro power_increasing) auto
  then show "u32_index i = Inr (of_nat i)" using assms(3) by (simp add: u32_index_def)
  have "rev_index ht i < NUM_LEAFS ht" using rev_index_lt [OF assms(1,2)] by (simp add: NUM_LEAFS_def)
  from pow_leaf_tree [OF this] assms(3)
  show "pow_leaf H F ht c (unat (bitreverse (of_nat i) ht)) = Inr (buffer_leafs H F ht c ! i)"
    by (simp add: buffer_leafs_def rev_index_def)
qed

text \<open>What a guess returns, and what validation says about it.\<close>

lemma guess_complete:
  assumes "1 \<le> ht" "ht \<le> 32"
  shows "\<exists>buffer. preprocess H F ht parent = Inr buffer \<and>
    (\<forall>paths n target. \<exists>p. nonce p = n \<and>
       guess H F encode_pow ht buffer paths (index_picker_preimage H buffer paths) n target =
         Inr (if fast_mast_hash H encode_pow paths p \<le> target then Some p else None) \<and>
       pow_validate H F encode_pow ht p paths target parent =
         Inr (if fast_mast_hash H encode_pow paths p \<le> target then Inr () else Inl ThresholdNotMet))"
proof -
  let ?ls = "buffer_leafs H F ht parent"
  obtain nodes where pre: "preprocess H F ht parent =
      Inr \<lparr>merkle_tree = \<lparr>mt_leafs = ?ls, internal_nodes = nodes\<rparr>, gb_prev_block_digest = parent\<rparr>"
    and nodes: "nodes_from H ?ls 1 nodes" using preprocess_buffer [OF assms, of H F parent] by (elim exE conjE) (rule that)
  let ?t = "\<lparr>mt_leafs = ?ls, internal_nodes = nodes\<rparr>"
  let ?buffer = "\<lparr>merkle_tree = ?t, gb_prev_block_digest = parent\<rparr>"
  have len: "length ?ls = 2 ^ ht" by (simp add: buffer_leafs_def)
  have "(2 :: nat) \<le> 2 ^ ht" using assms(1) self_le_power [of 2 ht] by simp
  then have root: "mt_root H ?t = heap_node H ?ls 1" using nodes len by (simp add: mt_root_def nodes_from_def)
  have "\<exists>p. nonce p = n \<and> guess H F encode_pow ht ?buffer paths (index_picker_preimage H ?buffer paths) n target =
         Inr (if fast_mast_hash H encode_pow paths p \<le> target then Some p else None) \<and>
       pow_validate H F encode_pow ht p paths target parent =
         Inr (if fast_mast_hash H encode_pow paths p \<le> target then Inr () else Inl ThresholdNotMet)" for paths n target
  proof -
    obtain a b where ab: "pow_indices H F ht (index_picker_preimage H ?buffer paths) n = (a, b)" by force
    then have lt: "a < 2 ^ ht" "b < 2 ^ ht"
      using pow_indices_lt [of H F ht "index_picker_preimage H ?buffer paths" n] by simp_all
    note path = mt_path_verifies [OF nodes len assms(1)]
    obtain pa pb where pa: "mt_path ?t a = Inr pa" "length pa = ht" "mt_verify H (heap_node H ?ls 1) a pa (?ls ! a)"
      and pb: "mt_path ?t b = Inr pb" "length pb = ht" "mt_verify H (heap_node H ?ls 1) b pb (?ls ! b)"
      using path [of a] path [of b] lt len assms(2) by auto
    let ?p = "\<lparr>root = mt_root H ?t, path_a = pa, path_b = pb, nonce = n\<rparr>"
    have "guess H F encode_pow ht ?buffer paths (index_picker_preimage H ?buffer paths) n target =
        Inr (if fast_mast_hash H encode_pow paths ?p \<le> target then Some ?p else None)"
      using pa(1,2) pb(1,2) by (simp add: guess_def ab bind_res_def array_of_len_def Let_def not_le)
    moreover have "pow_validate H F encode_pow ht ?p paths target parent =
        Inr (if fast_mast_hash H encode_pow paths ?p \<le> target then Inr () else Inl ThresholdNotMet)"
      using pa(3) pb(3) ab opened_leaf(1) [OF assms lt(1)] opened_leaf(1) [OF assms lt(2)]
        opened_leaf(2) [OF assms lt(1), of H F parent] opened_leaf(2) [OF assms lt(2), of H F parent]
      by (simp add: pow_validate_def bind_res_def index_picker_preimage_def index_picker_preimage_from_root_def root)
    moreover have "nonce ?p = n" by simp
    ultimately show ?thesis by blast
  qed
  with pre show ?thesis by blast
qed

section \<open>Properties\<close>

text \<open>(C21) Completeness of the puzzle: the buffer of every parent digest can be built, no guess panics, a guess
  succeeds exactly when the digest of the block with the opened paths meets the target, and validation of the
  opened paths against the same parent succeeds exactly then: it never complains about a path.\<close>

theorem guess_validates:
  assumes "1 \<le> ht" "ht \<le> 32"
  shows "\<exists>buffer. preprocess H F ht parent = Inr buffer \<and>
    (\<forall>paths n target. \<exists>p. nonce p = n \<and>
       guess H F encode_pow ht buffer paths (index_picker_preimage H buffer paths) n target =
         Inr (if fast_mast_hash H encode_pow paths p \<le> target then Some p else None) \<and>
       pow_validate H F encode_pow ht p paths target parent =
         Inr (if fast_mast_hash H encode_pow paths p \<le> target then Inr () else Inl ThresholdNotMet))"
  using guess_complete [OF assms] .

text \<open>Digests as numbers modulo 1009, for a concrete run.\<close>

definition small_tip5 :: "(nat, bfe) tip5" where
  "small_tip5 = \<lparr>tip5_pair = (\<lambda>a b. (5 * a + 3 * b + 1) mod 1009),
     tip5_varlen = (\<lambda>xs. foldr (\<lambda>x y. (unat (bf_value bfe_ops x) + 7 * y) mod 1009) xs 0),
     tip5_values = (\<lambda>d. replicate 5 (bf_new bfe_ops (of_nat d))),
     tip5_digest = (\<lambda>xs. unat (bf_value bfe_ops (hd xs)) mod 1009), tip5_default = 0\<rparr>"

theorem guess_validates_witness:
  "\<exists>buffer pow. preprocess small_tip5 bfe_ops 4 77 = Inr buffer \<and> nonce pow = 8 \<and>
     guess small_tip5 bfe_ops (\<lambda>p. tip5_values small_tip5 (nonce p)) 4 buffer
       \<lparr>pmp_pow = [1, 2, 3], pmp_header = [4, 5], pmp_kernel = [6]\<rparr>
       (index_picker_preimage small_tip5 buffer \<lparr>pmp_pow = [1, 2, 3], pmp_header = [4, 5], pmp_kernel = [6]\<rparr>) 8 1008 =
       Inr (Some pow) \<and>
     pow_validate small_tip5 bfe_ops (\<lambda>p. tip5_values small_tip5 (nonce p)) 4 pow
       \<lparr>pmp_pow = [1, 2, 3], pmp_header = [4, 5], pmp_kernel = [6]\<rparr> 1008 77 = Inr (Inr ())"
proof -
  let ?e = "\<lambda>p. tip5_values small_tip5 (nonce p)"
  let ?paths = "\<lparr>pmp_pow = [1, 2, 3], pmp_header = [4, 5], pmp_kernel = [6]\<rparr> :: nat pow_mast_paths"
  have "tip5_pair small_tip5 x y \<le> 1008" for x y
    using mod_less_divisor [of 1009 "5 * x + 3 * y + 1"] by (simp add: small_tip5_def)
  then have "fast_mast_hash small_tip5 ?e ?paths p \<le> 1008" for p unfolding fast_mast_hash_def Let_def by blast
  moreover obtain buffer where "preprocess small_tip5 bfe_ops 4 77 = Inr buffer"
      "\<exists>p. nonce p = 8 \<and> guess small_tip5 bfe_ops ?e 4 buffer ?paths (index_picker_preimage small_tip5 buffer ?paths) 8 1008 =
         Inr (if fast_mast_hash small_tip5 ?e ?paths p \<le> 1008 then Some p else None) \<and>
       pow_validate small_tip5 bfe_ops ?e 4 p ?paths 1008 77 =
         Inr (if fast_mast_hash small_tip5 ?e ?paths p \<le> 1008 then Inr () else Inl ThresholdNotMet)"
    using guess_validates [of 4 small_tip5 bfe_ops 77 ?e] by auto
  ultimately show ?thesis by auto
qed

text \<open>The bound of \<^verbatim>\<open>verify\<close> is off by one: the first index past the leafs is accepted with the path of the leaf 0.\<close>

lemma verify_loop_wraps: "mt_verify_loop H (m * 2 ^ length path) d path = mt_verify_loop H 0 d path"
proof (induction path arbitrary: d)
  case (Cons s path)
  have "drop_bit 1 (m * 2 ^ length (s # path)) = m * 2 ^ length path" unfolding drop_bit_1_div by simp
  moreover have "\<not> (m * 2 ^ length (s # path)) AND 1 = 1" by (simp add: and_one_eq mult.assoc)
  ultimately show ?case using Cons by (simp only: mt_verify_loop.simps if_False) simp
qed simp

theorem verify_accepts_index_past_leafs:
  assumes "length path < 64"
  shows "mt_verify H r (2 ^ length path) path e \<longleftrightarrow> mt_verify H r 0 path e"
  using assms verify_loop_wraps [of H 1 path e] by (simp add: mt_verify_def push_bit_eq_mult)

end
