(* ===== verification/Mutator_Set_Update.thy ===== *)
theory Mutator_Set_Update
  imports Mutator_Set
begin

text \<open>
  Applying a block to the mutator set: \<^verbatim>\<open>consensus/src/block/mutator_set_update.rs\<close>, with the update of removal
  records under additions and removals (\<^verbatim>\<open>batch_update_from_addition\<close> and \<^verbatim>\<open>batch_update_from_remove\<close> of
  \<^verbatim>\<open>removal_record.rs\<close>, \<^verbatim>\<open>get_batch_mutation_argument_for_removal_record\<close> of \<^verbatim>\<open>shared.rs\<close>).

  The two batch updates of MMR membership proofs belong to \<^verbatim>\<open>twenty-first\<close> and are the parameter \<open>mp_ops\<close>.
  The slices of mutable references are lists that a function returns updated. The authenticated items that
  \<^verbatim>\<open>apply_to_accumulator_and_records\<close> updates on the side are left out.
\<close>

record ('d, 'm, 'p) mp_ops =
  batch_update_from_append :: "'p list \<Rightarrow> u64 list \<Rightarrow> u64 \<Rightarrow> 'd \<Rightarrow> 'm \<Rightarrow> 'p list"
  batch_update_from_batch_leaf_mutation :: "'p list \<Rightarrow> u64 list \<Rightarrow> (u64 \<times> 'd \<times> 'p) list \<Rightarrow> 'p list"

section \<open>Collecting and writing back membership proofs\<close>

text \<open>The code collects mutable references to the proofs of the selected entries; the model collects the proofs
  and writes the updated ones back in the same order.\<close>

definition collect_proofs :: "('p removal_record \<Rightarrow> u64 \<Rightarrow> bool) \<Rightarrow> 'p removal_record list \<Rightarrow> (u64 \<times> 'p) list" where
  "collect_proofs sel rrs =
     concat (map (\<lambda>rr. map (\<lambda>(k, (mp, _)). (k, mp)) (filter (\<lambda>(k, _). sel rr k) (dictionary (target_chunks rr)))) rrs)"

fun write_entries ::
  "(u64 \<Rightarrow> bool) \<Rightarrow> (u64 \<times> 'p authenticated_chunk) list \<Rightarrow> 'p list \<Rightarrow> (u64 \<times> 'p authenticated_chunk) list \<times> 'p list" where
  "write_entries sel [] ps = ([], ps)"
| "write_entries sel ((k, (mp, c)) # es) ps =
     (if sel k then (case ps of
          [] \<Rightarrow> ((k, (mp, c)) # es, [])
        | p # ps \<Rightarrow> (let (es, ps) = write_entries sel es ps in ((k, (p, c)) # es, ps)))
      else (let (es, ps) = write_entries sel es ps in ((k, (mp, c)) # es, ps)))"

fun write_proofs ::
  "('p removal_record \<Rightarrow> u64 \<Rightarrow> bool) \<Rightarrow> 'p removal_record list \<Rightarrow> 'p list \<Rightarrow> 'p removal_record list" where
  "write_proofs sel [] ps = []"
| "write_proofs sel (rr # rrs) ps =
     (let (es, ps) = write_entries (sel rr) (dictionary (target_chunks rr)) ps
      in rr\<lparr>target_chunks := ChunkDictionary es\<rparr> # write_proofs sel rrs ps)"

section \<open>Removal records under an addition\<close>

definition chunks_set :: "'p removal_record \<Rightarrow> u64 set" where
  "chunks_set rr = set (map (\<lambda>x. ucast (x div ucast CHUNK_SIZE)) (ais_to_array (absolute_indices rr)))"

definition batch_update_from_addition ::
  "('d, 'm, 'p) crypto \<Rightarrow> ('d, 'm, 'p) mp_ops \<Rightarrow> 'p removal_record list \<Rightarrow> 'm mutator_set \<Rightarrow> 'p removal_record list res" where
  "batch_update_from_addition C M removal_records ms =
     (let new_item_index = num_leafs C (aocl ms) in
      if \<not> window_slides new_item_index then Inr removal_records
      else let new_chunk = slid_chunk (swbf_active ms);
               new_chunk_digest = hash_chunk C new_chunk;
               next_batch_index = new_item_index div ucast BATCH_SIZE;
               current_batch_index = next_batch_index - 1
           in assert_then (current_batch_index = num_leafs C (swbf_inactive ms))
        (let new_swbf_auth_path = snd (mmr_append C (swbf_inactive ms) new_chunk_digest);
             batch_index = new_item_index div ucast BATCH_SIZE;
             old_window_start_batch_index = batch_index - 1;
             rrs = map (\<lambda>rr. if old_window_start_batch_index \<in> chunks_set rr
                     then rr\<lparr>target_chunks := fst (cd_insert (target_chunks rr) old_window_start_batch_index
                            (new_swbf_auth_path, new_chunk))\<rparr> else rr) removal_records;
             for_append = (\<lambda>rr chunk_index. (\<exists>k\<in>chunks_set rr. k < old_window_start_batch_index) \<and>
                     chunk_index \<noteq> old_window_start_batch_index);
             collected = collect_proofs for_append rrs;
             updated = batch_update_from_append M (map snd collected) (map fst collected)
               (num_leafs C (swbf_inactive ms)) new_chunk_digest (swbf_inactive ms)
         in Inr (write_proofs for_append rrs updated)))"

section \<open>Removal records under a removal\<close>

type_synonym ('d, 'p) mutations = "(u64 \<times> ('p \<times> 'd)) list"

text \<open>One chunk dictionary and one chunk index in the loop of
  \<^verbatim>\<open>get_batch_mutation_argument_for_removal_record\<close>; the flag says whether the dictionary was changed.\<close>

definition mutate_dictionary_entry ::
  "('d, 'm, 'p) crypto \<Rightarrow> 'p removal_record \<Rightarrow> u64 \<Rightarrow> u128 list \<Rightarrow> 'p chunk_dictionary \<Rightarrow> ('d, 'p) mutations
     \<Rightarrow> ('p chunk_dictionary \<times> bool \<times> ('d, 'p) mutations) res" where
  "mutate_dictionary_entry C removal_record chunk_index indices chunk_dictionary muts =
     (case cd_get chunk_dictionary chunk_index of
        Some (mmr_mp, chunk) \<Rightarrow>
          bind_res (insert_inactive chunk indices) (\<lambda>chunk.
            Inr (cd_set chunk_dictionary chunk_index (mmr_mp, chunk), indices \<noteq> [],
              if map_of muts chunk_index = None then muts @ [(chunk_index, (mmr_mp, hash_chunk C chunk))] else muts))
      | None \<Rightarrow>
          (case cd_get (target_chunks removal_record) chunk_index of
             None \<Rightarrow> Inr (chunk_dictionary, False, muts)
           | Some (mp, chunk) \<Rightarrow>
               if map_of muts chunk_index = None
               then bind_res (insert_inactive chunk indices) (\<lambda>target_chunk.
                      Inr (chunk_dictionary, False, muts @ [(chunk_index, (mp, hash_chunk C target_chunk))]))
               else Inr (chunk_dictionary, False, muts)))"

fun mutate_dictionaries ::
  "('d, 'm, 'p) crypto \<Rightarrow> 'p removal_record \<Rightarrow> u64 \<Rightarrow> u128 list \<Rightarrow> 'p removal_record list \<Rightarrow> ('d, 'p) mutations
     \<Rightarrow> ('p removal_record list \<times> bool list \<times> ('d, 'p) mutations) res" where
  "mutate_dictionaries C removal_record chunk_index indices [] muts = Inr ([], [], muts)"
| "mutate_dictionaries C removal_record chunk_index indices (rr # rrs) muts =
     bind_res (mutate_dictionary_entry C removal_record chunk_index indices (target_chunks rr) muts) (\<lambda>(d, changed, muts).
     bind_res (mutate_dictionaries C removal_record chunk_index indices rrs muts) (\<lambda>(rrs, flags, muts).
       Inr (rr\<lparr>target_chunks := d\<rparr> # rrs, changed # flags, muts)))"

fun mutation_argument_loop ::
  "('d, 'm, 'p) crypto \<Rightarrow> 'p removal_record \<Rightarrow> (u64 \<times> u128 list) list \<Rightarrow> 'p removal_record list \<Rightarrow> bool list
     \<Rightarrow> ('d, 'p) mutations \<Rightarrow> ('p removal_record list \<times> bool list \<times> ('d, 'p) mutations) res" where
  "mutation_argument_loop C removal_record [] rrs flags muts = Inr (rrs, flags, muts)"
| "mutation_argument_loop C removal_record ((chunk_index, indices) # rest) rrs flags muts =
     bind_res (mutate_dictionaries C removal_record chunk_index indices rrs muts) (\<lambda>(rrs, changed, muts).
       mutation_argument_loop C removal_record rest rrs (map2 (\<or>) flags changed) muts)"

text \<open>The dictionaries are those of the records, so the records are passed and returned. The set of changed
  dictionaries is the list of flags.\<close>

definition get_batch_mutation_argument_for_removal_record ::
  "('d, 'm, 'p) crypto \<Rightarrow> 'p removal_record \<Rightarrow> 'p removal_record list
     \<Rightarrow> ('p removal_record list \<times> bool list \<times> (u64 \<times> 'p \<times> 'd) list) res" where
  "get_batch_mutation_argument_for_removal_record C removal_record rrs =
     bind_res (mutation_argument_loop C removal_record (get_chunkidx_to_indices_dict removal_record) rrs
                 (map (\<lambda>_. False) rrs) [])
       (\<lambda>(rrs, flags, muts). Inr (rrs, flags, map (\<lambda>(i, (p, l)). (i, p, l)) muts))"

definition batch_update_from_remove ::
  "('d, 'm, 'p) crypto \<Rightarrow> ('d, 'm, 'p) mp_ops \<Rightarrow> 'p removal_record list \<Rightarrow> 'p removal_record
     \<Rightarrow> 'p removal_record list res" where
  "batch_update_from_remove C M removal_records applied_removal_record =
     bind_res (get_batch_mutation_argument_for_removal_record C applied_removal_record removal_records)
       (\<lambda>(rrs, _, mutation_argument).
          let collected = collect_proofs (\<lambda>_ _. True) rrs;
              updated = batch_update_from_batch_leaf_mutation M (map snd collected) (map fst collected)
                          (map (\<lambda>(i, p, l). (i, l, p)) mutation_argument)
          in Inr (write_proofs (\<lambda>_ _. True) rrs updated))"

section \<open>Mutator set updates\<close>

record ('d, 'p) mutator_set_update =
  removals :: "'p removal_record list"
  additions :: "'d addition_record list"

definition update_is_empty :: "('d, 'p) mutator_set_update \<Rightarrow> bool" where
  "update_is_empty u \<longleftrightarrow> removals u = [] \<and> additions u = []"

fun apply_additions ::
  "('d, 'm, 'p) crypto \<Rightarrow> ('d, 'm, 'p) mp_ops \<Rightarrow> 'm mutator_set \<Rightarrow> 'p removal_record list \<Rightarrow> 'p removal_record list
     \<Rightarrow> 'd addition_record list \<Rightarrow> ('m mutator_set \<times> 'p removal_record list \<times> 'p removal_record list) res" where
  "apply_additions C M ms remaining records [] = Inr (ms, remaining, records)"
| "apply_additions C M ms remaining records (addition_record # rest) =
     bind_res (batch_update_from_addition C M remaining ms) (\<lambda>remaining.
     bind_res (batch_update_from_addition C M records ms) (\<lambda>records.
       apply_additions C M (ms_add C ms addition_record) remaining records rest))"

text \<open>\<^verbatim>\<open>batch_update_from_remove\<close> keeps the number of records, so popping the last one terminates.\<close>

lemma write_proofs_length [simp]: "length (write_proofs sel rrs ps) = length rrs"
  by (induction sel rrs ps rule: write_proofs.induct) (auto split: prod.splits)

lemma mutate_dictionaries_length:
  "mutate_dictionaries C a k is rrs muts = Inr (rrs', fl, muts') \<Longrightarrow> length rrs' = length rrs"
  by (induction C a k "is" rrs muts arbitrary: rrs' fl muts' rule: mutate_dictionaries.induct)
     (auto simp: bind_res_def split: sum.splits prod.splits)

lemma mutation_argument_loop_length:
  "mutation_argument_loop C a ks rrs fl muts = Inr (rrs', fl', muts') \<Longrightarrow> length rrs' = length rrs"
  by (induction C a ks rrs fl muts rule: mutation_argument_loop.induct)
     (auto simp: bind_res_def dest: mutate_dictionaries_length split: sum.splits prod.splits)

lemma batch_update_from_remove_length:
  "batch_update_from_remove C M rrs a = Inr rrs' \<Longrightarrow> length rrs' = length rrs"
  by (auto simp: batch_update_from_remove_def get_batch_mutation_argument_for_removal_record_def bind_res_def Let_def
      dest!: mutation_argument_loop_length split: sum.splits prod.splits)

function apply_removals ::
  "('d, 'm, 'p) crypto \<Rightarrow> ('d, 'm, 'p) mp_ops \<Rightarrow> 'm mutator_set \<Rightarrow> 'p removal_record list \<Rightarrow> 'p removal_record list \<Rightarrow> bool
     \<Rightarrow> ('m mutator_set \<times> 'p removal_record list \<times> bool) res" where
  "apply_removals C M ms remaining records valid =
     (if remaining = [] then Inr (ms, records, valid)
      else let applied = last remaining in
        case batch_update_from_remove C M (butlast remaining) applied of
          Inl e \<Rightarrow> Inl e
        | Inr remaining' \<Rightarrow>
            bind_res (batch_update_from_remove C M records applied) (\<lambda>records.
            bind_res (can_remove C ms applied) (\<lambda>can.
            bind_res (ms_remove C ms applied) (\<lambda>ms.
              apply_removals C M ms remaining' records (if \<not> can then False else valid)))))"
  by pat_completeness auto
termination
  by (relation "measure (\<lambda>(C, M, ms, remaining, records, valid). length remaining)")
     (auto dest!: batch_update_from_remove_length)

declare apply_removals.simps [simp del]

definition apply_to_accumulator_and_records_inner ::
  "('d, 'm, 'p) crypto \<Rightarrow> ('d, 'm, 'p) mp_ops \<Rightarrow> ('d, 'p) mutator_set_update \<Rightarrow> 'm mutator_set \<Rightarrow> 'p removal_record list
     \<Rightarrow> ('m mutator_set \<times> 'p removal_record list \<times> bool) res" where
  "apply_to_accumulator_and_records_inner C M u ms_accumulator removal_records =
     bind_res (apply_additions C M ms_accumulator (rev (removals u)) removal_records (additions u))
       (\<lambda>(ms, remaining, records). apply_removals C M ms remaining records True)"

text \<open>The left summand of the inner result is the error of \<^verbatim>\<open>anyhow\<close>; the mutator set is changed in either case.\<close>

definition apply_to_accumulator ::
  "('d, 'm, 'p) crypto \<Rightarrow> ('d, 'm, 'p) mp_ops \<Rightarrow> ('d, 'p) mutator_set_update \<Rightarrow> 'm mutator_set
     \<Rightarrow> ('m mutator_set \<times> (string + unit)) res" where
  "apply_to_accumulator C M u ms =
     bind_res (apply_to_accumulator_and_records_inner C M u ms [])
       (\<lambda>(ms, _, valid). Inr (ms, if valid then Inr () else Inl ''Cannot remove item from mutator set.''))"

definition apply_to_accumulator_unsafe ::
  "('d, 'm, 'p) crypto \<Rightarrow> ('d, 'm, 'p) mp_ops \<Rightarrow> ('d, 'p) mutator_set_update \<Rightarrow> 'm mutator_set \<Rightarrow> 'm mutator_set res" where
  "apply_to_accumulator_unsafe C M u ms =
     bind_res (apply_to_accumulator_and_records_inner C M u ms []) (\<lambda>(ms, _, _). Inr ms)"

section \<open>What the updates keep of a record\<close>

text \<open>An update changes proofs and chunks, never the absolute indices or the order of the keys.\<close>

definition updated_records :: "'p removal_record list \<Rightarrow> 'p removal_record list \<Rightarrow> bool" where
  "updated_records rrs rrs' \<longleftrightarrow> map absolute_indices rrs' = map absolute_indices rrs \<and>
     (list_all fits_window rrs \<longrightarrow> list_all fits_window rrs')"

lemma updated_records_refl [simp]: "updated_records rrs rrs"
  by (simp add: updated_records_def)

lemma updated_records_trans: "updated_records a b \<Longrightarrow> updated_records b c \<Longrightarrow> updated_records a c"
  by (simp add: updated_records_def)

lemma updated_records_indices:
  "updated_records a b \<Longrightarrow> set (map absolute_indices b) = set (map absolute_indices a)"
  by (simp only: updated_records_def)

lemma updated_records_Cons:
  "absolute_indices rr' = absolute_indices rr \<Longrightarrow> (wf_dictionary (target_chunks rr) \<Longrightarrow> wf_dictionary (target_chunks rr')) \<Longrightarrow>
     updated_records rrs rrs' \<Longrightarrow> updated_records (rr # rrs) (rr' # rrs')"
  by (auto simp: updated_records_def fits_window_def)

lemma write_entries_keys: "map fst (fst (write_entries sel es ps)) = map fst es"
  by (induction sel es ps rule: write_entries.induct) (auto split: list.splits prod.splits)

lemma write_proofs_updated: "updated_records rrs (write_proofs sel rrs ps)"
proof (induction sel rrs ps rule: write_proofs.induct)
  case (2 sel rr rrs ps)
  obtain es ps' where w: "write_entries (sel rr) (dictionary (target_chunks rr)) ps = (es, ps')" by force
  have "map fst es = map fst (dictionary (target_chunks rr))"
    using write_entries_keys [of "sel rr" "dictionary (target_chunks rr)" ps] by (simp add: w)
  then show ?case
    using 2 [OF w [symmetric] refl] by (auto simp: w wf_dictionary_def intro!: updated_records_Cons)
qed simp

lemma map_updated:
  assumes "\<And>rr. absolute_indices (f rr) = absolute_indices rr" "\<And>rr. wf_dictionary (target_chunks rr) \<Longrightarrow> wf_dictionary (target_chunks (f rr))"
  shows "updated_records rrs (map f rrs)"
  by (induction rrs) (auto intro!: updated_records_Cons assms)

lemma batch_update_from_addition_updated:
  assumes "batch_update_from_addition C M rrs ms = Inr rrs'"
  shows "updated_records rrs rrs'"
proof (cases "window_slides (num_leafs C (aocl ms))")
  case False
  with assms show ?thesis by (simp add: batch_update_from_addition_def)
next
  case True
  let ?b = "num_leafs C (aocl ms) div ucast BATCH_SIZE - 1"
  let ?c = "slid_chunk (swbf_active ms)"
  let ?f = "\<lambda>rr. if ?b \<in> chunks_set rr then rr\<lparr>target_chunks := fst (cd_insert (target_chunks rr) ?b
      (snd (mmr_append C (swbf_inactive ms) (hash_chunk C ?c)), ?c))\<rparr> else rr"
  from assms True obtain sel ps where rrs': "rrs' = write_proofs sel (map ?f rrs) ps"
    by (auto simp: batch_update_from_addition_def Let_def assert_then_def split: if_splits)
  have "updated_records rrs (map ?f rrs)" by (rule map_updated) (auto simp: cd_insert_wf)
  then show ?thesis unfolding rrs' by (rule updated_records_trans) (rule write_proofs_updated)
qed

lemma mutate_entry_wf:
  "mutate_dictionary_entry C a k is d muts = Inr (d', ch, muts') \<Longrightarrow> wf_dictionary d \<Longrightarrow> wf_dictionary d'"
  by (auto simp: mutate_dictionary_entry_def bind_res_def wf_dictionary_def cd_set_def split: option.splits sum.splits if_splits)

lemma mutate_dictionaries_updated:
  "mutate_dictionaries C a k is rrs muts = Inr (rrs', fl, muts') \<Longrightarrow> updated_records rrs rrs'"
proof (induction C a k "is" rrs muts arbitrary: rrs' fl muts' rule: mutate_dictionaries.induct)
  case (2 C a k "is" rr rrs muts)
  from 2(2) obtain d ch muts1 rrs1 fl1 muts2 where
    m: "mutate_dictionary_entry C a k is (target_chunks rr) muts = Inr (d, ch, muts1)"
      "mutate_dictionaries C a k is rrs muts1 = Inr (rrs1, fl1, muts2)" "rrs' = rr\<lparr>target_chunks := d\<rparr> # rrs1"
    by (auto simp: bind_res_def split: sum.splits)
  have "updated_records rrs rrs1" using 2(1) m(1,2) by blast
  with mutate_entry_wf [OF m(1)] show ?case unfolding m(3) by (intro updated_records_Cons) simp_all
qed simp

lemma mutation_argument_loop_updated:
  "mutation_argument_loop C a ks rrs fl muts = Inr (rrs', fl', muts') \<Longrightarrow> updated_records rrs rrs'"
proof (induction C a ks rrs fl muts rule: mutation_argument_loop.induct)
  case (2 C a k "is" ks rrs fl muts)
  from 2(2) obtain rrs1 fl1 muts1 where m: "mutate_dictionaries C a k is rrs muts = Inr (rrs1, fl1, muts1)"
      "mutation_argument_loop C a ks rrs1 (map2 (\<or>) fl fl1) muts1 = Inr (rrs', fl', muts')"
    by (auto simp: bind_res_def split: sum.splits)
  have "updated_records rrs1 rrs'" using 2(1) m by blast
  with mutate_dictionaries_updated [OF m(1)] show ?case by (rule updated_records_trans)
qed simp

lemma batch_update_from_remove_updated:
  "batch_update_from_remove C M rrs a = Inr rrs' \<Longrightarrow> updated_records rrs rrs'"
  by (auto simp: batch_update_from_remove_def get_batch_mutation_argument_for_removal_record_def bind_res_def Let_def
      dest!: mutation_argument_loop_updated intro: updated_records_trans write_proofs_updated split: sum.splits prod.splits)

section \<open>An accepted update is a sequence of steps that spends every removed index set\<close>

definition spends :: "('d, 'm, 'p) crypto \<Rightarrow> 'm mutator_set \<Rightarrow> absolute_index_set \<Rightarrow> 'm mutator_set \<Rightarrow> bool" where
  "spends C ms a ms' \<longleftrightarrow> (\<exists>ms1 ms2 rr. (ms_step C)\<^sup>*\<^sup>* ms ms1 \<and> absolute_indices rr = a \<and> fits_window rr \<and>
     can_remove C ms1 rr = Inr True \<and> ms_remove C ms1 rr = Inr ms2 \<and> (ms_step C)\<^sup>*\<^sup>* ms2 ms')"

lemma spendsI:
  assumes "(ms_step C)\<^sup>*\<^sup>* ms ms1" "fits_window rr" "can_remove C ms1 rr = Inr True" "ms_remove C ms1 rr = Inr ms2"
    "(ms_step C)\<^sup>*\<^sup>* ms2 ms'"
  shows "spends C ms (absolute_indices rr) ms'"
  unfolding spends_def using assms by (intro exI [of _ ms1] exI [of _ ms2] exI [of _ rr] conjI) (assumption | rule refl)+

lemma spendsE:
  fixes C :: "('d, 'm, 'p) crypto"
  assumes "spends C ms a ms'"
  obtains ms1 ms2 and rr :: "'p removal_record" where "(ms_step C)\<^sup>*\<^sup>* ms ms1" "absolute_indices rr = a" "fits_window rr"
    "can_remove C ms1 rr = Inr True" "ms_remove C ms1 rr = Inr ms2" "(ms_step C)\<^sup>*\<^sup>* ms2 ms'"
  using assms unfolding spends_def by (elim exE conjE) (rule that)

lemma spends_later:
  assumes "spends C ms a ms'" "(ms_step C)\<^sup>*\<^sup>* ms' ms''"
  shows "spends C ms a ms''"
  using assms(1)
proof (cases rule: spendsE)
  case (1 ms1 ms2 rr)
  from spendsI [OF 1(1,3,4,5) rtranclp_trans [OF 1(6) assms(2)]] 1(2) show ?thesis by simp
qed

lemma spends_earlier:
  assumes "(ms_step C)\<^sup>*\<^sup>* ms0 ms" "spends C ms a ms'"
  shows "spends C ms0 a ms'"
  using assms(2)
proof (cases rule: spendsE)
  case (1 ms1 ms2 rr)
  from spendsI [OF rtranclp_trans [OF assms(1) 1(1)] 1(3,4,5,6)] 1(2) show ?thesis by simp
qed

lemma apply_removals_spends:
  assumes "apply_removals C M ms rem recs valid = Inr (ms', recs', True)" "list_all fits_window rem"
  shows "valid \<and> (ms_step C)\<^sup>*\<^sup>* ms ms' \<and> (\<forall>a\<in>set (map absolute_indices rem). spends C ms a ms')"
  using assms
proof (induction "length rem" arbitrary: ms rem recs valid)
  case 0
  then show ?case by (simp add: apply_removals.simps)
next
  case (Suc n)
  then have ne: "rem \<noteq> []" by auto
  let ?a = "last rem"
  from Suc.prems(1) ne obtain rem1 recs1 ms1 where
    r: "batch_update_from_remove C M (butlast rem) ?a = Inr rem1" "can_remove C ms ?a \<noteq> Inl UnwrapFailed \<or> True"
      "ms_remove C ms ?a = Inr ms1" and can: "\<exists>can. can_remove C ms ?a = Inr can \<and>
        apply_removals C M ms1 rem1 recs1 (if \<not> can then False else valid) = Inr (ms', recs', True)"
    by (subst (asm) apply_removals.simps) (auto simp: Let_def bind_res_def split: sum.splits)
  note up = batch_update_from_remove_updated [OF r(1)]
  have fits: "list_all fits_window rem1" "fits_window ?a"
    using up Suc.prems(2) ne by (auto simp: updated_records_def list_all_iff dest: in_set_butlastD)
  have "n = length rem1" using Suc.hyps(2) batch_update_from_remove_length [OF r(1)] by simp
  with Suc.hyps(1) can fits(1) obtain c where c: "can_remove C ms ?a = Inr c" "if \<not> c then False else valid"
      "(ms_step C)\<^sup>*\<^sup>* ms1 ms'" "\<forall>a\<in>set (map absolute_indices rem1). spends C ms1 a ms'"
    by metis
  then have c': "can_remove C ms ?a = Inr True" valid by (simp_all split: if_splits)
  from remove_step [OF c'(1) fits(2) r(3)] have st: "ms_step C ms ms1" .
  have mem: "set (map absolute_indices rem1) = set (map absolute_indices (butlast rem))"
    by (rule updated_records_indices [OF up])
  have all: "set (map absolute_indices rem) = insert (absolute_indices ?a) (set (map absolute_indices (butlast rem)))"
    by (subst append_butlast_last_id [OF ne, symmetric]) (simp del: append_butlast_last_id)
  have later: "spends C ms a ms'" if "a \<in> set (map absolute_indices rem1)" for a
    by (rule spends_earlier [OF r_into_rtranclp [of "ms_step C", OF st] bspec [OF c(4) that]])
  have "spends C ms (absolute_indices ?a) ms'" by (rule spendsI [OF rtranclp.rtrancl_refl fits(2) c'(1) r(3) c(3)])
  then have "spends C ms a ms'" if "a \<in> set (map absolute_indices rem)" for a
    using that c(4) later [of a] unfolding all by (elim insertE) (simp_all only: mem)
  moreover have "(ms_step C)\<^sup>*\<^sup>* ms ms'" using st c(3) by (rule converse_rtranclp_into_rtranclp)
  ultimately show ?case using c'(2) by simp
qed

lemma ms_remove_aocl: "ms_remove C ms rr = Inr ms' \<Longrightarrow> aocl ms' = aocl ms"
  by (auto simp: ms_remove_def remove_helper_def Let_def bind_res_def split: sum.splits prod.splits)

lemma apply_removals_aocl: "apply_removals C M ms rem recs valid = Inr (ms', recs', valid') \<Longrightarrow> aocl ms' = aocl ms"
proof (induction C M ms rem recs valid rule: apply_removals.induct)
  case (1 C M ms rem recs valid)
  show ?case
  proof (cases "rem = []")
    case True
    then show ?thesis using 1(2) by (simp add: apply_removals.simps)
  next
    case False
    with 1(2) obtain rem1 recs1 c ms1 where "batch_update_from_remove C M (butlast rem) (last rem) = Inr rem1"
        "ms_remove C ms (last rem) = Inr ms1"
        "apply_removals C M ms1 rem1 recs1 (if \<not> c then False else valid) = Inr (ms', recs', valid')"
      by (subst (asm) apply_removals.simps) (auto simp: Let_def bind_res_def split: sum.splits)
    with 1(1) [OF False refl] show ?thesis using ms_remove_aocl by metis
  qed
qed

context mutator_set_crypto
begin

text \<open>Two spends in one history never spend the same index set.\<close>

lemma spends_disjoint:
  assumes "(ms_step C)\<^sup>*\<^sup>* (ms_default C) ms" "spends C ms a ms1" "(ms_step C)\<^sup>*\<^sup>* ms1 ms2" "spends C ms2 b ms3"
  shows "a \<noteq> b"
  using assms(2)
proof (cases rule: spendsE)
  case s1: (1 msa msb rr)
  show ?thesis using assms(4)
  proof (cases rule: spendsE)
    case s2: (1 msc msd rr')
    have "(ms_step C)\<^sup>*\<^sup>* (ms_default C) msa" using assms(1) s1(1) by (rule rtranclp_trans)
    moreover have "(ms_step C)\<^sup>*\<^sup>* msb msc" using rtranclp_trans [OF rtranclp_trans [OF s1(6) assms(3)] s2(1)] .
    ultimately have "\<not> set (ais_to_array (absolute_indices rr')) \<subseteq> set (ais_to_array (absolute_indices rr))"
      using removed_stays_removed [OF _ s1(4,3,5)] s2(4) by blast
    then show ?thesis using s1(2) s2(2) by auto
  qed
qed

lemma apply_additions_steps:
  assumes "apply_additions C M ms remaining records as = Inr (ms', remaining', records')" "represents C leafs ms cs"
    and "length (leafs (aocl ms)) + length as < 2 ^ 63"
  shows "(ms_step C)\<^sup>*\<^sup>* ms ms' \<and> updated_records remaining remaining' \<and> updated_records records records' \<and>
    leafs (aocl ms') = leafs (aocl ms) @ map canonical_commitment as"
  using assms
proof (induction as arbitrary: ms remaining records cs)
  case (Cons r as)
  from Cons.prems(1) obtain rem1 recs1 where b: "batch_update_from_addition C M remaining ms = Inr rem1"
      "batch_update_from_addition C M records ms = Inr recs1"
      "apply_additions C M (ms_add C ms r) rem1 recs1 as = Inr (ms', remaining', records')"
    by (auto simp: bind_res_def split: sum.splits)
  have bound: "length (leafs (aocl ms)) < 2 ^ 63 - 1" using Cons.prems(3) by simp
  have "unat (num_leafs C (aocl ms)) < 2 ^ 63 - 1"
    using bound num_leafs_length [of "aocl ms"] by simp
  then have step: "ms_step C ms (ms_add C ms r)" by (rule add_step)
  obtain cs' where rep: "represents C leafs (ms_add C ms r) cs'"
    and leafs': "leafs (aocl (ms_add C ms r)) = leafs (aocl ms) @ [canonical_commitment r]"
    using add_represents [OF Cons.prems(2) bound] by blast
  have "length (leafs (aocl (ms_add C ms r))) + length as < 2 ^ 63" using Cons.prems(3) by (simp add: leafs')
  from Cons.IH [OF b(3) rep this]
  have ih: "(ms_step C)\<^sup>*\<^sup>* (ms_add C ms r) ms'" "updated_records rem1 remaining'" "updated_records recs1 records'"
    "leafs (aocl ms') = leafs (aocl (ms_add C ms r)) @ map canonical_commitment as" by simp_all
  show ?case
    using converse_rtranclp_into_rtranclp [of "ms_step C", OF step ih(1)]
      updated_records_trans [OF batch_update_from_addition_updated [OF b(1)] ih(2)]
      updated_records_trans [OF batch_update_from_addition_updated [OF b(2)] ih(3)] ih(4) leafs' by simp
qed simp

lemma apply_removals_distinct:
  assumes "apply_removals C M ms rem recs valid = Inr (ms', recs', True)" "list_all fits_window rem"
    and "(ms_step C)\<^sup>*\<^sup>* (ms_default C) ms"
  shows "distinct (map absolute_indices rem)"
  using assms
proof (induction "length rem" arbitrary: ms rem recs valid)
  case (Suc n)
  then have ne: "rem \<noteq> []" by auto
  let ?a = "last rem"
  from Suc.prems(1) ne obtain rem1 recs1 ms1 c where
    r: "batch_update_from_remove C M (butlast rem) ?a = Inr rem1" "can_remove C ms ?a = Inr c"
      "ms_remove C ms ?a = Inr ms1"
      "apply_removals C M ms1 rem1 recs1 (if \<not> c then False else valid) = Inr (ms', recs', True)"
    by (subst (asm) apply_removals.simps) (auto simp: Let_def bind_res_def split: sum.splits)
  note up = batch_update_from_remove_updated [OF r(1)]
  have fits: "list_all fits_window rem1" "fits_window ?a"
    using up Suc.prems(2) ne by (auto simp: updated_records_def list_all_iff dest: in_set_butlastD)
  have n: "n = length rem1" using Suc.hyps(2) batch_update_from_remove_length [OF r(1)] by simp
  note later = apply_removals_spends [OF r(4) fits(1)]
  then have c by (auto split: if_splits)
  with r(2) have can: "can_remove C ms ?a = Inr True" by simp
  have step: "(ms_step C)\<^sup>*\<^sup>* ms ms1" using remove_step [OF can fits(2) r(3)] by (rule r_into_rtranclp)
  have "distinct (map absolute_indices rem1)"
    using Suc.hyps(1) [OF n r(4) fits(1) rtranclp_trans [OF Suc.prems(3) step]] .
  then have d: "distinct (map absolute_indices (butlast rem))" using up by (simp add: updated_records_def)
  have "spends C ms (absolute_indices ?a) ms1"
    using spendsI [OF rtranclp.rtrancl_refl fits(2) can r(3) rtranclp.rtrancl_refl] .
  then have "absolute_indices ?a \<notin> set (map absolute_indices rem1)"
    using later spends_disjoint [OF Suc.prems(3) _ rtranclp.rtrancl_refl] by blast
  then have "absolute_indices ?a \<notin> set (map absolute_indices (butlast rem))"
    unfolding updated_records_indices [OF up] .
  with d have "distinct (map absolute_indices (butlast rem @ [?a]))" by simp
  then show ?case using ne by simp
qed simp

text \<open>What a successful update does to a reachable mutator set.\<close>

lemma update_accepted:
  assumes "(ms_step C)\<^sup>*\<^sup>* (ms_default C) ms" "apply_to_accumulator C M u ms = Inr (ms', Inr ())"
    and "list_all fits_window (removals u)" "length (leafs (aocl ms)) + length (additions u) < 2 ^ 63"
  shows "(ms_step C)\<^sup>*\<^sup>* ms ms'" "distinct (map absolute_indices (removals u))"
    "\<forall>a\<in>set (map absolute_indices (removals u)). spends C ms a ms'"
    "leafs (aocl ms') = leafs (aocl ms) @ map canonical_commitment (additions u)"
proof -
  obtain cs where rep: "represents C leafs ms cs" using reachable_represents [OF assms(1)] by blast
  from assms(2) obtain ms1 rem recs recs' where
    ap: "apply_additions C M ms (rev (removals u)) [] (additions u) = Inr (ms1, rem, recs)"
      "apply_removals C M ms1 rem recs True = Inr (ms', recs', True)"
    by (auto simp: apply_to_accumulator_def apply_to_accumulator_and_records_inner_def bind_res_def
        split: sum.splits if_splits)
  from apply_additions_steps [OF ap(1) rep assms(4)]
  have ad: "(ms_step C)\<^sup>*\<^sup>* ms ms1" "updated_records (rev (removals u)) rem" by simp_all
  have fits: "list_all fits_window rem" using ad(2) assms(3) by (simp add: updated_records_def)
  have idx: "map absolute_indices rem = rev (map absolute_indices (removals u))"
    using ad(2) by (simp add: updated_records_def rev_map)
  note rm = apply_removals_spends [OF ap(2) fits]
  from rm show "(ms_step C)\<^sup>*\<^sup>* ms ms'" using ad(1) by (blast intro: rtranclp_trans)
  show "distinct (map absolute_indices (removals u))"
    using apply_removals_distinct [OF ap(2) fits rtranclp_trans [OF assms(1) ad(1)]] unfolding idx by simp
  have "set (map absolute_indices (removals u)) = set (map absolute_indices rem)" unfolding idx by simp
  then show "\<forall>a\<in>set (map absolute_indices (removals u)). spends C ms a ms'"
    using rm spends_earlier [OF ad(1)] by (simp only: idx) blast
  show "leafs (aocl ms') = leafs (aocl ms) @ map canonical_commitment (additions u)"
    using apply_additions_steps [OF ap(1) rep assms(4)] apply_removals_aocl [OF ap(2)] by simp
qed

end

context mutator_set_crypto
begin

text \<open>The assertion of \<^verbatim>\<open>batch_update_from_addition\<close> holds in every mutator set that represents a filter, so additions
  alone never panic.\<close>

lemma slide_index:
  assumes "represents C leafs ms cs" "window_slides (num_leafs C (aocl ms))"
  shows "num_leafs C (aocl ms) div ucast BATCH_SIZE - 1 = num_leafs C (swbf_inactive ms)"
proof (rule word_eq_unatI)
  let ?n = "num_leafs C (aocl ms)"
  have n: "unat ?n = length (leafs (aocl ms))" "unat (num_leafs C (swbf_inactive ms)) = length cs"
    using assms(1) inactive_length [OF assms(1)] num_leafs_length by (simp_all add: represents_def)
  have b: "unat (ucast BATCH_SIZE :: u64) = 8" by (simp add: BATCH_SIZE_def)
  have "unat ?n mod 8 = 0" "unat ?n \<noteq> 0"
    using assms(2) b by (auto simp: window_slides_def unat_mod [symmetric] simp flip: unat_0_iff)
      (metis b unat_0 unat_mod)
  then obtain k where k: "unat ?n = 8 * Suc k" by (metis mod_0_imp_dvd dvd_def mult_0_right not0_implies_Suc)
  then have d: "unat (?n div ucast BATCH_SIZE) = Suc k" by (simp add: unat_div b)
  then have "1 \<le> ?n div ucast BATCH_SIZE" by (simp add: word_le_nat_alt)
  from unat_sub_le [OF this] d have "unat (?n div ucast BATCH_SIZE - 1) = k" by simp
  moreover have "length cs = k" using assms(1) k n(1) by (simp add: represents_def)
  ultimately show "unat (?n div ucast BATCH_SIZE - 1) = unat (num_leafs C (swbf_inactive ms))" using n(2) by simp
qed

lemma batch_update_from_addition_total:
  assumes "represents C leafs ms cs"
  shows "\<exists>rrs'. batch_update_from_addition C M rrs ms = Inr rrs'"
  using slide_index [OF assms] by (auto simp: batch_update_from_addition_def Let_def assert_then_def)

lemma apply_additions_total:
  assumes "represents C leafs ms cs" "length (leafs (aocl ms)) + length as < 2 ^ 63"
  shows "\<exists>ms' remaining' records'. apply_additions C M ms remaining records as = Inr (ms', remaining', records')"
  using assms
proof (induction as arbitrary: ms cs remaining records)
  case (Cons r as)
  obtain rem1 recs1 where b: "batch_update_from_addition C M remaining ms = Inr rem1"
      "batch_update_from_addition C M records ms = Inr recs1"
    using batch_update_from_addition_total [OF Cons.prems(1)] by metis
  have "length (leafs (aocl ms)) < 2 ^ 63 - 1" using Cons.prems(2) by simp
  then obtain cs' where rep: "represents C leafs (ms_add C ms r) cs'"
    and leafs': "leafs (aocl (ms_add C ms r)) = leafs (aocl ms) @ [canonical_commitment r]"
    using add_represents [OF Cons.prems(1)] by blast
  have "length (leafs (aocl (ms_add C ms r))) + length as < 2 ^ 63" using Cons.prems(2) by (simp add: leafs')
  from Cons.IH [OF rep this] b show ?case by (simp add: bind_res_def)
qed simp

lemma additions_accepted:
  assumes "represents C leafs ms cs" "length (leafs (aocl ms)) + length as < 2 ^ 63"
  shows "\<exists>ms'. apply_to_accumulator C M \<lparr>removals = [], additions = as\<rparr> ms = Inr (ms', Inr ())"
proof -
  obtain ms' rem recs where ap: "apply_additions C M ms [] [] as = Inr (ms', rem, recs)"
    using apply_additions_total [OF assms] by metis
  have "updated_records [] rem" using apply_additions_steps [OF ap assms] by blast
  then have "rem = []" by (simp add: updated_records_def)
  with ap show ?thesis
    by (simp add: apply_to_accumulator_def apply_to_accumulator_and_records_inner_def bind_res_def apply_removals.simps)
qed

end

section \<open>Properties\<close>


definition no_mp_ops :: "('d, 'm, unit) mp_ops" where
  "no_mp_ops = \<lparr>batch_update_from_append = (\<lambda>ps _ _ _ _. ps), batch_update_from_batch_leaf_mutation = (\<lambda>ps _ _. ps)\<rparr>"

lemma one_position_update:
  assumes "can_remove sym_crypto (ms_default sym_crypto) (one_position_record x) = Inr True"
    "ms_remove sym_crypto (ms_default sym_crypto) (one_position_record x) = Inr ms'"
  shows "apply_to_accumulator sym_crypto no_mp_ops \<lparr>removals = [one_position_record x], additions = []\<rparr>
    (ms_default sym_crypto) = Inr (ms', Inr ())"
proof -
  have none: "batch_update_from_remove sym_crypto no_mp_ops [] a = Inr []" for a
  proof -
    have "mutation_argument_loop sym_crypto a ks [] [] [] = Inr ([], [], [])" for ks :: "(u64 \<times> u128 list) list"
      by (induction ks) (auto simp: bind_res_def)
    then show ?thesis
      by (simp add: batch_update_from_remove_def get_batch_mutation_argument_for_removal_record_def bind_res_def Let_def)
  qed
  have "apply_removals sym_crypto no_mp_ops (ms_default sym_crypto) [one_position_record x] [] True = Inr (ms', [], True)"
    by (subst apply_removals.simps) (simp add: none assms bind_res_def apply_removals.simps)
  then show ?thesis
    by (simp add: apply_to_accumulator_def apply_to_accumulator_and_records_inner_def bind_res_def)
qed


end
