(* ===== verification/Block_Data.thy ===== *)
theory Block_Data
  imports Network Pow Transaction_Kernel Mutator_Set_Update Removal_Record_Packing
begin

text \<open>
  The data of a block and its hash: \<^verbatim>\<open>block_header.rs\<close>, \<^verbatim>\<open>block_body.rs\<close>, \<^verbatim>\<open>block_kernel.rs\<close>, \<^verbatim>\<open>block_appendix.rs\<close>,
  \<^verbatim>\<open>guesser_receiver_data.rs\<close> of \<^verbatim>\<open>consensus/src/block\<close>, the struct of \<^verbatim>\<open>mod.rs\<close>, and
  \<^verbatim>\<open>consensus/src/proof_abstractions/mast_hash.rs\<close>.

  Everything that belongs to a library is a field of the parameter \<open>block_env\<close>: Tip5, the field, the MMRs, the
  Merkle trees of \<^verbatim>\<open>twenty-first\<close>, the derived encodings (\<^verbatim>\<open>BFieldCodec\<close>), the claims and the verification of
  Triton VM. The caches of hashes (\<^verbatim>\<open>OnceLock\<close>) are left out: every modification resets them.
\<close>

section \<open>Data\<close>

record 'd guesser_receiver_data =
  receiver_digest :: 'd
  lock_script_hash :: 'd

record ('d, 'f) block_header =
  version :: 'f
  height :: "'f block_height"
  prev_block_digest :: 'd
  bh_timestamp :: "'f timestamp"
  bh_pow :: "'d pow"
  cumulative_proof_of_work :: proof_of_work
  bh_difficulty :: difficulty
  guesser_receiver_data :: "'d guesser_receiver_data"

record ('d, 'm, 'p, 'f) block_body =
  body_kernel :: "('d, 'p, 'f) transaction_kernel"
  mutator_set_accumulator :: "'m mutator_set"
  lock_free_mmr_accumulator :: 'm
  block_mmr_accumulator :: 'm

datatype 'c block_appendix = BlockAppendix (claims: "'c list")

record ('d, 'm, 'p, 'f, 'c) block_kernel =
  bk_header :: "('d, 'f) block_header"
  bk_body :: "('d, 'm, 'p, 'f) block_body"
  bk_appendix :: "'c block_appendix"

datatype 's block_proof = GenesisProof | InvalidProof | BlockSingleProof 's

record ('d, 'm, 'p, 'f, 'c, 's) block =
  block_kernel :: "('d, 'm, 'p, 'f, 'c) block_kernel"
  block_proof :: "'s block_proof"

record ('d, 'f) coin =
  type_script_hash :: 'd
  coin_state :: "'f list"

record ('d, 'f) utxo =
  utxo_lock_script_hash :: 'd
  utxo_coins :: "('d, 'f) coin list"

abbreviation header :: "('d, 'm, 'p, 'f, 'c, 's) block \<Rightarrow> ('d, 'f) block_header" where
  "header b \<equiv> bk_header (block_kernel b)"

abbreviation body :: "('d, 'm, 'p, 'f, 'c, 's) block \<Rightarrow> ('d, 'm, 'p, 'f) block_body" where
  "body b \<equiv> bk_body (block_kernel b)"

abbreviation appendix :: "('d, 'm, 'p, 'f, 'c, 's) block \<Rightarrow> 'c block_appendix" where
  "appendix b \<equiv> bk_appendix (block_kernel b)"

abbreviation block_tx :: "('d, 'm, 'p, 'f, 'c, 's) block \<Rightarrow> ('d, 'p, 'f) transaction_kernel" where
  "block_tx b \<equiv> body_kernel (body b)"

section \<open>Parameters\<close>

record ('d, 'm, 'p, 'f, 'c, 's) block_env =
  env_tip5 :: "('d, 'f) tip5"
  env_field :: "'f bfield"
  env_crypto :: "('d, 'm, 'p) crypto"
  env_proofs :: "('d, 'm, 'p) mp_ops"
  env_root :: "'d list \<Rightarrow> 'd"
  env_frugal_root :: "'d list \<Rightarrow> 'd"
  env_auth_path :: "'d list \<Rightarrow> nat \<Rightarrow> 'd list"
  enc_bfe :: "'f \<Rightarrow> 'f list"
  enc_digest :: "'d \<Rightarrow> 'f list"
  enc_height :: "'f block_height \<Rightarrow> 'f list"
  enc_timestamp :: "'f timestamp \<Rightarrow> 'f list"
  enc_pow :: "'d pow \<Rightarrow> 'f list"
  enc_cumulative :: "proof_of_work \<Rightarrow> 'f list"
  enc_difficulty :: "difficulty \<Rightarrow> 'f list"
  enc_receiver :: "'d guesser_receiver_data \<Rightarrow> 'f list"
  enc_mutator_set :: "'m mutator_set \<Rightarrow> 'f list"
  enc_mmr :: "'m \<Rightarrow> 'f list"
  enc_appendix :: "'c block_appendix \<Rightarrow> 'f list"
  enc_proof :: "'s block_proof \<Rightarrow> 'f list"
  enc_inputs :: "'p removal_record list \<Rightarrow> 'f list"
  enc_outputs :: "'d addition_record list \<Rightarrow> 'f list"
  enc_announcements :: "'f announcement list \<Rightarrow> 'f list"
  enc_amount :: "native_currency_amount \<Rightarrow> 'f list"
  enc_coinbase :: "native_currency_amount option \<Rightarrow> 'f list"
  enc_bool :: "bool \<Rightarrow> 'f list"
  enc_block :: "('d, 'm, 'p, 'f, 'c, 's) block \<Rightarrow> 'f list"
  hash_utxo :: "('d, 'f) utxo \<Rightarrow> 'd"
  native_currency_hash :: 'd
  single_proof_claim :: "'d \<Rightarrow> consensus_rule_set \<Rightarrow> 'c"
  block_program_verify :: "('d, 'm, 'p, 'f) block_body \<Rightarrow> 'c block_appendix \<Rightarrow> 's \<Rightarrow> network \<Rightarrow> bool"
  env_rrl :: "('d, 'p) rrl_ops"
  digest_to_nat :: "'d \<Rightarrow> nat"
  digest_of_nat :: "nat \<Rightarrow> 'd option"
  max_digest :: 'd

text \<open>The inputs of a transaction, unpacked; which of the errors of \<^verbatim>\<open>RemovalRecordList::try_unpack\<close> it was does not matter
  to its callers here.\<close>

definition try_unpack_inputs ::
  "('d, 'm, 'p, 'f, 'c, 's) block_env \<Rightarrow> 'p removal_record list \<Rightarrow> 'p removal_record list option res" where
  "try_unpack_inputs E packed =
     bind_res (rrl_try_unpack (env_crypto E) (env_rrl E) packed)
       (\<lambda>r. Inr (case r of Inl _ \<Rightarrow> None | Inr inputs \<Rightarrow> Some inputs))"

text \<open>The Merkle trees of the library: over a power of two of leafs the root is the hash of the two halves, the
  authentication path of an index lists the siblings from the leaf up, and the frugal root is the root.\<close>

locale merkle_laws =
  fixes E :: "('d, 'm, 'p, 'f, 'c, 's) block_env"
  assumes root_leaf: "env_root E [d] = d"
    and root_halves: "length ds = 2 ^ n \<Longrightarrow> length es = 2 ^ n \<Longrightarrow>
      env_root E (ds @ es) = tip5_pair (env_tip5 E) (env_root E ds) (env_root E es)"
    and frugal_root: "length ds = 2 ^ n \<Longrightarrow> env_frugal_root E ds = env_root E ds"
    and path_leaf: "env_auth_path E [d] 0 = []"
    and path_left: "length ds = 2 ^ n \<Longrightarrow> length es = 2 ^ n \<Longrightarrow> i < 2 ^ n \<Longrightarrow>
      env_auth_path E (ds @ es) i = env_auth_path E ds i @ [env_root E es]"
    and path_right: "length ds = 2 ^ n \<Longrightarrow> length es = 2 ^ n \<Longrightarrow> i < 2 ^ n \<Longrightarrow>
      env_auth_path E (ds @ es) (2 ^ n + i) = env_auth_path E es i @ [env_root E ds]"
    and digest_encoding: "enc_digest E d = tip5_values (env_tip5 E) d"

section \<open>MAST hashes\<close>

definition mast_leafs :: "('d, 'm, 'p, 'f, 'c, 's) block_env \<Rightarrow> 'f list list \<Rightarrow> 'd list" where
  "mast_leafs E sequences =
     pad_pow2 (tip5_default (env_tip5 E)) (map (tip5_varlen (env_tip5 E)) sequences)"

definition mast_hash :: "('d, 'm, 'p, 'f, 'c, 's) block_env \<Rightarrow> 'f list list \<Rightarrow> 'd" where
  "mast_hash E sequences = env_root E (mast_leafs E sequences)"

definition mast_path :: "('d, 'm, 'p, 'f, 'c, 's) block_env \<Rightarrow> 'f list list \<Rightarrow> nat \<Rightarrow> 'd list" where
  "mast_path E sequences field = env_auth_path E (mast_leafs E sequences) field"

definition kernel_mast_sequences ::
  "('d, 'm, 'p, 'f, 'c, 's) block_env \<Rightarrow> ('d, 'p, 'f) transaction_kernel \<Rightarrow> 'f list list" where
  "kernel_mast_sequences E k =
     [enc_inputs E (tk_inputs k), enc_outputs E (tk_outputs k), enc_announcements E (announcements k),
      enc_amount E (fee k), enc_coinbase E (coinbase k), enc_timestamp E (tk_timestamp k),
      enc_digest E (mutator_set_hash k), enc_bool E (merge_bit k)]"

definition header_mast_sequences ::
  "('d, 'm, 'p, 'f, 'c, 's) block_env \<Rightarrow> ('d, 'f) block_header \<Rightarrow> 'f list list" where
  "header_mast_sequences E h =
     [enc_bfe E (version h), enc_height E (height h), enc_digest E (prev_block_digest h),
      enc_timestamp E (bh_timestamp h), enc_pow E (bh_pow h), enc_cumulative E (cumulative_proof_of_work h),
      enc_difficulty E (bh_difficulty h), enc_receiver E (guesser_receiver_data h)]"

definition body_mast_sequences ::
  "('d, 'm, 'p, 'f, 'c, 's) block_env \<Rightarrow> ('d, 'm, 'p, 'f) block_body \<Rightarrow> 'f list list" where
  "body_mast_sequences E b =
     [enc_digest E (mast_hash E (kernel_mast_sequences E (body_kernel b))),
      enc_mutator_set E (mutator_set_accumulator b), enc_mmr E (lock_free_mmr_accumulator b),
      enc_mmr E (block_mmr_accumulator b)]"

definition block_kernel_mast_sequences ::
  "('d, 'm, 'p, 'f, 'c, 's) block_env \<Rightarrow> ('d, 'm, 'p, 'f, 'c) block_kernel \<Rightarrow> 'f list list" where
  "block_kernel_mast_sequences E k =
     [enc_digest E (mast_hash E (header_mast_sequences E (bk_header k))),
      enc_digest E (mast_hash E (body_mast_sequences E (bk_body k))), enc_appendix E (bk_appendix k)]"

definition block_mast_sequences ::
  "('d, 'm, 'p, 'f, 'c, 's) block_env \<Rightarrow> ('d, 'm, 'p, 'f, 'c, 's) block \<Rightarrow> 'f list list" where
  "block_mast_sequences E b =
     [enc_digest E (mast_hash E (block_kernel_mast_sequences E (block_kernel b))), enc_proof E (block_proof b)]"

definition block_hash :: "('d, 'm, 'p, 'f, 'c, 's) block_env \<Rightarrow> ('d, 'm, 'p, 'f, 'c, 's) block \<Rightarrow> 'd" where
  "block_hash E b = mast_hash E (block_mast_sequences E b)"

text \<open>The discriminants of the fields \<^verbatim>\<open>Pow\<close>, \<^verbatim>\<open>Header\<close> and \<^verbatim>\<open>Kernel\<close> are 4, 0 and 0.\<close>

definition block_pow_mast_paths ::
  "('d, 'm, 'p, 'f, 'c, 's) block_env \<Rightarrow> ('d, 'm, 'p, 'f, 'c, 's) block \<Rightarrow> 'd pow_mast_paths res" where
  "block_pow_mast_paths E b =
     bind_res (array_of_len 3 (mast_path E (header_mast_sequences E (header b)) 4)) (\<lambda>pow.
     bind_res (array_of_len 2 (mast_path E (block_kernel_mast_sequences E (block_kernel b)) 0)) (\<lambda>header.
     bind_res (array_of_len 1 (mast_path E (block_mast_sequences E b) 0)) (\<lambda>kernel.
       Inr \<lparr>pmp_pow = pow, pmp_header = header, pmp_kernel = kernel\<rparr>)))"

section \<open>Headers with a hash witness\<close>

record 'd header_witness =
  body_leaf :: 'd
  appendix_leaf :: 'd
  proof_leaf :: 'd

record ('d, 'f) header_with_witness =
  hw_header :: "('d, 'f) block_header"
  hw_witness :: "'d header_witness"

definition witness_of_block ::
  "('d, 'm, 'p, 'f, 'c, 's) block_env \<Rightarrow> ('d, 'm, 'p, 'f, 'c, 's) block \<Rightarrow> 'd header_witness" where
  "witness_of_block E b =
     \<lparr>body_leaf = tip5_varlen (env_tip5 E) (enc_digest E (mast_hash E (body_mast_sequences E (body b)))),
      appendix_leaf = tip5_varlen (env_tip5 E) (enc_appendix E (appendix b)),
      proof_leaf = tip5_varlen (env_tip5 E) (enc_proof E (block_proof b))\<rparr>"

definition header_witness_hash ::
  "('d, 'm, 'p, 'f, 'c, 's) block_env \<Rightarrow> ('d, 'f) header_with_witness \<Rightarrow> 'd" where
  "header_witness_hash E hw =
     (let block_header_leaf =
            tip5_varlen (env_tip5 E) (enc_digest E (mast_hash E (header_mast_sequences E (hw_header hw))));
          kernel_leafs = [block_header_leaf, body_leaf (hw_witness hw), appendix_leaf (hw_witness hw), tip5_default (env_tip5 E)];
          kernel_hash = env_frugal_root E kernel_leafs;
          block_leafs = [tip5_varlen (env_tip5 E) (enc_digest E kernel_hash), proof_leaf (hw_witness hw)]
      in env_frugal_root E block_leafs)"

definition is_successor_of ::
  "('d, 'm, 'p, 'f, 'c, 's) block_env \<Rightarrow> ('d, 'f) header_with_witness \<Rightarrow> ('d, 'f) header_with_witness \<Rightarrow> bool" where
  "is_successor_of E self parent \<longleftrightarrow> prev_block_digest (hw_header self) = header_witness_hash E parent"

section \<open>Setters\<close>

definition set_header_guesser_receiver_data ::
  "('d, 'm, 'p, 'f, 'c, 's) block \<Rightarrow> 'd \<Rightarrow> 'd \<Rightarrow> ('d, 'm, 'p, 'f, 'c, 's) block" where
  "set_header_guesser_receiver_data b privacy_digest lock_script_hash' =
     b\<lparr>block_kernel := (block_kernel b)\<lparr>bk_header := (header b)\<lparr>guesser_receiver_data :=
       \<lparr>receiver_digest = privacy_digest, lock_script_hash = lock_script_hash'\<rparr>\<rparr>\<rparr>\<rparr>"

definition set_header_timestamp_and_difficulty ::
  "('d, 'm, 'p, 'f, 'c, 's) block \<Rightarrow> 'f timestamp \<Rightarrow> difficulty \<Rightarrow> ('d, 'm, 'p, 'f, 'c, 's) block" where
  "set_header_timestamp_and_difficulty b t d =
     b\<lparr>block_kernel := (block_kernel b)\<lparr>bk_header := (header b)\<lparr>bh_timestamp := t, bh_difficulty := d\<rparr>\<rparr>\<rparr>"

definition set_header_pow ::
  "('d, 'm, 'p, 'f, 'c, 's) block \<Rightarrow> 'd pow \<Rightarrow> ('d, 'm, 'p, 'f, 'c, 's) block" where
  "set_header_pow b pow = b\<lparr>block_kernel := (block_kernel b)\<lparr>bk_header := (header b)\<lparr>bh_pow := pow\<rparr>\<rparr>\<rparr>"

section \<open>Guesser fees and mutator set updates\<close>

datatype block_validation_error =
    BlockHeightError | PrevBlockDigest | BlockMmrUpdate | MinimumBlockTime | DifficultyError
  | CumulativeProofOfWork | FutureDating
  | AppendixMissingClaim | AppendixTooLarge | ProofQuality | ProofValidity | MaxSize
  | RemovalRecordsUnpackFailure | RemovalRecordsValidity | RemovalRecordsUniqueness | MutatorSetUpdateImpossible
  | MutatorSetUpdateIntegrity | TransactionTimestamp | CoinbaseTooBig | NegativeCoinbase | NegativeFee
  | TooManyInputs | TooManyOutputs | TooManyAnnouncements | TransactionMutatorSetMismatch

definition total_guesser_reward ::
  "('d, 'm, 'p, 'f) block_body \<Rightarrow> block_validation_error + native_currency_amount" where
  "total_guesser_reward b = (let r = fee (body_kernel b) in if is_negative r then Inl NegativeFee else Inr r)"

definition to_native_coins ::
  "('d, 'm, 'p, 'f, 'c, 's) block_env \<Rightarrow> native_currency_amount \<Rightarrow> ('d, 'f) coin list" where
  "to_native_coins E amount = [\<lparr>type_script_hash = native_currency_hash E, coin_state = enc_amount E amount\<rparr>]"

definition guesser_fee_utxos ::
  "('d, 'm, 'p, 'f, 'c, 's) block_env \<Rightarrow> ('d, 'm, 'p, 'f, 'c) block_kernel
     \<Rightarrow> block_validation_error + ('d, 'f) utxo list" where
  "guesser_fee_utxos E k =
     (if is_genesis (env_field E) (height (bk_header k)) then Inr []
      else bind_res (total_guesser_reward (bk_body k)) (\<lambda>total_guesser_reward'.
        let coins_unlocked = to_native_coins E total_guesser_reward';
            lock_script_hash' = lock_script_hash (guesser_receiver_data (bk_header k))
        in Inr [\<lparr>utxo_lock_script_hash = lock_script_hash', utxo_coins = coins_unlocked\<rparr>]))"

definition kernel_guesser_fee_addition_records ::
  "('d, 'm, 'p, 'f, 'c, 's) block_env \<Rightarrow> ('d, 'm, 'p, 'f, 'c) block_kernel \<Rightarrow> 'd
     \<Rightarrow> block_validation_error + 'd addition_record list" where
  "kernel_guesser_fee_addition_records E k hash =
     bind_res (guesser_fee_utxos E k) (\<lambda>utxos. Inr (map (\<lambda>utxo.
       let item = hash_utxo E utxo;
           sender_randomness' = hash;
           receiver_digest' = receiver_digest (guesser_receiver_data (bk_header k))
       in commit (env_crypto E) item sender_randomness' receiver_digest') utxos))"

definition kernel_all_addition_records ::
  "('d, 'm, 'p, 'f, 'c, 's) block_env \<Rightarrow> ('d, 'm, 'p, 'f, 'c) block_kernel \<Rightarrow> 'd
     \<Rightarrow> block_validation_error + 'd addition_record list" where
  "kernel_all_addition_records E k hash =
     bind_res (kernel_guesser_fee_addition_records E k hash) (\<lambda>guesser.
       Inr (tk_outputs (body_kernel (bk_body k)) @ guesser))"

definition kernel_mutator_set_update ::
  "('d, 'm, 'p, 'f, 'c, 's) block_env \<Rightarrow> ('d, 'm, 'p, 'f, 'c) block_kernel \<Rightarrow> 'd
     \<Rightarrow> (block_validation_error + ('d, 'p) mutator_set_update) res" where
  "kernel_mutator_set_update E k hash =
     (case kernel_all_addition_records E k hash of
        Inl e \<Rightarrow> Inr (Inl e)
      | Inr outputs \<Rightarrow> bind_res (try_unpack_inputs E (tk_inputs (body_kernel (bk_body k)))) (\<lambda>inputs.
          case inputs of
            None \<Rightarrow> Inr (Inl RemovalRecordsUnpackFailure)
          | Some inputs \<Rightarrow> Inr (Inr \<lparr>removals = inputs, additions = outputs\<rparr>)))"

definition guesser_fee_addition_records ::
  "('d, 'm, 'p, 'f, 'c, 's) block_env \<Rightarrow> ('d, 'm, 'p, 'f, 'c, 's) block
     \<Rightarrow> block_validation_error + 'd addition_record list" where
  "guesser_fee_addition_records E b = kernel_guesser_fee_addition_records E (block_kernel b) (block_hash E b)"

definition all_addition_records ::
  "('d, 'm, 'p, 'f, 'c, 's) block_env \<Rightarrow> ('d, 'm, 'p, 'f, 'c, 's) block
     \<Rightarrow> block_validation_error + 'd addition_record list" where
  "all_addition_records E b = kernel_all_addition_records E (block_kernel b) (block_hash E b)"

definition block_mutator_set_update ::
  "('d, 'm, 'p, 'f, 'c, 's) block_env \<Rightarrow> ('d, 'm, 'p, 'f, 'c, 's) block
     \<Rightarrow> (block_validation_error + ('d, 'p) mutator_set_update) res" where
  "block_mutator_set_update E b = kernel_mutator_set_update E (block_kernel b) (block_hash E b)"

definition body_mutator_set_after ::
  "('d, 'm, 'p, 'f, 'c, 's) block_env \<Rightarrow> ('d, 'm, 'p, 'f) block_body \<Rightarrow> 'd addition_record list \<Rightarrow> 'm mutator_set res" where
  "body_mutator_set_after E b guesser_records =
     bind_res (apply_to_accumulator (env_crypto E) (env_proofs E) \<lparr>removals = [], additions = guesser_records\<rparr>
         (mutator_set_accumulator b))
       (\<lambda>(msa, result). case result of Inl _ \<Rightarrow> Inl UnwrapFailed | Inr _ \<Rightarrow> Inr msa)"

definition mutator_set_accumulator_after ::
  "('d, 'm, 'p, 'f, 'c, 's) block_env \<Rightarrow> ('d, 'm, 'p, 'f, 'c, 's) block
     \<Rightarrow> (block_validation_error + 'm mutator_set) res" where
  "mutator_set_accumulator_after E b =
     (case guesser_fee_addition_records E b of
        Inl e \<Rightarrow> Inr (Inl e)
      | Inr records \<Rightarrow> bind_res (body_mutator_set_after E (body b) records) (\<lambda>msa. Inr (Inr msa)))"

section \<open>The hash of a block\<close>

lemma pad_pow2_done: "length ds \<in> {1, 2, 4, 8} \<Longrightarrow> pad_pow2 d ds = ds"
  by (subst pad_pow2.simps) auto

lemma pad_pow2_three: "pad_pow2 d [x, y, z] = [x, y, z, d]"
proof -
  have "(3 :: nat) AND 2 = 2" by simp
  then show ?thesis by (subst pad_pow2.simps) (simp add: pad_pow2_done numeral_3_eq_3 numeral_2_eq_2)
qed

lemmas mast_leafs_simps = mast_leafs_def header_mast_sequences_def body_mast_sequences_def kernel_mast_sequences_def
  block_kernel_mast_sequences_def block_mast_sequences_def pad_pow2_done pad_pow2_three

context merkle_laws
begin

lemma root_two: "env_root E [a, b] = tip5_pair (env_tip5 E) a b"
  using root_halves [of "[a]" 0 "[b]"] by (simp add: root_leaf)

lemma root_four: "env_root E [a, b, c, d] = tip5_pair (env_tip5 E) (tip5_pair (env_tip5 E) a b) (tip5_pair (env_tip5 E) c d)"
  using root_halves [of "[a, b]" 1 "[c, d]"] by (simp add: root_two)

lemma root_eight: "env_root E [a, b, c, d, e, f, g, h] = tip5_pair (env_tip5 E) (env_root E [a, b, c, d]) (env_root E [e, f, g, h])"
  using root_halves [of "[a, b, c, d]" 2 "[e, f, g, h]"] by simp

lemma path_two: "env_auth_path E [a, b] 0 = [b]"
  using path_left [of "[a]" 0 "[b]" 0] by (simp add: path_leaf root_leaf)

lemma path_four: "env_auth_path E [a, b, c, d] 0 = [b, tip5_pair (env_tip5 E) c d]"
  using path_left [of "[a, b]" 1 "[c, d]" 0] by (simp add: path_two root_two)

lemma path_eight_4:
  "env_auth_path E [a, b, c, d, e, f, g, h] 4 = [f, tip5_pair (env_tip5 E) g h, env_root E [a, b, c, d]]"
  using path_right [of "[a, b, c, d]" 2 "[e, f, g, h]" 0] by (simp add: path_four)

lemma witness_hash_is_block_hash:
  "header_witness_hash E \<lparr>hw_header = header b, hw_witness = witness_of_block E b\<rparr> = block_hash E b"
proof -
  have frugal: "env_frugal_root E [x, y] = env_root E [x, y]" "env_frugal_root E [x, y, z, w] = env_root E [x, y, z, w]"
    for x y z w using frugal_root [of "[x, y]" 1] frugal_root [of "[x, y, z, w]" 2] by simp_all
  show ?thesis
    by (simp add: header_witness_hash_def witness_of_block_def block_hash_def Let_def frugal)
       (simp add: mast_hash_def mast_leafs_simps)
qed

text \<open>The paths of the proof-of-work field do not depend on the field, and with any value of it they give the hash
  of the block that has this value.\<close>

lemma fast_hash_is_block_hash:
  "\<exists>paths. block_pow_mast_paths E b = Inr paths \<and> block_pow_mast_paths E (set_header_pow b pow) = Inr paths \<and>
     fast_mast_hash (env_tip5 E) (enc_pow E) paths pow = block_hash E (set_header_pow b pow)"
proof -
  let ?H = "env_tip5 E"
  let ?l = "\<lambda>s. tip5_varlen ?H s"
  let ?h = "header b"
  let ?paths = "\<lparr>pmp_pow = [?l (enc_cumulative E (cumulative_proof_of_work ?h)),
       tip5_pair ?H (?l (enc_difficulty E (bh_difficulty ?h))) (?l (enc_receiver E (guesser_receiver_data ?h))),
       env_root E [?l (enc_bfe E (version ?h)), ?l (enc_height E (height ?h)), ?l (enc_digest E (prev_block_digest ?h)),
         ?l (enc_timestamp E (bh_timestamp ?h))]],
     pmp_header = [?l (enc_digest E (mast_hash E (body_mast_sequences E (body b)))),
       tip5_pair ?H (?l (enc_appendix E (appendix b))) (tip5_default ?H)],
     pmp_kernel = [?l (enc_proof E (block_proof b))]\<rparr>"
  have paths: "block_pow_mast_paths E (set_header_pow b pow) = Inr ?paths" "block_pow_mast_paths E b = Inr ?paths" for pow
    by (simp_all add: block_pow_mast_paths_def mast_path_def mast_leafs_def header_mast_sequences_def
        block_kernel_mast_sequences_def block_mast_sequences_def pad_pow2_done pad_pow2_three path_two path_four path_eight_4
        array_of_len_def bind_res_def set_header_pow_def)
  have "fast_mast_hash ?H (enc_pow E) ?paths pow = block_hash E (set_header_pow b pow)"
    by (simp add: fast_mast_hash_def Let_def block_hash_def mast_hash_def mast_leafs_def header_mast_sequences_def
        block_kernel_mast_sequences_def block_mast_sequences_def pad_pow2_done pad_pow2_three root_two root_four root_eight
        set_header_pow_def digest_encoding [symmetric] numeral_2_eq_2)
  with paths show ?thesis by blast
qed

end

section \<open>An instance of the parameters\<close>

function halves_root :: "('d \<Rightarrow> 'd \<Rightarrow> 'd) \<Rightarrow> 'd list \<Rightarrow> 'd" where
  "halves_root pair ds = (if length ds \<le> 1 then hd ds
     else pair (halves_root pair (take (length ds div 2) ds)) (halves_root pair (drop (length ds div 2) ds)))"
  by pat_completeness auto
termination
  by (relation "measure (\<lambda>(pair, ds). length ds)") auto

function halves_path :: "('d \<Rightarrow> 'd \<Rightarrow> 'd) \<Rightarrow> 'd list \<Rightarrow> nat \<Rightarrow> 'd list" where
  "halves_path pair ds i = (if length ds \<le> 1 then []
     else let n = length ds div 2 in
       if i < n then halves_path pair (take n ds) i @ [halves_root pair (drop n ds)]
       else halves_path pair (drop n ds) (i - n) @ [halves_root pair (take n ds)])"
  by pat_completeness auto
termination
  by (relation "measure (\<lambda>(pair, ds, i). length ds)") auto

declare halves_root.simps [simp del] halves_path.simps [simp del]

text \<open>Membership proofs without a path, for mutator sets whose inactive part is empty.\<close>

definition no_path_ops :: "('d, unit) rrl_ops" where
  "no_path_ops =
     \<lparr>mp_path = (\<lambda>_. []), mp_of_path = (\<lambda>_. ()), get_peak_heights = (\<lambda>n. map of_nat (rev (filter (bit n) [0..<64]))),
      leaf_index_to_mt_index_and_peak_index = (\<lambda>_ _. Inl AssertFailed), authentication_structure_node_indices = (\<lambda>_ _. None),
      to_hex = (\<lambda>_. [])\<rparr>"

text \<open>Merkle trees over \<open>tip5_pair\<close>; encodings that keep the digests and the numbers of a block.\<close>

definition tree_env ::
  "('d, 'f) tip5 \<Rightarrow> 'f bfield \<Rightarrow> ('d, 'm, unit) crypto \<Rightarrow> ('d \<Rightarrow> nat) \<Rightarrow> (nat \<Rightarrow> 'd option) \<Rightarrow> 'd
     \<Rightarrow> ('d, 'm, unit, 'f, 'd, unit) block_env" where
  "tree_env T F C tn ofn mx =
     \<lparr>env_tip5 = T, env_field = F, env_crypto = C, env_proofs = no_mp_ops,
      env_root = halves_root (tip5_pair T), env_frugal_root = halves_root (tip5_pair T),
      env_auth_path = halves_path (tip5_pair T),
      enc_bfe = (\<lambda>x. [x]), enc_digest = tip5_values T, enc_height = (\<lambda>h. [height_bfe h]),
      enc_timestamp = (\<lambda>t. [ts_bfe t]), enc_pow = (\<lambda>p. tip5_values T (nonce p) @ tip5_values T (root p)),
      enc_cumulative = (\<lambda>p. map (\<lambda>w. bf_new F (ucast w)) (pow_limbs p)),
      enc_difficulty = (\<lambda>d. map (\<lambda>w. bf_new F (ucast w)) (d_limbs d)),
      enc_receiver = (\<lambda>r. tip5_values T (receiver_digest r) @ tip5_values T (lock_script_hash r)),
      enc_mutator_set = (\<lambda>m. tip5_values T (ms_hash C m)), enc_mmr = (\<lambda>m. tip5_values T (bag_peaks C m)),
      enc_appendix = (\<lambda>a. concat (map (tip5_values T) (claims a))), enc_proof = (\<lambda>_. []),
      enc_inputs = (\<lambda>rrs. map (\<lambda>rr. bf_new F (ucast (minimum (absolute_indices rr)))) rrs),
      enc_outputs = (\<lambda>rs. concat (map (\<lambda>r. tip5_values T (canonical_commitment r)) rs)),
      enc_announcements = (\<lambda>as. concat (map message as)),
      enc_amount = (\<lambda>a. [bf_new F (word_of_int (to_nau a))]),
      enc_coinbase = (\<lambda>c. case c of None \<Rightarrow> [] | Some a \<Rightarrow> [bf_new F (word_of_int (to_nau a))]),
      enc_bool = (\<lambda>b. [bf_new F (of_bool b)]), enc_block = (\<lambda>_. []),
      hash_utxo = utxo_lock_script_hash, native_currency_hash = tip5_default T,
      single_proof_claim = (\<lambda>d _. d), block_program_verify = (\<lambda>_ _ _ _. True),
      env_rrl = no_path_ops,
      digest_to_nat = tn, digest_of_nat = ofn, max_digest = mx\<rparr>"

lemma tree_env_laws: "merkle_laws (tree_env T F C tn ofn mx)"
proof
  let ?E = "tree_env T F C tn ofn mx"
  have len: "\<not> length (ds @ es) \<le> 1" "length (ds @ es) div 2 = length ds"
    if "length ds = 2 ^ n" "length es = 2 ^ n" for ds es :: "'a list" and n
  proof -
    have "(1 :: nat) \<le> 2 ^ n" by simp
    then show "\<not> length (ds @ es) \<le> 1" "length (ds @ es) div 2 = length ds"
      using that unfolding length_append by linarith+
  qed
  show "env_root ?E [d] = d" "env_auth_path ?E [d] 0 = []" "enc_digest ?E d = tip5_values (env_tip5 ?E) d"
    "env_frugal_root ?E ds = env_root ?E ds" for d ds
    by (simp_all add: tree_env_def halves_root.simps halves_path.simps)
  fix ds es :: "'a list" and n i :: nat
  assume l: "length ds = 2 ^ n" "length es = 2 ^ n"
  show "env_root ?E (ds @ es) = tip5_pair (env_tip5 ?E) (env_root ?E ds) (env_root ?E es)"
    using len [OF l] by (simp add: tree_env_def) (subst halves_root.simps, simp)
  assume i: "i < 2 ^ n"
  show "env_auth_path ?E (ds @ es) i = env_auth_path ?E ds i @ [env_root ?E es]"
    using len [OF l] l i by (simp add: tree_env_def) (subst halves_path.simps, simp add: Let_def)
  show "env_auth_path ?E (ds @ es) (2 ^ n + i) = env_auth_path ?E es i @ [env_root ?E ds]"
    using len [OF l] l i by (simp add: tree_env_def) (subst halves_path.simps, simp add: Let_def)
qed

text \<open>Small numbers as digests, for the parts that compare digests.\<close>

definition small_crypto :: "(nat, nat list, unit) crypto" where
  "small_crypto =
     \<lparr>hash_pair = tip5_pair small_tip5, hash_digest = (\<lambda>d. tip5_pair small_tip5 d 0),
      hash_chunk = (\<lambda>c. sum_list (map unat (relative_indices c)) mod 1009), hash_window = (\<lambda>w. sum_list (map unat (sbf w)) mod 1009),
      zero_digest = 0, sample_indices = (\<lambda>_ _ _ i. 9 # replicate 44 (ucast i AND 0xff)),
      mmr_empty = [], mmr_init = (\<lambda>ds _. ds), num_leafs = (\<lambda>m. of_nat (length m)),
      num_peaks = (\<lambda>m. length (filter (bit (of_nat (length m) :: u64)) [0..<64])), bag_peaks = (\<lambda>m. sum_list m mod 1009),
      mmr_append = (\<lambda>m d. (m @ [d], ())), mp_verify = (\<lambda>_ i d m. unat i < length m \<and> m ! unat i = d),
      batch_mutate = (\<lambda>m mps muts. (foldl (\<lambda>ls (i, d, p). ls[unat i := d]) m muts, map fst mps))\<rparr>"

definition small_env :: "(nat, nat list, unit, bfe, nat, unit) block_env" where
  "small_env = tree_env small_tip5 bfe_ops small_crypto id Some 6054000"

interpretation small: merkle_laws small_env
  unfolding small_env_def by (rule tree_env_laws)

section \<open>Properties\<close>

text \<open>(C24) The three computations of the hash of a block agree: the MAST hash of the block, the hash of a header together
  with the witness of its block, which peers exchange, and the shortcut of the guesser, which hashes a new
  proof-of-work field along authentication paths that were taken once. The paths do not depend on that field.\<close>

theorem block_hash_three_ways:
  assumes "merkle_laws E"
  shows "header_witness_hash E \<lparr>hw_header = header b, hw_witness = witness_of_block E b\<rparr> = block_hash E b \<and>
    (\<exists>paths. block_pow_mast_paths E b = Inr paths \<and>
       (\<forall>p. fast_mast_hash (env_tip5 E) (enc_pow E) paths p = block_hash E (set_header_pow b p)))"
proof
  show "header_witness_hash E \<lparr>hw_header = header b, hw_witness = witness_of_block E b\<rparr> = block_hash E b"
    by (rule merkle_laws.witness_hash_is_block_hash [OF assms])
  obtain paths where paths: "block_pow_mast_paths E b = Inr paths"
    using merkle_laws.fast_hash_is_block_hash [OF assms, of b "bh_pow (header b)"] by auto
  with merkle_laws.fast_hash_is_block_hash [OF assms, of b]
  show "\<exists>paths. block_pow_mast_paths E b = Inr paths \<and>
      (\<forall>p. fast_mast_hash (env_tip5 E) (enc_pow E) paths p = block_hash E (set_header_pow b p))" by auto
qed

theorem block_hash_three_ways_witness:
  "\<forall>b. header_witness_hash small_env \<lparr>hw_header = header b, hw_witness = witness_of_block small_env b\<rparr> = block_hash small_env b"
  using block_hash_three_ways [OF small.merkle_laws_axioms] by blast

end
