(* ===== verification/Block.thy ===== *)
theory Block
  imports Block_Data
begin

text \<open>
  \<^verbatim>\<open>consensus/src/block/mod.rs\<close>: the block subsidy, the genesis block, block validation, the proof-of-work check
  and the fork choice rule; with the header template of \<^verbatim>\<open>block_header.rs\<close> and the claims of
  \<^verbatim>\<open>block_appendix.rs\<close>. A validation has the type \<open>('e + 'a) res\<close>: a panic, an error value or a result.
\<close>

section \<open>Constants and the subsidy\<close>

definition MAX_NUM_CLAIMS :: nat where
  "MAX_NUM_CLAIMS = 500"

definition BLOCK_SUBSIDY_BY_GENERATION :: "u64 list" where
  "BLOCK_SUBSIDY_BY_GENERATION = [
    12800, 12217, 11661, 11130, 10624, 10141, 9679, 9239, 8818, 8417, 8034, 7668, 7319, 6986, 6668, 6365,
    6075, 5799, 5535, 5283, 5043, 4813, 4594, 4385, 4185, 3995, 3813, 3640, 3474, 3316, 3165, 3021, 2883,
    2752, 2627, 2507, 2393, 2284, 2180, 2081, 1986, 1896, 1810, 1727, 1649, 1574, 1502, 1434, 1368, 1306,
    1247, 1190, 1136, 1084, 1035, 988, 943, 900, 859, 820, 782, 747, 713, 680, 649, 620, 591, 565, 539,
    514, 491, 469, 447, 427, 407, 389, 371, 354, 338, 323, 308, 294, 280, 268]"

definition TAIL_EMISSION_BLOCK_SUBSIDY :: "native_currency_amount res" where
  "TAIL_EMISSION_BLOCK_SUBSIDY = coins 256"

definition FUTUREDATING_LIMIT :: "'f bfield \<Rightarrow> 'f timestamp" where
  "FUTUREDATING_LIMIT F = ts_minutes F 5"

definition PREMINE_MAX_SIZE :: "native_currency_amount res" where
  "PREMINE_MAX_SIZE = coins 800000000"

definition BLOCK_HEADER_VERSION :: "'f bfield \<Rightarrow> 'f" where
  "BLOCK_HEADER_VERSION F = bf_new F 0"

definition block_subsidy :: "'f bfield \<Rightarrow> 'f block_height \<Rightarrow> native_currency_amount res" where
  "block_subsidy F block_height' =
     (let generation = unat (get_generation F block_height')
      in if generation < length BLOCK_SUBSIDY_BY_GENERATION then coins (BLOCK_SUBSIDY_BY_GENERATION ! generation)
         else TAIL_EMISSION_BLOCK_SUBSIDY)"

definition coinbase_amount :: "('d, 'm, 'p, 'f, 'c, 's) block \<Rightarrow> native_currency_amount" where
  "coinbase_amount b = (case coinbase (block_tx b) of Some c \<Rightarrow> c | None \<Rightarrow> amount_zero)"

section \<open>Building blocks\<close>

definition block_new ::
  "('d, 'f) block_header \<Rightarrow> ('d, 'm, 'p, 'f) block_body \<Rightarrow> 'c block_appendix \<Rightarrow> 's block_proof \<Rightarrow> ('d, 'm, 'p, 'f, 'c, 's) block" where
  "block_new h b a p = \<lparr>block_kernel = \<lparr>bk_header = h, bk_body = b, bk_appendix = a\<rparr>, block_proof = p\<rparr>"

definition template_header ::
  "('d, 'm, 'p, 'f, 'c, 's) block_env \<Rightarrow> ('d, 'f) block_header \<Rightarrow> 'd \<Rightarrow> 'f timestamp \<Rightarrow> 'f timestamp
     \<Rightarrow> ('d, 'f) block_header res" where
  "template_header E predecessor_header predecessor_digest t interval =
     bind_res (difficulty_control (env_field E) t (bh_timestamp predecessor_header) (bh_difficulty predecessor_header)
         interval (height predecessor_header)) (\<lambda>difficulty'.
       Inr \<lparr>version = BLOCK_HEADER_VERSION (env_field E),
         height = height_next (env_field E) (height predecessor_header),
         prev_block_digest = predecessor_digest, bh_timestamp = t,
         bh_pow = pow_default (env_tip5 E) POW_MEMORY_TREE_HEIGHT,
         cumulative_proof_of_work = pow_add (cumulative_proof_of_work predecessor_header) (d_limbs difficulty'),
         bh_difficulty = difficulty',
         guesser_receiver_data = \<lparr>receiver_digest = tip5_default (env_tip5 E), lock_script_hash = tip5_default (env_tip5 E)\<rparr>\<rparr>)"

text \<open>\<^verbatim>\<open>Digest::new(bfe_array![...])\<close>.\<close>

definition digest_of_words :: "('d, 'm, 'p, 'f, 'c, 's) block_env \<Rightarrow> u64 list \<Rightarrow> 'd" where
  "digest_of_words E ws = tip5_digest (env_tip5 E) (map (bf_new (env_field E)) ws)"

definition genesis_header :: "('d, 'm, 'p, 'f, 'c, 's) block_env \<Rightarrow> network \<Rightarrow> ('d, 'f) block_header" where
  "genesis_header E net =
     \<lparr>version = bf_zero (env_field E), height = height_genesis (env_field E),
      prev_block_digest = tip5_default (env_tip5 E), bh_timestamp = launch_date (env_field E) net,
      bh_pow =
        \<lparr>root = digest_of_words E [0x49b65c974fa81f3e, 0x6f2f87aec83ada68, 0x236af11c284ed263, 0xc5965b6ae3644d10, 0x0f5a2b594d4b810a],
         path_a = replicate POW_MEMORY_TREE_HEIGHT (tip5_default (env_tip5 E)),
         path_b = replicate POW_MEMORY_TREE_HEIGHT (tip5_default (env_tip5 E)),
         nonce = digest_of_words E [0, 0x0000fcefca46c809, 0xda3f97528a19e8c3, 0xf3a1a10f3888004d, 0]\<rparr>,
      cumulative_proof_of_work = pow_MINIMUM, bh_difficulty = genesis_difficulty net,
      guesser_receiver_data =
        \<lparr>receiver_digest = digest_of_words E
           [0x5472756D7020746F, 0x20546F7572204665, 0x646572616C205265, 0x73657276652C2052, 0x616D70696E672055],
         lock_script_hash = digest_of_words E
           [0x7020507265737375, 0x72652043616D7061, 0x69676E206F6E2050, 0x6F77656C6C000000, 0x0A57534A00000000]\<rparr>\<rparr>"

text \<open>The two premine commitments are read from hexadecimal literals by the library; they are an argument.\<close>

definition genesis ::
  "('d, 'm, 'p, 'f, 'c, 's) block_env \<Rightarrow> 'd list \<Rightarrow> network \<Rightarrow> ('d, 'm, 'p, 'f, 'c, 's) block res" where
  "genesis E allocations net =
     bind_res PREMINE_MAX_SIZE (\<lambda>premine.
     bind_res (coins 0) (\<lambda>no_fee.
       let genesis_tx_outputs = map AdditionRecord allocations;
           genesis_mutator_set = foldl (ms_add (env_crypto E)) (ms_default (env_crypto E)) genesis_tx_outputs;
           genesis_txk = \<lparr>tk_inputs = [], tk_outputs = genesis_tx_outputs, announcements = [], fee = no_fee,
             coinbase = Some premine, tk_timestamp = launch_date (env_field E) net,
             mutator_set_hash = ms_hash (env_crypto E) (ms_default (env_crypto E)), merge_bit = False\<rparr>;
           b = \<lparr>body_kernel = genesis_txk, mutator_set_accumulator = genesis_mutator_set,
             lock_free_mmr_accumulator = mmr_empty (env_crypto E), block_mmr_accumulator = mmr_empty (env_crypto E)\<rparr>
       in Inr (block_new (genesis_header E net) b (BlockAppendix []) GenesisProof)))"

section \<open>Validation\<close>

definition should_reset_difficulty ::
  "'f bfield \<Rightarrow> network \<Rightarrow> 'f timestamp \<Rightarrow> 'f timestamp \<Rightarrow> bool res" where
  "should_reset_difficulty F net current_block_timestamp previous_block_timestamp =
     bind_res (difficulty_reset_interval F net) (\<lambda>interval. case interval of
        None \<Rightarrow> Inr False
      | Some reset_interval \<Rightarrow>
          let elapsed_interval = timestamp_sub F current_block_timestamp previous_block_timestamp
          in Inr (timestamp_le F reset_interval elapsed_interval))"

definition consensus_claims ::
  "('d, 'm, 'p, 'f, 'c, 's) block_env \<Rightarrow> ('d, 'm, 'p, 'f) block_body \<Rightarrow> consensus_rule_set \<Rightarrow> 'c list" where
  "consensus_claims E b rules =
     [single_proof_claim E (mast_hash E (kernel_mast_sequences E (body_kernel b))) rules]"

definition validate_block_proof ::
  "('d, 'm, 'p, 'f, 'c, 's) block_env \<Rightarrow> ('d, 'm, 'p, 'f, 'c, 's) block \<Rightarrow> network
     \<Rightarrow> (block_validation_error + unit) res" where
  "validate_block_proof E b net =
     (let rules = infer_from net (height (header b)) in
      reject_if (list_ex (\<lambda>claim. claim \<notin> set (claims (appendix b))) (consensus_claims E (body b) rules)) AppendixMissingClaim
     (reject_if (MAX_NUM_CLAIMS < length (claims (appendix b))) AppendixTooLarge
     (case block_proof b of
        BlockSingleProof prf \<Rightarrow>
          reject_if (\<not> block_program_verify E (body b) (appendix b) prf net) ProofValidity (Inr (Inr ()))
      | _ \<Rightarrow> Inr (Inl ProofQuality))))"

fun can_remove_all :: "('d, 'm, 'p) crypto \<Rightarrow> 'm mutator_set \<Rightarrow> 'p removal_record list \<Rightarrow> bool res" where
  "can_remove_all C ms [] = Inr True"
| "can_remove_all C ms (rr # rrs) = bind_res (can_remove C ms rr) (\<lambda>b. if \<not> b then Inr False else can_remove_all C ms rrs)"

definition expected_difficulty ::
  "'f bfield \<Rightarrow> network \<Rightarrow> ('d, 'f) block_header \<Rightarrow> ('d, 'f) block_header \<Rightarrow> difficulty res" where
  "expected_difficulty F net prev h =
     bind_res (should_reset_difficulty F net (bh_timestamp h) (bh_timestamp prev)) (\<lambda>reset.
       if reset then Inr (genesis_difficulty net)
       else difficulty_control F (bh_timestamp h) (bh_timestamp prev) (bh_difficulty prev)
              (target_block_interval F net) (height prev))"

text \<open>The transaction of the block: the checks 2.a to 2.m. The number of index sets after sorting and
  deduplication is the number of different ones.\<close>

definition validate_coinbase ::
  "'f bfield \<Rightarrow> ('d, 'm, 'p, 'f, 'c, 's) block \<Rightarrow> (block_validation_error + unit) res" where
  "validate_coinbase F b =
     bind_res (block_subsidy F (height (header b))) (\<lambda>subsidy.
       case coinbase (block_tx b) of
         None \<Rightarrow> Inr (Inr ())
       | Some c \<Rightarrow> reject_if (subsidy < c) CoinbaseTooBig (reject_if (is_negative c) NegativeCoinbase (Inr (Inr ()))))"

definition validate_transaction ::
  "('d, 'm, 'p, 'f, 'c, 's) block_env \<Rightarrow> ('d, 'm, 'p, 'f, 'c, 's) block \<Rightarrow> ('d, 'm, 'p, 'f, 'c, 's) block
     \<Rightarrow> consensus_rule_set \<Rightarrow> (block_validation_error + unit) res" where
  "validate_transaction E b previous_block rules =
     (let F = env_field E; C = env_crypto E; k = block_tx b in
      bind_res (try_unpack_inputs E (tk_inputs k)) (\<lambda>unpacked. case unpacked of
        None \<Rightarrow> Inr (Inl RemovalRecordsUnpackFailure)
      | Some inputs \<Rightarrow>
      try_then (mutator_set_accumulator_after E previous_block) (\<lambda>msa_before.
      bind_res (can_remove_all C msa_before inputs) (\<lambda>all_removable.
      reject_if (\<not> all_removable) RemovalRecordsValidity
     (reject_if (ms_hash C msa_before \<noteq> mutator_set_hash k) TransactionMutatorSetMismatch
     (reject_if (length (remdups (map (\<lambda>rr. ais_to_array (absolute_indices rr)) inputs)) \<noteq> length inputs) RemovalRecordsUniqueness
     (bind_res (apply_to_accumulator C (env_proofs E) \<lparr>removals = inputs, additions = tk_outputs k\<rparr> msa_before)
        (\<lambda>(msa, ms_update_result).
      reject_if (case ms_update_result of Inl _ \<Rightarrow> True | Inr _ \<Rightarrow> False) MutatorSetUpdateImpossible
     (reject_if (ms_hash C msa \<noteq> ms_hash C (mutator_set_accumulator (body b))) MutatorSetUpdateIntegrity
     (reject_if (\<not> timestamp_le F (tk_timestamp k) (bh_timestamp (header b))) TransactionTimestamp
     (try_then (validate_coinbase F b) (\<lambda>_.
      reject_if (is_negative (fee k)) NegativeFee
     (reject_if (max_num_inputs rules < length inputs) TooManyInputs
     (reject_if (max_num_outputs rules < length (tk_outputs k)) TooManyOutputs
     (reject_if (max_num_announcements rules < length (announcements k)) TooManyAnnouncements (Inr (Inr ())))))))))))))))))"

definition validate ::
  "('d, 'm, 'p, 'f, 'c, 's) block_env \<Rightarrow> ('d, 'm, 'p, 'f, 'c, 's) block \<Rightarrow> ('d, 'm, 'p, 'f, 'c, 's) block
     \<Rightarrow> 'f timestamp \<Rightarrow> network \<Rightarrow> (block_validation_error + unit) res" where
  "validate E b previous_block now net =
     (let F = env_field E; C = env_crypto E; h = header b; prev = header previous_block;
          rules = infer_from net (height h) in
      reject_if (height_next F (height prev) \<noteq> height h) BlockHeightError
     (reject_if (block_hash E previous_block \<noteq> prev_block_digest h) PrevBlockDigest
     (let mmra = fst (mmr_append C (block_mmr_accumulator (body previous_block)) (block_hash E previous_block)) in
      reject_if (mmra \<noteq> block_mmr_accumulator (body b)) BlockMmrUpdate
     (reject_if (\<not> timestamp_le F (timestamp_add F (bh_timestamp prev) (minimum_block_time F net)) (bh_timestamp h)) MinimumBlockTime
     (bind_res (expected_difficulty F net prev h) (\<lambda>expected.
      reject_if (bh_difficulty h \<noteq> expected) DifficultyError
     (reject_if (cumulative_proof_of_work h \<noteq> pow_add (cumulative_proof_of_work prev) (d_limbs (bh_difficulty h))) CumulativeProofOfWork
     (reject_if (timestamp_le F (timestamp_add F now (FUTUREDATING_LIMIT F)) (bh_timestamp h)) FutureDating
     (try_then (validate_block_proof E b net) (\<lambda>_.
      reject_if (max_block_size rules < length (enc_block E b)) MaxSize
        (validate_transaction E b previous_block rules)))))))))))"

definition is_valid ::
  "('d, 'm, 'p, 'f, 'c, 's) block_env \<Rightarrow> ('d, 'm, 'p, 'f, 'c, 's) block \<Rightarrow> ('d, 'm, 'p, 'f, 'c, 's) block
     \<Rightarrow> 'f timestamp \<Rightarrow> network \<Rightarrow> bool res" where
  "is_valid E b previous_block now net =
     bind_res (validate E b previous_block now net) (\<lambda>r. Inr (case r of Inr _ \<Rightarrow> True | Inl _ \<Rightarrow> False))"

section \<open>Proof of work\<close>

definition is_valid_mock_pow ::
  "('d :: linorder, 'm, 'p, 'f, 'c, 's) block_env \<Rightarrow> ('d, 'm, 'p, 'f, 'c, 's) block \<Rightarrow> 'd \<Rightarrow> bool" where
  "is_valid_mock_pow E b target \<longleftrightarrow> block_hash E b \<le> target"

definition pow_verify ::
  "('d :: linorder, 'm, 'p, 'f, 'c, 's) block_env \<Rightarrow> ('d, 'm, 'p, 'f, 'c, 's) block \<Rightarrow> 'd \<Rightarrow> bool res" where
  "pow_verify E b target =
     bind_res (block_pow_mast_paths E b) (\<lambda>auth_paths.
     bind_res (pow_validate (env_tip5 E) (env_field E) (enc_pow E) POW_MEMORY_TREE_HEIGHT (bh_pow (header b)) auth_paths
         target (prev_block_digest (header b))) (\<lambda>r. Inr (case r of Inr _ \<Rightarrow> True | Inl _ \<Rightarrow> False)))"

definition has_proof_of_work ::
  "('d :: linorder, 'm, 'p, 'f, 'c, 's) block_env \<Rightarrow> ('d, 'm, 'p, 'f, 'c, 's) block \<Rightarrow> network
     \<Rightarrow> ('d, 'f) block_header \<Rightarrow> bool res" where
  "has_proof_of_work E b net previous_block_header =
     bind_res (should_reset_difficulty (env_field E) net (bh_timestamp (header b)) (bh_timestamp previous_block_header)) (\<lambda>reset.
       if reset \<and> bh_difficulty (header b) = genesis_difficulty net then Inr True
       else if difficulty_cmp (bh_difficulty (header b)) difficulty_MINIMUM = Less then Inr False
       else bind_res (difficulty_target (digest_to_nat E) (digest_of_nat E) (max_digest E) (bh_difficulty (header b))) (\<lambda>target.
         if allows_mock_pow net \<and> is_valid_mock_pow E b target then Inr True else pow_verify E b target))"

section \<open>Fork choice\<close>

definition fork_choice_rule ::
  "('d, 'm, 'p, 'f, 'c, 's) block \<Rightarrow> ('d, 'm, 'p, 'f, 'c, 's) block \<Rightarrow> ('d, 'm, 'p, 'f, 'c, 's) block" where
  "fork_choice_rule current_tip incoming_block =
     (if height (header current_tip) \<noteq> height (header incoming_block)
      then if pow_cmp (cumulative_proof_of_work (header current_tip)) (cumulative_proof_of_work (header incoming_block)) \<noteq> Less
           then current_tip else incoming_block
      else if tk_inputs (block_tx current_tip) = [] then incoming_block
      else current_tip)"

section \<open>What validation establishes\<close>

lemma can_remove_all_ok: "can_remove_all C ms rrs = Inr True \<Longrightarrow> rr \<in> set rrs \<Longrightarrow> can_remove C ms rr = Inr True"
  by (induction C ms rrs rule: can_remove_all.induct) (auto simp: bind_res_Inr split: if_splits)

lemma validate_header:
  assumes "validate E b p now net = Inr (Inr ())"
  shows "height (header b) = height_next (env_field E) (height (header p))"
    and "prev_block_digest (header b) = block_hash E p"
    and "block_mmr_accumulator (body b) = fst (mmr_append (env_crypto E) (block_mmr_accumulator (body p)) (block_hash E p))"
    and "timestamp_le (env_field E) (timestamp_add (env_field E) (bh_timestamp (header p)) (minimum_block_time (env_field E) net))
           (bh_timestamp (header b))"
    and "expected_difficulty (env_field E) net (header p) (header b) = Inr (bh_difficulty (header b))"
    and "cumulative_proof_of_work (header b) =
           pow_add (cumulative_proof_of_work (header p)) (d_limbs (bh_difficulty (header b)))"
    and "\<not> timestamp_le (env_field E) (timestamp_add (env_field E) now (FUTUREDATING_LIMIT (env_field E))) (bh_timestamp (header b))"
    and "validate_transaction E b p (infer_from net (height (header b))) = Inr (Inr ())"
  using assms by (auto simp: validate_def Let_def accept_simps)

lemma validate_transactionE:
  assumes "validate_transaction E b p rules = Inr (Inr ())"
  obtains inputs msa_before msa where
    "try_unpack_inputs E (tk_inputs (block_tx b)) = Inr (Some inputs)"
    "mutator_set_accumulator_after E p = Inr (Inr msa_before)"
    "apply_to_accumulator (env_crypto E) (env_proofs E) \<lparr>removals = inputs, additions = tk_outputs (block_tx b)\<rparr> msa_before =
       Inr (msa, Inr ())"
    "ms_hash (env_crypto E) msa = ms_hash (env_crypto E) (mutator_set_accumulator (body b))"
    "validate_coinbase (env_field E) b = Inr (Inr ())"
    "\<not> is_negative (fee (block_tx b))"
    "length inputs \<le> max_num_inputs rules" "length (tk_outputs (block_tx b)) \<le> max_num_outputs rules"
  using assms by (auto simp: validate_transaction_def Let_def accept_simps not_less split: option.splits)

section \<open>The subsidy\<close>

definition subsidy_table :: "nat list" where
  "subsidy_table = map unat BLOCK_SUBSIDY_BY_GENERATION"

text \<open>The subsidy of a height in whole coins.\<close>

definition subsidy_coins :: "nat \<Rightarrow> nat" where
  "subsidy_coins n = (if n div 6750 < 84 then subsidy_table ! (n div 6750) else 256)"

lemma subsidy_table_facts:
  "length subsidy_table = 84" "sum_list subsidy_table = 275629" "\<forall>c\<in>set subsidy_table. 256 \<le> c \<and> c \<le> 12800"
  by (simp_all add: subsidy_table_def BLOCK_SUBSIDY_BY_GENERATION_def)

lemma subsidy_coins_bounds: "256 \<le> subsidy_coins n" "subsidy_coins n \<le> 12800"
proof -
  have "subsidy_table ! g \<in> set subsidy_table" if "g < 84" for g using that subsidy_table_facts(1) by simp
  then show "256 \<le> subsidy_coins n" "subsidy_coins n \<le> 12800"
    using subsidy_table_facts(3) by (auto simp: subsidy_coins_def)
qed

lemma coins_small: "unat n \<le> 4200000000 \<Longrightarrow> coins n = Inr (NativeCurrencyAmount (100000000 * int (unat n)))"
proof -
  assume n: "unat n \<le> 4200000000"
  then have "n \<le> 4200000000" by (simp add: word_le_nat_alt)
  moreover have "wrap_i128 (100000000 * int (unat n)) = 100000000 * int (unat n)"
  proof (rule wrap_i128_small)
    have "int (unat n) \<le> 4200000000" using n by linarith
    then show "\<bar>100000000 * int (unat n)\<bar> < 2 ^ 127" by simp
  qed
  ultimately show ?thesis by (simp add: coins_def assert_then_def)
qed

lemma block_subsidy_coins:
  "block_subsidy F h = Inr (NativeCurrencyAmount (100000000 * int (subsidy_coins (unat (height_value F h)))))"
proof -
  let ?g = "unat (get_generation F h)"
  have g: "?g = unat (height_value F h) div 6750"
    by (simp add: get_generation_def height_value_def BLOCKS_PER_GENERATION_def unat_div)
  have len: "length BLOCK_SUBSIDY_BY_GENERATION = 84" using subsidy_table_facts(1) by (simp add: subsidy_table_def)
  show ?thesis
  proof (cases "?g < 84")
    case True
    then have "unat (BLOCK_SUBSIDY_BY_GENERATION ! ?g) = subsidy_coins (unat (height_value F h))"
      using len g by (simp add: subsidy_coins_def subsidy_table_def)
    then show ?thesis
      using True len coins_small [of "BLOCK_SUBSIDY_BY_GENERATION ! ?g"] subsidy_coins_bounds(2) [of "unat (height_value F h)"]
      by (simp add: block_subsidy_def Let_def)
  next
    case False
    then show ?thesis
      using len g coins_small [of 256] by (simp add: block_subsidy_def Let_def TAIL_EMISSION_BLOCK_SUBSIDY_def subsidy_coins_def)
  qed
qed

lemma sum_generations: "(\<Sum>n<k * m. f (n div k)) = k * (\<Sum>g<m. f g)" if "0 < (k :: nat)" for f :: "nat \<Rightarrow> nat"
proof (induction m)
  case (Suc m)
  have "(\<Sum>n<k * Suc m. f (n div k)) = (\<Sum>n<k * m. f (n div k)) + (\<Sum>n\<in>{k * m..<k * m + k}. f (n div k))"
    using sum.atLeastLessThan_concat [of 0 "k * m" "k * m + k" "\<lambda>n. f (n div k)"] by (simp add: lessThan_atLeast0 add.commute)
  also have "(\<Sum>n\<in>{k * m..<k * m + k}. f (n div k)) = (\<Sum>n\<in>{k * m..<k * m + k}. f m)"
  proof (rule sum.cong)
    fix n assume "n \<in> {k * m..<k * m + k}"
    then have "n div k = m" using that by (intro div_nat_eqI) (auto simp: algebra_simps)
    then show "f (n div k) = f m" by simp
  qed simp
  finally show ?case using Suc by (simp add: algebra_simps)
qed simp

text \<open>The total of the first \<open>N\<close> subsidies.\<close>

lemma subsidy_total: "(\<Sum>n<N. subsidy_coins n) \<le> 1860495750 + 256 * N"
proof -
  let ?e = "\<lambda>g. if g < 84 then subsidy_table ! g else 0"
  have le: "subsidy_coins n \<le> 256 + ?e (n div 6750)" for n
    using subsidy_coins_bounds(1) [of n] by (simp add: subsidy_coins_def)
  have "(\<Sum>n<N. subsidy_coins n) \<le> (\<Sum>n<N. 256 + ?e (n div 6750))" by (rule sum_mono) (rule le)
  also have "\<dots> = 256 * N + (\<Sum>n<N. ?e (n div 6750))" by (simp add: sum.distrib)
  also have "(\<Sum>n<N. ?e (n div 6750)) \<le> (\<Sum>n<6750 * (84 + N). ?e (n div 6750))"
    by (rule sum_mono2) auto
  also have "\<dots> = 6750 * (\<Sum>g<84 + N. ?e g)" by (rule sum_generations) simp
  also have "(\<Sum>g<84 + N. ?e g) = (\<Sum>g<84. subsidy_table ! g)"
    by (rule sum.mono_neutral_cong_right) auto
  also have "\<dots> = sum_list subsidy_table"
    using subsidy_table_facts(1) by (simp add: sum_list_sum_nth lessThan_atLeast0)
  finally show ?thesis unfolding subsidy_table_facts(2) by simp
qed

section \<open>Guessed blocks\<close>

lemma pow_height: "1 \<le> POW_MEMORY_TREE_HEIGHT" "POW_MEMORY_TREE_HEIGHT \<le> 32"
  unfolding POW_MEMORY_TREE_HEIGHT_def POW_MEMORY_PARAMETER_def ilog2_power by simp_all

lemma set_header_pow_simps [simp]:
  "bh_pow (header (set_header_pow b p)) = p" "prev_block_digest (header (set_header_pow b p)) = prev_block_digest (header b)"
  "bh_difficulty (header (set_header_pow b p)) = bh_difficulty (header b)"
  "bh_timestamp (header (set_header_pow b p)) = bh_timestamp (header b)"
  "set_header_pow b (bh_pow (header b)) = b"
  by (simp_all add: set_header_pow_def)

lemma pow_verify_meets_target:
  assumes "merkle_laws E" "pow_verify E b target = Inr True"
  shows "block_hash E b \<le> target"
proof -
  obtain paths where "block_pow_mast_paths E b = Inr paths"
      "fast_mast_hash (env_tip5 E) (enc_pow E) paths (bh_pow (header b)) = block_hash E b"
    using merkle_laws.fast_hash_is_block_hash [OF assms(1), of b "bh_pow (header b)"] by auto
  then show ?thesis
    using assms(2) by (auto simp: pow_verify_def bind_res_def pow_validate_def Let_def split: sum.splits if_splits prod.splits)
qed

lemma guessed_block:
  assumes "merkle_laws E"
  shows "\<exists>buffer paths. preprocess (env_tip5 E) (env_field E) POW_MEMORY_TREE_HEIGHT (prev_block_digest (header b)) = Inr buffer \<and>
    block_pow_mast_paths E b = Inr paths \<and>
    (\<forall>n target. \<exists>p.
       guess (env_tip5 E) (env_field E) (enc_pow E) POW_MEMORY_TREE_HEIGHT buffer paths
           (index_picker_preimage (env_tip5 E) buffer paths) n target =
         Inr (if block_hash E (set_header_pow b p) \<le> target then Some p else None) \<and>
       pow_verify E (set_header_pow b p) target = Inr (block_hash E (set_header_pow b p) \<le> target))"
proof -
  let ?H = "env_tip5 E" and ?F = "env_field E" and ?h = POW_MEMORY_TREE_HEIGHT and ?c = "prev_block_digest (header b)"
  obtain buffer where pre: "preprocess ?H ?F ?h ?c = Inr buffer"
    and g: "\<forall>paths n target. \<exists>p. nonce p = n \<and>
       guess ?H ?F (enc_pow E) ?h buffer paths (index_picker_preimage ?H buffer paths) n target =
         Inr (if fast_mast_hash ?H (enc_pow E) paths p \<le> target then Some p else None) \<and>
       pow_validate ?H ?F (enc_pow E) ?h p paths target ?c =
         Inr (if fast_mast_hash ?H (enc_pow E) paths p \<le> target then Inr () else Inl ThresholdNotMet)"
    using guess_complete [OF pow_height, of ?H ?F ?c "enc_pow E"] by blast
  obtain paths where paths: "block_pow_mast_paths E b = Inr paths"
    using merkle_laws.fast_hash_is_block_hash [OF assms, of b "bh_pow (header b)"] by auto
  have fast: "block_pow_mast_paths E (set_header_pow b p) = Inr paths"
    "fast_mast_hash ?H (enc_pow E) paths p = block_hash E (set_header_pow b p)" for p
    using merkle_laws.fast_hash_is_block_hash [OF assms, of b p] paths by auto
  have "\<exists>p. guess ?H ?F (enc_pow E) ?h buffer paths (index_picker_preimage ?H buffer paths) n target =
         Inr (if block_hash E (set_header_pow b p) \<le> target then Some p else None) \<and>
       pow_verify E (set_header_pow b p) target = Inr (block_hash E (set_header_pow b p) \<le> target)" for n target
    using g [rule_format, of n paths target] by (auto simp: fast pow_verify_def bind_res_def)
  with pre paths show ?thesis by blast
qed

lemma has_pow_target:
  assumes "merkle_laws E" "net \<noteq> TestnetMock" "has_proof_of_work E b net prev = Inr True"
  shows "\<exists>target. difficulty_target (digest_to_nat E) (digest_of_nat E) (max_digest E) (bh_difficulty (header b)) = Inr target \<and>
    difficulty_cmp (bh_difficulty (header b)) difficulty_MINIMUM \<noteq> Less \<and> block_hash E b \<le> target"
proof -
  have "difficulty_reset_interval (env_field E) net = Inr None" using assms(2) by (cases net) simp_all
  then show ?thesis
    using assms(3) pow_verify_meets_target [OF assms(1)]
    by (auto simp: has_proof_of_work_def should_reset_difficulty_def bind_res_Inr is_valid_mock_pow_def split: if_splits)
qed

section \<open>Properties\<close>




lemma small_hash_bound: "block_hash small_env b \<le> 1008"
proof -
  have "tip5_pair small_tip5 x y \<le> 1008" for x y
    using mod_less_divisor [of 1009 "5 * x + 3 * y + 1"] by (simp add: small_tip5_def)
  moreover have "env_tip5 small_env = small_tip5" by (simp add: small_env_def tree_env_def)
  ultimately show ?thesis
    by (simp add: block_hash_def mast_hash_def mast_leafs_def block_mast_sequences_def pad_pow2_done small.root_two)
qed


text \<open>The fork choice: between blocks of different heights the one with more cumulative proof-of-work wins, the
  current tip in case of a tie; between blocks of equal height the current tip stays unless its transaction has no
  inputs. The cumulative proof-of-work of the tip never decreases when the height changes.\<close>

theorem fork_choice_prefers:
  assumes "wf_pow (cumulative_proof_of_work (header t))" "wf_pow (cumulative_proof_of_work (header i))"
  shows "fork_choice_rule t i =
      (if height (header t) = height (header i) then (if tk_inputs (block_tx t) = [] then i else t)
       else if pow_to_biguint (cumulative_proof_of_work (header t)) < pow_to_biguint (cumulative_proof_of_work (header i)) then i
       else t) \<and>
    (height (header t) \<noteq> height (header i) \<longrightarrow>
       pow_to_biguint (cumulative_proof_of_work (header (fork_choice_rule t i))) =
         max (pow_to_biguint (cumulative_proof_of_work (header t))) (pow_to_biguint (cumulative_proof_of_work (header i))))"
  using assms by (auto simp: fork_choice_rule_def pow_cmp_def limbs_cmp_val cmp_nat_def wf_pow_def max_def)

theorem fork_choice_prefers_witness:
  "\<exists>t i :: (nat, nat list, unit, bfe, nat, unit) block.
     height (header t) \<noteq> height (header i) \<and> fork_choice_rule t i = i \<and> fork_choice_rule i t = i"
proof -
  obtain g where "genesis small_env [] Main = Inr g"
    using coins_small [of 800000000] coins_small [of 0] by (simp add: genesis_def PREMINE_MAX_SIZE_def bind_res_def Let_def)
  then have g: "header g = genesis_header small_env Main" by (auto simp: genesis_def bind_res_Inr Let_def block_new_def)
  let ?i = "g\<lparr>block_kernel := (block_kernel g)\<lparr>bk_header := (header g)\<lparr>height := height_next bfe_ops (height (header g)),
    cumulative_proof_of_work := ProofOfWork [5, 0, 0, 0, 0, 0]\<rparr>\<rparr>\<rparr>"
  have zero: "height (header g) = height_genesis bfe_ops" "cumulative_proof_of_work (header g) = pow_MINIMUM"
    by (simp_all add: g genesis_header_def small_env_def tree_env_def)
  have "unat (height_value bfe_ops (height_next bfe_ops (height_genesis bfe_ops))) \<noteq> unat (height_value bfe_ops (height_genesis bfe_ops))"
    unfolding goldilocks.height_next_value by (simp add: height_value_def height_genesis_def goldilocks.value_zero bfe_P_def)
  then have h: "height (header g) \<noteq> height (header ?i)" using zero(1) by auto
  have wf: "wf_pow (cumulative_proof_of_work (header g))" "wf_pow (cumulative_proof_of_work (header ?i))"
    by (simp_all add: zero wf_pow_def pow_MINIMUM_def POW_NUM_LIMBS_def)
  have "fork_choice_rule g ?i = ?i" "fork_choice_rule ?i g = ?i"
    using fork_choice_prefers [OF wf] fork_choice_prefers [OF wf(2,1)] h zero by (simp_all add: pow_MINIMUM_def)
  with h show ?thesis by (intro exI [of _ g] exI [of _ ?i] conjI)
qed

text \<open>Between two blocks of equal height without inputs the rule prefers whichever comes second, so a node that
  receives both in turn keeps switching.\<close>

theorem fork_choice_flips:
  assumes "height (header a) = height (header b)" "tk_inputs (block_tx a) = []" "tk_inputs (block_tx b) = []"
  shows "fork_choice_rule a b = b \<and> fork_choice_rule b a = a"
  using assms by (simp add: fork_choice_rule_def)

end
