(* ===== verification/Chain.thy ===== *)
theory Chain
  imports Block
begin

text \<open>
  What validation promises about a chain of blocks: a chain starts with the genesis block and every further block
  was validated against its predecessor (\<^verbatim>\<open>Block::validate\<close>) at some time of the host clock.

  The locale \<open>chain_laws\<close> states what this rests on: the laws of the field and of the mutator set, that the hash of a
  mutator set has no collisions (pairs, windows and bagged peaks are hashed injectively), and that a Merkle mountain
  range without leafs has no peaks.
\<close>

section \<open>Chains\<close>

text \<open>The host clock, in milliseconds, is far from the end of the field.\<close>

definition sane_clock :: "'f bfield \<Rightarrow> 'f timestamp \<Rightarrow> bool" where
  "sane_clock F now \<longleftrightarrow> unat (to_millis F now) < 2 ^ 63"

inductive valid_chain ::
  "('d, 'm, 'p, 'f, 'c, 's) block_env \<Rightarrow> 'd list \<Rightarrow> network \<Rightarrow> ('d, 'm, 'p, 'f, 'c, 's) block list \<Rightarrow> bool"
  for E A net where
  genesis_chain: "genesis E A net = Inr g \<Longrightarrow> valid_chain E A net [g]"
| next_block: "valid_chain E A net (p # bs) \<Longrightarrow> sane_clock (env_field E) now \<Longrightarrow>
    validate E b p now net = Inr (Inr ()) \<Longrightarrow> valid_chain E A net (b # p # bs)"

inductive_cases valid_chainE: "valid_chain E A net bs"

lemma valid_chain_nonempty: "valid_chain E A net bs \<Longrightarrow> bs \<noteq> []"
  by (induction rule: valid_chain.induct) auto

definition spent_index_sets :: "('d, 'm, 'p, 'f, 'c, 's) block_env \<Rightarrow> ('d, 'm, 'p, 'f, 'c, 's) block \<Rightarrow> absolute_index_set list" where
  "spent_index_sets E b = (case try_unpack_inputs E (tk_inputs (block_tx b)) of
     Inr (Some inputs) \<Rightarrow> map absolute_indices inputs | _ \<Rightarrow> [])"

text \<open>The minimum time between two blocks of a network, in milliseconds, and the difficulty of the blocks above the
  genesis block of a chain that lists its tip first.\<close>

definition min_millis :: "network \<Rightarrow> nat" where
  "min_millis net = (case net of RegTest \<Rightarrow> 1 | TestnetMock \<Rightarrow> 100 | _ \<Rightarrow> 60000)"

definition chain_work :: "('d, 'm, 'p, 'f, 'c, 's) block list \<Rightarrow> nat" where
  "chain_work bs = sum_list (map (\<lambda>b. difficulty_to_biguint (bh_difficulty (header b))) (butlast bs))"

definition total_coinbase :: "('d, 'm, 'p, 'f, 'c, 's) block list \<Rightarrow> int" where
  "total_coinbase bs = sum_list (map (\<lambda>b. to_nau (coinbase_amount b)) bs)"

locale chain_laws =
  mutator_set_crypto "env_crypto E" leafs + bfield_laws "env_field E"
  for E :: "('d, 'm, 'p, 'f, 'c, 's) block_env" and leafs :: "'m \<Rightarrow> 'd list" +
  assumes pair_inj: "hash_pair (env_crypto E) a b = hash_pair (env_crypto E) c d \<Longrightarrow> a = c \<and> b = d"
    and window_inj: "inj (hash_window (env_crypto E))"
    and peaks_inj: "inj (bag_peaks (env_crypto E))"
    and no_peaks: "get_peak_heights (env_rrl E) 0 = []"

section \<open>Spending\<close>

text \<open>What is unpacked has sorted dictionaries and positions below \<open>2 ^ 76\<close> (\<^verbatim>\<open>AbsoluteIndexTooBig\<close> otherwise), and records
  without inactive positions and without chunks, the empty list among them, unpack to themselves.\<close>

lemma try_unpack_inputs_Some: "try_unpack_inputs E packed = Inr (Some inputs) \<longleftrightarrow>
    rrl_try_unpack (env_crypto E) (env_rrl E) packed = Inr (Inr inputs)"
  by (cases "rrl_try_unpack (env_crypto E) (env_rrl E) packed") (simp_all add: try_unpack_inputs_def bind_res_def split: sum.splits)

lemma unpack_fits: "try_unpack_inputs E packed = Inr (Some inputs) \<Longrightarrow> list_all fits_window inputs"
  unfolding try_unpack_inputs_Some by (blast dest: try_unpack_fits)

lemma no_leafs: "aocl_to_swbfi_leaf_counts 1 = 0" "chunk_indices_below 0 sets = Inr []"
  by (simp_all add: aocl_to_swbfi_leaf_counts_def saturating_sub_w_def BATCH_SIZE_def chunk_indices_below_def)

lemma unpack_recent:
  assumes no_peaks: "get_peak_heights (env_rrl E) 0 = []" and none: "\<forall>rr\<in>set rrs. target_chunks rr = cd_empty"
    and fit: "fitting_sets (map absolute_indices rrs)"
  shows "try_unpack_inputs E rrs = Inr (Some rrs)"
proof -
  let ?R = "env_rrl E"
  let ?l = "\<lparr>index_sets = map absolute_indices rrs, authentication_structures = [], rrl_chunks = [], num_leafs_aocl = 1\<rparr>"
  note defs = bind_res_def assert_then_def try_then_def reject_if_def Let_def no_leafs no_peaks
  have "all_entries rrs = []" using none by (auto simp: all_entries_def cd_empty_def)
  moreover have "validate_consistency ?R ?l = Inr (Inr ())"
    by (simp add: validate_consistency_def observed_chunk_indices_def defs)
  ultimately have dec: "decode_from_vec ?R rrs = Inr (Inr ?l)"
    using observed_from_sets_ok [OF fit, of 0] by (simp add: decode_from_vec_def estimate_num_leafs_aocl_def defs)
  have "removal_record_of ?R 0 [] 0 m sm (absolute_indices rr) = Inr rr" if "rr \<in> set rrs" for m sm rr
    using none that by (simp add: removal_record_of_def cd_new_def cd_empty_def defs)
  then have "traverse (removal_record_of ?R 0 [] 0 m sm) (map absolute_indices rrs) = Inr rrs" for m sm
    by (induction rrs) (simp_all add: bind_res_def)
  then have "convert_to_vec (env_crypto E) ?R ?l = Inr rrs"
    by (simp add: convert_to_vec_def zip_eq_def BATCH_SIZE_def defs)
  with dec show ?thesis by (simp add: try_unpack_inputs_def rrl_try_unpack_def defs)
qed

lemma genesis_coins: "PREMINE_MAX_SIZE = Inr (NativeCurrencyAmount 80000000000000000)" "coins 0 = Inr (NativeCurrencyAmount 0)"
  unfolding PREMINE_MAX_SIZE_def using coins_small [of 800000000] coins_small [of 0] by simp_all

lemma genesis_block:
  assumes "genesis E A net = Inr g"
  shows "header g = genesis_header E net" "tk_inputs (block_tx g) = []"
    "mutator_set_accumulator (body g) = foldl (ms_add (env_crypto E)) (ms_default (env_crypto E)) (map AdditionRecord A)"
    "coinbase (block_tx g) = Some (NativeCurrencyAmount 80000000000000000)"
  using assms by (auto simp: genesis_def bind_res_def Let_def block_new_def genesis_coins)

lemma guesser_records_length: "guesser_fee_addition_records E b = Inr rs \<Longrightarrow> length rs \<le> 1"
  by (auto simp: guesser_fee_addition_records_def kernel_guesser_fee_addition_records_def guesser_fee_utxos_def
      bind_res_def Let_def split: sum.splits if_splits)

lemma guesser_records_total: "\<not> is_negative (fee (block_tx b)) \<Longrightarrow> \<exists>rs. guesser_fee_addition_records E b = Inr rs"
  by (simp add: guesser_fee_addition_records_def kernel_guesser_fee_addition_records_def guesser_fee_utxos_def
      total_guesser_reward_def bind_res_def Let_def)

context chain_laws
begin

abbreviation reachable :: "'m mutator_set \<Rightarrow> bool" where
  "reachable ms \<equiv> (ms_step (env_crypto E))\<^sup>*\<^sup>* (ms_default (env_crypto E)) ms"

abbreviation num_outputs :: "'m mutator_set \<Rightarrow> nat" where
  "num_outputs ms \<equiv> length (leafs (aocl ms))"

lemma ms_hash_inj: "ms_hash (env_crypto E) a = ms_hash (env_crypto E) b \<Longrightarrow> a = b"
  unfolding ms_hash_def by (drule pair_inj)+ (auto dest!: pair_inj injD [OF window_inj] injD [OF peaks_inj])

lemma additions_reachable:
  assumes "reachable ms" "num_outputs ms + length as < 2 ^ 63"
  shows "reachable (foldl (ms_add (env_crypto E)) ms as) \<and>
    num_outputs (foldl (ms_add (env_crypto E)) ms as) = num_outputs ms + length as"
  using assms
proof (induction as arbitrary: ms)
  case (Cons r as)
  obtain cs where rep: "represents (env_crypto E) leafs ms cs" using reachable_represents [OF Cons.prems(1)] by blast
  have bound: "num_outputs ms < 2 ^ 63 - 1" using Cons.prems(2) by simp
  then have "unat (num_leafs (env_crypto E) (aocl ms)) < 2 ^ 63 - 1" using num_leafs_length [of "aocl ms"] by simp
  then have "reachable (ms_add (env_crypto E) ms r)" using Cons.prems(1) add_step by (metis rtranclp.rtrancl_into_rtrancl)
  moreover have "num_outputs (ms_add (env_crypto E) ms r) = num_outputs ms + 1"
    using add_represents [OF rep bound, of r] by auto
  ultimately show ?case using Cons.IH [of "ms_add (env_crypto E) ms r"] Cons.prems(2) by auto
qed simp

text \<open>The mutator set after a block whose own mutator set is reachable.\<close>

lemma after_guesser_fees:
  assumes "reachable (mutator_set_accumulator (body b))" "num_outputs (mutator_set_accumulator (body b)) + 1 < 2 ^ 63"
    and "guesser_fee_addition_records E b = Inr rs"
  obtains ms where "mutator_set_accumulator_after E b = Inr (Inr ms)"
    "(ms_step (env_crypto E))\<^sup>*\<^sup>* (mutator_set_accumulator (body b)) ms"
    "num_outputs ms \<le> num_outputs (mutator_set_accumulator (body b)) + 1"
proof -
  let ?m = "mutator_set_accumulator (body b)" and ?u = "\<lparr>removals = [], additions = rs\<rparr>"
  obtain cs where rep: "represents (env_crypto E) leafs ?m cs" using reachable_represents [OF assms(1)] by blast
  have len: "num_outputs ?m + length rs < 2 ^ 63" using guesser_records_length [OF assms(3)] assms(2) by simp
  obtain ms where ms: "apply_to_accumulator (env_crypto E) (env_proofs E) ?u ?m = Inr (ms, Inr ())"
    using additions_accepted [OF rep len] by blast
  note acc = update_accepted [OF assms(1) ms]
  have "mutator_set_accumulator_after E b = Inr (Inr ms)"
    using ms assms(3) by (simp add: mutator_set_accumulator_after_def body_mutator_set_after_def bind_res_def)
  moreover have "(ms_step (env_crypto E))\<^sup>*\<^sup>* ?m ms" using acc(1) len by simp
  moreover have "num_outputs ms = num_outputs ?m + length rs" using acc(4) len by simp
  ultimately show ?thesis using that guesser_records_length [OF assms(3)] by simp
qed

text \<open>The invariant of a chain: the mutator set after its tip.\<close>

definition chain_inv :: "nat \<Rightarrow> ('d, 'm, 'p, 'f, 'c, 's) block list \<Rightarrow> bool" where
  "chain_inv premine bs \<longleftrightarrow> (\<exists>ms. mutator_set_accumulator_after E (hd bs) = Inr (Inr ms) \<and> reachable ms \<and>
     num_outputs ms \<le> premine + 16385 * length bs \<and>
     distinct (concat (map (spent_index_sets E) bs)) \<and>
     (\<forall>a\<in>set (concat (map (spent_index_sets E) bs)). \<exists>ms0. reachable ms0 \<and> spends (env_crypto E) ms0 a ms))"

lemma genesis_inv:
  assumes "genesis E A net = Inr g" "length A \<le> 2 ^ 32"
  shows "chain_inv (length A) [g]"
proof -
  let ?m = "mutator_set_accumulator (body g)"
  have "leafs (aocl (ms_default (env_crypto E))) = []" by (simp add: ms_default_def leafs_empty)
  then have m: "reachable ?m" "num_outputs ?m = length A"
    using additions_reachable [OF rtranclp.rtrancl_refl, of "map AdditionRecord A"] assms(2)
    by (simp_all add: genesis_block(3) [OF assms(1)])
  have "is_genesis (env_field E) (height (header g))"
    by (simp add: genesis_block(1) [OF assms(1)] genesis_header_def is_genesis_def height_genesis_def)
  then have "guesser_fee_addition_records E g = Inr []"
    by (simp add: guesser_fee_addition_records_def kernel_guesser_fee_addition_records_def guesser_fee_utxos_def bind_res_def)
  from after_guesser_fees [OF m(1) _ this] m(2) assms(2) obtain ms where
    ms: "mutator_set_accumulator_after E g = Inr (Inr ms)" "(ms_step (env_crypto E))\<^sup>*\<^sup>* ?m ms" "num_outputs ms \<le> length A + 1"
    by auto
  have "spent_index_sets E g = []"
    by (simp add: spent_index_sets_def genesis_block(2) [OF assms(1)] unpack_recent [OF no_peaks] fitting_sets_def)
  with ms m(1) show ?thesis unfolding chain_inv_def by (intro exI [of _ ms]) (auto intro: rtranclp_trans)
qed

lemma next_inv:
  assumes inv: "chain_inv n (p # bs)" and val: "validate E b p now net = Inr (Inr ())"
    and bound: "n + 16385 * length (b # p # bs) < 2 ^ 63"
  shows "chain_inv n (b # p # bs)"
proof -
  let ?C = "env_crypto E" and ?m = "mutator_set_accumulator (body b)"
  from validate_transactionE [OF validate_header(8) [OF val]] obtain inputs before msa where
    t: "try_unpack_inputs E (tk_inputs (block_tx b)) = Inr (Some inputs)" "mutator_set_accumulator_after E p = Inr (Inr before)"
      "apply_to_accumulator ?C (env_proofs E) \<lparr>removals = inputs, additions = tk_outputs (block_tx b)\<rparr> before = Inr (msa, Inr ())"
      "ms_hash ?C msa = ms_hash ?C ?m" "\<not> is_negative (fee (block_tx b))"
      "length (tk_outputs (block_tx b)) \<le> max_num_outputs (infer_from net (height (header b)))" by metis
  have msa: "msa = ?m" using ms_hash_inj [OF t(4)] .
  from inv t(2) have pre: "reachable before" "num_outputs before \<le> n + 16385 * length (p # bs)"
      "distinct (concat (map (spent_index_sets E) (p # bs)))"
    and old: "\<forall>a\<in>set (concat (map (spent_index_sets E) (p # bs))). \<exists>ms0. reachable ms0 \<and> spends ?C ms0 a before"
    by (auto simp: chain_inv_def)
  have outs: "length (tk_outputs (block_tx b)) \<le> 16384"
    using t(6) by (cases "infer_from net (height (header b))") (simp add: MAX_NUM_INPUTS_OUTPUTS_ANNOUNCEMENTS_def)
  have len: "num_outputs before + length (additions \<lparr>removals = inputs, additions = tk_outputs (block_tx b)\<rparr>) < 2 ^ 63"
    using pre(2) outs bound by simp
  have "list_all fits_window (removals \<lparr>removals = inputs, additions = tk_outputs (block_tx b)\<rparr>)"
    using unpack_fits [OF t(1)] by simp
  note acc = update_accepted [OF pre(1) t(3) this len, unfolded msa]
  have num: "num_outputs ?m \<le> n + 16385 * length (p # bs) + 16384" using acc(4) pre(2) outs by simp
  obtain rs where "guesser_fee_addition_records E b = Inr rs" using guesser_records_total [OF t(5)] by blast
  from after_guesser_fees [OF rtranclp_trans [OF pre(1) acc(1)] _ this] num bound obtain ms where
    ms: "mutator_set_accumulator_after E b = Inr (Inr ms)" "(ms_step ?C)\<^sup>*\<^sup>* ?m ms" "num_outputs ms \<le> num_outputs ?m + 1"
    by auto
  have new: "spent_index_sets E b = map absolute_indices inputs" by (simp add: spent_index_sets_def t(1))
  have spent: "spends ?C before a ?m" if "a \<in> set (spent_index_sets E b)" for a using acc(3) that new by auto
  have "distinct (spent_index_sets E b)" using acc(2) new by simp
  moreover have "a \<noteq> a'" if "a \<in> set (spent_index_sets E b)" "a' \<in> set (concat (map (spent_index_sets E) (p # bs)))" for a a'
    using old that(2) spends_disjoint [OF _ _ rtranclp.rtrancl_refl spent [OF that(1)]] by blast
  ultimately have "distinct (concat (map (spent_index_sets E) (b # p # bs)))" using pre(3) by auto
  moreover have "\<exists>ms0. reachable ms0 \<and> spends ?C ms0 a ms" if "a \<in> set (concat (map (spent_index_sets E) (b # p # bs)))" for a
  proof (cases "a \<in> set (spent_index_sets E b)")
    case True
    then show ?thesis using spends_later [OF spent ms(2)] pre(1) by blast
  next
    case False
    with that old obtain ms0 where "reachable ms0" "spends ?C ms0 a before" by auto
    then show ?thesis using spends_later [OF _ rtranclp_trans [OF acc(1) ms(2)]] by blast
  qed
  moreover have "reachable ms" using rtranclp_trans [OF pre(1) rtranclp_trans [OF acc(1) ms(2)]] .
  ultimately show ?thesis unfolding chain_inv_def using ms(1,3) num by (intro exI [of _ ms]) simp
qed

lemma chain_invariant:
  assumes "valid_chain E A net bs" "length A \<le> 2 ^ 32" "length bs \<le> 2 ^ 48"
  shows "chain_inv (length A) bs"
  using assms(1,3)
proof (induction rule: valid_chain.induct)
  case (genesis_chain g)
  then show ?case using genesis_inv assms(2) by blast
next
  case (next_block p bs now b)
  then show ?case using assms(2) by (intro next_inv) auto
qed

section \<open>Headers\<close>

lemma millis_value: "unat v < bfe_P \<Longrightarrow> unat (to_millis (env_field E) (ts_millis (env_field E) v)) = unat v"
  by (simp add: to_millis_def ts_millis_def value_small)

lemma min_block_time_value: "unat (to_millis (env_field E) (minimum_block_time (env_field E) net)) = min_millis net"
  by (cases net) (simp_all add: min_millis_def to_millis_def ts_millis_def ts_seconds_def value_small bfe_P_def)

lemma target_interval_pos: "to_millis (env_field E) (target_block_interval (env_field E) net) \<noteq> 0"
  by (cases net) (simp_all add: to_millis_def ts_millis_def value_small bfe_P_def)

lemma timestamp_add_value:
  "unat (to_millis (env_field E) a) + unat (to_millis (env_field E) b) < bfe_P \<Longrightarrow>
   unat (to_millis (env_field E) (timestamp_add (env_field E) a b)) = unat (to_millis (env_field E) a) + unat (to_millis (env_field E) b)"
  by (simp add: to_millis_def timestamp_add_def value_add)

lemma genesis_difficulty_wf: "wf_difficulty (genesis_difficulty net)"
  by (cases net) (simp_all add: wf_difficulty_def difficulty_new_def difficulty_MINIMUM_def LIMBS_FOR_MINIMUM_def DIFFICULTY_NUM_LIMBS_def)

lemma expected_difficulty_wf:
  assumes "wf_difficulty (bh_difficulty p)" "expected_difficulty (env_field E) net p h = Inr d"
  shows "wf_difficulty d"
proof -
  from assms(2) consider "d = genesis_difficulty net"
    | "difficulty_control (env_field E) (bh_timestamp h) (bh_timestamp p) (bh_difficulty p)
         (target_block_interval (env_field E) net) (height p) = Inr d"
    by (auto simp: expected_difficulty_def bind_res_Inr split: if_splits)
  then show ?thesis
  proof cases
    case 2
    show ?thesis
    proof (cases "is_genesis (env_field E) (height p)")
      case True
      then show ?thesis using 2 assms(1) by (simp add: difficulty_control_def)
    next
      case False
      from difficulty_control_val [OF assms(1) False target_interval_pos] 2 show ?thesis by (metis sum.inject(2))
    qed
  qed (simp add: genesis_difficulty_wf)
qed

abbreviation block_time :: "('d, 'm, 'p, 'f, 'c, 's) block \<Rightarrow> nat" where
  "block_time b \<equiv> unat (to_millis (env_field E) (bh_timestamp (header b)))"

abbreviation block_no :: "('d, 'm, 'p, 'f, 'c, 's) block \<Rightarrow> nat" where
  "block_no b \<equiv> unat (height_value (env_field E) (height (header b)))"

text \<open>One step of the header laws.\<close>

lemma next_time:
  assumes "validate E b p now net = Inr (Inr ())" "sane_clock (env_field E) now" "block_time p < 2 ^ 63 + 300000"
  shows "block_time p + min_millis net \<le> block_time b" "block_time b < 2 ^ 63 + 300000"
proof -
  let ?F = "env_field E"
  have m: "unat (to_millis ?F (minimum_block_time ?F net)) = min_millis net" "min_millis net \<le> 60000"
    by (simp_all add: min_block_time_value) (simp add: min_millis_def split: network.splits)
  have "unat (to_millis ?F (timestamp_add ?F (bh_timestamp (header p)) (minimum_block_time ?F net))) = block_time p + min_millis net"
    using m assms(3) by (subst timestamp_add_value) (simp_all add: bfe_P_def)
  with validate_header(4) [OF assms(1)] show "block_time p + min_millis net \<le> block_time b"
    by (simp add: timestamp_le_def to_millis_def word_le_nat_alt)
  have limit: "unat (to_millis ?F (FUTUREDATING_LIMIT ?F)) = 300000"
    by (simp add: FUTUREDATING_LIMIT_def ts_minutes_def to_millis_def value_small bfe_P_def)
  have now: "unat (to_millis ?F now) < 2 ^ 63" using assms(2) by (simp add: sane_clock_def)
  then have "unat (to_millis ?F (timestamp_add ?F now (FUTUREDATING_LIMIT ?F))) = unat (to_millis ?F now) + 300000"
    using limit by (subst timestamp_add_value) (simp_all add: bfe_P_def)
  with validate_header(7) [OF assms(1)] now show "block_time b < 2 ^ 63 + 300000"
    by (simp add: timestamp_le_def to_millis_def word_le_nat_alt)
qed

lemma next_cumulative:
  assumes "validate E b p now net = Inr (Inr ())" "wf_pow (cumulative_proof_of_work (header p))" "wf_difficulty (bh_difficulty (header p))"
  shows "wf_pow (cumulative_proof_of_work (header b))" "wf_difficulty (bh_difficulty (header b))"
    "pow_to_biguint (cumulative_proof_of_work (header b)) =
       (pow_to_biguint (cumulative_proof_of_work (header p)) + difficulty_to_biguint (bh_difficulty (header b))) mod 2 ^ 192"
proof -
  show wf: "wf_difficulty (bh_difficulty (header b))" using expected_difficulty_wf [OF assms(3) validate_header(5) [OF assms(1)]] .
  then have "length (d_limbs (bh_difficulty (header b))) \<le> POW_NUM_LIMBS"
    by (simp add: wf_difficulty_def DIFFICULTY_NUM_LIMBS_def POW_NUM_LIMBS_def)
  from pow_add_adds [OF assms(2) this] validate_header(6) [OF assms(1)]
  show "wf_pow (cumulative_proof_of_work (header b))"
    "pow_to_biguint (cumulative_proof_of_work (header b)) =
       (pow_to_biguint (cumulative_proof_of_work (header p)) + difficulty_to_biguint (bh_difficulty (header b))) mod 2 ^ 192"
    by simp_all
qed

text \<open>The laws of the headers of a chain, tip first.\<close>

definition headers_inv :: "network \<Rightarrow> ('d, 'm, 'p, 'f, 'c, 's) block list \<Rightarrow> bool" where
  "headers_inv net bs \<longleftrightarrow> block_no (hd bs) + 1 = length bs \<and>
     leafs (block_mmr_accumulator (body (hd bs))) = rev (map (block_hash E) (tl bs)) \<and>
     wf_pow (cumulative_proof_of_work (header (hd bs))) \<and> wf_difficulty (bh_difficulty (header (hd bs))) \<and>
     pow_to_biguint (cumulative_proof_of_work (header (hd bs))) = chain_work bs \<and>
     chain_work bs \<le> (length bs - 1) * 2 ^ 160 \<and>
     block_time (hd bs) < 2 ^ 63 + 300000 \<and>
     1784905200000 + min_millis net * (length bs - 1) \<le> block_time (hd bs) \<and>
     sorted_wrt (>) (map block_time bs)"

lemma genesis_headers:
  assumes "genesis E A net = Inr g"
  shows "headers_inv net [g]"
proof -
  have "block_mmr_accumulator (body g) = mmr_empty (env_crypto E)"
    using assms by (auto simp: genesis_def bind_res_def Let_def block_new_def genesis_coins)
  then show ?thesis
    using genesis_difficulty_wf [of net]
    by (simp add: headers_inv_def genesis_block(1) [OF assms] genesis_header_def height_value_def height_genesis_def value_zero
        leafs_empty wf_pow_def pow_MINIMUM_def chain_work_def launch_date_def to_millis_def value_small bfe_P_def)
qed

lemma next_headers:
  assumes "headers_inv net (p # bs)" "validate E b p now net = Inr (Inr ())" "sane_clock (env_field E) now" "length bs < 2 ^ 32 - 1"
  shows "headers_inv net (b # p # bs)"
proof -
  have inv: "block_no p = length bs" "leafs (block_mmr_accumulator (body p)) = rev (map (block_hash E) bs)"
      "wf_pow (cumulative_proof_of_work (header p))" "wf_difficulty (bh_difficulty (header p))"
      "pow_to_biguint (cumulative_proof_of_work (header p)) = chain_work (p # bs)"
      "chain_work (p # bs) \<le> length bs * 2 ^ 160" "block_time p < 2 ^ 63 + 300000"
      "1784905200000 + min_millis net * length bs \<le> block_time p" "sorted_wrt (>) (map block_time (p # bs))"
    using assms(1) unfolding headers_inv_def by simp_all
  note val = validate_header [OF assms(2)] and time = next_time [OF assms(2,3) inv(7)]
    and cum = next_cumulative [OF assms(2) inv(3,4)]
  have "block_no b = length bs + 1"
    using inv(1) assms(4) unfolding val(1) height_next_value by (simp add: bfe_P_def)
  moreover have "leafs (block_mmr_accumulator (body b)) = rev (map (block_hash E) (p # bs))"
    unfolding val(3) leafs_append inv(2) by simp
  moreover have work: "chain_work (b # p # bs) = difficulty_to_biguint (bh_difficulty (header b)) + chain_work (p # bs)"
    by (simp add: chain_work_def)
  moreover have d: "difficulty_to_biguint (bh_difficulty (header b)) < 2 ^ 160" using d_val_lt [OF cum(2)] by simp
  moreover have "chain_work (b # p # bs) \<le> (length bs + 1) * 2 ^ 160"
    unfolding work using d inv(6) by (simp only: add_mult_distrib mult_1)
  moreover have "pow_to_biguint (cumulative_proof_of_work (header b)) = chain_work (b # p # bs)"
  proof -
    have "(length bs + 1) * 2 ^ 160 < 2 ^ 32 * 2 ^ 160" using assms(4) by (intro mult_strict_right_mono) simp_all
    with \<open>chain_work (b # p # bs) \<le> (length bs + 1) * 2 ^ 160\<close> have "chain_work (b # p # bs) < 2 ^ 192" by (simp add: power_add [symmetric])
    then show ?thesis using cum(3) inv(5) work by (simp add: add.commute)
  qed
  moreover have "0 < min_millis net" by (simp add: min_millis_def split: network.splits)
  then have "sorted_wrt (>) (map block_time (b # p # bs))" using inv(9) time(1) by auto
  moreover have "1784905200000 + min_millis net * (length bs + 1) \<le> block_time b"
    using inv(8) time(1) by (simp add: algebra_simps)
  ultimately show ?thesis unfolding headers_inv_def using cum(1,2) time(2) by simp
qed

lemma chain_headers_inv:
  assumes "valid_chain E A net bs" "length bs \<le> 2 ^ 32"
  shows "headers_inv net bs"
  using assms
proof (induction rule: valid_chain.induct)
  case (genesis_chain g)
  then show ?case by (intro genesis_headers)
next
  case (next_block p bs now b)
  then show ?case by (intro next_headers) auto
qed

section \<open>Supply\<close>

lemma validated_coinbase:
  assumes "validate E b p now net = Inr (Inr ())"
  shows "0 \<le> to_nau (coinbase_amount b)" "to_nau (coinbase_amount b) \<le> 100000000 * int (subsidy_coins (block_no b))"
proof -
  have "validate_coinbase (env_field E) b = Inr (Inr ())"
    using validate_transactionE [OF validate_header(8) [OF assms]] by metis
  then show "0 \<le> to_nau (coinbase_amount b)" "to_nau (coinbase_amount b) \<le> 100000000 * int (subsidy_coins (block_no b))"
    by (auto simp: validate_coinbase_def block_subsidy_coins accept_simps coinbase_amount_def amount_zero_def is_negative_def
        amount_order_defs split: option.splits)
qed

lemma chain_supply:
  assumes "valid_chain E A net bs" "length bs \<le> 2 ^ 32"
  shows "0 \<le> total_coinbase bs \<and> total_coinbase bs \<le> 80000000000000000 + 100000000 * int (\<Sum>n<length bs. subsidy_coins n)"
  using assms
proof (induction rule: valid_chain.induct)
  case (genesis_chain g)
  then show ?case by (simp add: total_coinbase_def coinbase_amount_def genesis_block(4))
next
  case (next_block p bs now b)
  have "valid_chain E A net (b # p # bs)" using valid_chain.next_block [OF next_block.hyps] .
  from chain_headers_inv [OF this next_block.prems] have "block_no b = length (p # bs)" by (simp add: headers_inv_def)
  with validated_coinbase [OF next_block.hyps(3)] next_block show ?case by (simp add: total_coinbase_def)
qed

end

section \<open>An instance, and a chain of two blocks\<close>

definition sym_tip5 :: "(sym, bfe) tip5" where
  "sym_tip5 = \<lparr>tip5_pair = SPair, tip5_varlen = (\<lambda>xs. SDigest (sum_list (map (\<lambda>x. unat (bf_value bfe_ops x)) xs))),
     tip5_values = (\<lambda>d. replicate 5 (bf_zero bfe_ops)), tip5_digest = (\<lambda>xs. SDigest 0), tip5_default = SDigest 0\<rparr>"

definition sym_env :: "(sym, sym list, unit, bfe, sym, unit) block_env" where
  "sym_env = tree_env sym_tip5 bfe_ops sym_crypto (\<lambda>_. 0) (\<lambda>_. None) (SDigest 0)"

lemma sym_env_simps [simp]:
  "env_crypto sym_env = sym_crypto" "env_field sym_env = bfe_ops" "env_proofs sym_env = no_mp_ops"
  "single_proof_claim sym_env d r = d" "block_program_verify sym_env bd ap pr nt" "enc_block sym_env b = []"
  "env_rrl sym_env = no_path_ops"
  by (simp_all add: sym_env_def tree_env_def)

interpretation sym_chain: chain_laws sym_env id
proof (intro_locales)
  show "mutator_set_crypto (env_crypto sym_env) id" by (simp add: symbolic.mutator_set_crypto_axioms)
  show "bfield_laws (env_field sym_env)" by (simp add: goldilocks.bfield_laws_axioms)
  show "chain_laws_axioms sym_env"
    by unfold_locales (auto simp: sym_crypto_def inj_def no_path_ops_def)
qed

lemma unpack_one_position: "unat x < 2 ^ 76 \<Longrightarrow> try_unpack_inputs sym_env [one_position_record x] = Inr (Some [one_position_record x])"
  using one_position_array [of x]
  by (intro unpack_recent [OF sym_chain.no_peaks]) (simp_all add: one_position_record_def fitting_sets_def)

definition first_transaction :: "(sym, unit, bfe) transaction_kernel" where
  "first_transaction =
     \<lparr>tk_inputs = [one_position_record 5], tk_outputs = [], announcements = [], fee = NativeCurrencyAmount 0,
      coinbase = Some (NativeCurrencyAmount 1280000000000), tk_timestamp = launch_date bfe_ops Main,
      mutator_set_hash = ms_hash sym_crypto (ms_default sym_crypto), merge_bit = True\<rparr>"

definition first_block ::
  "(sym, sym list, unit, bfe, sym, unit) block \<Rightarrow> sym list mutator_set \<Rightarrow> (sym, bfe) block_header \<Rightarrow> (sym, sym list, unit, bfe, sym, unit) block" where
  "first_block g ms h = block_new h
     \<lparr>body_kernel = first_transaction, mutator_set_accumulator = ms, lock_free_mmr_accumulator = [],
      block_mmr_accumulator = [block_hash sym_env g]\<rparr>
     (BlockAppendix [mast_hash sym_env (kernel_mast_sequences sym_env first_transaction)]) (BlockSingleProof ())"

lemma two_block_chain:
  "\<exists>g b. valid_chain sym_env [] Main [b, g] \<and> spent_index_sets sym_env b = [absolute_indices (one_position_record 5)]"
proof -
  let ?F = "bfe_ops" and ?start = "ms_default sym_crypto" and ?rr = "one_position_record 5"
  obtain g where g: "genesis sym_env [] Main = Inr g" by (simp add: genesis_def genesis_coins bind_res_def Let_def)
  note gen = genesis_block [OF g]
  let ?launch = "launch_date ?F Main"
  let ?t = "timestamp_add ?F ?launch (minimum_block_time ?F Main)"
  have hg: "height (header g) = height_genesis ?F" "bh_timestamp (header g) = ?launch" "bh_difficulty (header g) = genesis_difficulty Main"
    by (simp_all add: gen(1) genesis_header_def)
  have genh: "is_genesis ?F (height (header g))" by (simp add: hg is_genesis_def height_genesis_def)
  obtain h where h: "template_header sym_env (header g) (block_hash sym_env g) ?t (target_block_interval ?F Main) = Inr h"
    using genh by (simp add: template_header_def bind_res_def difficulty_control_def)
  then have hh: "height h = height_next ?F (height (header g))" "prev_block_digest h = block_hash sym_env g" "bh_timestamp h = ?t"
      "bh_difficulty h = genesis_difficulty Main"
      "cumulative_proof_of_work h = pow_add (cumulative_proof_of_work (header g)) (d_limbs (genesis_difficulty Main))"
    using genh by (auto simp: template_header_def bind_res_def difficulty_control_def hg)
  have can: "can_remove sym_crypto ?start ?rr = Inr True"
    by (rule one_position_can_remove) (simp_all add: CHUNK_SIZE_def WINDOW_SIZE_def)
  have fits: "fits_window ?rr" by (rule one_position_fits) simp
  obtain ms1 where ms1: "ms_remove sym_crypto ?start ?rr = Inr ms1"
    using symbolic.remove_represents [OF symbolic.represents_default can fits] by blast
  have unpack: "try_unpack_inputs sym_env [?rr] = Inr (Some [?rr])" by (rule unpack_one_position) simp
  let ?b = "first_block g ms1 h"
  have b: "header ?b = h" "body_kernel (body ?b) = first_transaction" "mutator_set_accumulator (body ?b) = ms1"
    by (simp_all add: first_block_def block_new_def)
  have after: "mutator_set_accumulator_after sym_env g = Inr (Inr ?start)"
    using genh gen(3)
    by (simp add: mutator_set_accumulator_after_def guesser_fee_addition_records_def kernel_guesser_fee_addition_records_def
        guesser_fee_utxos_def body_mutator_set_after_def bind_res_def apply_to_accumulator_def
        apply_to_accumulator_and_records_inner_def apply_removals.simps)
  have sub: "block_subsidy ?F (height h) = Inr (NativeCurrencyAmount 1280000000000)"
  proof -
    have "unat (height_value ?F (height h)) = 1"
      unfolding hh(1) hg(1) goldilocks.height_next_value
      by (simp add: height_value_def height_genesis_def goldilocks.value_zero bfe_P_def)
    then show ?thesis
      by (simp add: block_subsidy_coins subsidy_coins_def subsidy_table_def BLOCK_SUBSIDY_BY_GENERATION_def)
  qed
  have launch: "unat (to_millis ?F ?launch) = 1784905200000"
    by (simp add: launch_date_def to_millis_def goldilocks.value_small bfe_P_def)
  have min: "unat (to_millis ?F (minimum_block_time ?F Main)) = 60000"
    by (simp add: ts_seconds_def to_millis_def goldilocks.value_small bfe_P_def)
  have t: "unat (to_millis ?F ?t) = 1784905260000"
    using launch min by (simp add: timestamp_add_def to_millis_def goldilocks.value_add bfe_P_def)
  have up: "apply_to_accumulator sym_crypto no_mp_ops \<lparr>removals = [?rr], additions = []\<rparr> ?start = Inr (ms1, Inr ())"
    by (rule one_position_update [OF can ms1])
  have tx: "validate_transaction sym_env ?b g Launch = Inr (Inr ())"
    using sub launch t
    by (simp add: validate_transaction_def b after unpack can up first_transaction_def bind_res_def try_then_def reject_if_def
        validate_coinbase_def is_negative_def amount_order_defs timestamp_le_def hh MAX_NUM_INPUTS_OUTPUTS_ANNOUNCEMENTS_def
        word_le_nat_alt flip: to_millis_def)
  have mmr: "block_mmr_accumulator (body g) = []"
    using g by (auto simp: genesis_def bind_res_def Let_def block_new_def genesis_coins sym_crypto_def)
  have limit: "unat (to_millis ?F (FUTUREDATING_LIMIT ?F)) = 300000"
    by (simp add: FUTUREDATING_LIMIT_def ts_minutes_def to_millis_def goldilocks.value_small bfe_P_def)
  have future: "\<not> timestamp_le ?F (timestamp_add ?F ?t (FUTUREDATING_LIMIT ?F)) ?t"
    using t limit sym_chain.timestamp_add_value [of ?t "FUTUREDATING_LIMIT ?F"]
    by (simp add: timestamp_le_def to_millis_def word_le_nat_alt bfe_P_def)
  have diff: "expected_difficulty ?F Main (header g) h = Inr (genesis_difficulty Main)"
    using genh by (simp add: expected_difficulty_def should_reset_difficulty_def bind_res_def difficulty_control_def hg)
  have pok: "validate_block_proof sym_env ?b Main = Inr (Inr ())"
    by (simp add: validate_block_proof_def consensus_claims_def first_block_def block_new_def reject_if_def MAX_NUM_CLAIMS_def)
  have "block_mmr_accumulator (body ?b) = fst (mmr_append sym_crypto (block_mmr_accumulator (body g)) (block_hash sym_env g))"
    by (simp add: mmr first_block_def block_new_def sym_crypto_def)
  moreover have "timestamp_le ?F (timestamp_add ?F (bh_timestamp (header g)) (minimum_block_time ?F Main)) ?t"
    by (simp add: hg timestamp_le_def)
  ultimately have "validate sym_env ?b g ?t Main = Inr (Inr ())"
    using tx diff pok future
    by (simp add: validate_def Let_def b(1) hh reject_if_def try_then_def bind_res_def del: minimum_block_time.simps)
  moreover have "sane_clock (env_field sym_env) ?t" using t by (simp add: sane_clock_def)
  ultimately have "valid_chain sym_env [] Main [?b, g]" by (intro next_block genesis_chain [OF g])
  moreover have "spent_index_sets sym_env ?b = [absolute_indices ?rr]"
    by (simp add: spent_index_sets_def b(2) first_transaction_def unpack)
  ultimately show ?thesis by blast
qed

section \<open>Properties\<close>

text \<open>(C1) No double spend on a chain: in a chain of validated blocks, no index set is spent twice, neither by two
  inputs of one block nor by two blocks. Validation never accepts a block that would do so.\<close>

theorem chain_no_double_spend:
  assumes "chain_laws E leafs" "valid_chain E A net bs" "length A \<le> 2 ^ 32" "length bs \<le> 2 ^ 48"
  shows "distinct (concat (map (spent_index_sets E) bs))"
  using chain_laws.chain_invariant [OF assms] unfolding chain_laws.chain_inv_def [OF assms(1)] by blast

theorem chain_no_double_spend_witness:
  "\<exists>bs. valid_chain sym_env [] Main bs \<and> length bs = 2 \<and> concat (map (spent_index_sets sym_env) bs) \<noteq> [] \<and>
     distinct (concat (map (spent_index_sets sym_env) bs))"
proof -
  obtain g b where c: "valid_chain sym_env [] Main [b, g]" "spent_index_sets sym_env b = [absolute_indices (one_position_record 5)]"
    using two_block_chain by blast
  with chain_no_double_spend [OF sym_chain.chain_laws_axioms c(1)] show ?thesis by (intro exI [of _ "[b, g]"]) simp
qed

text \<open>(C3) The headers of a chain of validated blocks: the tip has as height the number of its ancestors, its MMR of
  blocks lists the hashes of all ancestors in order, its cumulative proof-of-work is the exact sum of the
  difficulties above the genesis block, timestamps strictly increase, and by at least the minimum block time per block.\<close>

theorem chain_headers:
  assumes "chain_laws E leafs" "valid_chain E A net bs" "length bs \<le> 2 ^ 32"
  shows "unat (height_value (env_field E) (height (header (hd bs)))) + 1 = length bs \<and>
    leafs (block_mmr_accumulator (body (hd bs))) = rev (map (block_hash E) (tl bs)) \<and>
    pow_to_biguint (cumulative_proof_of_work (header (hd bs))) = chain_work bs \<and>
    sorted_wrt (>) (map (\<lambda>b. unat (to_millis (env_field E) (bh_timestamp (header b)))) bs) \<and>
    1784905200000 + min_millis net * (length bs - 1) \<le> unat (to_millis (env_field E) (bh_timestamp (header (hd bs))))"
  using chain_laws.chain_headers_inv [OF assms] unfolding chain_laws.headers_inv_def [OF assms(1)] by blast

theorem chain_headers_witness:
  "\<exists>b g. valid_chain sym_env [] Main [b, g] \<and> unat (height_value bfe_ops (height (header b))) = 1 \<and>
     block_mmr_accumulator (body b) = [block_hash sym_env g] \<and>
     unat (to_millis bfe_ops (bh_timestamp (header g))) < unat (to_millis bfe_ops (bh_timestamp (header b)))"
proof -
  obtain g b where c: "valid_chain sym_env [] Main [b, g]" using two_block_chain by blast
  with chain_headers [OF sym_chain.chain_laws_axioms c] show ?thesis by (intro exI [of _ b] exI [of _ g]) simp
qed



end
