(* ===== verification/Peer.thy ===== *)
theory Peer
  imports Block Sync_Mask
begin

text \<open>
  \<^verbatim>\<open>p2p/src/peer.rs\<close> and the modules below it: the standing of a peer, the handshake, the messages that peers exchange,
  the objects in which blocks and transactions travel, and the challenge that a peer has to answer before the node
  starts to synchronise with it.

  Parameters are the parser of semantic versions (crate \<^verbatim>\<open>semver\<close>), the random number generator (crate \<^verbatim>\<open>rand\<close>) and the
  arithmetic of \<^verbatim>\<open>f64\<close> (\<open>f64_ops\<close>). Times of the host clock are integers, in nanoseconds. Connections between the
  records here: a \<open>transfer_block\<close> becomes a \<open>block\<close> unless it claims to be the genesis block.
\<close>

section \<open>Standing\<close>

type_synonym system_time = int

datatype ('d, 'f) negative_peer_sanction =
    InvalidBlock "'f block_height" 'd
  | DifferentGenesis
  | ForkResolutionError "'f block_height" "16 word" 'd
  | SynchronizationTimeout
  | InvalidSyncChallenge
  | InvalidSyncChallengeResponse
  | TimedOutSyncChallengeResponse
  | UnexpectedSyncChallengeResponse
  | FishyPowEvolutionChallengeResponse
  | FishyDifficultiesChallengeResponse
  | FloodPeerListResponse
  | BlockRequestUnknownHeight
  | InvalidMessage
  | NonMinedTransactionHasCoinbase
  | TooShortBlockBatch
  | ReceivedBatchBlocksOutsideOfSync
  | BatchBlocksInvalidStartHeight
  | BatchBlocksUnknownRequest
  | BatchBlocksRequestEmpty
  | BatchBlocksRequestTooManyDigests
  | InvalidTransaction
  | UnconfirmableTransaction
  | TransactionWithNegativeFee
  | DoubleSpendingTransaction
  | CannotApplyTransactionToMutatorSet
  | OversizedAnnouncement
  | OversizedBlock
  | InvalidBlockMmrAuthentication
  | InvalidTransferBlock
  | BlockProposalNotFound
  | InvalidBlockProposal
  | NonFavorableBlockProposal
  | BlockProposalFromBlockedPeer
  | RequestForUnknownBlock
  | RequestForGenesisBlock
  | UnwantedMessage
  | NoStandingFoundMaybeCrash
  | ReceivedSyncChallenge
  | UnrelayableTransaction

datatype positive_peer_sanction = ValidBlocks nat | NewBlockProposal

datatype ('d, 'f) peer_sanction =
    Positive positive_peer_sanction
  | Negative "('d, 'f) negative_peer_sanction"

text \<open>\<^verbatim>\<open>i32\<close> values, with saturating operations.\<close>

definition i32_MIN :: int where
  "i32_MIN = - (2 ^ 31)"

definition i32_MAX :: int where
  "i32_MAX = 2 ^ 31 - 1"

definition saturate_i32 :: "int \<Rightarrow> int" where
  "saturate_i32 x = max i32_MIN (min i32_MAX x)"

fun negative_severity :: "('d, 'f) negative_peer_sanction \<Rightarrow> int" where
  "negative_severity (InvalidBlock _ _) = - 10"
| "negative_severity DifferentGenesis = i32_MIN"
| "negative_severity (ForkResolutionError _ n _) = saturate_i32 (int (unat n) * (- 1))"
| "negative_severity SynchronizationTimeout = - 5"
| "negative_severity FloodPeerListResponse = - 2"
| "negative_severity InvalidMessage = - 2"
| "negative_severity TooShortBlockBatch = - 2"
| "negative_severity ReceivedBatchBlocksOutsideOfSync = - 2"
| "negative_severity BatchBlocksInvalidStartHeight = - 2"
| "negative_severity BatchBlocksUnknownRequest = - 10"
| "negative_severity BlockRequestUnknownHeight = - 1"
| "negative_severity InvalidTransaction = - 10"
| "negative_severity UnconfirmableTransaction = - 2"
| "negative_severity TransactionWithNegativeFee = - 22"
| "negative_severity DoubleSpendingTransaction = - 14"
| "negative_severity CannotApplyTransactionToMutatorSet = - 3"
| "negative_severity OversizedAnnouncement = - 10"
| "negative_severity OversizedBlock = - 50"
| "negative_severity NonMinedTransactionHasCoinbase = - 10"
| "negative_severity NoStandingFoundMaybeCrash = - 10"
| "negative_severity BlockProposalNotFound = - 1"
| "negative_severity InvalidBlockProposal = - 10"
| "negative_severity RequestForUnknownBlock = - 5"
| "negative_severity RequestForGenesisBlock = - 100"
| "negative_severity UnwantedMessage = - 1"
| "negative_severity NonFavorableBlockProposal = - 1"
| "negative_severity BlockProposalFromBlockedPeer = - 10"
| "negative_severity BatchBlocksRequestEmpty = - 10"
| "negative_severity InvalidSyncChallenge = - 50"
| "negative_severity InvalidSyncChallengeResponse = - 500"
| "negative_severity UnexpectedSyncChallengeResponse = - 1"
| "negative_severity InvalidTransferBlock = - 50"
| "negative_severity TimedOutSyncChallengeResponse = - 50"
| "negative_severity InvalidBlockMmrAuthentication = - 4"
| "negative_severity BatchBlocksRequestTooManyDigests = - 50"
| "negative_severity FishyPowEvolutionChallengeResponse = - 51"
| "negative_severity FishyDifficultiesChallengeResponse = - 51"
| "negative_severity ReceivedSyncChallenge = - 50"
| "negative_severity UnrelayableTransaction = - 10"

text \<open>A count that is no \<^verbatim>\<open>i32\<close> is worth \<^verbatim>\<open>i32::MAX\<close>.\<close>

fun positive_severity :: "positive_peer_sanction \<Rightarrow> int" where
  "positive_severity (ValidBlocks number) = (if int number \<le> i32_MAX then saturate_i32 (int number * 10) else i32_MAX)"
| "positive_severity NewBlockProposal = 7"

fun severity :: "('d, 'f) peer_sanction \<Rightarrow> int" where
  "severity (Positive positive_sanction) = positive_severity positive_sanction"
| "severity (Negative negative_sanction) = negative_severity negative_sanction"

record ('d, 'f) peer_standing =
  standing :: int
  latest_punishment :: "(('d, 'f) negative_peer_sanction \<times> system_time) option"
  latest_reward :: "(positive_peer_sanction \<times> system_time) option"
  peer_tolerance :: int

datatype standing_exceeds_ban_threshold = StandingExceedsBanThreshold

definition standing_new :: "16 word \<Rightarrow> ('d, 'f) peer_standing res" where
  "standing_new tolerance =
     assert_then (tolerance > 0)
       (Inr \<lparr>standing = 0, latest_punishment = None, latest_reward = None, peer_tolerance = int (unat tolerance)\<rparr>)"

definition standing_is_negative :: "('d, 'f) peer_standing \<Rightarrow> bool" where
  "standing_is_negative p \<longleftrightarrow> standing p < 0"

definition is_bad :: "('d, 'f) peer_standing \<Rightarrow> bool" where
  "is_bad p \<longleftrightarrow> standing p \<le> - peer_tolerance p"

definition is_good :: "('d, 'f) peer_standing \<Rightarrow> bool" where
  "is_good p \<longleftrightarrow> \<not> is_bad p"

text \<open>\<^verbatim>\<open>clamp\<close> panics when its bounds are in the wrong order.\<close>

definition clamp :: "int \<Rightarrow> int \<Rightarrow> int \<Rightarrow> int res" where
  "clamp lo hi x = assert_then (lo \<le> hi) (Inr (max lo (min hi x)))"

definition sanction ::
  "system_time \<Rightarrow> ('d, 'f) peer_standing \<Rightarrow> ('d, 'f) peer_sanction
     \<Rightarrow> ((standing_exceeds_ban_threshold + unit) \<times> ('d, 'f) peer_standing) res" where
  "sanction now p s =
     bind_res (clamp (- peer_tolerance p) (peer_tolerance p) (saturate_i32 (standing p + severity s))) (\<lambda>new.
       let p = p\<lparr>standing := new\<rparr>;
           p = (case s of
                  Negative n \<Rightarrow> p\<lparr>latest_punishment := Some (n, now)\<rparr>
                | Positive r \<Rightarrow> p\<lparr>latest_reward := Some (r, now)\<rparr>)
       in Inr (if is_good p then Inr () else Inl StandingExceedsBanThreshold, p))"

definition clear_standing :: "('d, 'f) peer_standing \<Rightarrow> ('d, 'f) peer_standing" where
  "clear_standing p = p\<lparr>standing := 0, latest_punishment := None, latest_reward := None\<rparr>"

section \<open>Connections\<close>

datatype connection_refused_reason =
    AlreadyConnected
  | BadStanding
  | IncompatibleVersionReason
  | MaxPeerNumberExceeded
  | SelfConnectReason
  | Other u8

definition bad_timestamp :: connection_refused_reason where
  "bad_timestamp = Other 0"

datatype transfer_connection_status = Refused connection_refused_reason | Accepted

datatype internal_connection_status =
    InternalRefused connection_refused_reason
  | InternalAcceptedMaxReached
  | InternalAccepted

fun transfer_status :: "internal_connection_status \<Rightarrow> transfer_connection_status" where
  "transfer_status (InternalRefused reason) = Refused reason"
| "transfer_status InternalAcceptedMaxReached = Accepted"
| "transfer_status InternalAccepted = Accepted"

section \<open>Handshake\<close>

text \<open>A version as the crate \<^verbatim>\<open>semver\<close> parses it.\<close>

record semver =
  major :: u64
  minor :: u64
  patch :: u64
  pre_release :: string
  build_metadata :: string

definition versions_are_compatible :: "(string \<Rightarrow> semver option) \<Rightarrow> string \<Rightarrow> string \<Rightarrow> bool res" where
  "versions_are_compatible parse own other =
     (case parse own of
        None \<Rightarrow> Inl ExplicitPanic
      | Some own \<Rightarrow> (case parse other of
          None \<Rightarrow> Inr False
        | Some other \<Rightarrow> Inr (
            if major own = 0 \<and> minor own = 0 \<or> major other = 0 \<and> minor other = 0 then own = other
            else if major own = 0 \<and> major other = 0 then
              if minor own \<le> 5 \<and> minor other > 5 then False
              else if minor own > 5 \<and> minor other \<le> 5 then False
              else True
            else True)))"

record ('d, 'f) handshake_data =
  tip_header :: "('d, 'f) block_header"
  hs_network :: network
  instance_id :: u128
  hs_version :: string
  is_archival_node :: bool
  is_bootstrapper_node :: bool
  hs_timestamp :: system_time
  extra_data :: string

datatype handshake_validation_error =
    SelfConnect
  | NetworkMismatch network network
  | IncompatibleVersion string string
  | ExcessiveClockDifference system_time system_time

definition PEER_TIME_DIFFERENCE_THRESHOLD :: int where
  "PEER_TIME_DIFFERENCE_THRESHOLD = 90 * 10 ^ 9"

text \<open>\<^verbatim>\<open>SystemTime::duration_since\<close> fails when the other time is later.\<close>

definition duration_since :: "system_time \<Rightarrow> system_time \<Rightarrow> int option" where
  "duration_since later earlier = (if earlier \<le> later then Some (later - earlier) else None)"

definition handshake_validate ::
  "(string \<Rightarrow> semver option) \<Rightarrow> ('d, 'f) handshake_data \<Rightarrow> ('d, 'f) handshake_data
     \<Rightarrow> (handshake_validation_error + unit) res" where
  "handshake_validate parse local_handshake remote_handshake =
     reject_if (instance_id local_handshake = instance_id remote_handshake) SelfConnect
    (reject_if (hs_network local_handshake \<noteq> hs_network remote_handshake)
       (NetworkMismatch (hs_network local_handshake) (hs_network remote_handshake))
    (bind_res (versions_are_compatible parse (hs_version local_handshake) (hs_version remote_handshake)) (\<lambda>compatible.
     reject_if (\<not> compatible) (IncompatibleVersion (hs_version local_handshake) (hs_version remote_handshake))
    (let lag = duration_since (hs_timestamp remote_handshake) (hs_timestamp local_handshake);
         front = duration_since (hs_timestamp local_handshake) (hs_timestamp remote_handshake) in
     bind_res (case lag of Some t \<Rightarrow> Inr t | None \<Rightarrow> (case front of Some t \<Rightarrow> Inr t | None \<Rightarrow> Inl UnwrapFailed))
       (\<lambda>absolute_time_delta.
     reject_if (absolute_time_delta > PEER_TIME_DIFFERENCE_THRESHOLD)
       (ExcessiveClockDifference (hs_timestamp local_handshake) (hs_timestamp remote_handshake))
       (Inr (Inr ())))))))"

section \<open>Blocks and transactions in transfer\<close>

record ('d, 'm, 'p, 'f, 'c, 's) transfer_block =
  tb_header :: "('d, 'f) block_header"
  tb_body :: "('d, 'm, 'p, 'f) block_body"
  tb_appendix :: "'c block_appendix"
  tb_proof :: 's

definition block_of_transfer ::
  "'f bfield \<Rightarrow> ('d, 'm, 'p, 'f, 'c, 's) transfer_block \<Rightarrow> ('d, 'm, 'p, 'f, 'c, 's) block option" where
  "block_of_transfer F t =
     (if height (tb_header t) = height_genesis F then None
      else Some (block_new (tb_header t) (tb_body t) (tb_appendix t) (BlockSingleProof (tb_proof t))))"

definition transfer_of_block ::
  "('d, 'm, 'p, 'f, 'c, 's) block \<Rightarrow> ('d, 'm, 'p, 'f, 'c, 's) transfer_block option" where
  "transfer_of_block b = (case block_proof b of
     BlockSingleProof sp \<Rightarrow> Some \<lparr>tb_header = header b, tb_body = body b, tb_appendix = appendix b, tb_proof = sp\<rparr>
   | GenesisProof \<Rightarrow> None
   | InvalidProof \<Rightarrow> None)"

datatype ('s, 't) transfer_transaction_proof = TransferProofCollection 't | TransferSingleProof 's

record ('d, 'p, 'f, 's, 't) transfer_transaction =
  tt_kernel :: "('d, 'p, 'f) transaction_kernel"
  tt_proof :: "('s, 't) transfer_transaction_proof"

definition transfer_of_transaction ::
  "('d, 'p, 'f, 's, 't) transaction \<Rightarrow> ('d, 'p, 'f, 's, 't) transfer_transaction" where
  "transfer_of_transaction tx =
     \<lparr>tt_kernel = kernel tx, tt_proof = (case tx_proof tx of
        SingleProof p \<Rightarrow> TransferSingleProof p | ProofCollection c \<Rightarrow> TransferProofCollection c)\<rparr>"

definition transaction_of_transfer ::
  "('d, 'p, 'f, 's, 't) transfer_transaction \<Rightarrow> ('d, 'p, 'f, 's, 't) transaction" where
  "transaction_of_transfer t =
     \<lparr>kernel = tt_kernel t, tx_proof = (case tt_proof t of
        TransferProofCollection c \<Rightarrow> ProofCollection c | TransferSingleProof p \<Rightarrow> SingleProof p)\<rparr>"

fun transfer_proof_quality :: "('s, 't) transfer_transaction_proof \<Rightarrow> transaction_proof_quality" where
  "transfer_proof_quality (TransferProofCollection _) = QProofCollection"
| "transfer_proof_quality (TransferSingleProof _) = QSingleProof"

section \<open>Notifications\<close>

record ('d, 'f) block_proposal_notification =
  bpn_body_mast_hash :: 'd
  bpn_guesser_fee :: native_currency_amount
  bpn_height :: "'f block_height"

definition proposal_notification_of ::
  "('d, 'm, 'p, 'f, 'c, 's) block_env \<Rightarrow> ('d, 'm, 'p, 'f, 'c, 's) block \<Rightarrow> ('d, 'f) block_proposal_notification" where
  "proposal_notification_of E b =
     \<lparr>bpn_body_mast_hash = Block_Data.mast_hash E (body_mast_sequences E (body b)),
      bpn_guesser_fee = fee (block_tx b), bpn_height = height (header b)\<rparr>"

record ('d, 'f) peer_block_notification =
  pbn_hash :: 'd
  pbn_height :: "'f block_height"
  pbn_cumulative_proof_of_work :: proof_of_work

definition block_notification_of ::
  "('d, 'm, 'p, 'f, 'c, 's) block_env \<Rightarrow> ('d, 'm, 'p, 'f, 'c, 's) block \<Rightarrow> ('d, 'f) peer_block_notification" where
  "block_notification_of E b =
     \<lparr>pbn_hash = block_hash E b, pbn_height = height (header b),
      pbn_cumulative_proof_of_work = cumulative_proof_of_work (header b)\<rparr>"

record 'd transaction_notification =
  tn_txid :: 'd
  tn_mutator_set_hash :: 'd
  tn_proof_quality :: transaction_proof_quality
  tn_fee :: native_currency_amount
  tn_num_inputs :: u64
  tn_num_outputs :: u64

definition transaction_notification_of ::
  "('d :: linorder, 'f) txid_hash \<Rightarrow> ('d, 'p, 'f, 's, 't) transaction \<Rightarrow> 'd transaction_notification" where
  "transaction_notification_of H tx =
     \<lparr>tn_txid = txid H (kernel tx), tn_mutator_set_hash = mutator_set_hash (kernel tx),
      tn_proof_quality = (case tx_proof tx of SingleProof _ \<Rightarrow> QSingleProof | ProofCollection _ \<Rightarrow> QProofCollection),
      tn_fee = fee (kernel tx), tn_num_inputs = of_nat (length (tk_inputs (kernel tx))),
      tn_num_outputs = of_nat (length (tk_outputs (kernel tx)))\<rparr>"

section \<open>Sync challenges: data\<close>

definition SYNC_CHALLENGE_POW_WITNESS_LENGTH :: nat where
  "SYNC_CHALLENGE_POW_WITNESS_LENGTH = 10"

definition SYNC_CHALLENGE_NUM_BLOCK_PAIRS :: nat where
  "SYNC_CHALLENGE_NUM_BLOCK_PAIRS = 10"

record ('d, 'f) sync_challenge =
  challenge_tip_digest :: 'd
  challenges :: "'f block_height list"

record ('d, 'f) issued_sync_challenge =
  challenge :: "('d, 'f) sync_challenge"
  issued_at :: "'f timestamp"
  accumulated_pow :: proof_of_work

record ('d, 'm, 'p, 'f, 'c, 's) sync_challenge_response =
  pair_blocks :: "(('d, 'm, 'p, 'f, 'c, 's) transfer_block \<times> ('d, 'm, 'p, 'f, 'c, 's) transfer_block) list"
  membership_proofs :: "'p list"
  tip_parent :: "('d, 'm, 'p, 'f, 'c, 's) transfer_block"
  response_tip :: "('d, 'm, 'p, 'f, 'c, 's) transfer_block"
  pow_witnesses :: "('d, 'f) header_with_witness list"

section \<open>Messages\<close>

record ('d, 'm) block_request_batch =
  known_blocks :: "'d list"
  max_response_len :: nat
  batch_anchor :: 'm

datatype ('d, 'm, 'p, 'f, 'c, 's, 't) peer_message =
    Handshake "u8 list" "('d, 'f) handshake_data"
  | PeerBlock "('d, 'm, 'p, 'f, 'c, 's) transfer_block"
  | BlockNotificationRequest
  | BlockNotification "('d, 'f) peer_block_notification"
  | BlockRequestByHeight "'f block_height"
  | BlockRequestByHash 'd
  | BlockRequestBatch "('d, 'm) block_request_batch"
  | BlockResponseBatch "(('d, 'm, 'p, 'f, 'c, 's) transfer_block \<times> 'p) list"
  | UnableToSatisfyBatchRequest
  | SyncChallenge "('d, 'f) sync_challenge"
  | SyncChallengeResponse "('d, 'm, 'p, 'f, 'c, 's) sync_challenge_response"
  | BlockProposalNotification "('d, 'f) block_proposal_notification"
  | BlockProposalRequest 'd
  | PeerBlockProposal "('d, 'm, 'p, 'f, 'c, 's) block"
  | PeerTransaction "('d, 'p, 'f, 's, 't) transfer_transaction"
  | PeerTransactionNotification "'d transaction_notification"
  | TransactionRequest 'd
  | Bye
  | ConnectionStatus transfer_connection_status
  | SyncCoverage sync_mask

fun get_type :: "('d, 'm, 'p, 'f, 'c, 's, 't) peer_message \<Rightarrow> string" where
  "get_type (Handshake _ _) = ''handshake''"
| "get_type (PeerBlock _) = ''block''"
| "get_type BlockNotificationRequest = ''block notification request''"
| "get_type (BlockNotification _) = ''block notification''"
| "get_type (BlockRequestByHeight _) = ''block req by height''"
| "get_type (BlockRequestByHash _) = ''block req by hash''"
| "get_type (BlockRequestBatch _) = ''block req batch''"
| "get_type (BlockResponseBatch _) = ''block resp batch''"
| "get_type (PeerTransaction _) = ''send''"
| "get_type (PeerTransactionNotification _) = ''transaction notification''"
| "get_type (TransactionRequest _) = ''transaction request''"
| "get_type Bye = ''bye''"
| "get_type (ConnectionStatus _) = ''connection status''"
| "get_type (BlockProposalNotification _) = ''block proposal notification''"
| "get_type (BlockProposalRequest _) = ''block proposal request''"
| "get_type (PeerBlockProposal _) = ''block proposal''"
| "get_type UnableToSatisfyBatchRequest = ''unable to satisfy batch request''"
| "get_type (SyncChallenge _) = ''sync challenge''"
| "get_type (SyncChallengeResponse _) = ''sync challenge response''"
| "get_type (SyncCoverage _) = ''sync coverage''"

fun ignore_when_not_sync :: "('d, 'm, 'p, 'f, 'c, 's, 't) peer_message \<Rightarrow> bool" where
  "ignore_when_not_sync (BlockResponseBatch _) = True"
| "ignore_when_not_sync UnableToSatisfyBatchRequest = True"
| "ignore_when_not_sync (SyncCoverage _) = True"
| "ignore_when_not_sync _ = False"

fun ignore_during_sync :: "('d, 'm, 'p, 'f, 'c, 's, 't) peer_message \<Rightarrow> bool" where
  "ignore_during_sync (PeerTransaction _) = True"
| "ignore_during_sync (BlockProposalNotification _) = True"
| "ignore_during_sync (BlockProposalRequest _) = True"
| "ignore_during_sync (PeerBlockProposal _) = True"
| "ignore_during_sync _ = False"

fun ignore_on_freeze :: "('d, 'm, 'p, 'f, 'c, 's, 't) peer_message \<Rightarrow> bool" where
  "ignore_on_freeze (Handshake _ _) = False"
| "ignore_on_freeze Bye = False"
| "ignore_on_freeze (ConnectionStatus _) = False"
| "ignore_on_freeze _ = True"

record ('d, 'm, 'p, 'f, 'c, 's) mutable_peer_state =
  highest_shared_block_height :: "'f block_height"
  fork_reconciliation_blocks :: "('d, 'm, 'p, 'f, 'c, 's) block list"
  open_challenge :: "('d, 'f) issued_sync_challenge option"
  successful_sync_challenge_response_time :: "'f timestamp option"

definition peer_state_new :: "'f block_height \<Rightarrow> ('d, 'm, 'p, 'f, 'c, 's) mutable_peer_state" where
  "peer_state_new h =
     \<lparr>highest_shared_block_height = h, fork_reconciliation_blocks = [], open_challenge = None,
      successful_sync_challenge_response_time = None\<rparr>"

section \<open>Generating a challenge\<close>

text \<open>The random number generator: the next number, and a number of an interval that contains its lower end only.\<close>

record 'g rng_ops =
  next_u64 :: "'g \<Rightarrow> u64 \<times> 'g"
  random_range :: "u64 \<Rightarrow> u64 \<Rightarrow> 'g \<Rightarrow> u64 \<times> 'g"

definition leading_zeros :: "u64 \<Rightarrow> u32" where
  "leading_zeros x = of_nat (length (takeWhile (\<lambda>i. \<not> bit x i) (rev [0..<64])))"

definition draw_distance :: "'g rng_ops \<Rightarrow> 'g \<Rightarrow> u32 \<times> 'g" where
  "draw_distance R g =
     (let (a, g) = next_u64 R g; (b, g) = next_u64 R g; (c, g) = next_u64 R g; (d, g) = next_u64 R g
      in (leading_zeros a * 31 + leading_zeros b * 7 + leading_zeros c * 3 + leading_zeros d + 1, g))"

text \<open>One round of either loop: a height to push, unless the round ends with \<^verbatim>\<open>continue\<close>.\<close>

definition try_skewed :: "'f bfield \<Rightarrow> 'g rng_ops \<Rightarrow> 'f block_height \<Rightarrow> 'g \<Rightarrow> 'f block_height option \<times> 'g" where
  "try_skewed F R tip g =
     (let (distance, g) = draw_distance R g in
      case height_checked_sub F tip (ucast distance) of
        None \<Rightarrow> (None, g)
      | Some h \<Rightarrow> if height_le F h (height_from_u64 F 1) then (None, g) else (Some h, g))"

definition try_uniform ::
  "'f bfield \<Rightarrow> 'g rng_ops \<Rightarrow> 'f block_height \<Rightarrow> 'f block_height \<Rightarrow> 'g \<Rightarrow> 'f block_height option \<times> 'g" where
  "try_uniform F R own tip g =
     (let (x, g) = random_range R (height_value F own) (height_value F tip) g; h = height_from_u64 F x in
      if height_le F h (height_from_u64 F 1) then (None, g) else (Some h, g))"

partial_function (option) sample_until ::
  "('g \<Rightarrow> 'a option \<times> 'g) \<Rightarrow> nat \<Rightarrow> 'g \<Rightarrow> 'a list \<Rightarrow> ('a list \<times> 'g) option" where
  "sample_until draw n g heights =
     (if length heights < n
      then sample_until draw n (snd (draw g)) (case fst (draw g) of None \<Rightarrow> heights | Some h \<Rightarrow> heights @ [h])
      else Some (heights, g))"

text \<open>\<^verbatim>\<open>SyncChallenge::generate\<close>; \<open>None\<close> when a loop does not end.\<close>

definition generate ::
  "'f bfield \<Rightarrow> 'g rng_ops \<Rightarrow> ('d, 'f) peer_block_notification \<Rightarrow> 'f block_height \<Rightarrow> 'g
     \<Rightarrow> ('d, 'f) sync_challenge option res" where
  "generate F R block_notification own_tip_height g =
     assert_then (height_sub F (pbn_height block_notification) own_tip_height \<ge> 10)
       (Inr (Option.bind (sample_until (try_skewed F R (pbn_height block_notification)) 5 g []) (\<lambda>(heights, g).
        Option.bind (sample_until (try_uniform F R own_tip_height (pbn_height block_notification)) 10 g heights)
          (\<lambda>(heights, g). Some \<lparr>challenge_tip_digest = pbn_hash block_notification,
             challenges = sort_key (height_value F) heights\<rparr>))))"

section \<open>Checking a response\<close>

definition pow_witnesses_form_chain_from_tip ::
  "('d, 'm, 'p, 'f, 'c, 's) block_env \<Rightarrow> 'd \<Rightarrow> ('d, 'f) header_with_witness list \<Rightarrow> bool res" where
  "pow_witnesses_form_chain_from_tip E tip_hash witnesses =
     bind_res (index_res witnesses 0) (\<lambda>tip_header_with_witness.
       Inr (header_witness_hash E tip_header_with_witness = tip_hash \<and>
         (\<forall>(child, parent)\<in>set (zip witnesses (tl witnesses)). is_successor_of E child parent)))"

definition response_matches ::
  "('d :: linorder, 'm, 'p, 'f, 'c, 's) block_env \<Rightarrow> ('d, 'm, 'p, 'f, 'c, 's) sync_challenge_response \<Rightarrow> network
     \<Rightarrow> ('d, 'f) issued_sync_challenge \<Rightarrow> bool res" where
  "response_matches E r net issued =
     (case block_of_transfer (env_field E) (tip_parent r) of None \<Rightarrow> Inr False | Some parent \<Rightarrow>
     (case block_of_transfer (env_field E) (response_tip r) of None \<Rightarrow> Inr False | Some tip \<Rightarrow>
      bind_res (pow_witnesses_form_chain_from_tip E (block_hash E tip) (pow_witnesses r)) (\<lambda>chain_from_tip.
      if (\<forall>((_, child), challenge_height)\<in>set (zip (pair_blocks r) (challenges (challenge issued))).
            height (tb_header child) = challenge_height)
         \<and> challenge_tip_digest (challenge issued) = block_hash E tip
         \<and> accumulated_pow issued = cumulative_proof_of_work (header tip)
      then bind_res (has_proof_of_work E tip net (header parent)) (\<lambda>b. Inr (b \<and> chain_from_tip))
      else Inr False)))"

text \<open>\<^verbatim>\<open>!a.is_valid(..) || !a.has_proof_of_work(..)\<close>, negated.\<close>

definition valid_with_pow ::
  "('d :: linorder, 'm, 'p, 'f, 'c, 's) block_env \<Rightarrow> ('d, 'm, 'p, 'f, 'c, 's) block \<Rightarrow> ('d, 'm, 'p, 'f, 'c, 's) block
     \<Rightarrow> 'f timestamp \<Rightarrow> network \<Rightarrow> bool res" where
  "valid_with_pow E b parent now net =
     bind_res (is_valid E b parent now net) (\<lambda>v. if \<not> v then Inr False else has_proof_of_work E b net (header parent))"

fun valid_pairs ::
  "('d :: linorder, 'm, 'p, 'f, 'c, 's) block_env \<Rightarrow> 'm \<Rightarrow> 'f timestamp \<Rightarrow> network
     \<Rightarrow> ((('d, 'm, 'p, 'f, 'c, 's) transfer_block \<times> ('d, 'm, 'p, 'f, 'c, 's) transfer_block) \<times> 'p) list \<Rightarrow> bool res" where
  "valid_pairs E mmra_anchor now net [] = Inr True"
| "valid_pairs E mmra_anchor now net (((parent, child), membership_proof) # ps) =
     (case block_of_transfer (env_field E) child of None \<Rightarrow> Inr False | Some child \<Rightarrow>
      if \<not> mp_verify (env_crypto E) membership_proof (height_value (env_field E) (height (header child))) (block_hash E child) mmra_anchor
      then Inr False
      else case block_of_transfer (env_field E) parent of None \<Rightarrow> Inr False | Some parent \<Rightarrow>
        bind_res (valid_with_pow E child parent now net) (\<lambda>ok. if ok then valid_pairs E mmra_anchor now net ps else Inr False))"

definition response_is_valid ::
  "('d :: linorder, 'm, 'p, 'f, 'c, 's) block_env \<Rightarrow> ('d, 'm, 'p, 'f, 'c, 's) sync_challenge_response \<Rightarrow> 'f timestamp \<Rightarrow> network
     \<Rightarrow> bool res" where
  "response_is_valid E r now net =
     (case block_of_transfer (env_field E) (tip_parent r) of None \<Rightarrow> Inr False | Some tip_predecessor \<Rightarrow>
     (case block_of_transfer (env_field E) (response_tip r) of None \<Rightarrow> Inr False | Some tip \<Rightarrow>
      bind_res (valid_with_pow E tip tip_predecessor now net) (\<lambda>ok.
        if \<not> ok then Inr False
        else let mmra_anchor = fst (mmr_append (env_crypto E) (block_mmr_accumulator (body tip)) (block_hash E tip)) in
             valid_pairs E mmra_anchor now net (zip (pair_blocks r) (membership_proofs r)))))"

definition check_difficulty :: "('d, 'm, 'p, 'f, 'c, 's) sync_challenge_response \<Rightarrow> difficulty \<Rightarrow> bool" where
  "check_difficulty r own_tip_difficulty \<longleftrightarrow>
     (let own = pow_add pow_MINIMUM (d_limbs own_tip_difficulty);
          fork_relative_cumpow = foldl (\<lambda>acc (_, child). pow_add acc (d_limbs (bh_difficulty (tb_header child))))
            pow_MINIMUM (pair_blocks r)
      in pow_cmp fork_relative_cumpow own = Greater)"

section \<open>The evolution of the cumulative proof-of-work\<close>

text \<open>The arithmetic of \<^verbatim>\<open>f64\<close>: conversions of natural numbers and integers, quotients of literals, and \<^verbatim>\<open>BigUint::from_f64\<close>.\<close>

record 'x f64_ops =
  f64_of_nat :: "nat \<Rightarrow> 'x"
  f64_of_int :: "int \<Rightarrow> 'x"
  f64_literal :: "nat \<Rightarrow> nat \<Rightarrow> 'x"
  f64_add :: "'x \<Rightarrow> 'x \<Rightarrow> 'x"
  f64_mul :: "'x \<Rightarrow> 'x \<Rightarrow> 'x"
  f64_div :: "'x \<Rightarrow> 'x \<Rightarrow> 'x"
  f64_less :: "'x \<Rightarrow> 'x \<Rightarrow> bool"
  f64_less_eq :: "'x \<Rightarrow> 'x \<Rightarrow> bool"
  f64_is_nan :: "'x \<Rightarrow> bool"
  f64_is_infinite :: "'x \<Rightarrow> bool"
  nat_of_f64 :: "'x \<Rightarrow> nat"

definition pow_try_from_f64 :: "'x f64_ops \<Rightarrow> 'x \<Rightarrow> proof_of_work option" where
  "pow_try_from_f64 X v =
     (if f64_is_nan X v then None
      else if f64_less X v (f64_literal X 0 1) then Some pow_MINIMUM
      else if f64_is_infinite X v then Some pow_MAXIMUM
      else let digits = u32_digits (nat_of_f64 X v) in
           if length digits > POW_NUM_LIMBS \<and> (\<exists>d\<in>set (drop POW_NUM_LIMBS digits). d \<noteq> 0) then Some pow_MAXIMUM
           else Some (ProofOfWork (take POW_NUM_LIMBS (pad_using POW_NUM_LIMBS digits))))"

text \<open>The loop of \<^verbatim>\<open>max_cumulative_pow_after\<close>; \<open>None\<close> when it returns from inside.\<close>

fun max_pow_loop :: "'x f64_ops \<Rightarrow> 'x \<Rightarrow> 'x \<Rightarrow> nat \<Rightarrow> 'x \<Rightarrow> 'x \<Rightarrow> 'x option" where
  "max_pow_loop X f cap 0 max_difficulty max_cumpow = Some max_cumpow"
| "max_pow_loop X f cap (Suc n) max_difficulty max_cumpow =
     (let max_difficulty = f64_mul X max_difficulty f; max_cumpow = f64_add X max_cumpow max_difficulty in
      if f64_less_eq X cap max_cumpow then None else max_pow_loop X f cap n max_difficulty max_cumpow)"

definition max_cumulative_pow_after ::
  "'x f64_ops \<Rightarrow> 'f bfield \<Rightarrow> proof_of_work \<Rightarrow> difficulty \<Rightarrow> nat \<Rightarrow> 'f timestamp \<Rightarrow> 'f timestamp \<Rightarrow> proof_of_work res" where
  "max_cumulative_pow_after X F cumulative_pow_start difficulty_start num_blocks interval min_time =
     (let epsilon = f64_literal X 1 1000000;
          f = f64_add X (f64_add X (f64_literal X 1 1)
                (f64_div X (f64_div X (f64_of_nat X (unat (to_millis F interval - to_millis F min_time)))
                   (f64_of_nat X (unat (to_millis F interval)))) (f64_literal X 16 1))) epsilon;
          max_difficulty = f64_of_nat X (difficulty_to_biguint difficulty_start);
          max_cumpow = f64_mul X (f64_of_nat X (pow_to_biguint cumulative_pow_start)) (f64_add X (f64_literal X 1 1) epsilon);
          cap = f64_of_nat X (pow_to_biguint pow_MAXIMUM) in
      case max_pow_loop X f cap num_blocks max_difficulty max_cumpow of
        None \<Rightarrow> Inr pow_MAXIMUM
      | Some v \<Rightarrow> (case pow_try_from_f64 X v of None \<Rightarrow> Inl ExplicitPanic | Some p \<Rightarrow> Inr p))"

type_synonym 'f pow_triple = "'f block_height \<times> proof_of_work \<times> difficulty"

text \<open>The upper bound for the step from one triple to the next; the difference of the heights is converted to \<^verbatim>\<open>usize\<close>.\<close>

definition step_bound ::
  "'x f64_ops \<Rightarrow> 'f bfield \<Rightarrow> network \<Rightarrow> 'f pow_triple \<Rightarrow> 'f pow_triple \<Rightarrow> proof_of_work res" where
  "step_bound X F net start stop =
     (let difference = height_sub F (fst stop) (fst start) in
      if difference < 0 then Inl UnwrapFailed
      else max_cumulative_pow_after X F (fst (snd start)) (snd (snd start)) (nat difference)
             (target_block_interval F net) (minimum_block_time F net))"

fun evolution_okay :: "'x f64_ops \<Rightarrow> 'f bfield \<Rightarrow> network \<Rightarrow> 'f pow_triple list \<Rightarrow> bool res" where
  "evolution_okay X F net (start # stop # ts) =
     bind_res (step_bound X F net start stop) (\<lambda>max_pow.
       if pow_cmp max_pow (fst (snd stop)) \<noteq> Less \<and> pow_cmp (fst (snd start)) (fst (snd stop)) \<noteq> Greater
       then evolution_okay X F net (stop # ts) else Inr False)"
| "evolution_okay X F net _ = Inr True"

text \<open>The loop that logs a failed check computes every bound again.\<close>

fun log_bounds :: "'x f64_ops \<Rightarrow> 'f bfield \<Rightarrow> network \<Rightarrow> 'f pow_triple list \<Rightarrow> unit res" where
  "log_bounds X F net (start # stop # ts) = bind_res (step_bound X F net start stop) (\<lambda>_. log_bounds X F net (stop # ts))"
| "log_bounds X F net _ = Inr ()"

definition header_triple :: "('d, 'f) block_header \<Rightarrow> 'f pow_triple" where
  "header_triple h = (height h, cumulative_proof_of_work h, bh_difficulty h)"

definition parent_triples ::
  "('d, 'm, 'p, 'f, 'c, 's) block_env \<Rightarrow> network \<Rightarrow> ('d, 'm, 'p, 'f, 'c, 's) sync_challenge_response \<Rightarrow> 'f pow_triple list" where
  "parent_triples E net r =
     header_triple (genesis_header E net) # map (\<lambda>(parent, _). header_triple (tb_header parent)) (pair_blocks r)
       @ [header_triple (tb_header (tip_parent r))]"

definition check_pow ::
  "'x f64_ops \<Rightarrow> ('d, 'm, 'p, 'f, 'c, 's) block_env \<Rightarrow> ('d, 'm, 'p, 'f, 'c, 's) sync_challenge_response \<Rightarrow> network
     \<Rightarrow> 'f block_height \<Rightarrow> bool res" where
  "check_pow X E r net own_tip_height =
     (let F = env_field E; triples = parent_triples E net r in
      bind_res (evolution_okay X F net triples) (\<lambda>cumulative_pow_evolution_okay.
      bind_res (index_res (pair_blocks r) 0) (\<lambda>(first, _).
      let first = tb_header first; last = tb_header (response_tip r);
          last_pow = pow_to_biguint (cumulative_proof_of_work last); first_pow = pow_to_biguint (cumulative_proof_of_work first) in
      if last_pow < first_pow then Inl ExplicitPanic
      else let span = height_sub F (height last) (height first);
               average_difficulty = f64_div X (f64_of_nat X (last_pow - first_pow)) (f64_of_int X span);
               blocks = concat (map (\<lambda>(l, r). [l, r]) (pair_blocks r)) @ [tip_parent r, response_tip r];
               too_few_above_mean_difficulties = (\<not> is_genesis F own_tip_height \<and>
                 filter (\<lambda>b. f64_less_eq X average_difficulty
                   (f64_of_nat X (difficulty_to_biguint (bh_difficulty (tb_header b))))) blocks = []) in
           bind_res (if cumulative_pow_evolution_okay then Inr () else log_bounds X F net triples) (\<lambda>_.
             Inr (cumulative_pow_evolution_okay \<and> \<not> too_few_above_mean_difficulties)))))"

section \<open>Standing: lemmas\<close>

text \<open>The tolerance is a positive \<^verbatim>\<open>u16\<close>, the standing stays between the tolerance and its negation.\<close>

definition wf_standing :: "('d, 'f) peer_standing \<Rightarrow> bool" where
  "wf_standing p \<longleftrightarrow> 0 < peer_tolerance p \<and> peer_tolerance p < 2 ^ 16 \<and> - peer_tolerance p \<le> standing p \<and> standing p \<le> peer_tolerance p"

lemma standing_new_wf: "standing_new t = Inr p \<Longrightarrow> wf_standing p \<and> is_good p"
proof -
  assume "standing_new t = Inr p"
  moreover have "uint t < 2 ^ 16" using unsigned_less [of t, where ?'a = int] by simp
  ultimately show ?thesis
    by (auto simp: standing_new_def assert_then_def wf_standing_def is_good_def is_bad_def word_less_def split: if_splits)
qed

lemma negative_severity_range: "i32_MIN \<le> negative_severity s \<and> negative_severity s \<le> 0"
proof (cases s)
  case (ForkResolutionError h n d)
  define m where "m = int (unat n)"
  have "unat n < 65536" using unsigned_less [of n] by simp
  then have "0 \<le> m" "m < 65536" unfolding m_def by linarith+
  then show ?thesis
    unfolding ForkResolutionError negative_severity.simps m_def [symmetric] by (simp add: saturate_i32_def i32_MIN_def i32_MAX_def)
qed (simp_all add: i32_MIN_def)

lemma positive_severity_range: "0 \<le> positive_severity s \<and> positive_severity s \<le> i32_MAX"
  by (cases s) (auto simp: saturate_i32_def i32_MIN_def i32_MAX_def)

lemma sanction_effect:
  assumes "wf_standing p"
  obtains p' where "sanction now p s = Inr (if is_good p' then Inr () else Inl StandingExceedsBanThreshold, p')"
    "wf_standing p'" "peer_tolerance p' = peer_tolerance p"
    "standing p' = max (- peer_tolerance p) (min (peer_tolerance p) (standing p + severity s))"
proof -
  let ?t = "peer_tolerance p"
  have tol: "- ?t \<le> ?t" "?t < 65536" "- ?t \<le> standing p" "standing p \<le> ?t" using assms by (simp_all add: wf_standing_def)
  have "i32_MIN \<le> severity s \<and> severity s \<le> i32_MAX"
  proof (cases s)
    case (Positive r)
    then show ?thesis using positive_severity_range [of r] by (simp add: i32_MIN_def i32_MAX_def)
  next
    case (Negative n)
    then show ?thesis using negative_severity_range [of n] by (simp add: i32_MIN_def i32_MAX_def)
  qed
  then have clip: "max (- ?t) (min ?t (saturate_i32 (standing p + severity s))) = max (- ?t) (min ?t (standing p + severity s))"
    using tol by (auto simp: saturate_i32_def i32_MIN_def i32_MAX_def)
  have cl: "clamp (- ?t) ?t (saturate_i32 (standing p + severity s)) = Inr (max (- ?t) (min ?t (standing p + severity s)))"
    using tol(1) by (simp add: clamp_def assert_then_def clip)
  define q where "q = p\<lparr>standing := max (- ?t) (min ?t (standing p + severity s))\<rparr>"
  define p' where "p' = (case s of Negative n \<Rightarrow> q\<lparr>latest_punishment := Some (n, now)\<rparr> | Positive r \<Rightarrow> q\<lparr>latest_reward := Some (r, now)\<rparr>)"
  have "sanction now p s = Inr (if is_good p' then Inr () else Inl StandingExceedsBanThreshold, p')"
    unfolding sanction_def cl bind_res_def sum.case Let_def p'_def q_def ..
  moreover have f: "standing p' = max (- ?t) (min ?t (standing p + severity s))" "peer_tolerance p' = ?t"
    by (simp_all add: p'_def q_def split: peer_sanction.split)
  moreover have "wf_standing p'" using assms tol(1) by (simp add: wf_standing_def f)
  ultimately show ?thesis using that by blast
qed

section \<open>Samples: lemmas\<close>

lemma sample_until_accepts:
  assumes "length hs < n" "fst (draw (((\<lambda>g. snd (draw g)) ^^ k) g)) \<noteq> None"
  shows "\<exists>h g0 g1. fst (draw g0) = Some h \<and> sample_until draw n g hs = sample_until draw n g1 (hs @ [h])"
  using assms(2)
proof (induction k arbitrary: g)
  case 0
  then obtain h where h: "fst (draw g) = Some h" by auto
  have "sample_until draw n g hs = sample_until draw n (snd (draw g)) (hs @ [h])"
    using assms(1) h by (subst sample_until.simps) simp
  with h show ?case by blast
next
  case (Suc k)
  have "fst (draw (((\<lambda>g. snd (draw g)) ^^ k) (snd (draw g)))) \<noteq> None"
    using Suc.prems by (simp only: funpow_Suc_right comp_apply) simp
  from Suc.IH [OF this] obtain h g0 g1 where
    IH: "fst (draw g0) = Some h" "sample_until draw n (snd (draw g)) hs = sample_until draw n g1 (hs @ [h])" by blast
  show ?case
  proof (cases "fst (draw g)")
    case None
    have "sample_until draw n g hs = sample_until draw n (snd (draw g)) hs"
      using assms(1) None by (subst sample_until.simps) simp
    with IH show ?thesis by metis
  next
    case (Some h')
    have "sample_until draw n g hs = sample_until draw n (snd (draw g)) (hs @ [h'])"
      using assms(1) Some by (subst sample_until.simps) simp
    with Some show ?thesis by blast
  qed
qed

lemma sample_until_returns:
  assumes fair: "\<And>g. \<exists>k. fst (draw (((\<lambda>g. snd (draw g)) ^^ k) g)) \<noteq> None"
  shows "\<exists>new g'. sample_until draw n g hs = Some (hs @ new, g') \<and> length new = n - length hs \<and>
    (\<forall>h\<in>set new. \<exists>g. fst (draw g) = Some h)"
proof (induction "n - length hs" arbitrary: g hs)
  case 0
  then show ?case by (subst sample_until.simps) auto
next
  case (Suc m)
  then have len: "length hs < n" by simp
  obtain k where "fst (draw (((\<lambda>g. snd (draw g)) ^^ k) g)) \<noteq> None" using fair by blast
  from sample_until_accepts [where k = k and draw = draw and g = g, OF len this] obtain h g0 g1 where
    h: "fst (draw g0) = Some h" "sample_until draw n g hs = sample_until draw n g1 (hs @ [h])" by blast
  have m: "m = n - length (hs @ [h])" using Suc.hyps(2) by simp
  obtain new g' where new: "sample_until draw n g1 (hs @ [h]) = Some ((hs @ [h]) @ new, g')" "length new = n - length (hs @ [h])"
      "\<forall>h\<in>set new. \<exists>g. fst (draw g) = Some h" using Suc.hyps(1) [OF m] by blast
  have "length (h # new) = n - length hs" using new(2) len by simp
  with h new show ?case by (intro exI [of _ "h # new"] exI [of _ g']) auto
qed

lemma leading_zeros_le: "unat (leading_zeros x) \<le> 64"
proof -
  have "length (takeWhile (\<lambda>i. \<not> bit x i) (rev [0..<64])) \<le> 64" using length_takeWhile_le [of _ "rev [0..<64]"] by simp
  then show ?thesis by (simp add: leading_zeros_def unat_of_nat)
qed

lemma distance_positive: "0 < unat (fst (draw_distance R g))"
proof -
  have "unat (leading_zeros a * 31 + leading_zeros b * 7 + leading_zeros c * 3 + leading_zeros d + 1) =
      unat (leading_zeros a) * 31 + unat (leading_zeros b) * 7 + unat (leading_zeros c) * 3 + unat (leading_zeros d) + 1" for a b c d
    using leading_zeros_le [of a] leading_zeros_le [of b] leading_zeros_le [of c] leading_zeros_le [of d]
    by (simp add: unat_word_ariths)
  then show ?thesis by (simp add: draw_distance_def Let_def split_beta)
qed

lemma try_skewed_snd: "snd (try_skewed F R tip g) = snd (draw_distance R g)"
  by (simp add: try_skewed_def Let_def split_beta split: option.split)

lemma try_uniform_snd: "snd (try_uniform F R own tip g) = snd (random_range R (height_value F own) (height_value F tip) g)"
  by (simp add: try_uniform_def Let_def split_beta)

context bfield_laws
begin

lemma from_u64_value: "unat v < bfe_P \<Longrightarrow> height_value F (height_from_u64 F v) = v"
proof -
  assume v: "unat v < bfe_P"
  then have "v \<le> bfe_MAX" by (simp add: word_le_nat_alt bfe_MAX_def bfe_P_def)
  then have "min bfe_MAX v = v" by (rule min_absorb2)
  with v show ?thesis by (simp add: height_from_u64_def height_value_def value_small)
qed

lemma height_le_one: "height_le F h (height_from_u64 F 1) \<longleftrightarrow> unat (height_value F h) \<le> 1"
  using from_u64_value [of 1] by (simp add: height_le_def height_value_def word_le_nat_alt bfe_P_def)

lemma height_sub_value: "height_sub F a b = int (unat (height_value F a)) - int (unat (height_value F b))"
proof -
  have "0 \<le> uint (height_value F h) \<and> uint (height_value F h) < 18446744073709551616" for h :: "'f block_height"
    using unsigned_less [of "height_value F h", where ?'a = int] by simp
  moreover have "is_i128 (x - y)" if "0 \<le> x \<and> x < 18446744073709551616" "0 \<le> y \<and> y < 18446744073709551616" for x y
    using that by (simp add: is_i128_def)
  ultimately have "is_i128 (uint (height_value F a) - uint (height_value F b))" by blast
  then have "wrap_i128 (uint (height_value F a) - uint (height_value F b)) = uint (height_value F a) - uint (height_value F b)"
    by (simp add: wrap_simps)
  then show ?thesis by (simp add: height_sub_def height_value_def)
qed

lemma try_skewed_round:
  fixes tip :: "'f block_height" and R :: "'g rng_ops" and g :: 'g
  defines "d \<equiv> unat (fst (draw_distance R g))"
  shows "fst (try_skewed F R tip g) = None \<longleftrightarrow> unat (height_value F tip) < d + 2"
    "fst (try_skewed F R tip g) = Some h \<Longrightarrow> 2 \<le> unat (height_value F h) \<and> unat (height_value F h) < unat (height_value F tip)"
proof -
  let ?d = "fst (draw_distance R g)"
  have u: "unat (ucast ?d :: u64) = d" using unsigned_less [of ?d] by (simp add: d_def unat_ucast_mod)
  note sub = height_checked_sub_value [of tip "ucast ?d"]
  have le: "(ucast ?d \<le> height_value F tip) = (d \<le> unat (height_value F tip))" by (simp add: word_le_nat_alt d_def)
  have minus: "d \<le> unat (height_value F tip) \<Longrightarrow> unat (height_value F tip - ucast ?d) = unat (height_value F tip) - d"
    using le by (simp add: unat_sub d_def)
  show "fst (try_skewed F R tip g) = None \<longleftrightarrow> unat (height_value F tip) < d + 2"
  proof (cases "d \<le> unat (height_value F tip)")
    case True
    then obtain h' where "height_checked_sub F tip (ucast ?d) = Some h'" "unat (height_value F h') = unat (height_value F tip) - d"
      using sub le minus by (auto split: option.splits)
    with True show ?thesis by (auto simp: try_skewed_def Let_def split_beta height_le_one)
  next
    case False
    then have "height_checked_sub F tip (ucast ?d) = None" using sub le by (auto split: option.splits)
    with False show ?thesis by (simp add: try_skewed_def Let_def split_beta)
  qed
  assume "fst (try_skewed F R tip g) = Some h"
  then have "height_checked_sub F tip (ucast ?d) = Some h" "\<not> unat (height_value F h) \<le> 1"
    by (auto simp: try_skewed_def Let_def split_beta height_le_one split: option.splits if_splits)
  then show "2 \<le> unat (height_value F h) \<and> unat (height_value F h) < unat (height_value F tip)"
    using sub le minus distance_positive [of R g] by (auto simp: d_def)
qed

lemma try_uniform_round:
  fixes own tip :: "'f block_height"
  assumes "height_value F own < height_value F tip"
    and "\<And>g. height_value F own \<le> fst (random_range R (height_value F own) (height_value F tip) g) \<and>
      fst (random_range R (height_value F own) (height_value F tip) g) < height_value F tip"
  shows "fst (try_uniform F R own tip g) = None \<longleftrightarrow> unat (fst (random_range R (height_value F own) (height_value F tip) g)) < 2"
    "fst (try_uniform F R own tip g) = Some h \<Longrightarrow> 2 \<le> unat (height_value F h) \<and> unat (height_value F h) < unat (height_value F tip)"
proof -
  let ?x = "fst (random_range R (height_value F own) (height_value F tip) g)"
  have lt: "unat ?x < unat (height_value F tip)" using assms(2) by (simp add: word_less_nat_alt)
  then have "unat ?x < bfe_P" using value_lt [of "height_bfe tip"] by (simp add: height_value_def)
  then have v: "height_value F (height_from_u64 F ?x) = ?x" by (rule from_u64_value)
  show "fst (try_uniform F R own tip g) = None \<longleftrightarrow> unat ?x < 2"
    by (auto simp: try_uniform_def Let_def split_beta height_le_one v)
  assume "fst (try_uniform F R own tip g) = Some h"
  then show "2 \<le> unat (height_value F h) \<and> unat (height_value F h) < unat (height_value F tip)"
    using lt by (auto simp: try_uniform_def Let_def split_beta height_le_one v split: if_splits)
qed

end

section \<open>Evolution of the proof-of-work: lemmas\<close>

text \<open>The bound is computed for every start and every number of blocks.\<close>

definition bounds_computed :: "'x f64_ops \<Rightarrow> 'f bfield \<Rightarrow> network \<Rightarrow> bool" where
  "bounds_computed X F net \<longleftrightarrow> (\<forall>p d n. \<exists>b. max_cumulative_pow_after X F p d n (target_block_interval F net) (minimum_block_time F net) = Inr b)"

abbreviation triple_height :: "'f bfield \<Rightarrow> 'f pow_triple \<Rightarrow> u64" where
  "triple_height F t \<equiv> height_value F (fst t)"

context bfield_laws
begin

lemma step_bound_returns:
  assumes "bounds_computed X F net"
  shows "(\<exists>b. step_bound X F net start stop = Inr b) \<longleftrightarrow> triple_height F start \<le> triple_height F stop"
  using assms by (auto simp: step_bound_def height_sub_value bounds_computed_def word_le_def)

lemma log_bounds_returns:
  assumes "bounds_computed X F net"
  shows "log_bounds X F net ts = Inr () \<longleftrightarrow> sorted (map (triple_height F) ts)"
proof (induction ts rule: induct_list012)
  case (3 start stop ts)
  have "log_bounds X F net (start # stop # ts) = Inr () \<longleftrightarrow>
      triple_height F start \<le> triple_height F stop \<and> log_bounds X F net (stop # ts) = Inr ()"
    using step_bound_returns [OF assms, of start stop] by (auto simp: bind_res_Inr)
  with 3 show ?case by (auto simp: sorted2)
qed simp_all

lemma evolution_returns:
  assumes "bounds_computed X F net"
  shows "sorted (map (triple_height F) ts) \<Longrightarrow> \<exists>b. evolution_okay X F net ts = Inr b"
    "evolution_okay X F net ts = Inr True \<Longrightarrow> sorted (map (triple_height F) ts)"
proof (induction ts rule: induct_list012)
  case (3 start stop ts)
  { case 1
    then obtain b where "step_bound X F net start stop = Inr b" using step_bound_returns [OF assms, of start stop] by (auto simp: sorted2)
    with 1 3 show ?case by (auto simp: sorted2 bind_res_def)
  next
    case 2
    then obtain b where "step_bound X F net start stop = Inr b" "evolution_okay X F net (stop # ts) = Inr True"
      by (auto simp: bind_res_Inr split: if_splits)
    with 3(4) show ?case using step_bound_returns [OF assms, of start stop] by (auto simp: sorted2) }
qed auto

end

section \<open>Properties\<close>



text \<open>The two sides of a connection come to the same decision: when both versions can be parsed, one side accepts the
  handshake of the other exactly when the other side accepts its handshake, and neither panics.\<close>

theorem handshake_symmetric:
  assumes "parse (hs_version a) = Some va" "parse (hs_version b) = Some vb"
  shows "(handshake_validate parse a b = Inr (Inr ()) \<longleftrightarrow> handshake_validate parse b a = Inr (Inr ())) \<and>
    (\<exists>r. handshake_validate parse a b = Inr r)"
proof -
  have sym: "versions_are_compatible parse (hs_version a) (hs_version b) = versions_are_compatible parse (hs_version b) (hs_version a)"
    unfolding versions_are_compatible_def assms by auto
  have "\<exists>v. versions_are_compatible parse (hs_version a) (hs_version b) = Inr v"
    unfolding versions_are_compatible_def assms by simp
  then obtain v where v: "versions_are_compatible parse (hs_version a) (hs_version b) = Inr v"
    "versions_are_compatible parse (hs_version b) (hs_version a) = Inr v" using sym by metis
  show ?thesis
    unfolding handshake_validate_def v Let_def bind_res_def reject_if_def duration_since_def
    by (cases "hs_timestamp a \<le> hs_timestamp b") (auto split: if_splits)
qed


theorem handshake_symmetric_witness:
  "\<exists>a b. handshake_validate (\<lambda>_. Some \<lparr>major = 0, minor = 6, patch = 1, pre_release = [], build_metadata = []\<rparr>) a
      (b :: (nat, bfe) handshake_data) = Inr (Inr ()) \<and>
    handshake_validate (\<lambda>_. Some \<lparr>major = 0, minor = 6, patch = 1, pre_release = [], build_metadata = []\<rparr>) b a = Inr (Inr ())"
proof -
  let ?p = "\<lambda>_ :: string. Some \<lparr>major = 0, minor = 6, patch = 1, pre_release = [], build_metadata = []\<rparr>"
  let ?h = "\<lambda>i t. \<lparr>tip_header = genesis_header small_env RegTest, hs_network = RegTest, instance_id = i, hs_version = ''0.6.1'',
    is_archival_node = True, is_bootstrapper_node = False, hs_timestamp = t, extra_data = []\<rparr>"
  have "handshake_validate ?p (?h 1 0) (?h 2 (10 ^ 9)) = Inr (Inr ())"
    by (simp add: handshake_validate_def reject_if_def versions_are_compatible_def bind_res_def duration_since_def
        PEER_TIME_DIFFERENCE_THRESHOLD_def)
  with handshake_symmetric [where parse = ?p and a = "?h 1 0" and b = "?h 2 (10 ^ 9)"] show ?thesis by blast
qed


text \<open>Blocks and transactions survive the transfer to a peer: a block that can be transferred and is not at the height of
  the genesis block is received as it was sent, and what a peer sends is what is sent on.\<close>

theorem transfer_roundtrip:
  "(transfer_of_block b = Some t \<and> height (header b) \<noteq> height_genesis F \<longleftrightarrow> block_of_transfer F t = Some b) \<and>
   transaction_of_transfer (transfer_of_transaction tx) = tx \<and> transfer_of_transaction (transaction_of_transfer ttx) = ttx"
proof -
  have "transfer_of_block b = Some t \<and> height (header b) \<noteq> height_genesis F \<longleftrightarrow> block_of_transfer F t = Some b"
    by (cases b; cases "block_kernel b"; cases t) (auto simp: transfer_of_block_def block_of_transfer_def block_new_def split: block_proof.splits)
  then show ?thesis
    by (cases tx; cases ttx) (simp add: transaction_of_transfer_def transfer_of_transaction_def
        split: transaction_proof.split transfer_transaction_proof.split)
qed



definition steady_rng :: "unit rng_ops" where
  "steady_rng = \<lparr>next_u64 = (\<lambda>g. (- 1, g)), random_range = (\<lambda>lo hi g. (hi - 1, g))\<rparr>"

lemma steady_distance: "draw_distance steady_rng g = (1, g)"
proof -
  have "leading_zeros (- 1) = 0" by code_simp
  then show ?thesis by (simp add: draw_distance_def steady_rng_def)
qed




text \<open>Whole numbers in place of \<^verbatim>\<open>f64\<close>, and a response whose parents claim more work than its tip.\<close>

definition whole_f64 :: "nat f64_ops" where
  "whole_f64 = \<lparr>f64_of_nat = id, f64_of_int = nat, f64_literal = (\<lambda>m n. m div n), f64_add = (+), f64_mul = (*), f64_div = (div),
     f64_less = (<), f64_less_eq = (\<le>), f64_is_nan = (\<lambda>_. False), f64_is_infinite = (\<lambda>_. False), nat_of_f64 = id\<rparr>"

lemma whole_bounds: "bounds_computed whole_f64 F net"
  by (auto simp: bounds_computed_def max_cumulative_pow_after_def pow_try_from_f64_def whole_f64_def Let_def split: option.split)

definition falling_response ::
  "(nat, nat list, unit, bfe) block_body \<Rightarrow> (nat, nat list, unit, bfe, nat, unit) sync_challenge_response" where
  "falling_response bd =
     (let h = (genesis_header small_env RegTest)\<lparr>cumulative_proof_of_work := ProofOfWork [0, 1, 0, 0, 0, 0]\<rparr>;
          t = \<lparr>tb_header = h, tb_body = bd, tb_appendix = BlockAppendix [], tb_proof = ()\<rparr>
      in \<lparr>pair_blocks = replicate 10 (t, t), membership_proofs = replicate 10 (), tip_parent = t,
          response_tip = t\<lparr>tb_header := h\<lparr>cumulative_proof_of_work := ProofOfWork [5, 0, 0, 0, 0, 0]\<rparr>\<rparr>, pow_witnesses = []\<rparr>)"


lemma work_sum:
  assumes "wf_pow p" "\<forall>d\<in>set ds. wf_difficulty d" "pow_to_biguint p + length ds * 2 ^ 160 \<le> 2 ^ 192"
  shows "wf_pow (foldl (\<lambda>acc d. pow_add acc (d_limbs d)) p ds) \<and>
    pow_to_biguint (foldl (\<lambda>acc d. pow_add acc (d_limbs d)) p ds) = pow_to_biguint p + sum_list (map difficulty_to_biguint ds)"
  using assms
proof (induction ds arbitrary: p)
  case (Cons d ds)
  have len: "length (d_limbs d) = 5" using Cons.prems(2) by (simp add: wf_difficulty_def DIFFICULTY_NUM_LIMBS_def)
  have lt: "limbs_val (d_limbs d) < 2 ^ 160" using limbs_val_lt [of "d_limbs d"] len by simp
  have "wf_pow (pow_add p (d_limbs d)) \<and> pow_to_biguint (pow_add p (d_limbs d)) = (pow_to_biguint p + limbs_val (d_limbs d)) mod 2 ^ 192"
    using Cons.prems(1) len by (intro pow_add_adds) (simp_all add: POW_NUM_LIMBS_def)
  moreover have "pow_to_biguint p + limbs_val (d_limbs d) < 2 ^ 192" using Cons.prems(3) lt by simp
  ultimately have add: "wf_pow (pow_add p (d_limbs d))" "pow_to_biguint (pow_add p (d_limbs d)) = pow_to_biguint p + difficulty_to_biguint d"
    by simp_all
  moreover have "pow_to_biguint (pow_add p (d_limbs d)) + length ds * 2 ^ 160 \<le> 2 ^ 192" using Cons.prems(3) lt add(2) by simp
  ultimately show ?case using Cons.IH [of "pow_add p (d_limbs d)"] Cons.prems(2) by (simp del: pow_to_biguint_val difficulty_to_biguint_val)
qed simp

text \<open>\<^verbatim>\<open>check_difficulty\<close> compares the difficulty of the own tip with the sum of the difficulties of the ten child blocks, as
  numbers and without a carry that gets lost. A block that was asked for twice counts twice: the sum is over the pairs
  and not over the blocks.\<close>

theorem check_difficulty_sums:
  assumes "length (pair_blocks r) = SYNC_CHALLENGE_NUM_BLOCK_PAIRS" "wf_difficulty own"
    and "\<forall>(_, child)\<in>set (pair_blocks r). wf_difficulty (bh_difficulty (tb_header child))"
  shows "check_difficulty r own \<longleftrightarrow>
    difficulty_to_biguint own < sum_list (map (\<lambda>(_, child). difficulty_to_biguint (bh_difficulty (tb_header child))) (pair_blocks r))"
proof -
  let ?ds = "map (\<lambda>(_, child). bh_difficulty (tb_header child)) (pair_blocks r)"
  have min: "wf_pow pow_MINIMUM" "pow_to_biguint pow_MINIMUM = 0" by (simp_all add: wf_pow_def pow_MINIMUM_def)
  have wf: "\<forall>d\<in>set ?ds. wf_difficulty d" using assms(3) by auto
  have "foldl (\<lambda>acc (_, child). pow_add acc (d_limbs (bh_difficulty (tb_header child)))) p (pair_blocks r) =
      foldl (\<lambda>acc d. pow_add acc (d_limbs d)) p ?ds" for p
    by (simp add: foldl_map case_prod_unfold)
  moreover note work_sum [OF min(1) wf] work_sum [OF min(1), of "[own]"]
  ultimately show ?thesis
    using assms(1,2) min(2)
    by (simp add: check_difficulty_def Let_def pow_cmp_def limbs_cmp_val wf_pow_def cmp_nat_def SYNC_CHALLENGE_NUM_BLOCK_PAIRS_def comp_def case_prod_unfold)
qed


theorem check_difficulty_sums_witness: "\<forall>bd. check_difficulty (falling_response bd) (genesis_difficulty RegTest)"
proof
  fix bd
  have limbs: "d_limbs (genesis_difficulty RegTest) = [6000, 0, 0, 0, 0]" by code_simp
  then have wf: "wf_difficulty (genesis_difficulty RegTest)" by (simp add: wf_difficulty_def DIFFICULTY_NUM_LIMBS_def)
  have "bh_difficulty (genesis_header small_env RegTest) = genesis_difficulty RegTest" by (simp add: genesis_header_def)
  with wf show "check_difficulty (falling_response bd) (genesis_difficulty RegTest)"
    using check_difficulty_sums [of "falling_response bd" "genesis_difficulty RegTest"]
    by (auto simp: falling_response_def Let_def SYNC_CHALLENGE_NUM_BLOCK_PAIRS_def sum_list_replicate limbs simp del: genesis_difficulty.simps)
qed

end
