(* ===== verification/Archival_Mmr.thy ===== *)
theory Archival_Mmr
  imports Storage_Vec Mutator_Set
begin

text \<open>
  \<^verbatim>\<open>node/src/util_types/archival_mmr.rs\<close>: a Merkle mountain range that keeps every node, in a storage vector whose
  element 0 is a dummy. The node that completes a subtree of height \<open>h\<close> with the leaf \<open>l\<close> lies \<open>h\<close> places behind the
  leaf. The storage is any implementation of the vector contract (locale \<open>storage_vec\<close>). The arithmetic on node indices
  belongs to the library \<^verbatim>\<open>twenty-first\<close>: it is the parameter record \<open>mmr_index\<close>, whose documented meaning the locale
  \<open>archival_mmr\<close> states. The lemmas show that the operations are those of the list of leafs, and that peaks and
  authentication paths are the ones of the recursive Merkle trees.
\<close>

section \<open>Parameters\<close>

record ('s, 'v) vec_ops =
  vo_len :: "'s \<Rightarrow> u64 res"
  vo_get :: "'s \<Rightarrow> u64 \<Rightarrow> 'v res"
  vo_get_many :: "'s \<Rightarrow> u64 list \<Rightarrow> 'v list res"
  vo_get_all :: "'s \<Rightarrow> 'v list res"
  vo_set :: "'s \<Rightarrow> u64 \<Rightarrow> 'v \<Rightarrow> 's res"
  vo_set_many :: "'s \<Rightarrow> (u64 \<times> 'v) list \<Rightarrow> 's res"
  vo_pop :: "'s \<Rightarrow> ('s \<times> 'v option) res"
  vo_push :: "'s \<Rightarrow> 'v \<Rightarrow> 's res"
  vo_clear :: "'s \<Rightarrow> 's res"

record mmr_index =
  leaf_index_to_node_index :: "u64 \<Rightarrow> u64"
  node_index_to_leaf_index :: "u64 \<Rightarrow> u64 option"
  right_lineage_length_from_leaf_index :: "u64 \<Rightarrow> u32"
  right_lineage_length_and_own_height :: "u64 \<Rightarrow> u32 \<times> u32"
  parent :: "u64 \<Rightarrow> u64"
  left_sibling :: "u64 \<Rightarrow> u32 \<Rightarrow> u64"
  right_sibling :: "u64 \<Rightarrow> u32 \<Rightarrow> u64"
  peak_node_indices :: "u64 \<Rightarrow> u64 list"
  leaf_index_to_mt_index_and_peak_index :: "u64 \<Rightarrow> u64 \<Rightarrow> u64 \<times> u32"
  get_authentication_path_node_indices :: "u64 \<Rightarrow> u64 \<Rightarrow> u64 \<Rightarrow> u64 list option"

section \<open>Operations\<close>

record 's archival_mmr =
  digests :: 's

definition unwrap :: "'a option \<Rightarrow> 'a res" where
  "unwrap x = (case x of None \<Rightarrow> Inl UnwrapFailed | Some a \<Rightarrow> Inr a)"

definition ammr_num_leafs :: "('s, 'd) vec_ops \<Rightarrow> mmr_index \<Rightarrow> 's archival_mmr \<Rightarrow> u64 res" where
  "ammr_num_leafs V X a = bind_res (vo_len V (digests a)) (\<lambda>n. unwrap (node_index_to_leaf_index X n))"

definition ammr_peaks :: "('s, 'd) vec_ops \<Rightarrow> mmr_index \<Rightarrow> 's archival_mmr \<Rightarrow> 'd list res" where
  "ammr_peaks V X a =
     bind_res (ammr_num_leafs V X a) (\<lambda>leaf_count. vo_get_many V (digests a) (peak_node_indices X leaf_count))"

definition ammr_to_accumulator ::
  "('s, 'd) vec_ops \<Rightarrow> mmr_index \<Rightarrow> ('d, 'm, 'p) crypto \<Rightarrow> 's archival_mmr \<Rightarrow> 'm res" where
  "ammr_to_accumulator V X C a =
     bind_res (ammr_peaks V X a) (\<lambda>peaks. bind_res (ammr_num_leafs V X a) (\<lambda>n. Inr (mmr_init C peaks n)))"

definition ammr_bag_peaks ::
  "('s, 'd) vec_ops \<Rightarrow> mmr_index \<Rightarrow> ('d, 'm, 'p) crypto \<Rightarrow> 's archival_mmr \<Rightarrow> 'd res" where
  "ammr_bag_peaks V X C a =
     bind_res (ammr_peaks V X a) (\<lambda>peaks. bind_res (ammr_num_leafs V X a) (\<lambda>n. Inr (bag_peaks C (mmr_init C peaks n))))"

definition ammr_is_empty :: "('s, 'd) vec_ops \<Rightarrow> 's archival_mmr \<Rightarrow> bool res" where
  "ammr_is_empty V a = bind_res (vo_len V (digests a)) (\<lambda>n. Inr (n = 1))"

text \<open>The loop of \<^verbatim>\<open>append\<close> over the heights; the list collects the authentication path.\<close>

fun append_loop ::
  "('s, 'd) vec_ops \<Rightarrow> mmr_index \<Rightarrow> ('d, 'm, 'p) crypto \<Rightarrow> nat list \<Rightarrow> u64 \<Rightarrow> 'd \<Rightarrow> 'd list \<Rightarrow> 's \<Rightarrow> ('s \<times> 'd list) res" where
  "append_loop V X C [] node_index acc_hash path s = Inr (s, path)"
| "append_loop V X C (h # hs) node_index acc_hash path s =
     bind_res (vo_get V s (left_sibling X node_index (of_nat h))) (\<lambda>left_sibling_hash.
       let path = path @ [left_sibling_hash]; acc_hash = hash_pair C left_sibling_hash acc_hash
       in bind_res (vo_push V s acc_hash) (\<lambda>s. append_loop V X C hs (node_index + 1) acc_hash path s))"

definition ammr_append ::
  "('s, 'd) vec_ops \<Rightarrow> mmr_index \<Rightarrow> ('d, 'm, 'p) crypto \<Rightarrow> 's archival_mmr \<Rightarrow> 'd \<Rightarrow> ('s archival_mmr \<times> 'd list) res" where
  "ammr_append V X C a new_leaf =
     bind_res (vo_len V (digests a)) (\<lambda>node_index.
     bind_res (unwrap (node_index_to_leaf_index X node_index)) (\<lambda>leaf_index.
     let right_lineage_length = right_lineage_length_from_leaf_index X leaf_index in
     bind_res (vo_push V (digests a) new_leaf) (\<lambda>s.
     bind_res (append_loop V X C [0..<unat right_lineage_length] node_index new_leaf [] s) (\<lambda>(s, path).
       Inr (\<lparr>digests = s\<rparr>, path)))))"

text \<open>The loop of \<^verbatim>\<open>mutate_leaf\<close> climbs to the peak. It is bounded by the number of nodes; a loop that does not end is
  \<^const>\<open>StackOverflow\<close>.\<close>

fun mutate_loop ::
  "('s, 'd) vec_ops \<Rightarrow> mmr_index \<Rightarrow> ('d, 'm, 'p) crypto \<Rightarrow> nat \<Rightarrow> u64 \<Rightarrow> u64 \<Rightarrow> 'd \<Rightarrow> 's \<Rightarrow> 's res" where
  "mutate_loop V X C 0 node_index parent_index acc_hash s = Inl StackOverflow"
| "mutate_loop V X C (Suc n) node_index parent_index acc_hash s =
     bind_res (vo_len V s) (\<lambda>l.
     if \<not> parent_index < l then Inr s
     else let (right_lineage_count, h) = right_lineage_length_and_own_height X node_index in
       bind_res (if right_lineage_count \<noteq> 0
                 then bind_res (vo_get V s (left_sibling X node_index h)) (\<lambda>d. Inr (hash_pair C d acc_hash))
                 else bind_res (vo_get V s (right_sibling X node_index h)) (\<lambda>d. Inr (hash_pair C acc_hash d))) (\<lambda>acc_hash.
       bind_res (vo_set V s parent_index acc_hash) (\<lambda>s.
         mutate_loop V X C n parent_index (parent X parent_index) acc_hash s)))"

definition ammr_mutate_leaf ::
  "('s, 'd) vec_ops \<Rightarrow> mmr_index \<Rightarrow> ('d, 'm, 'p) crypto \<Rightarrow> 's archival_mmr \<Rightarrow> u64 \<Rightarrow> 'd \<Rightarrow> 's archival_mmr res" where
  "ammr_mutate_leaf V X C a leaf_index new_leaf =
     (let node_index = leaf_index_to_node_index X leaf_index in
      bind_res (vo_set V (digests a) node_index new_leaf) (\<lambda>s.
      bind_res (vo_len V s) (\<lambda>l.
      bind_res (mutate_loop V X C (Suc (unat l)) node_index (parent X node_index) new_leaf s) (\<lambda>s. Inr \<lparr>digests = s\<rparr>))))"

fun mutate_leafs ::
  "('s, 'd) vec_ops \<Rightarrow> mmr_index \<Rightarrow> ('d, 'm, 'p) crypto \<Rightarrow> 's archival_mmr \<Rightarrow> (u64 \<times> 'd) list \<Rightarrow> 's archival_mmr res" where
  "mutate_leafs V X C a [] = Inr a"
| "mutate_leafs V X C a ((leaf_index, digest) # rest) =
     bind_res (ammr_mutate_leaf V X C a leaf_index digest) (\<lambda>a. mutate_leafs V X C a rest)"

definition ammr_prove_membership :: "('s, 'd) vec_ops \<Rightarrow> mmr_index \<Rightarrow> 's archival_mmr \<Rightarrow> u64 \<Rightarrow> 'd list res" where
  "ammr_prove_membership V X a leaf_index =
     bind_res (ammr_num_leafs V X a) (\<lambda>n. assert_then (leaf_index < n)
     (let node_index = leaf_index_to_node_index X leaf_index;
          (_, own_index_into_peaks_list) = leaf_index_to_mt_index_and_peak_index X leaf_index n;
          peak_indices = peak_node_indices X n in
      bind_res (vo_len V (digests a)) (\<lambda>num_nodes.
      bind_res (index_res peak_indices (unat own_index_into_peaks_list)) (\<lambda>peak.
      bind_res (unwrap (get_authentication_path_node_indices X node_index peak num_nodes)) (\<lambda>sibling_indices.
        vo_get_many V (digests a) sibling_indices)))))"

text \<open>\<^verbatim>\<open>batch_mutate_leaf_and_update_mps\<close>: the second loop replaces the membership proofs, in pairs with the mutations, and
  records the indices of those that changed.\<close>

fun update_mps ::
  "('s, 'd) vec_ops \<Rightarrow> mmr_index \<Rightarrow> 's archival_mmr \<Rightarrow> nat \<Rightarrow> 'd list list \<Rightarrow> (u64 \<times> 'd) list \<Rightarrow> ('d list list \<times> nat list) res" where
  "update_mps V X a i (mp # mps) ((leaf_index, _) # rest) =
     bind_res (ammr_prove_membership V X a leaf_index) (\<lambda>new_mp.
     bind_res (update_mps V X a (Suc i) mps rest) (\<lambda>(mps, modified).
       Inr (new_mp # mps, if new_mp \<noteq> mp then i # modified else modified)))"
| "update_mps V X a i mps _ = Inr (mps, [])"

definition batch_mutate_leaf_and_update_mps ::
  "('s, 'd) vec_ops \<Rightarrow> mmr_index \<Rightarrow> ('d, 'm, 'p) crypto \<Rightarrow> 's archival_mmr \<Rightarrow> 'd list list \<Rightarrow> (u64 \<times> 'd) list
     \<Rightarrow> ('s archival_mmr \<times> 'd list list \<times> nat list) res" where
  "batch_mutate_leaf_and_update_mps V X C a membership_proofs mutation_data =
     assert_then (distinct (map fst mutation_data))
     (bind_res (mutate_leafs V X C a mutation_data) (\<lambda>a.
      bind_res (update_mps V X a 0 membership_proofs mutation_data) (\<lambda>(mps, modified). Inr (a, mps, modified))))"

definition fix_dummy :: "('s, 'd) vec_ops \<Rightarrow> ('d, 'm, 'p) crypto \<Rightarrow> 's archival_mmr \<Rightarrow> 's archival_mmr res" where
  "fix_dummy V C a = bind_res (vo_len V (digests a)) (\<lambda>n.
     if n = 0 then bind_res (vo_push V (digests a) (zero_digest C)) (\<lambda>s. Inr \<lparr>digests = s\<rparr>) else Inr a)"

definition ammr_new :: "('s, 'd) vec_ops \<Rightarrow> ('d, 'm, 'p) crypto \<Rightarrow> 's \<Rightarrow> 's archival_mmr res" where
  "ammr_new V C pv = fix_dummy V C \<lparr>digests = pv\<rparr>"

definition ammr_get_leaf :: "('s, 'd) vec_ops \<Rightarrow> mmr_index \<Rightarrow> 's archival_mmr \<Rightarrow> u64 \<Rightarrow> 'd res" where
  "ammr_get_leaf V X a leaf_index = vo_get V (digests a) (leaf_index_to_node_index X leaf_index)"

definition ammr_get_leaf_range :: "('s, 'd) vec_ops \<Rightarrow> mmr_index \<Rightarrow> 's archival_mmr \<Rightarrow> u64 \<Rightarrow> u64 \<Rightarrow> 'd list res" where
  "ammr_get_leaf_range V X a lo hi =
     vo_get_many V (digests a) (map (\<lambda>i. leaf_index_to_node_index X (of_nat i)) [unat lo..<Suc (unat hi)])"

definition try_get_leaf :: "('s, 'd) vec_ops \<Rightarrow> mmr_index \<Rightarrow> 's archival_mmr \<Rightarrow> u64 \<Rightarrow> 'd option res" where
  "try_get_leaf V X a leaf_index =
     bind_res (ammr_num_leafs V X a) (\<lambda>n.
       if n \<le> leaf_index then Inr None else bind_res (ammr_get_leaf V X a leaf_index) (\<lambda>d. Inr (Some d)))"

text \<open>The loop of the local function \<^verbatim>\<open>auth_path_node_indices\<close>.\<close>

function auth_path_loop :: "u64 \<Rightarrow> u64 \<Rightarrow> u32 \<Rightarrow> u64 list" where
  "auth_path_loop merkle_tree_index node_index h =
     (if 1 < merkle_tree_index
      then let is_left_sibling = (merkle_tree_index AND 1 = 0);
               height_pow = push_bit (unat (h + 1)) (1 :: u64);
               as_1_or_minus_1 = (if is_left_sibling then 1 else - 1 :: u64);
               signed_height_pow = height_pow * as_1_or_minus_1;
               sibling = node_index + signed_height_pow - as_1_or_minus_1;
               node_index = node_index + push_bit (unat ((h + 1) * (if is_left_sibling then 1 else 0))) 1
           in sibling # auth_path_loop (drop_bit 1 merkle_tree_index) node_index (h + 1)
      else [])"
  by pat_completeness auto
termination
proof (relation "measure (\<lambda>(m, _, _). unat m)")
  fix m n :: u64 and h :: u32 and x xa xb xc xd xe
  assume "1 < m"
  then have "unat m > 1" by (simp add: word_less_nat_alt)
  moreover have "unat (drop_bit 1 m) = unat m div 2" by (simp add: drop_bit_eq_div unat_div)
  ultimately show "((drop_bit 1 m, xe, h + 1), m, n, h) \<in> measure (\<lambda>(m, _, _). unat m)" by simp
qed simp

declare auth_path_loop.simps [simp del]

definition auth_path_node_indices :: "mmr_index \<Rightarrow> u64 \<Rightarrow> u64 \<Rightarrow> u64 list res" where
  "auth_path_node_indices X n leaf_index =
     assert_then (leaf_index < n)
       (let (merkle_tree_index, _) = leaf_index_to_mt_index_and_peak_index X leaf_index n
        in Inr (auth_path_loop merkle_tree_index (leaf_index_to_node_index X leaf_index) 0))"

definition prove_membership_relative_to_smaller_mmr ::
  "('s, 'd) vec_ops \<Rightarrow> mmr_index \<Rightarrow> 's archival_mmr \<Rightarrow> u64 \<Rightarrow> u64 \<Rightarrow> 'd list res" where
  "prove_membership_relative_to_smaller_mmr V X a leaf_index n =
     bind_res (ammr_num_leafs V X a) (\<lambda>own. assert_then (n \<le> own)
       (bind_res (auth_path_node_indices X n leaf_index) (\<lambda>node_indices. vo_get_many V (digests a) node_indices)))"

definition get_latest_leaf :: "('s, 'd) vec_ops \<Rightarrow> mmr_index \<Rightarrow> 's archival_mmr \<Rightarrow> 'd option res" where
  "get_latest_leaf V X a =
     bind_res (ammr_is_empty V a) (\<lambda>empty. if empty then Inr None
     else bind_res (vo_len V (digests a)) (\<lambda>n.
       let node_index = n - 1; (_, h) = right_lineage_length_and_own_height X node_index; node_index = node_index - ucast h
       in bind_res (vo_get V (digests a) node_index) (\<lambda>d. Inr (Some d))))"

definition pop_unwrap :: "('s, 'd) vec_ops \<Rightarrow> 's \<Rightarrow> ('s \<times> 'd) res" where
  "pop_unwrap V s = bind_res (vo_pop V s) (\<lambda>(s, d). bind_res (unwrap d) (\<lambda>d. Inr (s, d)))"

fun pop_loop :: "('s, 'd) vec_ops \<Rightarrow> nat \<Rightarrow> 's \<Rightarrow> 'd \<Rightarrow> ('s \<times> 'd) res" where
  "pop_loop V 0 s ret = Inr (s, ret)"
| "pop_loop V (Suc h) s ret = bind_res (pop_unwrap V s) (\<lambda>(s, ret). pop_loop V h s ret)"

definition remove_last_leaf ::
  "('s, 'd) vec_ops \<Rightarrow> mmr_index \<Rightarrow> 's archival_mmr \<Rightarrow> ('s archival_mmr \<times> 'd option) res" where
  "remove_last_leaf V X a =
     bind_res (ammr_is_empty V a) (\<lambda>empty. if empty then Inr (a, None)
     else bind_res (vo_len V (digests a)) (\<lambda>n.
       let node_index = n - 1 in
       bind_res (pop_unwrap V (digests a)) (\<lambda>(s, ret).
       let (_, h) = right_lineage_length_and_own_height X node_index in
       bind_res (pop_loop V (unat h) s ret) (\<lambda>(s, ret). Inr (\<lparr>digests = s\<rparr>, Some ret)))))"

text \<open>The loop of \<^verbatim>\<open>prune_to_num_leafs\<close> pops at most every element.\<close>

fun prune_loop :: "('s, 'd) vec_ops \<Rightarrow> nat \<Rightarrow> u64 \<Rightarrow> 's \<Rightarrow> 's res" where
  "prune_loop V 0 last_removal s = Inl StackOverflow"
| "prune_loop V (Suc n) last_removal s =
     bind_res (vo_len V s) (\<lambda>l. if last_removal < l
       then bind_res (pop_unwrap V s) (\<lambda>(s, _). prune_loop V n last_removal s) else Inr s)"

definition prune_to_num_leafs :: "('s, 'd) vec_ops \<Rightarrow> mmr_index \<Rightarrow> 's archival_mmr \<Rightarrow> u64 \<Rightarrow> 's archival_mmr res" where
  "prune_to_num_leafs V X a n =
     (let index_of_last_removal = leaf_index_to_node_index X n in
      bind_res (vo_len V (digests a)) (\<lambda>l.
      bind_res (prune_loop V (Suc (unat l)) index_of_last_removal (digests a)) (\<lambda>s. Inr \<lparr>digests = s\<rparr>)))"

section \<open>Where the nodes lie\<close>

text \<open>The number of trailing ones of a leaf index is the number of subtrees that the leaf completes. Leaf \<open>n\<close> has the
  node index \<open>node_pos n\<close>, which is also the number of nodes of the range with \<open>n\<close> leafs, with the dummy.\<close>

function ones :: "nat \<Rightarrow> nat" where
  "ones n = (if odd n then Suc (ones (n div 2)) else 0)"
  by pat_completeness auto
termination
  by (relation "measure id") (auto elim!: oddE)

declare ones.simps [simp del]

lemma ones_even [simp]: "ones (2 * n) = 0" and ones_odd [simp]: "ones (Suc (2 * n)) = Suc (ones n)"
  by (subst ones.simps, simp)+

lemma ones_positive: "0 < ones n \<longleftrightarrow> odd n"
  by (subst ones.simps) simp

lemma ones_positiveE:
  assumes "h < ones n"
  obtains m where "n = Suc (2 * m)"
proof -
  have "odd n" using assms ones_positive by (metis gr_zeroI not_less_zero)
  then show thesis using that by (auto elim: oddE)
qed

fun node_pos :: "nat \<Rightarrow> nat" where
  "node_pos 0 = 1"
| "node_pos (Suc n) = node_pos n + Suc (ones n)"

lemma node_pos_double: "node_pos (2 * n) = node_pos n + 2 * n"
proof (induction n)
  case (Suc n)
  have "node_pos (2 * Suc n) = node_pos (Suc (Suc (2 * n)))" by simp
  also have "\<dots> = node_pos (2 * n) + 3 + ones n" by simp
  finally show ?case using Suc by simp
qed simp

lemma node_pos_odd: "node_pos (Suc (2 * n)) = node_pos n + 2 * n + 1"
  by (simp add: node_pos_double)

lemma node_pos_less: "m < n \<Longrightarrow> node_pos m + ones m < node_pos n"
proof (induction n)
  case (Suc n)
  then show ?case by (cases "m = n") auto
qed simp

lemma node_pos_mono: "m \<le> n \<Longrightarrow> node_pos m \<le> node_pos n"
  using node_pos_less [of m n] by (cases "m = n") auto

lemma node_pos_positive: "0 < node_pos n"
  using node_pos_mono [of 0 n] by simp

lemma node_pos_ge: "n < node_pos n"
  by (induction n) auto

lemma node_pos_le: "node_pos n \<le> 2 * n + 1"
proof (induction n rule: less_induct)
  case (less n)
  show ?case
  proof (cases "n = 0")
    case False
    let ?m = "n div 2"
    have "?m < n" using False by simp
    with less have IH: "node_pos ?m \<le> 2 * ?m + 1" by blast
    have "n = 2 * ?m \<or> n = Suc (2 * ?m)" by presburger
    then consider "n = 2 * ?m" "node_pos n = node_pos (2 * ?m)" | "n = Suc (2 * ?m)" "node_pos n = node_pos (Suc (2 * ?m))" by metis
    then show ?thesis using IH node_pos_double [of ?m] node_pos_odd [of ?m] by cases linarith+
  qed simp
qed

lemma node_unique:
  assumes "node_pos l + h = node_pos m + k" "h \<le> ones l" "k \<le> ones m"
  shows "l = m \<and> h = k"
  using node_pos_less [of l m] node_pos_less [of m l] assms by (cases l m rule: linorder_cases) auto

lemma node_inside: "h \<le> ones l \<Longrightarrow> node_pos l + h < node_pos n \<longleftrightarrow> l < n"
  using node_pos_less [of l n] node_pos_mono [of n l] by (cases "l < n") auto

lemma nodes_exhausted: "0 < i \<Longrightarrow> i < node_pos n \<Longrightarrow> \<exists>l h. l < n \<and> h \<le> ones l \<and> i = node_pos l + h"
proof (induction n)
  case (Suc n)
  show ?case
  proof (cases "i < node_pos n")
    case True
    then show ?thesis using Suc by (meson less_SucI)
  next
    case False
    with Suc.prems have "n < Suc n \<and> i - node_pos n \<le> ones n \<and> i = node_pos n + (i - node_pos n)" by auto
    then show ?thesis by blast
  qed
qed simp

text \<open>The left sibling of a right child.\<close>

lemma left_node:
  assumes "h < ones n"
  shows "2 ^ h \<le> n \<and> h \<le> ones (n - 2 ^ h) \<and> node_pos (n - 2 ^ h) + 2 ^ Suc h = Suc (node_pos n)"
  using assms
proof (induction h arbitrary: n)
  case 0
  then obtain m where "n = Suc (2 * m)" by (rule ones_positiveE)
  then show ?case by simp
next
  case (Suc h)
  from Suc.prems obtain m where n: "n = Suc (2 * m)" by (rule ones_positiveE)
  with Suc have IH: "2 ^ h \<le> m" "h \<le> ones (m - 2 ^ h)" "node_pos (m - 2 ^ h) + 2 ^ Suc h = Suc (node_pos m)" by auto
  have e: "n - 2 ^ Suc h = Suc (2 * (m - 2 ^ h))" using IH(1) n by simp
  have d: "node_pos (Suc (2 * (m - 2 ^ h))) + 2 ^ Suc (Suc h) = Suc (node_pos n)"
    unfolding n node_pos_odd using IH(1,3) by simp
  have "2 ^ Suc h \<le> n" "Suc h \<le> ones (Suc (2 * (m - 2 ^ h)))" using IH n by auto
  with d show ?case unfolding e by blast
qed

text \<open>The last leaf below the ancestor of leaf \<open>i\<close> at height \<open>h\<close>.\<close>

fun fill :: "nat \<Rightarrow> nat \<Rightarrow> nat" where
  "fill q 0 = q"
| "fill q (Suc h) = Suc (2 * fill q h)"

definition anc :: "nat \<Rightarrow> nat \<Rightarrow> nat" where
  "anc i h = fill (i div 2 ^ h) h"

lemma Suc_fill: "Suc (fill q h) = Suc q * 2 ^ h"
  by (induction h) auto

lemma ones_fill: "ones (fill q h) = h + ones q"
  by (induction h) auto

lemma fill_div: "h \<le> ones n \<Longrightarrow> fill (n div 2 ^ h) h = n"
proof (induction h arbitrary: n)
  case (Suc h)
  then obtain m where n: "n = Suc (2 * m)" by (metis Suc_le_lessD ones_positiveE)
  have "n div 2 ^ Suc h = m div 2 ^ h" unfolding n power_Suc div_mult2_eq by simp
  then show ?case using Suc n by simp
qed simp

lemma two_power_ones: "h \<le> ones n \<Longrightarrow> 2 ^ h \<le> Suc n"
  using Suc_fill [of "n div 2 ^ h" h] fill_div [of h n] by simp

lemma anc_0 [simp]: "anc i 0 = i"
  by (simp add: anc_def)

lemma ones_anc_ge: "h \<le> ones (anc i h)"
  by (simp add: anc_def ones_fill)

lemma anc_odd: "h < ones (anc i h) \<longleftrightarrow> odd (i div 2 ^ h)"
  by (simp add: anc_def ones_fill ones_positive)

lemma anc_Suc: "anc i (Suc h) = (if h < ones (anc i h) then anc i h else anc i h + 2 ^ h)"
proof -
  let ?q = "i div 2 ^ h"
  have d: "i div 2 ^ Suc h = ?q div 2" by (metis div_mult2_eq power_Suc2)
  have "Suc (anc i (Suc h)) = Suc (?q div 2) * 2 * 2 ^ h" unfolding anc_def Suc_fill d by simp
  also have "\<dots> = (if odd ?q then Suc (anc i h) else Suc (anc i h) + 2 ^ h)"
    unfolding anc_def Suc_fill by (auto elim!: oddE evenE)
  finally show ?thesis unfolding anc_odd by (auto split: if_splits)
qed

lemma anc_mono: "h \<le> k \<Longrightarrow> anc i h \<le> anc i k"
proof (induction k)
  case (Suc k)
  then show ?case using anc_Suc [of i k] by (cases "h = Suc k") (auto split: if_splits)
qed simp

lemma anc_ge: "i \<le> anc i h"
  using anc_mono [of 0 h i] by simp

text \<open>A node covers leaf \<open>i\<close> exactly if it is an ancestor of it.\<close>

lemma anc_covers:
  assumes "h \<le> ones l"
  shows "l = anc i h \<longleftrightarrow> i \<le> l \<and> l < i + 2 ^ h"
proof
  assume l: "l = anc i h"
  have "Suc l = i div 2 ^ h * 2 ^ h + 2 ^ h" unfolding l anc_def Suc_fill by simp
  moreover have "i div 2 ^ h * 2 ^ h \<le> i" by (rule div_times_less_eq_dividend)
  ultimately show "i \<le> l \<and> l < i + 2 ^ h" using anc_ge [of i h] l by linarith
next
  assume *: "i \<le> l \<and> l < i + 2 ^ h"
  have l: "Suc l = l div 2 ^ h * 2 ^ h + 2 ^ h" using Suc_fill [of "l div 2 ^ h" h] fill_div [OF assms] by simp
  have "i div 2 ^ h = l div 2 ^ h"
  proof (rule div_nat_eqI)
    show "2 ^ h * (l div 2 ^ h) \<le> i" using * l by (simp add: mult.commute)
    show "i < 2 ^ h * Suc (l div 2 ^ h)" using * l by (simp add: mult.commute)
  qed
  then show "l = anc i h" using fill_div [OF assms] by (simp add: anc_def)
qed

section \<open>The Merkle trees\<close>

fun tree_node :: "('d \<Rightarrow> 'd \<Rightarrow> 'd) \<Rightarrow> 'd list \<Rightarrow> nat \<Rightarrow> nat \<Rightarrow> 'd" where
  "tree_node H xs l 0 = xs ! l"
| "tree_node H xs l (Suc h) = H (tree_node H xs (l - 2 ^ h) h) (tree_node H xs l h)"

definition layout :: "('d \<Rightarrow> 'd \<Rightarrow> 'd) \<Rightarrow> 'd list \<Rightarrow> 'd list \<Rightarrow> bool" where
  "layout H xs ds \<longleftrightarrow> length ds = node_pos (length xs) \<and>
     (\<forall>l<length xs. \<forall>h\<le>ones l. ds ! (node_pos l + h) = tree_node H xs l h)"

lemma tree_node_take: "l < n \<Longrightarrow> tree_node H (take n xs) l h = tree_node H xs l h"
  by (induction h arbitrary: l) auto

lemma tree_node_append: "l < length xs \<Longrightarrow> tree_node H (xs @ ys) l h = tree_node H xs l h"
  using tree_node_take [of l "length xs" H "xs @ ys" h] by simp

lemma tree_node_update:
  assumes "h \<le> ones l" "l \<noteq> anc i h"
  shows "tree_node H (xs[i := x]) l h = tree_node H xs l h"
  using assms
proof (induction h arbitrary: l)
  case (Suc h)
  have left: "2 ^ h \<le> l" "h \<le> ones (l - 2 ^ h)" using left_node [of h l] Suc.prems by auto
  have "l - 2 ^ h \<noteq> anc i h" "l \<noteq> anc i h"
    using Suc.prems anc_covers [of "Suc h" l i] anc_covers [of h l i] anc_covers [OF left(2), of i] left(1) by auto
  then show ?case using Suc.IH [of l] Suc.IH [of "l - 2 ^ h"] Suc.prems left by simp
qed auto

definition peak_heights :: "nat \<Rightarrow> nat list" where
  "peak_heights n = filter (\<lambda>h. odd (n div 2 ^ h)) (rev [0..<64])"

definition peak_leaf :: "nat \<Rightarrow> nat \<Rightarrow> nat" where
  "peak_leaf n h = n div 2 ^ h * 2 ^ h - 1"

definition peaks_of :: "('d \<Rightarrow> 'd \<Rightarrow> 'd) \<Rightarrow> 'd list \<Rightarrow> 'd list" where
  "peaks_of H xs = map (\<lambda>h. tree_node H xs (peak_leaf (length xs) h) h) (peak_heights (length xs))"

text \<open>The height of the tree that holds leaf \<open>i\<close> of \<open>n\<close>, the siblings on the way up, and their digests.\<close>

fun tree_height :: "nat \<Rightarrow> nat \<Rightarrow> nat" where
  "tree_height n i = (if i < n \<and> n div 2 \<noteq> i div 2 then Suc (tree_height (n div 2) (i div 2)) else 0)"

declare tree_height.simps [simp del]

definition sibling_node :: "nat \<Rightarrow> nat \<Rightarrow> nat" where
  "sibling_node i h = (if odd (i div 2 ^ h) then anc i h - 2 ^ h else anc i h + 2 ^ h)"

definition auth_path_of :: "('d \<Rightarrow> 'd \<Rightarrow> 'd) \<Rightarrow> 'd list \<Rightarrow> nat \<Rightarrow> 'd list" where
  "auth_path_of H xs i = map (\<lambda>h. tree_node H xs (sibling_node i h) h) [0..<tree_height (length xs) i]"

lemma node_index_small:
  assumes "l < 2 ^ 61" "h \<le> ones l"
  shows "node_pos l + h < 2 ^ 63 + 64 \<and> h < 63"
proof -
  have "(2 :: nat) ^ h \<le> 2 ^ 61" using two_power_ones [OF assms(2)] assms(1) by linarith
  then have "h \<le> 61" by (simp only: power_increasing_iff one_less_numeral_iff semiring_norm)
  then show ?thesis using node_pos_le [of l] assms(1) by simp
qed

lemma unat_node: "l < 2 ^ 61 \<Longrightarrow> h \<le> ones l \<Longrightarrow> unat (of_nat (node_pos l + h) :: u64) = node_pos l + h"
  using node_index_small [of l h] by (intro unat_of_nat_u64) auto

lemma peak_leaf_bounds:
  assumes "odd (n div 2 ^ h)"
  shows "peak_leaf n h < n \<and> h \<le> ones (peak_leaf n h)"
proof -
  obtain q where q: "n div 2 ^ h = Suc q" using assms by (cases "n div 2 ^ h") auto
  have "Suc (peak_leaf n h) = Suc q * 2 ^ h" unfolding peak_leaf_def q by simp
  then have e: "peak_leaf n h = fill q h" using Suc_fill [of q h] by simp
  have "n div 2 ^ h * 2 ^ h \<le> n" by (rule div_times_less_eq_dividend)
  then have "Suc (fill q h) \<le> n" unfolding Suc_fill q .
  then show ?thesis by (simp add: e ones_fill)
qed

lemma tree_height_differs:
  assumes "i < n"
  shows "n div 2 ^ tree_height n i = Suc (i div 2 ^ tree_height n i) \<and> odd (n div 2 ^ tree_height n i)"
  using assms
proof (induction n i rule: tree_height.induct)
  case (1 n i)
  show ?case
  proof (cases "n div 2 = i div 2")
    case True
    then have "tree_height n i = 0" using 1(2) by (simp add: tree_height.simps)
    moreover have "n = Suc i \<and> odd n" using True 1(2) by presburger
    ultimately show ?thesis by (metis div_by_1 power_0)
  next
    case False
    then have "i div 2 < n div 2" using 1(2) by (simp add: div_le_mono le_neq_implies_less)
    moreover have "tree_height n i = Suc (tree_height (n div 2) (i div 2))"
      using False 1(2) by (subst tree_height.simps) simp
    ultimately show ?thesis using 1(1) False 1(2) by (simp only: div_mult2_eq power_Suc) blast
  qed
qed

lemma anc_peak: "i < n \<Longrightarrow> anc i (tree_height n i) = peak_leaf n (tree_height n i)"
proof -
  assume "i < n"
  from tree_height_differs [OF this] have "n div 2 ^ tree_height n i = Suc (i div 2 ^ tree_height n i)" by blast
  then have "Suc (anc i (tree_height n i)) = n div 2 ^ tree_height n i * 2 ^ tree_height n i" unfolding anc_def Suc_fill by simp
  then show ?thesis by (simp add: peak_leaf_def)
qed

lemma anc_below_height:
  assumes "i < n" "h \<le> tree_height n i"
  shows "anc i h < n"
  using anc_mono [OF assms(2), of i] anc_peak [OF assms(1)] peak_leaf_bounds [of n "tree_height n i"]
    tree_height_differs [OF assms(1)] by (metis le_less_trans)

lemma sibling_node_bounds:
  assumes "i < n" "h < tree_height n i"
  shows "sibling_node i h < n \<and> h \<le> ones (sibling_node i h) \<and>
    (odd (i div 2 ^ h) \<longrightarrow> node_pos (sibling_node i h) + 2 ^ Suc h = Suc (node_pos (anc i h))) \<and>
    (even (i div 2 ^ h) \<longrightarrow> node_pos (anc i h) + 2 ^ Suc h = Suc (node_pos (sibling_node i h)))"
proof -
  have next_: "anc i (Suc h) < n" using assms by (intro anc_below_height) auto
  have top: "h < ones (anc i (Suc h))" using ones_anc_ge [of "Suc h" i] by simp
  show ?thesis
  proof (cases "odd (i div 2 ^ h)")
    case True
    then have "h < ones (anc i h)" by (simp add: anc_odd)
    from left_node [OF this] show ?thesis using True anc_below_height [of i n h] assms by (auto simp: sibling_node_def)
  next
    case False
    then have "anc i (Suc h) = anc i h + 2 ^ h" using anc_Suc [of i h] anc_odd [of h i] by simp
    then show ?thesis using left_node [OF top] next_ top False by (auto simp: sibling_node_def)
  qed
qed

lemma descending_index:
  "sorted_wrt (>) ys \<Longrightarrow> x \<in> set ys \<Longrightarrow> index_res ys (length (filter (\<lambda>y. x < y) ys)) = Inr x" for x :: nat
proof (induction ys)
  case (Cons y ys)
  have "filter ((<) y) ys = []" using Cons.prems(1) by (auto simp: filter_empty_conv)
  then show ?case using Cons by (cases "x = y") (auto simp: index_res_def split: if_splits)
qed simp

lemma peak_height_mem:
  assumes "i < n" "n < 2 ^ 61"
  shows "tree_height n i \<in> set (peak_heights n)"
proof -
  have "odd (n div 2 ^ tree_height n i)" using tree_height_differs [OF assms(1)] by blast
  moreover from this have "2 ^ tree_height n i \<le> n" by (metis div_less even_zero not_less)
  then have "(2 :: nat) ^ tree_height n i < 2 ^ 61" using assms(2) by (rule le_less_trans)
  then have "tree_height n i < 64" using power_less_imp_less_exp [of "2 :: nat" "tree_height n i" 61] by simp
  ultimately show ?thesis by (simp add: peak_heights_def)
qed

lemma peak_heights_index:
  assumes "i < n" "n < 2 ^ 61"
  shows "index_res (peak_heights n) (length (filter (\<lambda>h. tree_height n i < h) (peak_heights n))) = Inr (tree_height n i)"
proof (rule descending_index [OF _ peak_height_mem [OF assms]])
  show "sorted_wrt (>) (peak_heights n)"
    unfolding peak_heights_def by (intro sorted_wrt_filter) (simp add: sorted_wrt_rev)
qed

section \<open>What the code relies on\<close>

declare of_nat_add [simp del] of_nat_Suc [simp del] tree_node.simps(2) [simp del]

locale archival_mmr = storage_vec repr "vo_len V" "vo_get V" "vo_get_many V" "vo_get_all V" "vo_set V" "vo_set_many V"
    "vo_pop V" "vo_push V" "vo_clear V"
  for repr :: "'s \<Rightarrow> 'd list \<Rightarrow> bool" and V :: "('s, 'd) vec_ops" +
  fixes X :: mmr_index and C :: "('d, 'm, 'p) crypto"
  assumes leaf_node: "unat i < 2 ^ 61 \<Longrightarrow> unat (leaf_index_to_node_index X i) = node_pos (unat i)"
    and node_leaf: "n < 2 ^ 61 \<Longrightarrow> node_index_to_leaf_index X (of_nat (node_pos n)) = Some (of_nat n)"
    and lineage: "unat i < 2 ^ 61 \<Longrightarrow> unat (right_lineage_length_from_leaf_index X i) = ones (unat i)"
    and lineage_height: "l < 2 ^ 61 \<Longrightarrow> h \<le> ones l \<Longrightarrow>
      right_lineage_length_and_own_height X (of_nat (node_pos l + h)) = (of_nat (ones l - h), of_nat h)"
    and parent_node: "l < 2 ^ 61 \<Longrightarrow> h \<le> ones l \<Longrightarrow> unat (parent X (of_nat (node_pos l + h))) =
      (if h < ones l then node_pos l + h + 1 else node_pos l + h + 2 ^ Suc h)"
    and left_sibling_node: "left_sibling X i k = i - push_bit (Suc (unat k)) 1 + 1"
    and right_sibling_node: "right_sibling X i k = i + push_bit (Suc (unat k)) 1 - 1"
    and peak_nodes: "n < 2 ^ 61 \<Longrightarrow> peak_node_indices X (of_nat n) =
      map (\<lambda>h. of_nat (node_pos (peak_leaf n h) + h)) (peak_heights n)"
    and mt_and_peak_index: "j < n \<Longrightarrow> n < 2 ^ 61 \<Longrightarrow> \<exists>m p. leaf_index_to_mt_index_and_peak_index X (of_nat j) (of_nat n) = (m, p) \<and>
      unat m = 2 ^ tree_height n j + j mod 2 ^ tree_height n j \<and>
      unat p = length (filter (\<lambda>h. tree_height n j < h) (peak_heights n))"
    and path_nodes: "j < n \<Longrightarrow> n < 2 ^ 61 \<Longrightarrow> get_authentication_path_node_indices X (of_nat (node_pos j))
        (of_nat (node_pos (anc j (tree_height n j)) + tree_height n j)) (of_nat (node_pos n)) =
      Some (map (\<lambda>h. of_nat (node_pos (sibling_node j h) + h)) [0..<tree_height n j])"
    and init_peaks: "length xs < 2 ^ 61 \<Longrightarrow> mmr_init C (peaks_of (hash_pair C) xs) (of_nat (length xs)) =
      foldl (\<lambda>m d. fst (mmr_append C m d)) (mmr_empty C) xs"
begin

definition ammr_repr :: "'s archival_mmr \<Rightarrow> 'd list \<Rightarrow> bool" where
  "ammr_repr a xs \<longleftrightarrow> length xs < 2 ^ 61 \<and> (\<exists>ds. repr (digests a) ds \<and> layout (hash_pair C) xs ds)"

lemma sibling_index:
  assumes "k < 64" "node_pos l + 2 ^ Suc k = Suc (node_pos n)"
  shows "left_sibling X (of_nat (node_pos n + k)) (of_nat k) = of_nat (node_pos l + k)"
    and "right_sibling X (of_nat (node_pos l + k)) (of_nat k) = of_nat (node_pos n + k)"
proof -
  have k: "unat (of_nat k :: u32) = k" using assms(1) by (simp add: unat_of_nat take_bit_nat_eq_self)
  have "(of_nat (node_pos l + 2 ^ Suc k) :: u64) = of_nat (Suc (node_pos n))" using assms(2) by simp
  then have e: "(of_nat (node_pos n) :: u64) = of_nat (node_pos l) + 2 ^ Suc k - 1" by (simp add: of_nat_add of_nat_Suc)
  show "left_sibling X (of_nat (node_pos n + k)) (of_nat k) = of_nat (node_pos l + k)"
    by (simp add: left_sibling_node k e push_bit_eq_mult of_nat_add)
  show "right_sibling X (of_nat (node_pos l + k)) (of_nat k) = of_nat (node_pos n + k)"
    by (simp add: right_sibling_node k e push_bit_eq_mult of_nat_add)
qed

lemma len_nodes: "ammr_repr a xs \<Longrightarrow> vo_len V (digests a) = Inr (of_nat (node_pos (length xs)))"
  by (auto simp: ammr_repr_def layout_def dest: len_repr)

lemma num_leafs_repr: "ammr_repr a xs \<Longrightarrow> ammr_num_leafs V X a = Inr (of_nat (length xs))"
  by (simp add: ammr_num_leafs_def len_nodes bind_res_def node_leaf unwrap_def ammr_repr_def)

lemma get_node:
  assumes "repr s ds" "layout H xs ds" "l < length xs" "h \<le> ones l" "unat w = node_pos l + h"
  shows "vo_get V s w = Inr (tree_node H xs l h)"
proof -
  have "unat w < length ds" using assms node_inside [of h l "length xs"] by (simp add: layout_def)
  from get_repr [OF assms(1) this] show ?thesis using assms by (simp add: layout_def)
qed

lemma get_nodes:
  assumes "repr s ds" "layout H xs ds" "\<And>h. h \<in> set hs \<Longrightarrow> f h < length xs \<and> h \<le> ones (f h)" "length xs < 2 ^ 61"
  shows "vo_get_many V s (map (\<lambda>h. of_nat (node_pos (f h) + h)) hs) = Inr (map (\<lambda>h. tree_node H xs (f h) h) hs)"
proof -
  have u: "unat (of_nat (node_pos (f h) + h) :: u64) = node_pos (f h) + h \<and> node_pos (f h) + h < length ds" if "h \<in> set hs" for h
    using assms(2,4) assms(3) [OF that] unat_node [of "f h" h] node_inside [of h "f h" "length xs"]
    by (simp add: layout_def)
  have "vo_get_many V s (map (\<lambda>h. of_nat (node_pos (f h) + h)) hs) =
      Inr (map (\<lambda>i. ds ! unat i) (map (\<lambda>h. of_nat (node_pos (f h) + h) :: u64) hs))"
    by (rule get_many_repr [OF assms(1)]) (use u in \<open>auto\<close>)
  moreover have "ds ! unat (of_nat (node_pos (f h) + h) :: u64) = tree_node H xs (f h) h" if "h \<in> set hs" for h
    using u [OF that] assms(2,3) that by (simp add: layout_def)
  ultimately show ?thesis by simp
qed

text \<open>Appending.\<close>

lemma append_loop_repr:
  assumes "repr s ds" "length xs + 1 < 2 ^ 61" "k \<le> ones (length xs)"
    and "length ds = node_pos (length xs) + Suc k"
    and "\<forall>l<length xs. \<forall>h\<le>ones l. ds ! (node_pos l + h) = tree_node (hash_pair C) (xs @ [x]) l h"
    and "\<forall>h\<le>k. ds ! (node_pos (length xs) + h) = tree_node (hash_pair C) (xs @ [x]) (length xs) h"
  shows "\<exists>s' ds'. append_loop V X C [k..<ones (length xs)] (of_nat (node_pos (length xs) + k))
      (tree_node (hash_pair C) (xs @ [x]) (length xs) k) path s =
        Inr (s', path @ map (\<lambda>h. tree_node (hash_pair C) xs (length xs - 2 ^ h) h) [k..<ones (length xs)]) \<and>
      repr s' ds' \<and> layout (hash_pair C) (xs @ [x]) ds'"
  using assms
proof (induction "ones (length xs) - k" arbitrary: k s ds path)
  case 0
  then have k: "k = ones (length xs)" by simp
  then have "layout (hash_pair C) (xs @ [x]) ds" using 0 by (auto simp: layout_def less_Suc_eq)
  then show ?case using 0 k by auto
next
  case (Suc n)
  let ?n = "length xs" and ?H = "hash_pair C"
  have k: "k < ones ?n" using Suc by simp
  then have upt: "[k..<ones ?n] = k # [Suc k..<ones ?n]" by (simp add: upt_conv_Cons)
  note left = left_node [OF k]
  let ?l = "?n - 2 ^ k" and ?w = "left_sibling X (of_nat (node_pos ?n + k)) (of_nat k)"
  have small: "node_pos ?n + k < 2 ^ 63 + 64" "k < 64" using node_index_small [of ?n k] Suc.prems(2,3) by auto
  have "0 < (2 :: nat) ^ k" by simp
  then have l: "?l < ?n" using left by linarith
  have w: "unat ?w = node_pos ?l + k"
    using sibling_index(1) [of k ?l ?n] unat_node [of ?l k] left small(2) Suc.prems(2) l by simp
  have "unat ?w < length ds" using w Suc.prems(4) node_inside [of k ?l ?n] left l by simp
  from get_repr [OF Suc.prems(1) this] have get: "vo_get V s ?w = Inr (tree_node ?H xs ?l k)"
    using Suc.prems(5) l left by (simp add: w tree_node_append)
  let ?acc = "tree_node ?H (xs @ [x]) ?n (Suc k)"
  have acc: "hash_pair C (tree_node ?H xs ?l k) (tree_node ?H (xs @ [x]) ?n k) = ?acc" using l by (simp add: tree_node_append tree_node.simps(2))
  have "length ds + 1 < 2 ^ 64" using Suc.prems(4) small by simp
  from push_repr [OF Suc.prems(1) this, of ?acc] obtain s1 where s1: "vo_push V s ?acc = Inr s1" "repr s1 (ds @ [?acc])" by blast
  have "node_pos l + h < length ds" if "l < ?n" "h \<le> ones l" for l h
    using that node_inside [of h l ?n] Suc.prems(4) by simp
  then have old: "\<forall>l<?n. \<forall>h\<le>ones l. (ds @ [?acc]) ! (node_pos l + h) = tree_node ?H (xs @ [x]) l h"
    using Suc.prems(5) by (simp add: nth_append)
  have new: "\<forall>h\<le>Suc k. (ds @ [?acc]) ! (node_pos ?n + h) = tree_node ?H (xs @ [x]) ?n h"
    using Suc.prems(4,6) by (auto simp: nth_append le_Suc_eq)
  have n: "n = ones ?n - Suc k" "Suc k \<le> ones ?n" "length (ds @ [?acc]) = node_pos ?n + Suc (Suc k)"
    using Suc.hyps(2) Suc.prems(4) k by simp_all
  from Suc.hyps(1) [OF n(1) s1(2) Suc.prems(2) n(2,3) old new, of "path @ [tree_node ?H xs ?l k]"]
  obtain s' ds' where "append_loop V X C [Suc k..<ones ?n] (of_nat (node_pos ?n + Suc k)) ?acc
      (path @ [tree_node ?H xs ?l k]) s1 =
        Inr (s', (path @ [tree_node ?H xs ?l k]) @ map (\<lambda>h. tree_node ?H xs (?n - 2 ^ h) h) [Suc k..<ones ?n])"
      "repr s' ds'" "layout ?H (xs @ [x]) ds'" by blast
  moreover have "(of_nat (node_pos ?n + k) :: u64) + 1 = of_nat (node_pos ?n + Suc k)" by (simp add: of_nat_add of_nat_Suc)
  ultimately show ?case unfolding upt
    by (auto simp: get bind_res_def acc s1(1) Let_def)
qed

lemma append_repr:
  assumes "ammr_repr a xs" "length xs + 1 < 2 ^ 61"
  shows "\<exists>a'. ammr_append V X C a d =
      Inr (a', map (\<lambda>h. tree_node (hash_pair C) xs (length xs - 2 ^ h) h) [0..<ones (length xs)]) \<and> ammr_repr a' (xs @ [d])"
proof -
  obtain ds where ds: "repr (digests a) ds" "layout (hash_pair C) xs ds" using assms(1) by (auto simp: ammr_repr_def)
  have len: "length ds = node_pos (length xs)" using ds(2) by (simp add: layout_def)
  have "length ds + 1 < 2 ^ 64" using node_index_small [of "length xs" 0] assms(2) by (simp add: len)
  from push_repr [OF ds(1) this, of d] obtain s where s: "vo_push V (digests a) d = Inr s" "repr s (ds @ [d])" by blast
  have n: "unat (of_nat (length xs) :: u64) = length xs" using assms(2) by (intro unat_of_nat_u64) simp
  have old: "\<forall>l<length xs. \<forall>h\<le>ones l. (ds @ [d]) ! (node_pos l + h) = tree_node (hash_pair C) (xs @ [d]) l h"
  proof (intro allI impI)
    fix l h assume "l < length xs" "h \<le> ones l"
    then show "(ds @ [d]) ! (node_pos l + h) = tree_node (hash_pair C) (xs @ [d]) l h"
      using ds(2) node_inside [of h l "length xs"] by (simp add: layout_def nth_append tree_node_append)
  qed
  have new: "\<forall>h\<le>0. (ds @ [d]) ! (node_pos (length xs) + h) = tree_node (hash_pair C) (xs @ [d]) (length xs) h"
    by (simp add: nth_append len)
  obtain s' ds' where "append_loop V X C [0..<ones (length xs)] (of_nat (node_pos (length xs) + 0)) d [] s =
      Inr (s', [] @ map (\<lambda>h. tree_node (hash_pair C) xs (length xs - 2 ^ h) h) [0..<ones (length xs)])"
      "repr s' ds'" "layout (hash_pair C) (xs @ [d]) ds'"
    using append_loop_repr [OF s(2) assms(2), of 0 d "[]"] old new len by auto
  moreover have "node_index_to_leaf_index X (of_nat (node_pos (length xs))) = Some (of_nat (length xs))"
    "unat (right_lineage_length_from_leaf_index X (of_nat (length xs))) = ones (length xs)"
    using node_leaf [of "length xs"] lineage [of "of_nat (length xs)"] assms(2) n by simp_all
  ultimately show ?thesis using assms(2)
    by (auto simp: ammr_append_def len_nodes [OF assms(1)] bind_res_def unwrap_def s(1) ammr_repr_def Let_def)
qed

text \<open>Reading leafs.\<close>

lemma get_leaf_repr:
  assumes "ammr_repr a xs" "unat i < length xs"
  shows "ammr_get_leaf V X a i = Inr (xs ! unat i)"
proof -
  obtain ds where ds: "repr (digests a) ds" "layout (hash_pair C) xs ds" "length xs < 2 ^ 61"
    using assms(1) by (auto simp: ammr_repr_def)
  have "unat i < 2 ^ 61" using ds(3) assms(2) by simp
  then show ?thesis using get_node [OF ds(1,2) assms(2), of 0] by (simp add: ammr_get_leaf_def leaf_node)
qed

lemma try_get_leaf_repr:
  assumes "ammr_repr a xs"
  shows "try_get_leaf V X a i = Inr (if unat i < length xs then Some (xs ! unat i) else None)"
proof -
  have "unat (of_nat (length xs) :: u64) = length xs"
    using assms by (intro unat_of_nat_u64) (simp add: ammr_repr_def)
  then show ?thesis
    using assms by (auto simp: try_get_leaf_def num_leafs_repr bind_res_def get_leaf_repr word_le_nat_alt)
qed

lemma is_empty_repr: "ammr_repr a xs \<Longrightarrow> ammr_is_empty V a = Inr (xs = [])"
proof -
  assume a: "ammr_repr a xs"
  have u: "unat (of_nat (node_pos (length xs)) :: u64) = node_pos (length xs)"
    using a unat_node [of "length xs" 0] by (simp add: ammr_repr_def)
  have "node_pos (length xs) = 1 \<longleftrightarrow> xs = []" using node_pos_less [of 0 "length xs"] by (cases xs) auto
  moreover have "(of_nat (node_pos (length xs)) :: u64) = 1 \<longleftrightarrow> node_pos (length xs) = 1" by (metis u of_nat_1 unat_1)
  ultimately show ?thesis by (simp add: ammr_is_empty_def len_nodes [OF a] bind_res_def)
qed

text \<open>Removing leafs from the end.\<close>

lemma layout_take:
  assumes "layout H xs ds" "n \<le> length xs"
  shows "layout H (take n xs) (take (node_pos n) ds)"
  using assms node_pos_mono [of n "length xs"] node_inside [of _ _ n] by (auto simp: layout_def tree_node_take min_def)

lemma pop_loop_repr:
  assumes "repr s ds" "k < length ds"
  shows "\<exists>s'. pop_loop V k s ret = Inr (s', if k = 0 then ret else ds ! (length ds - k)) \<and> repr s' (take (length ds - k) ds)"
  using assms
proof (induction k arbitrary: s ds ret)
  case (Suc k)
  obtain s1 where s1: "vo_pop V s = Inr (s1, Some (last ds))" "repr s1 (butlast ds)"
    using pop_repr [OF Suc.prems(1)] Suc.prems(2) by (metis not_less_zero list.size(3))
  have "k < length (butlast ds)" using Suc.prems by simp
  moreover have "ds \<noteq> []" using Suc.prems(2) by auto
  ultimately show ?case
    using Suc.IH [OF s1(2), of "last ds"] Suc.prems(2) s1(1)
    by (auto simp: pop_unwrap_def bind_res_def unwrap_def take_butlast nth_butlast last_conv_nth split: if_splits)
qed simp

lemma last_node:
  assumes "Suc n < 2 ^ 61"
  shows "right_lineage_length_and_own_height X (of_nat (node_pos (Suc n)) - 1) = (0, of_nat (ones n))"
    and "(of_nat (node_pos (Suc n)) - 1 :: u64) = of_nat (node_pos n + ones n)"
    and "unat (of_nat (ones n) :: u32) = ones n"
proof -
  show e: "(of_nat (node_pos (Suc n)) - 1 :: u64) = of_nat (node_pos n + ones n)"
    by (simp add: of_nat_add of_nat_Suc)
  show "right_lineage_length_and_own_height X (of_nat (node_pos (Suc n)) - 1) = (0, of_nat (ones n))"
    unfolding e using assms by (simp add: lineage_height)
  have "ones n < 63" using node_index_small [of n "ones n"] assms by simp
  then show "unat (of_nat (ones n) :: u32) = ones n" by (simp add: unat_of_nat take_bit_nat_eq_self)
qed

lemma latest_leaf_repr:
  assumes "ammr_repr a xs"
  shows "get_latest_leaf V X a = Inr (if xs = [] then None else Some (last xs))"
proof (cases "length xs")
  case (Suc l)
  obtain ds where ds: "repr (digests a) ds" "layout (hash_pair C) xs ds" "length xs < 2 ^ 61"
    using assms by (auto simp: ammr_repr_def)
  have ne: "xs \<noteq> []" using Suc by auto
  note last = last_node [of l, folded Suc, OF ds(3)]
  have h: "ucast (of_nat (ones l) :: u32) = (of_nat (ones l) :: u64)" by (metis last(3) of_nat_unat)
  have "of_nat (node_pos (length xs)) - 1 - ucast (of_nat (ones l) :: u32) = (of_nat (node_pos l) :: u64)"
    by (simp only: h last(2) of_nat_add add_diff_cancel_right')
  then have "vo_get V (digests a) (of_nat (node_pos (length xs)) - 1 - ucast (of_nat (ones l) :: u32)) = Inr (xs ! l)"
    using get_node [OF ds(1,2), of l 0 "of_nat (node_pos l)"] unat_node [of l 0] ds(3) Suc by simp
  moreover have "List.last xs = xs ! l" using ne Suc by (simp add: last_conv_nth)
  ultimately show ?thesis using ne
    by (simp add: get_latest_leaf_def is_empty_repr [OF assms] len_nodes [OF assms] bind_res_def last(1) Let_def)
qed (simp add: get_latest_leaf_def is_empty_repr [OF assms] bind_res_def)

lemma remove_last_leaf_repr:
  assumes "ammr_repr a xs"
  shows "\<exists>a'. remove_last_leaf V X a = Inr (a', if xs = [] then None else Some (last xs)) \<and> ammr_repr a' (butlast xs)"
proof (cases "length xs")
  case (Suc l)
  obtain ds where ds: "repr (digests a) ds" "layout (hash_pair C) xs ds" "length xs < 2 ^ 61"
    using assms by (auto simp: ammr_repr_def)
  have ne: "xs \<noteq> []" using Suc by auto
  note last = last_node [of l, folded Suc, OF ds(3)]
  have len: "length ds = Suc (node_pos l + ones l)" using ds(2) Suc by (simp add: layout_def)
  then have "ds \<noteq> []" by auto
  then obtain s1 where s1: "vo_pop V (digests a) = Inr (s1, Some (List.last ds))" "repr s1 (butlast ds)"
    using pop_repr [OF ds(1)] by auto
  have k: "ones l < length (butlast ds)" using len node_pos_positive [of l] by simp
  have pos: "length (butlast ds) - ones l = node_pos l" using len by simp
  from pop_loop_repr [OF s1(2) k, of "List.last ds"] obtain s' where s':
    "pop_loop V (ones l) s1 (List.last ds) = Inr (s', if ones l = 0 then List.last ds else butlast ds ! node_pos l)"
    "repr s' (take (node_pos l) (butlast ds))" unfolding pos by blast
  have t: "take (node_pos l) (butlast ds) = take (node_pos l) ds" using len by (simp add: take_butlast)
  have "ds ! (node_pos l + 0) = tree_node (hash_pair C) xs l 0" using ds(2) Suc by (simp only: layout_def le0 lessI)
  then have leaf: "ds ! node_pos l = List.last xs" using ne Suc by (simp add: last_conv_nth)
  have ret: "(if ones l = 0 then List.last ds else butlast ds ! node_pos l) = List.last xs"
    using \<open>ds \<noteq> []\<close> len leaf by (simp add: last_conv_nth nth_butlast)
  have "layout (hash_pair C) (butlast xs) (take (node_pos l) ds)"
    using layout_take [OF ds(2), of l] Suc by (simp add: butlast_conv_take)
  then have "ammr_repr \<lparr>digests = s'\<rparr> (butlast xs)" using s'(2) ds(3) unfolding t by (auto simp: ammr_repr_def)
  then show ?thesis using ne s'(1) unfolding ret
    by (simp add: remove_last_leaf_def is_empty_repr [OF assms] len_nodes [OF assms] bind_res_def s1(1) pop_unwrap_def
        unwrap_def last(1,3))
qed (use assms in \<open>simp add: remove_last_leaf_def is_empty_repr [OF assms] bind_res_def\<close>)

lemma prune_loop_repr:
  assumes "repr s ds" "length ds \<le> n"
  shows "\<exists>s'. prune_loop V (Suc n) w s = Inr s' \<and> repr s' (take (unat w) ds)"
  using assms
proof (induction n arbitrary: s ds)
  case 0
  then show ?case by (auto simp: bind_res_def len_repr)
next
  case (Suc n)
  have u: "unat (of_nat (length ds) :: u64) = length ds" using repr_bound [OF Suc.prems(1)] by (rule unat_of_nat_u64)
  show ?case
  proof (cases "unat w < length ds")
    case True
    then have "ds \<noteq> []" by auto
    then obtain s1 where s1: "vo_pop V s = Inr (s1, Some (last ds))" "repr s1 (butlast ds)"
      using pop_repr [OF Suc.prems(1)] by auto
    have "length (butlast ds) \<le> n" using Suc.prems(2) by simp
    from Suc.IH [OF s1(2) this] obtain s' where "prune_loop V (Suc n) w s1 = Inr s'" "repr s' (take (unat w) (butlast ds))"
      by blast
    moreover have "take (unat w) (butlast ds) = take (unat w) ds" using True by (simp add: take_butlast)
    ultimately show ?thesis
      using True s1(1) by (subst prune_loop.simps) (simp add: bind_res_def len_repr [OF Suc.prems(1)] pop_unwrap_def unwrap_def word_less_nat_alt u)
  next
    case False
    then show ?thesis
      using Suc.prems(1) by (subst prune_loop.simps) (simp add: bind_res_def len_repr [OF Suc.prems(1)] word_less_nat_alt u)
  qed
qed

lemma prune_repr:
  assumes "ammr_repr a xs" "unat n < 2 ^ 61"
  shows "\<exists>a'. prune_to_num_leafs V X a n = Inr a' \<and> ammr_repr a' (take (unat n) xs)"
proof -
  obtain ds where ds: "repr (digests a) ds" "layout (hash_pair C) xs ds" "length xs < 2 ^ 61"
    using assms(1) by (auto simp: ammr_repr_def)
  have len: "length ds = node_pos (length xs)" using ds(2) by (simp add: layout_def)
  have u: "unat (of_nat (node_pos (length xs)) :: u64) = length ds" using unat_node [of "length xs" 0] ds(3) by (simp add: len)
  obtain s' where s': "prune_loop V (Suc (length ds)) (leaf_index_to_node_index X n) (digests a) = Inr s'"
      "repr s' (take (node_pos (unat n)) ds)"
    using prune_loop_repr [OF ds(1) order_refl, of "leaf_index_to_node_index X n"] by (auto simp: leaf_node [OF assms(2)])
  have "layout (hash_pair C) (take (unat n) xs) (take (node_pos (unat n)) ds)"
    using layout_take [OF ds(2), of "unat n"] ds(2) node_pos_mono [of "length xs" "unat n"] len by (cases "unat n \<le> length xs") auto
  then show ?thesis using s' ds(3)
    by (auto simp: prune_to_num_leafs_def len_nodes [OF assms(1)] bind_res_def u ammr_repr_def Let_def)
qed

text \<open>Mutating a leaf. While the loop is at height \<open>h\<close>, the ancestors above it are still those of the old list.\<close>

definition mutating :: "'d list \<Rightarrow> nat \<Rightarrow> 'd \<Rightarrow> nat \<Rightarrow> 'd list \<Rightarrow> bool" where
  "mutating xs i x h ds \<longleftrightarrow> length ds = node_pos (length xs) \<and>
     (\<forall>m<length xs. \<forall>k\<le>ones m. ds ! (node_pos m + k) =
       (if m = anc i k \<and> h < k then tree_node (hash_pair C) xs m k else tree_node (hash_pair C) (xs[i := x]) m k))"

lemma mutating_start:
  assumes "layout (hash_pair C) xs ds" "i < length xs"
  shows "mutating xs i x 0 (ds[node_pos i := x])"
proof -
  have "ds[node_pos i := x] ! (node_pos m + k) =
      (if m = anc i k \<and> 0 < k then tree_node (hash_pair C) xs m k else tree_node (hash_pair C) (xs[i := x]) m k)"
    if "m < length xs" "k \<le> ones m" for m k
  proof (cases "node_pos i = node_pos m + k")
    case True
    then have "i = m" "k = 0" using node_unique [of i 0 m k] that(2) by auto
    then show ?thesis using assms node_inside [of 0 i "length xs"] by (simp add: layout_def)
  next
    case False
    then have "\<not> (m = i \<and> k = 0)" by auto
    then show ?thesis
      using False assms that tree_node_update [OF that(2), of i "hash_pair C" xs x] by (auto simp: layout_def)
  qed
  then show ?thesis using assms(1) by (simp add: mutating_def layout_def)
qed

lemma mutating_end: "mutating xs i x h ds \<Longrightarrow> length xs \<le> anc i (Suc h) \<Longrightarrow> layout (hash_pair C) (xs[i := x]) ds"
proof -
  assume m: "mutating xs i x h ds" and l: "length xs \<le> anc i (Suc h)"
  have "ds ! (node_pos q + k) = tree_node (hash_pair C) (xs[i := x]) q k" if "q < length xs" "k \<le> ones q" for q k
  proof -
    have "ds ! (node_pos q + k) = (if q = anc i k \<and> h < k then tree_node (hash_pair C) xs q k
        else tree_node (hash_pair C) (xs[i := x]) q k)" using m that unfolding mutating_def by blast
    moreover have "\<not> (q = anc i k \<and> h < k)" using anc_mono [of "Suc h" k i] l that by auto
    ultimately show ?thesis by auto
  qed
  then show ?thesis using m by (simp add: mutating_def layout_def)
qed

lemma mutating_step:
  assumes "mutating xs i x h ds" "anc i (Suc h) < length xs"
  shows "mutating xs i x (Suc h) (ds[node_pos (anc i (Suc h)) + Suc h := tree_node (hash_pair C) (xs[i := x]) (anc i (Suc h)) (Suc h)])"
proof -
  let ?p = "node_pos (anc i (Suc h)) + Suc h" and ?v = "tree_node (hash_pair C) (xs[i := x]) (anc i (Suc h)) (Suc h)"
  have "ds[?p := ?v] ! (node_pos m + k) =
      (if m = anc i k \<and> Suc h < k then tree_node (hash_pair C) xs m k else tree_node (hash_pair C) (xs[i := x]) m k)"
    if "m < length xs" "k \<le> ones m" for m k
  proof (cases "?p = node_pos m + k")
    case True
    then have "anc i (Suc h) = m" "Suc h = k" using node_unique [OF True ones_anc_ge that(2)] by auto
    then show ?thesis using assms(1) that node_inside [OF that(2), of "length xs"] True by (simp add: mutating_def)
  next
    case False
    then have "\<not> (m = anc i k \<and> k = Suc h)" by auto
    then show ?thesis using False assms(1) that by (auto simp: mutating_def)
  qed
  then show ?thesis using assms(1) by (simp add: mutating_def)
qed

lemma parent_index:
  assumes "anc i h < 2 ^ 61"
  shows "unat (parent X (of_nat (node_pos (anc i h) + h))) = node_pos (anc i (Suc h)) + Suc h"
    and "\<not> h < ones (anc i h) \<Longrightarrow> node_pos (anc i h) + 2 ^ Suc h = Suc (node_pos (anc i (Suc h)))"
proof -
  let ?l = "anc i h"
  have p: "unat (parent X (of_nat (node_pos ?l + h))) = (if h < ones ?l then node_pos ?l + h + 1 else node_pos ?l + h + 2 ^ Suc h)"
    by (rule parent_node [OF assms ones_anc_ge])
  have r: "node_pos ?l + 2 ^ Suc h = Suc (node_pos (anc i (Suc h)))" if "\<not> h < ones ?l"
  proof -
    have "anc i (Suc h) = ?l + 2 ^ h" using that by (simp add: anc_Suc)
    moreover have "h < ones (anc i (Suc h))" using ones_anc_ge [of "Suc h" i] by simp
    ultimately show ?thesis using left_node [of h "?l + 2 ^ h"] by simp
  qed
  then show "\<not> h < ones ?l \<Longrightarrow> node_pos ?l + 2 ^ Suc h = Suc (node_pos (anc i (Suc h)))" .
  show "unat (parent X (of_nat (node_pos ?l + h))) = node_pos (anc i (Suc h)) + Suc h"
    using p r by (cases "h < ones ?l") (simp_all add: anc_Suc [of i h])
qed

lemma get_mutating:
  assumes "repr s ds" "mutating xs i x h ds" "m < length xs" "h \<le> ones m" "length xs < 2 ^ 61"
  shows "vo_get V s (of_nat (node_pos m + h)) = Inr (tree_node (hash_pair C) (xs[i := x]) m h)"
proof -
  have u: "unat (of_nat (node_pos m + h) :: u64) = node_pos m + h" using assms(3-5) by (intro unat_node) auto
  then have "unat (of_nat (node_pos m + h) :: u64) < length ds"
    using assms(2) node_inside [OF assms(4), of "length xs"] assms(3) by (simp add: mutating_def)
  from get_repr [OF assms(1) this] show ?thesis using assms(2-4) by (simp add: u mutating_def)
qed

text \<open>The digest of the parent, as the loop computes it.\<close>

lemma parent_hash:
  assumes "repr s ds" "mutating xs i x h ds" "anc i (Suc h) < length xs" "length xs < 2 ^ 61"
  shows "(let (right_lineage_count, h') = right_lineage_length_and_own_height X (of_nat (node_pos (anc i h) + h)) in
     if right_lineage_count \<noteq> 0
     then bind_res (vo_get V s (left_sibling X (of_nat (node_pos (anc i h) + h)) h'))
       (\<lambda>d. Inr (hash_pair C d (tree_node (hash_pair C) (xs[i := x]) (anc i h) h)))
     else bind_res (vo_get V s (right_sibling X (of_nat (node_pos (anc i h) + h)) h'))
       (\<lambda>d. Inr (hash_pair C (tree_node (hash_pair C) (xs[i := x]) (anc i h) h) d))) =
   Inr (tree_node (hash_pair C) (xs[i := x]) (anc i (Suc h)) (Suc h))"
proof -
  let ?l = "anc i h"
  have l: "?l < length xs" using assms(3) anc_mono [of h "Suc h" i] by simp
  then have small: "?l < 2 ^ 61" using assms(4) by linarith
  have h: "h < 64" "ones ?l - h < 64"
    using node_index_small [OF small, of h] node_index_small [OF small, of "ones ?l"] ones_anc_ge [of h i] by auto
  have "unat (of_nat (ones ?l - h) :: u32) = ones ?l - h" using h(2) by (simp add: unat_of_nat take_bit_nat_eq_self)
  then have "(of_nat (ones ?l - h) :: u32) = 0 \<longleftrightarrow> \<not> h < ones ?l" by (metis diff_is_0_eq not_less unat_eq_0)
  then obtain c where c: "right_lineage_length_and_own_height X (of_nat (node_pos ?l + h)) = (c, of_nat h)"
      "c = 0 \<longleftrightarrow> \<not> h < ones ?l" using lineage_height [OF small ones_anc_ge] by blast
  show ?thesis
  proof (cases "h < ones ?l")
    case True
    have left: "2 ^ h \<le> ?l" "h \<le> ones (?l - 2 ^ h)" "node_pos (?l - 2 ^ h) + 2 ^ Suc h = Suc (node_pos ?l)"
      using left_node [OF True] by auto
    have "vo_get V s (of_nat (node_pos (?l - 2 ^ h) + h)) = Inr (tree_node (hash_pair C) (xs[i := x]) (?l - 2 ^ h) h)"
      using get_mutating [OF assms(1,2) _ left(2) assms(4)] l by simp
    then show ?thesis using True sibling_index(1) [OF h(1) left(3)]
      by (simp add: c bind_res_def anc_Suc [of i h] tree_node.simps(2))
  next
    case False
    then have a: "anc i (Suc h) = ?l + 2 ^ h" by (simp add: anc_Suc)
    have "h \<le> ones (anc i (Suc h))" using ones_anc_ge [of "Suc h" i] by simp
    then have "vo_get V s (of_nat (node_pos (anc i (Suc h)) + h)) = Inr (tree_node (hash_pair C) (xs[i := x]) (anc i (Suc h)) h)"
      by (rule get_mutating [OF assms(1,2,3) _ assms(4)])
    then show ?thesis using False sibling_index(2) [OF h(1) parent_index(2) [OF small False]] a
      by (simp add: c bind_res_def tree_node.simps(2))
  qed
qed

lemma mutate_loop_repr:
  assumes "repr s ds" "mutating xs i x h ds" "anc i h < length xs" "length xs < 2 ^ 61"
    and "node_pos (length xs) - (node_pos (anc i h) + h) < n"
  shows "\<exists>s' ds'. mutate_loop V X C n (of_nat (node_pos (anc i h) + h)) (parent X (of_nat (node_pos (anc i h) + h)))
      (tree_node (hash_pair C) (xs[i := x]) (anc i h) h) s = Inr s' \<and> repr s' ds' \<and> layout (hash_pair C) (xs[i := x]) ds'"
  using assms
proof (induction n arbitrary: s ds h)
  case (Suc n)
  have small: "anc i h < 2 ^ 61" using Suc.prems(3,4) by linarith
  have len: "length ds = node_pos (length xs)" using Suc.prems(2) by (simp add: mutating_def)
  have l: "vo_len V s = Inr (of_nat (node_pos (length xs)))" using len_repr [OF Suc.prems(1)] by (simp add: len)
  have u: "unat (of_nat (node_pos (length xs)) :: u64) = node_pos (length xs)" using unat_node [of "length xs" 0] Suc.prems(4) by simp
  note p = parent_index(1) [OF small]
  have inside: "parent X (of_nat (node_pos (anc i h) + h)) < of_nat (node_pos (length xs)) \<longleftrightarrow> anc i (Suc h) < length xs"
    using node_inside [OF ones_anc_ge [of "Suc h" i], of "length xs"] by (simp add: word_less_nat_alt p u)
  show ?case
  proof (cases "anc i (Suc h) < length xs")
    case False
    then show ?thesis using mutating_end [OF Suc.prems(2)] Suc.prems(1) inside by (auto simp: bind_res_def l)
  next
    case True
    let ?v = "tree_node (hash_pair C) (xs[i := x]) (anc i (Suc h)) (Suc h)" and ?w = "parent X (of_nat (node_pos (anc i h) + h))"
    have w: "?w = of_nat (node_pos (anc i (Suc h)) + Suc h)" by (metis p of_nat_unat ucast_id)
    have "unat ?w < length ds" using node_inside [OF ones_anc_ge [of "Suc h" i], of "length xs"] True by (simp add: p len)
    from set_repr [OF Suc.prems(1) this, of ?v] obtain s1 where
      s1: "vo_set V s ?w ?v = Inr s1" "repr s1 (ds[node_pos (anc i (Suc h)) + Suc h := ?v])" unfolding p by blast
    note step = mutating_step [OF Suc.prems(2) True]
    have "node_pos (length xs) - (node_pos (anc i (Suc h)) + Suc h) < n"
      using Suc.prems(5) node_pos_mono [OF anc_mono, of h "Suc h" i] node_inside [OF ones_anc_ge [of "Suc h" i], of "length xs"] True
      by simp
    from Suc.IH [OF s1(2) step True Suc.prems(4) this]
    have IH: "\<exists>s' ds'. mutate_loop V X C n ?w (parent X ?w) ?v s1 = Inr s' \<and> repr s' ds' \<and> layout (hash_pair C) (xs[i := x]) ds'"
      unfolding w .
    then show ?thesis
      using parent_hash [OF Suc.prems(1,2) True Suc.prems(4)] True inside s1(1)
      by (auto simp: l bind_res_def [of "Inr _"] Let_def case_prod_unfold split: if_splits)
  qed
qed simp

lemma mutate_leaf_repr:
  assumes "ammr_repr a xs" "unat i < length xs"
  shows "\<exists>a'. ammr_mutate_leaf V X C a i x = Inr a' \<and> ammr_repr a' (xs[unat i := x])"
proof -
  obtain ds where ds: "repr (digests a) ds" "layout (hash_pair C) xs ds" "length xs < 2 ^ 61"
    using assms(1) by (auto simp: ammr_repr_def)
  let ?w = "leaf_index_to_node_index X i"
  have w: "unat ?w = node_pos (unat i)" using leaf_node assms(2) ds(3) by simp
  then have w': "?w = of_nat (node_pos (anc (unat i) 0) + 0)" by (metis anc_0 add.right_neutral of_nat_unat ucast_id)
  have "unat ?w < length ds" using ds(2) assms(2) node_inside [of 0 "unat i" "length xs"] by (simp add: w layout_def)
  from set_repr [OF ds(1) this, of x] obtain s1 where
    s1: "vo_set V (digests a) ?w x = Inr s1" "repr s1 (ds[node_pos (unat i) := x])" unfolding w by blast
  have len: "vo_len V s1 = Inr (of_nat (node_pos (length xs)))" using len_repr [OF s1(2)] ds(2) by (simp add: layout_def)
  have u: "unat (of_nat (node_pos (length xs)) :: u64) = node_pos (length xs)" using unat_node [of "length xs" 0] ds(3) by simp
  have "anc (unat i) 0 < length xs" "node_pos (length xs) - (node_pos (anc (unat i) 0) + 0) < Suc (node_pos (length xs))"
    using assms(2) by simp_all
  from mutate_loop_repr [OF s1(2) mutating_start [OF ds(2) assms(2)] this(1) ds(3) this(2)] show ?thesis
    using assms(2) ds(3) s1(1) len u w' [symmetric] by (auto simp: ammr_mutate_leaf_def bind_res_def Let_def ammr_repr_def simp del: mutate_loop.simps)
qed

lemma mutate_leafs_repr:
  assumes "ammr_repr a xs" "\<forall>(i, d)\<in>set muts. unat i < length xs"
  shows "\<exists>a'. mutate_leafs V X C a muts = Inr a' \<and> ammr_repr a' (set_each_index xs muts)"
  using assms
proof (induction muts arbitrary: a xs)
  case (Cons m muts)
  obtain i d where m: "m = (i, d)" by (cases m)
  obtain a1 where a1: "ammr_mutate_leaf V X C a i d = Inr a1" "ammr_repr a1 (xs[unat i := d])"
    using mutate_leaf_repr [OF Cons.prems(1), of i d] Cons.prems(2) unfolding m by auto
  have "\<forall>(j, e)\<in>set muts. unat j < length (xs[unat i := d])" using Cons.prems(2) by auto
  from Cons.IH [OF a1(2) this] show ?case using a1(1) by (auto simp: m bind_res_def)
qed simp

lemma batch_mutate_repr:
  assumes "ammr_repr a xs" "distinct (map fst muts)" "\<forall>(i, d)\<in>set muts. unat i < length xs"
  shows "\<exists>a'. batch_mutate_leaf_and_update_mps V X C a [] muts = Inr (a', [], []) \<and> ammr_repr a' (set_each_index xs muts)"
  using mutate_leafs_repr [OF assms(1,3)] assms(2)
  by (auto simp: batch_mutate_leaf_and_update_mps_def assert_then_def bind_res_def)

text \<open>Peaks and the accumulator.\<close>

lemma peaks_repr:
  assumes "ammr_repr a xs"
  shows "ammr_peaks V X a = Inr (peaks_of (hash_pair C) xs)"
proof -
  obtain ds where ds: "repr (digests a) ds" "layout (hash_pair C) xs ds" "length xs < 2 ^ 61"
    using assms by (auto simp: ammr_repr_def)
  have "vo_get_many V (digests a) (map (\<lambda>h. of_nat (node_pos (peak_leaf (length xs) h) + h)) (peak_heights (length xs))) =
      Inr (map (\<lambda>h. tree_node (hash_pair C) xs (peak_leaf (length xs) h) h) (peak_heights (length xs)))"
    using peak_leaf_bounds by (intro get_nodes [OF ds(1,2) _ ds(3)]) (auto simp: peak_heights_def)
  then show ?thesis by (simp add: ammr_peaks_def num_leafs_repr [OF assms] bind_res_def peak_nodes [OF ds(3)] peaks_of_def)
qed

lemma to_accumulator_repr:
  assumes "ammr_repr a xs"
  shows "ammr_to_accumulator V X C a = Inr (foldl (\<lambda>m d. fst (mmr_append C m d)) (mmr_empty C) xs)"
  using assms init_peaks [of xs]
  by (simp add: ammr_to_accumulator_def peaks_repr num_leafs_repr bind_res_def ammr_repr_def)

text \<open>Membership proofs.\<close>

lemma prove_membership_repr:
  assumes "ammr_repr a xs" "unat i < length xs"
  shows "ammr_prove_membership V X a i = Inr (auth_path_of (hash_pair C) xs (unat i))"
proof -
  let ?n = "length xs" and ?i = "unat i"
  let ?h = "tree_height ?n ?i"
  obtain ds where ds: "repr (digests a) ds" "layout (hash_pair C) xs ds" "?n < 2 ^ 61"
    using assms(1) by (auto simp: ammr_repr_def)
  have n: "unat (of_nat ?n :: u64) = ?n" using ds(3) by (intro unat_of_nat_u64) simp
  have i: "(of_nat ?i :: u64) = i" by simp
  obtain m p where mp: "leaf_index_to_mt_index_and_peak_index X i (of_nat ?n) = (m, p)"
      "unat p = length (filter (\<lambda>h. ?h < h) (peak_heights ?n))"
    using mt_and_peak_index [OF assms(2) ds(3)] unfolding i by blast
  have peak: "index_res (peak_heights ?n) (unat p) = Inr ?h" unfolding mp(2) by (rule peak_heights_index [OF assms(2) ds(3)])
  have w: "leaf_index_to_node_index X i = of_nat (node_pos ?i)" by (metis assms(2) ds(3) leaf_node less_trans of_nat_unat ucast_id)
  have "index_res (peak_node_indices X (of_nat ?n)) (unat p) = Inr (of_nat (node_pos (anc ?i ?h) + ?h))"
    using peak anc_peak [OF assms(2)] by (simp add: peak_nodes [OF ds(3)] index_res_def split: if_splits)
  moreover have "vo_get_many V (digests a) (map (\<lambda>h. of_nat (node_pos (sibling_node ?i h) + h)) [0..<?h]) =
      Inr (auth_path_of (hash_pair C) xs ?i)"
    unfolding auth_path_of_def using sibling_node_bounds [OF assms(2)] by (intro get_nodes [OF ds(1,2) _ ds(3)]) auto
  moreover have "i < of_nat ?n" using assms(2) by (simp add: word_less_nat_alt n)
  ultimately show ?thesis
    by (simp add: ammr_prove_membership_def num_leafs_repr [OF assms(1)] len_nodes [OF assms(1)] bind_res_def assert_then_def
        mp(1) w path_nodes [OF assms(2) ds(3)] unwrap_def Let_def)
qed

lemma auth_path_loop_nodes:
  assumes "i < n" "n < 2 ^ 61" "h \<le> tree_height n i" "unat m = 2 ^ (tree_height n i - h) + (i mod 2 ^ tree_height n i) div 2 ^ h"
  shows "auth_path_loop m (of_nat (node_pos (anc i h) + h)) (of_nat h) =
    map (\<lambda>h. of_nat (node_pos (sibling_node i h) + h)) [h..<tree_height n i]"
  using assms(3,4)
proof (induction "tree_height n i - h" arbitrary: h m)
  case 0
  then have "unat m = 1" by simp
  then have "\<not> 1 < m" by (simp add: word_less_nat_alt)
  then show ?case using 0 by (subst auth_path_loop.simps) simp
next
  case (Suc k)
  let ?t = "tree_height n i" and ?l = "anc i h"
  have h: "h < ?t" using Suc(2) by linarith
  have l: "?l < 2 ^ 61" using anc_below_height [OF assms(1), of h] h assms(2) by simp
  have small: "h < 63" using node_index_small [OF l ones_anc_ge] by simp
  have hw: "(of_nat h :: u32) + 1 = of_nat (Suc h)" by (simp add: of_nat_Suc)
  have uw: "unat (of_nat (Suc h) :: u32) = Suc h" using small by (simp add: unat_of_nat take_bit_nat_eq_self)
  have e: "?t - h = Suc (?t - Suc h)" using h by simp
  let ?r = "(i mod 2 ^ ?t) div 2 ^ h"
  have "(2 :: nat) \<le> 2 ^ (?t - h)" unfolding e by simp
  then have big: "1 < m" using Suc.prems(2) by (simp add: word_less_nat_alt)
  have "even (unat m) \<longleftrightarrow> even (i div 2 ^ h)"
    using Suc.prems(2) h by (simp add: e) (metis (no_types, lifting) bit_iff_odd bit_take_bit_iff take_bit_eq_mod)
  moreover have "unat (m AND 1) = unat m mod 2" by (simp add: and_one_eq unat_mod)
  ultimately have parity: "m AND 1 = 0 \<longleftrightarrow> even (i div 2 ^ h)" by (metis even_iff_mod_2_eq_zero unat_eq_0)
  have half: "unat (drop_bit 1 m) = 2 ^ (?t - Suc h) + (i mod 2 ^ ?t) div 2 ^ Suc h"
    using Suc.prems(2) unfolding e by (simp add: drop_bit_eq_div unat_div div_mult2_eq [symmetric] mult.commute)
  have k: "k = ?t - Suc h" "Suc h \<le> ?t" using Suc(2) h by simp_all
  note IH = Suc.hyps(1) [OF k half]
  note sib = sibling_node_bounds [OF assms(1) h]
  have upt: "[h..<?t] = h # [Suc h..<?t]" using h by (simp add: upt_conv_Cons)
  let ?node = "of_nat (node_pos ?l + h) :: u64"
  show ?case
  proof (cases "even (i div 2 ^ h)")
    case True
    then have s: "sibling_node i h = anc i (Suc h)" using anc_Suc [of i h] anc_odd [of h i] by (simp add: sibling_node_def)
    have "(of_nat (node_pos ?l + 2 ^ Suc h) :: u64) = of_nat (Suc (node_pos (anc i (Suc h))))" using sib True s by simp
    then have "(of_nat (node_pos ?l) :: u64) + 2 ^ Suc h = of_nat (node_pos (anc i (Suc h))) + 1" by (simp add: of_nat_add of_nat_Suc)
    then have "?node + 2 ^ Suc h - 1 = of_nat (node_pos (sibling_node i h) + h)"
      "?node + 2 ^ Suc h = of_nat (node_pos (anc i (Suc h)) + Suc h)" by (simp_all add: s of_nat_add of_nat_Suc algebra_simps)
    then show ?thesis using big True IH
      by (subst auth_path_loop.simps) (simp add: parity uw upt push_bit_eq_mult hw Let_def del: power_Suc)
  next
    case False
    then have s: "anc i (Suc h) = ?l" using anc_Suc [of i h] anc_odd [of h i] by simp
    have "(of_nat (node_pos (sibling_node i h) + 2 ^ Suc h) :: u64) = of_nat (Suc (node_pos ?l))" using sib False by simp
    then have "(of_nat (node_pos (sibling_node i h)) :: u64) + 2 ^ Suc h = of_nat (node_pos ?l) + 1" by (simp add: of_nat_add of_nat_Suc)
    then have "?node - 2 ^ Suc h + 1 = of_nat (node_pos (sibling_node i h) + h)"
      "?node + 1 = of_nat (node_pos (anc i (Suc h)) + Suc h)" by (simp_all add: s of_nat_add of_nat_Suc algebra_simps)
    then show ?thesis using big False IH
      by (subst auth_path_loop.simps) (simp add: parity uw upt push_bit_eq_mult hw Let_def del: power_Suc)
  qed
qed

lemma smaller_membership_repr:
  assumes "ammr_repr a xs" "unat i < unat n" "unat n \<le> length xs"
  shows "prove_membership_relative_to_smaller_mmr V X a i n = Inr (auth_path_of (hash_pair C) (take (unat n) xs) (unat i))"
proof -
  let ?n = "unat n" and ?i = "unat i"
  let ?h = "tree_height ?n ?i"
  obtain ds where ds: "repr (digests a) ds" "layout (hash_pair C) xs ds" "length xs < 2 ^ 61"
    using assms(1) by (auto simp: ammr_repr_def)
  have small: "?n < 2 ^ 61" "?i < 2 ^ 61" using assms(2,3) ds(3) by linarith+
  obtain m p where m: "leaf_index_to_mt_index_and_peak_index X i n = (m, p)" "unat m = 2 ^ ?h + ?i mod 2 ^ ?h"
    using mt_and_peak_index [OF assms(2) small(1)] by auto
  have w: "leaf_index_to_node_index X i = of_nat (node_pos (anc ?i 0) + 0)"
    by (metis leaf_node [OF small(2)] of_nat_unat ucast_id anc_0 add.right_neutral)
  have "auth_path_loop m (leaf_index_to_node_index X i) 0 = map (\<lambda>h. of_nat (node_pos (sibling_node ?i h) + h)) [0..<?h]"
    unfolding w using auth_path_loop_nodes [OF assms(2) small(1), of 0 m] m(2) by simp
  moreover have "vo_get_many V (digests a) (map (\<lambda>h. of_nat (node_pos (sibling_node ?i h) + h)) [0..<?h]) =
      Inr (map (\<lambda>h. tree_node (hash_pair C) xs (sibling_node ?i h) h) [0..<?h])"
    using sibling_node_bounds [OF assms(2)] assms(3) by (intro get_nodes [OF ds(1,2) _ ds(3)]) force
  moreover have "auth_path_of (hash_pair C) (take ?n xs) ?i = map (\<lambda>h. tree_node (hash_pair C) xs (sibling_node ?i h) h) [0..<?h]"
    using sibling_node_bounds [OF assms(2)] assms(3) by (simp add: auth_path_of_def min_def tree_node_take)
  moreover have "n \<le> of_nat (length xs)"
    using assms(3) ds(3) unat_of_nat_u64 [of "length xs"] by (simp add: word_le_nat_alt)
  moreover have "i < n" using assms(2) by (simp add: word_less_nat_alt)
  ultimately show ?thesis
    by (simp add: prove_membership_relative_to_smaller_mmr_def auth_path_node_indices_def num_leafs_repr [OF assms(1)]
        bind_res_def assert_then_def m(1))
qed

end

declare of_nat_add [simp] of_nat_Suc [simp] tree_node.simps(2) [simp]

section \<open>A concrete instance\<close>

text \<open>The index arithmetic by search over the leafs, symbolic digests, and an accumulator that unpacks its peaks into leafs.\<close>

definition node_of :: "nat \<Rightarrow> nat \<times> nat" where
  "node_of i = (let l = last (0 # filter (\<lambda>l. node_pos l \<le> i) [0..<i]) in (l, i - node_pos l))"

lemma node_of_node: "h \<le> ones l \<Longrightarrow> node_of (node_pos l + h) = (l, h)"
proof -
  assume h: "h \<le> ones l"
  have "filter (\<lambda>m. node_pos m \<le> node_pos l + h) [0..<node_pos l + h] = [0..<Suc l]"
  proof -
    have "node_pos m \<le> node_pos l + h \<longleftrightarrow> m \<le> l" for m
      using node_pos_less [of l m] node_pos_mono [of m l] h by (cases "m \<le> l") auto
    moreover have "[0..<node_pos l + h] = [0..<Suc l] @ [Suc l..<node_pos l + h]"
      using node_pos_ge [of l] upt_add_eq_append [of 0 "Suc l" "node_pos l + h - Suc l"] by (simp add: add.commute)
    ultimately show ?thesis by (auto simp: filter_id_conv filter_empty_conv simp del: upt_Suc)
  qed
  then show ?thesis by (simp add: node_of_def)
qed

definition std_index :: mmr_index where
  "std_index =
     \<lparr>leaf_index_to_node_index = (\<lambda>i. of_nat (node_pos (unat i))),
      node_index_to_leaf_index = (\<lambda>i. let (l, h) = node_of (unat i) in if h = 0 then Some (of_nat l) else None),
      right_lineage_length_from_leaf_index = (\<lambda>i. of_nat (ones (unat i))),
      right_lineage_length_and_own_height = (\<lambda>i. let (l, h) = node_of (unat i) in (of_nat (ones l - h), of_nat h)),
      parent = (\<lambda>i. let (l, h) = node_of (unat i) in if h < ones l then i + 1 else i + 2 ^ Suc h),
      left_sibling = (\<lambda>i h. i - push_bit (Suc (unat h)) 1 + 1),
      right_sibling = (\<lambda>i h. i + push_bit (Suc (unat h)) 1 - 1),
      peak_node_indices = (\<lambda>n. map (\<lambda>h. of_nat (node_pos (peak_leaf (unat n) h) + h)) (peak_heights (unat n))),
      leaf_index_to_mt_index_and_peak_index = (\<lambda>i n. let h = tree_height (unat n) (unat i) in
        (of_nat (2 ^ h + unat i mod 2 ^ h), of_nat (length (filter (\<lambda>k. h < k) (peak_heights (unat n)))))),
      get_authentication_path_node_indices = (\<lambda>i p _. let j = fst (node_of (unat i)); h = snd (node_of (unat p)) in
        Some (map (\<lambda>h. of_nat (node_pos (sibling_node j h) + h)) [0..<h]))\<rparr>"

fun unpack_tree :: "nat \<Rightarrow> sym \<Rightarrow> sym list" where
  "unpack_tree (Suc h) (SPair a b) = unpack_tree h a @ unpack_tree h b"
| "unpack_tree _ d = [d]"

definition sym_mmr :: "(sym, sym list, unit) crypto" where
  "sym_mmr = sym_crypto\<lparr>mmr_init := \<lambda>ds n. concat (map2 unpack_tree (peak_heights (unat n)) ds)\<rparr>"

lemma unpack_tree_node: "h \<le> ones l \<Longrightarrow> l < length xs \<Longrightarrow> unpack_tree h (tree_node SPair xs l h) = take (2 ^ h) (drop (Suc l - 2 ^ h) xs)"
proof (induction h arbitrary: l)
  case 0
  then show ?case by (simp add: take_Suc_conv_app_nth [of 0] hd_drop_conv_nth take_Suc)
next
  case (Suc h)
  then have left: "2 ^ h \<le> l" "h \<le> ones (l - 2 ^ h)" using left_node [of h l] by auto
  have big: "2 ^ Suc h \<le> Suc l" using two_power_ones [OF Suc.prems(1)] .
  have e: "Suc (l - 2 ^ h) - 2 ^ h = Suc l - 2 ^ Suc h" using left(1) by (simp add: Suc_diff_le)
  have d: "Suc l - 2 ^ h = 2 ^ h + (Suc l - 2 ^ Suc h)" using big by simp
  have "take (2 ^ Suc h) (drop k xs) = take (2 ^ h) (drop k xs) @ take (2 ^ h) (drop (2 ^ h + k) xs)" for k
    by (simp add: take_add mult_2 add.commute)
  then show ?case using Suc left d by (simp add: e del: power_Suc)
qed

lemma unpack_peaks:
  assumes "k \<le> 64" "length xs < 2 ^ 64"
  shows "concat (map (\<lambda>h. unpack_tree h (tree_node SPair xs (peak_leaf (length xs) h) h))
      (filter (\<lambda>h. odd (length xs div 2 ^ h)) (rev [k..<64]))) =
    take (length xs div 2 ^ k * 2 ^ k) xs"
  using assms
proof (induction "64 - k" arbitrary: k)
  case (Suc n)
  let ?n = "length xs"
  have k: "k < 64" using Suc by simp
  have d: "?n div 2 ^ Suc k = ?n div 2 ^ k div 2" by (metis div_mult2_eq power_Suc2)
  have IH: "concat (map (\<lambda>h. unpack_tree h (tree_node SPair xs (peak_leaf ?n h) h))
      (filter (\<lambda>h. odd (?n div 2 ^ h)) (rev [Suc k..<64]))) = take (?n div 2 ^ Suc k * 2 ^ Suc k) xs"
    using Suc k by simp
  have upt: "rev [k..<64] = rev [Suc k..<64] @ [k]" using k by (simp add: upt_conv_Cons)
  show ?case
  proof (cases "odd (?n div 2 ^ k)")
    case False
    then have "?n div 2 ^ Suc k * 2 ^ Suc k = ?n div 2 ^ k * 2 ^ k" unfolding d by (auto elim!: evenE)
    then show ?thesis using False IH by (simp add: upt del: power_Suc)
  next
    case True
    let ?m = "?n div 2 ^ Suc k * 2 ^ Suc k"
    have m: "?n div 2 ^ k * 2 ^ k = ?m + 2 ^ k" using True unfolding d by (auto elim!: oddE)
    note b = peak_leaf_bounds [OF True]
    have "Suc (peak_leaf ?n k) - 2 ^ k = ?m" using m by (simp add: peak_leaf_def Suc_diff_le)
    then have "unpack_tree k (tree_node SPair xs (peak_leaf ?n k) k) = take (2 ^ k) (drop ?m xs)"
      using unpack_tree_node [of k "peak_leaf ?n k" xs] b by simp
    then show ?thesis using True IH by (simp add: upt m take_add del: power_Suc)
  qed
qed simp

lemma sym_mmr_init:
  assumes "length xs < 2 ^ 61"
  shows "mmr_init sym_mmr (peaks_of (hash_pair sym_mmr) xs) (of_nat (length xs)) =
    foldl (\<lambda>m d. fst (mmr_append sym_mmr m d)) (mmr_empty sym_mmr) xs"
proof -
  have "foldl (\<lambda>m d. m @ [d]) ys zs = ys @ zs" for ys zs :: "sym list" by (induction zs arbitrary: ys) auto
  moreover have "unat (of_nat (length xs) :: u64) = length xs" using assms by (intro unat_of_nat_u64) simp
  moreover have "map2 unpack_tree hs (map f hs) = map (\<lambda>h. unpack_tree h (f h)) hs" for hs f by (induction hs) auto
  ultimately show ?thesis
    using unpack_peaks [of 0 xs] assms by (simp add: sym_mmr_def sym_crypto_def peaks_of_def peak_heights_def)
qed

definition list_vec :: "('d list, 'd) vec_ops" where
  "list_vec = \<lparr>vo_len = ord_len, vo_get = ord_get, vo_get_many = ord_get_many, vo_get_all = ord_get_all, vo_set = ord_set,
     vo_set_many = ord_set_many, vo_pop = ord_pop, vo_push = ord_push, vo_clear = ord_clear\<rparr>"

lemma list_vec_storage: "storage_vec (\<lambda>v xs. v = xs \<and> length xs < 2 ^ 64) (vo_len list_vec) (vo_get list_vec) (vo_get_many list_vec)
    (vo_get_all list_vec) (vo_set list_vec) (vo_set_many list_vec) (vo_pop list_vec) (vo_push list_vec) (vo_clear list_vec)"
  using ordinary.storage_vec_axioms by (simp add: list_vec_def)

text \<open>The laws of the index arithmetic hold for it over every storage.\<close>

lemma std_index_mmr:
  fixes V :: "('s, sym) vec_ops"
  assumes "storage_vec repr (vo_len V) (vo_get V) (vo_get_many V) (vo_get_all V) (vo_set V) (vo_set_many V) (vo_pop V) (vo_push V) (vo_clear V)"
  shows "archival_mmr repr V std_index sym_mmr"
proof (intro archival_mmr.intro assms archival_mmr_axioms.intro)
  note node = unat_node
  note num = unat_of_nat_u64
  show "unat (leaf_index_to_node_index std_index i) = node_pos (unat i)" if "unat i < 2 ^ 61" for i :: u64
    using node [OF that, of 0] by (simp add: std_index_def)
  show "node_index_to_leaf_index std_index (of_nat (node_pos n)) = Some (of_nat n)" if "n < 2 ^ 61" for n
    using node [OF that, of 0] node_of_node [of 0 n] by (simp add: std_index_def)
  show "unat (right_lineage_length_from_leaf_index std_index i) = ones (unat i)" if "unat i < 2 ^ 61" for i :: u64
  proof -
    have "ones (unat i) < 63" using node_index_small [OF that, of "ones (unat i)"] by simp
    then show ?thesis by (simp add: std_index_def unat_of_nat take_bit_nat_eq_self)
  qed
  show "right_lineage_length_and_own_height std_index (of_nat (node_pos l + h)) = (of_nat (ones l - h), of_nat h)"
    if "l < 2 ^ 61" "h \<le> ones l" for l h
    using node [OF that] node_of_node [OF that(2)] by (simp add: std_index_def del: of_nat_add)
  show "unat (parent std_index (of_nat (node_pos l + h))) = (if h < ones l then node_pos l + h + 1 else node_pos l + h + 2 ^ Suc h)"
    if "l < 2 ^ 61" "h \<le> ones l" for l h
  proof -
    have "(2 :: nat) ^ h \<le> 2 ^ 61" using two_power_ones [OF that(2)] that(1) by linarith
    then have b: "node_pos l + h + 2 ^ Suc h < 2 ^ 64" "node_pos l + h + 1 < 2 ^ 64"
      using node_pos_le [of l] node_index_small [OF that] that(1) by simp_all
    have "(of_nat (node_pos l + h) + 1 :: u64) = of_nat (node_pos l + h + 1)" "(of_nat (node_pos l + h) + 2 ^ Suc h :: u64) = of_nat (node_pos l + h + 2 ^ Suc h)"
      by simp_all
    then show ?thesis using node [OF that] node_of_node [OF that(2)] num [OF b(1)] num [OF b(2)]
      by (simp add: std_index_def del: of_nat_add of_nat_Suc power_Suc)
  qed
  show "left_sibling std_index i k = i - push_bit (Suc (unat k)) 1 + 1" for i k by (simp add: std_index_def)
  show "right_sibling std_index i k = i + push_bit (Suc (unat k)) 1 - 1" for i k by (simp add: std_index_def)
  show "peak_node_indices std_index (of_nat n) = map (\<lambda>h. of_nat (node_pos (peak_leaf n h) + h)) (peak_heights n)" if "n < 2 ^ 61" for n
    using num [of n] that by (simp add: std_index_def)
  show "\<exists>m p. leaf_index_to_mt_index_and_peak_index std_index (of_nat j) (of_nat n) = (m, p) \<and>
      unat m = 2 ^ tree_height n j + j mod 2 ^ tree_height n j \<and>
      unat p = length (filter (\<lambda>h. tree_height n j < h) (peak_heights n))" if "j < n" "n < 2 ^ 61" for j n
  proof -
    let ?h = "tree_height n j"
    have u: "unat (of_nat n :: u64) = n" "unat (of_nat j :: u64) = j" using that num [of n] num [of j] by simp_all
    have "odd (n div 2 ^ ?h)" using tree_height_differs [OF that(1)] by blast
    then have "2 ^ ?h \<le> n" by (metis div_less even_zero not_less)
    moreover have "j mod 2 ^ ?h < 2 ^ ?h" by simp
    ultimately have "2 ^ ?h + j mod 2 ^ ?h < n + n" by linarith
    then have "2 ^ ?h + j mod 2 ^ ?h < 2 ^ 64" using that(2) by simp
    from num [OF this] have "unat (of_nat (2 ^ ?h + j mod 2 ^ ?h) :: u64) = 2 ^ ?h + j mod 2 ^ ?h" .
    moreover have "length (filter (\<lambda>h. ?h < h) (peak_heights n)) \<le> 64"
      using length_filter_le [of _ "rev [0..<64]"] length_filter_le [of _ "peak_heights n"] by (metis (no_types, lifting) diff_zero dual_order.trans length_rev length_upt peak_heights_def)
    then have "unat (of_nat (length (filter (\<lambda>h. ?h < h) (peak_heights n))) :: u32) = length (filter (\<lambda>h. ?h < h) (peak_heights n))"
      by (simp add: unat_of_nat take_bit_nat_eq_self)
    ultimately show ?thesis by (simp add: std_index_def u Let_def del: of_nat_add)
  qed
  show "get_authentication_path_node_indices std_index (of_nat (node_pos j)) (of_nat (node_pos (anc j (tree_height n j)) + tree_height n j)) (of_nat (node_pos n)) =
      Some (map (\<lambda>h. of_nat (node_pos (sibling_node j h) + h)) [0..<tree_height n j])" if "j < n" "n < 2 ^ 61" for j n
  proof -
    have "j < 2 ^ 61" "anc j (tree_height n j) < 2 ^ 61" using that anc_below_height [OF that(1) order_refl] by linarith+
    then show ?thesis using node [of j 0] node [OF _ ones_anc_ge] node_of_node [of 0 j] node_of_node [OF ones_anc_ge]
      by (simp add: std_index_def Let_def del: of_nat_add)
  qed
  show "mmr_init sym_mmr (peaks_of (hash_pair sym_mmr) xs) (of_nat (length xs)) =
      foldl (\<lambda>m d. fst (mmr_append sym_mmr m d)) (mmr_empty sym_mmr) xs" if "length xs < 2 ^ 61" for xs
    by (rule sym_mmr_init [OF that])
qed

interpretation list_mmr: archival_mmr "\<lambda>v xs. v = xs \<and> length xs < 2 ^ 64" list_vec std_index sym_mmr
  by (rule std_index_mmr [OF list_vec_storage])

text \<open>A persistent vector serves as well, over the database of the storage model.\<close>

definition dbt_vec_ops :: "'db store_env \<Rightarrow> 'v codec \<Rightarrow> (('db, 'v) dbt_state, 'v) vec_ops" where
  "dbt_vec_ops E K = \<lparr>vo_len = dbt_len E, vo_get = dbt_get E K, vo_get_many = dbt_get_many E K, vo_get_all = dbt_get_all E K,
     vo_set = dbt_set E K, vo_set_many = dbt_set_many E K, vo_pop = dbt_pop E K, vo_push = dbt_push E K, vo_clear = dbt_clear E K\<rparr>"

context vec_laws
begin

lemma dbt_contract: "storage_vec (dbt_repr E K) (dbt_len E) (dbt_get E K) (dbt_get_many E K) (dbt_get_all E K) (dbt_set E K)
    (dbt_set_many E K) (dbt_pop E K) (dbt_push E K) (dbt_clear E K)"
  by unfold_locales

end

lemma dbt_archival_mmr: "vec_laws E K \<Longrightarrow> archival_mmr (dbt_repr E K) (dbt_vec_ops E K) std_index sym_mmr"
  using vec_laws.dbt_contract [of E K] by (intro std_index_mmr) (simp add: dbt_vec_ops_def)

section \<open>Properties\<close>

text \<open>(C19) An archival Merkle mountain range is the list of its leafs, whatever the vector that stores its nodes: appending,
  mutating, removing and pruning never panic below \<open>2 ^ 61\<close> leafs and do to the nodes what they do to the list, reading
  leafs reads the list, and the peaks make the same accumulator as appending the leafs one by one.\<close>

theorem archival_mmr_refines_list:
  assumes "archival_mmr repr V X C" "archival_mmr.ammr_repr repr C a xs" "unat n < 2 ^ 61"
  shows "ammr_num_leafs V X a = Inr (of_nat (length xs)) \<and>
    try_get_leaf V X a i = Inr (if unat i < length xs then Some (xs ! unat i) else None) \<and>
    get_latest_leaf V X a = Inr (if xs = [] then None else Some (last xs)) \<and>
    ammr_to_accumulator V X C a = Inr (foldl (\<lambda>m d. fst (mmr_append C m d)) (mmr_empty C) xs) \<and>
    (\<exists>a'. prune_to_num_leafs V X a n = Inr a' \<and> archival_mmr.ammr_repr repr C a' (take (unat n) xs)) \<and>
    (\<exists>a'. remove_last_leaf V X a = Inr (a', if xs = [] then None else Some (last xs)) \<and> archival_mmr.ammr_repr repr C a' (butlast xs)) \<and>
    (length xs + 1 < 2 ^ 61 \<longrightarrow> (\<exists>a' path. ammr_append V X C a d = Inr (a', path) \<and> archival_mmr.ammr_repr repr C a' (xs @ [d]))) \<and>
    (unat i < length xs \<longrightarrow> (\<exists>a'. ammr_mutate_leaf V X C a i d = Inr a' \<and> archival_mmr.ammr_repr repr C a' (xs[unat i := d])))"
  using archival_mmr.num_leafs_repr [OF assms(1,2)] archival_mmr.try_get_leaf_repr [OF assms(1,2)]
    archival_mmr.latest_leaf_repr [OF assms(1,2)] archival_mmr.to_accumulator_repr [OF assms(1,2)]
    archival_mmr.prune_repr [OF assms] archival_mmr.remove_last_leaf_repr [OF assms(1,2)]
    archival_mmr.append_repr [OF assms(1,2)] archival_mmr.mutate_leaf_repr [OF assms(1,2)]
  by blast

lemma empty_list_mmr: "list_mmr.ammr_repr \<lparr>digests = [SDigest 0]\<rparr> []"
  unfolding list_mmr.ammr_repr_def by (simp add: layout_def)

theorem archival_mmr_refines_list_witness:
  "\<exists>a path. ammr_append list_vec std_index sym_mmr \<lparr>digests = [SDigest 0]\<rparr> (SDigest 7) = Inr (a, path) \<and>
     get_latest_leaf list_vec std_index a = Inr (Some (SDigest 7))"
proof -
  obtain a path where a: "ammr_append list_vec std_index sym_mmr \<lparr>digests = [SDigest 0]\<rparr> (SDigest 7) = Inr (a, path)"
      "list_mmr.ammr_repr a [SDigest 7]"
    using archival_mmr_refines_list [OF list_mmr.archival_mmr_axioms empty_list_mmr, of 0 0 "SDigest 7"] by auto
  then show ?thesis using list_mmr.latest_leaf_repr [OF a(2)] by simp
qed

text \<open>Hashing a leaf with its authentication path.\<close>

fun climb :: "('d \<Rightarrow> 'd \<Rightarrow> 'd) \<Rightarrow> nat \<Rightarrow> 'd \<Rightarrow> 'd list \<Rightarrow> 'd" where
  "climb H i acc [] = acc"
| "climb H i acc (d # ds) = climb H (i div 2) (if odd i then H d acc else H acc d) ds"

lemma climb_path:
  assumes "h \<le> t"
  shows "climb H (i div 2 ^ h) (tree_node H xs (anc i h) h) (map (\<lambda>h. tree_node H xs (sibling_node i h) h) [h..<t]) =
    tree_node H xs (anc i t) t"
  using assms
proof (induction "t - h" arbitrary: h)
  case (Suc k)
  then have upt: "[h..<t] = h # [Suc h..<t]" and k: "k = t - Suc h" "Suc h \<le> t" by (simp_all add: upt_conv_Cons)
  have "i div 2 ^ Suc h = i div 2 ^ h div 2" by (metis div_mult2_eq power_Suc2)
  moreover have "tree_node H xs (anc i (Suc h)) (Suc h) =
      (if odd (i div 2 ^ h) then H (tree_node H xs (sibling_node i h) h) (tree_node H xs (anc i h) h)
       else H (tree_node H xs (anc i h) h) (tree_node H xs (sibling_node i h) h))"
    by (simp add: anc_Suc [of i h] anc_odd sibling_node_def)
  ultimately show ?case using Suc.hyps(1) [OF k] by (simp add: upt)
qed simp

text \<open>(C20) Membership proofs against an earlier state of the range: the loop that computes node indices for a smaller range
  returns the same authentication path as an archive that holds only the first leafs, and hashing a leaf with that path
  gives one of the peaks of the smaller range.\<close>

theorem smaller_membership_proof:
  assumes "archival_mmr repr V X C" "archival_mmr.ammr_repr repr C a xs" "archival_mmr.ammr_repr repr C b (take (unat n) xs)"
    and "unat i < unat n" "unat n \<le> length xs"
  shows "\<exists>path. prove_membership_relative_to_smaller_mmr V X a i n = Inr path \<and> ammr_prove_membership V X b i = Inr path \<and>
    (\<exists>peaks. ammr_peaks V X b = Inr peaks \<and> climb (hash_pair C) (unat i) (xs ! unat i) path \<in> set peaks)"
proof -
  let ?ys = "take (unat n) xs" and ?i = "unat i"
  let ?h = "tree_height (length ?ys) ?i"
  have i: "?i < length ?ys" using assms(4,5) by simp
  have "length ?ys < 2 ^ 61" using archival_mmr.ammr_repr_def [OF assms(1)] assms(3) by blast
  from peak_height_mem [OF i this] have "tree_node (hash_pair C) ?ys (anc ?i ?h) ?h \<in> set (peaks_of (hash_pair C) ?ys)"
    using anc_peak [OF i] by (auto simp: peaks_of_def)
  moreover have "climb (hash_pair C) ?i (xs ! ?i) (auth_path_of (hash_pair C) ?ys ?i) = tree_node (hash_pair C) ?ys (anc ?i ?h) ?h"
    using climb_path [of 0 ?h "hash_pair C" ?i ?ys] assms(4) by (simp add: auth_path_of_def)
  ultimately show ?thesis
    using archival_mmr.smaller_membership_repr [OF assms(1,2,4,5)] archival_mmr.prove_membership_repr [OF assms(1,3) i]
      archival_mmr.peaks_repr [OF assms(1,3)] by auto
qed

theorem smaller_membership_proof_witness:
  "\<exists>a path. ammr_append list_vec std_index sym_mmr \<lparr>digests = [SDigest 0]\<rparr> (SDigest 7) = Inr (a, []) \<and>
     prove_membership_relative_to_smaller_mmr list_vec std_index a 0 1 = Inr path"
proof -
  obtain a where a: "ammr_append list_vec std_index sym_mmr \<lparr>digests = [SDigest 0]\<rparr> (SDigest 7) = Inr (a, [])"
      "list_mmr.ammr_repr a [SDigest 7]"
    using list_mmr.append_repr [OF empty_list_mmr, of "SDigest 7"] by (auto simp: ones.simps [of 0])
  show ?thesis
    using smaller_membership_proof [OF list_mmr.archival_mmr_axioms a(2), of a 1 0] a by auto
qed

end
