(* ===== verification/Archival_State.thy ===== *)
theory Archival_State
  imports Archival_Mmr Chain
begin

text \<open>
  \<^verbatim>\<open>node/src/state/archival_state.rs\<close> with its records (\<^verbatim>\<open>state/database.rs\<close>, \<^verbatim>\<open>state/shared.rs\<close>): the blocks that the node
  stores. Raw blocks are appended to files, an index database maps digests to headers and file locations, and an archival
  Merkle mountain range holds the digests of the canonical chain, one leaf for every height.

  The index database is a finite map, the directory of block files a finite map from file numbers to bytes. Reads and
  writes of files succeed; a missing file, a location outside of its file and bytes that are no block are errors as in
  the source. Parameters (\<open>archive_env\<close>): the block environment, the vector that stores the range, the index arithmetic,
  and the serialisation of blocks (crate \<^verbatim>\<open>bincode\<close>). Loops that follow predecessors carry the number of rounds that heights
  allow; a loop that does not end is \<^const>\<open>StackOverflow\<close>, and the lemmas show that it does not occur.
\<close>

section \<open>The records of the block index\<close>

record block_file_location =
  file_index :: u32
  file_offset :: u64
  block_length :: u64

record ('d, 'f) block_record =
  br_header :: "('d, 'f) block_header"
  br_location :: block_file_location
  br_witness :: "'d header_witness"

record 'f file_record =
  blocks_in_file_count :: u32
  file_size :: u64
  min_block_height :: "'f block_height"
  max_block_height :: "'f block_height"
  min_block_timestamp :: "'f timestamp"
  max_block_timestamp :: "'f timestamp"

definition file_record_new :: "u64 \<Rightarrow> ('d, 'f) block_header \<Rightarrow> 'f file_record" where
  "file_record_new block_size h =
     \<lparr>blocks_in_file_count = 1, file_size = block_size, min_block_height = height h, max_block_height = height h,
      min_block_timestamp = bh_timestamp h, max_block_timestamp = bh_timestamp h\<rparr>"

definition file_record_add :: "'f bfield \<Rightarrow> 'f file_record \<Rightarrow> u64 \<Rightarrow> ('d, 'f) block_header \<Rightarrow> 'f file_record" where
  "file_record_add F self block_size h =
     (let ret = self;
          ret = ret\<lparr>blocks_in_file_count := blocks_in_file_count ret + 1\<rparr>;
          ret = ret\<lparr>file_size := file_size ret + block_size\<rparr>;
          ret = ret\<lparr>min_block_height := if height_le F (max_block_height self) (height h) then max_block_height self else height h\<rparr>;
          ret = ret\<lparr>max_block_height := if height_le F (max_block_height self) (height h) then height h else max_block_height self\<rparr>;
          ret = ret\<lparr>min_block_timestamp :=
            if timestamp_le F (min_block_timestamp ret) (bh_timestamp h) then min_block_timestamp ret else bh_timestamp h\<rparr>;
          ret = ret\<lparr>max_block_timestamp :=
            if timestamp_le F (min_block_timestamp ret) (bh_timestamp h) then bh_timestamp h else min_block_timestamp ret\<rparr>
      in ret)"

datatype last_file_record = LastFileRecord (last_file: u32)

datatype ('d, 'f) block_index_key =
  KeyBlock 'd | KeyFile u32 | KeyHeight "'f block_height" | KeyLastFile | KeyBlockTipDigest

datatype ('d, 'f) block_index_value =
    ValueBlock "('d, 'f) block_record"
  | ValueFile "'f file_record"
  | ValueHeight "'d list"
  | ValueLastFile last_file_record
  | ValueBlockTipDigest 'd

fun as_block_record :: "('d, 'f) block_index_value \<Rightarrow> ('d, 'f) block_record res" where
  "as_block_record (ValueBlock r) = Inr r" | "as_block_record _ = Inl ExplicitPanic"

fun as_file_record :: "('d, 'f) block_index_value \<Rightarrow> 'f file_record res" where
  "as_file_record (ValueFile r) = Inr r" | "as_file_record _ = Inl ExplicitPanic"

fun as_height_record :: "('d, 'f) block_index_value \<Rightarrow> 'd list res" where
  "as_height_record (ValueHeight r) = Inr r" | "as_height_record _ = Inl ExplicitPanic"

fun as_last_file_record :: "('d, 'f) block_index_value \<Rightarrow> last_file_record res" where
  "as_last_file_record (ValueLastFile r) = Inr r" | "as_last_file_record _ = Inl ExplicitPanic"

fun as_tip_digest :: "('d, 'f) block_index_value \<Rightarrow> 'd res" where
  "as_tip_digest (ValueBlockTipDigest d) = Inr d" | "as_tip_digest _ = Inl ExplicitPanic"

text \<open>\<^verbatim>\<open>db.get(key).await.map(as_..)\<close>.\<close>

definition map_get_res :: "('v \<Rightarrow> 'a res) \<Rightarrow> 'v option \<Rightarrow> 'a option res" where
  "map_get_res f x = (case x of None \<Rightarrow> Inr None | Some v \<Rightarrow> bind_res (f v) (\<lambda>a. Inr (Some a)))"

section \<open>State\<close>

record ('d, 'm, 'p, 'f, 'c, 's, 'v) archive_env =
  ae_env :: "('d, 'm, 'p, 'f, 'c, 's) block_env"
  ae_vec :: "('v, 'd) vec_ops"
  ae_index :: mmr_index
  serialize_block :: "('d, 'm, 'p, 'f, 'c, 's) block \<Rightarrow> u8 list option"
  deserialize_block :: "u8 list \<Rightarrow> ('d, 'm, 'p, 'f, 'c, 's) block option"

record ('d, 'm, 'p, 'f, 'c, 's, 'v) archival_state =
  block_files :: "u32 \<rightharpoonup> u8 list"
  block_index_db :: "('d, 'f) block_index_key \<rightharpoonup> ('d, 'f) block_index_value"
  genesis_block :: "('d, 'm, 'p, 'f, 'c, 's) block"
  archival_block_mmr :: "'v archival_mmr"

abbreviation hash_of :: "('d, 'm, 'p, 'f, 'c, 's, 'v) archive_env \<Rightarrow> ('d, 'm, 'p, 'f, 'c, 's) block \<Rightarrow> 'd" where
  "hash_of S b \<equiv> block_hash (ae_env S) b"

abbreviation field_of :: "('d, 'm, 'p, 'f, 'c, 's, 'v) archive_env \<Rightarrow> 'f bfield" where
  "field_of S \<equiv> env_field (ae_env S)"

abbreviation crypto_of :: "('d, 'm, 'p, 'f, 'c, 's, 'v) archive_env \<Rightarrow> ('d, 'm, 'p) crypto" where
  "crypto_of S \<equiv> env_crypto (ae_env S)"

datatype archive_error = NoMutatorSetUpdate | SerializationFailed | FileNotFound | BeyondEndOfFile | DeserializationFailed

section \<open>Reading blocks\<close>

definition get_block_record ::
  "('d, 'm, 'p, 'f, 'c, 's, 'v) archival_state \<Rightarrow> 'd \<Rightarrow> ('d, 'f) block_record option res" where
  "get_block_record A block_digest = map_get_res as_block_record (block_index_db A (KeyBlock block_digest))"

definition get_block_header ::
  "('d, 'm, 'p, 'f, 'c, 's, 'v) archive_env \<Rightarrow> ('d, 'm, 'p, 'f, 'c, 's, 'v) archival_state \<Rightarrow> 'd
     \<Rightarrow> ('d, 'f) block_header option res" where
  "get_block_header S A block_digest =
     bind_res (map_get_res as_block_record (block_index_db A (KeyBlock block_digest))) (\<lambda>ret.
       let ret = map_option br_header ret in
       Inr (if ret = None \<and> block_digest = hash_of S (genesis_block A) then Some (header (genesis_block A)) else ret))"

definition block_header_with_hash_witness ::
  "('d, 'm, 'p, 'f, 'c, 's, 'v) archival_state \<Rightarrow> 'd \<Rightarrow> ('d, 'f) header_with_witness option res" where
  "block_header_with_hash_witness A block_digest =
     bind_res (map_get_res as_block_record (block_index_db A (KeyBlock block_digest))) (\<lambda>r.
       Inr (map_option (\<lambda>record. \<lparr>hw_header = br_header record, hw_witness = br_witness record\<rparr>) r))"

definition get_block_from_block_record ::
  "('d, 'm, 'p, 'f, 'c, 's, 'v) archive_env \<Rightarrow> ('d, 'm, 'p, 'f, 'c, 's, 'v) archival_state \<Rightarrow> ('d, 'f) block_record
     \<Rightarrow> archive_error + ('d, 'm, 'p, 'f, 'c, 's) block" where
  "get_block_from_block_record S A r =
     (case block_files A (file_index (br_location r)) of
        None \<Rightarrow> Inl FileNotFound
      | Some contents \<Rightarrow>
          let requested_end = saturating_add_w (file_offset (br_location r)) (block_length (br_location r)) in
          if of_nat (length contents) < requested_end then Inl BeyondEndOfFile
          else case deserialize_block S (take (unat (block_length (br_location r))) (drop (unat (file_offset (br_location r))) contents)) of
                 None \<Rightarrow> Inl DeserializationFailed
               | Some b \<Rightarrow> Inr b)"

definition get_block ::
  "('d, 'm, 'p, 'f, 'c, 's, 'v) archive_env \<Rightarrow> ('d, 'm, 'p, 'f, 'c, 's, 'v) archival_state \<Rightarrow> 'd
     \<Rightarrow> (archive_error + ('d, 'm, 'p, 'f, 'c, 's) block option) res" where
  "get_block S A block_digest =
     bind_res (get_block_record A block_digest) (\<lambda>maybe_record.
       case maybe_record of
         None \<Rightarrow> Inr (Inr (if hash_of S (genesis_block A) = block_digest then Some (genesis_block A) else None))
       | Some record \<Rightarrow> Inr (bind_res (get_block_from_block_record S A record) (\<lambda>b. Inr (Some b))))"

definition get_block_kernel_with_proof_digest ::
  "('d, 'm, 'p, 'f, 'c, 's, 'v) archive_env \<Rightarrow> ('d, 'm, 'p, 'f, 'c, 's, 'v) archival_state \<Rightarrow> 'd
     \<Rightarrow> (archive_error + (('d, 'm, 'p, 'f, 'c) block_kernel \<times> 'd option) option) res" where
  "get_block_kernel_with_proof_digest S A block_digest =
     bind_res (get_block_record A block_digest) (\<lambda>maybe_record.
       case maybe_record of
         None \<Rightarrow> Inr (Inr (if hash_of S (genesis_block A) = block_digest
                           then Some (block_kernel (genesis_block A), None) else None))
       | Some record \<Rightarrow> Inr (bind_res (get_block_from_block_record S A record) (\<lambda>b.
           Inr (Some (block_kernel b, Some (proof_leaf (br_witness record)))))))"

definition tip_block_record :: "('d, 'm, 'p, 'f, 'c, 's, 'v) archival_state \<Rightarrow> ('d, 'f) block_record option res" where
  "tip_block_record A =
     bind_res (map_get_res as_tip_digest (block_index_db A KeyBlockTipDigest)) (\<lambda>tip_digest.
       case tip_digest of None \<Rightarrow> Inr None | Some d \<Rightarrow> get_block_record A d)"

definition get_tip_from_disk ::
  "('d, 'm, 'p, 'f, 'c, 's, 'v) archive_env \<Rightarrow> ('d, 'm, 'p, 'f, 'c, 's, 'v) archival_state
     \<Rightarrow> (archive_error + ('d, 'm, 'p, 'f, 'c, 's) block option) res" where
  "get_tip_from_disk S A =
     bind_res (tip_block_record A) (\<lambda>r.
       case r of None \<Rightarrow> Inr (Inr None)
       | Some record \<Rightarrow> Inr (bind_res (get_block_from_block_record S A record) (\<lambda>b. Inr (Some b))))"

definition expect :: "'e + 'a \<Rightarrow> 'a res" where
  "expect r = (case r of Inl _ \<Rightarrow> Inl UnwrapFailed | Inr a \<Rightarrow> Inr a)"

definition get_tip ::
  "('d, 'm, 'p, 'f, 'c, 's, 'v) archive_env \<Rightarrow> ('d, 'm, 'p, 'f, 'c, 's, 'v) archival_state
     \<Rightarrow> ('d, 'm, 'p, 'f, 'c, 's) block res" where
  "get_tip S A =
     bind_res (get_tip_from_disk S A) (\<lambda>r. bind_res (expect r) (\<lambda>lookup_res_info.
       Inr (case lookup_res_info of None \<Rightarrow> genesis_block A | Some b \<Rightarrow> b)))"

definition tip_header ::
  "('d, 'm, 'p, 'f, 'c, 's, 'v) archive_env \<Rightarrow> ('d, 'm, 'p, 'f, 'c, 's, 'v) archival_state \<Rightarrow> ('d, 'f) block_header res" where
  "tip_header S A =
     bind_res (as_tip_digest (case block_index_db A KeyBlockTipDigest of
                                None \<Rightarrow> ValueBlockTipDigest (hash_of S (genesis_block A)) | Some v \<Rightarrow> v)) (\<lambda>tip_digest.
     bind_res (get_block_header S A tip_digest) unwrap)"

definition get_tip_parent ::
  "('d, 'm, 'p, 'f, 'c, 's, 'v) archive_env \<Rightarrow> ('d, 'm, 'p, 'f, 'c, 's, 'v) archival_state
     \<Rightarrow> ('d, 'm, 'p, 'f, 'c, 's) block option res" where
  "get_tip_parent S A =
     bind_res (tip_header S A) (\<lambda>h.
     if is_genesis (field_of S) (height h) then Inr None
     else bind_res (get_block S A (prev_block_digest h)) (\<lambda>r. bind_res (expect r) (\<lambda>parent.
       bind_res (unwrap parent) (\<lambda>b. Inr (Some b)))))"

definition canonical_block_by_height ::
  "('d, 'm, 'p, 'f, 'c, 's, 'v) archive_env \<Rightarrow> ('d, 'm, 'p, 'f, 'c, 's, 'v) archival_state \<Rightarrow> 'f block_height
     \<Rightarrow> ('d, 'm, 'p, 'f, 'c, 's) block option res" where
  "canonical_block_by_height S A h =
     bind_res (try_get_leaf (ae_vec S) (ae_index S) (archival_block_mmr A) (height_value (field_of S) h)) (\<lambda>block_hash'.
       case block_hash' of None \<Rightarrow> Inr None
       | Some d \<Rightarrow> bind_res (get_block S A d) (\<lambda>r. bind_res (expect r) (\<lambda>b. bind_res (unwrap b) (\<lambda>b. Inr (Some b)))))"

text \<open>\<^verbatim>\<open>find_canonical_block_with_input\<close>: the loop over the heights from the tip downwards.\<close>

fun find_input_loop ::
  "('d, 'm, 'p, 'f, 'c, 's, 'v) archive_env \<Rightarrow> ('d, 'm, 'p, 'f, 'c, 's, 'v) archival_state \<Rightarrow> absolute_index_set \<Rightarrow> nat list
     \<Rightarrow> ('d, 'm, 'p, 'f, 'c, 's) block option res" where
  "find_input_loop S A input [] = Inr None"
| "find_input_loop S A input (h # hs) =
     bind_res (canonical_block_by_height S A (height_from_u64 (field_of S) (of_nat h))) (\<lambda>b. bind_res (unwrap b) (\<lambda>b.
       if \<exists>rr\<in>set (tk_inputs (body_kernel (body b))). absolute_indices rr = input then Inr (Some b)
       else find_input_loop S A input hs))"

definition find_canonical_block_with_input ::
  "('d, 'm, 'p, 'f, 'c, 's, 'v) archive_env \<Rightarrow> ('d, 'm, 'p, 'f, 'c, 's, 'v) archival_state \<Rightarrow> absolute_index_set \<Rightarrow> u64 option
     \<Rightarrow> ('d, 'm, 'p, 'f, 'c, 's) block option res" where
  "find_canonical_block_with_input S A input max_search_depth =
     bind_res (tip_header S A) (\<lambda>h.
       let tip_height = height_value (field_of S) (height h);
           end_height = (case max_search_depth of Some num \<Rightarrow> saturating_sub_w tip_height num | None \<Rightarrow> 0)
       in find_input_loop S A input (rev [unat end_height..<Suc (unat tip_height)]))"

definition block_height_to_block_digests ::
  "('d, 'm, 'p, 'f, 'c, 's, 'v) archive_env \<Rightarrow> ('d, 'm, 'p, 'f, 'c, 's, 'v) archival_state \<Rightarrow> 'f block_height \<Rightarrow> 'd list res" where
  "block_height_to_block_digests S A h =
     (if is_genesis (field_of S) h then Inr [hash_of S (genesis_block A)]
      else bind_res (map_get_res as_height_record (block_index_db A (KeyHeight h))) (\<lambda>r.
        Inr (case r of None \<Rightarrow> [] | Some ds \<Rightarrow> ds)))"

definition is_canonical_block ::
  "('d, 'm, 'p, 'f, 'c, 's, 'v) archive_env \<Rightarrow> ('d, 'm, 'p, 'f, 'c, 's, 'v) archival_state \<Rightarrow> 'd \<Rightarrow> 'f block_height \<Rightarrow> bool res" where
  "is_canonical_block S A block_hash' h =
     bind_res (try_get_leaf (ae_vec S) (ae_index S) (archival_block_mmr A) (height_value (field_of S) h)) (\<lambda>leaf.
       Inr (case leaf of None \<Rightarrow> False | Some d \<Rightarrow> d = block_hash'))"

definition block_belongs_to_canonical_chain ::
  "('d, 'm, 'p, 'f, 'c, 's, 'v) archive_env \<Rightarrow> ('d, 'm, 'p, 'f, 'c, 's, 'v) archival_state \<Rightarrow> 'd \<Rightarrow> bool res" where
  "block_belongs_to_canonical_chain S A block_digest =
     bind_res (get_block_header S A block_digest) (\<lambda>h. case h of None \<Rightarrow> Inr False
     | Some h \<Rightarrow> bind_res (try_get_leaf (ae_vec S) (ae_index S) (archival_block_mmr A) (height_value (field_of S) (height h))) (\<lambda>leaf.
         Inr (case leaf of None \<Rightarrow> False | Some d \<Rightarrow> d = block_digest)))"

fun ancestor_loop ::
  "('d, 'm, 'p, 'f, 'c, 's, 'v) archive_env \<Rightarrow> ('d, 'm, 'p, 'f, 'c, 's, 'v) archival_state \<Rightarrow> nat \<Rightarrow> 'd \<Rightarrow> 'd list res" where
  "ancestor_loop S A n parent_digest =
     bind_res (get_block_header S A parent_digest) (\<lambda>p. case p of None \<Rightarrow> Inr []
     | Some parent_header \<Rightarrow> (case n of 0 \<Rightarrow> Inr []
       | Suc n \<Rightarrow> bind_res (ancestor_loop S A n (prev_block_digest parent_header)) (\<lambda>ret. Inr (parent_digest # ret))))"

declare ancestor_loop.simps [simp del]

definition get_ancestor_block_digests ::
  "('d, 'm, 'p, 'f, 'c, 's, 'v) archive_env \<Rightarrow> ('d, 'm, 'p, 'f, 'c, 's, 'v) archival_state \<Rightarrow> 'd \<Rightarrow> nat \<Rightarrow> 'd list res" where
  "get_ancestor_block_digests S A block_digest n =
     bind_res (get_block_header S A block_digest) (\<lambda>h. bind_res (unwrap h) (\<lambda>input_block_header.
       ancestor_loop S A n (prev_block_digest input_block_header)))"

section \<open>Paths between blocks\<close>

text \<open>The two loops of \<^verbatim>\<open>find_path\<close>; the vectors are kept as they grow, the last element at the end.\<close>

definition header_unwrap ::
  "('d, 'm, 'p, 'f, 'c, 's, 'v) archive_env \<Rightarrow> ('d, 'm, 'p, 'f, 'c, 's, 'v) archival_state \<Rightarrow> 'd \<Rightarrow> ('d, 'f) block_header res" where
  "header_unwrap S A d = bind_res (get_block_header S A d) unwrap"

fun level_loop ::
  "('d, 'm, 'p, 'f, 'c, 's, 'v) archive_env \<Rightarrow> ('d, 'm, 'p, 'f, 'c, 's, 'v) archival_state \<Rightarrow> nat
     \<Rightarrow> 'd list \<Rightarrow> 'd list \<Rightarrow> ('d, 'f) block_header \<Rightarrow> ('d, 'f) block_header \<Rightarrow> ('d list \<times> 'd list) res" where
  "level_loop S A 0 leaving arriving leaving_header arriving_header = Inl StackOverflow"
| "level_loop S A (Suc n) leaving arriving leaving_header arriving_header =
     (if height leaving_header = height arriving_header then Inr (leaving, arriving)
      else if \<not> height_le (field_of S) (height arriving_header) (height leaving_header)
      then bind_res (header_unwrap S A (prev_block_digest arriving_header)) (\<lambda>h.
        level_loop S A n leaving (arriving @ [prev_block_digest arriving_header]) leaving_header h)
      else bind_res (header_unwrap S A (prev_block_digest leaving_header)) (\<lambda>h.
        level_loop S A n (leaving @ [prev_block_digest leaving_header]) arriving h arriving_header))"

definition last_unwrap :: "'a list \<Rightarrow> 'a res" where
  "last_unwrap xs = (if xs = [] then Inl UnwrapFailed else Inr (last xs))"

fun meet_loop ::
  "('d, 'm, 'p, 'f, 'c, 's, 'v) archive_env \<Rightarrow> ('d, 'm, 'p, 'f, 'c, 's, 'v) archival_state \<Rightarrow> nat
     \<Rightarrow> 'd list \<Rightarrow> 'd list \<Rightarrow> ('d list \<times> 'd list) res" where
  "meet_loop S A 0 leaving arriving = Inl StackOverflow"
| "meet_loop S A (Suc n) leaving arriving =
     bind_res (last_unwrap leaving) (\<lambda>l. bind_res (last_unwrap arriving) (\<lambda>a.
     if l = a then Inr (leaving, arriving)
     else bind_res (header_unwrap S A l) (\<lambda>lh. bind_res (header_unwrap S A a) (\<lambda>ah.
       meet_loop S A n (leaving @ [prev_block_digest lh]) (arriving @ [prev_block_digest ah])))))"

definition find_path ::
  "('d, 'm, 'p, 'f, 'c, 's, 'v) archive_env \<Rightarrow> ('d, 'm, 'p, 'f, 'c, 's, 'v) archival_state \<Rightarrow> 'd \<Rightarrow> 'd
     \<Rightarrow> ('d list \<times> 'd \<times> 'd list) res" where
  "find_path S A start stop =
     bind_res (header_unwrap S A start) (\<lambda>leaving_header. bind_res (header_unwrap S A stop) (\<lambda>arriving_header.
     let rounds = Suc (unat (height_value (field_of S) (height leaving_header)) + unat (height_value (field_of S) (height arriving_header))) in
     bind_res (level_loop S A rounds [start] [stop] leaving_header arriving_header) (\<lambda>(leaving, arriving).
     bind_res (meet_loop S A rounds leaving arriving) (\<lambda>(leaving, arriving).
     bind_res (last_unwrap leaving) (\<lambda>luca.
       Inr (butlast leaving, luca, rev (butlast arriving)))))))"

section \<open>Writing blocks\<close>

definition MAX_BLOCK_FILE_SIZE :: u64 where
  "MAX_BLOCK_FILE_SIZE = 1024 * 1024 * 128"

definition new_block_file_is_needed :: "u8 list \<Rightarrow> u64 \<Rightarrow> bool" where
  "new_block_file_is_needed contents bytes_to_store \<longleftrightarrow> MAX_BLOCK_FILE_SIZE < of_nat (length contents) + bytes_to_store"

text \<open>The bytes of a file after the block was mapped to its end. A zero is written at the last position first; with no
  bytes to store this is the position before the end.\<close>

definition write_at_end :: "u8 list \<Rightarrow> u8 list \<Rightarrow> u8 list res" where
  "write_at_end contents bytes =
     (if bytes = [] then if contents = [] then Inl UnwrapFailed else Inr (butlast contents @ [0])
      else Inr (contents @ bytes))"

definition open_block_file :: "('d, 'm, 'p, 'f, 'c, 's, 'v) archival_state \<Rightarrow> u32 \<Rightarrow> u8 list" where
  "open_block_file A n = (case block_files A n of None \<Rightarrow> [] | Some contents \<Rightarrow> contents)"

definition store_block ::
  "('d, 'm, 'p, 'f, 'c, 's, 'v) archive_env \<Rightarrow> ('d, 'm, 'p, 'f, 'c, 's, 'v) archival_state \<Rightarrow> ('d, 'm, 'p, 'f, 'c, 's) block
     \<Rightarrow> (archive_error + (('d, 'f) block_index_key \<times> ('d, 'f) block_index_value) list
          \<times> ('d, 'm, 'p, 'f, 'c, 's, 'v) archival_state) res" where
  "store_block S A new_block =
     bind_res (block_mutator_set_update (ae_env S) new_block) (\<lambda>update.
     reject_if (case update of Inl _ \<Rightarrow> True | Inr _ \<Rightarrow> False) NoMutatorSetUpdate
     (bind_res (map_get_res as_last_file_record (block_index_db A KeyLastFile)) (\<lambda>last_rec.
      let last_rec = (case last_rec of None \<Rightarrow> LastFileRecord 0 | Some r \<Rightarrow> r) in
      (case serialize_block S new_block of None \<Rightarrow> Inr (Inl SerializationFailed) | Some serialized_block \<Rightarrow>
      let serialized_block_size = of_nat (length serialized_block);
          block_file = open_block_file A (last_file last_rec);
          A = A\<lparr>block_files := (block_files A)(last_file last_rec \<mapsto> block_file)\<rparr>;
          fresh = new_block_file_is_needed block_file serialized_block_size;
          last_rec = (if fresh then LastFileRecord (last_file last_rec + 1) else last_rec);
          block_file = (if fresh then open_block_file A (last_file last_rec) else block_file) in
      bind_res (map_get_res as_file_record (block_index_db A (KeyFile (last_file last_rec)))) (\<lambda>file_record_value.
      bind_res (case file_record_value of
          Some record \<Rightarrow> Inr (file_record_add (field_of S) record serialized_block_size (header new_block))
        | None \<Rightarrow> assert_then (block_file = []) (Inr (file_record_new serialized_block_size (header new_block)))) (\<lambda>file_record_value.
      let pos = of_nat (length block_file) in
      bind_res (map_get_res as_height_record (block_index_db A (KeyHeight (height (header new_block))))) (\<lambda>blocks_at_same_height.
      let blocks_at_same_height = (case blocks_at_same_height of None \<Rightarrow> [] | Some ds \<Rightarrow> ds) in
      bind_res (write_at_end block_file serialized_block) (\<lambda>block_file.
      let A = A\<lparr>block_files := (block_files A)(last_file last_rec \<mapsto> block_file)\<rparr>;
          block_record_value = ValueBlock \<lparr>br_header = header new_block,
            br_location = \<lparr>file_index = last_file last_rec, file_offset = pos, block_length = serialized_block_size\<rparr>,
            br_witness = witness_of_block (ae_env S) new_block\<rparr>;
          block_index_entries =
            [(KeyFile (last_file last_rec), ValueFile file_record_value),
             (KeyBlock (hash_of S new_block), block_record_value),
             (KeyLastFile, ValueLastFile last_rec),
             (KeyHeight (height (header new_block)), ValueHeight (blocks_at_same_height @ [hash_of S new_block]))] in
      Inr (Inr (block_index_entries, A))))))))))"

definition batch_write :: "('k \<rightharpoonup> 'v) \<Rightarrow> ('k \<times> 'v) list \<Rightarrow> ('k \<rightharpoonup> 'v)" where
  "batch_write db batch = foldl (\<lambda>db (k, v). db(k \<mapsto> v)) db batch"

definition write_block_internal ::
  "('d, 'm, 'p, 'f, 'c, 's, 'v) archive_env \<Rightarrow> ('d, 'm, 'p, 'f, 'c, 's, 'v) archival_state \<Rightarrow> ('d, 'm, 'p, 'f, 'c, 's) block
     \<Rightarrow> bool \<Rightarrow> (archive_error + ('d, 'm, 'p, 'f, 'c, 's, 'v) archival_state) res" where
  "write_block_internal S A b is_canonical_tip =
     bind_res (get_block_header S A (hash_of S b)) (\<lambda>h.
     let block_is_new = (h = None) in
     try_then (if block_is_new then store_block S A b else Inr (Inr ([], A))) (\<lambda>(block_index_entries, A).
       let block_index_entries = block_index_entries @
             (if is_canonical_tip then [(KeyBlockTipDigest, ValueBlockTipDigest (hash_of S b))] else [])
       in Inr (Inr (A\<lparr>block_index_db := batch_write (block_index_db A) block_index_entries\<rparr>))))"

definition write_block_not_tip ::
  "('d, 'm, 'p, 'f, 'c, 's, 'v) archive_env \<Rightarrow> ('d, 'm, 'p, 'f, 'c, 's, 'v) archival_state \<Rightarrow> ('d, 'm, 'p, 'f, 'c, 's) block
     \<Rightarrow> (archive_error + ('d, 'm, 'p, 'f, 'c, 's, 'v) archival_state) res" where
  "write_block_not_tip S A b = write_block_internal S A b False"

definition write_block_as_tip ::
  "('d, 'm, 'p, 'f, 'c, 's, 'v) archive_env \<Rightarrow> ('d, 'm, 'p, 'f, 'c, 's, 'v) archival_state \<Rightarrow> ('d, 'm, 'p, 'f, 'c, 's) block
     \<Rightarrow> (archive_error + ('d, 'm, 'p, 'f, 'c, 's, 'v) archival_state) res" where
  "write_block_as_tip S A b = write_block_internal S A b True"

section \<open>The range of the canonical chain\<close>

fun remove_leafs :: "('d, 'm, 'p, 'f, 'c, 's, 'v) archive_env \<Rightarrow> 'd list \<Rightarrow> 'v archival_mmr \<Rightarrow> 'v archival_mmr res" where
  "remove_leafs S [] a = Inr a"
| "remove_leafs S (_ # ds) a = bind_res (remove_last_leaf (ae_vec S) (ae_index S) a) (\<lambda>(a, _). remove_leafs S ds a)"

fun append_leafs :: "('d, 'm, 'p, 'f, 'c, 's, 'v) archive_env \<Rightarrow> 'd list \<Rightarrow> 'v archival_mmr \<Rightarrow> 'v archival_mmr res" where
  "append_leafs S [] a = Inr a"
| "append_leafs S (d # ds) a =
     bind_res (ammr_append (ae_vec S) (ae_index S) (crypto_of S) a d) (\<lambda>(a, _). append_leafs S ds a)"

definition append_to_archival_block_mmr ::
  "('d, 'm, 'p, 'f, 'c, 's, 'v) archive_env \<Rightarrow> ('d, 'm, 'p, 'f, 'c, 's, 'v) archival_state \<Rightarrow> ('d, 'm, 'p, 'f, 'c, 's) block
     \<Rightarrow> ('d, 'm, 'p, 'f, 'c, 's, 'v) archival_state res" where
  "append_to_archival_block_mmr S A new_block =
     (let V = ae_vec S; X = ae_index S; C = crypto_of S; a = archival_block_mmr A in
      if is_genesis (field_of S) (height (header new_block))
      then assert_then (hash_of S (genesis_block A) = hash_of S new_block)
        (bind_res (try_get_leaf V X a 0) (\<lambda>leaf.
         bind_res (case leaf of
             Some leaf \<Rightarrow> assert_then (leaf = hash_of S new_block) (Inr a)
           | None \<Rightarrow> bind_res (ammr_append V X C a (hash_of S new_block)) (\<lambda>(a, _). Inr a)) (\<lambda>a.
         bind_res (prune_to_num_leafs V X a 1) (\<lambda>a. Inr (A\<lparr>archival_block_mmr := a\<rparr>)))))
      else let num_leafs_prior_to_this_block = height_value (field_of S) (height (header new_block)) in
      bind_res (prune_to_num_leafs V X a num_leafs_prior_to_this_block) (\<lambda>a.
      bind_res (get_latest_leaf V X a) (\<lambda>latest_leaf. bind_res (unwrap latest_leaf) (\<lambda>latest_leaf.
      bind_res (if prev_block_digest (header new_block) \<noteq> latest_leaf
                then bind_res (find_path S A latest_leaf (prev_block_digest (header new_block))) (\<lambda>(backwards, _, forwards).
                       bind_res (remove_leafs S backwards a) (append_leafs S forwards))
                else Inr a) (\<lambda>a.
      bind_res (get_latest_leaf V X a) (\<lambda>latest_leaf. bind_res (unwrap latest_leaf) (\<lambda>latest_leaf.
      assert_then (prev_block_digest (header new_block) = latest_leaf)
        (bind_res (ammr_append V X C a (hash_of S new_block)) (\<lambda>(a, _). Inr (A\<lparr>archival_block_mmr := a\<rparr>))))))))))"

section \<open>Well-formed archives\<close>

definition header_at ::
  "('d, 'm, 'p, 'f, 'c, 's, 'v) archive_env \<Rightarrow> ('d, 'm, 'p, 'f, 'c, 's, 'v) archival_state \<Rightarrow> 'd \<Rightarrow> ('d, 'f) block_header option" where
  "header_at S A d = (case get_block_header S A d of Inl _ \<Rightarrow> None | Inr h \<Rightarrow> h)"

abbreviation height_of :: "('d, 'm, 'p, 'f, 'c, 's, 'v) archive_env \<Rightarrow> ('d, 'f) block_header \<Rightarrow> nat" where
  "height_of S h \<equiv> unat (height_value (field_of S) (height h))"

text \<open>The index holds records under block digests, and with every block but the genesis block its predecessor, one lower.\<close>

definition wf_index ::
  "('d, 'm, 'p, 'f, 'c, 's, 'v) archive_env \<Rightarrow> ('d, 'm, 'p, 'f, 'c, 's, 'v) archival_state \<Rightarrow> bool" where
  "wf_index S A \<longleftrightarrow>
     (\<forall>d. get_block_header S A d = Inr (header_at S A d)) \<and>
     header_at S A (hash_of S (genesis_block A)) = Some (header (genesis_block A)) \<and>
     height_of S (header (genesis_block A)) = 0 \<and>
     (\<forall>d h. header_at S A d = Some h \<longrightarrow> height_of S h < 2 ^ 60 \<and>
       (d \<noteq> hash_of S (genesis_block A) \<longrightarrow>
         (\<exists>p. header_at S A (prev_block_digest h) = Some p \<and> height_of S h = Suc (height_of S p))))"

text \<open>The digests from the genesis block to a block.\<close>

fun chain_of ::
  "('d, 'm, 'p, 'f, 'c, 's, 'v) archive_env \<Rightarrow> ('d, 'm, 'p, 'f, 'c, 's, 'v) archival_state \<Rightarrow> nat \<Rightarrow> 'd \<Rightarrow> 'd list" where
  "chain_of S A 0 d = [d]"
| "chain_of S A (Suc n) d = chain_of S A n (prev_block_digest (the (header_at S A d))) @ [d]"

definition chain_to ::
  "('d, 'm, 'p, 'f, 'c, 's, 'v) archive_env \<Rightarrow> ('d, 'm, 'p, 'f, 'c, 's, 'v) archival_state \<Rightarrow> 'd \<Rightarrow> 'd list" where
  "chain_to S A d = chain_of S A (height_of S (the (header_at S A d))) d"

lemma length_chain_of [simp]: "length (chain_of S A n d) = Suc n"
  by (induction n arbitrary: d) auto

lemma chain_to_nonempty [simp]: "chain_to S A d \<noteq> []"
  by (metis chain_to_def length_chain_of length_0_conv nat.distinct(1))

lemma chain_to_last [simp]: "last (chain_to S A d) = d"
  unfolding chain_to_def by (cases "height_of S (the (header_at S A d))") auto

lemma length_chain_to: "header_at S A d = Some h \<Longrightarrow> length (chain_to S A d) = Suc (height_of S h)"
  by (simp add: chain_to_def)

lemma genesis_unique:
  assumes "wf_index S A" "header_at S A d = Some h"
  shows "height_of S h = 0 \<longleftrightarrow> d = hash_of S (genesis_block A)"
  using assms unfolding wf_index_def by (metis nat.distinct(1) option.inject)

lemma parent_stored:
  assumes "wf_index S A" "header_at S A d = Some h" "d \<noteq> hash_of S (genesis_block A)"
  obtains p where "header_at S A (prev_block_digest h) = Some p" "height_of S h = Suc (height_of S p)"
  using assms unfolding wf_index_def by metis

lemma chain_to_step:
  assumes "wf_index S A" "header_at S A d = Some h" "d \<noteq> hash_of S (genesis_block A)"
  shows "chain_to S A d = chain_to S A (prev_block_digest h) @ [d]"
proof -
  obtain p where "header_at S A (prev_block_digest h) = Some p" "height_of S h = Suc (height_of S p)"
    using parent_stored [OF assms] .
  then show ?thesis by (simp add: chain_to_def assms(2))
qed

lemma chain_to_genesis: "wf_index S A \<Longrightarrow> chain_to S A (hash_of S (genesis_block A)) = [hash_of S (genesis_block A)]"
  by (simp add: chain_to_def wf_index_def)

text \<open>Every block on a chain is stored at its height, and the chain to it is the beginning of the chain.\<close>

lemma chain_to_prefix:
  assumes "wf_index S A" "header_at S A d = Some h" "k \<le> height_of S h"
  shows "\<exists>p. header_at S A (chain_to S A d ! k) = Some p \<and> height_of S p = k \<and> chain_to S A (chain_to S A d ! k) = take (Suc k) (chain_to S A d)"
  using assms(2,3)
proof (induction "height_of S h" arbitrary: d h)
  case 0
  then have "d = hash_of S (genesis_block A)" using genesis_unique [OF assms(1)] by metis
  then show ?case using 0 chain_to_genesis [OF assms(1)] by auto
next
  case (Suc n)
  then have ne: "d \<noteq> hash_of S (genesis_block A)" using genesis_unique [OF assms(1)] by (metis nat.distinct(1))
  obtain p where p: "header_at S A (prev_block_digest h) = Some p" "height_of S h = Suc (height_of S p)"
    using parent_stored [OF assms(1) Suc.prems(1) ne] .
  have step: "chain_to S A d = chain_to S A (prev_block_digest h) @ [d]" by (rule chain_to_step [OF assms(1) Suc.prems(1) ne])
  have len: "length (chain_to S A (prev_block_digest h)) = height_of S h" using length_chain_to [OF p(1)] p(2) by simp
  show ?case
  proof (cases "k = height_of S h")
    case True
    then show ?thesis using Suc.prems(1) len by (auto simp: step nth_append)
  next
    case False
    then have "k \<le> height_of S p" using Suc.prems(2) p(2) by simp
    from Suc.hyps(1) [OF _ p(1) this] Suc.hyps(2) p(2) show ?thesis using len False Suc.prems(2) by (auto simp: step nth_append)
  qed
qed

lemma chain_to_distinct_heights:
  assumes "wf_index S A" "header_at S A d = Some h" "x \<in> set (chain_to S A d)"
  shows "\<exists>p. header_at S A x = Some p \<and> height_of S p \<le> height_of S h \<and> chain_to S A d ! height_of S p = x"
proof -
  obtain k where k: "k < length (chain_to S A d)" "chain_to S A d ! k = x" using assms(3) by (auto simp: in_set_conv_nth)
  then show ?thesis using chain_to_prefix [OF assms(1,2), of k] length_chain_to [OF assms(2)] by auto
qed

section \<open>Paths: lemmas\<close>

definition descent ::
  "('d, 'm, 'p, 'f, 'c, 's, 'v) archive_env \<Rightarrow> ('d, 'm, 'p, 'f, 'c, 's, 'v) archival_state \<Rightarrow> 'd \<Rightarrow> 'd list \<Rightarrow> ('d, 'f) block_header \<Rightarrow> bool" where
  "descent S A start xs h \<longleftrightarrow> xs \<noteq> [] \<and> header_at S A (last xs) = Some h \<and>
     chain_to S A start = chain_to S A (last xs) @ rev (butlast xs)"

lemma header_unwrap_stored: "wf_index S A \<Longrightarrow> header_at S A d = Some h \<Longrightarrow> header_unwrap S A d = Inr h"
  by (simp add: header_unwrap_def wf_index_def bind_res_def unwrap_def)

lemma descent_step:
  assumes "wf_index S A" "descent S A start xs h" "0 < height_of S h"
  obtains p where "descent S A start (xs @ [prev_block_digest h]) p" "height_of S h = Suc (height_of S p)"
    "header_unwrap S A (prev_block_digest h) = Inr p"
proof -
  have h: "header_at S A (last xs) = Some h" "xs \<noteq> []" using assms(2) by (simp_all add: descent_def)
  then have ne: "last xs \<noteq> hash_of S (genesis_block A)" using genesis_unique [OF assms(1) h(1)] assms(3) by auto
  obtain p where p: "header_at S A (prev_block_digest h) = Some p" "height_of S h = Suc (height_of S p)"
    using parent_stored [OF assms(1) h(1) ne] .
  have r: "[last xs] @ rev (butlast xs) = rev xs" using h(2) by (metis append_butlast_last_id rev_append rev_singleton_conv)
  have "chain_to S A start = chain_to S A (prev_block_digest h) @ [last xs] @ rev (butlast xs)"
    using assms(2) chain_to_step [OF assms(1) h(1) ne] by (simp add: descent_def)
  then have "descent S A start (xs @ [prev_block_digest h]) p" unfolding r using p(1) by (simp add: descent_def)
  then show thesis using that p header_unwrap_stored [OF assms(1) p(1)] by blast
qed

text \<open>The level loop extends one of the lists only.\<close>

definition one_sided :: "nat \<Rightarrow> nat \<Rightarrow> 'd list \<Rightarrow> 'd list \<Rightarrow> bool" where
  "one_sided l a leaving arriving \<longleftrightarrow> (l < a \<longrightarrow> butlast leaving = []) \<and> (a < l \<longrightarrow> butlast arriving = []) \<and>
     (butlast leaving = [] \<or> butlast arriving = [])"

context bfield_laws
begin

lemma height_eq_iff: "a = b \<longleftrightarrow> unat (height_value F a) = unat (height_value F b)"
  using height_eqI by (metis word_unat_eq_iff)

end

lemma level_loop_levels:
  assumes "bfield_laws (field_of S)" "wf_index S A" "descent S A start leaving lh" "descent S A stop arriving ah"
    and "one_sided (height_of S lh) (height_of S ah) leaving arriving" "height_of S lh + height_of S ah < n"
  shows "\<exists>leaving' arriving' lh' ah'. level_loop S A n leaving arriving lh ah = Inr (leaving', arriving') \<and>
    descent S A start leaving' lh' \<and> descent S A stop arriving' ah' \<and> height_of S lh' = height_of S ah' \<and>
    height_of S lh' \<le> height_of S lh \<and> (butlast leaving' = [] \<or> butlast arriving' = [])"
  using assms(3-6)
proof (induction n arbitrary: leaving arriving lh ah)
  case (Suc n)
  note eq = bfield_laws.height_eq_iff [OF assms(1)]
  consider "height_of S lh = height_of S ah" | "height_of S lh < height_of S ah" | "height_of S ah < height_of S lh" by linarith
  then show ?case
  proof cases
    case 1
    then have "height lh = height ah" using eq by blast
    then have "level_loop S A (Suc n) leaving arriving lh ah = Inr (leaving, arriving)" by simp
    then show ?thesis using 1 Suc.prems(1,2,3) unfolding one_sided_def by blast
  next
    case 2
    then have ne: "height lh \<noteq> height ah" "\<not> height_le (field_of S) (height ah) (height lh)"
      by (auto simp: height_le_def height_value_def word_le_nat_alt)
    have "0 < height_of S ah" using 2 by simp
    from descent_step [OF assms(2) Suc.prems(2) this] obtain p where
      p: "descent S A stop (arriving @ [prev_block_digest ah]) p" "height_of S ah = Suc (height_of S p)"
        "header_unwrap S A (prev_block_digest ah) = Inr p" .
    have "one_sided (height_of S lh) (height_of S p) leaving (arriving @ [prev_block_digest ah])"
      using Suc.prems(3) 2 p(2) by (auto simp: one_sided_def)
    moreover have "height_of S lh + height_of S p < n" using Suc.prems(4) p(2) by simp
    ultimately show ?thesis using Suc.IH [OF Suc.prems(1) p(1)] ne p(3) by (simp add: bind_res_def)
  next
    case 3
    then have ne: "height lh \<noteq> height ah" "height_le (field_of S) (height ah) (height lh)"
      by (auto simp: height_le_def height_value_def word_le_nat_alt)
    have "0 < height_of S lh" using 3 by simp
    from descent_step [OF assms(2) Suc.prems(1) this] obtain p where
      p: "descent S A start (leaving @ [prev_block_digest lh]) p" "height_of S lh = Suc (height_of S p)"
        "header_unwrap S A (prev_block_digest lh) = Inr p" .
    have "one_sided (height_of S p) (height_of S ah) (leaving @ [prev_block_digest lh]) arriving"
      using Suc.prems(3) 3 p(2) by (auto simp: one_sided_def)
    moreover have "height_of S p + height_of S ah < n" using Suc.prems(4) p(2) by simp
    ultimately show ?thesis using Suc.IH [OF p(1) Suc.prems(2)] ne p by (fastforce simp: bind_res_def)
  qed
qed simp

lemma meet_loop_meets:
  assumes "wf_index S A" "descent S A start leaving lh" "descent S A stop arriving ah" "height_of S lh = height_of S ah"
    and "butlast leaving = [] \<or> butlast arriving = [] \<or> last (butlast leaving) \<noteq> last (butlast arriving)" "height_of S lh < n"
  shows "\<exists>leaving' arriving' h. meet_loop S A n leaving arriving = Inr (leaving', arriving') \<and>
    descent S A start leaving' h \<and> descent S A stop arriving' h \<and> last leaving' = last arriving' \<and>
    (butlast leaving' = [] \<or> butlast arriving' = [] \<or> last (butlast leaving') \<noteq> last (butlast arriving'))"
  using assms(2-6)
proof (induction n arbitrary: leaving arriving lh ah)
  case (Suc n)
  have ne: "leaving \<noteq> []" "arriving \<noteq> []" and st: "header_at S A (last leaving) = Some lh" "header_at S A (last arriving) = Some ah"
    using Suc.prems(1,2) by (simp_all add: descent_def)
  show ?case
  proof (cases "last leaving = last arriving")
    case True
    then have "lh = ah" using st by simp
    then show ?thesis using True Suc.prems ne by (auto simp: last_unwrap_def bind_res_def)
  next
    case False
    have "0 < height_of S lh"
      using False genesis_unique [OF assms(1) st(1)] genesis_unique [OF assms(1) st(2)] Suc.prems(3) by (metis gr0I)
    from descent_step [OF assms(1) Suc.prems(1) this] obtain p where
      p: "descent S A start (leaving @ [prev_block_digest lh]) p" "height_of S lh = Suc (height_of S p)" by metis
    have "0 < height_of S ah" using p(2) Suc.prems(3) by simp
    from descent_step [OF assms(1) Suc.prems(2) this] obtain q where
      q: "descent S A stop (arriving @ [prev_block_digest ah]) q" "height_of S ah = Suc (height_of S q)" by metis
    have "height_of S p = height_of S q" "height_of S p < n" using p(2) q(2) Suc.prems(3,5) by simp_all
    from Suc.IH [OF p(1) q(1) this(1) _ this(2)] show ?thesis
      using False ne header_unwrap_stored [OF assms(1) st(1)] header_unwrap_stored [OF assms(1) st(2)]
      by (simp add: last_unwrap_def bind_res_def)
  qed
qed simp

lemma find_path_chains:
  assumes "bfield_laws (field_of S)" "wf_index S A" "header_at S A start = Some hs" "header_at S A stop = Some ht"
  shows "\<exists>leaving luca arriving. find_path S A start stop = Inr (leaving, luca, arriving) \<and> header_at S A luca \<noteq> None \<and>
    chain_to S A start = chain_to S A luca @ rev leaving \<and> chain_to S A stop = chain_to S A luca @ arriving \<and>
    (leaving = [] \<or> arriving = [] \<or> last leaving \<noteq> hd arriving)"
proof -
  let ?n = "Suc (height_of S hs + height_of S ht)"
  have d: "descent S A start [start] hs" "descent S A stop [stop] ht" using assms(3,4) by (simp_all add: descent_def)
  have "one_sided (height_of S hs) (height_of S ht) [start] [stop]" by (simp add: one_sided_def)
  from level_loop_levels [OF assms(1,2) d this lessI] obtain l1 a1 h1 k1 where
    l1: "level_loop S A ?n [start] [stop] hs ht = Inr (l1, a1)" "descent S A start l1 h1" "descent S A stop a1 k1"
      "height_of S h1 = height_of S k1" "height_of S h1 \<le> height_of S hs" "butlast l1 = [] \<or> butlast a1 = []" by blast
  have "height_of S h1 < ?n" using l1(5) by simp
  from meet_loop_meets [OF assms(2) l1(2-4) _ this] l1(6) obtain l2 a2 h where
    l2: "meet_loop S A ?n l1 a1 = Inr (l2, a2)" "descent S A start l2 h" "descent S A stop a2 h" "last l2 = last a2"
      "butlast l2 = [] \<or> butlast a2 = [] \<or> last (butlast l2) \<noteq> last (butlast a2)" by blast
  have "find_path S A start stop = Inr (butlast l2, last l2, rev (butlast a2))"
    using header_unwrap_stored [OF assms(2,3)] header_unwrap_stored [OF assms(2,4)] l1(1) l2(1,2)
    by (simp add: find_path_def bind_res_def last_unwrap_def descent_def Let_def del: level_loop.simps meet_loop.simps)
  then show ?thesis using l2(2-5) by (auto simp: descent_def hd_rev)
qed

section \<open>The canonical chain\<close>

locale archive_laws = archival_mmr repr "ae_vec S" "ae_index S" "env_crypto (ae_env S)" + fld: bfield_laws "env_field (ae_env S)"
  for repr :: "'v \<Rightarrow> 'd list \<Rightarrow> bool" and S :: "('d, 'm, 'p, 'f, 'c, 's, 'v) archive_env" +
  assumes deserialize: "serialize_block S b = Some bytes \<Longrightarrow> bytes \<noteq> [] \<and> deserialize_block S bytes = Some b"
begin

lemma remove_leafs_repr:
  assumes "ammr_repr a xs" "length ds \<le> length xs"
  shows "\<exists>a'. remove_leafs S ds a = Inr a' \<and> ammr_repr a' (take (length xs - length ds) xs)"
  using assms
proof (induction ds arbitrary: a xs)
  case (Cons d ds)
  obtain a1 r where a1: "remove_last_leaf (ae_vec S) (ae_index S) a = Inr (a1, r)" "ammr_repr a1 (butlast xs)"
    using remove_last_leaf_repr [OF Cons.prems(1)] by auto
  have "length ds \<le> length (butlast xs)" using Cons.prems(2) by simp
  from Cons.IH [OF a1(2) this] show ?case using a1(1) Cons.prems(2) by (auto simp: bind_res_def take_butlast)
qed simp

lemma append_leafs_repr:
  assumes "ammr_repr a xs" "length xs + length ds < 2 ^ 61"
  shows "\<exists>a'. append_leafs S ds a = Inr a' \<and> ammr_repr a' (xs @ ds)"
  using assms
proof (induction ds arbitrary: a xs)
  case (Cons d ds)
  have "length xs + 1 < 2 ^ 61" using Cons.prems(2) by simp
  from append_repr [OF Cons.prems(1) this, of d] obtain a1 path where
    a1: "ammr_append (ae_vec S) (ae_index S) (crypto_of S) a d = Inr (a1, path)" "ammr_repr a1 (xs @ [d])" by blast
  have "length (xs @ [d]) + length ds < 2 ^ 61" using Cons.prems(2) by simp
  from Cons.IH [OF a1(2) this] show ?case using a1(1) by (auto simp: bind_res_def)
qed simp

lemma height_bound: "wf_index S A \<Longrightarrow> header_at S A d = Some h \<Longrightarrow> height_of S h < 2 ^ 60"
  by (auto simp: wf_index_def)

text \<open>Switching the leafs from one chain to another.\<close>

lemma switch_chain:
  assumes "wf_index S A" "ammr_repr a (chain_to S A d)" "header_at S A d = Some h" "header_at S A d' = Some h'"
  shows "\<exists>a'. (if d' \<noteq> d then bind_res (find_path S A d d') (\<lambda>(backwards, _, forwards).
      bind_res (remove_leafs S backwards a) (append_leafs S forwards)) else Inr a) = Inr a' \<and> ammr_repr a' (chain_to S A d')"
proof (cases "d' = d")
  case False
  obtain bw luca fw where path: "find_path S A d d' = Inr (bw, luca, fw)"
      "chain_to S A d = chain_to S A luca @ rev bw" "chain_to S A d' = chain_to S A luca @ fw"
    using find_path_chains [OF fld.bfield_laws_axioms assms(1,3,4)] by blast
  have "length bw \<le> length (chain_to S A d)" by (simp add: path(2))
  from remove_leafs_repr [OF assms(2) this] obtain a1 where
    a1: "remove_leafs S bw a = Inr a1" "ammr_repr a1 (chain_to S A luca)" by (auto simp: path(2))
  have "length (chain_to S A d') < 2 ^ 61"
    using length_chain_to [OF assms(4)] height_bound [OF assms(1,4)] by simp
  then have "length (chain_to S A luca) + length fw < 2 ^ 61" by (simp add: path(3))
  from append_leafs_repr [OF a1(2) this] show ?thesis using False path(1,3) a1(1) by (auto simp: bind_res_def)
qed (use assms(2) in simp)

lemma append_canonical:
  assumes wf: "wf_index S A" and tip: "header_at S A tip = Some th" "ammr_repr (archival_block_mmr A) (chain_to S A tip)"
    and parent: "header_at S A (prev_block_digest (header b)) = Some ph" "height_of S (header b) = Suc (height_of S ph)"
  shows "\<exists>a. append_to_archival_block_mmr S A b = Inr (A\<lparr>archival_block_mmr := a\<rparr>) \<and>
    ammr_repr a (chain_to S A (prev_block_digest (header b)) @ [hash_of S b])"
proof -
  let ?V = "ae_vec S" and ?X = "ae_index S" and ?C = "crypto_of S" and ?p = "prev_block_digest (header b)"
  let ?n = "height_of S (header b)" and ?c = "chain_to S A tip"
  have small: "?n < 2 ^ 61" using height_bound [OF wf parent(1)] parent(2) by simp
  have ng: "\<not> is_genesis (field_of S) (height (header b))" using fld.is_genesis_iff parent(2) by auto
  obtain a1 where a1: "prune_to_num_leafs ?V ?X (archival_block_mmr A) (height_value (field_of S) (height (header b))) = Inr a1"
      "ammr_repr a1 (take ?n ?c)" using prune_repr [OF tip(2)] small by blast
  let ?t = "last (take ?n ?c)" and ?k = "min ?n (length ?c) - 1"
  have k: "?k \<le> height_of S th" "Suc ?k = min ?n (length ?c)" using length_chain_to [OF tip(1)] parent(2) by auto
  have ne: "take ?n ?c \<noteq> []" using parent(2) by simp
  have t: "?t = ?c ! ?k" using ne by (simp add: last_conv_nth nth_take min_def)
  obtain q where q: "header_at S A ?t = Some q" "chain_to S A ?t = take ?n ?c"
    using chain_to_prefix [OF wf tip(1) k(1)] k(2) t by (auto simp: min_def split: if_splits)
  obtain a2 where a2: "(if ?p \<noteq> ?t then bind_res (find_path S A ?t ?p) (\<lambda>(backwards, _, forwards).
      bind_res (remove_leafs S backwards a1) (append_leafs S forwards)) else Inr a1) = Inr a2" "ammr_repr a2 (chain_to S A ?p)"
    using switch_chain [OF wf _ q(1) parent(1), of a1] a1(2) q(2) by metis
  have "length (chain_to S A ?p) + 1 < 2 ^ 61" using length_chain_to [OF parent(1)] height_bound [OF wf parent(1)] by simp
  from append_repr [OF a2(2) this, of "hash_of S b"] obtain a3 path where
    a3: "ammr_append ?V ?X ?C a2 (hash_of S b) = Inr (a3, path)" "ammr_repr a3 (chain_to S A ?p @ [hash_of S b])" by blast
  have "append_to_archival_block_mmr S A b = Inr (A\<lparr>archival_block_mmr := a3\<rparr>)"
    using ng a1(1) latest_leaf_repr [OF a1(2)] ne a2(1) latest_leaf_repr [OF a2(2)] a3(1)
    by (simp only: append_to_archival_block_mmr_def Let_def if_False bind_res_def [of "Inr _"] sum.case unwrap_def option.case
        chain_to_nonempty chain_to_last assert_then_def simp_thms if_True prod.case)
  then show ?thesis using a3(2) by blast
qed

lemma append_genesis:
  assumes wf: "wf_index S A" and tip: "header_at S A tip = Some th" "ammr_repr (archival_block_mmr A) (chain_to S A tip)"
    and b: "height_of S (header b) = 0" "hash_of S b = hash_of S (genesis_block A)"
  shows "\<exists>a. append_to_archival_block_mmr S A b = Inr (A\<lparr>archival_block_mmr := a\<rparr>) \<and> ammr_repr a [hash_of S b]"
proof -
  let ?c = "chain_to S A tip"
  obtain p where p: "header_at S A (?c ! 0) = Some p" "height_of S p = 0" "chain_to S A (?c ! 0) = take 1 ?c"
    using chain_to_prefix [OF wf tip(1), of 0] by auto
  then have c0: "?c ! 0 = hash_of S b" using genesis_unique [OF wf] b(2) by metis
  have leaf: "try_get_leaf (ae_vec S) (ae_index S) (archival_block_mmr A) 0 = Inr (Some (hash_of S b))"
    using try_get_leaf_repr [OF tip(2), of 0] c0 by simp
  obtain a where a: "prune_to_num_leafs (ae_vec S) (ae_index S) (archival_block_mmr A) 1 = Inr a" "ammr_repr a (take 1 ?c)"
    using prune_repr [OF tip(2), of 1] by auto
  have "is_genesis (field_of S) (height (header b))" using fld.is_genesis_iff b(1) by (metis unat_eq_0)
  moreover have "take 1 ?c = [hash_of S b]" using c0 by (metis chain_to_nonempty hd_conv_nth take_Suc take0 One_nat_def)
  ultimately show ?thesis using leaf a b(2) by (auto simp: append_to_archival_block_mmr_def Let_def assert_then_def bind_res_def)
qed

text \<open>Queries of the canonical chain.\<close>

lemma belongs_iff:
  assumes "wf_index S A" "header_at S A tip = Some th" "ammr_repr (archival_block_mmr A) (chain_to S A tip)"
  shows "block_belongs_to_canonical_chain S A d = Inr (d \<in> set (chain_to S A tip))"
proof (cases "header_at S A d")
  case None
  then have "d \<notin> set (chain_to S A tip)" using chain_to_distinct_heights [OF assms(1,2), of d] by auto
  then show ?thesis using None assms(1) by (simp add: block_belongs_to_canonical_chain_def wf_index_def bind_res_def)
next
  case (Some h)
  have "d \<in> set (chain_to S A tip) \<longleftrightarrow> height_of S h < length (chain_to S A tip) \<and> chain_to S A tip ! height_of S h = d"
    using chain_to_distinct_heights [OF assms(1,2)] Some length_chain_to [OF assms(2)] by (metis le_imp_less_Suc nth_mem option.inject)
  then show ?thesis using Some assms(1) try_get_leaf_repr [OF assms(3)]
    by (simp add: block_belongs_to_canonical_chain_def wf_index_def bind_res_def)
qed

end

section \<open>Stored blocks\<close>

abbreviation last_file_of :: "('d, 'm, 'p, 'f, 'c, 's, 'v) archival_state \<Rightarrow> u32" where
  "last_file_of A \<equiv> (case block_index_db A KeyLastFile of Some (ValueLastFile r) \<Rightarrow> last_file r | _ \<Rightarrow> 0)"

text \<open>Every key holds a value of its kind; a record under a block digest points to the bytes of the block with that digest,
  inside its file; files after the last file are empty, and so are files without a record.\<close>

definition wf_store ::
  "('d, 'm, 'p, 'f, 'c, 's, 'v) archive_env \<Rightarrow> ('d, 'm, 'p, 'f, 'c, 's, 'v) archival_state \<Rightarrow> bool" where
  "wf_store S A \<longleftrightarrow>
     (\<forall>d v. block_index_db A (KeyBlock d) = Some v \<longrightarrow> (\<exists>r b contents. v = ValueBlock r \<and> br_header r = header b \<and> hash_of S b = d \<and>
        br_witness r = witness_of_block (ae_env S) b \<and>
        block_files A (file_index (br_location r)) = Some contents \<and>
        unat (file_offset (br_location r)) + unat (block_length (br_location r)) \<le> length contents \<and>
        deserialize_block S (take (unat (block_length (br_location r))) (drop (unat (file_offset (br_location r))) contents)) = Some b)) \<and>
     (\<forall>n v. block_index_db A (KeyFile n) = Some v \<longrightarrow> (\<exists>r. v = ValueFile r)) \<and>
     (\<forall>h v. block_index_db A (KeyHeight h) = Some v \<longrightarrow> (\<exists>ds. v = ValueHeight ds)) \<and>
     (\<forall>v. block_index_db A KeyLastFile = Some v \<longrightarrow> (\<exists>r. v = ValueLastFile r)) \<and>
     (\<forall>v. block_index_db A KeyBlockTipDigest = Some v \<longrightarrow> (\<exists>d. v = ValueBlockTipDigest d)) \<and>
     (\<forall>n. block_index_db A (KeyFile n) = None \<longrightarrow> open_block_file A n = []) \<and>
     (\<forall>n. last_file_of A < n \<longrightarrow> open_block_file A n = []) \<and>
     (\<forall>n. length (open_block_file A n) < 2 ^ 62)"

lemma get_block_from_record:
  assumes "block_files A (file_index (br_location r)) = Some contents" "length contents < 2 ^ 62"
    and "unat (file_offset (br_location r)) + unat (block_length (br_location r)) \<le> length contents"
    and "deserialize_block S (take (unat (block_length (br_location r))) (drop (unat (file_offset (br_location r))) contents)) = Some b"
  shows "get_block_from_block_record S A r = Inr b"
proof -
  have "unat (saturating_add_w (file_offset (br_location r)) (block_length (br_location r))) =
      unat (file_offset (br_location r)) + unat (block_length (br_location r))"
    using assms(2,3) by (auto simp: saturating_add_w_def unat_word_ariths)
  moreover have "unat (of_nat (length contents) :: u64) = length contents" using assms(2) by (intro unat_of_nat_u64) simp
  ultimately show ?thesis
    using assms by (simp add: get_block_from_block_record_def word_less_nat_alt Let_def)
qed

lemma stored_record:
  assumes "wf_store S A" "block_index_db A (KeyBlock d) = Some v"
  obtains r b where "v = ValueBlock r" "br_header r = header b" "hash_of S b = d" "get_block_from_block_record S A r = Inr b"
proof -
  obtain r b contents where r: "v = ValueBlock r" "br_header r = header b" "hash_of S b = d"
      "block_files A (file_index (br_location r)) = Some contents"
      "unat (file_offset (br_location r)) + unat (block_length (br_location r)) \<le> length contents"
      "deserialize_block S (take (unat (block_length (br_location r))) (drop (unat (file_offset (br_location r))) contents)) = Some b"
    using assms unfolding wf_store_def by meson
  have "length (open_block_file A (file_index (br_location r))) < 2 ^ 62" using assms(1) unfolding wf_store_def by blast
  then have "length contents < 2 ^ 62" by (simp add: open_block_file_def r(4))
  from get_block_from_record [OF r(4) this r(5,6)] show thesis using that r(1-3) by blast
qed

lemma get_block_stored:
  assumes "wf_store S A"
  shows "\<exists>b. get_block S A d = Inr (Inr b) \<and> get_block_header S A d = Inr (map_option header b) \<and>
    header_at S A d = map_option header b \<and> (\<forall>b'. b = Some b' \<longrightarrow> hash_of S b' = d)"
proof (cases "block_index_db A (KeyBlock d)")
  case None
  then show ?thesis
    by (auto simp: get_block_def get_block_record_def get_block_header_def header_at_def map_get_res_def bind_res_def)
next
  case (Some v)
  from stored_record [OF assms Some] obtain r b where "v = ValueBlock r" "br_header r = header b" "hash_of S b = d"
    "get_block_from_block_record S A r = Inr b" .
  then show ?thesis using Some
    by (auto simp: get_block_def get_block_record_def get_block_header_def header_at_def map_get_res_def bind_res_def)
qed

text \<open>The file that a block goes to, and the archive after storing it.\<close>

definition target_file :: "('d, 'm, 'p, 'f, 'c, 's, 'v) archival_state \<Rightarrow> u8 list \<Rightarrow> u32" where
  "target_file A bytes = (if new_block_file_is_needed (open_block_file A (last_file_of A)) (of_nat (length bytes))
     then last_file_of A + 1 else last_file_of A)"

definition new_record ::
  "('d, 'm, 'p, 'f, 'c, 's, 'v) archive_env \<Rightarrow> ('d, 'm, 'p, 'f, 'c, 's, 'v) archival_state \<Rightarrow> ('d, 'm, 'p, 'f, 'c, 's) block \<Rightarrow> u8 list
     \<Rightarrow> ('d, 'f) block_record" where
  "new_record S A b bytes = \<lparr>br_header = header b, br_location = \<lparr>file_index = target_file A bytes,
     file_offset = of_nat (length (open_block_file A (target_file A bytes))), block_length = of_nat (length bytes)\<rparr>,
     br_witness = witness_of_block (ae_env S) b\<rparr>"

definition files_after :: "('d, 'm, 'p, 'f, 'c, 's, 'v) archival_state \<Rightarrow> u8 list \<Rightarrow> (u32 \<rightharpoonup> u8 list)" where
  "files_after A bytes = (block_files A)(last_file_of A \<mapsto> open_block_file A (last_file_of A),
     target_file A bytes \<mapsto> open_block_file A (target_file A bytes) @ bytes)"

lemma store_block_result:
  assumes wf: "wf_store S A" and b: "block_mutator_set_update (ae_env S) b = Inr (Inr u)" "serialize_block S b = Some bytes"
    and bytes: "bytes \<noteq> []"
  shows "\<exists>fr ds. store_block S A b = Inr (Inr
    ([(KeyFile (target_file A bytes), ValueFile fr), (KeyBlock (hash_of S b), ValueBlock (new_record S A b bytes)),
      (KeyLastFile, ValueLastFile (LastFileRecord (target_file A bytes))), (KeyHeight (height (header b)), ValueHeight ds)],
     A\<lparr>block_files := files_after A bytes\<rparr>))"
proof -
  obtain x where last: "map_get_res as_last_file_record (block_index_db A KeyLastFile) = Inr x"
      and lf: "(case x of None \<Rightarrow> LastFileRecord 0 | Some r \<Rightarrow> r) = LastFileRecord (last_file_of A)"
    using wf unfolding wf_store_def map_get_res_def by (cases "block_index_db A KeyLastFile") (auto simp: bind_res_def)
  define L where "L = last_file_of A"
  obtain ds where ds: "map_get_res as_height_record (block_index_db A (KeyHeight (height (header b)))) = Inr ds"
    using wf unfolding wf_store_def map_get_res_def
    by (cases "block_index_db A (KeyHeight (height (header b)))") (fastforce simp: bind_res_def)+
  let ?n = "target_file A bytes" and ?A = "A\<lparr>block_files := (block_files A)(last_file_of A \<mapsto> open_block_file A (last_file_of A))\<rparr>"
  have op: "open_block_file ?A n = open_block_file A n" for n by (simp add: open_block_file_def)
  obtain fr where fr: "bind_res (map_get_res as_file_record (block_index_db A (KeyFile ?n))) (\<lambda>r. case r of
      Some record \<Rightarrow> Inr (file_record_add (field_of S) record (of_nat (length bytes)) (header b))
    | None \<Rightarrow> assert_then (open_block_file A ?n = []) (Inr (file_record_new (of_nat (length bytes)) (header b)))) = Inr fr"
    using wf unfolding wf_store_def map_get_res_def
    by (cases "block_index_db A (KeyFile ?n)") (fastforce simp: bind_res_def assert_then_def)+
  obtain r where r: "map_get_res as_file_record (block_index_db A (KeyFile ?n)) = Inr r"
      "(case r of Some record \<Rightarrow> Inr (file_record_add (field_of S) record (of_nat (length bytes)) (header b))
        | None \<Rightarrow> assert_then (open_block_file A ?n = []) (Inr (file_record_new (of_nat (length bytes)) (header b)))) = Inr fr"
    using fr by (auto simp: bind_res_Inr)
  have w: "write_at_end (open_block_file A ?n) bytes = Inr (open_block_file A ?n @ bytes)" using bytes by (simp add: write_at_end_def)
  have "store_block S A b = Inr (Inr
    ([(KeyFile ?n, ValueFile fr), (KeyBlock (hash_of S b), ValueBlock (new_record S A b bytes)),
      (KeyLastFile, ValueLastFile (LastFileRecord ?n)),
      (KeyHeight (height (header b)), ValueHeight ((case ds of None \<Rightarrow> [] | Some ds \<Rightarrow> ds) @ [hash_of S b]))],
     A\<lparr>block_files := files_after A bytes\<rparr>))"
  proof (cases "new_block_file_is_needed (open_block_file A (last_file_of A)) (of_nat (length bytes))")
    case True
    then have tf: "?n = last_file_of A + 1" by (simp add: target_file_def)
    show ?thesis using r w True op lf unfolding tf L_def [symmetric]
      by (cases r) (simp_all add: store_block_def b reject_if_def last bind_res_def Let_def assert_then_def files_after_def new_record_def tf ds L_def [symmetric])
  next
    case False
    then have tf: "?n = last_file_of A" by (simp add: target_file_def)
    show ?thesis using r w False op lf unfolding tf L_def [symmetric]
      by (cases r) (simp_all add: store_block_def b reject_if_def last bind_res_def Let_def assert_then_def files_after_def new_record_def tf ds L_def [symmetric])
  qed
  then show ?thesis by blast
qed

lemma open_files_after:
  "open_block_file (A\<lparr>block_files := files_after A bytes, block_index_db := db\<rparr>) n =
     open_block_file A n @ (if n = target_file A bytes then bytes else [])"
  by (auto simp: open_block_file_def files_after_def)

lemma slice_after:
  assumes "block_files A n = Some contents" "off + len \<le> length contents"
  shows "\<exists>contents'. files_after A bytes n = Some contents' \<and> off + len \<le> length contents' \<and>
    take len (drop off contents') = take len (drop off contents)"
proof -
  have "files_after A bytes n = Some (contents @ (if n = target_file A bytes then bytes else []))"
    using assms(1) by (auto simp: files_after_def open_block_file_def)
  then show ?thesis using assms(2) by auto
qed

lemma target_file_bounds:
  assumes "wf_store S A" "length bytes < 2 ^ 61" "last_file_of A \<noteq> - 1"
  shows "last_file_of A \<le> target_file A bytes \<and> length (open_block_file A (target_file A bytes)) + length bytes < 2 ^ 62"
proof (cases "new_block_file_is_needed (open_block_file A (last_file_of A)) (of_nat (length bytes))")
  case True
  then have t: "target_file A bytes = last_file_of A + 1" by (simp add: target_file_def)
  have "1 + last_file_of A \<noteq> 0" using assms(3) by (metis add.commute eq_neg_iff_add_eq_0)
  then have "last_file_of A < last_file_of A + 1" using unatSuc [of "last_file_of A"] by (simp add: word_less_nat_alt add.commute)
  moreover from this have "open_block_file A (last_file_of A + 1) = []" using assms(1) unfolding wf_store_def by blast
  ultimately show ?thesis using assms(2) unfolding t by simp
next
  case False
  then have t: "target_file A bytes = last_file_of A" by (simp add: target_file_def)
  let ?c = "open_block_file A (last_file_of A)"
  have c: "length ?c < 2 ^ 62" using assms(1) unfolding wf_store_def by blast
  have "unat (of_nat (length ?c) + of_nat (length bytes) :: u64) = length ?c + length bytes"
    using c assms(2) unat_of_nat_u64 [of "length ?c + length bytes"] by simp
  then have "length ?c + length bytes \<le> 134217728"
    using False by (simp add: new_block_file_is_needed_def MAX_BLOCK_FILE_SIZE_def word_less_nat_alt not_less)
  then show ?thesis unfolding t by simp
qed

definition index_after ::
  "('d, 'm, 'p, 'f, 'c, 's, 'v) archive_env \<Rightarrow> ('d, 'm, 'p, 'f, 'c, 's, 'v) archival_state \<Rightarrow> ('d, 'm, 'p, 'f, 'c, 's) block \<Rightarrow> u8 list
     \<Rightarrow> 'f file_record \<Rightarrow> 'd list \<Rightarrow> bool \<Rightarrow> ('d, 'f) block_index_key \<rightharpoonup> ('d, 'f) block_index_value" where
  "index_after S A b bytes fr ds tip = (\<lambda>k. case k of
      KeyFile n \<Rightarrow> if n = target_file A bytes then Some (ValueFile fr) else block_index_db A (KeyFile n)
    | KeyBlock d \<Rightarrow> if d = hash_of S b then Some (ValueBlock (new_record S A b bytes)) else block_index_db A (KeyBlock d)
    | KeyLastFile \<Rightarrow> Some (ValueLastFile (LastFileRecord (target_file A bytes)))
    | KeyHeight h \<Rightarrow> if h = height (header b) then Some (ValueHeight ds) else block_index_db A (KeyHeight h)
    | KeyBlockTipDigest \<Rightarrow> if tip then Some (ValueBlockTipDigest (hash_of S b)) else block_index_db A KeyBlockTipDigest)"

lemma batch_write_index:
  "batch_write (block_index_db A) ([(KeyFile (target_file A bytes), ValueFile fr), (KeyBlock (hash_of S b), ValueBlock (new_record S A b bytes)),
      (KeyLastFile, ValueLastFile (LastFileRecord (target_file A bytes))), (KeyHeight (height (header b)), ValueHeight ds)] @
      (if tip then [(KeyBlockTipDigest, ValueBlockTipDigest (hash_of S b))] else [])) = index_after S A b bytes fr ds tip"
  by (rule ext) (auto simp: batch_write_def index_after_def split: block_index_key.splits)

lemma wf_store_after:
  assumes wf: "wf_store S A" and b: "deserialize_block S bytes = Some b"
    and size: "length bytes < 2 ^ 61" "last_file_of A \<noteq> - 1"
  shows "wf_store S (A\<lparr>block_files := files_after A bytes, block_index_db := index_after S A b bytes fr ds tip\<rparr>)" (is "wf_store S ?A")
proof -
  let ?t = "target_file A bytes"
  have bounds: "last_file_of A \<le> ?t" "length (open_block_file A ?t) + length bytes < 2 ^ 62"
    using target_file_bounds [OF wf size] by simp_all
  have last: "last_file_of ?A = ?t" by (simp add: index_after_def)
  have lens: "\<forall>n. length (open_block_file ?A n) < 2 ^ 62"
    using wf bounds(2) unfolding open_files_after wf_store_def by (auto split: if_splits)
  have empty: "\<forall>n. last_file_of ?A < n \<longrightarrow> open_block_file ?A n = []"
  proof (intro allI impI)
    fix n assume n: "last_file_of ?A < n"
    then have "last_file_of A < n" "n \<noteq> ?t" using bounds(1) unfolding last by auto
    then show "open_block_file ?A n = []" using wf unfolding open_files_after wf_store_def by simp
  qed
  have unrec: "\<forall>n. block_index_db ?A (KeyFile n) = None \<longrightarrow> open_block_file ?A n = []"
    using wf unfolding open_files_after wf_store_def by (simp add: index_after_def)
  have "\<exists>r b' contents. v = ValueBlock r \<and> br_header r = header b' \<and> hash_of S b' = d \<and> br_witness r = witness_of_block (ae_env S) b' \<and>
        block_files ?A (file_index (br_location r)) = Some contents \<and>
        unat (file_offset (br_location r)) + unat (block_length (br_location r)) \<le> length contents \<and>
        deserialize_block S (take (unat (block_length (br_location r))) (drop (unat (file_offset (br_location r))) contents)) = Some b'"
    if v: "block_index_db ?A (KeyBlock d) = Some v" for d v
  proof (cases "d = hash_of S b")
    case True
    have u: "unat (of_nat (length bytes) :: u64) = length bytes"
      "unat (of_nat (length (open_block_file A ?t)) :: u64) = length (open_block_file A ?t)"
      using bounds(2) size(1) by (auto intro!: unat_of_nat_u64)
    have "block_files ?A ?t = Some (open_block_file A ?t @ bytes)" by (simp add: files_after_def)
    then show ?thesis using v True b u
      by (intro exI [of _ "new_record S A b bytes"] exI [of _ b]) (auto simp: index_after_def new_record_def)
  next
    case False
    then have "block_index_db A (KeyBlock d) = Some v" using v by (simp add: index_after_def)
    then obtain r b' contents where r: "v = ValueBlock r" "br_header r = header b'" "hash_of S b' = d" "br_witness r = witness_of_block (ae_env S) b'"
        "block_files A (file_index (br_location r)) = Some contents"
        "unat (file_offset (br_location r)) + unat (block_length (br_location r)) \<le> length contents"
        "deserialize_block S (take (unat (block_length (br_location r))) (drop (unat (file_offset (br_location r))) contents)) = Some b'"
      using wf unfolding wf_store_def by meson
    then show ?thesis using slice_after [OF r(5,6), of bytes] by auto
  qed
  moreover have "\<forall>n v. block_index_db ?A (KeyFile n) = Some v \<longrightarrow> (\<exists>r. v = ValueFile r)"
    "\<forall>h v. block_index_db ?A (KeyHeight h) = Some v \<longrightarrow> (\<exists>ds. v = ValueHeight ds)"
    "\<forall>v. block_index_db ?A KeyLastFile = Some v \<longrightarrow> (\<exists>r. v = ValueLastFile r)"
    "\<forall>v. block_index_db ?A KeyBlockTipDigest = Some v \<longrightarrow> (\<exists>d. v = ValueBlockTipDigest d)"
    using wf unfolding wf_store_def by (auto simp: index_after_def split: if_splits)
  ultimately show ?thesis using lens empty unrec unfolding wf_store_def by blast
qed

section \<open>Archives\<close>

text \<open>An archive with the tip \<open>tip\<close>: index and files are well-formed, the database names the tip, and the leafs of the range
  are the chain to the tip.\<close>

definition wf_archive ::
  "('v \<Rightarrow> 'd list \<Rightarrow> bool) \<Rightarrow> ('d, 'm, 'p, 'f, 'c, 's, 'v) archive_env \<Rightarrow> ('d, 'm, 'p, 'f, 'c, 's, 'v) archival_state \<Rightarrow> 'd \<Rightarrow> bool" where
  "wf_archive repr S A tip \<longleftrightarrow> wf_index S A \<and> wf_store S A \<and> header_at S A tip \<noteq> None \<and>
     (case block_index_db A KeyBlockTipDigest of None \<Rightarrow> tip = hash_of S (genesis_block A) | Some v \<Rightarrow> v = ValueBlockTipDigest tip) \<and>
     archival_mmr.ammr_repr repr (crypto_of S) (archival_block_mmr A) (chain_to S A tip)"

lemma get_block_header_cong:
  assumes "block_index_db A' (KeyBlock d) = block_index_db A (KeyBlock d)" "genesis_block A' = genesis_block A"
  shows "get_block_header S A' d = get_block_header S A d"
  unfolding get_block_header_def assms ..

lemma get_block_header_mmr [simp]: "get_block_header S (A\<lparr>archival_block_mmr := a\<rparr>) d = get_block_header S A d"
  by (rule get_block_header_cong) simp_all

lemma header_at_mmr [simp]: "header_at S (A\<lparr>archival_block_mmr := a\<rparr>) d = header_at S A d"
  by (simp add: header_at_def)

lemma chain_to_mmr [simp]: "chain_to S (A\<lparr>archival_block_mmr := a\<rparr>) d = chain_to S A d"
proof -
  have "chain_of S (A\<lparr>archival_block_mmr := a\<rparr>) n d = chain_of S A n d" for n by (induction n arbitrary: d) auto
  then show ?thesis by (simp add: chain_to_def)
qed

lemma wf_mmr [simp]:
  "wf_index S (A\<lparr>archival_block_mmr := a\<rparr>) \<longleftrightarrow> wf_index S A" "wf_store S (A\<lparr>archival_block_mmr := a\<rparr>) \<longleftrightarrow> wf_store S A"
  by (simp_all add: wf_index_def wf_store_def open_block_file_def)

lemma chain_to_extend:
  assumes "wf_index S A" "\<And>d h. header_at S A d = Some h \<Longrightarrow> header_at S A' d = Some h" "header_at S A d = Some h"
  shows "chain_to S A' d = chain_to S A d"
proof -
  have "chain_of S A' (height_of S h) d = chain_of S A (height_of S h) d" using assms(3)
  proof (induction "height_of S h" arbitrary: d h)
    case (Suc n)
    then have "d \<noteq> hash_of S (genesis_block A)" using genesis_unique [OF assms(1)] by (metis nat.distinct(1))
    from parent_stored [OF assms(1) Suc.prems this] obtain p where
      p: "header_at S A (prev_block_digest h) = Some p" "height_of S h = Suc (height_of S p)" .
    then have "n = height_of S p" using Suc.hyps(2) by simp
    from Suc.hyps(1) [OF this p(1)] show ?case using assms(2) [OF Suc.prems] Suc.prems p(2) by simp
  qed simp
  then show ?thesis using assms(2) [OF assms(3)] assms(3) by (simp add: chain_to_def)
qed

lemma header_at_after:
  assumes "wf_store S A" "wf_store S (A\<lparr>block_files := files_after A bytes, block_index_db := index_after S A b bytes fr ds tip\<rparr>)"
  shows "header_at S (A\<lparr>block_files := files_after A bytes, block_index_db := index_after S A b bytes fr ds tip\<rparr>) d =
    (if d = hash_of S b then Some (header b) else header_at S A d)"
proof (cases "d = hash_of S b")
  case True
  then show ?thesis by (simp add: header_at_def get_block_header_def index_after_def map_get_res_def new_record_def bind_res_def)
next
  case False
  then show ?thesis unfolding header_at_def
    by (subst get_block_header_cong [where A = A]) (simp_all add: index_after_def)
qed

text \<open>Storing a block keeps the index well-formed, and every block can be read as before.\<close>

lemma write_new_block:
  assumes "wf_index S A" "wf_store S A" "header_at S A (hash_of S b) = None"
    and "block_mutator_set_update (ae_env S) b = Inr (Inr u)" "serialize_block S b = Some bytes"
    and "bytes \<noteq> []" "deserialize_block S bytes = Some b" "length bytes < 2 ^ 61" "last_file_of A \<noteq> - 1"
    and "header_at S A (prev_block_digest (header b)) = Some ph" "height_of S (header b) = Suc (height_of S ph)" "height_of S (header b) < 2 ^ 60"
  shows "\<exists>A'. write_block_internal S A b tip = Inr (Inr A') \<and> wf_index S A' \<and> wf_store S A' \<and>
    header_at S A' = (header_at S A)(hash_of S b \<mapsto> header b) \<and>
    get_block S A' (hash_of S b) = Inr (Inr (Some b)) \<and> (\<forall>d. d \<noteq> hash_of S b \<longrightarrow> get_block S A' d = get_block S A d) \<and>
    genesis_block A' = genesis_block A \<and> archival_block_mmr A' = archival_block_mmr A \<and>
    block_index_db A' KeyBlockTipDigest =
      (if tip then Some (ValueBlockTipDigest (hash_of S b)) else block_index_db A KeyBlockTipDigest)"
proof -
  obtain fr ds where st: "store_block S A b = Inr (Inr
    ([(KeyFile (target_file A bytes), ValueFile fr), (KeyBlock (hash_of S b), ValueBlock (new_record S A b bytes)),
      (KeyLastFile, ValueLastFile (LastFileRecord (target_file A bytes))), (KeyHeight (height (header b)), ValueHeight ds)],
     A\<lparr>block_files := files_after A bytes\<rparr>))"
    using store_block_result [OF assms(2,4,5,6)] by blast
  let ?A = "A\<lparr>block_files := files_after A bytes, block_index_db := index_after S A b bytes fr ds tip\<rparr>"
  note wf = wf_store_after [OF assms(2,7,8,9), of fr ds tip]
  note hd = header_at_after [OF assms(2) wf]
  have get: "get_block_header S A (hash_of S b) = Inr None" using assms(1,3) by (simp add: wf_index_def)
  have w: "write_block_internal S A b tip = Inr (Inr ?A)"
    using batch_write_index [of A bytes fr S b ds tip]
    by (cases tip) (simp_all add: write_block_internal_def get bind_res_def st try_then_def)
  have gen: "hash_of S b \<noteq> hash_of S (genesis_block A)" using assms(1,3) by (auto simp: wf_index_def)
  have idx: "wf_index S ?A"
    unfolding wf_index_def
  proof (intro conjI allI impI)
    show "get_block_header S ?A d = Inr (header_at S ?A d)" for d using get_block_stored [OF wf, of d] by auto
    show "header_at S ?A (hash_of S (genesis_block ?A)) = Some (header (genesis_block ?A))" "height_of S (header (genesis_block ?A)) = 0"
      using assms(1) gen unfolding hd by (auto simp: wf_index_def)
    fix d h assume h: "header_at S ?A d = Some h"
    show "height_of S h < 2 ^ 60" using h assms(1,12) unfolding hd by (auto simp: wf_index_def split: if_splits)
    assume ne: "d \<noteq> hash_of S (genesis_block ?A)"
    show "\<exists>p. header_at S ?A (prev_block_digest h) = Some p \<and> height_of S h = Suc (height_of S p)"
    proof (cases "d = hash_of S b")
      case True
      then show ?thesis using h assms(3,10,11) unfolding hd by auto
    next
      case False
      then have "header_at S A d = Some h" "d \<noteq> hash_of S (genesis_block A)" using h ne unfolding hd by auto
      from parent_stored [OF assms(1) this] show ?thesis using assms(3) unfolding hd by (metis option.distinct(1))
    qed
  qed
  have lens: "\<And>n c. block_files ?A n = Some c \<Longrightarrow> length c < 2 ^ 62"
    using wf unfolding wf_store_def by (metis open_block_file_def option.case(2))
  have same: "get_block S ?A d = get_block S A d" if d: "d \<noteq> hash_of S b" for d
  proof (cases "block_index_db A (KeyBlock d)")
    case None
    then have "block_index_db ?A (KeyBlock d) = None" using d by (simp add: index_after_def)
    then show ?thesis using None by (simp add: get_block_def get_block_record_def map_get_res_def bind_res_def)
  next
    case (Some v)
    obtain r b' c where r: "v = ValueBlock r" "block_files A (file_index (br_location r)) = Some c"
        "unat (file_offset (br_location r)) + unat (block_length (br_location r)) \<le> length c"
        "deserialize_block S (take (unat (block_length (br_location r))) (drop (unat (file_offset (br_location r))) c)) = Some b'"
      using assms(2) Some unfolding wf_store_def by meson
    have "length c < 2 ^ 62" using assms(2) r(2) unfolding wf_store_def by (metis open_block_file_def option.case(2))
    then have old: "get_block_from_block_record S A r = Inr b'" by (rule get_block_from_record [OF r(2) _ r(3,4)])
    obtain c' where c': "block_files ?A (file_index (br_location r)) = Some c'"
        "unat (file_offset (br_location r)) + unat (block_length (br_location r)) \<le> length c'"
        "deserialize_block S (take (unat (block_length (br_location r))) (drop (unat (file_offset (br_location r))) c')) = Some b'"
      using slice_after [OF r(2,3), of bytes] r(4) by auto
    from get_block_from_record [OF c'(1) lens [OF c'(1)] c'(2,3)] have new: "get_block_from_block_record S ?A r = Inr b'" .
    have "block_index_db ?A (KeyBlock d) = Some v" using d Some by (simp add: index_after_def)
    then show ?thesis using Some r(1) old new by (simp add: get_block_def get_block_record_def map_get_res_def bind_res_def)
  qed
  have new: "get_block S ?A (hash_of S b) = Inr (Inr (Some b))"
  proof -
    let ?t = "target_file A bytes" and ?r = "new_record S A b bytes"
    have bound: "length (open_block_file A ?t) + length bytes < 2 ^ 62" using target_file_bounds [OF assms(2,8,9)] by simp
    have u: "unat (of_nat (length bytes) :: u64) = length bytes"
      "unat (of_nat (length (open_block_file A ?t)) :: u64) = length (open_block_file A ?t)"
      using bound by (auto intro!: unat_of_nat_u64)
    have f: "block_files ?A (file_index (br_location ?r)) = Some (open_block_file A ?t @ bytes)" by (simp add: files_after_def new_record_def)
    have "get_block_from_block_record S ?A ?r = Inr b"
      by (rule get_block_from_record [OF f lens [OF f]]) (simp_all add: new_record_def u assms(7))
    then show ?thesis by (simp add: get_block_def get_block_record_def index_after_def map_get_res_def bind_res_def)
  qed
  show ?thesis using w idx wf hd new same by (intro exI [of _ ?A]) (auto simp: index_after_def fun_eq_iff)
qed

lemma get_block_mmr [simp]: "get_block S (A\<lparr>archival_block_mmr := a\<rparr>) d = get_block S A d"
  by (cases "map_get_res as_block_record (block_index_db A (KeyBlock d))")
    (simp_all add: get_block_def get_block_record_def get_block_from_block_record_def bind_res_def split: option.split)

text \<open>The tip that the database names is the block read under its digest.\<close>

lemma get_tip_stored:
  assumes "get_block S A d = Inr (Inr (Some b))" "block_index_db A KeyBlockTipDigest = Some (ValueBlockTipDigest d)"
    and "d \<noteq> hash_of S (genesis_block A)"
  shows "get_tip S (A\<lparr>archival_block_mmr := a\<rparr>) = Inr b"
proof -
  obtain r where r: "get_block_record A d = Inr (Some r)" "get_block_from_block_record S A r = Inr b"
    using assms(1,3) unfolding get_block_def bind_res_def by (auto split: sum.splits option.splits if_splits)
  then have "get_block_record (A\<lparr>archival_block_mmr := a\<rparr>) d = Inr (Some r)"
    "get_block_from_block_record S (A\<lparr>archival_block_mmr := a\<rparr>) r = Inr b"
    by (simp_all add: get_block_record_def get_block_from_block_record_def)
  then show ?thesis using assms(2)
    by (simp add: get_tip_def get_tip_from_disk_def tip_block_record_def map_get_res_def bind_res_def expect_def)
qed

text \<open>The record of a file does not keep the smallest height: after a higher block it names the height that was the largest.\<close>

lemma file_record_loses_minimum:
  assumes "height_le F (max_block_height r) (height h)"
  shows "min_block_height (file_record_add F r n h) = max_block_height r"
  using assms by (simp add: file_record_add_def Let_def)

section \<open>An instance, and an archive with the genesis block only\<close>

text \<open>Ranges of symbolic digests in a list; the table of serialised blocks holds one block.\<close>

definition archive_tip5 :: "(sym, bfe) tip5" where
  "archive_tip5 = \<lparr>tip5_pair = SPair, tip5_varlen = (\<lambda>xs. SDigest (length xs)),
     tip5_values = (\<lambda>d. replicate 5 (bf_zero bfe_ops)), tip5_digest = (\<lambda>xs. SDigest 0), tip5_default = SDigest 0\<rparr>"

definition archive_block_env :: "(sym, sym list, unit, bfe, sym, unit) block_env" where
  "archive_block_env = (tree_env archive_tip5 bfe_ops sym_mmr (\<lambda>_. 0) (\<lambda>_. None) (SDigest 0))
     \<lparr>enc_proof := \<lambda>p. case p of GenesisProof \<Rightarrow> [bf_zero bfe_ops] | _ \<Rightarrow> []\<rparr>"

definition plain_block :: "u64 \<Rightarrow> sym \<Rightarrow> unit block_proof \<Rightarrow> (sym, sym list, unit, bfe, sym, unit) block" where
  "plain_block n prev p =
     \<lparr>block_kernel = \<lparr>bk_header = \<lparr>version = bf_zero bfe_ops, height = BlockHeight (bf_new bfe_ops n), prev_block_digest = prev,
         bh_timestamp = Timestamp (bf_zero bfe_ops), bh_pow = \<lparr>root = SDigest 0, path_a = [], path_b = [], nonce = SDigest 0\<rparr>,
         cumulative_proof_of_work = ProofOfWork [0, 0, 0, 0, 0, 0], bh_difficulty = Difficulty [2, 0, 0, 0, 0],
         guesser_receiver_data = \<lparr>receiver_digest = SDigest 0, lock_script_hash = SDigest 0\<rparr>\<rparr>,
       bk_body = \<lparr>body_kernel = \<lparr>tk_inputs = [], tk_outputs = [], announcements = [], fee = NativeCurrencyAmount 0, coinbase = None,
           tk_timestamp = Timestamp (bf_zero bfe_ops), mutator_set_hash = SDigest 0, merge_bit = False\<rparr>,
         mutator_set_accumulator = ms_default sym_mmr, lock_free_mmr_accumulator = [], block_mmr_accumulator = []\<rparr>,
       bk_appendix = BlockAppendix []\<rparr>,
      block_proof = p\<rparr>"

definition block_zero :: "(sym, sym list, unit, bfe, sym, unit) block" where
  "block_zero = plain_block 0 (SDigest 0) GenesisProof"

definition block_one :: "(sym, sym list, unit, bfe, sym, unit) block" where
  "block_one = plain_block 1 (SPair (SDigest 5) (SDigest 1)) (BlockSingleProof ())"

definition list_archive_env :: "(sym, sym list, unit, bfe, sym, unit, sym list) archive_env" where
  "list_archive_env = \<lparr>ae_env = archive_block_env, ae_vec = list_vec, ae_index = std_index,
     serialize_block = (\<lambda>b. if b = block_one then Some [1] else None),
     deserialize_block = (\<lambda>bytes. if bytes = [1] then Some block_one else None)\<rparr>"

abbreviation list_repr :: "sym list \<Rightarrow> sym list \<Rightarrow> bool" where
  "list_repr \<equiv> \<lambda>v xs. v = xs \<and> length xs < 2 ^ 64"

lemma list_archive_env_simps [simp]:
  "ae_vec list_archive_env = list_vec" "ae_index list_archive_env = std_index" "ae_env list_archive_env = archive_block_env"
  "env_crypto archive_block_env = sym_mmr" "env_field archive_block_env = bfe_ops"
  by (simp_all add: list_archive_env_def archive_block_env_def tree_env_def)

interpretation list_archive: archive_laws list_repr list_archive_env
proof (rule archive_laws.intro)
  show "archival_mmr list_repr (ae_vec list_archive_env) (ae_index list_archive_env) (crypto_of list_archive_env)"
    using list_mmr.archival_mmr_axioms by (simp only: list_archive_env_simps)
  show "bfield_laws (field_of list_archive_env)" using goldilocks.bfield_laws_axioms by simp
  show "archive_laws_axioms list_archive_env" by (simp add: list_archive_env_def archive_laws_axioms_def)
qed

lemma plain_block_hash:
  "block_hash archive_block_env (plain_block n prev p) = SPair (SDigest 5) (SDigest (if p = GenesisProof then 1 else 0))"
  by (cases p) (simp_all add: block_hash_def mast_hash_def mast_leafs_def block_mast_sequences_def pad_pow2_done halves_root.simps
      archive_block_env_def tree_env_def archive_tip5_def plain_block_def)

definition genesis_archive :: "(sym, sym list, unit, bfe, sym, unit, sym list) archival_state" where
  "genesis_archive = \<lparr>block_files = Map.empty, block_index_db = Map.empty, genesis_block = block_zero,
     archival_block_mmr = \<lparr>digests = [SDigest 0, SPair (SDigest 5) (SDigest 1)]\<rparr>\<rparr>"

lemma block_heights: "height_of list_archive_env (header block_zero) = 0" "height_of list_archive_env (header block_one) = 1"
  using goldilocks.value_new [of 0] goldilocks.value_new [of 1]
  by (simp_all add: block_zero_def block_one_def plain_block_def height_value_def bfe_P_def)

lemma block_hashes:
  "hash_of list_archive_env block_zero = SPair (SDigest 5) (SDigest 1)" "hash_of list_archive_env block_one = SPair (SDigest 5) (SDigest 0)"
  by (simp_all add: block_zero_def block_one_def plain_block_hash)

lemma genesis_header_at:
  "get_block_header list_archive_env genesis_archive d = Inr (header_at list_archive_env genesis_archive d)"
  "header_at list_archive_env genesis_archive d = (if d = SPair (SDigest 5) (SDigest 1) then Some (header block_zero) else None)"
  using block_hashes(1) by (simp_all add: header_at_def get_block_header_def genesis_archive_def map_get_res_def bind_res_def)

lemma genesis_archive_wf: "wf_archive list_repr list_archive_env genesis_archive (SPair (SDigest 5) (SDigest 1))"
proof -
  have g: "genesis_block genesis_archive = block_zero" "block_index_db genesis_archive = Map.empty" "block_files genesis_archive = Map.empty"
    by (simp_all add: genesis_archive_def)
  have i: "wf_index list_archive_env genesis_archive"
    unfolding wf_index_def g genesis_header_at block_hashes by (auto simp: block_heights [simplified])
  have s: "wf_store list_archive_env genesis_archive" unfolding wf_store_def g by (simp add: open_block_file_def g)
  have "chain_to list_archive_env genesis_archive (SPair (SDigest 5) (SDigest 1)) = [SPair (SDigest 5) (SDigest 1)]"
    using chain_to_genesis [OF i] unfolding g block_hashes .
  moreover have "list_archive.ammr_repr (archival_block_mmr genesis_archive) [SPair (SDigest 5) (SDigest 1)]"
    unfolding list_archive.ammr_repr_def by (simp add: layout_def genesis_archive_def ones.simps [of 0])
  ultimately show ?thesis using i s unfolding wf_archive_def g by (simp add: genesis_header_at block_hashes [simplified])
qed

lemma block_one_update: "block_mutator_set_update archive_block_env block_one =
    Inr (Inr \<lparr>removals = [], additions = [commit sym_mmr (SDigest 0) (SPair (SDigest 5) (SDigest 0)) (SDigest 0)]\<rparr>)"
proof -
  have ng: "\<not> is_genesis bfe_ops (height (header block_one))" using block_heights(2) goldilocks.is_genesis_iff by auto
  have fee: "fee (body_kernel (body block_one)) = NativeCurrencyAmount 0" "tk_inputs (block_tx block_one) = []" "tk_outputs (block_tx block_one) = []"
    "guesser_receiver_data (header block_one) = \<lparr>receiver_digest = SDigest 0, lock_script_hash = SDigest 0\<rparr>"
    by (simp_all add: block_one_def plain_block_def)
  have h: "block_hash archive_block_env block_one = SPair (SDigest 5) (SDigest 0)" using block_hashes(2) by simp
  have "try_unpack_inputs archive_block_env [] = Inr (Some [])"
    by (rule unpack_recent) (simp_all add: archive_block_env_def tree_env_def no_path_ops_def fitting_sets_def)
  moreover have "hash_utxo archive_block_env = utxo_lock_script_hash" by (simp add: archive_block_env_def tree_env_def)
  ultimately show ?thesis using ng
    by (simp add: block_mutator_set_update_def kernel_mutator_set_update_def kernel_all_addition_records_def
        kernel_guesser_fee_addition_records_def guesser_fee_utxos_def total_guesser_reward_def fee h bind_res_def is_negative_def)
qed

lemma genesis_chain: "chain_to list_archive_env genesis_archive (SPair (SDigest 5) (SDigest 1)) = [SPair (SDigest 5) (SDigest 1)]"
proof -
  have "wf_index list_archive_env genesis_archive" using genesis_archive_wf by (simp add: wf_archive_def)
  moreover have "genesis_block genesis_archive = block_zero" by (simp add: genesis_archive_def)
  ultimately show ?thesis using chain_to_genesis block_hashes(1) by metis
qed

lemma block_one_new:
  "header_at list_archive_env genesis_archive (hash_of list_archive_env block_one) = None"
  "serialize_block list_archive_env block_one = Some [1]" "deserialize_block list_archive_env [1] = Some block_one"
  "length [1 :: u8] < 2 ^ 61" "last_file_of genesis_archive \<noteq> - 1" "height_of list_archive_env (header block_one) < 2 ^ 60"
  "prev_block_digest (header block_one) = SPair (SDigest 5) (SDigest 1)"
  by (simp_all only: genesis_header_at block_hashes block_heights)
    (simp_all add: list_archive_env_def genesis_archive_def block_one_def plain_block_def)

lemma block_one_parent:
  "header_at list_archive_env genesis_archive (prev_block_digest (header block_one)) = Some (header block_zero)"
  "height_of list_archive_env (header block_one) = Suc (height_of list_archive_env (header block_zero))"
  by (simp_all only: block_one_new genesis_header_at block_heights, simp_all)

lemma write_block_one:
  "\<exists>A. write_block_internal list_archive_env genesis_archive block_one tip = Inr (Inr A) \<and> wf_index list_archive_env A \<and>
     header_at list_archive_env A = (header_at list_archive_env genesis_archive)(SPair (SDigest 5) (SDigest 0) \<mapsto> header block_one) \<and>
     genesis_block A = block_zero"
proof -
  have wf: "wf_index list_archive_env genesis_archive" "wf_store list_archive_env genesis_archive"
    using genesis_archive_wf by (simp_all add: wf_archive_def)
  have u: "block_mutator_set_update (ae_env list_archive_env) block_one = Inr (Inr \<lparr>removals = [],
      additions = [commit sym_mmr (SDigest 0) (SPair (SDigest 5) (SDigest 0)) (SDigest 0)]\<rparr>)" by (simp add: block_one_update)
  have "genesis_block genesis_archive = block_zero" by (simp add: genesis_archive_def)
  then show ?thesis
    using write_new_block [OF wf block_one_new(1) u block_one_new(2) _ block_one_new(3-5) block_one_parent block_one_new(6), of tip]
    unfolding block_hashes by auto
qed

section \<open>Properties\<close>

text \<open>(C18) The path between two stored blocks: \<^verbatim>\<open>find_path\<close> returns without panicking, and with the last common ancestor
  it returns, the chain to the start is the chain to the ancestor followed by the blocks to leave in reverse, and the chain
  to the stop is the chain to the ancestor followed by the blocks to arrive at. The ancestor is the last common one: the
  first blocks after it differ.\<close>

theorem path_between_blocks:
  assumes "bfield_laws (field_of S)" "wf_index S A" "header_at S A start = Some hs" "header_at S A stop = Some ht"
  shows "\<exists>leaving luca arriving. find_path S A start stop = Inr (leaving, luca, arriving) \<and> header_at S A luca \<noteq> None \<and>
    chain_to S A start = chain_to S A luca @ rev leaving \<and> chain_to S A stop = chain_to S A luca @ arriving \<and>
    (leaving = [] \<or> arriving = [] \<or> last leaving \<noteq> hd arriving)"
  by (rule find_path_chains [OF assms])

theorem path_between_blocks_witness:
  "\<exists>A. write_block_not_tip list_archive_env genesis_archive block_one = Inr (Inr A) \<and>
     find_path list_archive_env A (SPair (SDigest 5) (SDigest 0)) (SPair (SDigest 5) (SDigest 1)) =
       Inr ([SPair (SDigest 5) (SDigest 0)], SPair (SDigest 5) (SDigest 1), [])"
proof -
  let ?S = list_archive_env and ?g = "SPair (SDigest 5) (SDigest 1)" and ?d = "SPair (SDigest 5) (SDigest 0)"
  obtain A where A: "write_block_internal ?S genesis_archive block_one False = Inr (Inr A)" "wf_index ?S A"
      "header_at ?S A = (header_at ?S genesis_archive)(?d \<mapsto> header block_one)" "genesis_block A = block_zero"
    using write_block_one [of False] by blast
  have h: "header_at ?S A ?g = Some (header block_zero)" "header_at ?S A ?d = Some (header block_one)"
    by (simp_all add: A(3) genesis_header_at)
  have g: "chain_to ?S A ?g = [?g]" using chain_to_genesis [OF A(2)] unfolding A(4) block_hashes .
  have "chain_to ?S A ?d = chain_to ?S A (prev_block_digest (header block_one)) @ [?d]"
    by (rule chain_to_step [OF A(2) h(2)]) (simp only: A(4) block_hashes, simp)
  then have d: "chain_to ?S A ?d = [?g, ?d]" unfolding block_one_new(7) g by simp
  obtain leaving luca arriving where path: "find_path ?S A ?d ?g = Inr (leaving, luca, arriving)"
      "[?g, ?d] = chain_to ?S A luca @ rev leaving" "[?g] = chain_to ?S A luca @ arriving"
    using path_between_blocks [OF list_archive.fld.bfield_laws_axioms A(2) h(2,1)] unfolding g d by blast
  from path(3) have "chain_to ?S A luca = [?g]" "arriving = []" by (auto simp: Cons_eq_append_conv)
  then have "luca = ?g" "leaving = [?d]" using chain_to_last [of ?S A luca] path(2) by (simp_all add: rev_swap)
  then show ?thesis using A(1) path(1) \<open>arriving = []\<close> by (intro exI [of _ A]) (simp add: write_block_not_tip_def)
qed

text \<open>(C17) A new tip, on the old tip or on any stored block (a reorganisation): writing it and adding it to the range succeed,
  and the archive is well-formed with the new tip: the range holds exactly the chain to the new tip, which is the chain to
  its predecessor followed by it; the tip and every other block can be read back, and exactly the blocks of the chain
  count as canonical.\<close>

theorem new_tip_canonical:
  assumes laws: "archive_laws repr S" and wf: "wf_archive repr S A tip" and new: "header_at S A (hash_of S b) = None"
    and b: "block_mutator_set_update (ae_env S) b = Inr (Inr u)" "serialize_block S b = Some bytes"
    and size: "length bytes < 2 ^ 61" "last_file_of A \<noteq> - 1" "height_of S (header b) < 2 ^ 60"
    and parent: "header_at S A (prev_block_digest (header b)) = Some ph" "height_of S (header b) = Suc (height_of S ph)"
  shows "\<exists>A1 A2. write_block_as_tip S A b = Inr (Inr A1) \<and> append_to_archival_block_mmr S A1 b = Inr A2 \<and>
    wf_archive repr S A2 (hash_of S b) \<and> chain_to S A2 (hash_of S b) = chain_to S A (prev_block_digest (header b)) @ [hash_of S b] \<and>
    get_tip S A2 = Inr b \<and> get_block S A2 = (get_block S A)(hash_of S b := Inr (Inr (Some b))) \<and>
    (\<forall>d. block_belongs_to_canonical_chain S A2 d = Inr (d \<in> set (chain_to S A2 (hash_of S b))))"
proof -
  let ?d = "hash_of S b" and ?p = "prev_block_digest (header b)"
  have bytes: "bytes \<noteq> []" "deserialize_block S bytes = Some b" using archive_laws.deserialize [OF laws b(2)] by auto
  obtain th where old: "wf_index S A" "wf_store S A" "header_at S A tip = Some th"
      "archival_mmr.ammr_repr repr (crypto_of S) (archival_block_mmr A) (chain_to S A tip)"
    using wf by (auto simp: wf_archive_def)
  obtain A1 where A1: "write_block_internal S A b True = Inr (Inr A1)" "wf_index S A1" "wf_store S A1"
      "header_at S A1 = (header_at S A)(?d \<mapsto> header b)" "get_block S A1 ?d = Inr (Inr (Some b))"
      "\<forall>d. d \<noteq> ?d \<longrightarrow> get_block S A1 d = get_block S A d" "genesis_block A1 = genesis_block A"
      "archival_block_mmr A1 = archival_block_mmr A" "block_index_db A1 KeyBlockTipDigest = Some (ValueBlockTipDigest ?d)"
    using write_new_block [OF old(1,2) new b bytes size(1,2) parent size(3), of True] by auto
  have ext: "header_at S A1 d = Some h" if "header_at S A d = Some h" for d h using that new A1(4) by auto
  note chain = chain_to_extend [OF old(1) ext]
  have "archival_mmr.ammr_repr repr (crypto_of S) (archival_block_mmr A1) (chain_to S A1 tip)"
    using old(4) chain [OF _ old(3)] A1(8) by simp
  from archive_laws.append_canonical [OF laws A1(2) ext [OF old(3)] this ext [OF parent(1)] parent(2)] obtain a where
    a: "append_to_archival_block_mmr S A1 b = Inr (A1\<lparr>archival_block_mmr := a\<rparr>)"
      "archival_mmr.ammr_repr repr (crypto_of S) a (chain_to S A1 ?p @ [?d])" by blast
  let ?A = "A1\<lparr>archival_block_mmr := a\<rparr>"
  have gen: "?d \<noteq> hash_of S (genesis_block A1)" using old(1) new A1(7) by (auto simp: wf_index_def)
  have top: "header_at S A1 ?d = Some (header b)" by (simp add: A1(4))
  have ch: "chain_to S A1 ?d = chain_to S A ?p @ [?d]" using chain_to_step [OF A1(2) top gen] chain [OF _ parent(1)] by simp
  have fin: "archival_mmr.ammr_repr repr (crypto_of S) a (chain_to S A1 ?d)" using a(2) chain_to_step [OF A1(2) top gen] by simp
  have wf': "wf_archive repr S ?A ?d" using A1(2,3,9) top fin by (simp add: wf_archive_def)
  have tip: "get_tip S ?A = Inr b" using A1(5,9) gen by (rule get_tip_stored)
  have blocks: "get_block S ?A = (get_block S A)(?d := Inr (Inr (Some b)))" using A1(5,6) by (auto simp: fun_eq_iff)
  have "block_belongs_to_canonical_chain S ?A d = Inr (d \<in> set (chain_to S ?A ?d))" for d
    using archive_laws.belongs_iff [OF laws, of ?A ?d "header b" d] A1(2) top fin by simp
  then show ?thesis using A1(1) a(1) wf' ch tip blocks
    by (intro exI [of _ A1] exI [of _ ?A]) (simp add: write_block_as_tip_def)
qed

theorem new_tip_canonical_witness:
  "\<exists>A1 A2. write_block_as_tip list_archive_env genesis_archive block_one = Inr (Inr A1) \<and>
    append_to_archival_block_mmr list_archive_env A1 block_one = Inr A2 \<and> get_tip list_archive_env A2 = Inr block_one \<and>
    chain_to list_archive_env A2 (SPair (SDigest 5) (SDigest 0)) = [SPair (SDigest 5) (SDigest 1), SPair (SDigest 5) (SDigest 0)]"
proof -
  let ?S = "list_archive_env" and ?A = genesis_archive and ?g = "SPair (SDigest 5) (SDigest 1)"
  have u: "block_mutator_set_update (ae_env ?S) block_one = Inr (Inr \<lparr>removals = [],
      additions = [commit sym_mmr (SDigest 0) (SPair (SDigest 5) (SDigest 0)) (SDigest 0)]\<rparr>)" by (simp add: block_one_update)
  from genesis_chain new_tip_canonical [OF list_archive.archive_laws_axioms genesis_archive_wf block_one_new(1) u block_one_new(2,4-6) block_one_parent] show ?thesis
    unfolding block_one_new(7) block_hashes by auto
qed

end
