(* ===== verification/Spec2Isabelle.thy ===== *)
theory Spec2Isabelle
  imports Difficulty_Control Sync_Mask Storage_Map Mempool_Properties Removal_Record_Unpacking Chain Peer Archival_State
begin

text \<open>
  \<^bold>\<open>A verification library of Nyksnode.\<close> Nyksnode is a full node of a privacy-preserving proof-of-work blockchain.
  This library models the parts of it that decide what the node accepts and keeps: the consensus crate
  (\<^verbatim>\<open>src/consensus\<close>), the transaction pool of the node (\<^verbatim>\<open>src/node/src/state/mempool.rs\<close>), its
  archive of blocks (\<^verbatim>\<open>src/node/src/state/archival_state.rs\<close>), the persistent storage layer (\<^verbatim>\<open>src/database/src/storage\<close>) and the bookkeeping with which peers synchronise
  (\<^verbatim>\<open>src/p2p\<close>). File names below are relative to \<^verbatim>\<open>src/\<close>.

  \<^bold>\<open>How the parts interact.\<close> A UTXO is a commitment in the append-only list of the mutator set. Spending it sets 45
  pseudo-random positions in a Bloom filter, of which a window is kept in full and the rest as the peaks of a Merkle
  mountain range (MMR). A transaction kernel names its inputs by removal records, and its outputs by addition records.
  A block carries one merged transaction; validating it applies the removals and additions of the transaction to the
  mutator set after its predecessor, and compares difficulty, cumulative work, subsidy, time and size with the rules.
  The mempool keeps transactions that could enter a block, at most one for every input, and follows the tip of the
  chain. Archival data and wallet data live in vectors, maps and singletons over one key-value store with batched
  writes. The archive appends blocks to files, finds them by an index database, and keeps the digests of the canonical
  chain in an archival MMR over a persistent vector; a reorganisation replaces leafs along the path between two blocks.
  Peers tell each other which heights they have by a bit mask.

  \<^bold>\<open>Conventions\<close> (\<^verbatim>\<open>Nyks_Prelude\<close>). Machine integers are words of their width. A function that may panic returns
  \<^verbatim>\<open>'a res\<close>, a sum whose left side names the panic; \<^verbatim>\<open>bind_res\<close> sequences; an \<^verbatim>\<open>Option\<close> or \<^verbatim>\<open>Result\<close> of the source is an option or
  a further sum below it. Mutation is explicit state passing. Asynchronous code is modelled as the sequence of
  operations that its exclusive lock enforces. Code outside the repository is a parameter: a record of operations
  (\<^verbatim>\<open>'f bfield\<close>, \<^verbatim>\<open>crypto\<close>, \<^verbatim>\<open>tip5\<close>, \<^verbatim>\<open>store_env\<close>, \<^verbatim>\<open>dpq\<close>, \<^verbatim>\<open>block_env\<close> and others), whose documented laws are the \<^verbatim>\<open>assumes\<close> of a
  locale. Every locale is interpreted on a concrete instance (the Goldilocks field; symbolic hashes, which are injective
  because they keep what they hashed; a list as priority queue; an association list as database), so no law is
  contradictory, and the witnesses of the theorems are evaluated there.

  \<^bold>\<open>Theories, in the order in which they build on each other.\<close>

  \<^item> \<^verbatim>\<open>Native_Currency\<close>: \<^verbatim>\<open>consensus/src/type_scripts/native_currency_amount.rs\<close>. Amounts are 128-bit signed integers of
    nau. Checked arithmetic is exact on the valid range, the running balance equals a clamped reference sum, lossless
    printing and parsing are inverse; the rounding of \<^verbatim>\<open>display_n_decimals\<close> is characterised with its defects.
  \<^item> \<^verbatim>\<open>Time_Height\<close>: \<^verbatim>\<open>timestamp.rs\<close>, \<^verbatim>\<open>block_height.rs\<close>, on the field of \<^verbatim>\<open>BFieldElement\<close> (locale \<^verbatim>\<open>bfield_laws\<close>).
  \<^item> \<^verbatim>\<open>Limbs\<close>, \<^verbatim>\<open>Difficulty_Control\<close>: \<^verbatim>\<open>difficulty_control.rs\<close>. Difficulties and cumulative work as little-endian 32-bit
    limbs represent numbers; the controller changes the difficulty in the right direction by a bounded factor.
  \<^item> \<^verbatim>\<open>Network\<close>: \<^verbatim>\<open>network.rs\<close>, \<^verbatim>\<open>consensus_rule_set.rs\<close>.
  \<^item> \<^verbatim>\<open>Chunk\<close>, \<^verbatim>\<open>Active_Window\<close>, \<^verbatim>\<open>Chunk_Dictionary\<close>, \<^verbatim>\<open>Absolute_Index_Set\<close>: the parts of removal records and of the Bloom
    filter. A chunk is a multiset, its packed form is a bijection onto what the unpacker accepts, the dictionary
    is a finite map (locale \<^verbatim>\<open>map_dictionary\<close>).
  \<^item> \<^verbatim>\<open>Mutator_Set\<close>: \<^verbatim>\<open>mutator_set_accumulator.rs\<close>, \<^verbatim>\<open>removal_record.rs\<close> (validity). Reachable mutator sets represent an
    abstract filter (a count for every position); additions keep it, removals increase it at the positions of the
    record; a removed record can never be removed again; fresh membership proofs verify (locale \<^verbatim>\<open>mutator_set_crypto\<close>).
  \<^item> \<^verbatim>\<open>Mutator_Set_Update\<close>: \<^verbatim>\<open>mutator_set_update.rs\<close> and the batch updates of removal records it calls. An accepted update
    is a sequence of accepted steps of the mutator set, and spends every index set at most once.
  \<^item> \<^verbatim>\<open>Removal_Record_List\<close>, \<^verbatim>\<open>Removal_Record_Packing\<close>, \<^verbatim>\<open>Removal_Record_Unpacking\<close>: \<^verbatim>\<open>removal_record_list.rs\<close>, the dense form in
    which the removal records of a block travel. Records that agree with one Merkle mountain range (locales
    \<^verbatim>\<open>rrl_laws\<close>, \<^verbatim>\<open>range_view\<close>, \<^verbatim>\<open>merkle_range\<close>) survive packing and unpacking; what unpacking accepts fits the window of
    the mutator set, which the theorems on chains use; three kinds of input on which it panics.
  \<^item> \<^verbatim>\<open>Pow\<close>: \<^verbatim>\<open>pow.rs\<close>. The in-place Merkle tree of the guesser is the recursive Merkle tree over the permuted leafs; what
    \<^verbatim>\<open>guess\<close> returns is accepted by \<^verbatim>\<open>validate\<close>.
  \<^item> \<^verbatim>\<open>Transaction_Kernel\<close>: \<^verbatim>\<open>transaction_kernel.rs\<close>, \<^verbatim>\<open>transaction_kernel_id.rs\<close>, \<^verbatim>\<open>transaction_proof.rs\<close>, and merging.
  \<^item> \<^verbatim>\<open>Block_Data\<close>, \<^verbatim>\<open>Block\<close>: the block tree, its hashes, \<^verbatim>\<open>validate\<close>, \<^verbatim>\<open>has_proof_of_work\<close>, the subsidy table and fork
    choice of \<^verbatim>\<open>block/mod.rs\<close> (locale \<^verbatim>\<open>merkle_laws\<close>). The hash computed from the tree, from a header with its witness
    and from the paths of the puzzle agree, and a guessed block has proof-of-work.
  \<^item> \<^verbatim>\<open>Chain\<close>: chains of validated blocks as an inductive predicate (locale \<^verbatim>\<open>chain_laws\<close>). No index set is spent twice on a
    chain, headers count and accumulate exactly, and the coinbases stay within the emission schedule.
  \<^item> \<^verbatim>\<open>Mempool_Event\<close>, \<^verbatim>\<open>Mempool\<close>, \<^verbatim>\<open>Mempool_Invariant\<close>, \<^verbatim>\<open>Mempool_Properties\<close>: \<^verbatim>\<open>node/src/state/mempool.rs\<close> and its event and
    cache modules. No two transactions in a reachable mempool share an input, events describe the change exactly, and
    after a block only transactions that are still mineable remain (locales \<^verbatim>\<open>dpq_laws\<close>, \<^verbatim>\<open>mempool_laws\<close>).
  \<^item> \<^verbatim>\<open>Storage\<close>, \<^verbatim>\<open>Storage_Vec\<close>, \<^verbatim>\<open>Storage_Map\<close>: \<^verbatim>\<open>database/src/storage\<close>. The persistent vector and the in-memory vector
    implement one contract (locale \<^verbatim>\<open>storage_vec\<close>); the persistent map is a finite map; what is persisted is read back.
  \<^item> \<^verbatim>\<open>Archival_Mmr\<close>: \<^verbatim>\<open>node/src/util_types/archival_mmr.rs\<close>, over any vector that keeps the contract (locale \<^verbatim>\<open>archival_mmr\<close>). The
    operations are those of the list of leafs; peaks and authentication paths are those of the recursive Merkle trees.
  \<^item> \<^verbatim>\<open>Archival_State\<close>: \<^verbatim>\<open>node/src/state/archival_state.rs\<close>, \<^verbatim>\<open>database.rs\<close>, \<^verbatim>\<open>shared.rs\<close> (locale \<^verbatim>\<open>archive_laws\<close>). Stored blocks are read
    back, \<^verbatim>\<open>find_path\<close> returns the path over the last common ancestor, and after a new tip, on the old one or on a fork,
    the range holds exactly the chain to it.
  \<^item> \<^verbatim>\<open>Sync_Mask\<close>: \<^verbatim>\<open>p2p/src/peer/synchronization_bit_mask.rs\<close>.
  \<^item> \<^verbatim>\<open>Peer\<close>: \<^verbatim>\<open>p2p/src/peer.rs\<close> and the modules below \<^verbatim>\<open>p2p/src/peer\<close>. Standing and sanctions, handshake, the messages and what
    they carry, sync challenges and the checks of a response. Standings stay within the tolerance, generating a
    challenge ends for a fair generator, and the responses on which the check of the proof-of-work panics are
    characterised. Versions, random numbers and floating-point arithmetic are parameters.

  \<^bold>\<open>Bounds.\<close> Loops are structural recursion, or recursion with a proved measure. Two loops of \<^verbatim>\<open>find_path\<close> follow
  predecessors that a database names; they carry one round more than the two heights together, and the theorem on
  paths shows that this is enough on every well-formed index. The theorems on the archive assume heights below \<open>2 ^ 60\<close>
  and fewer than \<open>2 ^ 61\<close> leafs. The theorems on the mutator set assume fewer than \<open>2 ^ 63\<close> outputs, those on chains at most \<open>2 ^ 48\<close> blocks (\<open>2 ^ 32\<close> for headers): beyond
  that the 64-bit counters of the source wrap. The supply theorem covers the first 79 million blocks.

  \<^bold>\<open>Not modelled.\<close> Programs in triton assembly and the prover (the virtual machine is not in the repository; a claim and
  a proof are parameters), floating-point conversions, random sampling, wall-clock formatting, the JSON-RPC interface,
  the libp2p actor and the tokio loops (I/O), the archival mutator set, the directories and handles of the archive, LevelDB, wallet address encodings and WebAssembly bindings.
\<close>

end
